(* ===== verification/Prelude.thy ===== *)
theory Prelude
  imports Main "HOL-Library.Word" "HOL-Library.AList"
begin

text \<open>
  Shared vocabulary of the development: the Rust \<open>Result\<close> type with its early-return
  combinators, bounded unsigned arithmetic on \<open>nat\<close> (the checked and saturating operations
  of \<open>usize\<close> and \<open>u64\<close>), hash tables as association lists, stable sorting by a
  lexicographic comparison, and the generic lemmas on them that the component theories use.
\<close>

unbundle bit_operations_syntax

named_theorems result_simps \<open>evaluation and inversion of early returns\<close>
named_theorems table_simps \<open>lookup, update and removal in hash tables\<close>

type_synonym byte = "8 word"
type_synonym u16 = "16 word"
type_synonym u32 = "32 word"
type_synonym u64 = "64 word"

section \<open>Results and early returns\<close>

text \<open>
  A fallible Rust function returns \<open>Inl error\<close> or \<open>Inr value\<close>. \<open>bind_result\<close> is the
  \<open>?\<close> operator, \<open>ensure\<close> is \<open>if !condition { return Err(error) }\<close>, \<open>map_err\<close> is \<open>map_err\<close>, and
  \<open>try_map\<close> is \<open>iter().map(f).collect::<Result<Vec<_>, _>>()\<close>.
\<close>

definition bind_result :: "'e + 'a \<Rightarrow> ('a \<Rightarrow> 'e + 'b) \<Rightarrow> 'e + 'b" where
  "bind_result m f = (case m of Inl e \<Rightarrow> Inl e | Inr x \<Rightarrow> f x)"

definition ensure :: "bool \<Rightarrow> 'e \<Rightarrow> 'e + unit" where
  "ensure c e = (if c then Inr () else Inl e)"

definition of_option :: "'e \<Rightarrow> 'a option \<Rightarrow> 'e + 'a" where
  "of_option e v = (case v of None \<Rightarrow> Inl e | Some x \<Rightarrow> Inr x)"

definition map_err :: "('e \<Rightarrow> 'f) \<Rightarrow> 'e + 'a \<Rightarrow> 'f + 'a" where
  "map_err f r = (case r of Inl e \<Rightarrow> Inl (f e) | Inr x \<Rightarrow> Inr x)"

fun try_map :: "('a \<Rightarrow> 'e + 'b) \<Rightarrow> 'a list \<Rightarrow> 'e + 'b list" where
  "try_map f [] = Inr []"
| "try_map f (x # xs) =
     bind_result (f x) (\<lambda>y. bind_result (try_map f xs) (\<lambda>ys. Inr (y # ys)))"

definition is_ok :: "'e + 'a \<Rightarrow> bool" where
  "is_ok r = (case r of Inl _ \<Rightarrow> False | Inr _ \<Rightarrow> True)"

lemma bind_result_Inl [simp]: "bind_result (Inl e) f = Inl e"
  by (simp add: bind_result_def)

lemma bind_result_Inr [simp]: "bind_result (Inr x) f = f x"
  by (simp add: bind_result_def)

lemma bind_result_eq_Inr [result_simps]:
  "bind_result m f = Inr y \<longleftrightarrow> (\<exists>x. m = Inr x \<and> f x = Inr y)"
  by (auto simp: bind_result_def split: sum.splits)

lemma bind_result_eq_Inl [result_simps]:
  "bind_result m f = Inl e \<longleftrightarrow> m = Inl e \<or> (\<exists>x. m = Inr x \<and> f x = Inl e)"
  by (auto simp: bind_result_def split: sum.splits)

lemma bind_result_assoc: "bind_result (bind_result m f) g = bind_result m (\<lambda>x. bind_result (f x) g)"
  by (cases m) auto

lemma ensure_True [simp]: "ensure True e = Inr ()"
  by (simp add: ensure_def)

lemma ensure_False [simp]: "ensure False e = Inl e"
  by (simp add: ensure_def)

lemma ensure_eq_Inr [result_simps, simp]: "ensure c e = Inr u \<longleftrightarrow> c"
  by (simp add: ensure_def)

lemma ensure_eq_Inl [result_simps, simp]: "ensure c e = Inl e' \<longleftrightarrow> \<not> c \<and> e' = e"
  by (auto simp: ensure_def)

lemma of_option_simps [simp]: "of_option e None = Inl e" "of_option e (Some x) = Inr x"
  by (simp_all add: of_option_def)

lemma of_option_eq_Inr [result_simps]: "of_option e v = Inr x \<longleftrightarrow> v = Some x"
  by (cases v) auto

lemma map_err_simps [simp]: "map_err f (Inl e) = Inl (f e)" "map_err f (Inr x) = Inr x"
  by (simp_all add: map_err_def)

lemma map_err_eq_Inr [result_simps]: "map_err f r = Inr x \<longleftrightarrow> r = Inr x"
  by (cases r) auto

lemma map_err_eq_Inl [result_simps]: "map_err f r = Inl e \<longleftrightarrow> (\<exists>e'. r = Inl e' \<and> e = f e')"
  by (cases r) auto

lemma is_ok_simps [simp]: "is_ok (Inr x)" "\<not> is_ok (Inl e)"
  by (simp_all add: is_ok_def)

lemma try_map_length: "try_map f xs = Inr ys \<Longrightarrow> length ys = length xs"
  by (induction xs arbitrary: ys) (auto simp: result_simps)

lemma try_map_nth: "try_map f xs = Inr ys \<Longrightarrow> i < length xs \<Longrightarrow> f (xs ! i) = Inr (ys ! i)"
  by (induction xs arbitrary: ys i) (auto simp: result_simps nth_Cons split: nat.splits)

lemma try_map_total: "(\<And>x. x \<in> set xs \<Longrightarrow> f x = Inr (g x)) \<Longrightarrow> try_map f xs = Inr (map g xs)"
  by (induction xs) auto

lemma try_map_exists: "(\<And>x. x \<in> set xs \<Longrightarrow> \<exists>y. f x = Inr y) \<Longrightarrow> \<exists>ys. try_map f xs = Inr ys"
proof (induction xs)
  case Nil
  then show ?case by simp
next
  case (Cons x xs)
  then obtain y ys where "f x = Inr y" "try_map f xs = Inr ys" by force
  then show ?case by simp
qed

lemma try_map_map: "try_map f (map g xs) = try_map (\<lambda>x. f (g x)) xs"
  by (induction xs) auto

lemma try_map_list_all2:
  "try_map f xs = Inr ys \<Longrightarrow> (\<And>x y. x \<in> set xs \<Longrightarrow> f x = Inr y \<Longrightarrow> P x y) \<Longrightarrow> list_all2 P xs ys"
  by (induction xs arbitrary: ys) (auto simp: result_simps)

lemma try_map_set: "try_map f xs = Inr ys \<Longrightarrow> y \<in> set ys \<Longrightarrow> \<exists>x\<in>set xs. f x = Inr y"
  by (induction xs arbitrary: ys) (auto simp: result_simps)

lemma try_map_all: "try_map f xs = Inr ys \<Longrightarrow> x \<in> set xs \<Longrightarrow> \<exists>y \<in> set ys. f x = Inr y"
  by (induction xs arbitrary: ys) (auto simp: result_simps)

lemma try_map_eq_map:
  "try_map f xs = Inr ys \<Longrightarrow> (\<And>x y. x \<in> set xs \<Longrightarrow> f x = Inr y \<Longrightarrow> g y = h x) \<Longrightarrow> map g ys = map h xs"
  by (induction xs arbitrary: ys) (auto simp: result_simps)

section \<open>Bounded unsigned arithmetic\<close>

text \<open>
  Byte counts, token counts and timestamps are \<open>u64\<close> or \<open>usize\<close> (64 bits on both
  supported architectures). They are modelled by \<open>nat\<close> with the bound written out at every
  operation whose overflow the source handles.
\<close>

definition u64_max :: nat where "u64_max = 2 ^ 64 - 1"
definition u32_max :: nat where "u32_max = 2 ^ 32 - 1"

definition checked_add64 :: "nat \<Rightarrow> nat \<Rightarrow> nat option" where
  "checked_add64 a b = (if a + b \<le> u64_max then Some (a + b) else None)"

definition checked_mul64 :: "nat \<Rightarrow> nat \<Rightarrow> nat option" where
  "checked_mul64 a b = (if a * b \<le> u64_max then Some (a * b) else None)"

definition saturating_add64 :: "nat \<Rightarrow> nat \<Rightarrow> nat" where
  "saturating_add64 a b = min (a + b) u64_max"

lemma checked_add64_Some [simp]:
  "checked_add64 a b = Some c \<longleftrightarrow> a + b \<le> u64_max \<and> c = a + b"
  by (auto simp: checked_add64_def)

lemma checked_mul64_Some [simp]:
  "checked_mul64 a b = Some c \<longleftrightarrow> a * b \<le> u64_max \<and> c = a * b"
  by (auto simp: checked_mul64_def)

lemma saturating_add64_le: "saturating_add64 a b \<le> a + b" "saturating_add64 a b \<le> u64_max"
  by (simp_all add: saturating_add64_def)

lemma saturating_add64_ge: "a \<le> u64_max \<Longrightarrow> a \<le> saturating_add64 a b"
  by (simp add: saturating_add64_def)

section \<open>Hash tables as association lists\<close>

text \<open>
  A \<open>HashMap\<close> is an association list with distinct keys; the list order stands for the
  table's unspecified iteration order. \<open>AList.update\<close> is \<open>insert\<close>, \<open>AList.delete\<close> is
  \<open>remove\<close>, \<open>map_of\<close> is \<open>get\<close>.
\<close>

abbreviation table_ok :: "('k \<times> 'v) list \<Rightarrow> bool" where
  "table_ok t \<equiv> distinct (map fst t)"

definition table_sum :: "('v \<Rightarrow> nat) \<Rightarrow> ('k \<times> 'v) list \<Rightarrow> nat" where
  "table_sum f t = sum_list (map (f \<circ> snd) t)"

lemma table_sum_simps [simp]:
  "table_sum f [] = 0"
  "table_sum f (kv # t) = f (snd kv) + table_sum f t"
  by (simp_all add: table_sum_def)

lemma table_ok_delete [table_simps, simp]: "table_ok t \<Longrightarrow> table_ok (AList.delete k t)"
  by (rule distinct_delete)

lemma table_ok_update [table_simps, simp]: "table_ok t \<Longrightarrow> table_ok (AList.update k v t)"
  by (rule distinct_update)

lemma table_sum_delete_absent: "map_of t k = None \<Longrightarrow> table_sum f (AList.delete k t) = table_sum f t"
  by (induction t) (auto split: if_splits)

lemma delete_absent: "k \<notin> fst ` set t \<Longrightarrow> AList.delete k t = t"
  by (induction t) auto

lemma table_sum_delete:
  "table_ok t \<Longrightarrow> map_of t k = Some v \<Longrightarrow> table_sum f t = f v + table_sum f (AList.delete k t)"
proof (induction t)
  case Nil
  then show ?case by simp
next
  case (Cons kv t)
  show ?case
  proof (cases "fst kv = k")
    case True
    with Cons.prems have "v = snd kv" "AList.delete k t = t"
      by (auto intro!: delete_absent)
    with True show ?thesis by simp
  next
    case False
    with Cons show ?thesis by (auto split: if_splits)
  qed
qed

lemma table_sum_update_absent:
  "map_of t k = None \<Longrightarrow> table_sum f (AList.update k v t) = f v + table_sum f t"
  by (induction t) (auto split: if_splits)

lemma table_sum_update:
  "table_ok t \<Longrightarrow> map_of t k = Some v \<Longrightarrow> f w + table_sum f t = f v + table_sum f (AList.update k w t)"
proof (induction t)
  case Nil
  then show ?case by simp
next
  case (Cons kv t)
  then show ?case by (cases kv) (auto split: if_splits)
qed

lemma table_sum_ge: "map_of t k = Some v \<Longrightarrow> f v \<le> table_sum f t"
  by (induction t) (auto split: if_splits)

lemma set_delete [table_simps]: "set (AList.delete k t) = {kv \<in> set t. fst kv \<noteq> k}"
  by (auto simp: AList.delete_eq)

lemma map_of_delete_if [table_simps]:
  "map_of (AList.delete k t) k' = (if k' = k then None else map_of t k')"
  by (simp add: delete_conv')

lemma map_of_update_if [table_simps]:
  "map_of (AList.update k v t) k' = (if k' = k then Some v else map_of t k')"
  by (simp add: update_conv')

lemma length_delete_present:
  "table_ok t \<Longrightarrow> map_of t k = Some v \<Longrightarrow> length t = Suc (length (AList.delete k t))"
proof (induction t)
  case Nil
  then show ?case by simp
next
  case (Cons kv t)
  then show ?case by (cases "fst kv = k") (auto simp: delete_absent split: if_splits)
qed

lemma length_update_absent: "map_of t k = None \<Longrightarrow> length (AList.update k v t) = Suc (length t)"
  by (induction t) (auto split: if_splits)

lemma length_update_present: "map_of t k = Some w \<Longrightarrow> length (AList.update k v t) = length t"
  by (induction t) (auto split: if_splits)

lemma map_of_in_set: "table_ok t \<Longrightarrow> (k, v) \<in> set t \<longleftrightarrow> map_of t k = Some v"
  by (metis map_of_eq_Some_iff)

section \<open>Ranges\<close>

text \<open>
  \<open>(a..b).step_by(k)\<close>. A step of zero panics in Rust; the callers that can pass one have a branch for
  it.
\<close>

function step_by :: "nat \<Rightarrow> nat \<Rightarrow> nat \<Rightarrow> nat list" where
  "step_by a b k = (if a < b \<and> 0 < k then a # step_by (a + k) b k else [])"
  by pat_completeness auto
termination by (relation "measure (\<lambda>(a, b, k). b - a)") auto

declare step_by.simps [simp del]

lemma step_by_bounds: "s \<in> set (step_by a b k) \<Longrightarrow> a \<le> s \<and> s < b"
proof (induction a b k rule: step_by.induct)
  case (1 a b k)
  then show ?case by (subst (asm) (2) step_by.simps) (auto split: if_splits)
qed

lemma step_by_covers: "0 < k \<Longrightarrow> a \<le> x \<Longrightarrow> x < b \<Longrightarrow> \<exists>s \<in> set (step_by a b k). s \<le> x \<and> x < s + k"
proof (induction a b k rule: step_by.induct)
  case (1 a b k)
  then show ?case by (cases "x < a + k"; subst step_by.simps) auto
qed

end
