(* ===== verification/ByteCodec.thy ===== *)
theory ByteCodec
  imports Prelude
begin

text \<open>
  Little-endian fixed-width encodings (\<open>to_le_bytes\<close> and \<open>from_le_bytes\<close>), byte ranges of
  a buffer (\<open>&buffer[a..b]\<close>, \<open>copy_from_slice\<close>) and the round-trip and frame lemmas the two
  record formats of the program share.
\<close>

section \<open>Little-endian words\<close>

primrec to_le :: "nat \<Rightarrow> 'a::len word \<Rightarrow> byte list" where
  "to_le 0 w = []"
| "to_le (Suc n) w = ucast w # to_le n (drop_bit 8 w)"

primrec from_le :: "byte list \<Rightarrow> 'a::len word" where
  "from_le [] = 0"
| "from_le (b # bs) = ucast b OR push_bit 8 (from_le bs)"

lemma length_to_le [simp]: "length (to_le n w) = n"
  by (induction n arbitrary: w) auto

lemma from_to_le_take_bit: "from_le (to_le n w) = take_bit (8 * n) (w :: 'a::len word)"
proof (induction n arbitrary: w)
  case 0
  then show ?case by simp
next
  case (Suc n)
  show ?case
  proof (rule bit_word_eqI)
    fix k
    assume "k < LENGTH('a)"
    then show "bit (from_le (to_le (Suc n) w) :: 'a word) k \<longleftrightarrow> bit (take_bit (8 * Suc n) w) k"
      by (auto simp: Suc bit_or_iff bit_push_bit_iff bit_take_bit_iff bit_ucast_iff bit_drop_bit_eq
          bit_imp_le_length)
  qed
qed

lemma from_to_le [simp]: "LENGTH('a) \<le> 8 * n \<Longrightarrow> from_le (to_le n (w :: 'a::len word)) = w"
  by (simp add: from_to_le_take_bit take_bit_word_eq_self)

lemma from_to_le_16: "from_le (to_le 2 (w :: u16)) = w"
  by simp

lemma from_to_le_32: "from_le (to_le 4 (w :: u32)) = w"
  by simp

lemma from_to_le_64: "from_le (to_le 8 (w :: u64)) = w"
  by simp

lemma ucast_from_le_Cons:
  "8 \<le> LENGTH('a) \<Longrightarrow> ucast (from_le (b # bs) :: 'a::len word) = b"
  by (rule bit_word_eqI)
    (auto simp: bit_or_iff bit_push_bit_iff bit_ucast_iff bit_imp_le_length)

lemma drop_bit_from_le_Cons:
  "8 + 8 * length bs \<le> LENGTH('a) \<Longrightarrow>
   drop_bit 8 (from_le (b # bs) :: 'a::len word) = take_bit (LENGTH('a) - 8) (from_le bs)"
proof (rule bit_word_eqI)
  fix k
  assume len: "8 + 8 * length bs \<le> LENGTH('a)" and k: "k < LENGTH('a)"
  have "\<not> bit b (8 + k)"
    using bit_imp_le_length [of b "8 + k"] by auto
  then show "bit (drop_bit 8 (from_le (b # bs) :: 'a word)) k \<longleftrightarrow>
      bit (take_bit (LENGTH('a) - 8) (from_le bs :: 'a word)) k"
    using k by (auto simp: bit_drop_bit_eq bit_or_iff bit_push_bit_iff bit_ucast_iff
        bit_take_bit_iff dest: bit_imp_le_length)
qed

lemma from_le_bound:
  "8 * length bs \<le> LENGTH('a) \<Longrightarrow>
   take_bit (8 * length bs) (from_le bs :: 'a::len word) = from_le bs"
proof (induction bs)
  case Nil
  then show ?case by simp
next
  case (Cons b bs)
  then have IH: "take_bit (8 * length bs) (from_le bs :: 'a word) = from_le bs"
    by simp
  show ?case
  proof (rule bit_word_eqI)
    fix k
    assume k: "k < LENGTH('a)"
    have "bit (from_le bs :: 'a word) m \<Longrightarrow> m < 8 * length bs" for m
      using IH by (metis bit_take_bit_iff)
    then show "bit (take_bit (8 * length (b # bs)) (from_le (b # bs) :: 'a word)) k \<longleftrightarrow>
        bit (from_le (b # bs) :: 'a word) k"
      using k by (fastforce simp: bit_take_bit_iff bit_or_iff bit_push_bit_iff bit_ucast_iff
          dest: bit_imp_le_length)
  qed
qed

lemma to_from_le:
  "8 * length bs \<le> LENGTH('a) \<Longrightarrow> to_le (length bs) (from_le bs :: 'a::len word) = bs"
proof (induction bs)
  case Nil
  then show ?case by simp
next
  case (Cons b bs)
  then have len: "8 * length bs \<le> LENGTH('a) - 8" "8 \<le> LENGTH('a)"
    by simp_all
  have "take_bit (LENGTH('a) - 8) (from_le bs :: 'a word) = from_le bs"
    using from_le_bound [of bs, where 'a = 'a] len
    by (metis le_diff_conv2 add_leD1 take_bit_take_bit min.absorb2)
  then have "drop_bit 8 (from_le (b # bs) :: 'a word) = from_le bs"
    using Cons.prems by (simp only: drop_bit_from_le_Cons length_Cons mult_Suc_right)
  moreover have "ucast (from_le (b # bs) :: 'a word) = b"
    using len by (rule_tac ucast_from_le_Cons) simp
  ultimately show ?case
    using Cons by (simp del: from_le.simps)
qed

section \<open>Byte ranges of a buffer\<close>

text \<open>\<open>slice a n bs\<close> is \<open>&bs[a..a + n]\<close>; \<open>splice a xs bs\<close> overwrites that range.\<close>

definition slice :: "nat \<Rightarrow> nat \<Rightarrow> 'a list \<Rightarrow> 'a list" where
  "slice a n bs = take n (drop a bs)"

definition splice :: "nat \<Rightarrow> 'a list \<Rightarrow> 'a list \<Rightarrow> 'a list" where
  "splice a xs bs = take a bs @ xs @ drop (a + length xs) bs"

lemma length_slice [simp]: "a + n \<le> length bs \<Longrightarrow> length (slice a n bs) = n"
  by (simp add: slice_def)

lemma length_splice [simp]: "a + length xs \<le> length bs \<Longrightarrow> length (splice a xs bs) = length bs"
  by (simp add: splice_def)

lemma slice_append: "slice (length pre) (length xs) (pre @ xs @ post) = xs"
  by (simp add: slice_def)

lemma splice_append: "splice (length pre) xs (pre @ rest) = pre @ xs @ drop (length xs) rest"
  by (simp add: splice_def)

lemma slice_splice_same: "a + length xs \<le> length bs \<Longrightarrow> slice a (length xs) (splice a xs bs) = xs"
  by (simp add: slice_def splice_def)

lemma nth_splice:
  "a + length xs \<le> length bs \<Longrightarrow> i < length bs \<Longrightarrow>
   splice a xs bs ! i = (if a \<le> i \<and> i < a + length xs then xs ! (i - a) else bs ! i)"
  by (auto simp: splice_def nth_append)

lemma nth_slice: "a + n \<le> length bs \<Longrightarrow> i < n \<Longrightarrow> slice a n bs ! i = bs ! (a + i)"
  by (simp add: slice_def)

lemma slice_splice_disjoint:
  assumes "a + length xs \<le> length bs" "c + n \<le> length bs" "c + n \<le> a \<or> a + length xs \<le> c"
  shows "slice c n (splice a xs bs) = slice c n bs"
  using assms by (intro nth_equalityI) (auto simp: nth_slice nth_splice)

section \<open>Fixed-size chunks\<close>

text \<open>\<open>chunks_exact(k)\<close> of a buffer that holds \<open>n\<close> chunks.\<close>

fun chunks_exact :: "nat \<Rightarrow> nat \<Rightarrow> 'a list \<Rightarrow> 'a list list" where
  "chunks_exact k 0 bs = []"
| "chunks_exact k (Suc n) bs = take k bs # chunks_exact k n (drop k bs)"

lemma chunks_exact_slice:
  "chunks_exact k n (slice (i * k) (n * k) bs) = map (\<lambda>j. slice (j * k) k bs) [i..<i + n]"
proof (induction n arbitrary: i)
  case 0
  then show ?case by simp
next
  case (Suc n)
  have "[i..<i + Suc n] = i # [Suc i..<Suc i + n]" by (simp add: upt_conv_Cons)
  moreover have "drop k (slice (i * k) (Suc n * k) bs) = slice (Suc i * k) (n * k) bs"
    by (simp add: slice_def drop_take add.commute)
  moreover have "take k (slice (i * k) (Suc n * k) bs) = slice (i * k) k bs"
    by (simp add: slice_def)
  ultimately show ?case using Suc [of "Suc i"] by (simp del: upt_Suc)
qed

end
