(* ===== verification/PrefixFormat.thy ===== *)
theory PrefixFormat
  imports ByteCodec
begin

text \<open>
  The on-disk format of a prefix record, \<open>cache/letsinfer_prefix_store/src/format.rs\<close>: the
  canonical page-aligned layout of a record, the fixed 4096-byte header with its own checksum,
  and the validation that a decoded header describes exactly the canonical layout. The CRC-32
  function comes from the \<open>crc32fast\<close> package and is the parameter \<open>crc\<close>.
\<close>

section \<open>Data\<close>

definition ALIGNMENT :: nat where "ALIGNMENT = 4096"
definition HEADER_BYTES :: nat where "HEADER_BYTES = ALIGNMENT"
definition MAGIC :: "byte list" where "MAGIC = [76, 73, 80, 70, 88, 48, 48, 49]"
definition VERSION :: u32 where "VERSION = 1"
definition MAX_REGIONS :: nat where "MAX_REGIONS = 96"
definition MAX_REGION_NAME_BYTES :: nat where "MAX_REGION_NAME_BYTES = 12"

record region_description =
  region_name :: "byte list"
  byte_count :: u64

record record_header =
  fingerprint :: "byte list"
  key_hash_field :: u64
  token_count :: nat
  regions :: "region_description list"
  tokens_offset :: nat
  region_offsets :: "nat list"
  logical_bytes :: nat
  file_bytes :: nat
  tokens_crc32 :: u32
  region_crc32 :: "u32 list"

datatype format_error =
    ZeroTokenCount
  | RegionCount nat
  | RegionName "byte list"
  | EmptyRegion "byte list"
  | SizeOverflow
  | DestinationTooSmall
  | RegionCrcCount
  | HeaderOverflow
  | ShortHeader
  | BadMagic
  | BadVersion
  | BadHeaderSize
  | HeaderCrc
  | BadRegionName
  | InvalidGeometry
  | NonCanonicalLayout
  | FormatPanic

section \<open>Checked geometry\<close>

definition checked_add :: "nat \<Rightarrow> nat \<Rightarrow> format_error + nat" where
  "checked_add left right = of_option SizeOverflow (checked_add64 left right)"

definition checked_mul :: "nat \<Rightarrow> nat \<Rightarrow> format_error + nat" where
  "checked_mul left right = of_option SizeOverflow (checked_mul64 left right)"

definition align_up :: "nat \<Rightarrow> format_error + nat" where
  "align_up v = bind_result (checked_add v (ALIGNMENT - 1))
     (\<lambda>with_slack. Inr (with_slack div ALIGNMENT * ALIGNMENT))"

text \<open>\<open>usize\<close> has 64 bits on the supported architectures, so the conversion never fails.\<close>

definition as_usize :: "u64 \<Rightarrow> format_error + nat" where
  "as_usize v = (if unat v \<le> u64_max then Inr (unat v) else Inl SizeOverflow)"

definition is_ascii_graphic :: "byte \<Rightarrow> bool" where
  "is_ascii_graphic b \<longleftrightarrow> 33 \<le> b \<and> b \<le> 126"

definition validate_region_name :: "byte list \<Rightarrow> format_error + unit" where
  "validate_region_name name =
     ensure (\<not> (name = [] \<or> length name > MAX_REGION_NAME_BYTES \<or>
                \<not> list_all is_ascii_graphic name)) (RegionName name)"

fun validate_regions :: "region_description list \<Rightarrow> format_error + unit" where
  "validate_regions [] = Inr ()"
| "validate_regions (r # rs) =
     bind_result (validate_region_name (region_name r)) (\<lambda>_.
     bind_result (ensure (byte_count r \<noteq> 0) (EmptyRegion (region_name r))) (\<lambda>_.
     validate_regions rs))"

text \<open>The cursor loop of \<open>layout\<close>: the offset of every region and the final cursor.\<close>

fun layout_regions :: "nat \<Rightarrow> region_description list \<Rightarrow> format_error + nat list \<times> nat" where
  "layout_regions cursor [] = Inr ([], cursor)"
| "layout_regions cursor (r # rs) =
     bind_result (as_usize (byte_count r)) (\<lambda>n.
     bind_result (checked_add cursor n) (\<lambda>region_end.
     bind_result (align_up region_end) (\<lambda>cursor'.
     bind_result (layout_regions cursor' rs) (\<lambda>(offsets, final).
     Inr (cursor # offsets, final)))))"

definition layout ::
  "byte list \<Rightarrow> u64 \<Rightarrow> nat \<Rightarrow> region_description list \<Rightarrow> format_error + record_header" where
  "layout fp hash count rs =
     bind_result (ensure (count \<noteq> 0) ZeroTokenCount) (\<lambda>_.
     bind_result (ensure (\<not> (rs = [] \<or> length rs > MAX_REGIONS)) (RegionCount (length rs))) (\<lambda>_.
     bind_result (validate_regions rs) (\<lambda>_.
     bind_result (checked_mul count 4) (\<lambda>token_bytes.
     bind_result (checked_add HEADER_BYTES token_bytes) (\<lambda>tokens_end.
     bind_result (align_up tokens_end) (\<lambda>cursor.
     bind_result (layout_regions cursor rs) (\<lambda>(offsets, _).
     bind_result (as_usize (byte_count (last rs))) (\<lambda>last_bytes.
     bind_result (checked_add (last offsets) last_bytes) (\<lambda>logical.
     bind_result (align_up logical) (\<lambda>file.
     Inr \<lparr>fingerprint = fp, key_hash_field = hash, token_count = count, regions = rs,
          tokens_offset = HEADER_BYTES, region_offsets = offsets, logical_bytes = logical,
          file_bytes = file, tokens_crc32 = 0, region_crc32 = []\<rparr>))))))))))"

definition validate_layout :: "record_header \<Rightarrow> format_error + unit" where
  "validate_layout h =
     bind_result (ensure (\<not> (token_count h = 0
         \<or> tokens_offset h \<noteq> HEADER_BYTES
         \<or> file_bytes h < logical_bytes h
         \<or> \<not> ALIGNMENT dvd file_bytes h
         \<or> length (region_offsets h) \<noteq> length (regions h)
         \<or> length (region_crc32 h) \<noteq> length (regions h))) InvalidGeometry) (\<lambda>_.
     bind_result (layout (fingerprint h) (key_hash_field h) (token_count h) (regions h)) (\<lambda>expected.
     ensure (\<not> (region_offsets h \<noteq> region_offsets expected
         \<or> logical_bytes h \<noteq> logical_bytes expected
         \<or> file_bytes h \<noteq> file_bytes expected)) NonCanonicalLayout))"

definition compatible_with :: "record_header \<Rightarrow> record_header \<Rightarrow> bool" where
  "compatible_with h expected \<longleftrightarrow> fingerprint h = fingerprint expected \<and> regions h = regions expected"

text \<open>A \<open>Range<usize>\<close> is the pair of its start and its end.\<close>

definition tokens_range :: "record_header \<Rightarrow> nat \<times> nat" where
  "tokens_range h = (tokens_offset h, tokens_offset h + token_count h * 4)"

definition region_range :: "record_header \<Rightarrow> nat \<Rightarrow> (nat \<times> nat) option" where
  "region_range h i =
     (if i < length (region_offsets h) \<and> i < length (regions h)
      then Some (region_offsets h ! i, region_offsets h ! i + unat (byte_count (regions h ! i)))
      else None)"

section \<open>Encoding\<close>

definition put_bytes :: "byte list \<Rightarrow> nat \<Rightarrow> byte list \<Rightarrow> format_error + byte list \<times> nat" where
  "put_bytes dest cursor bs =
     (if cursor + length bs \<le> length dest
      then Inr (splice cursor bs dest, cursor + length bs) else Inl HeaderOverflow)"

definition put_u32 :: "byte list \<Rightarrow> nat \<Rightarrow> u32 \<Rightarrow> format_error + byte list \<times> nat" where
  "put_u32 dest cursor v = put_bytes dest cursor (to_le 4 v)"

definition put_u64 :: "byte list \<Rightarrow> nat \<Rightarrow> u64 \<Rightarrow> format_error + byte list \<times> nat" where
  "put_u64 dest cursor v = put_bytes dest cursor (to_le 8 v)"

definition header_checksum :: "(byte list \<Rightarrow> u32) \<Rightarrow> byte list \<Rightarrow> nat \<Rightarrow> u32" where
  "header_checksum crc source off =
     crc (take off source @ [0, 0, 0, 0] @ slice (off + 4) (HEADER_BYTES - (off + 4)) source)"

text \<open>
  One slot of the region table. Slots past the region count stay zero; a name longer than its
  field or a missing offset or checksum would index out of range and panic.
\<close>

definition encode_slot ::
  "record_header \<Rightarrow> byte list \<Rightarrow> nat \<Rightarrow> nat \<Rightarrow> format_error + byte list \<times> nat" where
  "encode_slot h dest cursor i =
     (let present = i < length (regions h);
          region = regions h ! i;
          name = (if present then region_name region else [])
      in if present \<and> (length name > MAX_REGION_NAME_BYTES
             \<or> i \<ge> length (region_offsets h) \<or> i \<ge> length (region_crc32 h))
         then Inl FormatPanic
         else
           bind_result (put_bytes dest cursor
             (name @ replicate (MAX_REGION_NAME_BYTES - length name) 0)) (\<lambda>(d1, c1).
           bind_result (put_u64 d1 c1 (if present then byte_count region else 0)) (\<lambda>(d2, c2).
           bind_result (put_u64 d2 c2 (if present then of_nat (region_offsets h ! i) else 0)) (\<lambda>(d3, c3).
           put_u32 d3 c3 (if present then region_crc32 h ! i else 0)))))"

fun encode_slots ::
  "record_header \<Rightarrow> byte list \<Rightarrow> nat \<Rightarrow> nat list \<Rightarrow> format_error + byte list \<times> nat" where
  "encode_slots h dest cursor [] = Inr (dest, cursor)"
| "encode_slots h dest cursor (i # is) =
     bind_result (encode_slot h dest cursor i) (\<lambda>(d, c). encode_slots h d c is)"

definition encode ::
  "(byte list \<Rightarrow> u32) \<Rightarrow> record_header \<Rightarrow> byte list \<Rightarrow> format_error + byte list" where
  "encode crc h destination =
     bind_result (ensure (\<not> length destination < HEADER_BYTES) DestinationTooSmall) (\<lambda>_.
     bind_result (ensure (length (region_crc32 h) = length (regions h)) RegionCrcCount) (\<lambda>_.
     let d0 = splice 0 (replicate HEADER_BYTES 0) destination in
     bind_result (put_bytes d0 0 MAGIC) (\<lambda>(d1, c1).
     bind_result (put_u32 d1 c1 VERSION) (\<lambda>(d2, c2).
     bind_result (put_u32 d2 c2 (of_nat HEADER_BYTES)) (\<lambda>(d3, c3).
     bind_result (put_bytes d3 c3 (fingerprint h)) (\<lambda>(d4, c4).
     bind_result (put_u64 d4 c4 (key_hash_field h)) (\<lambda>(d5, c5).
     bind_result (put_u64 d5 c5 (of_nat (token_count h))) (\<lambda>(d6, c6).
     bind_result (put_u32 d6 c6 (of_nat (length (regions h)))) (\<lambda>(d7, c7).
     bind_result (put_u32 d7 c7 (tokens_crc32 h)) (\<lambda>(d8, c8).
     bind_result (put_u64 d8 c8 (of_nat (tokens_offset h))) (\<lambda>(d9, c9).
     bind_result (put_u64 d9 c9 (of_nat (logical_bytes h))) (\<lambda>(d10, c10).
     bind_result (put_u64 d10 c10 (of_nat (file_bytes h))) (\<lambda>(d11, header_crc_offset).
     bind_result (put_u32 d11 header_crc_offset 0) (\<lambda>(d12, c12).
     bind_result (encode_slots h d12 c12 [0..<MAX_REGIONS]) (\<lambda>(d13, _).
     Inr (splice header_crc_offset (to_le 4 (header_checksum crc d13 header_crc_offset)) d13))))))))))))))))"

section \<open>Decoding\<close>

definition take_bytes :: "byte list \<Rightarrow> nat \<Rightarrow> nat \<Rightarrow> format_error + byte list \<times> nat" where
  "take_bytes source cursor count =
     (if cursor + count \<le> length source
      then Inr (slice cursor count source, cursor + count) else Inl ShortHeader)"

definition get_u32 :: "byte list \<Rightarrow> nat \<Rightarrow> format_error + u32 \<times> nat" where
  "get_u32 source cursor = bind_result (take_bytes source cursor 4) (\<lambda>(bs, c). Inr (from_le bs, c))"

definition get_u64 :: "byte list \<Rightarrow> nat \<Rightarrow> format_error + u64 \<times> nat" where
  "get_u64 source cursor = bind_result (take_bytes source cursor 8) (\<lambda>(bs, c). Inr (from_le bs, c))"

text \<open>\<open>std::str::from_utf8\<close>: the well-formed byte sequences of the Unicode standard.\<close>

definition utf8_cont :: "byte \<Rightarrow> bool" where
  "utf8_cont b \<longleftrightarrow> 128 \<le> b \<and> b \<le> 191"

fun utf8_valid :: "byte list \<Rightarrow> bool" where
  "utf8_valid [] = True"
| "utf8_valid (b # bs) =
     (if b \<le> 127 then utf8_valid bs
      else if 194 \<le> b \<and> b \<le> 223 then
        (case bs of c # rest \<Rightarrow> utf8_cont c \<and> utf8_valid rest | _ \<Rightarrow> False)
      else if 224 \<le> b \<and> b \<le> 239 then
        (case bs of c # d # rest \<Rightarrow>
           utf8_cont c \<and> utf8_cont d \<and> (b = 224 \<longrightarrow> 160 \<le> c) \<and> (b = 237 \<longrightarrow> c \<le> 159) \<and> utf8_valid rest
         | _ \<Rightarrow> False)
      else if 240 \<le> b \<and> b \<le> 244 then
        (case bs of c # d # e # rest \<Rightarrow>
           utf8_cont c \<and> utf8_cont d \<and> utf8_cont e \<and> (b = 240 \<longrightarrow> 144 \<le> c) \<and> (b = 244 \<longrightarrow> c \<le> 143)
             \<and> utf8_valid rest
         | _ \<Rightarrow> False)
      else False)"

text \<open>One slot: the region, its offset and its checksum are kept for slots below the count.\<close>

definition decode_slot ::
  "byte list \<Rightarrow> nat \<Rightarrow> nat \<Rightarrow> nat \<Rightarrow>
   format_error + (region_description \<times> nat \<times> u32) list \<times> nat" where
  "decode_slot source cursor region_count i =
     bind_result (take_bytes source cursor MAX_REGION_NAME_BYTES) (\<lambda>(name_bytes, c1).
     bind_result (get_u64 source c1) (\<lambda>(bc, c2).
     bind_result (get_u64 source c2) (\<lambda>(raw_offset, c3).
     bind_result (as_usize raw_offset) (\<lambda>offset.
     bind_result (get_u32 source c3) (\<lambda>(crc, c4).
     if i < region_count
     then let name = takeWhile (\<lambda>b. b \<noteq> 0) name_bytes in
          bind_result (ensure (utf8_valid name) BadRegionName) (\<lambda>_.
          Inr ([(\<lparr>region_name = name, byte_count = bc\<rparr>, offset, crc)], c4))
     else Inr ([], c4))))))"

fun decode_slots ::
  "byte list \<Rightarrow> nat \<Rightarrow> nat \<Rightarrow> nat list \<Rightarrow> format_error + (region_description \<times> nat \<times> u32) list" where
  "decode_slots source cursor region_count [] = Inr []"
| "decode_slots source cursor region_count (i # is) =
     bind_result (decode_slot source cursor region_count i) (\<lambda>(entries, c).
     bind_result (decode_slots source c region_count is) (\<lambda>rest. Inr (entries @ rest)))"

definition decode :: "(byte list \<Rightarrow> u32) \<Rightarrow> byte list \<Rightarrow> format_error + record_header" where
  "decode crc source =
     bind_result (ensure (\<not> length source < HEADER_BYTES) ShortHeader) (\<lambda>_.
     bind_result (take_bytes source 0 (length MAGIC)) (\<lambda>(magic, c1).
     bind_result (ensure (magic = MAGIC) BadMagic) (\<lambda>_.
     bind_result (get_u32 source c1) (\<lambda>(version, c2).
     bind_result (ensure (version = VERSION) BadVersion) (\<lambda>_.
     bind_result (get_u32 source c2) (\<lambda>(size, c3).
     bind_result (ensure (unat size = HEADER_BYTES) BadHeaderSize) (\<lambda>_.
     bind_result (take_bytes source c3 32) (\<lambda>(fp, c4).
     bind_result (get_u64 source c4) (\<lambda>(hash, c5).
     bind_result (get_u64 source c5) (\<lambda>(raw_count, c6).
     bind_result (as_usize raw_count) (\<lambda>count.
     bind_result (get_u32 source c6) (\<lambda>(raw_regions, c7).
     bind_result (get_u32 source c7) (\<lambda>(tcrc, c8).
     bind_result (get_u64 source c8) (\<lambda>(raw_tokens, c9).
     bind_result (as_usize raw_tokens) (\<lambda>toff.
     bind_result (get_u64 source c9) (\<lambda>(raw_logical, c10).
     bind_result (as_usize raw_logical) (\<lambda>logical.
     bind_result (get_u64 source c10) (\<lambda>(raw_file, header_crc_offset).
     bind_result (as_usize raw_file) (\<lambda>file.
     bind_result (get_u32 source header_crc_offset) (\<lambda>(expected_crc, c12).
     bind_result (ensure (expected_crc = header_checksum crc source header_crc_offset) HeaderCrc) (\<lambda>_.
     let region_count = unat raw_regions in
     bind_result (ensure (\<not> (region_count = 0 \<or> region_count > MAX_REGIONS)) (RegionCount region_count)) (\<lambda>_.
     bind_result (decode_slots source c12 region_count [0..<MAX_REGIONS]) (\<lambda>entries.
     let h = \<lparr>fingerprint = fp, key_hash_field = hash, token_count = count,
              regions = map fst entries, tokens_offset = toff,
              region_offsets = map (fst \<circ> snd) entries, logical_bytes = logical,
              file_bytes = file, tokens_crc32 = tcrc, region_crc32 = map (snd \<circ> snd) entries\<rparr> in
     bind_result (validate_layout h) (\<lambda>_. Inr h))))))))))))))))))))))))"


section \<open>Geometry of the canonical layout\<close>

lemma checked_add_Inr [simp]: "checked_add a b = Inr c \<longleftrightarrow> a + b \<le> u64_max \<and> c = a + b"
  by (auto simp: checked_add_def of_option_eq_Inr)

lemma checked_mul_Inr [simp]: "checked_mul a b = Inr c \<longleftrightarrow> a * b \<le> u64_max \<and> c = a * b"
  by (auto simp: checked_mul_def of_option_eq_Inr)

lemma as_usize_Inr [simp]: "as_usize v = Inr (unat v)"
proof -
  have "unat v < 2 ^ 64"
    using unsigned_less [of v, where 'a = nat] by simp
  then show ?thesis by (simp add: as_usize_def u64_max_def)
qed

lemma align_up_Inr:
  "align_up v = Inr w \<longleftrightarrow> v + 4095 \<le> u64_max \<and> w = (v + 4095) div 4096 * 4096"
  by (auto simp: align_up_def result_simps ALIGNMENT_def)

lemma align_up_props:
  assumes "align_up v = Inr w"
  shows "ALIGNMENT dvd w" "v \<le> w" "w < v + ALIGNMENT" "w \<le> u64_max"
  using assms by (auto simp: align_up_Inr ALIGNMENT_def)

text \<open>
  \<open>packed lo rs os hi\<close>: the regions \<open>rs\<close> at the offsets \<open>os\<close> lie inside \<open>[lo, hi)\<close>, in
  order, without overlap, each on a page boundary.
\<close>

fun packed :: "nat \<Rightarrow> region_description list \<Rightarrow> nat list \<Rightarrow> nat \<Rightarrow> bool" where
  "packed lo [] [] hi \<longleftrightarrow> lo \<le> hi"
| "packed lo (r # rs) (a # os) hi \<longleftrightarrow>
     lo \<le> a \<and> ALIGNMENT dvd a \<and> packed (a + unat (byte_count r)) rs os hi"
| "packed lo _ _ hi \<longleftrightarrow> False"

lemma packed_mono_lo: "packed lo rs os hi \<Longrightarrow> lo' \<le> lo \<Longrightarrow> packed lo' rs os hi"
  by (cases "(lo, rs, os, hi)" rule: packed.cases) auto

lemma packed_length: "packed lo rs os hi \<Longrightarrow> length os = length rs"
  by (induction lo rs os hi rule: packed.induct) auto

lemma packed_bounds: "packed lo rs os hi \<Longrightarrow> lo \<le> hi"
  by (induction lo rs os hi rule: packed.induct) auto

lemma packed_nth:
  "packed lo rs os hi \<Longrightarrow> i < length rs \<Longrightarrow>
   lo \<le> os ! i \<and> ALIGNMENT dvd os ! i \<and> os ! i + unat (byte_count (rs ! i)) \<le> hi"
proof (induction lo rs os hi arbitrary: i rule: packed.induct)
  case (2 lo r rs a os hi)
  then show ?case
    using packed_bounds [of "a + unat (byte_count r)" rs os hi]
    by (cases i) (fastforce dest: packed_mono_lo)+
qed auto

lemma packed_disjoint:
  "packed lo rs os hi \<Longrightarrow> i < j \<Longrightarrow> j < length rs \<Longrightarrow>
   os ! i + unat (byte_count (rs ! i)) \<le> os ! j"
proof (induction lo rs os hi arbitrary: i j rule: packed.induct)
  case (2 lo r rs a os hi)
  then obtain j' where j: "j = Suc j'" by (cases j) auto
  show ?case
  proof (cases i)
    case 0
    with 2 j show ?thesis
      using packed_nth [of "a + unat (byte_count r)" rs os hi j'] by simp
  next
    case (Suc i')
    with 2 j show ?thesis by simp
  qed
qed auto

lemma layout_regions_packed:
  assumes "layout_regions cursor rs = Inr (os, final)" and "ALIGNMENT dvd cursor"
    and "cursor \<le> u64_max" and "rs \<noteq> []"
  shows "packed cursor rs os (last os + unat (byte_count (last rs)))"
    and "align_up (last os + unat (byte_count (last rs))) = Inr final"
    and "\<forall>a\<in>set os. a \<le> u64_max"
proof -
  have "packed cursor rs os (last os + unat (byte_count (last rs))) \<and>
    align_up (last os + unat (byte_count (last rs))) = Inr final \<and> (\<forall>a\<in>set os. a \<le> u64_max)"
    using assms
  proof (induction rs arbitrary: cursor os)
    case Nil
    then show ?case by simp
  next
    case (Cons r rs)
    then obtain next_cursor os' where
      step: "align_up (cursor + unat (byte_count r)) = Inr next_cursor"
      and rest: "layout_regions next_cursor rs = Inr (os', final)" and os: "os = cursor # os'"
      by (auto simp: result_simps)
    show ?case
    proof (cases "rs = []")
      case True
      with rest os step Cons.prems show ?thesis by simp
    next
      case False
      note facts = align_up_props [OF step]
      have "packed next_cursor rs os' (last os' + unat (byte_count (last rs))) \<and>
          align_up (last os' + unat (byte_count (last rs))) = Inr final \<and> (\<forall>a\<in>set os'. a \<le> u64_max)"
        by (rule Cons.IH [OF rest facts(1) facts(4) False])
      moreover from this False have "os' \<noteq> []"
        by (auto dest: packed_length)
      ultimately show ?thesis
        using False os Cons.prems facts(2) by (auto intro: packed_mono_lo)
    qed
  qed
  then show "packed cursor rs os (last os + unat (byte_count (last rs)))"
    and "align_up (last os + unat (byte_count (last rs))) = Inr final"
    and "\<forall>a\<in>set os. a \<le> u64_max" by blast+
qed

lemma validate_regions_Inr:
  "validate_regions rs = Inr u \<longleftrightarrow>
   (\<forall>r\<in>set rs. validate_region_name (region_name r) = Inr () \<and> byte_count r \<noteq> 0)"
  by (induction rs) (auto simp: result_simps)

text \<open>What a successful \<open>layout\<close> produces, in one statement the other proofs use.\<close>

lemma layout_Inr:
  assumes "layout fp hash count rs = Inr h"
  shows "fingerprint h = fp" "key_hash_field h = hash" "token_count h = count" "regions h = rs"
    "tokens_offset h = HEADER_BYTES" "count \<noteq> 0" "rs \<noteq> []" "length rs \<le> MAX_REGIONS"
    "validate_regions rs = Inr ()" "tokens_crc32 h = 0" "region_crc32 h = []"
    "packed (HEADER_BYTES + count * 4) rs (region_offsets h) (logical_bytes h)"
    "logical_bytes h = last (region_offsets h) + unat (byte_count (last rs))"
    "align_up (logical_bytes h) = Inr (file_bytes h)"
    "HEADER_BYTES + count * 4 \<le> u64_max"
    "\<forall>a\<in>set (region_offsets h). a \<le> u64_max"
proof -
  from assms obtain cursor os final fb where
    basic: "count \<noteq> 0" "rs \<noteq> []" "length rs \<le> MAX_REGIONS" "validate_regions rs = Inr ()"
      "HEADER_BYTES + count * 4 \<le> u64_max"
    and cur: "align_up (HEADER_BYTES + count * 4) = Inr cursor"
    and lay: "layout_regions cursor rs = Inr (os, final)"
    and fb: "align_up (last os + unat (byte_count (last rs))) = Inr fb"
    and h: "h = \<lparr>fingerprint = fp, key_hash_field = hash, token_count = count, regions = rs,
          tokens_offset = HEADER_BYTES, region_offsets = os,
          logical_bytes = last os + unat (byte_count (last rs)),
          file_bytes = fb, tokens_crc32 = 0, region_crc32 = []\<rparr>"
    unfolding layout_def by (auto simp: result_simps)
  note cp = align_up_props [OF cur]
  note lp = layout_regions_packed [OF lay cp(1) cp(4) basic(2)]
  have "packed (HEADER_BYTES + count * 4) rs os (last os + unat (byte_count (last rs)))"
    using lp(1) cp(2) by (rule packed_mono_lo)
  then show "fingerprint h = fp" "key_hash_field h = hash" "token_count h = count" "regions h = rs"
    "tokens_offset h = HEADER_BYTES" "count \<noteq> 0" "rs \<noteq> []" "length rs \<le> MAX_REGIONS"
    "validate_regions rs = Inr ()" "tokens_crc32 h = 0" "region_crc32 h = []"
    "packed (HEADER_BYTES + count * 4) rs (region_offsets h) (logical_bytes h)"
    "logical_bytes h = last (region_offsets h) + unat (byte_count (last rs))"
    "align_up (logical_bytes h) = Inr (file_bytes h)"
    "HEADER_BYTES + count * 4 \<le> u64_max"
    "\<forall>a\<in>set (region_offsets h). a \<le> u64_max"
    using basic fb lp(3) by (simp_all add: h)
qed

section \<open>Encoding and decoding\<close>

text \<open>A run of \<open>put\<close> calls, used to state what \<open>encode\<close> writes.\<close>

fun put_all :: "byte list \<Rightarrow> nat \<Rightarrow> byte list list \<Rightarrow> format_error + byte list \<times> nat" where
  "put_all dest cursor [] = Inr (dest, cursor)"
| "put_all dest cursor (f # fs) = bind_result (put_bytes dest cursor f) (\<lambda>(d, c). put_all d c fs)"

lemma bind_result_case_prod:
  "bind_result (case x of (a, b) \<Rightarrow> f a b) k = (case x of (a, b) \<Rightarrow> bind_result (f a b) k)"
  by (cases x) simp

lemma bind_result_return: "bind_result m Inr = m"
  by (cases m) auto

lemma put_bytes_zeros:
  "length bs \<le> n \<Longrightarrow>
   put_bytes (pre @ replicate n 0 @ tail) (length pre) bs =
   Inr ((pre @ bs) @ replicate (n - length bs) 0 @ tail, length (pre @ bs))"
  by (simp add: put_bytes_def splice_append drop_replicate)

lemma put_all_zeros:
  "length (concat fs) \<le> n \<Longrightarrow>
   put_all (pre @ replicate n 0 @ tail) (length pre) fs =
   Inr ((pre @ concat fs) @ replicate (n - length (concat fs)) 0 @ tail, length (pre @ concat fs))"
proof (induction fs arbitrary: pre n)
  case Nil
  then show ?case by simp
next
  case (Cons f fs)
  have "put_bytes (pre @ replicate n 0 @ tail) (length pre) f =
      Inr ((pre @ f) @ replicate (n - length f) 0 @ tail, length (pre @ f))"
    using Cons.prems by (intro put_bytes_zeros) simp
  then have "put_all (pre @ replicate n 0 @ tail) (length pre) (f # fs) =
      put_all ((pre @ f) @ replicate (n - length f) 0 @ tail) (length (pre @ f)) fs"
    by simp
  also have "\<dots> = Inr (((pre @ f) @ concat fs) @ replicate (n - length f - length (concat fs)) 0 @ tail,
      length ((pre @ f) @ concat fs))"
    using Cons.prems by (intro Cons.IH) simp
  finally show ?case by simp
qed

definition fixed_fields :: "record_header \<Rightarrow> byte list list" where
  "fixed_fields h =
     [MAGIC, to_le 4 VERSION, to_le 4 (of_nat HEADER_BYTES :: u32), fingerprint h,
      to_le 8 (key_hash_field h), to_le 8 (of_nat (token_count h) :: u64),
      to_le 4 (of_nat (length (regions h)) :: u32), to_le 4 (tokens_crc32 h),
      to_le 8 (of_nat (tokens_offset h) :: u64), to_le 8 (of_nat (logical_bytes h) :: u64),
      to_le 8 (of_nat (file_bytes h) :: u64)]"

definition slot_fields :: "record_header \<Rightarrow> nat \<Rightarrow> byte list list" where
  "slot_fields h i =
     (if i < length (regions h)
      then [region_name (regions h ! i) @ replicate (MAX_REGION_NAME_BYTES - length (region_name (regions h ! i))) 0,
            to_le 8 (byte_count (regions h ! i)), to_le 8 (of_nat (region_offsets h ! i) :: u64),
            to_le 4 (region_crc32 h ! i)]
      else [replicate MAX_REGION_NAME_BYTES 0, to_le 8 (0 :: u64), to_le 8 (0 :: u64), to_le 4 (0 :: u32)])"

text \<open>The shape of a header that can be written and read back without loss.\<close>

definition encodable :: "record_header \<Rightarrow> bool" where
  "encodable h \<longleftrightarrow>
     length (fingerprint h) = 32 \<and> length (region_offsets h) = length (regions h)
     \<and> length (region_crc32 h) = length (regions h)
     \<and> 0 < length (regions h) \<and> length (regions h) \<le> MAX_REGIONS
     \<and> (\<forall>r\<in>set (regions h). validate_region_name (region_name r) = Inr ())
     \<and> token_count h \<le> u64_max \<and> tokens_offset h \<le> u64_max \<and> logical_bytes h \<le> u64_max
     \<and> file_bytes h \<le> u64_max \<and> (\<forall>a\<in>set (region_offsets h). a \<le> u64_max)"

lemma validate_layout_encodable:
  assumes "validate_layout h = Inr ()" and "length (fingerprint h) = 32"
  shows "encodable h"
proof -
  from assms(1) obtain e where e: "layout (fingerprint h) (key_hash_field h) (token_count h) (regions h) = Inr e"
    and geo: "tokens_offset h = HEADER_BYTES" "length (region_offsets h) = length (regions h)"
      "length (region_crc32 h) = length (regions h)" "region_offsets h = region_offsets e"
      "logical_bytes h = logical_bytes e" "file_bytes h = file_bytes e" "file_bytes h \<ge> logical_bytes h"
    unfolding validate_layout_def by (auto simp: result_simps)
  note L = layout_Inr [OF e]
  have "file_bytes h \<le> u64_max"
    using align_up_props(4) [OF L(14)] geo by simp
  moreover have "token_count h \<le> u64_max" "tokens_offset h \<le> u64_max"
    using L(15) geo by auto
  ultimately show ?thesis
    using L geo assms(2) by (auto simp: encodable_def validate_regions_Inr)
qed

lemma length_fixed_fields: "encodable h \<Longrightarrow> length (concat (fixed_fields h)) = 96"
  by (simp add: fixed_fields_def MAGIC_def encodable_def)

lemma name_field_length:
  "validate_region_name name = Inr () \<Longrightarrow>
   length name \<le> MAX_REGION_NAME_BYTES \<and> 0 \<notin> set name \<and> utf8_valid name"
proof -
  assume "validate_region_name name = Inr ()"
  then have len: "length name \<le> MAX_REGION_NAME_BYTES" and g: "list_all is_ascii_graphic name"
    by (auto simp: validate_region_name_def)
  from g have "0 \<notin> set name"
    by (auto simp: list_all_iff is_ascii_graphic_def)
  moreover from g have "utf8_valid name"
  proof (induction name)
    case (Cons b bs)
    then have "b \<le> 126" by (simp add: is_ascii_graphic_def)
    then have "b \<le> 127" by (rule order_trans) simp
    with Cons show ?case by simp
  qed simp
  ultimately show ?thesis using len by simp
qed

lemma encodable_name:
  "encodable h \<Longrightarrow> i < length (regions h) \<Longrightarrow>
   length (region_name (regions h ! i)) \<le> MAX_REGION_NAME_BYTES \<and>
   0 \<notin> set (region_name (regions h ! i)) \<and> utf8_valid (region_name (regions h ! i))"
  by (rule name_field_length) (auto simp: encodable_def)

lemma length_slot_fields: "encodable h \<Longrightarrow> length (concat (slot_fields h i)) = 32"
  using encodable_name [of h i] by (auto simp: slot_fields_def MAX_REGION_NAME_BYTES_def)

lemma encode_slot_put_all:
  assumes "encodable h"
  shows "encode_slot h dest cursor i = put_all dest cursor (slot_fields h i)"
proof (cases "i < length (regions h)")
  case True
  then have "length (region_name (regions h ! i)) \<le> MAX_REGION_NAME_BYTES"
    "i < length (region_offsets h)" "i < length (region_crc32 h)"
    using assms encodable_name [OF assms True] by (auto simp: encodable_def)
  with True show ?thesis
    by (simp add: encode_slot_def slot_fields_def put_u64_def put_u32_def Let_def not_less not_le
        bind_result_return)
next
  case False
  then show ?thesis
    by (simp add: encode_slot_def slot_fields_def put_u64_def put_u32_def Let_def
        bind_result_return)
qed

lemma encode_slots_zeros:
  assumes "encodable h" and "32 * length is \<le> n"
  shows "encode_slots h (pre @ replicate n 0 @ tail) (length pre) is =
    Inr ((pre @ concat (map (concat \<circ> slot_fields h) is)) @ replicate (n - 32 * length is) 0 @ tail,
         length pre + 32 * length is)"
  using assms(2)
proof (induction "is" arbitrary: pre n)
  case Nil
  then show ?case by simp
next
  case (Cons i js)
  let ?s = "concat (slot_fields h i)"
  have len: "length ?s = 32"
    by (rule length_slot_fields [OF assms(1)])
  have "encode_slot h (pre @ replicate n 0 @ tail) (length pre) i =
      Inr ((pre @ ?s) @ replicate (n - 32) 0 @ tail, length (pre @ ?s))"
    using put_all_zeros [of "slot_fields h i" n pre tail] Cons.prems len
    by (simp add: encode_slot_put_all [OF assms(1)])
  then have "encode_slots h (pre @ replicate n 0 @ tail) (length pre) (i # js) =
      encode_slots h ((pre @ ?s) @ replicate (n - 32) 0 @ tail) (length (pre @ ?s)) js"
    by simp
  also have "\<dots> = Inr (((pre @ ?s) @ concat (map (concat \<circ> slot_fields h) js)) @
      replicate (n - 32 - 32 * length js) 0 @ tail, length (pre @ ?s) + 32 * length js)"
    using Cons.prems by (intro Cons.IH) simp
  finally show ?case using len by (simp add: comp_def)
qed

lemma header_checksum_ignores_field:
  assumes "length pre = off" and "length x = 4"
  shows "header_checksum crc (pre @ x @ post) off =
    crc (pre @ [0, 0, 0, 0] @ take (HEADER_BYTES - (off + 4)) post)"
  using assms by (simp add: header_checksum_def slice_def)

text \<open>The exact bytes \<open>encode\<close> leaves in the destination.\<close>

definition encoded_bytes :: "(byte list \<Rightarrow> u32) \<Rightarrow> record_header \<Rightarrow> byte list \<Rightarrow> byte list" where
  "encoded_bytes crc h tail =
     (let table = concat (map (concat \<circ> slot_fields h) [0..<MAX_REGIONS]) @ replicate 924 0 in
      concat (fixed_fields h) @ to_le 4 (crc (concat (fixed_fields h) @ [0, 0, 0, 0] @ table)) @ table @ tail)"

lemma length_slot_table:
  "encodable h \<Longrightarrow> length (concat (map (concat \<circ> slot_fields h) is)) = 32 * length is"
  by (induction "is") (simp_all add: length_slot_fields)

lemma encode_put_all:
  assumes "HEADER_BYTES \<le> length destination" and "length (region_crc32 h) = length (regions h)"
  shows "encode crc h destination =
    bind_result (put_all (splice 0 (replicate HEADER_BYTES 0) destination) 0 (fixed_fields h)) (\<lambda>(d11, off).
    bind_result (put_u32 d11 off 0) (\<lambda>(d12, c12).
    bind_result (encode_slots h d12 c12 [0..<MAX_REGIONS]) (\<lambda>(d13, _).
    Inr (splice off (to_le 4 (header_checksum crc d13 off)) d13))))"
  using assms
  by (simp add: encode_def fixed_fields_def put_u32_def put_u64_def Let_def not_less
      bind_result_assoc bind_result_case_prod)

lemma encode_writes:
  assumes enc: "encodable h" and len: "HEADER_BYTES \<le> length destination"
  shows "encode crc h destination = Inr (encoded_bytes crc h (drop HEADER_BYTES destination))"
proof -
  let ?tail = "drop HEADER_BYTES destination"
  let ?F = "concat (fixed_fields h)"
  let ?S = "concat (map (concat \<circ> slot_fields h) [0..<MAX_REGIONS])"
  let ?z = "to_le 4 (0 :: u32)"
  have F: "length ?F = 96" by (rule length_fixed_fields [OF enc])
  have S: "length ?S = 3072"
    using length_slot_table [OF enc, of "[0..<MAX_REGIONS]"] by (simp add: MAX_REGIONS_def)
  have start: "splice 0 (replicate HEADER_BYTES 0) destination = [] @ replicate 4096 0 @ ?tail"
    by (simp add: splice_def HEADER_BYTES_def ALIGNMENT_def)
  have fixed: "put_all (splice 0 (replicate HEADER_BYTES 0) destination) 0 (fixed_fields h) =
      Inr (?F @ replicate 4000 0 @ ?tail, 96)"
    using put_all_zeros [of "fixed_fields h" 4096 "[]" ?tail] F unfolding start by simp
  have crc0: "put_u32 (?F @ replicate 4000 0 @ ?tail) 96 0 =
      Inr ((?F @ ?z) @ replicate 3996 0 @ ?tail, 100)"
    using put_bytes_zeros [of ?z 4000 ?F ?tail] F by (simp add: put_u32_def)
  have slots: "encode_slots h ((?F @ ?z) @ replicate 3996 0 @ ?tail) 100 [0..<MAX_REGIONS] =
      Inr (((?F @ ?z) @ ?S) @ replicate 924 0 @ ?tail, 3172)"
    using encode_slots_zeros [OF enc, of "[0..<MAX_REGIONS]" 3996 "?F @ ?z" ?tail] F
    by (simp add: MAX_REGIONS_def)
  have check: "header_checksum crc (((?F @ ?z) @ ?S) @ replicate 924 0 @ ?tail) 96 =
      crc (?F @ [0, 0, 0, 0] @ ?S @ replicate 924 0)"
    using header_checksum_ignores_field [of ?F 96 ?z crc "?S @ replicate 924 0 @ ?tail"] F S
    by (simp add: HEADER_BYTES_def ALIGNMENT_def)
  have put_crc: "splice 96 (to_le 4 c) (((?F @ ?z) @ ?S) @ replicate 924 0 @ ?tail) =
      ?F @ to_le 4 c @ ?S @ replicate 924 0 @ ?tail" for c :: u32
    using F by (simp add: splice_def)
  show ?thesis
    using len enc fixed crc0 slots check put_crc
    by (simp add: encode_put_all encodable_def encoded_bytes_def Let_def)
qed

lemma take_bytes_drop:
  assumes "drop c source = xs @ rest" and "length xs = n" and "0 < n"
  shows "take_bytes source c n = Inr (xs, c + n)" and "drop (c + n) source = rest"
proof -
  have "length (drop c source) \<ge> n"
    using assms by simp
  then have "c + n \<le> length source"
    using assms(3) by simp
  then show "take_bytes source c n = Inr (xs, c + n)"
    using assms by (simp add: take_bytes_def slice_def)
  show "drop (c + n) source = rest"
    using assms by (metis append_eq_conv_conj drop_drop add.commute)
qed

lemma get_u32_drop:
  assumes "drop c source = to_le 4 v @ rest"
  shows "get_u32 source c = Inr (v, c + 4)" and "drop (c + 4) source = rest"
  using take_bytes_drop [OF assms, of 4] by (simp_all add: get_u32_def)

lemma get_u64_drop:
  assumes "drop c source = to_le 8 v @ rest"
  shows "get_u64 source c = Inr (v, c + 8)" and "drop (c + 8) source = rest"
  using take_bytes_drop [OF assms, of 8] by (simp_all add: get_u64_def)

lemma unat_of_nat_u64: "n \<le> u64_max \<Longrightarrow> unat (of_nat n :: u64) = n"
  by (simp add: u64_max_def unsigned_of_nat take_bit_nat_eq_self)

lemma takeWhile_name: "0 \<notin> set name \<Longrightarrow> takeWhile (\<lambda>b. b \<noteq> 0) (name @ replicate n (0 :: byte)) = name"
  by (induction name) (cases n, auto)

definition slot_entry :: "record_header \<Rightarrow> nat \<Rightarrow> region_description \<times> nat \<times> u32" where
  "slot_entry h i = (regions h ! i, region_offsets h ! i, region_crc32 h ! i)"

lemma decode_slot_reads:
  assumes enc: "encodable h" and src: "drop c source = concat (slot_fields h i) @ rest"
  shows "decode_slot source c (length (regions h)) i =
      Inr (if i < length (regions h) then [slot_entry h i] else [], c + 32)"
    and "drop (c + 32) source = rest"
proof -
  let ?present = "i < length (regions h)"
  let ?name = "(if ?present then region_name (regions h ! i) else [])"
  let ?field = "?name @ replicate (MAX_REGION_NAME_BYTES - length ?name) 0"
  let ?bc = "(if ?present then byte_count (regions h ! i) else 0)"
  let ?off = "(if ?present then of_nat (region_offsets h ! i) else 0) :: u64"
  let ?crc = "(if ?present then region_crc32 h ! i else 0) :: u32"
  have name: "?present \<Longrightarrow> length ?name \<le> MAX_REGION_NAME_BYTES \<and> 0 \<notin> set ?name \<and> utf8_valid ?name"
    using encodable_name [OF enc, of i] by simp
  have field: "length ?field = 12"
    using name by (cases ?present) (auto simp: MAX_REGION_NAME_BYTES_def)
  have "drop c source = ?field @ to_le 8 ?bc @ to_le 8 ?off @ to_le 4 ?crc @ rest"
    using src by (cases ?present) (simp_all add: slot_fields_def)
  note r1 = take_bytes_drop [OF this field]
  note r2 = get_u64_drop [OF r1(2)]
  note r3 = get_u64_drop [OF r2(2)]
  note r4 = get_u32_drop [OF r3(2)]
  have off: "?present \<Longrightarrow> unat ?off = region_offsets h ! i"
    using enc by (auto simp: encodable_def intro!: unat_of_nat_u64)
  have trim: "?present \<Longrightarrow> takeWhile (\<lambda>b. b \<noteq> 0) ?field = region_name (regions h ! i)"
    using name by (simp add: takeWhile_name)
  have reads: "take_bytes source c MAX_REGION_NAME_BYTES = Inr (?field, c + 12)"
    "get_u64 source (c + 12) = Inr (?bc, c + 20)"
    "get_u64 source (c + 20) = Inr (?off, c + 28)" "get_u32 source (c + 28) = Inr (?crc, c + 32)"
    using r1 r2 r3 r4 by (simp_all add: MAX_REGION_NAME_BYTES_def add.commute)
  show "decode_slot source c (length (regions h)) i =
      Inr (if ?present then [slot_entry h i] else [], c + 32)"
  proof (cases ?present)
    case True
    then show ?thesis
      using name off trim
      by (simp only: decode_slot_def reads bind_result_Inr prod.case as_usize_Inr if_True Let_def
          ensure_True slot_entry_def) (simp add: region_description.surjective [symmetric])
  next
    case False
    then show ?thesis
      by (simp only: decode_slot_def reads bind_result_Inr prod.case as_usize_Inr if_False Let_def)
  qed
  show "drop (c + 32) source = rest"
    using r4(2) by (simp add: add.commute)
qed

lemma decode_slots_reads:
  assumes enc: "encodable h"
  shows "drop c source = concat (map (concat \<circ> slot_fields h) is) @ rest \<Longrightarrow>
    decode_slots source c (length (regions h)) is =
    Inr (map (slot_entry h) (filter (\<lambda>i. i < length (regions h)) is))"
proof (induction "is" arbitrary: c)
  case Nil
  then show ?case by simp
next
  case (Cons i js)
  then have "drop c source = concat (slot_fields h i) @ (concat (map (concat \<circ> slot_fields h) js) @ rest)"
    by (simp add: comp_def)
  note slot = decode_slot_reads [OF enc this]
  from Cons.IH [OF slot(2)] slot(1) show ?case by simp
qed

lemma filter_less_upt: "n \<le> m \<Longrightarrow> filter (\<lambda>i. i < n) [0..<m] = [0..<n]"
proof -
  assume "n \<le> m"
  then have "[0..<m] = [0..<n] @ [n..<m]"
    by (metis le_add_diff_inverse upt_add_eq_append zero_le)
  then show ?thesis by (simp add: filter_empty_conv)
qed

lemma encoded_bytes_parts:
  assumes "encodable h"
  shows "length (encoded_bytes crc h tail) = HEADER_BYTES + length tail"
    and "drop HEADER_BYTES (encoded_bytes crc h tail) = tail"
  using assms length_fixed_fields [OF assms] length_slot_table [OF assms, of "[0..<MAX_REGIONS]"]
  by (simp_all add: encoded_bytes_def Let_def MAX_REGIONS_def HEADER_BYTES_def ALIGNMENT_def)

lemma encoded_bytes_known:
  assumes enc: "encodable h"
  shows "header_checksum crc (encoded_bytes crc h tail) 96 = crc (concat (fixed_fields h) @ [0, 0, 0, 0]
      @ concat (map (concat \<circ> slot_fields h) [0..<MAX_REGIONS]) @ replicate 924 0)"
    and "\<not> length (encoded_bytes crc h tail) < HEADER_BYTES"
    and "encoded_bytes crc h tail = concat (fixed_fields h) @ to_le 4 (crc (concat (fixed_fields h) @ [0, 0, 0, 0]
      @ concat (map (concat \<circ> slot_fields h) [0..<MAX_REGIONS]) @ replicate 924 0))
      @ (concat (map (concat \<circ> slot_fields h) [0..<MAX_REGIONS]) @ replicate 924 0) @ tail"
proof -
  let ?F = "concat (fixed_fields h)"
  let ?T = "concat (map (concat \<circ> slot_fields h) [0..<MAX_REGIONS]) @ replicate 924 0"
  let ?c = "crc (?F @ [0, 0, 0, 0] @ ?T)"
  have F: "length ?F = 96" by (rule length_fixed_fields [OF enc])
  have T: "length ?T = 3996"
    using length_slot_table [OF enc, of "[0..<MAX_REGIONS]"] by (simp add: MAX_REGIONS_def)
  show src: "encoded_bytes crc h tail = ?F @ to_le 4 ?c @ ?T @ tail"
    by (simp add: encoded_bytes_def Let_def)
  show "header_checksum crc (encoded_bytes crc h tail) 96 = ?c"
    unfolding src using header_checksum_ignores_field [of ?F 96 "to_le 4 ?c" crc "?T @ tail"] F T
    by (simp add: HEADER_BYTES_def ALIGNMENT_def)
  show "\<not> length (encoded_bytes crc h tail) < HEADER_BYTES"
    using F T by (simp add: src HEADER_BYTES_def ALIGNMENT_def)
qed

lemma encoded_slots:
  assumes enc: "encodable h"
  shows "decode_slots (encoded_bytes crc h tail) 100 (length (regions h)) [0..<MAX_REGIONS] =
    Inr (map (slot_entry h) [0..<length (regions h)])"
proof -
  have "drop 100 (encoded_bytes crc h tail) =
      concat (map (concat \<circ> slot_fields h) [0..<MAX_REGIONS]) @ replicate 924 0 @ tail"
    using length_fixed_fields [OF enc] by (simp add: encoded_bytes_known(3) [OF enc])
  from decode_slots_reads [OF enc this] enc show ?thesis
    by (simp add: filter_less_upt encodable_def)
qed

lemma slot_entry_tables:
  assumes "encodable h"
  shows "map fst (map (slot_entry h) [0..<length (regions h)]) = regions h"
    and "map (fst \<circ> snd) (map (slot_entry h) [0..<length (regions h)]) = region_offsets h"
    and "map (snd \<circ> snd) (map (slot_entry h) [0..<length (regions h)]) = region_crc32 h"
  using assms by (auto simp: encodable_def slot_entry_def intro!: nth_equalityI)

lemma encodable_words:
  assumes "encodable h"
  shows "unat (of_nat (token_count h) :: u64) = token_count h"
    and "unat (of_nat (tokens_offset h) :: u64) = tokens_offset h"
    and "unat (of_nat (logical_bytes h) :: u64) = logical_bytes h"
    and "unat (of_nat (file_bytes h) :: u64) = file_bytes h"
    and "unat (of_nat (length (regions h)) :: u32) = length (regions h)"
proof -
  show "unat (of_nat (token_count h) :: u64) = token_count h"
    "unat (of_nat (tokens_offset h) :: u64) = tokens_offset h"
    "unat (of_nat (logical_bytes h) :: u64) = logical_bytes h"
    "unat (of_nat (file_bytes h) :: u64) = file_bytes h"
    using assms by (auto simp: encodable_def intro!: unat_of_nat_u64)
  show "unat (of_nat (length (regions h)) :: u32) = length (regions h)"
    using assms by (simp add: encodable_def MAX_REGIONS_def unsigned_of_nat take_bit_nat_eq_self)
qed

lemma decode_encoded_bytes:
  assumes enc: "encodable h" and valid: "validate_layout h = Inr ()"
  shows "decode crc (encoded_bytes crc h tail) = Inr h"
proof -
  let ?table = "concat (map (concat \<circ> slot_fields h) [0..<MAX_REGIONS]) @ replicate 924 0"
  let ?c = "crc (concat (fixed_fields h) @ [0, 0, 0, 0] @ ?table)"
  note parts = encoded_bytes_known [OF enc, of crc tail]
  have d0: "drop 0 (encoded_bytes crc h tail) = MAGIC @ to_le 4 VERSION @ to_le 4 (of_nat HEADER_BYTES :: u32) @
      fingerprint h @ to_le 8 (key_hash_field h) @ to_le 8 (of_nat (token_count h) :: u64) @
      to_le 4 (of_nat (length (regions h)) :: u32) @ to_le 4 (tokens_crc32 h) @
      to_le 8 (of_nat (tokens_offset h) :: u64) @ to_le 8 (of_nat (logical_bytes h) :: u64) @
      to_le 8 (of_nat (file_bytes h) :: u64) @ to_le 4 ?c @ ?table @ tail"
    by (simp add: parts(3) fixed_fields_def)
  have eta: "\<lparr>fingerprint = fingerprint h, key_hash_field = key_hash_field h, token_count = token_count h,
      regions = regions h, tokens_offset = tokens_offset h, region_offsets = region_offsets h,
      logical_bytes = logical_bytes h, file_bytes = file_bytes h, tokens_crc32 = tokens_crc32 h,
      region_crc32 = region_crc32 h\<rparr> = h"
    by simp
  have magic: "length MAGIC = 8" by (simp add: MAGIC_def)
  have known: "length (fingerprint h) = 32" "0 < length (regions h)" "length (regions h) \<le> MAX_REGIONS"
    using enc by (simp_all add: encodable_def)
  note r1 = take_bytes_drop [OF d0 magic, simplified]
  note r2 = get_u32_drop [OF r1(2)]
  note r3 = get_u32_drop [OF r2(2)]
  note r4 = take_bytes_drop [OF r3(2) known(1)]
  note r5 = get_u64_drop [OF r4(2), simplified]
  note r6 = get_u64_drop [OF r5(2)]
  note r7 = get_u32_drop [OF r6(2)]
  note r8 = get_u32_drop [OF r7(2)]
  note r9 = get_u64_drop [OF r8(2)]
  note r10 = get_u64_drop [OF r9(2)]
  note r11 = get_u64_drop [OF r10(2)]
  note r12 = get_u32_drop [OF r11(2)]
  show ?thesis
    unfolding decode_def
    using parts(1,2) r1(1) r2(1) r3(1) r4(1) r5(1) r6(1) r7(1) r8(1) r9(1) r10(1) r11(1) r12(1)
      encoded_slots [OF enc, of crc tail] known
    by (simp add: magic encodable_words [OF enc] Let_def slot_entry_tables [OF enc] valid eta
        HEADER_BYTES_def ALIGNMENT_def del: map_map)
qed

section \<open>What the format guarantees\<close>

text \<open>A header whose regions are laid out canonically, as accessed through its ranges.\<close>

definition ranges_ok :: "record_header \<Rightarrow> bool" where
  "ranges_ok h \<longleftrightarrow>
     fst (tokens_range h) = HEADER_BYTES \<and> file_bytes h \<le> u64_max \<and> ALIGNMENT dvd file_bytes h
     \<and> (\<forall>i < length (regions h). \<exists>a b. region_range h i = Some (a, b)
          \<and> ALIGNMENT dvd a \<and> snd (tokens_range h) \<le> a \<and> a < b \<and> b \<le> file_bytes h)
     \<and> (\<forall>j < length (regions h). \<forall>i < j. \<forall>a b c d.
          region_range h i = Some (a, b) \<longrightarrow> region_range h j = Some (c, d) \<longrightarrow> b \<le> c)"

lemma packed_ranges_ok:
  assumes packed: "packed (HEADER_BYTES + token_count h * 4) (regions h) (region_offsets h) (logical_bytes h)"
    and align: "align_up (logical_bytes h) = Inr (file_bytes h)"
    and toff: "tokens_offset h = HEADER_BYTES" and valid: "validate_regions (regions h) = Inr ()"
  shows "ranges_ok h"
proof -
  note fb = align_up_props [OF align]
  have "\<exists>a b. region_range h i = Some (a, b) \<and> ALIGNMENT dvd a \<and> snd (tokens_range h) \<le> a
      \<and> a < b \<and> b \<le> file_bytes h" if "i < length (regions h)" for i
    using that packed_nth [OF packed that] packed_length [OF packed] fb(2) valid
    by (auto simp: region_range_def tokens_range_def toff validate_regions_Inr unat_gt_0)
  moreover have "b \<le> c" if "i < j" "j < length (regions h)"
    "region_range h i = Some (a, b)" "region_range h j = Some (c, d)" for i j a b c d
    using that packed_disjoint [OF packed that(1,2)] by (auto simp: region_range_def split: if_splits)
  ultimately show ?thesis
    unfolding ranges_ok_def using fb toff by (auto simp: tokens_range_def)
qed

lemma validate_layout_ranges_ok:
  assumes "validate_layout h = Inr ()"
  shows "ranges_ok h"
proof -
  from assms obtain e where e: "layout (fingerprint h) (key_hash_field h) (token_count h) (regions h) = Inr e"
    and same: "tokens_offset h = HEADER_BYTES" "region_offsets h = region_offsets e"
      "logical_bytes h = logical_bytes e" "file_bytes h = file_bytes e"
    unfolding validate_layout_def by (auto simp: result_simps)
  note lay = layout_Inr [OF e]
  show ?thesis
    by (rule packed_ranges_ok) (use lay(9,12,14) same in simp_all)
qed

text \<open>
  whenever \<open>layout\<close> accepts its sizes, the token section starts right after the header, every
  region sits on a page boundary behind the tokens, regions are in order and never overlap, all of
  them end inside the file, the file is a whole number of pages and no size has wrapped around.
\<close>

theorem layout_geometry:
  assumes "layout fp hash count rs = Inr h"
  shows "ranges_ok h \<and> regions h = rs \<and> snd (tokens_range h) = HEADER_BYTES + 4 * count
    \<and> file_bytes h < logical_bytes h + ALIGNMENT"
proof -
  note lay = layout_Inr [OF assms]
  have "ranges_ok h"
    by (rule packed_ranges_ok) (use lay in simp_all)
  then show ?thesis
    using lay align_up_props [OF lay(14)] by (simp add: tokens_range_def)
qed

definition sample_regions :: "region_description list" where
  "sample_regions = [\<lparr>region_name = [107, 118], byte_count = 5000\<rparr>, \<lparr>region_name = [115], byte_count = 128\<rparr>]"

definition sample_layout :: record_header where
  "sample_layout = \<lparr>fingerprint = replicate 32 7, key_hash_field = 9, token_count = 1000,
     regions = sample_regions, tokens_offset = 4096, region_offsets = [8192, 16384],
     logical_bytes = 16512, file_bytes = 20480, tokens_crc32 = 0, region_crc32 = []\<rparr>"

lemma sample_layout_accepted: "layout (replicate 32 7) 9 1000 sample_regions = Inr sample_layout"
  by (simp add: layout_def sample_regions_def sample_layout_def ensure_def validate_region_name_def
      is_ascii_graphic_def MAX_REGIONS_def MAX_REGION_NAME_BYTES_def checked_mul_def checked_add_def
      checked_mul64_def checked_add64_def align_up_def HEADER_BYTES_def ALIGNMENT_def u64_max_def)

lemma sample_layout_valid: "validate_layout (sample_layout\<lparr>region_crc32 := [1, 2]\<rparr>) = Inr ()"
  using sample_layout_accepted
  by (simp add: validate_layout_def sample_layout_def ensure_def HEADER_BYTES_def ALIGNMENT_def
      sample_regions_def)

theorem layout_geometry_witness: "ranges_ok sample_layout \<and> file_bytes sample_layout = 20480"
  using layout_geometry [OF sample_layout_accepted] by (simp add: sample_layout_def)

text \<open>
  encoding a header with a canonical layout into any buffer of at least 4096 bytes succeeds,
  leaves the bytes behind the header alone, and decoding the buffer returns the same header, for
  every checksum function.
\<close>

theorem encode_decode_round_trip:
  assumes "validate_layout h = Inr ()" and "length (fingerprint h) = 32"
    and "HEADER_BYTES \<le> length destination"
  shows "\<exists>bytes. encode crc h destination = Inr bytes \<and> length bytes = length destination
    \<and> drop HEADER_BYTES bytes = drop HEADER_BYTES destination \<and> decode crc bytes = Inr h"
proof -
  note enc = validate_layout_encodable [OF assms(1,2)]
  show ?thesis
    using encode_writes [OF enc assms(3), of crc] decode_encoded_bytes [OF enc assms(1)]
      encoded_bytes_parts [OF enc, of crc "drop HEADER_BYTES destination"] assms(3) by simp
qed

theorem encode_decode_round_trip_witness:
  "\<exists>bytes. encode (\<lambda>bs. of_nat (length bs)) (sample_layout\<lparr>region_crc32 := [1, 2]\<rparr>) (replicate 5000 255) = Inr bytes
     \<and> decode (\<lambda>bs. of_nat (length bs)) bytes = Inr (sample_layout\<lparr>region_crc32 := [1, 2]\<rparr>)"
proof -
  from encode_decode_round_trip [OF sample_layout_valid, of "replicate 5000 255" "\<lambda>bs. of_nat (length bs)"]
  show ?thesis by (auto simp: sample_layout_def HEADER_BYTES_def ALIGNMENT_def)
qed

text \<open>
  C20: a header that \<open>decode\<close> returns from arbitrary bytes is canonical: its layout revalidates, its
  regions are page aligned, ordered, disjoint and inside the announced file size, its region count
  is between 1 and 96, and the stored header checksum matches the bytes read.
\<close>

theorem decode_trust_boundary:
  assumes "decode crc source = Inr h"
  shows "validate_layout h = Inr () \<and> ranges_ok h \<and> length (fingerprint h) = 32
    \<and> 0 < length (regions h) \<and> length (regions h) \<le> MAX_REGIONS
    \<and> take (length MAGIC) source = MAGIC
    \<and> from_le (slice 96 4 source) = header_checksum crc source 96"
proof -
  from assms obtain magic c1 size fp hash raw_count tcrc toff logical fbytes raw_crc c2 c3 c4 c5 c6 c7 c8 c9 c10 off c12
      version raw_regions where
    "HEADER_BYTES \<le> length source" and m: "take_bytes source 0 (length MAGIC) = Inr (magic, c1)" "magic = MAGIC"
    and f: "get_u32 source c1 = Inr (version, c2)" "get_u32 source c2 = Inr (size, c3)"
      "take_bytes source c3 32 = Inr (fp, c4)" "get_u64 source c4 = Inr (hash, c5)"
      "get_u64 source c5 = Inr (raw_count, c6)" "get_u32 source c6 = Inr (raw_regions, c7)"
      "get_u32 source c7 = Inr (tcrc, c8)" "get_u64 source c8 = Inr (toff, c9)"
      "get_u64 source c9 = Inr (logical, c10)" "get_u64 source c10 = Inr (fbytes, off)"
      "get_u32 source off = Inr (raw_crc, c12)" "raw_crc = header_checksum crc source off"
    and valid: "validate_layout h = Inr ()" and fp: "fingerprint h = fp"
    unfolding decode_def by (clarsimp simp: bind_result_eq_Inr ensure_eq_Inr Let_def not_less)
  have "take (length MAGIC) source = MAGIC"
    using m by (auto simp: take_bytes_def slice_def split: if_splits)
  moreover have "off = 96"
    using m f by (auto simp: take_bytes_def get_u32_def get_u64_def bind_result_eq_Inr MAGIC_def split: if_splits)
  then have "from_le (slice 96 4 source) = header_checksum crc source 96"
    using f(11,12) by (auto simp: get_u32_def take_bytes_def bind_result_eq_Inr split: if_splits)
  moreover have "length (fingerprint h) = 32"
    unfolding fp using f(3) by (auto simp: take_bytes_def split: if_splits)
  moreover have "0 < length (regions h) \<and> length (regions h) \<le> MAX_REGIONS"
    using valid unfolding validate_layout_def layout_def by (auto simp: result_simps)
  ultimately show ?thesis
    using valid validate_layout_ranges_ok [OF valid] by blast
qed

theorem decode_trust_boundary_witness:
  "\<exists>bytes h. decode (\<lambda>bs. of_nat (length bs)) bytes = Inr h \<and> ranges_ok h \<and> length (regions h) = 2"
proof -
  have "length (fingerprint (sample_layout\<lparr>region_crc32 := [1, 2]\<rparr>)) = 32"
    by (simp add: sample_layout_def)
  note enc = validate_layout_encodable [OF sample_layout_valid this]
  note dec = decode_encoded_bytes [OF enc sample_layout_valid, of "\<lambda>bs. of_nat (length bs)" "[]"]
  have "length (regions (sample_layout\<lparr>region_crc32 := [1, 2]\<rparr>)) = 2"
    by (simp add: sample_layout_def sample_regions_def)
  with dec decode_trust_boundary [OF dec] show ?thesis by blast
qed

end
