(* ===== verification/ResidentTier.thy ===== *)
theory ResidentTier
  imports Prelude
begin

text \<open>
  The host-memory tier of the prefix store, \<open>cache/letsinfer_prefix_store/src/ram_tier.rs\<close>: a
  byte-bounded table of immutable record blobs with least-recently-used eviction and per-path
  single flight. An operation that runs under the tier's mutex is one function on \<open>tier_state\<close>;
  \<open>load\<close> has two critical sections with the caller's loader between them, and its interleavings
  with other threads are the step relation at the end. Counters are unbounded.
\<close>

section \<open>State and operations\<close>

type_synonym path = string
type_synonym blob = "byte list"

record tier_state =
  t_entries :: "(path \<times> blob) list"
  t_lru :: "path list"
  t_loading :: "path set"
  t_used_bytes :: nat
  t_hit_count :: nat
  t_nvme_load_count :: nat

datatype load_source = Resident | Nvme

record tier_stats =
  s_capacity_bytes :: nat
  s_used_bytes :: nat
  s_entries :: nat
  s_loading :: nat
  s_hit_count :: nat
  s_nvme_load_count :: nat

definition tier_new :: tier_state where
  "tier_new = \<lparr>t_entries = [], t_lru = [], t_loading = {}, t_used_bytes = 0, t_hit_count = 0,
     t_nvme_load_count = 0\<rparr>"

text \<open>\<open>iter().position\<close> followed by \<open>remove\<close>: only the first occurrence goes.\<close>

definition remove_from_lru :: "path list \<Rightarrow> path \<Rightarrow> path list" where
  "remove_from_lru lru key = remove1 key lru"

definition touch_lru :: "path list \<Rightarrow> path \<Rightarrow> path list" where
  "touch_lru lru key = remove_from_lru lru key @ [key]"

text \<open>The \<open>while\<close> loop of \<open>insert\<close>: pop the oldest path until the new blob fits.\<close>

fun evict_oldest :: "nat \<Rightarrow> nat \<Rightarrow> path list \<Rightarrow> (path \<times> blob) list \<Rightarrow> nat \<Rightarrow>
    path list \<times> (path \<times> blob) list \<times> nat" where
  "evict_oldest capacity n [] es used = ([], es, used)"
| "evict_oldest capacity n (victim # lru) es used =
     (if saturating_add64 used n > capacity
      then (case map_of es victim of
              Some removed \<Rightarrow> evict_oldest capacity n lru (AList.delete victim es) (used - length removed)
            | None \<Rightarrow> evict_oldest capacity n lru es used)
      else (victim # lru, es, used))"

definition tier_insert :: "nat \<Rightarrow> path \<Rightarrow> blob \<Rightarrow> tier_state \<Rightarrow> tier_state" where
  "tier_insert capacity key blob s =
     (let (lru0, es0, used0) =
            (case map_of (t_entries s) key of
               Some prior \<Rightarrow> (remove_from_lru (t_lru s) key, AList.delete key (t_entries s),
                              t_used_bytes s - length prior)
             | None \<Rightarrow> (t_lru s, t_entries s, t_used_bytes s));
          (lru1, es1, used1) = evict_oldest capacity (length blob) lru0 es0 used0
      in s\<lparr>t_used_bytes := used1 + length blob, t_lru := lru1 @ [key],
           t_entries := AList.update key blob es1\<rparr>)"

definition tier_promote :: "nat \<Rightarrow> path \<Rightarrow> blob \<Rightarrow> tier_state \<Rightarrow> tier_state" where
  "tier_promote capacity key blob s =
     (if capacity = 0 \<or> length blob > capacity then s else tier_insert capacity key blob s)"

definition tier_invalidate :: "path \<Rightarrow> tier_state \<Rightarrow> tier_state" where
  "tier_invalidate key s =
     (case map_of (t_entries s) key of
        Some blob \<Rightarrow> s\<lparr>t_entries := AList.delete key (t_entries s),
                      t_used_bytes := t_used_bytes s - length blob,
                      t_lru := remove_from_lru (t_lru s) key\<rparr>
      | None \<Rightarrow> s)"

definition tier_stats_of :: "nat \<Rightarrow> tier_state \<Rightarrow> tier_stats" where
  "tier_stats_of capacity s =
     \<lparr>s_capacity_bytes = capacity, s_used_bytes = t_used_bytes s, s_entries = length (t_entries s),
      s_loading = card (t_loading s), s_hit_count = t_hit_count s,
      s_nvme_load_count = t_nvme_load_count s\<rparr>"

text \<open>
  \<open>load\<close>. \<open>load_enter\<close> is the decision before the loader runs: bypass the tier, hit, become the
  elected reader of the path, or wait for the elected reader. \<open>load_finish\<close> is the critical section
  after the elected loader returned, \<open>load_bypass\<close> the path without residency.
\<close>

datatype load_decision = Bypass | Hit blob | Elected | Wait

datatype 'e load_error = LoaderError 'e | SizeMismatch nat nat

definition validate_size :: "blob \<Rightarrow> nat \<Rightarrow> 'e load_error + unit" where
  "validate_size blob expected = ensure (length blob = expected) (SizeMismatch (length blob) expected)"

definition load_enter :: "nat \<Rightarrow> path \<Rightarrow> nat \<Rightarrow> tier_state \<Rightarrow> load_decision \<times> tier_state" where
  "load_enter capacity key expected s =
     (if capacity = 0 \<or> expected > capacity then (Bypass, s)
      else case map_of (t_entries s) key of
             Some blob \<Rightarrow> (Hit blob, s\<lparr>t_lru := touch_lru (t_lru s) key, t_hit_count := t_hit_count s + 1\<rparr>)
           | None \<Rightarrow> if key \<in> t_loading s then (Wait, s)
                     else (Elected, s\<lparr>t_loading := insert key (t_loading s)\<rparr>))"

definition checked_blob :: "nat \<Rightarrow> 'e + blob \<Rightarrow> 'e load_error + blob" where
  "checked_blob expected loaded =
     (case loaded of Inl e \<Rightarrow> Inl (LoaderError e)
      | Inr blob \<Rightarrow> bind_result (validate_size blob expected) (\<lambda>_. Inr blob))"

definition load_bypass :: "nat \<Rightarrow> 'e + blob \<Rightarrow> tier_state \<Rightarrow>
    ('e load_error + blob \<times> load_source) \<times> tier_state" where
  "load_bypass expected loaded s =
     (case checked_blob expected loaded of
        Inl e \<Rightarrow> (Inl e, s)
      | Inr blob \<Rightarrow> (Inr (blob, Nvme), s\<lparr>t_nvme_load_count := t_nvme_load_count s + 1\<rparr>))"

definition load_finish :: "nat \<Rightarrow> path \<Rightarrow> nat \<Rightarrow> 'e + blob \<Rightarrow> tier_state \<Rightarrow>
    ('e load_error + blob \<times> load_source) \<times> tier_state" where
  "load_finish capacity key expected loaded s =
     (let s1 = s\<lparr>t_loading := t_loading s - {key}\<rparr> in
      case checked_blob expected loaded of
        Inl e \<Rightarrow> (Inl e, s1)
      | Inr blob \<Rightarrow> (let s2 = tier_insert capacity key blob s1
                     in (Inr (blob, Nvme), s2\<lparr>t_nvme_load_count := t_nvme_load_count s2 + 1\<rparr>)))"

text \<open>One call of \<open>load\<close> that no other thread interrupts; a wait would block.\<close>

definition tier_load :: "nat \<Rightarrow> path \<Rightarrow> nat \<Rightarrow> 'e + blob \<Rightarrow> tier_state \<Rightarrow>
    (('e load_error + blob \<times> load_source) \<times> tier_state) option" where
  "tier_load capacity key expected loaded s =
     (case load_enter capacity key expected s of
        (Bypass, s') \<Rightarrow> Some (load_bypass expected loaded s')
      | (Hit blob, s') \<Rightarrow> Some (Inr (blob, Resident), s')
      | (Elected, s') \<Rightarrow> Some (load_finish capacity key expected loaded s')
      | (Wait, s') \<Rightarrow> None)"

section \<open>The abstract cache\<close>

text \<open>
  The contract of the tier: a list of resident records, oldest first, whose total size is recomputed
  rather than cached.
\<close>

type_synonym lru_cache = "(path \<times> blob) list"

fun fit :: "nat \<Rightarrow> nat \<Rightarrow> lru_cache \<Rightarrow> lru_cache" where
  "fit capacity n [] = []"
| "fit capacity n (x # xs) =
     (if table_sum length (x # xs) + n > capacity then fit capacity n xs else x # xs)"

definition lru_insert :: "nat \<Rightarrow> path \<Rightarrow> blob \<Rightarrow> lru_cache \<Rightarrow> lru_cache" where
  "lru_insert capacity key blob xs = fit capacity (length blob) (AList.delete key xs) @ [(key, blob)]"

definition lru_use :: "path \<Rightarrow> blob \<Rightarrow> lru_cache \<Rightarrow> lru_cache" where
  "lru_use key blob xs = AList.delete key xs @ [(key, blob)]"

definition view :: "path list \<Rightarrow> (path \<times> blob) list \<Rightarrow> lru_cache" where
  "view lru es = map (\<lambda>p. (p, the (map_of es p))) lru"

definition abs_tier :: "tier_state \<Rightarrow> lru_cache" where
  "abs_tier s = view (t_lru s) (t_entries s)"

definition cache_ok :: "path list \<Rightarrow> (path \<times> blob) list \<Rightarrow> nat \<Rightarrow> bool" where
  "cache_ok lru es used \<longleftrightarrow>
     table_ok es \<and> distinct lru \<and> set lru = fst ` set es \<and> used = table_sum length es"

definition tier_ok :: "nat \<Rightarrow> tier_state \<Rightarrow> bool" where
  "tier_ok capacity s \<longleftrightarrow>
     cache_ok (t_lru s) (t_entries s) (t_used_bytes s) \<and> t_used_bytes s \<le> capacity"

lemma view_simps [simp]:
  "view [] es = []" "view (p # lru) es = (p, the (map_of es p)) # view lru es"
  by (simp_all add: view_def)

lemma view_delete_absent: "p \<notin> set lru \<Longrightarrow> view lru (AList.delete p es) = view lru es"
  by (auto simp: view_def map_of_delete_if)

lemma table_sum_distinct_keys:
  assumes "table_ok es" and "distinct ks" and "set ks = fst ` set es"
  shows "table_sum f es = sum_list (map (\<lambda>k. f (the (map_of es k))) ks)"
proof -
  have "table_sum f es = sum_list (map (\<lambda>k. f (the (map_of es k))) (map fst es))"
    using assms(1) by (auto simp: table_sum_def intro!: arg_cong [of _ _ sum_list])
  also have "\<dots> = sum (\<lambda>k. f (the (map_of es k))) (set (map fst es))"
    by (rule sum_list_distinct_conv_sum_set [OF assms(1)])
  also have "\<dots> = sum_list (map (\<lambda>k. f (the (map_of es k))) ks)"
    using assms(2,3) by (simp add: sum_list_distinct_conv_sum_set)
  finally show ?thesis .
qed

lemma table_sum_view: "cache_ok lru es used \<Longrightarrow> table_sum length (view lru es) = used"
  using table_sum_distinct_keys [of es lru length]
  by (simp add: cache_ok_def view_def table_sum_def comp_def)

lemma map_of_view: "cache_ok lru es used \<Longrightarrow> map_of (view lru es) p = map_of es p"
proof -
  assume "cache_ok lru es used"
  then have keys: "set lru = fst ` set es" by (simp add: cache_ok_def)
  have "map_of (view lru es) p = (if p \<in> set lru then Some (the (map_of es p)) else None)"
    by (induction lru) (auto simp: view_def)
  then show ?thesis
    using keys by (metis map_of_eq_None_iff option.collapse)
qed

lemma view_delete:
  "distinct lru \<Longrightarrow> view (remove1 p lru) (AList.delete p es) = AList.delete p (view lru es)"
proof (induction lru)
  case Nil
  then show ?case by (simp add: view_def)
next
  case (Cons q lru)
  then show ?case
    by (auto simp: view_def map_of_delete_if delete_absent image_iff intro!: map_cong)
qed

lemma cache_ok_remove:
  assumes "cache_ok lru es used" and "map_of es p = Some b"
  shows "cache_ok (remove1 p lru) (AList.delete p es) (used - length b)" and "length b \<le> used"
  using assms table_sum_delete [of es p b length]
  by (auto simp: cache_ok_def set_delete image_iff)

lemma cache_ok_add:
  assumes "cache_ok lru es used" and "p \<notin> set lru"
  shows "cache_ok (lru @ [p]) (AList.update p b es) (used + length b)"
    and "view (lru @ [p]) (AList.update p b es) = view lru es @ [(p, b)]"
proof -
  from assms have none: "map_of es p = None" by (simp add: cache_ok_def map_of_eq_None_iff)
  show "cache_ok (lru @ [p]) (AList.update p b es) (used + length b)"
    using assms table_sum_update_absent [OF none, of length b]
    by (auto simp: cache_ok_def dom_update)
  show "view (lru @ [p]) (AList.update p b es) = view lru es @ [(p, b)]"
    using assms(2) by (auto simp: view_def map_of_update_if)
qed

lemma evict_oldest_fit:
  assumes "cache_ok lru es used" and "capacity < u64_max"
    and "evict_oldest capacity n lru es used = (lru', es', used')"
  shows "cache_ok lru' es' used' \<and> view lru' es' = fit capacity n (view lru es)
    \<and> (used' + n \<le> capacity \<or> used' = 0) \<and> set lru' \<subseteq> set lru"
  using assms
proof (induction lru arbitrary: es used)
  case Nil
  then show ?case by (auto simp: cache_ok_def view_def)
next
  case (Cons v lru)
  then obtain b where b: "map_of es v = Some b"
    by (metis cache_ok_def list.set_intros(1) map_of_eq_None_iff not_None_eq)
  have total: "table_sum length (view (v # lru) es) = used"
    by (rule table_sum_view [OF Cons.prems(1)])
  show ?case
  proof (cases "used + n > capacity")
    case True
    then have "saturating_add64 used n > capacity"
      using Cons.prems(2) by (simp add: saturating_add64_def)
    with Cons.prems(3) b have step:
      "evict_oldest capacity n lru (AList.delete v es) (used - length b) = (lru', es', used')" by simp
    have ok: "cache_ok lru (AList.delete v es) (used - length b)"
      using cache_ok_remove(1) [OF Cons.prems(1) b] by simp
    have "view lru (AList.delete v es) = view lru es"
      using Cons.prems(1) by (auto intro!: view_delete_absent simp: cache_ok_def)
    with Cons.IH [OF ok Cons.prems(2) step] True total show ?thesis by auto
  next
    case False
    then have "\<not> saturating_add64 used n > capacity"
      using saturating_add64_le(1) [of used n] by linarith
    with Cons.prems False total show ?thesis by auto
  qed
qed

lemma abs_tier_ok:
  assumes "tier_ok capacity s"
  shows "map_of (abs_tier s) p = map_of (t_entries s) p" "table_sum length (abs_tier s) = t_used_bytes s"
    "table_ok (abs_tier s)"
  using assms map_of_view table_sum_view
  by (auto simp: tier_ok_def abs_tier_def cache_ok_def view_def comp_def)

lemma tier_insert_refines:
  assumes ok: "tier_ok capacity s" and cap: "capacity < u64_max" and fits: "length b \<le> capacity"
  shows "tier_ok capacity (tier_insert capacity p b s)"
    and "abs_tier (tier_insert capacity p b s) = lru_insert capacity p b (abs_tier s)"
    and "t_loading (tier_insert capacity p b s) = t_loading s"
proof -
  obtain lru0 es0 used0 where start:
    "(case map_of (t_entries s) p of
        Some prior \<Rightarrow> (remove_from_lru (t_lru s) p, AList.delete p (t_entries s), t_used_bytes s - length prior)
      | None \<Rightarrow> (t_lru s, t_entries s, t_used_bytes s)) = (lru0, es0, used0)"
    by (metis prod_cases3)
  have cok: "cache_ok (t_lru s) (t_entries s) (t_used_bytes s)"
    using ok by (simp add: tier_ok_def)
  have start_ok: "cache_ok lru0 es0 used0 \<and> p \<notin> set lru0 \<and> view lru0 es0 = AList.delete p (abs_tier s)"
  proof (cases "map_of (t_entries s) p")
    case None
    with start cok have same: "lru0 = t_lru s" "es0 = t_entries s" "used0 = t_used_bytes s"
      and fresh: "p \<notin> set (t_lru s)"
      by (auto simp: cache_ok_def map_of_eq_None_iff)
    then show ?thesis
      using cok by (auto simp: abs_tier_def view_def delete_absent image_iff)
  next
    case (Some prior)
    with start have "lru0 = remove1 p (t_lru s)" "es0 = AList.delete p (t_entries s)"
      "used0 = t_used_bytes s - length prior"
      by (auto simp: remove_from_lru_def)
    then show ?thesis
      using cache_ok_remove [OF cok Some] cok by (auto simp: abs_tier_def view_delete cache_ok_def)
  qed
  obtain lru1 es1 used1 where ev: "evict_oldest capacity (length b) lru0 es0 used0 = (lru1, es1, used1)"
    by (metis prod_cases3)
  have ins: "tier_insert capacity p b s =
      s\<lparr>t_used_bytes := used1 + length b, t_lru := lru1 @ [p], t_entries := AList.update p b es1\<rparr>"
    unfolding tier_insert_def start using ev by simp
  have fit: "cache_ok lru1 es1 used1" "view lru1 es1 = fit capacity (length b) (view lru0 es0)"
    "used1 + length b \<le> capacity" "set lru1 \<subseteq> set lru0"
    using evict_oldest_fit [OF _ cap ev] start_ok fits by auto
  have fresh: "p \<notin> set lru1" using fit(4) start_ok by blast
  show "tier_ok capacity (tier_insert capacity p b s)"
    using cache_ok_add(1) [OF fit(1) fresh] fit(3) by (simp add: ins tier_ok_def)
  show "abs_tier (tier_insert capacity p b s) = lru_insert capacity p b (abs_tier s)"
    using cache_ok_add(2) [OF fit(1) fresh] fit(2) start_ok by (simp add: ins abs_tier_def lru_insert_def)
  show "t_loading (tier_insert capacity p b s) = t_loading s" by (simp add: ins)
qed

lemma tier_invalidate_refines:
  assumes "tier_ok capacity s"
  shows "tier_ok capacity (tier_invalidate p s)"
    and "abs_tier (tier_invalidate p s) = AList.delete p (abs_tier s)"
    and "t_loading (tier_invalidate p s) = t_loading s"
proof -
  have cok: "cache_ok (t_lru s) (t_entries s) (t_used_bytes s)"
    using assms by (simp add: tier_ok_def)
  have "tier_ok capacity (tier_invalidate p s) \<and> abs_tier (tier_invalidate p s) = AList.delete p (abs_tier s)"
  proof (cases "map_of (t_entries s) p")
    case None
    then have "p \<notin> fst ` set (abs_tier s)"
      using abs_tier_ok(1) [OF assms, of p] by (metis map_of_eq_None_iff)
    with None show ?thesis
      using assms by (simp add: tier_invalidate_def delete_absent)
  next
    case (Some b)
    then show ?thesis
      using cache_ok_remove [OF cok Some] cok assms
      by (auto simp: tier_invalidate_def tier_ok_def abs_tier_def remove_from_lru_def view_delete cache_ok_def)
  qed
  then show "tier_ok capacity (tier_invalidate p s)"
    and "abs_tier (tier_invalidate p s) = AList.delete p (abs_tier s)" by blast+
  show "t_loading (tier_invalidate p s) = t_loading s"
    by (simp add: tier_invalidate_def split: option.splits)
qed

lemma touch_refines:
  assumes "tier_ok capacity s" and "map_of (t_entries s) p = Some b"
  shows "tier_ok capacity (s\<lparr>t_lru := touch_lru (t_lru s) p, t_hit_count := n\<rparr>)"
    and "abs_tier (s\<lparr>t_lru := touch_lru (t_lru s) p, t_hit_count := n\<rparr>) = lru_use p b (abs_tier s)"
proof -
  have cok: "cache_ok (t_lru s) (t_entries s) (t_used_bytes s)"
    using assms by (simp add: tier_ok_def)
  with assms(2) have "p \<in> set (t_lru s)"
    by (auto simp: cache_ok_def dest: map_of_SomeD intro: rev_image_eqI)
  then show "tier_ok capacity (s\<lparr>t_lru := touch_lru (t_lru s) p, t_hit_count := n\<rparr>)"
    using assms(1) by (auto simp: tier_ok_def cache_ok_def touch_lru_def remove_from_lru_def)
  have "view (remove1 p (t_lru s)) (t_entries s) = AList.delete p (abs_tier s)"
    using cok view_delete [of "t_lru s" p "t_entries s"] view_delete_absent [of p "remove1 p (t_lru s)"]
    by (simp add: cache_ok_def abs_tier_def)
  then show "abs_tier (s\<lparr>t_lru := touch_lru (t_lru s) p, t_hit_count := n\<rparr>) = lru_use p b (abs_tier s)"
    using assms(2) by (simp add: abs_tier_def touch_lru_def remove_from_lru_def lru_use_def view_def)
qed

section \<open>The interface other components rely on\<close>

text \<open>
  What the store needs of a residency tier: \<open>admit\<close> may make a blob resident and may drop others,
  \<open>forget\<close> removes exactly one path, and the byte bound always holds.
\<close>

locale resident_cache =
  fixes ok :: "'s \<Rightarrow> bool" and peek :: "'s \<Rightarrow> path \<Rightarrow> blob option" and used :: "'s \<Rightarrow> nat"
    and capacity :: nat and admit :: "path \<Rightarrow> blob \<Rightarrow> 's \<Rightarrow> 's" and forget :: "path \<Rightarrow> 's \<Rightarrow> 's"
  assumes ok_admit: "ok s \<Longrightarrow> ok (admit p b s)"
    and ok_forget: "ok s \<Longrightarrow> ok (forget p s)"
    and used_bounded: "ok s \<Longrightarrow> used s \<le> capacity"
    and peek_admit_fits: "ok s \<Longrightarrow> 0 < capacity \<Longrightarrow> length b \<le> capacity \<Longrightarrow> peek (admit p b s) p = Some b"
    and peek_admit_same: "ok s \<Longrightarrow> peek (admit p b s) p \<in> {Some b, peek s p}"
    and peek_admit_other: "ok s \<Longrightarrow> q \<noteq> p \<Longrightarrow> peek (admit p b s) q \<in> {None, peek s q}"
    and peek_forget: "ok s \<Longrightarrow> peek (forget p s) q = (if q = p then None else peek s q)"
begin

definition holds_only :: "(path \<Rightarrow> blob \<Rightarrow> bool) \<Rightarrow> 's \<Rightarrow> bool" where
  "holds_only P s \<longleftrightarrow> ok s \<and> (\<forall>p b. peek s p = Some b \<longrightarrow> P p b)"

lemma holds_only_admit: "holds_only P s \<Longrightarrow> P p b \<Longrightarrow> holds_only P (admit p b s)"
proof -
  assume h: "holds_only P s" and pb: "P p b"
  then have ok: "ok s" by (simp add: holds_only_def)
  have "P q c" if "peek (admit p b s) q = Some c" for q c
    using that h pb peek_admit_same [OF ok, of p b] peek_admit_other [OF ok, of q p b]
    by (cases "q = p") (auto simp: holds_only_def)
  then show ?thesis by (simp add: holds_only_def ok_admit [OF ok])
qed

lemma holds_only_forget: "holds_only P s \<Longrightarrow> holds_only P (forget p s)"
  by (auto simp: holds_only_def ok_forget peek_forget split: if_splits)

lemma holds_only_forget_all: "holds_only P s \<Longrightarrow> holds_only P (fold forget ps s)"
  by (induction ps arbitrary: s) (auto intro: holds_only_forget)

lemma forget_all: "ok s \<Longrightarrow> ok (fold forget ps s) \<and>
    peek (fold forget ps s) q = (if q \<in> set ps then None else peek s q)"
proof (induction ps arbitrary: s)
  case Nil
  then show ?case by simp
next
  case (Cons p ps)
  then show ?case
    using Cons.IH [of "forget p s"] by (auto simp: ok_forget peek_forget)
qed

end

lemma fit_suffix: "\<exists>k. fit capacity n xs = drop k xs \<and> (\<forall>j<k. table_sum length (drop j xs) + n > capacity)"
proof (induction xs)
  case Nil
  then show ?case by (intro exI [of _ 0]) simp
next
  case (Cons x xs)
  then obtain k where k: "fit capacity n xs = drop k xs"
    "\<And>j. j < k \<Longrightarrow> table_sum length (drop j xs) + n > capacity" by blast
  show ?case
  proof (cases "table_sum length (x # xs) + n > capacity")
    case True
    with k have "\<forall>j<Suc k. table_sum length (drop j (x # xs)) + n > capacity"
      by (auto simp: less_Suc_eq_0_disj)
    with True k(1) show ?thesis by (intro exI [of _ "Suc k"]) auto
  next
    case False
    then show ?thesis by (intro exI [of _ 0]) auto
  qed
qed

lemma fit_fits: "n \<le> capacity \<Longrightarrow> table_sum length (fit capacity n xs) + n \<le> capacity"
  by (induction xs) auto

lemma map_of_fit: "map_of (fit capacity n xs) p \<in> {None, map_of xs p} \<or> \<not> table_ok xs"
proof (induction xs)
  case Nil
  then show ?case by simp
next
  case (Cons x xs)
  show ?case
  proof (cases "table_ok (x # xs)")
    case True
    obtain k where "fit capacity n xs = drop k xs" using fit_suffix by blast
    with True have "map_of (fit capacity n xs) (fst x) = None"
      by (auto simp: map_of_eq_None_iff dest: in_set_dropD)
    with True Cons show ?thesis by (cases "p = fst x") auto
  qed simp
qed

lemma map_of_lru_insert:
  assumes "table_ok xs"
  shows "map_of (lru_insert capacity p b xs) p = Some b"
    and "q \<noteq> p \<Longrightarrow> map_of (lru_insert capacity p b xs) q \<in> {None, map_of xs q}"
proof -
  let ?ys = "AList.delete p xs"
  have ok: "table_ok ?ys" using assms by simp
  have "map_of (fit capacity (length b) ?ys) p = None"
    using map_of_fit [of capacity "length b" ?ys p] ok by (auto simp: map_of_delete_if)
  then show "map_of (lru_insert capacity p b xs) p = Some b"
    by (simp add: lru_insert_def map_add_def)
  show "map_of (lru_insert capacity p b xs) q \<in> {None, map_of xs q}" if "q \<noteq> p"
    using that map_of_fit [of capacity "length b" ?ys q] ok
    by (auto simp: lru_insert_def map_add_def map_of_delete_if split: option.splits)
qed

lemma tier_promote_cases:
  assumes "tier_ok capacity s" and "capacity < u64_max"
  shows "tier_ok capacity (tier_promote capacity p b s)"
    and "t_loading (tier_promote capacity p b s) = t_loading s"
  using assms tier_insert_refines [OF assms] by (auto simp: tier_promote_def)

lemma peek_tier_insert:
  assumes "tier_ok capacity s" and "capacity < u64_max" and "length b \<le> capacity"
  shows "map_of (t_entries (tier_insert capacity p b s)) q = map_of (lru_insert capacity p b (abs_tier s)) q"
  using abs_tier_ok(1) [OF tier_insert_refines(1) [OF assms, of p], of q]
  by (simp add: tier_insert_refines(2) [OF assms])

interpretation tier: resident_cache "\<lambda>s. tier_ok capacity s \<and> capacity < u64_max"
  "\<lambda>s. map_of (t_entries s)" t_used_bytes capacity "tier_promote capacity" tier_invalidate
  for capacity :: nat
proof unfold_locales
  fix s p b q
  assume ok: "tier_ok capacity s \<and> capacity < u64_max"
  then show "tier_ok capacity (tier_promote capacity p b s) \<and> capacity < u64_max"
    by (simp add: tier_promote_cases)
  show "tier_ok capacity (tier_invalidate p s) \<and> capacity < u64_max"
    using ok by (simp add: tier_invalidate_refines)
  have table: "table_ok (abs_tier s)" using ok abs_tier_ok(3) by blast
  show "t_used_bytes s \<le> capacity" using ok by (simp add: tier_ok_def)
  show "map_of (t_entries (tier_promote capacity p b s)) p = Some b"
    if "0 < capacity" "length b \<le> capacity"
    using that ok by (simp add: tier_promote_def peek_tier_insert map_of_lru_insert table)
  show "map_of (t_entries (tier_promote capacity p b s)) p \<in> {Some b, map_of (t_entries s) p}"
    using ok by (auto simp: tier_promote_def peek_tier_insert map_of_lru_insert table)
  show "map_of (t_entries (tier_promote capacity p b s)) q \<in> {None, map_of (t_entries s) q}" if "q \<noteq> p"
    using that ok map_of_lru_insert(2) [of "abs_tier s" q p capacity b]
    by (auto simp: tier_promote_def peek_tier_insert table abs_tier_ok)
  show "map_of (t_entries (tier_invalidate p s)) q = (if q = p then None else map_of (t_entries s) q)"
    using ok by (auto simp: tier_invalidate_def map_of_delete_if split: option.splits)
qed

section \<open>Threads\<close>

text \<open>
  Any number of threads run \<open>load\<close>. A thread is idle, runs its loader as the elected reader of a
  path, reads without residency, or sleeps on the condition variable; the flag of a sleeping thread
  says whether a \<open>notify_all\<close> has reached it since it went to sleep. A wake-up may also be spurious.
\<close>

datatype thread = Idle | Loader path nat | Direct path nat | Waiting path nat bool

type_synonym tier_system = "tier_state \<times> (nat \<Rightarrow> thread)"

fun resume :: "path \<Rightarrow> nat \<Rightarrow> load_decision \<Rightarrow> thread" where
  "resume p n Bypass = Direct p n"
| "resume p n (Hit b) = Idle"
| "resume p n Elected = Loader p n"
| "resume p n Wait = Waiting p n False"

definition notify_all :: "(nat \<Rightarrow> thread) \<Rightarrow> nat \<Rightarrow> thread" where
  "notify_all th t = (case th t of Waiting p n _ \<Rightarrow> Waiting p n True | x \<Rightarrow> x)"

inductive tier_step :: "nat \<Rightarrow> tier_system \<Rightarrow> tier_system \<Rightarrow> bool" for capacity where
  start: "\<lbrakk>th t = Idle; load_enter capacity p n s = (d, s')\<rbrakk>
     \<Longrightarrow> tier_step capacity (s, th) (s', th(t := resume p n d))"
| wake: "\<lbrakk>th t = Waiting p n w; load_enter capacity p n s = (d, s')\<rbrakk>
     \<Longrightarrow> tier_step capacity (s, th) (s', th(t := resume p n d))"
| finish: "\<lbrakk>th t = Loader p n; load_finish capacity p n (loaded :: string + blob) s = (r, s')\<rbrakk>
     \<Longrightarrow> tier_step capacity (s, th) (s', notify_all (th(t := Idle)))"
| direct: "\<lbrakk>th t = Direct p n; load_bypass n (loaded :: string + blob) s = (r, s')\<rbrakk>
     \<Longrightarrow> tier_step capacity (s, th) (s', th(t := Idle))"
| promote: "\<not> (capacity = 0 \<or> length b > capacity)
     \<Longrightarrow> tier_step capacity (s, th) (tier_promote capacity p b s, notify_all th)"
| promote_skip: "capacity = 0 \<or> length b > capacity
     \<Longrightarrow> tier_step capacity (s, th) (tier_promote capacity p b s, th)"
| invalidate: "tier_step capacity (s, th) (tier_invalidate p s, th)"

inductive tier_reachable :: "nat \<Rightarrow> tier_system \<Rightarrow> bool" for capacity where
  init: "tier_reachable capacity (tier_new, \<lambda>_. Idle)"
| step: "\<lbrakk>tier_reachable capacity x; tier_step capacity x y\<rbrakk> \<Longrightarrow> tier_reachable capacity y"

inductive_cases tier_stepE: "tier_step capacity (s, th) (s', th')"

definition flight_ok :: "nat \<Rightarrow> path set \<Rightarrow> (nat \<Rightarrow> thread) \<Rightarrow> bool" where
  "flight_ok capacity loading th \<longleftrightarrow>
     (\<forall>p. p \<in> loading \<longleftrightarrow> (\<exists>t n. th t = Loader p n)) \<and>
     (\<forall>t t' p n n'. th t = Loader p n \<longrightarrow> th t' = Loader p n' \<longrightarrow> t = t') \<and>
     (\<forall>t p n. th t = Loader p n \<longrightarrow> 0 < capacity \<and> n \<le> capacity) \<and>
     (\<forall>t p n. th t = Waiting p n False \<longrightarrow> p \<in> loading)"

definition tier_system_ok :: "nat \<Rightarrow> tier_system \<Rightarrow> bool" where
  "tier_system_ok capacity x \<longleftrightarrow> tier_ok capacity (fst x) \<and> flight_ok capacity (t_loading (fst x)) (snd x)"

lemma tier_ok_ignores [simp]:
  "tier_ok capacity (s\<lparr>t_loading := l\<rparr>) = tier_ok capacity s"
  "tier_ok capacity (s\<lparr>t_nvme_load_count := k\<rparr>) = tier_ok capacity s"
  "abs_tier (s\<lparr>t_loading := l\<rparr>) = abs_tier s"
  "abs_tier (s\<lparr>t_nvme_load_count := k\<rparr>) = abs_tier s"
  by (simp_all add: tier_ok_def abs_tier_def)

lemma checked_blob_Inr: "checked_blob n loaded = Inr b \<longleftrightarrow> loaded = Inr b \<and> length b = n"
  by (auto simp: checked_blob_def validate_size_def result_simps split: sum.splits)

lemma load_enter_ok:
  assumes "tier_ok capacity s" and "load_enter capacity p n s = (d, s')"
  shows "tier_ok capacity s'"
    and "d = Hit b \<Longrightarrow> map_of (t_entries s) p = Some b"
    and "t_loading s' = (if d = Elected then insert p (t_loading s) else t_loading s)"
    and "d = Elected \<Longrightarrow> p \<notin> t_loading s \<and> 0 < capacity \<and> n \<le> capacity"
    and "d = Wait \<Longrightarrow> p \<in> t_loading s"
  using assms touch_refines(1) [OF assms(1), of p]
  by (auto simp: load_enter_def split: if_splits option.splits)

lemma load_finish_ok:
  assumes "tier_ok capacity s" and "capacity < u64_max" and "n \<le> capacity"
    and "load_finish capacity p n loaded s = (r, s')"
  shows "tier_ok capacity s'" and "t_loading s' = t_loading s - {p}"
proof -
  let ?s1 = "s\<lparr>t_loading := t_loading s - {p}\<rparr>"
  have ok: "tier_ok capacity ?s1" using assms(1) by simp
  show "tier_ok capacity s'" and "t_loading s' = t_loading s - {p}"
    using assms(3,4) tier_insert_refines [OF ok assms(2), of _ p] ok
    by (auto simp: load_finish_def Let_def checked_blob_Inr split: sum.splits)
qed

lemma notify_all_simps [simp]:
  "notify_all th t = Loader p n \<longleftrightarrow> th t = Loader p n"
  "notify_all th t \<noteq> Waiting p n False"
  by (auto simp: notify_all_def split: thread.splits)

lemma flight_waiting: "flight_ok capacity loading th \<Longrightarrow> th t = Waiting q m False \<Longrightarrow> q \<in> loading"
  unfolding flight_ok_def by blast

lemma flight_replace:
  assumes "flight_ok capacity loading th" and "\<And>q m. th t \<noteq> Loader q m" and "\<And>q m. x \<noteq> Loader q m"
    and "\<And>q m. x = Waiting q m False \<Longrightarrow> q \<in> loading"
  shows "flight_ok capacity loading (th(t := x))"
proof -
  have loader: "(th(t := x)) t' = Loader q m \<longleftrightarrow> th t' = Loader q m" for t' q m
    using assms(2,3) by auto
  have "(th(t := x)) t' = Waiting q m False \<Longrightarrow> q \<in> loading" for t' q m
    using assms(4) flight_waiting [OF assms(1)] by (auto split: if_splits)
  then show ?thesis
    using assms(1) unfolding flight_ok_def loader by blast
qed

lemma flight_elect:
  assumes "flight_ok capacity loading th" and "\<And>q m. th t \<noteq> Loader q m"
    and "p \<notin> loading" "0 < capacity" "n \<le> capacity"
  shows "flight_ok capacity (insert p loading) (th(t := Loader p n))"
proof -
  have loader: "(th(t := Loader p n)) t' = Loader q m \<longleftrightarrow> t' = t \<and> q = p \<and> m = n \<or> th t' = Loader q m"
    for t' q m
    using assms(2) by auto
  have waiting: "(th(t := Loader p n)) t' = Waiting q m False \<Longrightarrow> q \<in> loading" for t' q m
    using flight_waiting [OF assms(1)] by (auto split: if_splits)
  have fresh: "th t' \<noteq> Loader p m" for t' m
    using assms(1,3) by (auto simp: flight_ok_def)
  show ?thesis
    using assms(1,4,5) waiting fresh unfolding flight_ok_def loader by blast
qed

lemma flight_enter:
  assumes "flight_ok capacity loading th" and "\<And>q m. th t \<noteq> Loader q m"
    and "loading' = (if d = Elected then insert p loading else loading)"
    and "d = Elected \<Longrightarrow> p \<notin> loading \<and> 0 < capacity \<and> n \<le> capacity" and "d = Wait \<Longrightarrow> p \<in> loading"
  shows "flight_ok capacity loading' (th(t := resume p n d))"
  using assms by (cases d) (auto intro: flight_elect flight_replace)

lemma flight_finish:
  assumes "flight_ok capacity loading th" and "th t = Loader p n"
  shows "flight_ok capacity (loading - {p}) (notify_all (th(t := Idle)))"
proof -
  have loader: "notify_all (th(t := Idle)) t' = Loader q m \<longleftrightarrow> th t' = Loader q m \<and> t' \<noteq> t" for t' q m
    by auto
  have "\<And>t' m. th t' = Loader p m \<Longrightarrow> t' = t"
    using assms by (auto simp: flight_ok_def)
  with assms show ?thesis
    unfolding flight_ok_def loader by (auto simp: notify_all_simps simp del: fun_upd_apply)
qed

lemma flight_idle:
  assumes "flight_ok capacity loading th" and "\<And>q m. th t \<noteq> Loader q m"
  shows "flight_ok capacity loading (th(t := Idle))"
  using assms by (auto intro: flight_replace)

lemma flight_notify: "flight_ok capacity loading th \<Longrightarrow> flight_ok capacity loading (notify_all th)"
  by (auto simp: flight_ok_def)

lemma tier_step_preserves:
  assumes "tier_step capacity x y" and "tier_system_ok capacity x" and "capacity < u64_max"
  shows "tier_system_ok capacity y"
  using assms
proof cases
  case (start th t p n s d s')
  then show ?thesis
    using assms(2) load_enter_ok [of capacity s p n d s'] flight_enter [of capacity "t_loading s" th t "t_loading s'" d p n]
    by (simp add: tier_system_ok_def)
next
  case (wake th t p n w s d s')
  then show ?thesis
    using assms(2) load_enter_ok [of capacity s p n d s'] flight_enter [of capacity "t_loading s" th t "t_loading s'" d p n]
    by (simp add: tier_system_ok_def)
next
  case (finish th t p n loaded s r s')
  then have "n \<le> capacity" using assms(2) by (auto simp: tier_system_ok_def flight_ok_def)
  with finish show ?thesis
    using assms(2,3) load_finish_ok [of capacity s n p loaded r s'] flight_finish
    by (simp add: tier_system_ok_def)
next
  case (direct th t p n loaded s r s')
  then have "tier_ok capacity s' = tier_ok capacity s" "t_loading s' = t_loading s"
    by (auto simp: load_bypass_def split: sum.splits)
  with direct show ?thesis
    using assms(2) flight_idle [of capacity "t_loading s" th t] by (simp add: tier_system_ok_def)
next
  case (promote b s th p)
  then show ?thesis
    using assms(2,3) tier_promote_cases flight_notify by (simp add: tier_system_ok_def)
next
  case (promote_skip b s th p)
  then show ?thesis
    using assms(2) by (simp add: tier_system_ok_def tier_promote_def)
next
  case (invalidate s th p)
  then show ?thesis
    using assms(2) tier_invalidate_refines [of capacity s p] by (simp add: tier_system_ok_def)
qed

lemma tier_new_ok: "tier_system_ok capacity (tier_new, \<lambda>_. Idle)"
  by (simp add: tier_system_ok_def tier_ok_def cache_ok_def tier_new_def flight_ok_def)

lemma tier_reachable_ok:
  "tier_reachable capacity x \<Longrightarrow> capacity < u64_max \<Longrightarrow> tier_system_ok capacity x"
  by (induction rule: tier_reachable.induct) (auto intro: tier_step_preserves tier_new_ok)

section \<open>What the tier guarantees\<close>

text \<open>
  C18: in every state that any interleaving of loads, promotions and invalidations reaches, the
  cached byte count is exactly the size of the resident blobs and within the configured capacity,
  every resident path is in the eviction order exactly once, at most one thread reads a given path
  from disk, the paths marked as loading are exactly those with such a thread, and a thread asleep
  without a pending notification waits for a path that some thread is loading.
\<close>

theorem resident_tier_invariant:
  assumes "tier_reachable capacity (s, th)" and "capacity < u64_max"
  shows "t_used_bytes s = table_sum length (t_entries s) \<and> t_used_bytes s \<le> capacity
    \<and> distinct (t_lru s) \<and> set (t_lru s) = fst ` set (t_entries s)
    \<and> (\<forall>p. p \<in> t_loading s \<longleftrightarrow> (\<exists>t n. th t = Loader p n))
    \<and> (\<forall>t t' p n n'. th t = Loader p n \<longrightarrow> th t' = Loader p n' \<longrightarrow> t = t')
    \<and> (\<forall>t p n. th t = Waiting p n False \<longrightarrow> (\<exists>t' n'. th t' = Loader p n'))"
proof -
  have ok: "tier_ok capacity s" and flight: "flight_ok capacity (t_loading s) th"
    using tier_reachable_ok [OF assms] by (simp_all add: tier_system_ok_def)
  have "\<exists>t' n'. th t' = Loader p n'" if "th t = Waiting p n False" for t p n
    using flight_waiting [OF flight that] flight by (auto simp: flight_ok_def)
  then show ?thesis
    using ok flight unfolding tier_ok_def cache_ok_def flight_ok_def by blast
qed

definition two_loads :: "nat \<Rightarrow> thread" where
  "two_loads = (\<lambda>_. Idle)(0 := Loader ''a'' 2, 1 := Waiting ''a'' 2 False)"

lemma two_loads_reachable:
  "tier_reachable 4 (tier_new\<lparr>t_loading := {''a''}\<rparr>, two_loads)"
proof -
  have "tier_reachable 4 (tier_new\<lparr>t_loading := {''a''}\<rparr>, (\<lambda>_. Idle)(0 := resume ''a'' 2 Elected))"
    by (rule tier_reachable.step [OF tier_reachable.init], rule tier_step.start)
      (auto simp: load_enter_def tier_new_def)
  moreover have "tier_step 4 (tier_new\<lparr>t_loading := {''a''}\<rparr>, (\<lambda>_. Idle)(0 := resume ''a'' 2 Elected))
      (tier_new\<lparr>t_loading := {''a''}\<rparr>, ((\<lambda>_. Idle)(0 := resume ''a'' 2 Elected))(1 := resume ''a'' 2 Wait))"
    by (rule tier_step.start) (auto simp: load_enter_def tier_new_def)
  ultimately show ?thesis
    unfolding two_loads_def by (auto intro: tier_reachable.step)
qed

theorem resident_tier_invariant_witness:
  "tier_reachable 4 (tier_new\<lparr>t_loading := {''a''}\<rparr>, two_loads) \<and> (\<exists>t n. two_loads t = Loader ''a'' n)"
proof -
  have "(4 :: nat) < u64_max" by (simp add: u64_max_def)
  moreover have "two_loads 1 = Waiting ''a'' 2 False" by (simp add: two_loads_def)
  ultimately show ?thesis
    using resident_tier_invariant [OF two_loads_reachable] two_loads_reachable by blast
qed

text \<open>
  C28: the tier implements the byte-bounded least-recently-used cache: seen as the list of resident
  records from oldest to newest, a finished load or a promotion drops the shortest run of oldest
  records that makes the blob fit and appends it, a hit returns the resident blob and moves it to
  the end, and an invalidation removes just that path.
\<close>

theorem resident_tier_refines_lru:
  assumes ok: "tier_ok capacity s" and cap: "capacity < u64_max" and pos: "0 < capacity"
    and fits: "length b \<le> capacity"
  shows "abs_tier (tier_promote capacity p b s) = lru_insert capacity p b (abs_tier s)
    \<and> abs_tier (snd (load_finish capacity p (length b) (Inr b :: string + blob) s)) =
        lru_insert capacity p b (abs_tier s)
    \<and> (\<exists>k. lru_insert capacity p b (abs_tier s) = drop k (AList.delete p (abs_tier s)) @ [(p, b)]
        \<and> (\<forall>j<k. table_sum length (drop j (AList.delete p (abs_tier s))) + length b > capacity))
    \<and> abs_tier (tier_invalidate q s) = AList.delete q (abs_tier s)
    \<and> (\<forall>c. map_of (abs_tier s) q = Some c \<longrightarrow>
        (\<exists>s'. load_enter capacity q (length c) s = (Hit c, s') \<and> abs_tier s' = lru_use q c (abs_tier s)))"
proof -
  have "abs_tier (tier_promote capacity p b s) = lru_insert capacity p b (abs_tier s)"
    using tier_insert_refines(2) [OF ok cap fits] pos fits by (simp add: tier_promote_def)
  moreover have "abs_tier (snd (load_finish capacity p (length b) (Inr b :: string + blob) s)) =
      lru_insert capacity p b (abs_tier s)"
    using tier_insert_refines(2) [of capacity "s\<lparr>t_loading := t_loading s - {p}\<rparr>" b p] ok cap fits
    by (simp add: load_finish_def checked_blob_def validate_size_def Let_def)
  moreover have "\<exists>k. lru_insert capacity p b (abs_tier s) = drop k (AList.delete p (abs_tier s)) @ [(p, b)]
      \<and> (\<forall>j<k. table_sum length (drop j (AList.delete p (abs_tier s))) + length b > capacity)"
    using fit_suffix [of capacity "length b" "AList.delete p (abs_tier s)"] by (auto simp: lru_insert_def)
  moreover have "\<exists>s'. load_enter capacity q (length c) s = (Hit c, s') \<and> abs_tier s' = lru_use q c (abs_tier s)"
    if "map_of (abs_tier s) q = Some c" for c
  proof -
    have c: "map_of (t_entries s) q = Some c" using that abs_tier_ok(1) [OF ok] by simp
    then have "length c \<le> capacity"
      using table_sum_ge [OF c, of length] ok by (simp add: tier_ok_def cache_ok_def)
    then show ?thesis
      using c pos touch_refines(2) [OF ok c] by (simp add: load_enter_def)
  qed
  ultimately show ?thesis using tier_invalidate_refines(2) [OF ok] by blast
qed

theorem resident_tier_refines_lru_witness:
  "abs_tier (tier_promote 4 ''b'' [1, 2] (tier_promote 4 ''a'' [7, 8, 9] tier_new)) = [(''b'', [1, 2])]"
proof -
  have new: "tier_ok 4 tier_new" "(4 :: nat) < u64_max" "(0 :: nat) < 4" "length [7, 8, 9 :: byte] \<le> 4"
    using tier_new_ok [of 4] by (simp_all add: tier_system_ok_def u64_max_def)
  have "tier_ok 4 (tier_promote 4 ''a'' [7, 8, 9] tier_new)"
    by (rule tier_promote_cases [OF new(1,2)])
  from resident_tier_refines_lru [OF this new(2,3), of "[1, 2]" "''b''"]
    resident_tier_refines_lru [OF new, of "''a''"]
  show ?thesis by (simp add: lru_insert_def abs_tier_def tier_new_def)
qed

end
