(* ===== verification/RecordIo.thy ===== *)
theory RecordIo
  imports PrefixFormat
begin

text \<open>
  Reading a record file, \<open>cache/letsinfer_prefix_store/src/io.rs\<close>: four disjoint read bands, block
  sized reads that may come back short, checksums of regions accumulated band by band and combined
  in file order, and the final header and token checks. The kernel calls and the streaming CRC-32
  of \<open>crc32fast\<close> are parameters; memory mapping and buffer ownership are not modelled beyond the
  bytes they expose.
\<close>

section \<open>Outside world\<close>

datatype io_error =
    Os nat
  | FileSizeMismatch nat nat
  | InvalidRegionRange nat
  | BufferLength nat
  | AllocFailed
  | ShortRead nat
  | UnalignedShortRead nat
  | RegionNotRead
  | RegionCrcMismatch
  | HeaderChanged
  | TokenCrcMismatch
  | IndexSizeMismatch
  | TokenCountTooLarge
  | TokenSizeOverflow
  | MappingSizeChanged
  | Format format_error
  | IoPanic

text \<open>
  One file as the process sees it: \<open>metadata().len()\<close>, opening it, \<open>pread\<close> at an offset (any
  number of bytes up to the request, or an error), \<open>read_exact\<close> after a seek, a read-only mapping of
  a given length, and whether \<open>posix_memalign\<close> of a size succeeds.
\<close>

record record_file =
  metadata_len :: "io_error + nat"
  open_file :: "io_error + unit"
  pread :: "nat \<Rightarrow> nat \<Rightarrow> io_error + byte list"
  read_exact :: "nat \<Rightarrow> nat \<Rightarrow> io_error + byte list"
  map_file :: "nat \<Rightarrow> io_error + byte list"
  memalign :: "nat \<Rightarrow> bool"

text \<open>The streaming hasher: \<open>Hasher::new\<close>, \<open>update\<close>, \<open>combine\<close> and \<open>finalize\<close>.\<close>

record 'h hasher =
  h_new :: 'h
  h_update :: "'h \<Rightarrow> byte list \<Rightarrow> 'h"
  h_combine :: "'h \<Rightarrow> 'h \<Rightarrow> 'h"
  h_finalize :: "'h \<Rightarrow> u32"

section \<open>Operations\<close>

definition DIRECT_IO_BLOCK :: nat where "DIRECT_IO_BLOCK = 4 * 1024 * 1024"
definition DIRECT_READ_WORKERS :: nat where "DIRECT_READ_WORKERS = 4"
definition FILE_BACKED_RECORD_MIN_BYTES :: nat where "FILE_BACKED_RECORD_MIN_BYTES = 64 * 1024 * 1024"

definition div_ceil :: "nat \<Rightarrow> nat \<Rightarrow> nat" where
  "div_ceil a b = (a + (b - 1)) div b"

definition read_bands :: "nat \<Rightarrow> nat \<Rightarrow> nat \<Rightarrow> (nat \<times> nat) list" where
  "read_bands bytes workers io_block =
     (let target = div_ceil (div_ceil bytes workers) io_block * io_block
      in map (\<lambda>start. (start, min (start + target) bytes)) (step_by 0 bytes target))"

definition new_uninit :: "record_file \<Rightarrow> nat \<Rightarrow> io_error + unit" where
  "new_uninit file len =
     bind_result (ensure (\<not> (len = 0 \<or> \<not> ALIGNMENT dvd len)) (BufferLength len)) (\<lambda>_.
     ensure (memalign file len) AllocFailed)"

text \<open>\<open>read_chunk\<close>: the loop over short reads; \<open>acc\<close> is the initialised prefix of the chunk.\<close>

function read_chunk_loop ::
  "record_file \<Rightarrow> bool \<Rightarrow> nat \<Rightarrow> nat \<Rightarrow> byte list \<Rightarrow> io_error + byte list" where
  "read_chunk_loop file direct offset len acc =
     (if length acc < len
      then case pread file (offset + length acc) (len - length acc) of
             Inl e \<Rightarrow> Inl e
           | Inr bs \<Rightarrow>
               if bs = [] then Inl (ShortRead (offset + length acc))
               else let acc' = acc @ bs in
                    if direct \<and> length acc' < len \<and> \<not> ALIGNMENT dvd length acc'
                    then Inl (UnalignedShortRead (offset + length acc'))
                    else read_chunk_loop file direct offset len acc'
      else Inr acc)"
  by pat_completeness auto
termination
  by (relation "measure (\<lambda>(file, direct, offset, len, acc). len - length acc)")
    (auto simp flip: length_greater_0_conv)

declare read_chunk_loop.simps [simp del]

definition read_chunk :: "record_file \<Rightarrow> bool \<Rightarrow> nat \<Rightarrow> nat \<Rightarrow> io_error + byte list" where
  "read_chunk file direct offset len = read_chunk_loop file direct offset len []"

text \<open>Feed the part of one chunk that lies in each region to that region's hasher.\<close>

definition feed :: "'h hasher \<Rightarrow> nat \<Rightarrow> byte list \<Rightarrow> nat \<times> nat \<Rightarrow> 'h option \<Rightarrow> 'h option" where
  "feed H offset chunk region checksum =
     (let start = max offset (fst region); stop = min (offset + length chunk) (snd region) in
      if start < stop
      then Some (h_update H (case checksum of None \<Rightarrow> h_new H | Some h \<Rightarrow> h)
                   (slice (start - offset) (stop - start) chunk))
      else checksum)"

definition feed_all :: "'h hasher \<Rightarrow> nat \<Rightarrow> byte list \<Rightarrow> (nat \<times> nat) list \<Rightarrow> 'h option list \<Rightarrow> 'h option list" where
  "feed_all H offset chunk ranges checksums = map2 (feed H offset chunk) ranges checksums"

text \<open>\<open>read_band\<close>: the destination of a band in blocks, each read and then hashed.\<close>

fun read_band_loop ::
  "'h hasher \<Rightarrow> record_file \<Rightarrow> bool \<Rightarrow> (nat \<times> nat) list \<Rightarrow> (nat \<times> nat) list \<Rightarrow> 'h option list \<Rightarrow>
   io_error + byte list \<times> 'h option list" where
  "read_band_loop H file direct ranges [] checksums = Inr ([], checksums)"
| "read_band_loop H file direct ranges ((offset, len) # chunks) checksums =
     bind_result (read_chunk file direct offset len) (\<lambda>chunk.
     bind_result (read_band_loop H file direct ranges chunks (feed_all H offset chunk ranges checksums))
       (\<lambda>(rest, final). Inr (chunk @ rest, final)))"

definition chunks_of :: "nat \<Rightarrow> nat \<Rightarrow> nat \<Rightarrow> (nat \<times> nat) list" where
  "chunks_of start stop block = map (\<lambda>a. (a, min block (stop - a))) (step_by start stop block)"

definition read_band ::
  "'h hasher \<Rightarrow> record_file \<Rightarrow> bool \<Rightarrow> (nat \<times> nat) list \<Rightarrow> nat \<times> nat \<Rightarrow> nat \<Rightarrow>
   io_error + byte list \<times> 'h option list" where
  "read_band H file direct ranges band destination_len =
     read_band_loop H file direct ranges
       (chunks_of (fst band) (fst band + destination_len) DIRECT_IO_BLOCK)
       (replicate (length ranges) None)"

definition checksum_band ::
  "'h hasher \<Rightarrow> record_file \<Rightarrow> bool \<Rightarrow> (nat \<times> nat) list \<Rightarrow> nat \<times> nat \<Rightarrow> io_error + 'h option list" where
  "checksum_band H file direct ranges band =
     bind_result (new_uninit file DIRECT_IO_BLOCK) (\<lambda>_.
     bind_result (read_band_loop H file direct ranges (chunks_of (fst band) (snd band) DIRECT_IO_BLOCK)
       (replicate (length ranges) None)) (\<lambda>(_, checksums). Inr checksums))"

text \<open>Joining the workers in band order: \<open>Hasher::combine\<close> per region, then \<open>finalize\<close>.\<close>

definition combine_part :: "'h hasher \<Rightarrow> 'h option \<Rightarrow> 'h option \<Rightarrow> 'h option" where
  "combine_part H target part =
     (case part of None \<Rightarrow> target
      | Some p \<Rightarrow> (case target of None \<Rightarrow> Some p | Some t \<Rightarrow> Some (h_combine H t p)))"

definition join_parts :: "'h hasher \<Rightarrow> nat \<Rightarrow> 'h option list list \<Rightarrow> io_error + u32 list" where
  "join_parts H n parts =
     try_map (\<lambda>v. case v of None \<Rightarrow> Inl RegionNotRead | Some h \<Rightarrow> Inr (h_finalize H h))
       (fold (\<lambda>part combined. map2 (combine_part H) combined part) parts (replicate n None))"

definition checksum_file_regions ::
  "'h hasher \<Rightarrow> record_file \<Rightarrow> bool \<Rightarrow> nat \<Rightarrow> (nat \<times> nat) list \<Rightarrow> io_error + u32 list" where
  "checksum_file_regions H file direct file_len ranges =
     bind_result (try_map (checksum_band H file direct ranges)
       (read_bands file_len DIRECT_READ_WORKERS DIRECT_IO_BLOCK)) (join_parts H (length ranges))"

text \<open>\<open>read_header_and_tokens\<close>, used when indexing and when re-checking a mapped record.\<close>

fun le_words :: "byte list \<Rightarrow> u32 list" where
  "le_words (a # b # c # d # rest) = from_le [a, b, c, d] # le_words rest"
| "le_words _ = []"

definition read_header_and_tokens ::
  "(byte list \<Rightarrow> u32) \<Rightarrow> record_file \<Rightarrow> io_error + record_header \<times> u32 list" where
  "read_header_and_tokens crc file =
     bind_result (open_file file) (\<lambda>_.
     bind_result (metadata_len file) (\<lambda>file_len.
     bind_result (read_exact file 0 HEADER_BYTES) (\<lambda>raw_header.
     bind_result (map_err Format (decode crc raw_header)) (\<lambda>header.
     bind_result (ensure (file_bytes header = file_len) IndexSizeMismatch) (\<lambda>_.
     bind_result (ensure (\<not> token_count header > 16 * 1024 * 1024) TokenCountTooLarge) (\<lambda>_.
     bind_result (of_option TokenSizeOverflow (checked_mul64 (token_count header) 4)) (\<lambda>token_bytes.
     bind_result (read_exact file (tokens_offset header) token_bytes) (\<lambda>raw_tokens.
     bind_result (ensure (crc raw_tokens = tokens_crc32 header) TokenCrcMismatch) (\<lambda>_.
     Inr (header, le_words raw_tokens))))))))))"

definition region_ranges :: "record_header \<Rightarrow> io_error + (nat \<times> nat) list" where
  "region_ranges expected =
     try_map (\<lambda>i. of_option (InvalidRegionRange i) (region_range expected i)) [0..<length (regions expected)]"

definition open_mapped :: "record_file \<Rightarrow> nat \<Rightarrow> io_error + byte list" where
  "open_mapped file len =
     bind_result (open_file file) (\<lambda>_.
     bind_result (metadata_len file) (\<lambda>n.
     bind_result (ensure (n = len) MappingSizeChanged) (\<lambda>_. map_file file len)))"

definition read_record_mapped ::
  "(byte list \<Rightarrow> u32) \<Rightarrow> 'h hasher \<Rightarrow> record_file \<Rightarrow> record_header \<Rightarrow> bool \<Rightarrow> nat \<Rightarrow> (nat \<times> nat) list \<Rightarrow>
   io_error + byte list" where
  "read_record_mapped crc H file expected direct file_len ranges =
     bind_result (open_file file) (\<lambda>_.
     bind_result (checksum_file_regions H file direct file_len ranges) (\<lambda>checksums.
     bind_result (ensure (checksums = region_crc32 expected) RegionCrcMismatch) (\<lambda>_.
     bind_result (read_header_and_tokens crc file) (\<lambda>(loaded_header, _).
     bind_result (ensure (loaded_header = expected) HeaderChanged) (\<lambda>_.
     open_mapped file file_len)))))"

definition read_record_memory ::
  "(byte list \<Rightarrow> u32) \<Rightarrow> 'h hasher \<Rightarrow> record_file \<Rightarrow> record_header \<Rightarrow> bool \<Rightarrow> nat \<Rightarrow> (nat \<times> nat) list \<Rightarrow>
   io_error + byte list" where
  "read_record_memory crc H file expected direct file_len ranges =
     bind_result (open_file file) (\<lambda>_.
     let bands = read_bands file_len DIRECT_READ_WORKERS DIRECT_IO_BLOCK;
         band_size = snd (hd bands) - fst (hd bands)
     in
     bind_result (ensure (bands \<noteq> []) IoPanic) (\<lambda>_.
     bind_result (new_uninit file file_len) (\<lambda>_.
     bind_result (try_map (\<lambda>(band, (_, destination_len)). read_band H file direct ranges band destination_len)
       (zip bands (chunks_of 0 file_len band_size))) (\<lambda>parts.
     let buffer = concat (map fst parts) in
     bind_result (join_parts H (length ranges) (map snd parts)) (\<lambda>checksums.
     bind_result (ensure (checksums = region_crc32 expected) RegionCrcMismatch) (\<lambda>_.
     bind_result (map_err Format (decode crc (take HEADER_BYTES buffer))) (\<lambda>loaded_header.
     bind_result (ensure (loaded_header = expected) HeaderChanged) (\<lambda>_.
     bind_result (ensure (crc (slice (fst (tokens_range expected))
         (snd (tokens_range expected) - fst (tokens_range expected)) buffer) = tokens_crc32 expected)
       TokenCrcMismatch) (\<lambda>_.
     Inr buffer)))))))))"

definition read_record_checked ::
  "(byte list \<Rightarrow> u32) \<Rightarrow> 'h hasher \<Rightarrow> record_file \<Rightarrow> record_header \<Rightarrow> bool \<Rightarrow> io_error + byte list" where
  "read_record_checked crc H file expected direct =
     bind_result (metadata_len file) (\<lambda>file_len.
     bind_result (ensure (\<not> (file_len \<noteq> file_bytes expected \<or> \<not> ALIGNMENT dvd file_len))
       (FileSizeMismatch file_len (file_bytes expected))) (\<lambda>_.
     bind_result (region_ranges expected) (\<lambda>ranges.
     if file_len \<ge> FILE_BACKED_RECORD_MIN_BYTES
     then read_record_mapped crc H file expected direct file_len ranges
     else read_record_memory crc H file expected direct file_len ranges)))"

section \<open>Contracts of the outside world\<close>

text \<open>What is read is what the file contains; calls may fail and \<open>pread\<close> may return less.\<close>

definition faithful :: "record_file \<Rightarrow> byte list \<Rightarrow> bool" where
  "faithful file content \<longleftrightarrow>
     (\<forall>n. metadata_len file = Inr n \<longrightarrow> n = length content) \<and>
     (\<forall>a n bs. pread file a n = Inr bs \<longrightarrow> bs = slice a (length bs) content \<and> length bs \<le> n) \<and>
     (\<forall>a n bs. read_exact file a n = Inr bs \<longrightarrow> bs = slice a n content \<and> length bs = n) \<and>
     (\<forall>n bs. map_file file n = Inr bs \<longrightarrow> bs = take n content)"

text \<open>No call fails and \<open>pread\<close> returns everything that is there.\<close>

definition undisturbed :: "record_file \<Rightarrow> byte list \<Rightarrow> bool" where
  "undisturbed file content \<longleftrightarrow>
     metadata_len file = Inr (length content) \<and> open_file file = Inr () \<and>
     (\<forall>a n. pread file a n = Inr (slice a n content)) \<and>
     (\<forall>a n. a + n \<le> length content \<longrightarrow> read_exact file a n = Inr (slice a n content)) \<and>
     map_file file (length content) = Inr content \<and> (\<forall>n. memalign file n)"

text \<open>
  The hasher state after a run of calls has consumed some bytes, and the contract of the package:
  whatever the calls, finalising gives the checksum of the bytes consumed.
\<close>

inductive fed :: "'h hasher \<Rightarrow> 'h \<Rightarrow> byte list \<Rightarrow> bool" for H where
  fed_new: "fed H (h_new H) []"
| fed_update: "fed H h bs \<Longrightarrow> fed H (h_update H h xs) (bs @ xs)"
| fed_combine: "\<lbrakk>fed H h bs; fed H h' bs'\<rbrakk> \<Longrightarrow> fed H (h_combine H h h') (bs @ bs')"

definition hasher_spec :: "'h hasher \<Rightarrow> (byte list \<Rightarrow> u32) \<Rightarrow> bool" where
  "hasher_spec H crc \<longleftrightarrow> (\<forall>h bs. fed H h bs \<longrightarrow> h_finalize H h = crc bs)"

section \<open>Band-parallel checksums\<close>

lemma slice_split: "x \<le> y \<Longrightarrow> y \<le> z \<Longrightarrow> slice x (y - x) bs @ slice y (z - y) bs = slice x (z - x) bs"
  using take_add [of "y - x" "z - y" "drop x bs"] by (simp add: slice_def add.commute)

lemma slice_slice: "a + n \<le> m \<Longrightarrow> slice a n (slice b m bs) = slice (b + a) n bs"
  by (simp add: slice_def drop_take min_def add.commute)

text \<open>The part of a region inside \<open>[a, b)\<close> has been consumed by the region's hasher.\<close>

definition part_ok :: "'h hasher \<Rightarrow> byte list \<Rightarrow> nat \<Rightarrow> nat \<Rightarrow> nat \<times> nat \<Rightarrow> 'h option \<Rightarrow> bool" where
  "part_ok H content a b region c =
     (let start = max a (fst region); stop = min b (snd region) in
      if start < stop then \<exists>h. c = Some h \<and> fed H h (slice start (stop - start) content) else c = None)"

lemma part_ok_empty: "b \<le> a \<Longrightarrow> part_ok H content a b region None"
  by (simp add: part_ok_def Let_def)

lemma feed_ok:
  assumes "part_ok H content a off region c" and "a \<le> off" and "off + n \<le> length content"
  shows "part_ok H content a (off + n) region (feed H off (slice off n content) region c)"
proof -
  obtain rs re where region: "region = (rs, re)" by (cases region)
  let ?s = "max off rs" and ?e = "min (off + n) re"
  have len: "length (slice off n content) = n" using assms(3) by (simp add: length_slice)
  show ?thesis
  proof (cases "?s < ?e")
    case False
    then have "max a rs < min (off + n) re \<longleftrightarrow> max a rs < min off re"
      "max a rs < min off re \<Longrightarrow> min (off + n) re = min off re"
      using assms(2) by auto
    with False assms(1) len show ?thesis
      by (auto simp: region feed_def part_ok_def Let_def)
  next
    case True
    have piece: "slice (?s - off) (?e - ?s) (slice off n content) = slice ?s (?e - ?s) content"
      using True by (subst slice_slice) auto
    show ?thesis
    proof (cases "max a rs < min off re")
      case inside: True
      with assms(1) obtain h where h: "c = Some h" "fed H h (slice (max a rs) (min off re - max a rs) content)"
        by (auto simp: region part_ok_def Let_def)
      have "slice (max a rs) (min off re - max a rs) content @ slice ?s (?e - ?s) content =
          slice (max a rs) (?e - max a rs) content"
        using True inside slice_split [of "max a rs" ?s ?e content] by (simp add: min_def max_def split: if_splits)
      with fed_update [OF h(2), of "slice ?s (?e - ?s) content"]
      have "fed H (h_update H h (slice ?s (?e - ?s) content)) (slice (max a rs) (?e - max a rs) content)"
        by simp
      with True inside h(1) len piece assms(2) show ?thesis
        by (auto simp: region feed_def part_ok_def Let_def)
    next
      case outside: False
      with assms(1) have c: "c = None" by (auto simp: region part_ok_def Let_def)
      have "max a rs = ?s" using True outside assms(2) by auto
      with True outside c len piece fed_update [OF fed_new, of H "slice ?s (?e - ?s) content"] show ?thesis
        by (auto simp: region feed_def part_ok_def Let_def)
    qed
  qed
qed

lemma combine_part_ok:
  assumes "part_ok H content a b region c" and "part_ok H content b d region c'" and "a \<le> b" and "b \<le> d"
  shows "part_ok H content a d region (combine_part H c c')"
proof -
  obtain rs re where region: "region = (rs, re)" by (cases region)
  show ?thesis
  proof (cases "max b rs < min d re")
    case False
    then have "c' = None" using assms(2) by (simp add: region part_ok_def Let_def)
    moreover have "max a rs < min d re \<longleftrightarrow> max a rs < min b re"
      "max a rs < min b re \<Longrightarrow> min d re = min b re"
      using False assms(3,4) by auto
    ultimately show ?thesis
      using assms(1) by (auto simp: region combine_part_def part_ok_def Let_def)
  next
    case True
    then obtain h' where h': "c' = Some h'" "fed H h' (slice (max b rs) (min d re - max b rs) content)"
      using assms(2) by (auto simp: region part_ok_def Let_def)
    show ?thesis
    proof (cases "max a rs < min b re")
      case inside: True
      then obtain h where h: "c = Some h" "fed H h (slice (max a rs) (min b re - max a rs) content)"
        using assms(1) by (auto simp: region part_ok_def Let_def)
      have "slice (max a rs) (min b re - max a rs) content @ slice (max b rs) (min d re - max b rs) content =
          slice (max a rs) (min d re - max a rs) content"
        using True inside slice_split [of "max a rs" "max b rs" "min d re" content]
        by (simp add: min_def max_def split: if_splits)
      with fed_combine [OF h(2) h'(2)] True inside h h' assms(3,4) show ?thesis
        by (auto simp: region combine_part_def part_ok_def Let_def)
    next
      case outside: False
      then have "c = None" "max a rs = max b rs"
        using assms(1,3) True by (auto simp: region part_ok_def Let_def)
      with h' True show ?thesis
        by (auto simp: region combine_part_def part_ok_def Let_def)
    qed
  qed
qed

lemma slice_more: "slice a m bs @ slice (a + m) n bs = slice a (m + n) bs"
  by (simp add: slice_def take_add add.commute)

lemma length_slice_le: "length (slice a n bs) = n \<Longrightarrow> n = 0 \<or> a + n \<le> length bs"
  by (auto simp: slice_def min_def split: if_splits)

abbreviation parts_ok :: "'h hasher \<Rightarrow> byte list \<Rightarrow> nat \<Rightarrow> nat \<Rightarrow> (nat \<times> nat) list \<Rightarrow> 'h option list \<Rightarrow> bool" where
  "parts_ok H content a b ranges cs \<equiv> list_all2 (part_ok H content a b) ranges cs"

lemma parts_ok_empty: "b \<le> a \<Longrightarrow> parts_ok H content a b ranges (replicate (length ranges) None)"
  by (simp add: list_all2_conv_all_nth part_ok_empty)

lemma feed_all_ok:
  assumes "parts_ok H content a off ranges cs" and "a \<le> off" and "off + n \<le> length content"
  shows "parts_ok H content a (off + n) ranges (feed_all H off (slice off n content) ranges cs)"
  using assms by (auto simp: feed_all_def list_all2_conv_all_nth intro!: feed_ok)

lemma combine_all_ok:
  assumes "parts_ok H content a b ranges cs" and "parts_ok H content b d ranges cs'" and "a \<le> b" and "b \<le> d"
  shows "parts_ok H content a d ranges (map2 (combine_part H) cs cs')"
  using assms by (auto simp: list_all2_conv_all_nth intro!: combine_part_ok)

lemma read_chunk_loop_sound:
  assumes "faithful file content" and "acc = slice off (length acc) content" and "length acc \<le> n"
    and "read_chunk_loop file direct off n acc = Inr bs"
  shows "bs = slice off n content \<and> length bs = n"
  using assms(2-4)
proof (induction "n - length acc" arbitrary: acc rule: less_induct)
  case less
  show ?case
  proof (cases "length acc < n")
    case False
    then have "bs = acc" using less.prems(3) by (subst (asm) read_chunk_loop.simps) simp
    moreover have "length acc = n" using False less.prems(2) by simp
    ultimately show ?thesis using less.prems(1) by simp
  next
    case True
    with less.prems(3) obtain xs where xs: "pread file (off + length acc) (n - length acc) = Inr xs" "xs \<noteq> []"
      and rest: "read_chunk_loop file direct off n (acc @ xs) = Inr bs"
      by (auto simp: read_chunk_loop.simps [of "file" direct off n acc] Let_def split: sum.splits if_splits)
    from assms(1) xs(1) have x: "xs = slice (off + length acc) (length xs) content" "length xs \<le> n - length acc"
      unfolding faithful_def by blast+
    have "acc @ xs = slice off (length (acc @ xs)) content"
      unfolding length_append slice_more [symmetric] using less.prems(1) x(1) by metis
    moreover have "n - length (acc @ xs) < n - length acc" using xs(2) True by (cases xs) auto
    moreover have "length (acc @ xs) \<le> n" using x(2) True by simp
    ultimately show ?thesis using less.hyps rest by blast
  qed
qed

lemma read_chunk_sound:
  assumes "faithful file content" and "read_chunk file direct off n = Inr bs"
  shows "bs = slice off n content" and "length bs = n"
  using read_chunk_loop_sound [OF assms(1), of "[]" off n direct bs] assms(2)
  by (auto simp: read_chunk_def slice_def)

lemma read_chunk_complete:
  assumes "undisturbed file content" and "off + n \<le> length content"
  shows "read_chunk file direct off n = Inr (slice off n content)"
proof (cases "n = 0")
  case True
  then show ?thesis by (simp add: read_chunk_def read_chunk_loop.simps slice_def)
next
  case False
  have read: "pread file off n = Inr (slice off n content)" using assms(1) by (simp add: undisturbed_def)
  have len: "length (slice off n content) = n" using assms(2) by (simp add: length_slice)
  with False have "slice off n content \<noteq> []" by auto
  with False read len show ?thesis
    by (simp add: read_chunk_def read_chunk_loop.simps [of "file" direct off n "[]"]
        read_chunk_loop.simps [of "file" direct off n "slice off n content"] Let_def)
qed

lemma chunks_of_simps:
  "chunks_of a stop block =
     (if a < stop \<and> 0 < block then (a, min block (stop - a)) # chunks_of (a + block) stop block else [])"
  unfolding chunks_of_def by (subst step_by.simps) simp

lemma read_band_loop_sound:
  assumes "faithful file content" and "0 < block" and "a \<le> off" and "a \<le> stop"
    and "parts_ok H content a (min off stop) ranges cs"
    and "read_band_loop H file direct ranges (chunks_of off stop block) cs = Inr (bs, cs')"
  shows "bs = slice off (stop - off) content \<and> length bs = stop - off \<and> parts_ok H content a stop ranges cs'"
  using assms(2-6)
proof (induction off stop block arbitrary: cs bs rule: step_by.induct)
  case (1 off stop block)
  show ?case
  proof (cases "off < stop \<and> 0 < block")
    case False
    then have "stop \<le> off" using 1(2) by simp
    with 1(6) have "bs = []" "cs' = cs" by (auto simp: chunks_of_simps [of off stop block])
    with \<open>stop \<le> off\<close> 1(5) show ?thesis by (auto simp: slice_def)
  next
    case True
    let ?n = "min block (stop - off)"
    from 1(6) True obtain xs rest where
      xs: "read_chunk file direct off ?n = Inr xs"
      and rest: "read_band_loop H file direct ranges (chunks_of (off + block) stop block)
        (feed_all H off xs ranges cs) = Inr (rest, cs')"
      and bs: "bs = xs @ rest"
      by (auto simp: chunks_of_simps [of off stop block] result_simps)
    have x: "xs = slice off ?n content" "length xs = ?n"
      using read_chunk_sound [OF assms(1) xs] by simp_all
    with True have inside: "off + ?n \<le> length content"
      using length_slice_le [of off ?n content] by auto
    have "parts_ok H content a (min (off + block) stop) ranges (feed_all H off xs ranges cs)"
      using feed_all_ok [of H content a off ranges cs ?n] 1(3,5) True inside x(1)
      by (auto simp: min_def split: if_splits)
    then have IH: "rest = slice (off + block) (stop - (off + block)) content"
      "length rest = stop - (off + block)" "parts_ok H content a stop ranges cs'"
      using "1.IH" [OF True _ _ _ _ rest] 1(2,3,4) by auto
    have "bs = slice off (stop - off) content"
    proof (cases "off + block \<le> stop")
      case True
      then show ?thesis
        using bs x(1) IH(1) slice_more [of off block content "stop - (off + block)"] by simp
    next
      case False
      then show ?thesis using bs x(1) IH(2) by simp
    qed
    moreover have "length bs = stop - off" using bs x(2) IH(2) by simp
    ultimately show ?thesis using IH(3) by blast
  qed
qed

lemma read_band_loop_complete:
  assumes "undisturbed file content" and "stop \<le> length content"
  shows "\<exists>bs cs'. read_band_loop H file direct ranges (chunks_of off stop block) cs = Inr (bs, cs')"
  using assms(2)
proof (induction off stop block arbitrary: cs rule: step_by.induct)
  case (1 off stop block)
  show ?case
  proof (cases "off < stop \<and> 0 < block")
    case False
    then show ?thesis by (subst chunks_of_simps) auto
  next
    case True
    let ?n = "min block (stop - off)"
    have "read_chunk file direct off ?n = Inr (slice off ?n content)"
      using True "1.prems" by (intro read_chunk_complete [OF assms(1)]) auto
    moreover obtain bs cs' where "read_band_loop H file direct ranges (chunks_of (off + block) stop block)
        (feed_all H off (slice off ?n content) ranges cs) = Inr (bs, cs')"
      using "1.IH" [OF True "1.prems"] by blast
    ultimately show ?thesis using True by (subst chunks_of_simps) simp
  qed
qed

lemma bands_join:
  assumes "0 < t"
    and "list_all2 (\<lambda>s (bs, cs). bs = slice s (min (s + t) n - s) content
           \<and> parts_ok H content s (min (s + t) n) ranges cs) (step_by a n t) parts"
    and "parts_ok H content 0 (min a n) ranges comb"
  shows "concat (map fst parts) = slice a (n - a) content \<and>
    parts_ok H content 0 n ranges (fold (\<lambda>part comb. map2 (combine_part H) comb part) (map snd parts) comb)"
  using assms
proof (induction a n t arbitrary: parts comb rule: step_by.induct)
  case (1 a n t)
  show ?case
  proof (cases "a < n")
    case False
    with 1(3) have "parts = []" by (subst (asm) step_by.simps) simp
    with False 1(4) show ?thesis by (simp add: slice_def min_def split: if_splits)
  next
    case True
    with 1(2) have cond: "a < n \<and> 0 < t" by simp
    with 1(3) obtain bs cs parts' where parts: "parts = (bs, cs) # parts'"
      and bs: "bs = slice a (min (a + t) n - a) content" and cs: "parts_ok H content a (min (a + t) n) ranges cs"
      and rest: "list_all2 (\<lambda>s (bs, cs). bs = slice s (min (s + t) n - s) content
           \<and> parts_ok H content s (min (s + t) n) ranges cs) (step_by (a + t) n t) parts'"
      by (subst (asm) step_by.simps) (auto simp: list_all2_Cons1)
    have "parts_ok H content 0 (min (a + t) n) ranges (map2 (combine_part H) comb cs)"
      using combine_all_ok [OF _ cs, of 0 comb] 1(4) True by simp
    note IH = "1.IH" [OF cond 1(2) rest this]
    have "concat (map fst parts) = slice a (n - a) content"
    proof (cases "a + t \<le> n")
      case True
      then show ?thesis
        using IH bs parts slice_more [of a t content "n - (a + t)"] by simp
    next
      case False
      then show ?thesis using IH bs parts by (simp add: slice_def)
    qed
    then show ?thesis using IH parts by simp
  qed
qed

definition region_crcs :: "(byte list \<Rightarrow> u32) \<Rightarrow> byte list \<Rightarrow> (nat \<times> nat) list \<Rightarrow> u32 list" where
  "region_crcs crc content ranges = map (\<lambda>(a, b). crc (slice a (b - a) content)) ranges"

lemma finalize_parts:
  assumes "hasher_spec H crc" and "parts_ok H content 0 n ranges cs"
    and "\<forall>(a, b) \<in> set ranges. a < b \<and> b \<le> n"
  shows "try_map (\<lambda>v. case v of None \<Rightarrow> Inl RegionNotRead | Some h \<Rightarrow> Inr (h_finalize H h)) cs =
    Inr (region_crcs crc content ranges)"
  using assms(2,3)
proof (induction rule: list_all2_induct)
  case Nil
  then show ?case by (simp add: region_crcs_def)
next
  case (Cons region ranges c cs)
  obtain a b where region: "region = (a, b)" by (cases region)
  with Cons.prems have "a < b" "b \<le> n" by auto
  with Cons.hyps(1) region obtain h where "c = Some h" "fed H h (slice a (b - a) content)"
    by (auto simp: part_ok_def Let_def min_def split: if_splits)
  with assms(1) have "c = Some h" "h_finalize H h = crc (slice a (b - a) content)"
    by (auto simp: hasher_spec_def)
  with Cons region show ?case by (auto simp: region_crcs_def)
qed

definition band_target :: "nat \<Rightarrow> nat" where
  "band_target n = div_ceil (div_ceil n DIRECT_READ_WORKERS) DIRECT_IO_BLOCK * DIRECT_IO_BLOCK"

lemma div_ceil_pos: "0 < a \<Longrightarrow> 0 < b \<Longrightarrow> 0 < div_ceil a b"
  by (simp add: div_ceil_def div_greater_zero_iff)

lemma band_target_pos: "0 < n \<Longrightarrow> 0 < band_target n"
  by (simp add: band_target_def div_ceil_pos DIRECT_READ_WORKERS_def DIRECT_IO_BLOCK_def)

lemma read_bands_eq:
  "read_bands n DIRECT_READ_WORKERS DIRECT_IO_BLOCK =
     map (\<lambda>s. (s, min (s + band_target n) n)) (step_by 0 n (band_target n))"
  by (simp add: read_bands_def band_target_def Let_def)

lemma step_by_cap: "0 < n \<Longrightarrow> step_by 0 n (min t n) = step_by 0 n t"
  by (cases "t \<le> n") (auto simp: min_def step_by.simps [of 0] step_by.simps [of n] step_by.simps [of t])

text \<open>The memory path hands each band the matching slice of the buffer.\<close>

definition band_jobs :: "nat \<Rightarrow> ((nat \<times> nat) \<times> nat \<times> nat) list" where
  "band_jobs n = (let bands = read_bands n DIRECT_READ_WORKERS DIRECT_IO_BLOCK
     in zip bands (chunks_of 0 n (snd (hd bands) - fst (hd bands))))"

lemma read_bands_hd:
  assumes "0 < n"
  shows "read_bands n DIRECT_READ_WORKERS DIRECT_IO_BLOCK \<noteq> []"
    and "snd (hd (read_bands n DIRECT_READ_WORKERS DIRECT_IO_BLOCK)) -
         fst (hd (read_bands n DIRECT_READ_WORKERS DIRECT_IO_BLOCK)) = min (band_target n) n"
  using assms band_target_pos [OF assms] by (auto simp: read_bands_eq step_by.simps [of 0])

lemma band_jobs_eq:
  assumes "0 < n"
  shows "band_jobs n = map (\<lambda>s. ((s, min (s + band_target n) n), s, min (s + band_target n) n - s))
    (step_by 0 n (band_target n))"
proof -
  have "band_jobs n = map (\<lambda>s. ((s, min (s + band_target n) n), s, min (min (band_target n) n) (n - s)))
    (step_by 0 n (band_target n))"
    using assms
    by (simp add: band_jobs_def read_bands_hd Let_def chunks_of_def step_by_cap)
      (simp add: read_bands_eq zip_map_map zip_same_conv_map)
  also have "\<dots> = map (\<lambda>s. ((s, min (s + band_target n) n), s, min (s + band_target n) n - s))
    (step_by 0 n (band_target n))"
    by (auto dest!: step_by_bounds)
  finally show ?thesis .
qed

lemma part_of_band:
  assumes "faithful file content"
    and "read_band_loop H file direct ranges (chunks_of s stop DIRECT_IO_BLOCK)
      (replicate (length ranges) None) = Inr (bs, cs)" and "s \<le> stop"
  shows "bs = slice s (stop - s) content" and "length bs = stop - s" and "parts_ok H content s stop ranges cs"
  using read_band_loop_sound [OF assms(1) _ _ _ _ assms(2), of s] assms(3)
    parts_ok_empty [of s s H content ranges] by (auto simp: DIRECT_IO_BLOCK_def)

definition good_ranges :: "nat \<Rightarrow> (nat \<times> nat) list \<Rightarrow> bool" where
  "good_ranges n ranges \<longleftrightarrow> (\<forall>(a, b) \<in> set ranges. a < b \<and> b \<le> n)"

lemma join_bands:
  assumes "hasher_spec H crc" and "good_ranges n ranges" and "0 < n"
    and "list_all2 (\<lambda>s (bs, cs). bs = slice s (min (s + band_target n) n - s) content
           \<and> parts_ok H content s (min (s + band_target n) n) ranges cs) (step_by 0 n (band_target n)) parts"
  shows "concat (map fst parts) = slice 0 n content"
    and "join_parts H (length ranges) (map snd parts) = Inr (region_crcs crc content ranges)"
proof -
  note joined = bands_join [OF band_target_pos [OF assms(3)] assms(4), of "replicate (length ranges) None"]
  have empty: "parts_ok H content 0 (min 0 n) ranges (replicate (length ranges) None)"
    by (simp add: parts_ok_empty)
  show "concat (map fst parts) = slice 0 n content"
    using joined empty by simp
  show "join_parts H (length ranges) (map snd parts) = Inr (region_crcs crc content ranges)"
    using joined empty finalize_parts [OF assms(1), of content n ranges] assms(2)
    by (simp add: join_parts_def good_ranges_def)
qed

lemma checksum_band_part:
  assumes "faithful file content" and "checksum_band H file direct ranges (s, stop) = Inr cs" and "s \<le> stop"
  shows "parts_ok H content s stop ranges cs"
  using assms(2) part_of_band(3) [OF assms(1) _ assms(3)]
  by (auto simp: checksum_band_def result_simps)

lemma checksum_bands_join:
  assumes faith: "faithful file content" and "hasher_spec H crc" and "good_ranges n ranges" and "0 < n"
    and css: "try_map (\<lambda>s. checksum_band H file direct ranges (s, min (s + band_target n) n))
      (step_by 0 n (band_target n)) = Inr css"
  shows "join_parts H (length ranges) css = Inr (region_crcs crc content ranges)"
proof -
  let ?parts = "map2 (\<lambda>s cs. (slice s (min (s + band_target n) n - s) content, cs))
    (step_by 0 n (band_target n)) css"
  have "list_all2 (\<lambda>s cs. parts_ok H content s (min (s + band_target n) n) ranges cs)
      (step_by 0 n (band_target n)) css"
    by (rule try_map_list_all2 [OF css], rule checksum_band_part [OF faith]) (auto dest: step_by_bounds)
  then have "list_all2 (\<lambda>s (bs, cs). bs = slice s (min (s + band_target n) n - s) content
      \<and> parts_ok H content s (min (s + band_target n) n) ranges cs) (step_by 0 n (band_target n)) ?parts"
    by (simp add: list_all2_conv_all_nth)
  from join_bands(2) [OF assms(2-4) this]
  have "join_parts H (length ranges) (map snd ?parts) = Inr (region_crcs crc content ranges)" .
  moreover have "map snd ?parts = css"
    using try_map_length [OF css] by (auto intro!: nth_equalityI)
  ultimately show ?thesis by simp
qed

lemma checksum_file_regions_sound:
  assumes "faithful file content" and "hasher_spec H crc" and "good_ranges n ranges" and "0 < n"
    and "checksum_file_regions H file direct n ranges = Inr sums"
  shows "sums = region_crcs crc content ranges"
  using assms(5) checksum_bands_join [OF assms(1-4)]
  by (auto simp: checksum_file_regions_def read_bands_eq try_map_map result_simps)

lemma checksum_file_regions_complete:
  assumes quiet: "undisturbed file content" and faith: "faithful file content"
    and "hasher_spec H crc" and "good_ranges n ranges" and "0 < n" and "n \<le> length content"
  shows "checksum_file_regions H file direct n ranges = Inr (region_crcs crc content ranges)"
proof -
  let ?f = "\<lambda>s. checksum_band H file direct ranges (s, min (s + band_target n) n)"
  have "\<exists>cs. ?f s = Inr cs" for s
  proof -
    have "min (s + band_target n) n \<le> length content" using assms(6) by simp
    from read_band_loop_complete [OF quiet this, of H direct ranges s DIRECT_IO_BLOCK "replicate (length ranges) None"]
    show ?thesis
      using quiet
      by (auto simp: checksum_band_def new_uninit_def undisturbed_def DIRECT_IO_BLOCK_def ALIGNMENT_def)
  qed
  then obtain css where css: "try_map ?f (step_by 0 n (band_target n)) = Inr css"
    using try_map_exists [of _ ?f] by blast
  then show ?thesis
    using checksum_bands_join [OF faith assms(3-5) css]
    by (simp add: checksum_file_regions_def read_bands_eq try_map_map)
qed

definition run_jobs ::
  "'h hasher \<Rightarrow> record_file \<Rightarrow> bool \<Rightarrow> (nat \<times> nat) list \<Rightarrow> nat \<Rightarrow> io_error + (byte list \<times> 'h option list) list" where
  "run_jobs H file direct ranges n =
     try_map (\<lambda>s. read_band_loop H file direct ranges (chunks_of s (min (s + band_target n) n) DIRECT_IO_BLOCK)
       (replicate (length ranges) None)) (step_by 0 n (band_target n))"

lemma run_jobs_eq:
  "0 < n \<Longrightarrow> try_map (\<lambda>(band, (_, destination_len)). read_band H file direct ranges band destination_len) (band_jobs n) =
    run_jobs H file direct ranges n"
proof -
  assume n: "0 < n"
  have "try_map (\<lambda>s. read_band H file direct ranges (s, min (s + band_target n) n) (min (s + band_target n) n - s)) ss =
      try_map (\<lambda>s. read_band_loop H file direct ranges (chunks_of s (min (s + band_target n) n) DIRECT_IO_BLOCK)
       (replicate (length ranges) None)) ss" if "\<forall>s\<in>set ss. s < n" for ss
    using that by (induction ss) (simp_all add: read_band_def)
  then show ?thesis
    using n by (auto simp: band_jobs_eq run_jobs_def try_map_map dest: step_by_bounds)
qed

lemma run_jobs_sound:
  assumes faith: "faithful file content" and "hasher_spec H crc" and "good_ranges n ranges" and "0 < n"
    and run: "run_jobs H file direct ranges n = Inr parts"
  shows "concat (map fst parts) = slice 0 n content"
    and "join_parts H (length ranges) (map snd parts) = Inr (region_crcs crc content ranges)"
proof -
  have "list_all2 (\<lambda>s (bs, cs). bs = slice s (min (s + band_target n) n - s) content
      \<and> parts_ok H content s (min (s + band_target n) n) ranges cs) (step_by 0 n (band_target n)) parts"
    using run unfolding run_jobs_def
    by (rule try_map_list_all2)
      (auto dest!: step_by_bounds simp: part_of_band(1) [OF faith] part_of_band(3) [OF faith])
  from join_bands [OF assms(2-4) this]
  show "concat (map fst parts) = slice 0 n content"
    and "join_parts H (length ranges) (map snd parts) = Inr (region_crcs crc content ranges)" by blast+
qed

lemma run_jobs_complete:
  assumes "undisturbed file content" and "n \<le> length content"
  shows "\<exists>parts. run_jobs H file direct ranges n = Inr parts"
proof -
  have "\<exists>r. read_band_loop H file direct ranges (chunks_of s (min (s + t) n) DIRECT_IO_BLOCK) cs = Inr r" for s t cs
    using read_band_loop_complete [OF assms(1), of "min (s + t) n"] assms(2) by (metis min.coboundedI2)
  then show ?thesis unfolding run_jobs_def by (intro try_map_exists)
qed

section \<open>Reading a record\<close>

definition ranges_of :: "record_header \<Rightarrow> (nat \<times> nat) list" where
  "ranges_of h = map (\<lambda>i. the (region_range h i)) [0..<length (regions h)]"

text \<open>A file that holds exactly the record a header describes.\<close>

definition valid_record :: "(byte list \<Rightarrow> u32) \<Rightarrow> record_header \<Rightarrow> byte list \<Rightarrow> bool" where
  "valid_record crc h content \<longleftrightarrow>
     length content = file_bytes h \<and> decode crc (take HEADER_BYTES content) = Inr h
     \<and> crc (slice (tokens_offset h) (token_count h * 4) content) = tokens_crc32 h
     \<and> region_crcs crc content (ranges_of h) = region_crc32 h"

lemma region_ranges_of:
  assumes "ranges_ok h"
  shows "region_ranges h = Inr (ranges_of h)" and "good_ranges (file_bytes h) (ranges_of h)"
    and "length (ranges_of h) = length (regions h)"
proof -
  have some: "\<exists>a b. region_range h i = Some (a, b) \<and> a < b \<and> b \<le> file_bytes h" if "i < length (regions h)" for i
    using assms that unfolding ranges_ok_def by blast
  show "region_ranges h = Inr (ranges_of h)"
    unfolding region_ranges_def ranges_of_def
    by (rule try_map_total) (use some in \<open>force simp: result_simps\<close>)
  show "good_ranges (file_bytes h) (ranges_of h)"
    unfolding good_ranges_def ranges_of_def using some by force
  show "length (ranges_of h) = length (regions h)" by (simp add: ranges_of_def)
qed

lemma decode_facts:
  assumes "decode crc source = Inr h"
  shows "ranges_ok h" "0 < file_bytes h" "ALIGNMENT dvd file_bytes h" "HEADER_BYTES \<le> length source"
    "tokens_offset h + token_count h * 4 \<le> file_bytes h"
proof -
  have valid: "validate_layout h = Inr ()" and "HEADER_BYTES \<le> length source"
    using assms unfolding decode_def
    by (clarsimp simp: bind_result_eq_Inr ensure_eq_Inr Let_def not_less)+
  have r: "ranges_ok h" by (rule validate_layout_ranges_ok [OF valid])
  have "0 < length (regions h)"
    using valid unfolding validate_layout_def layout_def by (auto simp: result_simps)
  with r obtain a b where "snd (tokens_range h) \<le> a" "a < b" "b \<le> file_bytes h"
    unfolding ranges_ok_def by blast
  then show "0 < file_bytes h" "tokens_offset h + token_count h * 4 \<le> file_bytes h"
    by (simp_all add: tokens_range_def)
  show "ranges_ok h" "HEADER_BYTES \<le> length source" "ALIGNMENT dvd file_bytes h"
    using r \<open>HEADER_BYTES \<le> length source\<close> by (simp_all add: ranges_ok_def)
qed

lemma region_ranges_det: "ranges_ok h \<Longrightarrow> region_ranges h = Inr ranges \<Longrightarrow> ranges = ranges_of h"
  by (simp add: region_ranges_of)

lemma read_header_and_tokens_sound:
  assumes "faithful file content" and "read_header_and_tokens crc file = Inr (h, ts)"
  shows "decode crc (take HEADER_BYTES content) = Inr h" and "file_bytes h = length content"
    and "crc (slice (tokens_offset h) (token_count h * 4) content) = tokens_crc32 h"
    and "ts = le_words (slice (tokens_offset h) (token_count h * 4) content)"
proof -
  from assms(2) obtain raw n rawt where raw: "read_exact file 0 HEADER_BYTES = Inr raw"
    and n: "metadata_len file = Inr n" "file_bytes h = n"
    and dec: "decode crc raw = Inr h"
    and rawt: "read_exact file (tokens_offset h) (token_count h * 4) = Inr rawt"
    and crc: "crc rawt = tokens_crc32 h" "ts = le_words rawt"
    unfolding read_header_and_tokens_def by (auto simp: result_simps)
  have "raw = slice 0 HEADER_BYTES content" "rawt = slice (tokens_offset h) (token_count h * 4) content"
    "n = length content"
    using assms(1) raw rawt n(1) unfolding faithful_def by blast+
  then show "decode crc (take HEADER_BYTES content) = Inr h" and "file_bytes h = length content"
    and "crc (slice (tokens_offset h) (token_count h * 4) content) = tokens_crc32 h"
    and "ts = le_words (slice (tokens_offset h) (token_count h * 4) content)"
    using dec crc n by (simp_all add: slice_def)
qed

lemma read_record_memory_cases:
  assumes "0 < n"
  shows "read_record_memory crc H file h direct n ranges =
     bind_result (open_file file) (\<lambda>_.
     bind_result (new_uninit file n) (\<lambda>_.
     bind_result (run_jobs H file direct ranges n) (\<lambda>parts.
     let buffer = concat (map fst parts) in
     bind_result (join_parts H (length ranges) (map snd parts)) (\<lambda>checksums.
     bind_result (ensure (checksums = region_crc32 h) RegionCrcMismatch) (\<lambda>_.
     bind_result (map_err Format (decode crc (take HEADER_BYTES buffer))) (\<lambda>loaded_header.
     bind_result (ensure (loaded_header = h) HeaderChanged) (\<lambda>_.
     bind_result (ensure (crc (slice (tokens_offset h) (token_count h * 4) buffer) = tokens_crc32 h)
       TokenCrcMismatch) (\<lambda>_.
     Inr buffer))))))))"
  using run_jobs_eq [OF assms, of H "file" direct ranges] read_bands_hd(1) [OF assms]
  by (simp add: read_record_memory_def band_jobs_def Let_def tokens_range_def)

lemma read_record_mapped_sound:
  assumes faith: "faithful file content" and hash: "hasher_spec H crc"
    and ranges: "region_ranges h = Inr ranges" and len: "file_bytes h = length content"
    and run: "read_record_mapped crc H file h direct (length content) ranges = Inr buffer"
  shows "buffer = content \<and> valid_record crc h content"
proof -
  from run obtain ts where sums: "checksum_file_regions H file direct (length content) ranges = Inr (region_crc32 h)"
    and header: "read_header_and_tokens crc file = Inr (h, ts)"
    and mapped: "map_file file (length content) = Inr buffer"
    unfolding read_record_mapped_def open_mapped_def by (auto simp: result_simps)
  note head = read_header_and_tokens_sound [OF faith header]
  note facts = decode_facts [OF head(1)]
  note r = region_ranges_of [OF facts(1)]
  have "ranges = ranges_of h" using ranges r(1) by simp
  with checksum_file_regions_sound [OF faith hash _ _ sums] r(2) facts(2) len
  have "region_crc32 h = region_crcs crc content (ranges_of h)" by simp
  moreover have "buffer = take (length content) content"
    using faith mapped unfolding faithful_def by blast
  ultimately show ?thesis using head len by (simp add: valid_record_def)
qed

lemma read_record_memory_sound:
  assumes faith: "faithful file content" and hash: "hasher_spec H crc"
    and ranges: "region_ranges h = Inr ranges" and len: "file_bytes h = length content" and pos: "content \<noteq> []"
    and run: "read_record_memory crc H file h direct (length content) ranges = Inr buffer"
  shows "buffer = content \<and> valid_record crc h content"
proof -
  have n: "0 < length content" using pos by simp
  from run obtain parts where parts: "run_jobs H file direct ranges (length content) = Inr parts"
    and join: "join_parts H (length ranges) (map snd parts) = Inr (region_crc32 h)"
    and dec: "decode crc (take HEADER_BYTES buffer) = Inr h"
    and tok: "crc (slice (tokens_offset h) (token_count h * 4) buffer) = tokens_crc32 h"
    and buffer: "buffer = concat (map fst parts)"
    unfolding read_record_memory_cases [OF n] by (auto simp: result_simps Let_def)
  note facts = decode_facts [OF dec]
  note r = region_ranges_of [OF facts(1)]
  have "ranges = ranges_of h" using ranges r(1) by simp
  with run_jobs_sound [OF faith hash _ n parts] r(2) len join buffer
  have "buffer = content" "region_crc32 h = region_crcs crc content (ranges_of h)"
    by (simp_all add: slice_def)
  with dec tok len show ?thesis by (simp add: valid_record_def)
qed

lemma read_record_memory_empty: "read_record_memory crc H file h direct 0 ranges \<noteq> Inr buffer"
  by (auto simp: read_record_memory_def read_bands_def Let_def step_by.simps result_simps)

lemma read_record_memory_complete:
  assumes quiet: "undisturbed file content" and faith: "faithful file content" and hash: "hasher_spec H crc"
    and valid: "valid_record crc h content"
  shows "read_record_memory crc H file h direct (length content) (ranges_of h) = Inr content"
proof -
  have dec: "decode crc (take HEADER_BYTES content) = Inr h" and len: "length content = file_bytes h"
    using valid by (simp_all add: valid_record_def)
  note facts = decode_facts [OF dec]
  note r = region_ranges_of [OF facts(1)]
  have n: "0 < length content" and good: "good_ranges (length content) (ranges_of h)"
    using facts(2) r(2) len by simp_all
  obtain parts where parts: "run_jobs H file direct (ranges_of h) (length content) = Inr parts"
    using run_jobs_complete [OF quiet] by blast
  note joined = run_jobs_sound [OF faith hash good n parts]
  have "new_uninit file (length content) = Inr ()" "open_file file = Inr ()"
    using quiet facts(3) n len by (simp_all add: new_uninit_def undisturbed_def)
  with parts joined valid dec show ?thesis
    unfolding read_record_memory_cases [OF n] by (simp add: Let_def slice_def valid_record_def)
qed

lemma read_header_and_tokens_complete:
  assumes quiet: "undisturbed file content" and valid: "valid_record crc h content"
  shows "read_header_and_tokens crc file =
    (if token_count h \<le> 16 * 1024 * 1024
     then Inr (h, le_words (slice (tokens_offset h) (token_count h * 4) content)) else Inl TokenCountTooLarge)"
proof -
  have dec: "decode crc (take HEADER_BYTES content) = Inr h" and len: "length content = file_bytes h"
    and tok: "crc (slice (tokens_offset h) (token_count h * 4) content) = tokens_crc32 h"
    using valid by (simp_all add: valid_record_def)
  note facts = decode_facts [OF dec]
  have raw: "read_exact file 0 HEADER_BYTES = Inr (take HEADER_BYTES content)"
    using quiet facts(4) by (auto simp: undisturbed_def slice_def)
  have start: "open_file file = Inr ()" "metadata_len file = Inr (length content)"
    using quiet by (simp_all add: undisturbed_def)
  show ?thesis
  proof (cases "token_count h \<le> 16 * 1024 * 1024")
    case True
    have "read_exact file (tokens_offset h) (token_count h * 4) = Inr (slice (tokens_offset h) (token_count h * 4) content)"
      using quiet facts(5) len by (simp add: undisturbed_def)
    moreover have "token_count h * 4 \<le> u64_max"
      using True by (simp add: u64_max_def)
    ultimately show ?thesis
      using start raw dec tok len True by (simp add: read_header_and_tokens_def checked_mul64_def)
  next
    case False
    then show ?thesis using start raw dec len by (simp add: read_header_and_tokens_def)
  qed
qed

lemma read_record_mapped_complete:
  assumes quiet: "undisturbed file content" and faith: "faithful file content" and hash: "hasher_spec H crc"
    and valid: "valid_record crc h content"
  shows "read_record_mapped crc H file h direct (length content) (ranges_of h) =
    (if token_count h \<le> 16 * 1024 * 1024 then Inr content else Inl TokenCountTooLarge)"
proof -
  have dec: "decode crc (take HEADER_BYTES content) = Inr h" and len: "length content = file_bytes h"
    and reg: "region_crcs crc content (ranges_of h) = region_crc32 h"
    using valid by (simp_all add: valid_record_def)
  note facts = decode_facts [OF dec]
  have "checksum_file_regions H file direct (length content) (ranges_of h) = Inr (region_crc32 h)"
    using checksum_file_regions_complete [OF quiet faith hash] region_ranges_of(2) [OF facts(1)] facts(2) len reg
    by simp
  moreover have "open_file file = Inr ()" "open_mapped file (length content) = Inr content"
    using quiet by (simp_all add: open_mapped_def undisturbed_def)
  ultimately show ?thesis
    by (simp add: read_record_mapped_def read_header_and_tokens_complete [OF quiet valid])
qed

lemma read_record_checked_complete:
  assumes quiet: "undisturbed file content" and faith: "faithful file content" and hash: "hasher_spec H crc"
    and valid: "valid_record crc h content"
  shows "read_record_checked crc H file h direct =
    (if file_bytes h < FILE_BACKED_RECORD_MIN_BYTES \<or> token_count h \<le> 16 * 1024 * 1024
     then Inr content else Inl TokenCountTooLarge)"
proof -
  have dec: "decode crc (take HEADER_BYTES content) = Inr h" and len: "length content = file_bytes h"
    using valid by (simp_all add: valid_record_def)
  note facts = decode_facts [OF dec]
  have meta: "metadata_len file = Inr (length content)" using quiet by (simp add: undisturbed_def)
  have "read_record_checked crc H file h direct =
      (if length content \<ge> FILE_BACKED_RECORD_MIN_BYTES
       then read_record_mapped crc H file h direct (length content) (ranges_of h)
       else read_record_memory crc H file h direct (length content) (ranges_of h))"
    unfolding read_record_checked_def meta region_ranges_of(1) [OF facts(1)]
    using facts(3) len by simp
  then show ?thesis
    unfolding read_record_memory_complete [OF quiet faith hash valid]
      read_record_mapped_complete [OF quiet faith hash valid] by (auto simp: len)
qed

text \<open>
  C19: for every outcome of the kernel calls, a record that \<open>read_record_checked\<close> returns is the
  exact content of the file, and that content is the record the header describes: its size, its
  header bytes, its token checksum and the checksum of every region, although the region checksums
  are computed block by block in parallel bands from short reads. Conversely a file with such
  content is read successfully when no kernel call fails and no read is short (from 64 MiB on only up to
  16 Mi tokens).
\<close>

theorem read_record_checked_correct:
  assumes faith: "faithful file content" and hash: "hasher_spec H crc"
  shows "(\<forall>buffer. read_record_checked crc H file h direct = Inr buffer \<longrightarrow>
        buffer = content \<and> valid_record crc h content)
    \<and> (undisturbed file content \<longrightarrow> valid_record crc h content \<longrightarrow>
        (file_bytes h < FILE_BACKED_RECORD_MIN_BYTES \<or> token_count h \<le> 16 * 1024 * 1024) \<longrightarrow>
        read_record_checked crc H file h direct = Inr content)"
proof -
  have "buffer = content \<and> valid_record crc h content"
    if run: "read_record_checked crc H file h direct = Inr buffer" for buffer
  proof -
    from run obtain n ranges where n: "metadata_len file = Inr n" "file_bytes h = n"
      and ranges: "region_ranges h = Inr ranges"
      and body: "(if n \<ge> FILE_BACKED_RECORD_MIN_BYTES then read_record_mapped crc H file h direct n ranges
        else read_record_memory crc H file h direct n ranges) = Inr buffer"
      unfolding read_record_checked_def by (auto simp: result_simps)
    from n(1) faith have len: "n = length content" by (simp add: faithful_def)
    show ?thesis
    proof (cases "n \<ge> FILE_BACKED_RECORD_MIN_BYTES")
      case True
      then show ?thesis using read_record_mapped_sound [OF faith hash ranges] body n(2) len by simp
    next
      case False
      with body have body: "read_record_memory crc H file h direct n ranges = Inr buffer" by simp
      then have "content \<noteq> []" using len read_record_memory_empty by fastforce
      then show ?thesis using read_record_memory_sound [OF faith hash ranges] body n(2) len by simp
    qed
  qed
  moreover have "read_record_checked crc H file h direct = Inr content"
    if "undisturbed file content" "valid_record crc h content"
      "file_bytes h < FILE_BACKED_RECORD_MIN_BYTES \<or> token_count h \<le> 16 * 1024 * 1024"
    using read_record_checked_complete [OF that(1) faith hash that(2), of direct] that(3) by metis
  ultimately show ?thesis by blast
qed

text \<open>A concrete record: the sizes as checksums and a hasher that counts bytes.\<close>

definition counting_crc :: "byte list \<Rightarrow> u32" where "counting_crc bs = of_nat (length bs)"

definition counting_hasher :: "nat hasher" where
  "counting_hasher = \<lparr>h_new = 0, h_update = \<lambda>h bs. h + length bs, h_combine = (+), h_finalize = of_nat\<rparr>"

definition sample_header :: record_header where
  "sample_header = sample_layout\<lparr>tokens_crc32 := 4000, region_crc32 := [5000, 128]\<rparr>"

definition sample_content :: "byte list" where
  "sample_content = encoded_bytes counting_crc sample_header (replicate 16384 0)"

definition sample_file :: record_file where
  "sample_file = \<lparr>metadata_len = Inr 20480, open_file = Inr (), pread = \<lambda>a n. Inr (slice a n sample_content),
     read_exact = \<lambda>a n. if a + n \<le> 20480 then Inr (slice a n sample_content) else Inl (Os 5),
     map_file = \<lambda>n. Inr (take n sample_content), memalign = \<lambda>_. True\<rparr>"

lemma counting_hasher_spec: "hasher_spec counting_hasher counting_crc"
proof -
  have "h = length bs" if "fed counting_hasher h bs" for h bs
    using that by induction (simp_all add: counting_hasher_def)
  then show ?thesis by (auto simp: hasher_spec_def counting_hasher_def counting_crc_def)
qed

lemma sample_header_valid: "validate_layout sample_header = Inr ()" "encodable sample_header"
proof -
  show "validate_layout sample_header = Inr ()"
    using sample_layout_accepted
    by (simp add: validate_layout_def sample_header_def sample_layout_def ensure_def HEADER_BYTES_def
        ALIGNMENT_def sample_regions_def)
  then show "encodable sample_header"
    by (rule validate_layout_encodable) (simp add: sample_header_def sample_layout_def)
qed

lemma sample_content_length: "length sample_content = 20480"
  using encoded_bytes_parts(1) [OF sample_header_valid(2)]
  by (simp add: sample_content_def HEADER_BYTES_def ALIGNMENT_def)

lemma sample_record_valid: "valid_record counting_crc sample_header sample_content"
proof -
  have split: "sample_content = take HEADER_BYTES sample_content @ replicate 16384 0"
    using encoded_bytes_parts [OF sample_header_valid(2), of counting_crc "replicate 16384 0"]
    by (metis append_take_drop_id sample_content_def)
  have "take HEADER_BYTES sample_content = encoded_bytes counting_crc sample_header []"
    using encoded_bytes_parts(1) [OF sample_header_valid(2), of counting_crc "[]"]
    by (simp add: sample_content_def encoded_bytes_def Let_def)
  then have "decode counting_crc (take HEADER_BYTES sample_content) = Inr sample_header"
    using decode_encoded_bytes [OF sample_header_valid(2,1)] by simp
  then show ?thesis
    using sample_content_length
    by (simp add: valid_record_def sample_header_def sample_layout_def sample_regions_def counting_crc_def
        length_slice region_crcs_def ranges_of_def region_range_def upt_conv_Cons)
qed

lemma sample_file_contract: "faithful sample_file sample_content" "undisturbed sample_file sample_content"
  using sample_content_length
  by (auto simp: faithful_def undisturbed_def sample_file_def length_slice slice_def min_def)

theorem read_record_checked_correct_witness:
  "read_record_checked counting_crc counting_hasher sample_file sample_header True = Inr sample_content"
proof -
  have "file_bytes sample_header < FILE_BACKED_RECORD_MIN_BYTES"
    by (simp add: sample_header_def sample_layout_def FILE_BACKED_RECORD_MIN_BYTES_def)
  with read_record_checked_correct [OF sample_file_contract(1) counting_hasher_spec]
    sample_file_contract(2) sample_record_valid show ?thesis by blast
qed

end
