(* ===== verification/PrefixCapture.thy ===== *)
theory PrefixCapture
  imports RecordIo
begin

text \<open>
  Capturing one record, \<open>cache/letsinfer_prefix_store/src/store.rs\<close>: the FNV-1a key hash, the
  staging buffer with its token section and writable regions, and \<open>prepare\<close>, which computes the
  checksums and writes the header. The result connects to the reader side: what \<open>prepare\<close> hands to
  the writer is a record that \<open>read_record_checked\<close> and \<open>read_header_and_tokens\<close> accept.
\<close>

section \<open>Key hash\<close>

definition FNV_OFFSET :: u64 where "FNV_OFFSET = 0xcbf29ce484222325"
definition FNV_PRIME :: u64 where "FNV_PRIME = 0x00000100000001b3"

fun fnv1a :: "u64 \<Rightarrow> byte list \<Rightarrow> u64" where
  "fnv1a hash [] = hash"
| "fnv1a hash (b # bs) = fnv1a ((hash XOR ucast b) * FNV_PRIME) bs"

definition key_hash :: "byte list \<Rightarrow> u32 list \<Rightarrow> u64" where
  "key_hash fp tokens = fold (\<lambda>token hash. fnv1a hash (to_le 4 token)) tokens (fnv1a FNV_OFFSET fp)"

section \<open>Staging a record\<close>

record record_writer =
  w_header :: record_header
  w_tokens :: "u32 list"
  w_buffer :: "byte list"

text \<open>The token loop of \<open>begin_capture\<close>, four bytes per token from \<open>offset\<close> on.\<close>

fun write_tokens :: "nat \<Rightarrow> u32 list \<Rightarrow> byte list \<Rightarrow> byte list" where
  "write_tokens offset [] buffer = buffer"
| "write_tokens offset (token # tokens) buffer =
     write_tokens (offset + 4) tokens (splice offset (to_le 4 token) buffer)"

definition stage :: "record_header \<Rightarrow> u32 list \<Rightarrow> record_writer" where
  "stage header tokens = \<lparr>w_header = header, w_tokens = tokens,
     w_buffer = write_tokens (tokens_offset header) tokens (replicate (file_bytes header) 0)\<rparr>"

text \<open>The caller fills a region through the mutable slice \<open>writable_region\<close> returns.\<close>

definition fill_region :: "nat \<Rightarrow> byte list \<Rightarrow> record_writer \<Rightarrow> record_writer option" where
  "fill_region index bs w =
     (case region_range (w_header w) index of
        None \<Rightarrow> None
      | Some (a, b) \<Rightarrow>
          if b \<le> length (w_buffer w) \<and> length bs = b - a
          then Some (w\<lparr>w_buffer := splice a bs (w_buffer w)\<rparr>) else None)"

record prepared_commit =
  p_header :: record_header
  p_tokens :: "u32 list"
  p_buffer :: "byte list"
  p_promote :: bool

definition prepare ::
  "(byte list \<Rightarrow> u32) \<Rightarrow> bool \<Rightarrow> record_writer \<Rightarrow> format_error + prepared_commit" where
  "prepare crc promote_resident w =
     (let bytes = w_buffer w; h = w_header w; (ta, tb) = tokens_range h;
          header = h\<lparr>tokens_crc32 := crc (slice ta (tb - ta) bytes),
                     region_crc32 := map (\<lambda>(a, b). crc (slice a (b - a) bytes)) (ranges_of h)\<rparr>
      in bind_result (encode crc header (take HEADER_BYTES bytes)) (\<lambda>head.
         Inr \<lparr>p_header = header, p_tokens = w_tokens w, p_buffer = head @ drop HEADER_BYTES bytes,
              p_promote = promote_resident\<rparr>))"

section \<open>The staged token section\<close>

lemma length_write_tokens:
  "offset + 4 * length tokens \<le> length buffer \<Longrightarrow> length (write_tokens offset tokens buffer) = length buffer"
  by (induction tokens arbitrary: offset buffer) (simp_all add: length_splice)

lemma slice_write_tokens_before:
  assumes "a + n \<le> offset" and "offset + 4 * length tokens \<le> length buffer"
  shows "slice a n (write_tokens offset tokens buffer) = slice a n buffer"
  using assms
proof (induction tokens arbitrary: offset buffer)
  case Nil
  then show ?case by simp
next
  case (Cons t tokens)
  have "slice a n (write_tokens (offset + 4) tokens (splice offset (to_le 4 t) buffer)) =
      slice a n (splice offset (to_le 4 t) buffer)"
    using Cons.prems by (intro Cons.IH) (simp_all add: length_splice)
  then show ?case
    using Cons.prems by (simp add: slice_splice_disjoint)
qed

lemma slice_write_tokens:
  "offset + 4 * length tokens \<le> length buffer \<Longrightarrow>
   slice offset (4 * length tokens) (write_tokens offset tokens buffer) = concat (map (to_le 4) tokens)"
proof (induction tokens arbitrary: offset buffer)
  case Nil
  then show ?case by (simp add: slice_def)
next
  case (Cons t tokens)
  let ?buf = "splice offset (to_le 4 t) buffer"
  have len: "length ?buf = length buffer" using Cons.prems by (simp add: length_splice)
  have "slice offset 4 (write_tokens (offset + 4) tokens ?buf) = slice offset 4 ?buf"
    using Cons.prems len by (intro slice_write_tokens_before) simp_all
  also have "\<dots> = to_le 4 t"
    using slice_splice_same [of offset "to_le 4 t" buffer] Cons.prems by simp
  finally have first: "slice offset 4 (write_tokens (offset + 4) tokens ?buf) = to_le 4 t" .
  have rest: "slice (offset + 4) (4 * length tokens) (write_tokens (offset + 4) tokens ?buf) =
      concat (map (to_le 4) tokens)"
    using Cons.prems len by (intro Cons.IH) simp
  show ?case
    using first rest slice_more [of offset 4 "write_tokens (offset + 4) tokens ?buf" "4 * length tokens"]
    by simp
qed

lemma le_words_concat: "le_words (concat (map (to_le 4) tokens)) = tokens"
proof (induction tokens)
  case Nil
  then show ?case by simp
next
  case (Cons t tokens)
  have "length (to_le 4 t) = 4" by simp
  then obtain a b c d where le: "to_le 4 t = [a, b, c, d]"
    by (auto simp: numeral_eq_Suc length_Suc_conv)
  moreover have "from_le (to_le 4 t) = t" by simp
  ultimately show ?case using Cons by simp
qed

section \<open>From capture to a valid record\<close>

text \<open>What holds of a writer from \<open>begin_capture\<close> until \<open>prepare\<close>.\<close>

definition writer_ok :: "record_writer \<Rightarrow> bool" where
  "writer_ok w \<longleftrightarrow>
     (\<exists>fp hash rs. layout fp hash (length (w_tokens w)) rs = Inr (w_header w) \<and> length fp = 32)
     \<and> length (w_buffer w) = file_bytes (w_header w)
     \<and> slice (tokens_offset (w_header w)) (4 * length (w_tokens w)) (w_buffer w) =
         concat (map (to_le 4) (w_tokens w))"

lemma layout_ranges_ok: "layout fp hash count rs = Inr h \<Longrightarrow> ranges_ok h"
  by (rule packed_ranges_ok) (use layout_Inr in simp_all)

lemma ranges_ok_tokens:
  assumes "ranges_ok h" and "regions h \<noteq> []"
  shows "tokens_offset h = HEADER_BYTES" "tokens_offset h + token_count h * 4 \<le> file_bytes h"
proof -
  show "tokens_offset h = HEADER_BYTES" using assms(1) by (simp add: ranges_ok_def tokens_range_def)
  from assms obtain a b where "snd (tokens_range h) \<le> a" "a < b" "b \<le> file_bytes h"
    unfolding ranges_ok_def by (metis length_greater_0_conv)
  then show "tokens_offset h + token_count h * 4 \<le> file_bytes h" by (simp add: tokens_range_def)
qed

lemma stage_ok:
  assumes "layout fp hash (length tokens) rs = Inr h" and "length fp = 32"
  shows "writer_ok (stage h tokens)"
proof -
  note lay = layout_Inr [OF assms(1)]
  have "tokens_offset h + 4 * length tokens \<le> file_bytes h"
    using ranges_ok_tokens(2) [OF layout_ranges_ok [OF assms(1)]] lay(3,4,7) by simp
  then show ?thesis
    using assms by (auto simp: writer_ok_def stage_def length_write_tokens slice_write_tokens)
qed

lemma fill_region_ok:
  assumes "writer_ok w" and "fill_region index bs w = Some w'"
  shows "writer_ok w'" and "w_header w' = w_header w" and "w_tokens w' = w_tokens w"
proof -
  let ?h = "w_header w"
  from assms(2) obtain a b where range: "region_range ?h index = Some (a, b)"
    and b: "b \<le> length (w_buffer w)" "length bs = b - a"
    and w': "w' = w\<lparr>w_buffer := splice a bs (w_buffer w)\<rparr>"
    by (auto simp: fill_region_def split: option.splits prod.splits if_splits)
  from assms(1) obtain fp hash rs where lay: "layout fp hash (length (w_tokens w)) rs = Inr ?h"
    by (auto simp: writer_ok_def)
  note facts = layout_Inr [OF lay] and ok = layout_ranges_ok [OF lay]
  have "index < length (regions ?h)" using range by (auto simp: region_range_def split: if_splits)
  with ok range have "snd (tokens_range ?h) \<le> a" "a < b" unfolding ranges_ok_def by fastforce+
  moreover have "tokens_offset ?h + 4 * length (w_tokens w) \<le> file_bytes ?h"
    using ranges_ok_tokens(2) [OF ok] facts(3,4,7) by simp
  ultimately show "writer_ok w'"
    using assms(1) b facts(3) unfolding w' writer_ok_def
    by (auto simp: slice_splice_disjoint tokens_range_def)
  show "w_header w' = w_header w" and "w_tokens w' = w_tokens w" by (simp_all add: w')
qed

lemma slice_behind_header:
  assumes "length head = HEADER_BYTES" and "HEADER_BYTES \<le> a"
  shows "slice a n (head @ drop HEADER_BYTES bytes) = slice a n bytes"
  using assms by (simp add: slice_def)

definition prepared_ok :: "(byte list \<Rightarrow> u32) \<Rightarrow> record_header \<Rightarrow> u32 list \<Rightarrow> prepared_commit \<Rightarrow> bool" where
  "prepared_ok crc h tokens job \<longleftrightarrow>
     valid_record crc (p_header job) (p_buffer job) \<and> p_tokens job = tokens
     \<and> le_words (slice (tokens_offset (p_header job)) (token_count (p_header job) * 4) (p_buffer job)) = tokens
     \<and> key_hash_field (p_header job) = key_hash_field h \<and> file_bytes (p_header job) = file_bytes h
     \<and> fingerprint (p_header job) = fingerprint h \<and> token_count (p_header job) = length tokens"

lemma prepare_valid:
  assumes ok: "writer_ok w"
  shows "\<exists>job. prepare crc promote w = Inr job \<and> prepared_ok crc (w_header w) (w_tokens w) job
    \<and> p_promote job = promote"
proof -
  let ?h = "w_header w" and ?bytes = "w_buffer w"
  let ?hd = "?h\<lparr>tokens_crc32 := crc (slice (tokens_offset ?h) (token_count ?h * 4) ?bytes),
      region_crc32 := region_crcs crc ?bytes (ranges_of ?h)\<rparr>"
  from ok obtain fp hash rs where lay: "layout fp hash (length (w_tokens w)) rs = Inr ?h" and fp: "length fp = 32"
    and len: "length ?bytes = file_bytes ?h"
    and tok: "slice (tokens_offset ?h) (4 * length (w_tokens w)) ?bytes = concat (map (to_le 4) (w_tokens w))"
    by (auto simp: writer_ok_def)
  note facts = layout_Inr [OF lay] and rok = layout_ranges_ok [OF lay]
  note toks = ranges_ok_tokens [OF rok] and rng = region_ranges_of [OF rok]
  have valid: "validate_layout ?hd = Inr ()"
    using lay facts align_up_props [OF facts(14)] packed_length [OF facts(12)] rng(3)
    by (simp add: validate_layout_def region_crcs_def)
  have enc: "encodable ?hd" by (rule validate_layout_encodable [OF valid]) (simp add: facts fp)
  have small: "HEADER_BYTES \<le> length ?bytes" using toks facts(4,7) len by simp
  let ?head = "encoded_bytes crc ?hd []"
  have head: "encode crc ?hd (take HEADER_BYTES ?bytes) = Inr ?head"
    using encode_writes [OF enc, of "take HEADER_BYTES ?bytes" crc] small by simp
  have hlen: "length ?head = HEADER_BYTES" using encoded_bytes_parts(1) [OF enc] by simp
  let ?buf = "?head @ drop HEADER_BYTES ?bytes"
  have keep: "slice a n ?buf = slice a n ?bytes" if "HEADER_BYTES \<le> a" for a n
    by (rule slice_behind_header [OF hlen that])
  have same: "ranges_of ?hd = ranges_of ?h"
    by (simp add: ranges_of_def region_range_def)
  have behind: "\<forall>(a, b) \<in> set (ranges_of ?h). HEADER_BYTES \<le> a"
    using rok toks(1) facts(4,7) unfolding ranges_ok_def ranges_of_def tokens_range_def by fastforce
  have "region_crcs crc ?buf (ranges_of ?h) = region_crcs crc ?bytes (ranges_of ?h)"
    using behind keep by (auto simp: region_crcs_def)
  moreover have "decode crc (take HEADER_BYTES ?buf) = Inr ?hd"
    using decode_encoded_bytes [OF enc valid, of crc "[]"] hlen by simp
  moreover have tsec: "slice (tokens_offset ?h) n ?buf = slice (tokens_offset ?h) n ?bytes" for n
    using keep toks(1) facts(4,7) by simp
  ultimately have good: "valid_record crc ?hd ?buf"
    using small len hlen by (simp add: valid_record_def same)
  have run: "prepare crc promote w = Inr \<lparr>p_header = ?hd, p_tokens = w_tokens w, p_buffer = ?buf, p_promote = promote\<rparr>"
    using head by (simp add: prepare_def Let_def tokens_range_def region_crcs_def)
  have words: "le_words (slice (tokens_offset ?h) (length (w_tokens w) * 4) ?buf) = w_tokens w"
    using tsec [of "4 * length (w_tokens w)"] tok by (metis le_words_concat mult.commute)
  have "prepared_ok crc ?h (w_tokens w)
      \<lparr>p_header = ?hd, p_tokens = w_tokens w, p_buffer = ?buf, p_promote = promote\<rparr>"
    using good words facts(3) by (simp add: prepared_ok_def)
  with run show ?thesis by (metis prepared_commit.select_convs(4))
qed

text \<open>The caller's writes between \<open>begin_capture\<close> and the commit.\<close>

fun fill_all :: "(nat \<times> byte list) list \<Rightarrow> record_writer \<Rightarrow> record_writer option" where
  "fill_all [] w = Some w"
| "fill_all ((index, bs) # fills) w =
     (case fill_region index bs w of None \<Rightarrow> None | Some w' \<Rightarrow> fill_all fills w')"

lemma fill_all_ok:
  "writer_ok w \<Longrightarrow> fill_all fills w = Some w' \<Longrightarrow>
   writer_ok w' \<and> w_header w' = w_header w \<and> w_tokens w' = w_tokens w"
proof (induction fills w rule: fill_all.induct)
  case (2 index bs fills w)
  then obtain v where v: "fill_region index bs w = Some v" "fill_all fills v = Some w'"
    by (auto split: option.splits)
  with "2.IH" fill_region_ok [OF "2.prems"(1) v(1)] show ?case by simp
qed simp

text \<open>
  C33: whatever the caller writes into the regions of an admitted capture of at most 16 Mi tokens,
  \<open>prepare\<close> succeeds, and a file holding the prepared bytes is read back exactly by
  \<open>read_record_checked\<close> when no kernel call fails and no read is short, while the index scan recovers the
  header and the exact token ids.
\<close>

theorem capture_reads_back:
  assumes "layout fp hash (length tokens) rs = Inr h" and "length fp = 32"
    and "fill_all fills (stage h tokens) = Some w" and "length tokens \<le> 16 * 1024 * 1024"
    and "hasher_spec H crc"
  shows "\<exists>job. prepare crc promote w = Inr job \<and> p_tokens job = tokens
    \<and> length (p_buffer job) = file_bytes h
    \<and> (\<forall>file direct. undisturbed file (p_buffer job) \<longrightarrow> faithful file (p_buffer job) \<longrightarrow>
        read_record_checked crc H file (p_header job) direct = Inr (p_buffer job)
        \<and> read_header_and_tokens crc file = Inr (p_header job, tokens))"
proof -
  have w: "writer_ok w" "w_header w = h" "w_tokens w = tokens"
    using fill_all_ok [OF stage_ok [OF assms(1,2)] assms(3)] by (simp_all add: stage_def)
  obtain job where job: "prepare crc promote w = Inr job" and ok: "prepared_ok crc h tokens job"
    using prepare_valid [OF w(1), of crc promote] unfolding w(2,3) by blast
  have valid: "valid_record crc (p_header job) (p_buffer job)" using ok by (simp add: prepared_ok_def)
  have count: "token_count (p_header job) = length tokens" using ok by (simp add: prepared_ok_def)
  have small: "token_count (p_header job) \<le> 16 * 1024 * 1024" using assms(4) count by simp
  have words: "le_words (slice (tokens_offset (p_header job)) (token_count (p_header job) * 4) (p_buffer job)) = tokens"
    using ok unfolding prepared_ok_def by blast
  have "read_record_checked crc H file (p_header job) direct = Inr (p_buffer job)
      \<and> read_header_and_tokens crc file = Inr (p_header job, tokens)"
    if "undisturbed file (p_buffer job)" "faithful file (p_buffer job)" for "file" direct
    using read_record_checked_complete [OF that assms(5) valid, of direct]
      read_header_and_tokens_complete [OF that(1) valid] words small by (simp only: if_True simp_thms)
  moreover have "p_tokens job = tokens" "length (p_buffer job) = file_bytes h"
    using ok by (simp_all add: prepared_ok_def valid_record_def)
  ultimately show ?thesis using job by blast
qed

theorem capture_reads_back_witness:
  "\<exists>w job. fill_all [(0, replicate 5000 3), (1, replicate 128 4)] (stage sample_layout (replicate 1000 42)) = Some w
     \<and> prepare counting_crc True w = Inr job \<and> p_tokens job = replicate 1000 42 \<and> length (p_buffer job) = 20480"
proof -
  let ?w0 = "stage sample_layout (replicate 1000 42)"
  have len: "length (w_buffer ?w0) = 20480"
    by (simp add: stage_def sample_layout_def length_write_tokens)
  have r: "region_range (w_header ?w0) 0 = Some (8192, 13192)" "region_range (w_header ?w0) 1 = Some (16384, 16512)"
    by (simp_all add: stage_def sample_layout_def sample_regions_def region_range_def)
  obtain w where w: "fill_all [(0, replicate 5000 3), (1, replicate 128 4)] ?w0 = Some w"
    using len r by (simp add: fill_region_def)
  have "layout (replicate 32 7) 9 (length (replicate 1000 (42 :: u32))) sample_regions = Inr sample_layout"
    using sample_layout_accepted by simp
  from capture_reads_back [OF this _ w _ counting_hasher_spec, of True] w show ?thesis
    by (simp add: sample_layout_def) blast
qed

text \<open>
  C34: a capture of more than 16 Mi tokens is admitted and committed like any other, but its file can
  never be used: the index scan rejects it and so does every read of the record.
\<close>

theorem oversized_capture_unreadable:
  assumes "layout fp hash (length tokens) rs = Inr h" and "length fp = 32"
    and "fill_all fills (stage h tokens) = Some w" and "16 * 1024 * 1024 < length tokens"
    and "hasher_spec H crc"
  shows "\<exists>job. prepare crc promote w = Inr job
    \<and> (\<forall>file direct. undisturbed file (p_buffer job) \<longrightarrow> faithful file (p_buffer job) \<longrightarrow>
        read_header_and_tokens crc file = Inl TokenCountTooLarge
        \<and> read_record_checked crc H file (p_header job) direct = Inl TokenCountTooLarge)"
proof -
  have w: "writer_ok w" "w_header w = h" "w_tokens w = tokens"
    using fill_all_ok [OF stage_ok [OF assms(1,2)] assms(3)] by (simp_all add: stage_def)
  obtain job where job: "prepare crc promote w = Inr job" and ok: "prepared_ok crc h tokens job"
    using prepare_valid [OF w(1), of crc promote] unfolding w(2,3) by blast
  have valid: "valid_record crc (p_header job) (p_buffer job)" using ok by (simp add: prepared_ok_def)
  note lay = layout_Inr [OF assms(1)]
  have "\<not> file_bytes h < FILE_BACKED_RECORD_MIN_BYTES"
    using ranges_ok_tokens(2) [OF layout_ranges_ok [OF assms(1)]] lay(3,4,7) assms(4)
    by (simp add: FILE_BACKED_RECORD_MIN_BYTES_def)
  then have "read_header_and_tokens crc file = Inl TokenCountTooLarge
      \<and> read_record_checked crc H file (p_header job) direct = Inl TokenCountTooLarge"
    if "undisturbed file (p_buffer job)" "faithful file (p_buffer job)" for "file" direct
    using read_record_checked_complete [OF that assms(5) valid] read_header_and_tokens_complete [OF that(1) valid]
      ok assms(4) by (simp add: prepared_ok_def)
  then show ?thesis using job by blast
qed

lemma big_layout: "\<exists>h. layout (replicate 32 7) 9 16777217 [\<lparr>region_name = [107], byte_count = 8\<rparr>] = Inr h"
  by (simp add: layout_def ensure_def validate_region_name_def is_ascii_graphic_def MAX_REGIONS_def
      MAX_REGION_NAME_BYTES_def checked_mul_def checked_add_def checked_mul64_def checked_add64_def
      align_up_def HEADER_BYTES_def ALIGNMENT_def u64_max_def)

theorem oversized_capture_unreadable_witness:
  "\<exists>h (tokens :: u32 list) job. length tokens = 16777217
     \<and> layout (replicate 32 7) 9 16777217 [\<lparr>region_name = [107], byte_count = 8\<rparr>] = Inr h
     \<and> prepare counting_crc True (stage h tokens) = Inr job"
proof -
  obtain h where h: "layout (replicate 32 7) 9 16777217 [\<lparr>region_name = [107], byte_count = 8\<rparr>] = Inr h"
    using big_layout by blast
  obtain tokens :: "u32 list" where len: "length tokens = 16777217"
    using Ex_list_of_length by blast
  have lay: "layout (replicate 32 7) 9 (length tokens) [\<lparr>region_name = [107], byte_count = 8\<rparr>] = Inr h"
    using h len by simp
  have big: "16 * 1024 * 1024 < length tokens" using len by simp
  have fill: "fill_all [] (stage h tokens) = Some (stage h tokens)" by simp
  have "length (replicate 32 7 :: byte list) = 32" by simp
  from oversized_capture_unreadable [OF lay this fill big counting_hasher_spec, of True] h len
  show ?thesis by blast
qed

end
