(* ===== verification/PrefixStore.thy ===== *)
theory PrefixStore
  imports PrefixCapture ResidentTier
begin

text \<open>
  The index of the prefix store, \<open>cache/letsinfer_prefix_store/src/store.rs\<close>: admission of captures,
  byte accounting with reservations, eviction, longest-prefix lookup, expiry, commit and integrity
  eviction. A function here is one critical section of the store's mutex or a whole method composed
  of such sections. Allocation, durable writes, file deletion and the clock are arguments; deletions
  are logged in \<open>s_removed\<close>. Statistics and byte counters are unbounded.
\<close>

section \<open>State\<close>

record record_meta =
  m_header :: record_header
  m_tokens :: "u32 list"
  m_path :: path
  m_file_bytes :: nat
  m_last_used_unix :: nat
  m_active_readers :: nat

record store_statistics =
  admitted_capture_count :: nat
  committed_capture_count :: nat
  failed_capture_count :: nat
  writer_busy_rejection_count :: nat
  lookup_count :: nat
  hit_count :: nat
  active_reader_count :: nat
  capacity_eviction_count :: nat
  expiry_eviction_count :: nat
  integrity_eviction_count :: nat

record store_config =
  c_root :: path
  c_capacity_bytes :: nat
  c_ttl_seconds :: nat
  c_minimum_token_count :: nat
  c_resident_capacity_bytes :: nat

record prefix_store =
  s_records :: "(u64 \<times> record_meta) list"
  s_reserved_hashes :: "u64 set"
  s_committed_bytes :: nat
  s_reserved_bytes :: nat
  s_statistics :: store_statistics
  s_resident :: tier_state
  s_outstanding :: nat
  s_removed :: "path list"

datatype capture_rejection =
    Disabled | WriterBusy | AlreadyStored | BelowMinimumTokenCount | RecordTooLarge
  | InsufficientCapacity | AllocationFailure | InvalidPlan

record record_reader =
  r_header :: record_header
  r_path :: path
  r_tokens :: "u32 list"

definition MAX_OUTSTANDING_COMMITS :: nat where "MAX_OUTSTANDING_COMMITS = 2"

definition zero_statistics :: store_statistics where
  "zero_statistics = \<lparr>admitted_capture_count = 0, committed_capture_count = 0, failed_capture_count = 0,
     writer_busy_rejection_count = 0, lookup_count = 0, hit_count = 0, active_reader_count = 0,
     capacity_eviction_count = 0, expiry_eviction_count = 0, integrity_eviction_count = 0\<rparr>"

definition empty_store :: prefix_store where
  "empty_store = \<lparr>s_records = [], s_reserved_hashes = {}, s_committed_bytes = 0, s_reserved_bytes = 0,
     s_statistics = zero_statistics, s_resident = tier_new, s_outstanding = 0, s_removed = []\<rparr>"

abbreviation count_stat :: "((nat \<Rightarrow> nat) \<Rightarrow> store_statistics \<Rightarrow> store_statistics) \<Rightarrow> prefix_store \<Rightarrow> prefix_store" where
  "count_stat upd s \<equiv> s\<lparr>s_statistics := upd Suc (s_statistics s)\<rparr>"

text \<open>\<open>format!("{hash:016x}.letsinfer_prefix")\<close> under the root.\<close>

definition hex_digit :: "nat \<Rightarrow> char" where
  "hex_digit n = ''0123456789abcdef'' ! n"

definition hex16 :: "u64 \<Rightarrow> string" where
  "hex16 h = map (\<lambda>i. hex_digit (unat (drop_bit (4 * (15 - i)) h AND 15))) [0..<16]"

definition record_path :: "store_config \<Rightarrow> u64 \<Rightarrow> path" where
  "record_path cfg hash = c_root cfg @ ''/'' @ hex16 hash @ ''.letsinfer_prefix''"

section \<open>Eviction\<close>

text \<open>\<open>min_by_key\<close> over the inactive records: oldest use first, then smallest hash.\<close>

definition older :: "record_meta \<Rightarrow> record_meta \<Rightarrow> bool" where
  "older a b \<longleftrightarrow> m_last_used_unix a < m_last_used_unix b
     \<or> (m_last_used_unix a = m_last_used_unix b \<and> key_hash_field (m_header a) < key_hash_field (m_header b))"

fun min_meta :: "record_meta list \<Rightarrow> record_meta option" where
  "min_meta [] = None"
| "min_meta (m # ms) = (case min_meta ms of None \<Rightarrow> Some m | Some n \<Rightarrow> Some (if older n m then n else m))"

definition victim :: "(u64 \<times> record_meta) list \<Rightarrow> u64 option" where
  "victim recs = map_option (\<lambda>m. key_hash_field (m_header m))
     (min_meta (filter (\<lambda>m. m_active_readers m = 0) (map snd recs)))"

definition remove_record :: "u64 \<Rightarrow> record_meta \<Rightarrow> prefix_store \<Rightarrow> prefix_store" where
  "remove_record hash m s = s\<lparr>s_records := AList.delete hash (s_records s),
     s_committed_bytes := s_committed_bytes s - m_file_bytes m\<rparr>"

text \<open>
  The loop of \<open>enforce_capacity_for\<close> under the lock: the new state, the victims' paths in eviction
  order and whether it ended exhausted. It would spin if a victim's hash were not a key of the
  table; the fuel makes that case \<open>None\<close>.
\<close>

fun enforce_loop :: "nat \<Rightarrow> nat \<Rightarrow> nat \<Rightarrow> prefix_store \<Rightarrow> (prefix_store \<times> path list \<times> bool) option" where
  "enforce_loop 0 capacity incoming s = None"
| "enforce_loop (Suc fuel) capacity incoming s =
     (if s_committed_bytes s + s_reserved_bytes s + incoming \<le> capacity \<or> capacity = 0
      then Some (s, [], False)
      else case victim (s_records s) of
             None \<Rightarrow> Some (s, [], True)
           | Some hash \<Rightarrow>
               (case map_of (s_records s) hash of
                  None \<Rightarrow> enforce_loop fuel capacity incoming s
                | Some m \<Rightarrow>
                    (case enforce_loop fuel capacity incoming
                            (count_stat capacity_eviction_count_update (remove_record hash m s)) of
                       None \<Rightarrow> None
                     | Some (s', paths, exhausted) \<Rightarrow> Some (s', m_path m # paths, exhausted))))"

text \<open>After the lock: drop residency of every victim and delete its file, errors ignored.\<close>

definition discard :: "path list \<Rightarrow> prefix_store \<Rightarrow> prefix_store" where
  "discard paths s = s\<lparr>s_resident := fold tier_invalidate paths (s_resident s), s_removed := s_removed s @ paths\<rparr>"

definition enforce_capacity_for :: "store_config \<Rightarrow> nat \<Rightarrow> prefix_store \<Rightarrow> (bool \<times> prefix_store) option" where
  "enforce_capacity_for cfg incoming s =
     (case enforce_loop (Suc (length (s_records s))) (c_capacity_bytes cfg) incoming s of
        None \<Rightarrow> None
      | Some (s', paths, exhausted) \<Rightarrow> Some (\<not> exhausted, discard paths s'))"

section \<open>Capture\<close>

text \<open>The checks before admission.\<close>

definition plan_capture ::
  "store_config \<Rightarrow> byte list \<Rightarrow> u32 list \<Rightarrow> region_description list \<Rightarrow> capture_rejection + record_header" where
  "plan_capture cfg fp tokens regs =
     bind_result (ensure (c_capacity_bytes cfg \<noteq> 0) Disabled) (\<lambda>_.
     bind_result (ensure (\<not> length tokens < c_minimum_token_count cfg) BelowMinimumTokenCount) (\<lambda>_.
     bind_result (map_err (\<lambda>_. InvalidPlan) (layout fp (key_hash fp tokens) (length tokens) regs)) (\<lambda>header.
     bind_result (ensure (\<not> file_bytes header > c_capacity_bytes cfg) RecordTooLarge) (\<lambda>_.
     Inr header))))"

definition try_acquire :: "prefix_store \<Rightarrow> bool \<times> prefix_store" where
  "try_acquire s =
     (if s_outstanding s < MAX_OUTSTANDING_COMMITS then (True, s\<lparr>s_outstanding := s_outstanding s + 1\<rparr>)
      else (False, count_stat writer_busy_rejection_count_update s))"

definition drop_permit :: "prefix_store \<Rightarrow> prefix_store" where
  "drop_permit s = s\<lparr>s_outstanding := s_outstanding s - 1\<rparr>"

definition reserve :: "record_header \<Rightarrow> u32 list \<Rightarrow> prefix_store \<Rightarrow> bool \<times> prefix_store" where
  "reserve header tokens s =
     (let hash = key_hash_field header in
      if hash \<in> s_reserved_hashes s
         \<or> (case map_of (s_records s) hash of None \<Rightarrow> False | Some existing \<Rightarrow> m_tokens existing = tokens)
      then (False, s)
      else (True, count_stat admitted_capture_count_update
              (s\<lparr>s_reserved_bytes := s_reserved_bytes s + file_bytes header,
                 s_reserved_hashes := insert hash (s_reserved_hashes s)\<rparr>)))"

text \<open>
  Releasing a reservation: after a failed admission, and (with a failure counted) after a failed
  commit; \<open>cancel\<close> and dropping an unused writer release without counting a failure.
\<close>

definition release_reservation :: "record_header \<Rightarrow> prefix_store \<Rightarrow> prefix_store" where
  "release_reservation header s =
     s\<lparr>s_reserved_bytes := s_reserved_bytes s - file_bytes header,
       s_reserved_hashes := s_reserved_hashes s - {key_hash_field header}\<rparr>"

definition cancel_reservation :: "record_header \<Rightarrow> prefix_store \<Rightarrow> prefix_store" where
  "cancel_reservation header s = count_stat failed_capture_count_update (release_reservation header s)"

definition cancel :: "record_writer \<Rightarrow> prefix_store \<Rightarrow> prefix_store" where
  "cancel w s = drop_permit (release_reservation (w_header w) s)"

definition begin_capture ::
  "store_config \<Rightarrow> bool \<Rightarrow> byte list \<Rightarrow> u32 list \<Rightarrow> region_description list \<Rightarrow> prefix_store \<Rightarrow>
   ((capture_rejection + record_writer) \<times> prefix_store) option" where
  "begin_capture cfg alloc_ok fp tokens regs s =
     (case plan_capture cfg fp tokens regs of
        Inl e \<Rightarrow> Some (Inl e, s)
      | Inr header \<Rightarrow>
          (case try_acquire s of
             (False, s1) \<Rightarrow> Some (Inl WriterBusy, s1)
           | (True, s1) \<Rightarrow>
               (case reserve header tokens s1 of
                  (False, s2) \<Rightarrow> Some (Inl AlreadyStored, drop_permit s2)
                | (True, s2) \<Rightarrow>
                    (case enforce_capacity_for cfg 0 s2 of
                       None \<Rightarrow> None
                     | Some (False, s3) \<Rightarrow>
                         Some (Inl InsufficientCapacity, drop_permit (cancel_reservation header s3))
                     | Some (True, s3) \<Rightarrow>
                         if alloc_ok then Some (Inr (stage header tokens), s3)
                         else Some (Inl AllocationFailure, drop_permit (cancel_reservation header s3))))))"

section \<open>Lookup\<close>

definition candidates ::
  "byte list \<Rightarrow> u32 list \<Rightarrow> nat \<Rightarrow> (u64 \<times> record_meta) list \<Rightarrow> (nat \<times> u64) list" where
  "candidates fp tokens minimum recs =
     rev (sort_key fst (map (\<lambda>m. (token_count (m_header m), key_hash_field (m_header m)))
       (filter (\<lambda>m. fingerprint (m_header m) = fp \<and> token_count (m_header m) \<le> length tokens
                   \<and> token_count (m_header m) \<ge> minimum) (map snd recs))))"

text \<open>The candidate loop: the first candidate whose hash and exact tokens match.\<close>

fun first_match :: "byte list \<Rightarrow> u32 list \<Rightarrow> (u64 \<times> record_meta) list \<Rightarrow> (nat \<times> u64) list \<Rightarrow> u64 option" where
  "first_match fp tokens recs [] = None"
| "first_match fp tokens recs ((count, stored_hash) # rest) =
     (if key_hash fp (take count tokens) \<noteq> stored_hash then first_match fp tokens recs rest
      else case map_of recs stored_hash of
             None \<Rightarrow> first_match fp tokens recs rest
           | Some m \<Rightarrow> if m_tokens m \<noteq> take count tokens then first_match fp tokens recs rest
                       else Some stored_hash)"

definition pin :: "nat \<Rightarrow> record_meta \<Rightarrow> record_meta" where
  "pin now m = m\<lparr>m_active_readers := m_active_readers m + 1, m_last_used_unix := now\<rparr>"

definition longest_prefix ::
  "nat \<Rightarrow> byte list \<Rightarrow> u32 list \<Rightarrow> nat \<Rightarrow> prefix_store \<Rightarrow> record_reader option \<times> prefix_store" where
  "longest_prefix now fp tokens minimum s =
     (let s1 = count_stat lookup_count_update s in
      case first_match fp tokens (s_records s) (candidates fp tokens minimum (s_records s)) of
        None \<Rightarrow> (None, s1)
      | Some hash \<Rightarrow>
          (case map_of (s_records s) hash of
             None \<Rightarrow> (None, s1)
           | Some m \<Rightarrow>
               (Some \<lparr>r_header = m_header m, r_path = m_path m, r_tokens = m_tokens m\<rparr>,
                count_stat active_reader_count_update (count_stat hit_count_update
                  (s1\<lparr>s_records := AList.update hash (pin now m) (s_records s)\<rparr>)))))"

definition touch :: "nat \<Rightarrow> record_reader \<Rightarrow> prefix_store \<Rightarrow> prefix_store" where
  "touch now r s =
     (case map_of (s_records s) (key_hash_field (r_header r)) of
        None \<Rightarrow> s
      | Some m \<Rightarrow> s\<lparr>s_records := AList.update (key_hash_field (r_header r)) (m\<lparr>m_last_used_unix := now\<rparr>) (s_records s)\<rparr>)"

definition release_resident :: "record_reader \<Rightarrow> prefix_store \<Rightarrow> prefix_store" where
  "release_resident r s = s\<lparr>s_resident := tier_invalidate (r_path r) (s_resident s)\<rparr>"

definition drop_reader :: "record_reader \<Rightarrow> prefix_store \<Rightarrow> prefix_store" where
  "drop_reader r s =
     (let s1 = s\<lparr>s_statistics := active_reader_count_update (\<lambda>n. n - 1) (s_statistics s)\<rparr>;
          hash = key_hash_field (r_header r) in
      case map_of (s_records s) hash of
        None \<Rightarrow> s1
      | Some m \<Rightarrow> s1\<lparr>s_records := AList.update hash (m\<lparr>m_active_readers := m_active_readers m - 1\<rparr>) (s_records s)\<rparr>)"

section \<open>Expiry and integrity\<close>

definition expired_hashes :: "store_config \<Rightarrow> nat \<Rightarrow> (u64 \<times> record_meta) list \<Rightarrow> u64 list" where
  "expired_hashes cfg now recs = map (\<lambda>m. key_hash_field (m_header m))
     (filter (\<lambda>m. m_active_readers m = 0 \<and> saturating_add64 (m_last_used_unix m) (c_ttl_seconds cfg) < now)
       (map snd recs))"

fun expire_all :: "u64 list \<Rightarrow> prefix_store \<Rightarrow> prefix_store \<times> path list" where
  "expire_all [] s = (s, [])"
| "expire_all (hash # hashes) s =
     (case map_of (s_records s) hash of
        None \<Rightarrow> expire_all hashes s
      | Some m \<Rightarrow>
          (let (s', paths) = expire_all hashes (count_stat expiry_eviction_count_update (remove_record hash m s))
           in (s', m_path m # paths)))"

definition reclaim_expired :: "store_config \<Rightarrow> nat \<Rightarrow> prefix_store \<Rightarrow> prefix_store" where
  "reclaim_expired cfg now s =
     (let (s', paths) = expire_all (expired_hashes cfg now (s_records s)) s in discard paths s')"

definition evict_for_integrity :: "u64 \<Rightarrow> prefix_store \<Rightarrow> prefix_store" where
  "evict_for_integrity hash s =
     (case map_of (s_records s) hash of
        None \<Rightarrow> s
      | Some m \<Rightarrow> discard [m_path m] (count_stat integrity_eviction_count_update (remove_record hash m s)))"

section \<open>Commit\<close>

definition install_record :: "store_config \<Rightarrow> nat \<Rightarrow> prepared_commit \<Rightarrow> prefix_store \<Rightarrow> prefix_store" where
  "install_record cfg now job s =
     (let header = p_header job; hash = key_hash_field header;
          s1 = release_reservation header s;
          s2 = (case map_of (s_records s1) hash of
                  None \<Rightarrow> s1
                | Some prior \<Rightarrow> (remove_record hash prior s1)\<lparr>s_resident := tier_invalidate (m_path prior) (s_resident s1)\<rparr>);
          meta = \<lparr>m_header = header, m_tokens = p_tokens job, m_path = record_path cfg hash,
                  m_file_bytes = file_bytes header, m_last_used_unix = now, m_active_readers = 0\<rparr>
      in count_stat committed_capture_count_update
           (s2\<lparr>s_committed_bytes := s_committed_bytes s2 + file_bytes header,
               s_records := AList.update hash meta (s_records s2)\<rparr>))"

text \<open>
  \<open>commit_prepared\<close>. \<open>write_ok\<close> is the outcome of the durable write, \<open>readback\<close> of reading a large
  record back for residency; the permit is released on every path.
\<close>

definition commit_prepared ::
  "store_config \<Rightarrow> nat \<Rightarrow> bool \<Rightarrow> io_error + byte list \<Rightarrow> prepared_commit \<Rightarrow> prefix_store \<Rightarrow> bool \<times> prefix_store" where
  "commit_prepared cfg now write_ok readback job s =
     (let header = p_header job; record_file_path = record_path cfg (key_hash_field header);
          in_memory = file_bytes header < FILE_BACKED_RECORD_MIN_BYTES in
      if \<not> write_ok then (False, drop_permit (cancel_reservation header s))
      else
        let needs_read = p_promote job \<and> \<not> in_memory \<and> file_bytes header \<le> c_resident_capacity_bytes cfg in
        if needs_read \<and> \<not> is_ok readback
        then (False, drop_permit (cancel_reservation header (s\<lparr>s_removed := s_removed s @ [record_file_path]\<rparr>)))
        else
          let resident_blob = (if p_promote job \<and> in_memory then Some (p_buffer job)
                               else if needs_read then Some (projr readback) else None);
              s1 = install_record cfg now job s;
              s2 = (case resident_blob of
                      None \<Rightarrow> s1
                    | Some b \<Rightarrow> s1\<lparr>s_resident := tier_promote (c_resident_capacity_bytes cfg) record_file_path b (s_resident s1)\<rparr>)
          in (True, drop_permit s2))"

section \<open>Startup\<close>

text \<open>
  The scan of \<open>open\<close> over the files with the record extension, in directory order: each is either a
  valid record with its modification time or unreadable.
\<close>

fun scan :: "(path \<times> (io_error + record_header \<times> u32 list) \<times> nat) list \<Rightarrow> prefix_store \<Rightarrow> prefix_store" where
  "scan [] s = s"
| "scan ((p, loaded, mtime) # entries) s =
     scan entries
       (case loaded of
          Inr (header, tokens) \<Rightarrow>
            if key_hash (fingerprint header) tokens \<noteq> key_hash_field header
            then count_stat integrity_eviction_count_update (s\<lparr>s_removed := s_removed s @ [p]\<rparr>)
            else s\<lparr>s_committed_bytes := s_committed_bytes s + file_bytes header,
                   s_records := AList.update (key_hash_field header)
                     \<lparr>m_header = header, m_tokens = tokens, m_path = p, m_file_bytes = file_bytes header,
                      m_last_used_unix = mtime, m_active_readers = 0\<rparr> (s_records s)\<rparr>
        | Inl _ \<Rightarrow> count_stat integrity_eviction_count_update (s\<lparr>s_removed := s_removed s @ [p]\<rparr>))"

definition open_store ::
  "store_config \<Rightarrow> (path \<times> (io_error + record_header \<times> u32 list) \<times> nat) list \<Rightarrow> (bool \<times> prefix_store) option" where
  "open_store cfg entries = enforce_capacity_for cfg 0 (scan entries empty_store)"

section \<open>Prewarming\<close>

definition hidden_name :: "byte list" where "hidden_name = [104, 105, 100, 100, 101, 110]"

definition has_hidden :: "record_meta \<Rightarrow> bool" where
  "has_hidden m \<longleftrightarrow> (\<exists>r \<in> set (regions (m_header m)). region_name r = hidden_name)"

text \<open>Descending on last use, then records with a hidden region, then length; a stable sort.\<close>

definition prewarm_before :: "record_meta \<Rightarrow> record_meta \<Rightarrow> bool" where
  "prewarm_before a b \<longleftrightarrow>
     m_last_used_unix b < m_last_used_unix a
     \<or> (m_last_used_unix a = m_last_used_unix b
        \<and> ((has_hidden a \<and> \<not> has_hidden b)
           \<or> (has_hidden a = has_hidden b \<and> token_count (m_header b) < token_count (m_header a))))"

fun prewarm_insert :: "record_meta \<Rightarrow> record_meta list \<Rightarrow> record_meta list" where
  "prewarm_insert m [] = [m]"
| "prewarm_insert m (n # ns) = (if prewarm_before n m then n # prewarm_insert m ns else m # n # ns)"

definition prewarm_sort :: "record_meta list \<Rightarrow> record_meta list" where
  "prewarm_sort ms = foldr prewarm_insert ms []"

fun prewarm_select :: "nat \<Rightarrow> record_meta list \<Rightarrow> (u32 list \<times> bool \<times> nat) list" where
  "prewarm_select remaining [] = []"
| "prewarm_select remaining (m # ms) =
     (if m_file_bytes m > remaining then prewarm_select remaining ms
      else (m_tokens m, has_hidden m, m_file_bytes m) # prewarm_select (remaining - m_file_bytes m) ms)"

definition prewarm_candidates :: "byte list \<Rightarrow> nat \<Rightarrow> prefix_store \<Rightarrow> (u32 list \<times> bool \<times> nat) list" where
  "prewarm_candidates fp capacity s =
     (if capacity = 0 then []
      else prewarm_select capacity
        (prewarm_sort (filter (\<lambda>m. fingerprint (m_header m) = fp) (map snd (s_records s)))))"

end
