(* ===== verification/PrefixIndex.thy ===== *)
theory PrefixIndex
  imports PrefixStore "HOL-Library.Multiset" "HOL-Library.Sublist"
begin

text \<open>
  The index of the prefix store satisfies its accounting invariant after every operation: one record
  per key, keys that are the hash of the record's fingerprint and tokens, committed bytes that are those
  of the records and a constant fixed at startup.
  Here are the per-operation lemmas and the properties of eviction, lookup, expiry and prewarming;
  \<open>PrefixConcurrency\<close> has the interleavings.
\<close>

section \<open>The index invariant\<close>

definition meta_ok :: "u64 \<Rightarrow> record_meta \<Rightarrow> bool" where
  "meta_ok k m \<longleftrightarrow> key_hash_field (m_header m) = k \<and> key_hash (fingerprint (m_header m)) (m_tokens m) = k
     \<and> token_count (m_header m) = length (m_tokens m) \<and> m_file_bytes m = file_bytes (m_header m)"

text \<open>
  The committed bytes are those of the indexed records and \<open>off\<close> more: a constant that the scan of the
  directory fixes and that no later operation changes. It is zero unless two files had one key.
\<close>

definition index_off :: "nat \<Rightarrow> prefix_store \<Rightarrow> bool" where
  "index_off off s \<longleftrightarrow> table_ok (s_records s) \<and> (\<forall>k m. map_of (s_records s) k = Some m \<longrightarrow> meta_ok k m)
     \<and> s_committed_bytes s = table_sum m_file_bytes (s_records s) + off"

abbreviation index_ok :: "prefix_store \<Rightarrow> bool" where
  "index_ok s \<equiv> index_off 0 s"

lemma index_ok_ignores [simp]:
  "index_off off (s\<lparr>s_statistics := x\<rparr>) = index_off off s"
  "index_off off (s\<lparr>s_resident := t\<rparr>) = index_off off s"
  "index_off off (s\<lparr>s_outstanding := n\<rparr>) = index_off off s"
  "index_off off (s\<lparr>s_removed := ps\<rparr>) = index_off off s"
  "index_off off (s\<lparr>s_reserved_bytes := r\<rparr>) = index_off off s"
  "index_off off (s\<lparr>s_reserved_hashes := hs\<rparr>) = index_off off s"
  by (simp_all add: index_off_def)

lemma empty_store_ok: "index_ok empty_store"
  by (simp add: index_off_def empty_store_def)

lemma index_okD:
  assumes "index_off off s" and "map_of (s_records s) k = Some m"
  shows "meta_ok k m" and "m_file_bytes m \<le> s_committed_bytes s"
  using assms table_sum_ge [of "s_records s" k m m_file_bytes] by (auto simp: index_off_def)

lemma remove_record_ok:
  assumes "index_off off s" and "map_of (s_records s) k = Some m"
  shows "index_off off (remove_record k m s)"
  using assms table_sum_delete [of "s_records s" k m m_file_bytes]
  by (auto simp: index_off_def remove_record_def map_of_delete_if split: if_splits)

lemma update_record_ok:
  assumes "index_off off s" and "map_of (s_records s) k = Some m" and "meta_ok k m'"
    and "m_file_bytes m' = m_file_bytes m"
  shows "index_off off (s\<lparr>s_records := AList.update k m' (s_records s)\<rparr>)"
  using assms table_sum_update [of "s_records s" k m m_file_bytes m']
  by (auto simp: index_off_def map_of_update_if split: if_splits)

lemma add_record_ok:
  assumes "index_off off s" and "map_of (s_records s) k = None" and "meta_ok k m"
  shows "index_off off (s\<lparr>s_committed_bytes := s_committed_bytes s + m_file_bytes m,
    s_records := AList.update k m (s_records s)\<rparr>)"
  using assms table_sum_update_absent [of "s_records s" k m_file_bytes m]
  by (auto simp: index_off_def map_of_update_if split: if_splits)

section \<open>Choosing a victim\<close>

lemma min_meta_None: "min_meta ms = None \<longleftrightarrow> ms = []"
  by (induction ms) (auto split: option.splits)

lemma older_asym: "older a b \<Longrightarrow> \<not> older b a"
  by (auto simp: older_def)

lemma not_older_trans: "\<not> older b a \<Longrightarrow> \<not> older c b \<Longrightarrow> \<not> older c a"
  by (auto simp: older_def)

lemma min_meta_least: "min_meta ms = Some m \<Longrightarrow> m \<in> set ms \<and> (\<forall>n \<in> set ms. \<not> older n m)"
proof (induction ms arbitrary: m)
  case Nil
  then show ?case by simp
next
  case (Cons x ms)
  show ?case
  proof (cases "min_meta ms")
    case None
    with Cons.prems have "ms = []" "m = x" by (auto simp: min_meta_None)
    then show ?thesis by (simp add: older_def)
  next
    case (Some y)
    with Cons.IH have y: "y \<in> set ms" "\<forall>n\<in>set ms. \<not> older n y" by auto
    show ?thesis
    proof (cases "older y x")
      case True
      with Some Cons.prems have "m = y" by simp
      with y older_asym [OF True] show ?thesis by simp
    next
      case False
      with Some Cons.prems have m: "m = x" by simp
      have "\<not> older n x" if "n \<in> set ms" for n
        using not_older_trans [OF False] y(2) that by blast
      with m show ?thesis by (simp add: older_def)
    qed
  qed
qed

lemma victim_Some:
  assumes "index_off off s" and "victim (s_records s) = Some k"
  obtains m where "map_of (s_records s) k = Some m" "m_active_readers m = 0"
    "\<And>k' m'. map_of (s_records s) k' = Some m' \<Longrightarrow> m_active_readers m' = 0 \<Longrightarrow> \<not> older m' m"
proof -
  let ?idle = "filter (\<lambda>m. m_active_readers m = 0) (map snd (s_records s))"
  obtain m where min: "min_meta ?idle = Some m" and k: "k = key_hash_field (m_header m)"
    using assms(2) unfolding victim_def by (cases "min_meta ?idle") simp_all
  note least = min_meta_least [OF min]
  then have "m \<in> set ?idle" by blast
  then obtain k' where "(k', m) \<in> set (s_records s)" and idle: "m_active_readers m = 0" by auto
  with assms(1) have at: "map_of (s_records s) k' = Some m" by (simp add: index_off_def)
  have "k' = k" using index_okD(1) [OF assms(1) at] k by (simp add: meta_ok_def)
  with at have here: "map_of (s_records s) k = Some m" by simp
  show ?thesis
  proof (rule that [OF here idle])
    fix k' m'
    assume "map_of (s_records s) k' = Some m'" "m_active_readers m' = 0"
    then have "m' \<in> set ?idle"
      using map_of_SomeD [of "s_records s" k' m'] by force
    then show "\<not> older m' m" using least by blast
  qed
qed

lemma victim_None:
  assumes "index_off off s" and "victim (s_records s) = None" and "map_of (s_records s) k = Some m"
  shows "0 < m_active_readers m"
  using assms(2,3) by (auto simp: victim_def min_meta_None filter_empty_conv dest!: map_of_SomeD)

section \<open>Enforcing the capacity\<close>

text \<open>
  Eviction from \<open>s\<close> to \<open>s'\<close>: survivors are unchanged, pinned records survive, whoever went was idle
  and least recently used among the idle records, and nothing but index, byte count and statistics
  changed.
\<close>

definition evicted_lru :: "prefix_store \<Rightarrow> prefix_store \<Rightarrow> bool" where
  "evicted_lru s s' \<longleftrightarrow>
     (\<forall>k m. map_of (s_records s') k = Some m \<longrightarrow> map_of (s_records s) k = Some m)
     \<and> (\<forall>k m. map_of (s_records s) k = Some m \<longrightarrow> map_of (s_records s') k = None \<longrightarrow>
          m_active_readers m = 0
          \<and> (\<forall>k' m'. map_of (s_records s') k' = Some m' \<longrightarrow> m_active_readers m' = 0 \<longrightarrow> \<not> older m' m))
     \<and> s_reserved_bytes s' = s_reserved_bytes s \<and> s_reserved_hashes s' = s_reserved_hashes s
     \<and> s_resident s' = s_resident s \<and> s_outstanding s' = s_outstanding s \<and> s_removed s' = s_removed s"

lemma evicted_lru_refl: "evicted_lru s s"
  by (simp add: evicted_lru_def)

lemma evicted_lru_step:
  assumes "map_of (s_records s) k = Some m" and "m_active_readers m = 0"
    and least: "\<And>k' m'. map_of (s_records s) k' = Some m' \<Longrightarrow> m_active_readers m' = 0 \<Longrightarrow> \<not> older m' m"
    and rest: "evicted_lru (count_stat upd (remove_record k m s)) s'"
  shows "evicted_lru s s'"
proof -
  have recs: "map_of (s_records (count_stat upd (remove_record k m s))) k' =
      (if k' = k then None else map_of (s_records s) k')" for k'
    by (simp add: remove_record_def map_of_delete_if)
  have sub: "map_of (s_records s') k' = Some m' \<Longrightarrow> k' \<noteq> k \<and> map_of (s_records s) k' = Some m'" for k' m'
    using rest recs [of k'] unfolding evicted_lru_def by (metis option.distinct(1))
  have gone: "m_active_readers m1 = 0 \<and> (\<forall>k' m'. map_of (s_records s') k' = Some m' \<longrightarrow>
      m_active_readers m' = 0 \<longrightarrow> \<not> older m' m1)"
    if "map_of (s_records s) k1 = Some m1" "map_of (s_records s') k1 = None" for k1 m1
  proof (cases "k1 = k")
    case True
    with that(1) assms(1) have "m1 = m" by simp
    with assms(2) least sub show ?thesis by blast
  next
    case False
    with rest recs [of k1] that show ?thesis unfolding evicted_lru_def by metis
  qed
  have "s_reserved_bytes s' = s_reserved_bytes s" "s_reserved_hashes s' = s_reserved_hashes s"
    "s_resident s' = s_resident s" "s_outstanding s' = s_outstanding s" "s_removed s' = s_removed s"
    using rest by (simp_all add: evicted_lru_def remove_record_def)
  with sub gone show ?thesis unfolding evicted_lru_def by blast
qed

definition fits :: "nat \<Rightarrow> nat \<Rightarrow> prefix_store \<Rightarrow> bool" where
  "fits capacity incoming s \<longleftrightarrow>
     s_committed_bytes s + s_reserved_bytes s + incoming \<le> capacity \<or> capacity = 0"

lemma enforce_loop_spec:
  assumes "index_off off s" and "length (s_records s) < fuel"
  shows "\<exists>s' paths exhausted. enforce_loop fuel capacity incoming s = Some (s', paths, exhausted)
    \<and> index_off off s' \<and> evicted_lru s s' \<and> s_committed_bytes s' \<le> s_committed_bytes s
    \<and> (exhausted \<longleftrightarrow> \<not> fits capacity incoming s')
    \<and> (exhausted \<longrightarrow> (\<forall>k m. map_of (s_records s') k = Some m \<longrightarrow> 0 < m_active_readers m))
    \<and> (fits capacity incoming s \<longrightarrow> s' = s \<and> paths = [])"
  using assms
proof (induction fuel arbitrary: s)
  case 0
  then show ?case by simp
next
  case (Suc fuel)
  show ?case
  proof (cases "fits capacity incoming s")
    case True
    then show ?thesis using Suc.prems(1) by (auto simp: fits_def evicted_lru_refl)
  next
    case over: False
    show ?thesis
    proof (cases "victim (s_records s)")
      case None
      with over Suc.prems(1) victim_None [OF Suc.prems(1) None] show ?thesis
        by (simp add: fits_def evicted_lru_refl)
    next
      case (Some k)
      obtain m where m: "map_of (s_records s) k = Some m" "m_active_readers m = 0"
        "\<And>k' m'. map_of (s_records s) k' = Some m' \<Longrightarrow> m_active_readers m' = 0 \<Longrightarrow> \<not> older m' m"
        using victim_Some [OF Suc.prems(1) Some] by blast
      let ?s1 = "count_stat capacity_eviction_count_update (remove_record k m s)"
      have ok: "index_off off ?s1" using remove_record_ok [OF Suc.prems(1) m(1)] by simp
      have "table_ok (s_records s)" using Suc.prems(1) by (simp add: index_off_def)
      then have "length (s_records ?s1) < fuel"
        using length_delete_present [OF _ m(1)] Suc.prems(2) by (simp add: remove_record_def)
      with Suc.IH [OF ok] obtain s' paths ex where run:
        "enforce_loop fuel capacity incoming ?s1 = Some (s', paths, ex)"
        "index_off off s'" "evicted_lru ?s1 s'" "s_committed_bytes s' \<le> s_committed_bytes ?s1"
        "ex \<longleftrightarrow> \<not> fits capacity incoming s'"
        "ex \<longrightarrow> (\<forall>k m. map_of (s_records s') k = Some m \<longrightarrow> 0 < m_active_readers m)"
        by blast
      have "enforce_loop (Suc fuel) capacity incoming s = Some (s', m_path m # paths, ex)"
        using over Some m(1) run(1) by (simp add: fits_def)
      moreover have "evicted_lru s s'" by (rule evicted_lru_step [where upd = capacity_eviction_count_update, OF m run(3)])
      moreover have "s_committed_bytes s' \<le> s_committed_bytes s"
        using run(4) by (simp add: remove_record_def)
      ultimately show ?thesis using run(2,5,6) over by blast
    qed
  qed
qed

section \<open>Lookup\<close>

definition usable :: "byte list \<Rightarrow> u32 list \<Rightarrow> nat \<Rightarrow> record_meta \<Rightarrow> bool" where
  "usable fp tokens minimum m \<longleftrightarrow> fingerprint (m_header m) = fp \<and> minimum \<le> length (m_tokens m)
     \<and> prefix (m_tokens m) tokens"

definition matches :: "byte list \<Rightarrow> u32 list \<Rightarrow> (u64 \<times> record_meta) list \<Rightarrow> nat \<times> u64 \<Rightarrow> bool" where
  "matches fp tokens recs c \<longleftrightarrow> key_hash fp (take (fst c) tokens) = snd c
     \<and> (\<exists>m. map_of recs (snd c) = Some m \<and> m_tokens m = take (fst c) tokens)"

lemma first_match_None: "first_match fp tokens recs cs = None \<longleftrightarrow> (\<forall>c \<in> set cs. \<not> matches fp tokens recs c)"
  by (induction fp tokens recs cs rule: first_match.induct) (auto simp: matches_def split: option.splits)

lemma first_match_Some:
  assumes "first_match fp tokens recs cs = Some h" and "sorted_wrt (\<lambda>a b. fst b \<le> fst a) cs"
  shows "\<exists>n. (n, h) \<in> set cs \<and> matches fp tokens recs (n, h)
    \<and> (\<forall>c \<in> set cs. matches fp tokens recs c \<longrightarrow> fst c \<le> n)"
  using assms
proof (induction fp tokens recs cs rule: first_match.induct)
  case (1 fp tokens recs)
  then show ?case by simp
next
  case (2 fp tokens recs n g cs)
  show ?case
  proof (cases "matches fp tokens recs (n, g)")
    case True
    with 2(4) have "h = g" by (auto simp: matches_def split: if_splits option.splits)
    with True 2(5) show ?thesis by auto
  next
    case False
    then have "first_match fp tokens recs ((n, g) # cs) = first_match fp tokens recs cs"
      by (auto simp: matches_def split: option.splits)
    moreover have "first_match fp tokens recs cs = Some h \<Longrightarrow> \<exists>n. (n, h) \<in> set cs
        \<and> matches fp tokens recs (n, h) \<and> (\<forall>c \<in> set cs. matches fp tokens recs c \<longrightarrow> fst c \<le> n)"
      using 2(1-3,5) False by (cases "key_hash fp (take n tokens) = g"; cases "map_of recs g")
        (auto simp: matches_def)
    ultimately show ?thesis using 2(4) False by auto
  qed
qed

lemma candidates_sorted: "sorted_wrt (\<lambda>a b. fst b \<le> fst a) (candidates fp tokens minimum recs)"
proof -
  have "sorted_wrt (\<lambda>a b. fst a \<le> fst b) (sort_key fst xs)" for xs :: "(nat \<times> u64) list"
    using sorted_sort_key [of fst xs] by (simp add: sorted_map)
  then show ?thesis by (simp add: candidates_def sorted_wrt_rev)
qed

lemma candidates_matches:
  assumes ok: "index_off off s"
  shows "c \<in> set (candidates fp tokens minimum (s_records s)) \<and> matches fp tokens (s_records s) c \<longleftrightarrow>
    (\<exists>m. map_of (s_records s) (snd c) = Some m \<and> usable fp tokens minimum m \<and> fst c = length (m_tokens m))"
    (is "?L \<longleftrightarrow> ?R")
proof
  assume ?L
  then obtain k m' where m': "map_of (s_records s) k = Some m'" "c = (token_count (m_header m'), key_hash_field (m_header m'))"
      "fingerprint (m_header m') = fp" "token_count (m_header m') \<le> length tokens" "minimum \<le> token_count (m_header m')"
    and mt: "matches fp tokens (s_records s) c"
    using ok by (auto simp: candidates_def index_off_def)
  from index_okD(1) [OF ok m'(1)] have k: "k = snd c" and len: "token_count (m_header m') = length (m_tokens m')"
    using m'(2) by (simp_all add: meta_ok_def)
  with mt m' have "m_tokens m' = take (length (m_tokens m')) tokens" by (simp add: matches_def)
  then have "prefix (m_tokens m') tokens" by (metis take_is_prefix)
  with m' k len show ?R by (auto simp: usable_def)
next
  assume ?R
  then obtain m where m: "map_of (s_records s) (snd c) = Some m" "usable fp tokens minimum m" "fst c = length (m_tokens m)"
    by blast
  note mo = index_okD(1) [OF ok m(1)]
  have pre: "m_tokens m = take (length (m_tokens m)) tokens" "length (m_tokens m) \<le> length tokens"
    using m(2) by (auto simp: usable_def prefix_def)
  have "(snd c, m) \<in> set (s_records s)" using map_of_SomeD [OF m(1)] .
  moreover have "c = (token_count (m_header m), key_hash_field (m_header m))"
    using m(3) mo by (cases c) (simp add: meta_ok_def)
  ultimately have "c \<in> set (candidates fp tokens minimum (s_records s))"
    using m(2) mo pre(2) by (force simp: candidates_def usable_def meta_ok_def)
  moreover have "key_hash fp (take (fst c) tokens) = snd c"
    using pre(1) m(2,3) mo by (simp add: usable_def meta_ok_def)
  ultimately show ?L using m pre(1) by (auto simp: matches_def)
qed

lemma longest_prefix_cases:
  assumes ok: "index_off off s"
  shows "(\<exists>s'. longest_prefix now fp tokens minimum s = (None, s') \<and> s_records s' = s_records s
       \<and> (\<forall>k m. map_of (s_records s) k = Some m \<longrightarrow> \<not> usable fp tokens minimum m)
       \<and> s' = count_stat lookup_count_update s)
    \<or> (\<exists>k m. map_of (s_records s) k = Some m \<and> usable fp tokens minimum m
       \<and> (\<forall>k' m'. map_of (s_records s) k' = Some m' \<longrightarrow> usable fp tokens minimum m' \<longrightarrow>
            length (m_tokens m') \<le> length (m_tokens m))
       \<and> longest_prefix now fp tokens minimum s =
           (Some \<lparr>r_header = m_header m, r_path = m_path m, r_tokens = m_tokens m\<rparr>,
            count_stat active_reader_count_update (count_stat hit_count_update
              ((count_stat lookup_count_update s)\<lparr>s_records := AList.update k (pin now m) (s_records s)\<rparr>))))"
proof (cases "first_match fp tokens (s_records s) (candidates fp tokens minimum (s_records s))")
  case None
  then have "\<not> usable fp tokens minimum m" if "map_of (s_records s) k = Some m" for k m
    using candidates_matches [OF ok, of "(length (m_tokens m), k)" fp tokens minimum] that
    by (auto simp: first_match_None)
  with None show ?thesis by (simp add: longest_prefix_def)
next
  case (Some k)
  from first_match_Some [OF Some candidates_sorted] obtain n where
    "(n, k) \<in> set (candidates fp tokens minimum (s_records s))" "matches fp tokens (s_records s) (n, k)"
    and best: "\<forall>c \<in> set (candidates fp tokens minimum (s_records s)). matches fp tokens (s_records s) c \<longrightarrow> fst c \<le> n"
    by blast
  then obtain m where m: "map_of (s_records s) k = Some m" "usable fp tokens minimum m" "n = length (m_tokens m)"
    using candidates_matches [OF ok, of "(n, k)" fp tokens minimum] by auto
  have "length (m_tokens m') \<le> length (m_tokens m)"
    if "map_of (s_records s) k' = Some m'" "usable fp tokens minimum m'" for k' m'
    using candidates_matches [OF ok, of "(length (m_tokens m'), k')" fp tokens minimum] that best m(3) by fastforce
  with m Some show ?thesis by (auto simp: longest_prefix_def)
qed

section \<open>Expiry\<close>

definition expired :: "store_config \<Rightarrow> nat \<Rightarrow> record_meta \<Rightarrow> bool" where
  "expired cfg now m \<longleftrightarrow> m_active_readers m = 0
     \<and> saturating_add64 (m_last_used_unix m) (c_ttl_seconds cfg) < now"

lemma expire_all_spec:
  assumes "index_off off s" and "expire_all hashes s = (s', paths)"
  shows "index_off off s' \<and> (\<forall>k. map_of (s_records s') k = (if k \<in> set hashes then None else map_of (s_records s) k))
    \<and> s_reserved_bytes s' = s_reserved_bytes s \<and> s_reserved_hashes s' = s_reserved_hashes s
    \<and> s_resident s' = s_resident s \<and> s_outstanding s' = s_outstanding s \<and> s_removed s' = s_removed s
    \<and> s_committed_bytes s' \<le> s_committed_bytes s
    \<and> set paths = {m_path m | k m. k \<in> set hashes \<and> map_of (s_records s) k = Some m}"
  using assms
proof (induction hashes s arbitrary: paths rule: expire_all.induct)
  case (1 s)
  then show ?case by simp
next
  case (2 h hs s)
  show ?case
  proof (cases "map_of (s_records s) h")
    case None
    with 2(4) have "expire_all hs s = (s', paths)" by simp
    from 2(1) [OF None 2(3) this] None show ?thesis by auto
  next
    case (Some m)
    let ?s1 = "count_stat expiry_eviction_count_update (remove_record h m s)"
    from Some 2(4) obtain ps where ps: "expire_all hs ?s1 = (s', ps)" "paths = m_path m # ps"
      by (auto split: prod.splits)
    have ok: "index_off off ?s1" using remove_record_ok [OF 2(3) Some] by simp
    have recs: "map_of (s_records ?s1) k = (if k = h then None else map_of (s_records s) k)" for k
      by (simp add: remove_record_def map_of_delete_if)
    note IH = 2(2) [OF Some ok ps(1)]
    have "set ps = {m_path m' | k m'. k \<in> set hs \<and> map_of (s_records ?s1) k = Some m'}"
      using IH by blast
    also have "\<dots> = {m_path m' | k m'. k \<in> set hs \<and> k \<noteq> h \<and> map_of (s_records s) k = Some m'}"
      unfolding recs by (metis (no_types, opaque_lifting) option.distinct(1))
    finally have "set paths = {m_path m' | k m'. k \<in> set (h # hs) \<and> map_of (s_records s) k = Some m'}"
      using Some by (fastforce simp: ps(2))
    moreover have "s_committed_bytes s' \<le> s_committed_bytes s - m_file_bytes m"
      using IH by (simp add: remove_record_def)
    then have "s_committed_bytes s' \<le> s_committed_bytes s" by (rule order_trans) simp
    ultimately show ?thesis using IH recs Some by (simp add: remove_record_def)
  qed
qed

lemma expired_hashes_iff:
  assumes "index_off off s"
  shows "k \<in> set (expired_hashes cfg now (s_records s)) \<longleftrightarrow>
    (\<exists>m. map_of (s_records s) k = Some m \<and> expired cfg now m)"
proof -
  have "k \<in> set (expired_hashes cfg now (s_records s)) \<longleftrightarrow>
      (\<exists>k' m. map_of (s_records s) k' = Some m \<and> expired cfg now m \<and> key_hash_field (m_header m) = k)"
    using assms by (force simp: expired_hashes_def expired_def index_off_def)
  also have "\<dots> \<longleftrightarrow> (\<exists>m. map_of (s_records s) k = Some m \<and> expired cfg now m)"
    using index_okD(1) [OF assms] unfolding meta_ok_def by metis
  finally show ?thesis .
qed

section \<open>Prewarming\<close>

lemma set_prewarm_sort: "mset (prewarm_sort ms) = mset ms"
proof -
  have ins: "mset (prewarm_insert m ns) = add_mset m (mset ns)" for m ns
    by (induction m ns rule: prewarm_insert.induct) auto
  show ?thesis by (induction ms) (auto simp: prewarm_sort_def ins)
qed

lemma prewarm_sorted: "sorted_wrt (\<lambda>a b. \<not> prewarm_before b a) (prewarm_sort ms)"
proof -
  have trans: "\<not> prewarm_before b a \<Longrightarrow> \<not> prewarm_before c b \<Longrightarrow> \<not> prewarm_before c a" for a b c
    by (auto simp: prewarm_before_def)
  have asym: "prewarm_before a b \<Longrightarrow> \<not> prewarm_before b a" for a b
    by (auto simp: prewarm_before_def)
  have mset_ins: "set (prewarm_insert m ns) = insert m (set ns)" for m ns
    by (induction m ns rule: prewarm_insert.induct) auto
  have "sorted_wrt (\<lambda>a b. \<not> prewarm_before b a) (prewarm_insert m ns)"
    if "sorted_wrt (\<lambda>a b. \<not> prewarm_before b a) ns" for m ns
    using that
  proof (induction m ns rule: prewarm_insert.induct)
    case (2 m n ns)
    show ?case
    proof (cases "prewarm_before n m")
      case True
      then have "\<not> prewarm_before m n" by (rule asym)
      with True 2 show ?thesis by (simp add: mset_ins)
    next
      case False
      have "\<not> prewarm_before x m" if "x \<in> set ns" for x
        using trans [OF False] 2(2) that by simp
      with False 2(2) show ?thesis by simp
    qed
  qed simp
  then show ?thesis by (induction ms) (auto simp: prewarm_sort_def)
qed

lemma prewarm_select_spec:
  "\<exists>sel. subseq sel ms \<and> prewarm_select remaining ms = map (\<lambda>m. (m_tokens m, has_hidden m, m_file_bytes m)) sel
     \<and> sum_list (map m_file_bytes sel) \<le> remaining
     \<and> (\<forall>m. count (mset sel) m < count (mset ms) m \<longrightarrow> remaining < sum_list (map m_file_bytes sel) + m_file_bytes m)"
proof (induction remaining ms rule: prewarm_select.induct)
  case (1 remaining)
  then show ?case by (intro exI [of _ "[]"]) simp
next
  case (2 remaining m ms)
  show ?case
  proof (cases "m_file_bytes m > remaining")
    case True
    with 2(1) obtain sel where sel: "subseq sel ms" "prewarm_select remaining ms = map (\<lambda>m. (m_tokens m, has_hidden m, m_file_bytes m)) sel"
      "sum_list (map m_file_bytes sel) \<le> remaining"
      "\<forall>x. count (mset sel) x < count (mset ms) x \<longrightarrow> remaining < sum_list (map m_file_bytes sel) + m_file_bytes x"
      by blast
    have "remaining < sum_list (map m_file_bytes sel) + m_file_bytes x"
      if "count (mset sel) x < count (mset (m # ms)) x" for x
      using that True sel(4) by (cases "x = m") auto
    with True sel show ?thesis by (intro exI [of _ sel]) auto
  next
    case False
    with 2(2) obtain sel where sel: "subseq sel ms"
      "prewarm_select (remaining - m_file_bytes m) ms = map (\<lambda>m. (m_tokens m, has_hidden m, m_file_bytes m)) sel"
      "sum_list (map m_file_bytes sel) \<le> remaining - m_file_bytes m"
      "\<forall>x. count (mset sel) x < count (mset ms) x \<longrightarrow>
        remaining - m_file_bytes m < sum_list (map m_file_bytes sel) + m_file_bytes x"
      by blast
    have "remaining < sum_list (map m_file_bytes (m # sel)) + m_file_bytes x"
      if "count (mset (m # sel)) x < count (mset (m # ms)) x" for x
      using that sel(4) by (auto split: if_splits)
    with False sel show ?thesis by (intro exI [of _ "m # sel"]) auto
  qed
qed

lemma enforce_capacity_keeps:
  assumes "index_off off s"
  shows "\<exists>ok s'. enforce_capacity_for cfg incoming s = Some (ok, s') \<and> index_off off s'
    \<and> s_reserved_bytes s' = s_reserved_bytes s \<and> s_reserved_hashes s' = s_reserved_hashes s
    \<and> s_outstanding s' = s_outstanding s \<and> (ok \<longrightarrow> fits (c_capacity_bytes cfg) incoming s')"
proof -
  obtain s1 paths ex where run:
    "enforce_loop (Suc (length (s_records s))) (c_capacity_bytes cfg) incoming s = Some (s1, paths, ex)"
    and spec: "index_off off s1" "evicted_lru s s1" "ex \<longleftrightarrow> \<not> fits (c_capacity_bytes cfg) incoming s1"
    using enforce_loop_spec [OF assms, of "Suc (length (s_records s))" "c_capacity_bytes cfg" incoming] by blast
  have "enforce_capacity_for cfg incoming s = Some (\<not> ex, discard paths s1)"
    by (simp add: enforce_capacity_for_def run del: enforce_loop.simps)
  with spec show ?thesis by (simp add: evicted_lru_def discard_def fits_def)
qed

section \<open>Properties of the index\<close>

text \<open>A store with one record, used by the witnesses.\<close>

definition sample_meta :: "nat \<Rightarrow> nat \<Rightarrow> record_meta" where
  "sample_meta used readers =
     \<lparr>m_header = sample_layout\<lparr>key_hash_field := key_hash (replicate 32 7) [1, 2], token_count := 2\<rparr>,
      m_tokens = [1, 2], m_path = ''r'', m_file_bytes = 20480, m_last_used_unix = used, m_active_readers = readers\<rparr>"

definition sample_store :: "nat \<Rightarrow> nat \<Rightarrow> prefix_store" where
  "sample_store used readers = empty_store\<lparr>s_committed_bytes := 20480,
     s_records := [(key_hash (replicate 32 7) [1, 2], sample_meta used readers)]\<rparr>"

definition sample_config :: store_config where
  "sample_config = \<lparr>c_root = ''/s'', c_capacity_bytes = 30000, c_ttl_seconds = 60,
     c_minimum_token_count = 1, c_resident_capacity_bytes = 40960\<rparr>"

lemma sample_store_ok: "index_ok (sample_store used readers)"
  by (simp add: index_off_def sample_store_def sample_meta_def meta_ok_def sample_layout_def empty_store_def)

text \<open>
  C31: a lookup returns a stored record whose tokens are an exact prefix of the request, under the
  requested fingerprint and with at least the requested length, and no stored record with these
  properties is longer; the record is pinned once more and marked as just used. It misses only when
  no such record is stored, and a miss changes no record. Hash collisions cannot change the answer.
\<close>

theorem longest_prefix_exact:
  assumes "index_ok s"
  shows "case longest_prefix now fp tokens minimum s of
      (None, s') \<Rightarrow> s_records s' = s_records s
        \<and> (\<forall>k m. map_of (s_records s) k = Some m \<longrightarrow> \<not> usable fp tokens minimum m)
    | (Some r, s') \<Rightarrow>
        (\<exists>m. map_of (s_records s) (key_hash_field (r_header r)) = Some m \<and> usable fp tokens minimum m
          \<and> r_tokens r = m_tokens m \<and> r_header r = m_header m \<and> r_path r = m_path m
          \<and> (\<forall>k' m'. map_of (s_records s) k' = Some m' \<longrightarrow> usable fp tokens minimum m' \<longrightarrow>
               length (m_tokens m') \<le> length (r_tokens r))
          \<and> (\<forall>k. map_of (s_records s') k =
               (if k = key_hash_field (r_header r)
                then Some (m\<lparr>m_active_readers := m_active_readers m + 1, m_last_used_unix := now\<rparr>)
                else map_of (s_records s) k)))
        \<and> index_ok s'"
  using longest_prefix_cases [OF assms, of now fp tokens minimum]
proof (elim disjE exE conjE)
  fix s'
  assume "longest_prefix now fp tokens minimum s = (None, s')" "s_records s' = s_records s"
    "\<forall>k m. map_of (s_records s) k = Some m \<longrightarrow> \<not> usable fp tokens minimum m"
  then show ?thesis by simp
next
  fix k m
  assume m: "map_of (s_records s) k = Some m" "usable fp tokens minimum m"
    and best: "\<forall>k' m'. map_of (s_records s) k' = Some m' \<longrightarrow> usable fp tokens minimum m' \<longrightarrow>
            length (m_tokens m') \<le> length (m_tokens m)"
    and run: "longest_prefix now fp tokens minimum s =
           (Some \<lparr>r_header = m_header m, r_path = m_path m, r_tokens = m_tokens m\<rparr>,
            count_stat active_reader_count_update (count_stat hit_count_update
              ((count_stat lookup_count_update s)\<lparr>s_records := AList.update k (pin now m) (s_records s)\<rparr>)))"
  have mo: "meta_ok k m" by (rule index_okD(1) [OF assms m(1)])
  then have k: "key_hash_field (m_header m) = k" and pinned: "meta_ok k (pin now m)"
    by (simp_all add: meta_ok_def pin_def)
  have "index_ok (s\<lparr>s_records := AList.update k (pin now m) (s_records s)\<rparr>)"
    by (rule update_record_ok [OF assms m(1) pinned]) (simp add: pin_def)
  with m best k show ?thesis unfolding run by (simp add: map_of_update_if pin_def)
qed

theorem longest_prefix_exact_witness:
  "\<exists>r s'. longest_prefix 9 (replicate 32 7) [1, 2, 3] 1 (sample_store 5 0) = (Some r, s') \<and> r_tokens r = [1, 2]"
proof -
  have rec: "map_of (s_records (sample_store 5 0)) (key_hash (replicate 32 7) [1, 2]) = Some (sample_meta 5 0)"
    by (simp add: sample_store_def)
  have use: "usable (replicate 32 7) [1, 2, 3] 1 (sample_meta 5 0)"
    by (simp add: usable_def sample_meta_def sample_layout_def)
  have one: "map_of (s_records (sample_store 5 0)) k = Some m \<Longrightarrow> m = sample_meta 5 0" for k m
    by (simp add: sample_store_def split: if_splits)
  obtain ro s' where run: "longest_prefix 9 (replicate 32 7) [1, 2, 3] 1 (sample_store 5 0) = (ro, s')"
    by (cases "longest_prefix 9 (replicate 32 7) [1, 2, 3] 1 (sample_store 5 0)") auto
  note exact = longest_prefix_exact [OF sample_store_ok [of 5 0], where now = 9 and fp = "replicate 32 7" and tokens = "[1, 2, 3]" and minimum = 1, unfolded run]
  then obtain r where r: "ro = Some r" using rec use by (cases ro) auto
  with exact one have "r_tokens r = m_tokens (sample_meta 5 0)" by auto
  then show ?thesis using run r by (simp add: sample_meta_def)
qed

text \<open>
  reclaiming removes exactly the records without active readers whose last use plus the
  time-to-live lies before the given time; every other record stays untouched, the byte accounting
  stays exact, and the files and resident copies of exactly the removed records are dropped.
\<close>

theorem reclaim_expired_exact:
  assumes "index_ok s"
  shows "index_ok (reclaim_expired cfg now s)
    \<and> (\<forall>k. map_of (s_records (reclaim_expired cfg now s)) k =
        (case map_of (s_records s) k of None \<Rightarrow> None
         | Some m \<Rightarrow> if m_active_readers m = 0 \<and> saturating_add64 (m_last_used_unix m) (c_ttl_seconds cfg) < now
                    then None else Some m))
    \<and> (\<exists>paths. s_removed (reclaim_expired cfg now s) = s_removed s @ paths
        \<and> set paths = {m_path m | k m. map_of (s_records s) k = Some m \<and> expired cfg now m})"
proof -
  obtain s' paths where run: "expire_all (expired_hashes cfg now (s_records s)) s = (s', paths)"
    by (cases "expire_all (expired_hashes cfg now (s_records s)) s") auto
  note spec = expire_all_spec [OF assms run]
  have eq: "reclaim_expired cfg now s = discard paths s'" by (simp add: reclaim_expired_def run)
  have "index_ok (discard paths s')" using spec by (simp add: discard_def)
  moreover have "map_of (s_records (discard paths s')) k =
        (case map_of (s_records s) k of None \<Rightarrow> None
         | Some m \<Rightarrow> if m_active_readers m = 0 \<and> saturating_add64 (m_last_used_unix m) (c_ttl_seconds cfg) < now
                    then None else Some m)" for k
    using spec expired_hashes_iff [OF assms, of k cfg now]
    by (auto simp: discard_def expired_def split: option.splits)
  moreover have "s_removed (discard paths s') = s_removed s @ paths" using spec by (simp add: discard_def)
  moreover have "set paths = {m_path m | k m. map_of (s_records s) k = Some m \<and> expired cfg now m}"
  proof -
    have "set paths = {m_path m | k m. k \<in> set (expired_hashes cfg now (s_records s)) \<and> map_of (s_records s) k = Some m}"
      using spec by blast
    then show ?thesis unfolding expired_hashes_iff [OF assms] by force
  qed
  ultimately show ?thesis unfolding eq by blast
qed

theorem reclaim_expired_exact_witness:
  "s_records (reclaim_expired sample_config 100 (sample_store 5 0)) = []
   \<and> s_removed (reclaim_expired sample_config 100 (sample_store 5 0)) = [''r'']"
proof -
  have "map_of (s_records (reclaim_expired sample_config 100 (sample_store 5 0))) k = None" for k
    using reclaim_expired_exact [OF sample_store_ok, of sample_config 100 5 0]
    by (simp add: sample_store_def sample_meta_def sample_config_def saturating_add64_def u64_max_def
        split: option.splits if_splits)
  then have "s_records (reclaim_expired sample_config 100 (sample_store 5 0)) = []"
    by (metis list.set_intros(1) map_of_eq_None_iff image_eqI list.exhaust prod.collapse empty_iff list.set(1))
  then show ?thesis
    by (simp add: reclaim_expired_def expired_hashes_def sample_store_def sample_meta_def sample_config_def
        saturating_add64_def u64_max_def sample_layout_def empty_store_def discard_def remove_record_def)
qed

text \<open>
  C32: enforcing the capacity always terminates. Afterwards committed, reserved and incoming bytes
  fit the budget, or the call reports failure and every remaining record has an active reader.
  Records with active readers survive, survivors are unchanged, an evicted record is never more
  recently used than an idle survivor, nothing is evicted when the bytes fit already, and the byte
  accounting stays exact.
\<close>

theorem enforce_capacity_lru:
  assumes "index_ok s"
  shows "\<exists>ok s'. enforce_capacity_for cfg incoming s = Some (ok, s') \<and> index_ok s'
    \<and> (ok \<longleftrightarrow> s_committed_bytes s' + s_reserved_bytes s' + incoming \<le> c_capacity_bytes cfg \<or> c_capacity_bytes cfg = 0)
    \<and> (\<not> ok \<longrightarrow> (\<forall>k m. map_of (s_records s') k = Some m \<longrightarrow> 0 < m_active_readers m))
    \<and> (\<forall>k m. map_of (s_records s) k = Some m \<longrightarrow> 0 < m_active_readers m \<longrightarrow> map_of (s_records s') k = Some m)
    \<and> (\<forall>k m. map_of (s_records s') k = Some m \<longrightarrow> map_of (s_records s) k = Some m)
    \<and> (\<forall>k m k' m'. map_of (s_records s) k = Some m \<longrightarrow> map_of (s_records s') k = None \<longrightarrow>
        map_of (s_records s') k' = Some m' \<longrightarrow> m_active_readers m' = 0 \<longrightarrow> m_last_used_unix m \<le> m_last_used_unix m')
    \<and> (s_committed_bytes s + s_reserved_bytes s + incoming \<le> c_capacity_bytes cfg \<longrightarrow> s_records s' = s_records s)"
proof -
  obtain s1 paths ex where run:
    "enforce_loop (Suc (length (s_records s))) (c_capacity_bytes cfg) incoming s = Some (s1, paths, ex)"
    and spec: "index_ok s1" "evicted_lru s s1" "ex \<longleftrightarrow> \<not> fits (c_capacity_bytes cfg) incoming s1"
      "ex \<longrightarrow> (\<forall>k m. map_of (s_records s1) k = Some m \<longrightarrow> 0 < m_active_readers m)"
      "fits (c_capacity_bytes cfg) incoming s \<longrightarrow> s1 = s \<and> paths = []"
    using enforce_loop_spec [OF assms, of "Suc (length (s_records s))" "c_capacity_bytes cfg" incoming] by blast
  let ?s' = "discard paths s1"
  have same: "s_records ?s' = s_records s1" "s_committed_bytes ?s' = s_committed_bytes s1"
    "s_reserved_bytes ?s' = s_reserved_bytes s1" "index_ok ?s' = index_ok s1"
    by (simp_all add: discard_def)
  have keep: "map_of (s_records s1) k = Some m"
    if "map_of (s_records s) k = Some m" "0 < m_active_readers m" for k m
  proof (cases "map_of (s_records s1) k")
    case None
    then show ?thesis using spec(2) that unfolding evicted_lru_def by (metis less_irrefl)
  next
    case (Some m')
    then show ?thesis using spec(2) that unfolding evicted_lru_def by (metis option.inject)
  qed
  have sub: "map_of (s_records s1) k = Some m \<Longrightarrow> map_of (s_records s) k = Some m" for k m
    using spec(2) unfolding evicted_lru_def by blast
  have order: "m_last_used_unix m \<le> m_last_used_unix m'"
    if "map_of (s_records s) k = Some m" "map_of (s_records s1) k = None"
      "map_of (s_records s1) k' = Some m'" "m_active_readers m' = 0" for k m k' m'
  proof -
    have "\<not> older m' m" using spec(2) that unfolding evicted_lru_def by blast
    then show ?thesis by (auto simp: older_def)
  qed
  have "enforce_capacity_for cfg incoming s = Some (\<not> ex, ?s')"
    by (simp add: enforce_capacity_for_def run del: enforce_loop.simps)
  moreover have "(\<not> ex) \<longleftrightarrow> s_committed_bytes s1 + s_reserved_bytes s1 + incoming \<le> c_capacity_bytes cfg \<or> c_capacity_bytes cfg = 0"
    using spec(3) by (simp add: fits_def)
  moreover have "s_committed_bytes s + s_reserved_bytes s + incoming \<le> c_capacity_bytes cfg \<longrightarrow> s_records s1 = s_records s"
    using spec(5) by (auto simp: fits_def)
  ultimately show ?thesis
    using spec(1,4) keep sub order unfolding same(1-3) [symmetric] same(4) [symmetric]
    by (intro exI [of _ "\<not> ex"] exI [of _ ?s'] conjI) blast+
qed

theorem enforce_capacity_lru_witness:
  "\<exists>s'. enforce_capacity_for sample_config 10000 (sample_store 5 1) = Some (False, s')
     \<and> s_records s' = s_records (sample_store 5 1)"
proof -
  obtain ok s' where run: "enforce_capacity_for sample_config 10000 (sample_store 5 1) = Some (ok, s')"
    and iff: "ok \<longleftrightarrow> s_committed_bytes s' + s_reserved_bytes s' + 10000 \<le> c_capacity_bytes sample_config
      \<or> c_capacity_bytes sample_config = 0"
    using enforce_capacity_lru [OF sample_store_ok, of sample_config 10000 5 1] by blast
  have "s_committed_bytes s' + s_reserved_bytes s' = 20480 \<and> s_records s' = s_records (sample_store 5 1)"
    using run by (auto simp: enforce_capacity_for_def sample_store_def sample_config_def empty_store_def
        victim_def sample_meta_def discard_def)
  moreover from this iff have "ok = False" by (simp add: sample_config_def)
  ultimately show ?thesis using run by blast
qed

text \<open>
  The prewarm candidates are taken in priority order (most recent use, then records with a
  hidden region, then longer prefixes) from the records with the requested fingerprint, their sizes
  never add up to more than the budget, and a record that was left out would not have fitted into
  what is left of a non-zero budget.
\<close>

lemma prewarm_within_budget:
  "\<exists>order sel. mset order = mset (filter (\<lambda>m. fingerprint (m_header m) = fp) (map snd (s_records s)))
     \<and> sorted_wrt (\<lambda>a b. \<not> prewarm_before b a) order \<and> subseq sel order
     \<and> prewarm_candidates fp capacity s = map (\<lambda>m. (m_tokens m, has_hidden m, m_file_bytes m)) sel
     \<and> sum_list (map m_file_bytes sel) \<le> capacity
     \<and> (capacity \<noteq> 0 \<longrightarrow> (\<forall>m. count (mset sel) m < count (mset order) m \<longrightarrow>
          capacity < sum_list (map m_file_bytes sel) + m_file_bytes m))"
proof -
  let ?order = "prewarm_sort (filter (\<lambda>m. fingerprint (m_header m) = fp) (map snd (s_records s)))"
  obtain sel where sel: "subseq sel ?order"
    "prewarm_select capacity ?order = map (\<lambda>m. (m_tokens m, has_hidden m, m_file_bytes m)) sel"
    "sum_list (map m_file_bytes sel) \<le> capacity"
    "\<forall>m. count (mset sel) m < count (mset ?order) m \<longrightarrow> capacity < sum_list (map m_file_bytes sel) + m_file_bytes m"
    using prewarm_select_spec [of ?order capacity] by blast
  show ?thesis
  proof (cases "capacity = 0")
    case True
    then show ?thesis
      by (intro exI [of _ ?order] exI [of _ "[]"])
        (simp add: prewarm_candidates_def set_prewarm_sort prewarm_sorted)
  next
    case False
    with sel show ?thesis
      by (intro exI [of _ ?order] exI [of _ sel])
        (simp add: prewarm_candidates_def set_prewarm_sort prewarm_sorted)
  qed
qed

text \<open>
  \<open>begin_capture\<close> is all or nothing. It always returns. When it rejects a capture, for whatever
  reason, no reserved byte, no reserved hash and no writer permit is left behind. When it accepts
  one, it has reserved exactly the planned file size and the hash, holds one permit out of two, and
  committed and reserved bytes fit the capacity; the hash was not reserved before. The index stays
  consistent either way.
\<close>

theorem begin_capture_all_or_nothing:
  assumes "index_ok s"
  shows "\<exists>r s'. begin_capture cfg alloc_ok fp tokens regs s = Some (r, s') \<and> index_ok s'
    \<and> (case r of
         Inl e \<Rightarrow> s_reserved_bytes s' = s_reserved_bytes s \<and> s_outstanding s' = s_outstanding s
                \<and> s_reserved_hashes s' = s_reserved_hashes s
       | Inr w \<Rightarrow> plan_capture cfg fp tokens regs = Inr (w_header w) \<and> w = stage (w_header w) tokens
                \<and> s_reserved_bytes s' = s_reserved_bytes s + file_bytes (w_header w)
                \<and> key_hash fp tokens \<notin> s_reserved_hashes s
                \<and> s_reserved_hashes s' = insert (key_hash fp tokens) (s_reserved_hashes s)
                \<and> s_outstanding s' = s_outstanding s + 1 \<and> s_outstanding s' \<le> 2
                \<and> s_committed_bytes s' + s_reserved_bytes s' \<le> c_capacity_bytes cfg)"
proof (cases "plan_capture cfg fp tokens regs")
  case (Inl e)
  with assms(1) show ?thesis by (simp add: begin_capture_def)
next
  case plan: (Inr h)
  have hash: "key_hash_field h = key_hash fp tokens" and cap: "c_capacity_bytes cfg \<noteq> 0"
    using plan by (auto simp: plan_capture_def bind_result_eq_Inr map_err_eq_Inr ensure_def layout_def split: if_splits prod.splits)
  show ?thesis
  proof (cases "s_outstanding s < MAX_OUTSTANDING_COMMITS")
    case False
    with plan assms(1) show ?thesis by (simp add: begin_capture_def try_acquire_def)
  next
    case slot: True
    let ?s1 = "s\<lparr>s_outstanding := s_outstanding s + 1\<rparr>"
    obtain new s2 where res: "reserve h tokens ?s1 = (new, s2)" by (cases "reserve h tokens ?s1")
    show ?thesis
    proof (cases new)
      case False
      with res have "s2 = ?s1" by (auto simp: reserve_def Let_def split: if_splits)
      with False res plan slot assms(1) show ?thesis by (simp add: begin_capture_def try_acquire_def drop_permit_def)
    next
      case new: True
      then have s2: "key_hash fp tokens \<notin> s_reserved_hashes s" "index_ok s2"
        "s_reserved_bytes s2 = s_reserved_bytes s + file_bytes h" "s_outstanding s2 = s_outstanding s + 1"
        "s_reserved_hashes s2 = insert (key_hash fp tokens) (s_reserved_hashes s)"
        using res assms(1) hash by (auto simp: reserve_def Let_def split: if_splits)
      obtain ok s3 where enf: "enforce_capacity_for cfg 0 s2 = Some (ok, s3)" "index_ok s3"
        "s_reserved_bytes s3 = s_reserved_bytes s2" "s_reserved_hashes s3 = s_reserved_hashes s2"
        "s_outstanding s3 = s_outstanding s2" "ok \<longrightarrow> fits (c_capacity_bytes cfg) 0 s3"
        using enforce_capacity_keeps [OF s2(2), of cfg 0] by blast
      show ?thesis
      proof (cases "ok \<and> alloc_ok")
        case True
        with plan slot res new enf s2 cap show ?thesis
          by (simp add: begin_capture_def try_acquire_def fits_def MAX_OUTSTANDING_COMMITS_def stage_def)
      next
        case False
        then have "begin_capture cfg alloc_ok fp tokens regs s =
            Some (Inl (if ok then AllocationFailure else InsufficientCapacity), drop_permit (cancel_reservation h s3))"
          using plan slot res new enf(1) by (auto simp: begin_capture_def try_acquire_def split: bool.splits)
        with enf s2 hash show ?thesis
          by (simp add: drop_permit_def cancel_reservation_def release_reservation_def)
      qed
    qed
  qed
qed

theorem begin_capture_all_or_nothing_witness:
  "\<exists>s'. begin_capture sample_config True (replicate 32 7) [1, 2] sample_regions (sample_store 5 0)
     = Some (Inl AlreadyStored, s') \<and> s_reserved_bytes s' = 0 \<and> s_outstanding s' = 0"
proof -
  have plan: "\<exists>h. plan_capture sample_config (replicate 32 7) [1, 2] sample_regions = Inr h
      \<and> key_hash_field h = key_hash (replicate 32 7) [1, 2]"
    by (simp add: plan_capture_def sample_config_def layout_def sample_regions_def ensure_def validate_region_name_def
        is_ascii_graphic_def MAX_REGIONS_def MAX_REGION_NAME_BYTES_def checked_mul_def checked_add_def
        checked_mul64_def checked_add64_def align_up_def HEADER_BYTES_def ALIGNMENT_def u64_max_def)
  then have run: "\<exists>s'. begin_capture sample_config True (replicate 32 7) [1, 2] sample_regions (sample_store 5 0)
      = Some (Inl AlreadyStored, s')"
    by (auto simp: begin_capture_def try_acquire_def reserve_def Let_def sample_store_def sample_meta_def empty_store_def
        MAX_OUTSTANDING_COMMITS_def)
  have "s_reserved_bytes (sample_store 5 0) = 0" "s_outstanding (sample_store 5 0) = 0"
    by (simp_all add: sample_store_def empty_store_def)
  with run begin_capture_all_or_nothing [OF sample_store_ok [of 5 0], of sample_config True "replicate 32 7" "[1, 2]" sample_regions]
  show ?thesis by auto
qed

end
