(* ===== verification/PrefixConcurrency.thy ===== *)
theory PrefixConcurrency
  imports PrefixIndex
begin

text \<open>
  The prefix store under concurrent use. A state is the store, the captures in flight with the stage
  each has reached, the open readers, the paths still to be deleted by threads that have left the
  critical section, and the threads of the resident tier. A step is one critical section, so any
  interleaving of \<open>begin_capture\<close>, \<open>commit\<close>, \<open>commit_async\<close>, the background writer, lookups, expiry
  and integrity eviction is a sequence of steps. A run starts with the scan of any directory.
\<close>

section \<open>Steps\<close>

text \<open>
  A capture holds a writer permit from \<open>Admitted\<close> to \<open>Closing\<close>, and a reservation from \<open>Pending\<close>
  until it is committed or released. \<open>Pending\<close> has not yet passed the capacity check, \<open>Failed\<close> has
  failed it and not yet rolled back.
\<close>

datatype flight =
    Admitted record_header "u32 list"
  | Pending record_header "u32 list"
  | Failed record_header "u32 list"
  | Ready record_header "u32 list"
  | Open record_writer
  | Job prepared_commit
  | Closing

record store_system =
  y_store :: prefix_store
  y_flights :: "flight list"
  y_readers :: "record_reader list"
  y_victims :: "path list"
  y_threads :: "nat \<Rightarrow> thread"
  y_clean :: bool

abbreviation reader_key :: "record_reader \<Rightarrow> u64" where
  "reader_key r \<equiv> key_hash_field (r_header r)"

text \<open>
  \<open>y_clean\<close> records that no record with an active reader has been dropped by an integrity eviction
  or replaced by a commit under a colliding hash.
\<close>

definition unpinned :: "prefix_store \<Rightarrow> u64 \<Rightarrow> bool" where
  "unpinned s k \<longleftrightarrow> (case map_of (s_records s) k of None \<Rightarrow> True | Some m \<Rightarrow> m_active_readers m = 0)"

inductive store_step :: "store_config \<Rightarrow> (byte list \<Rightarrow> u32) \<Rightarrow> store_system \<Rightarrow> store_system \<Rightarrow> bool"
  for cfg crc where
  admit: "\<lbrakk>plan_capture cfg fp tokens regs = Inr h; length fp = 32; try_acquire (y_store y) = (True, s)\<rbrakk>
    \<Longrightarrow> store_step cfg crc y (y\<lparr>y_store := s, y_flights := Admitted h tokens # y_flights y\<rparr>)"
| busy: "try_acquire (y_store y) = (False, s) \<Longrightarrow> store_step cfg crc y (y\<lparr>y_store := s\<rparr>)"
| reserve: "\<lbrakk>y_flights y = xs @ Admitted h tokens # ys; reserve h tokens (y_store y) = (ok, s)\<rbrakk>
    \<Longrightarrow> store_step cfg crc y
          (y\<lparr>y_store := s, y_flights := xs @ (if ok then Pending h tokens else Closing) # ys\<rparr>)"
| check: "\<lbrakk>y_flights y = xs @ Pending h tokens # ys;
      enforce_loop (Suc (length (s_records (y_store y)))) (c_capacity_bytes cfg) 0 (y_store y) = Some (s, paths, full)\<rbrakk>
    \<Longrightarrow> store_step cfg crc y
          (y\<lparr>y_store := s, y_victims := y_victims y @ paths,
             y_flights := xs @ (if full then Failed h tokens else Ready h tokens) # ys\<rparr>)"
| delete: "y_victims y = ps @ p # qs
    \<Longrightarrow> store_step cfg crc y (y\<lparr>y_store := discard [p] (y_store y), y_victims := ps @ qs\<rparr>)"
| rollback: "y_flights y = xs @ Failed h tokens # ys
    \<Longrightarrow> store_step cfg crc y (y\<lparr>y_store := cancel_reservation h (y_store y), y_flights := xs @ Closing # ys\<rparr>)"
| allocated: "y_flights y = xs @ Ready h tokens # ys
    \<Longrightarrow> store_step cfg crc y (y\<lparr>y_flights := xs @ Open (stage h tokens) # ys\<rparr>)"
| not_allocated: "y_flights y = xs @ Ready h tokens # ys
    \<Longrightarrow> store_step cfg crc y (y\<lparr>y_store := cancel_reservation h (y_store y), y_flights := xs @ Closing # ys\<rparr>)"
| fill: "\<lbrakk>y_flights y = xs @ Open w # ys; fill_region i bs w = Some w'\<rbrakk>
    \<Longrightarrow> store_step cfg crc y (y\<lparr>y_flights := xs @ Open w' # ys\<rparr>)"
| cancelled: "y_flights y = xs @ Open w # ys
    \<Longrightarrow> store_step cfg crc y
          (y\<lparr>y_store := release_reservation (w_header w) (y_store y), y_flights := xs @ Closing # ys\<rparr>)"
| prepared: "\<lbrakk>y_flights y = xs @ Open w # ys; prepare crc promote w = Inr job\<rbrakk>
    \<Longrightarrow> store_step cfg crc y (y\<lparr>y_flights := xs @ Job job # ys\<rparr>)"
| commit_failed: "y_flights y = xs @ Job job # ys
    \<Longrightarrow> store_step cfg crc y
          (y\<lparr>y_store := cancel_reservation (p_header job) (y_store y), y_flights := xs @ Closing # ys\<rparr>)"
| readback_failed: "y_flights y = xs @ Job job # ys
    \<Longrightarrow> store_step cfg crc y
          (y\<lparr>y_store := cancel_reservation (p_header job) ((y_store y)\<lparr>s_removed := s_removed (y_store y)
                @ [record_path cfg (key_hash_field (p_header job))]\<rparr>), y_flights := xs @ Closing # ys\<rparr>)"
| install: "y_flights y = xs @ Job job # ys
    \<Longrightarrow> store_step cfg crc y
          (y\<lparr>y_store := install_record cfg now job (y_store y), y_flights := xs @ Closing # ys,
             y_clean := (y_clean y \<and> unpinned (y_store y) (key_hash_field (p_header job)))\<rparr>)"
| close: "y_flights y = xs @ Closing # ys
    \<Longrightarrow> store_step cfg crc y (y\<lparr>y_store := drop_permit (y_store y), y_flights := xs @ ys\<rparr>)"
| tier: "tier_step (c_resident_capacity_bytes cfg) (s_resident (y_store y), y_threads y) (t, th)
    \<Longrightarrow> store_step cfg crc y (y\<lparr>y_store := (y_store y)\<lparr>s_resident := t\<rparr>, y_threads := th\<rparr>)"
| hit: "longest_prefix now fp tokens minimum (y_store y) = (Some r, s)
    \<Longrightarrow> store_step cfg crc y (y\<lparr>y_store := s, y_readers := r # y_readers y\<rparr>)"
| miss: "longest_prefix now fp tokens minimum (y_store y) = (None, s)
    \<Longrightarrow> store_step cfg crc y (y\<lparr>y_store := s\<rparr>)"
| touched: "r \<in> set (y_readers y) \<Longrightarrow> store_step cfg crc y (y\<lparr>y_store := touch now r (y_store y)\<rparr>)"
| dropped: "y_readers y = xs @ r # ys
    \<Longrightarrow> store_step cfg crc y (y\<lparr>y_store := drop_reader r (y_store y), y_readers := xs @ ys\<rparr>)"
| expire: "expire_all (expired_hashes cfg now (s_records (y_store y))) (y_store y) = (s, paths)
    \<Longrightarrow> store_step cfg crc y (y\<lparr>y_store := s, y_victims := y_victims y @ paths\<rparr>)"
| integrity: "\<lbrakk>r \<in> set (y_readers y); map_of (s_records (y_store y)) (reader_key r) = Some m\<rbrakk>
    \<Longrightarrow> store_step cfg crc y
          (y\<lparr>y_store := count_stat integrity_eviction_count_update (remove_record (reader_key r) m (y_store y)),
             y_victims := y_victims y @ [m_path m], y_clean := (y_clean y \<and> m_active_readers m = 0)\<rparr>)"

text \<open>
  The store starts from a scan of its directory: \<open>entries\<close> are the files with the record extension, in
  directory order. \<open>scanned\<close> has the ones that hold valid records with their keys, and \<open>shadowed\<close> those of
  them that a later file with the same key replaces in the index.
\<close>

fun scanned :: "(path \<times> (io_error + record_header \<times> u32 list) \<times> nat) list \<Rightarrow> (u64 \<times> record_header \<times> u32 list) list" where
  "scanned [] = []"
| "scanned ((p, Inl e, mtime) # entries) = scanned entries"
| "scanned ((p, Inr (h, ts), mtime) # entries) =
     (if key_hash (fingerprint h) ts = key_hash_field h then (key_hash_field h, h, ts) # scanned entries
      else scanned entries)"

fun shadowed :: "(u64 \<times> record_header \<times> u32 list) list \<Rightarrow> record_header list" where
  "shadowed [] = []"
| "shadowed ((k, h, ts) # files) = (if k \<in> fst ` set files then h # shadowed files else shadowed files)"

text \<open>What reading a record file ensures: as many tokens as the header counts.\<close>

definition loaded_ok :: "(path \<times> (io_error + record_header \<times> u32 list) \<times> nat) list \<Rightarrow> bool" where
  "loaded_ok entries \<longleftrightarrow> (\<forall>(k, h, ts) \<in> set (scanned entries). token_count h = length ts)"

inductive store_reachable ::
  "store_config \<Rightarrow> (byte list \<Rightarrow> u32) \<Rightarrow> (path \<times> (io_error + record_header \<times> u32 list) \<times> nat) list \<Rightarrow> store_system \<Rightarrow> bool"
  for cfg crc entries where
  start: "open_store cfg entries = Some (True, s)
    \<Longrightarrow> store_reachable cfg crc entries \<lparr>y_store = s, y_flights = [], y_readers = [], y_victims = [],
          y_threads = (\<lambda>_. Idle), y_clean = True\<rparr>"
| step: "\<lbrakk>store_reachable cfg crc entries y; store_step cfg crc y y'\<rbrakk> \<Longrightarrow> store_reachable cfg crc entries y'"

section \<open>Accounting\<close>

fun held :: "flight \<Rightarrow> record_header list" where
  "held (Pending h ts) = [h]"
| "held (Failed h ts) = [h]"
| "held (Ready h ts) = [h]"
| "held (Open w) = [w_header w]"
| "held (Job job) = [p_header job]"
| "held _ = []"

fun not_checked :: "flight \<Rightarrow> record_header list" where
  "not_checked (Pending h ts) = [h]"
| "not_checked (Failed h ts) = [h]"
| "not_checked _ = []"

definition reservations :: "flight list \<Rightarrow> record_header list" where
  "reservations fs = concat (map held fs)"

definition bytes_of :: "record_header list \<Rightarrow> nat" where
  "bytes_of hs = sum_list (map file_bytes hs)"

definition planned :: "store_config \<Rightarrow> record_header \<Rightarrow> u32 list \<Rightarrow> bool" where
  "planned cfg h tokens \<longleftrightarrow> (\<exists>fp regs. plan_capture cfg fp tokens regs = Inr h \<and> length fp = 32)"

fun capture_ok :: "store_config \<Rightarrow> (byte list \<Rightarrow> u32) \<Rightarrow> flight \<Rightarrow> bool" where
  "capture_ok cfg crc (Open w) \<longleftrightarrow> writer_ok w \<and> planned cfg (w_header w) (w_tokens w)"
| "capture_ok cfg crc (Job job) \<longleftrightarrow>
     (\<exists>h. planned cfg h (p_tokens job) \<and> prepared_ok crc h (p_tokens job) job)"
| "capture_ok cfg crc (Admitted h ts) \<longleftrightarrow> planned cfg h ts"
| "capture_ok cfg crc (Pending h ts) \<longleftrightarrow> planned cfg h ts"
| "capture_ok cfg crc (Failed h ts) \<longleftrightarrow> planned cfg h ts"
| "capture_ok cfg crc (Ready h ts) \<longleftrightarrow> planned cfg h ts"
| "capture_ok cfg crc Closing \<longleftrightarrow> True"

definition accounts_ok :: "store_config \<Rightarrow> prefix_store \<Rightarrow> flight list \<Rightarrow> bool" where
  "accounts_ok cfg s fs \<longleftrightarrow>
     s_reserved_bytes s = bytes_of (reservations fs)
     \<and> s_reserved_hashes s = set (map key_hash_field (reservations fs))
     \<and> distinct (map key_hash_field (reservations fs))
     \<and> s_outstanding s = length fs \<and> length fs \<le> MAX_OUTSTANDING_COMMITS
     \<and> (c_capacity_bytes cfg \<noteq> 0 \<longrightarrow>
          s_committed_bytes s + s_reserved_bytes s \<le> c_capacity_bytes cfg + bytes_of (concat (map not_checked fs)))"

definition system_ok :: "nat \<Rightarrow> store_config \<Rightarrow> (byte list \<Rightarrow> u32) \<Rightarrow> store_system \<Rightarrow> bool" where
  "system_ok off cfg crc y \<longleftrightarrow> index_off off (y_store y) \<and> accounts_ok cfg (y_store y) (y_flights y)
     \<and> (\<forall>f \<in> set (y_flights y). capture_ok cfg crc f)"

lemma bytes_of_simps [simp]:
  "bytes_of [] = 0" "bytes_of (h # hs) = file_bytes h + bytes_of hs"
  "bytes_of (xs @ ys) = bytes_of xs + bytes_of ys"
  by (simp_all add: bytes_of_def)

lemma reservations_simps [simp]:
  "reservations [] = []" "reservations (f # fs) = held f @ reservations fs"
  "reservations (xs @ ys) = reservations xs @ reservations ys"
  by (simp_all add: reservations_def)

lemma planned_facts:
  assumes "planned cfg h tokens"
  shows "file_bytes h \<le> c_capacity_bytes cfg" "c_capacity_bytes cfg \<noteq> 0"
    "key_hash (fingerprint h) tokens = key_hash_field h" "token_count h = length tokens"
    "writer_ok (stage h tokens)"
proof -
  from assms obtain fp regs where lay: "layout fp (key_hash fp tokens) (length tokens) regs = Inr h" "length fp = 32"
    and cap: "file_bytes h \<le> c_capacity_bytes cfg" "c_capacity_bytes cfg \<noteq> 0"
    by (auto simp: planned_def plan_capture_def result_simps)
  show "file_bytes h \<le> c_capacity_bytes cfg" "c_capacity_bytes cfg \<noteq> 0" by (rule cap)+
  show "key_hash (fingerprint h) tokens = key_hash_field h" "token_count h = length tokens"
    using layout_Inr(1-3) [OF lay(1)] by simp_all
  show "writer_ok (stage h tokens)" by (rule stage_ok [OF lay])
qed

lemma capture_ok_held:
  assumes "capture_ok cfg crc f" and "h \<in> set (held f)"
  shows "file_bytes h \<le> c_capacity_bytes cfg" and "c_capacity_bytes cfg \<noteq> 0"
  using assms planned_facts(1,2) by (cases f; fastforce simp: prepared_ok_def)+

text \<open>Releasing a reservation and installing a record, in terms of the accounts.\<close>

lemma accounts_release:
  assumes "accounts_ok cfg s (xs @ f # ys)" and "held f = [h]" and "held f' = []" and "not_checked f' = []"
  shows "accounts_ok cfg (release_reservation h s) (xs @ f' # ys)"
proof -
  have "bytes_of (not_checked f) \<le> file_bytes h \<and> (not_checked f = [] \<or> not_checked f = [h])"
    using assms(2) by (cases f) auto
  then show ?thesis
    using assms by (auto simp: accounts_ok_def release_reservation_def)
qed

lemma accounts_ignores [simp]:
  "accounts_ok cfg (s\<lparr>s_statistics := x\<rparr>) fs = accounts_ok cfg s fs"
  "accounts_ok cfg (s\<lparr>s_resident := t\<rparr>) fs = accounts_ok cfg s fs"
  "accounts_ok cfg (s\<lparr>s_removed := ps\<rparr>) fs = accounts_ok cfg s fs"
  by (simp_all add: accounts_ok_def)

lemma accounts_same:
  assumes "accounts_ok cfg s fs" and "s_reserved_bytes s' = s_reserved_bytes s"
    and "s_reserved_hashes s' = s_reserved_hashes s" and "s_outstanding s' = s_outstanding s"
    and "s_committed_bytes s' \<le> s_committed_bytes s"
  shows "accounts_ok cfg s' fs"
  using assms by (auto simp: accounts_ok_def)

lemma accounts_stage:
  assumes "accounts_ok cfg s (xs @ f # ys)" and "map file_bytes (held f') = map file_bytes (held f)"
    and "map key_hash_field (held f') = map key_hash_field (held f)" and "not_checked f' = not_checked f"
  shows "accounts_ok cfg s (xs @ f' # ys)"
proof -
  have "bytes_of (held f') = bytes_of (held f)" using assms(2) by (simp add: bytes_of_def)
  moreover have "key_hash_field ` set (held f') = key_hash_field ` set (held f)"
    using assms(3) by (metis list.set_map)
  ultimately show ?thesis using assms(1,3,4) by (auto simp: accounts_ok_def)
qed

definition before_install :: "prepared_commit \<Rightarrow> prefix_store \<Rightarrow> prefix_store" where
  "before_install job s =
     (let s1 = release_reservation (p_header job) s; k = key_hash_field (p_header job) in
      case map_of (s_records s1) k of None \<Rightarrow> s1
      | Some prior \<Rightarrow> (remove_record k prior s1)\<lparr>s_resident := tier_invalidate (m_path prior) (s_resident s1)\<rparr>)"

definition installed_meta :: "store_config \<Rightarrow> nat \<Rightarrow> prepared_commit \<Rightarrow> record_meta" where
  "installed_meta cfg now job =
     \<lparr>m_header = p_header job, m_tokens = p_tokens job, m_path = record_path cfg (key_hash_field (p_header job)),
      m_file_bytes = file_bytes (p_header job), m_last_used_unix = now, m_active_readers = 0\<rparr>"

lemma install_record_split:
  "install_record cfg now job s = count_stat committed_capture_count_update
     ((before_install job s)\<lparr>s_committed_bytes := s_committed_bytes (before_install job s) + m_file_bytes (installed_meta cfg now job),
       s_records := AList.update (key_hash_field (p_header job)) (installed_meta cfg now job) (s_records (before_install job s))\<rparr>)"
  by (simp add: install_record_def before_install_def installed_meta_def Let_def)

lemma before_install_facts:
  assumes "index_off off s"
  shows "index_off off (before_install job s)" "map_of (s_records (before_install job s)) (key_hash_field (p_header job)) = None"
    "s_committed_bytes (before_install job s) \<le> s_committed_bytes s"
    "s_reserved_bytes (before_install job s) = s_reserved_bytes s - file_bytes (p_header job)"
    "s_reserved_hashes (before_install job s) = s_reserved_hashes s - {key_hash_field (p_header job)}"
    "s_outstanding (before_install job s) = s_outstanding s"
proof -
  have s1: "index_off off (release_reservation (p_header job) s)" using assms by (simp add: release_reservation_def)
  show "index_off off (before_install job s)"
    using s1 remove_record_ok [OF s1] by (auto simp: before_install_def Let_def split: option.splits)
qed (auto simp: before_install_def Let_def release_reservation_def remove_record_def map_of_delete_if
    split: option.splits)

lemma install_index_ok:
  assumes "index_off off s" and "capture_ok cfg crc (Job job)"
  shows "index_off off (install_record cfg now job s)"
proof -
  from assms(2) obtain h where h: "planned cfg h (p_tokens job)" "prepared_ok crc h (p_tokens job) job" by auto
  have "meta_ok (key_hash_field (p_header job)) (installed_meta cfg now job)"
    using h(2) planned_facts(3,4) [OF h(1)] by (simp add: meta_ok_def prepared_ok_def installed_meta_def)
  from add_record_ok [OF before_install_facts(1,2) [OF assms(1)] this] show ?thesis
    by (simp add: install_record_split)
qed

lemma accounts_install:
  assumes acc: "accounts_ok cfg s (xs @ Job job # ys)" and ok: "index_off off s"
  shows "accounts_ok cfg (install_record cfg now job s) (xs @ Closing # ys)"
proof -
  have "file_bytes (p_header job) \<le> s_reserved_bytes s" using acc by (simp add: accounts_ok_def)
  then show ?thesis
    using acc before_install_facts(3-6) [OF ok, of job]
    by (auto simp: install_record_split accounts_ok_def installed_meta_def)
qed

lemma accounts_check:
  assumes acc: "accounts_ok cfg s (xs @ Pending h ts # ys)" and ok: "index_off off s"
    and run: "enforce_loop (Suc (length (s_records s))) (c_capacity_bytes cfg) 0 s = Some (s', paths, full)"
  shows "index_off off s'" and "evicted_lru s s'"
    and "accounts_ok cfg s' (xs @ (if full then Failed h ts else Ready h ts) # ys)"
proof -
  obtain s1 paths1 full1 where spec:
    "enforce_loop (Suc (length (s_records s))) (c_capacity_bytes cfg) 0 s = Some (s1, paths1, full1)"
    "index_off off s1" "evicted_lru s s1" "s_committed_bytes s1 \<le> s_committed_bytes s"
    "full1 \<longleftrightarrow> \<not> fits (c_capacity_bytes cfg) 0 s1"
    using enforce_loop_spec [OF ok, of "Suc (length (s_records s))" "c_capacity_bytes cfg" 0] by blast
  with run have eq: "s1 = s'" "full1 = full" by simp_all
  show "index_off off s'" "evicted_lru s s'" using spec(2,3) eq by simp_all
  have same: "s_reserved_bytes s' = s_reserved_bytes s" "s_reserved_hashes s' = s_reserved_hashes s"
    "s_outstanding s' = s_outstanding s"
    using spec(3) eq by (simp_all add: evicted_lru_def)
  show "accounts_ok cfg s' (xs @ (if full then Failed h ts else Ready h ts) # ys)"
    using acc same spec(4,5) eq by (auto simp: accounts_ok_def fits_def)
qed

lemma longest_prefix_accounts:
  assumes ok: "index_off off s" and run: "longest_prefix now fp tokens minimum s = (ro, s')"
  shows "index_off off s'" "s_reserved_bytes s' = s_reserved_bytes s" "s_reserved_hashes s' = s_reserved_hashes s"
    "s_outstanding s' = s_outstanding s" "s_committed_bytes s' = s_committed_bytes s" "s_resident s' = s_resident s"
proof -
  have "s_reserved_bytes s' = s_reserved_bytes s \<and> s_reserved_hashes s' = s_reserved_hashes s
    \<and> s_outstanding s' = s_outstanding s \<and> s_committed_bytes s' = s_committed_bytes s \<and> s_resident s' = s_resident s"
    using run by (auto simp: longest_prefix_def Let_def split: option.splits)
  then show "s_reserved_bytes s' = s_reserved_bytes s" "s_reserved_hashes s' = s_reserved_hashes s"
    "s_outstanding s' = s_outstanding s" "s_committed_bytes s' = s_committed_bytes s" "s_resident s' = s_resident s"
    by blast+
  have upd: "index_off off (s\<lparr>s_records := AList.update k (pin now m) (s_records s)\<rparr>)"
    if "map_of (s_records s) k = Some m" for k m
    using update_record_ok [OF ok that, of "pin now m"] index_okD(1) [OF ok that]
    by (simp add: meta_ok_def pin_def)
  then show "index_off off s'"
    using run ok by (auto simp: longest_prefix_def Let_def split: option.splits)
qed

lemma touch_accounts:
  assumes "index_off off s"
  shows "index_off off (touch now r s)"
proof -
  have "index_off off (s\<lparr>s_records := AList.update k (m\<lparr>m_last_used_unix := now\<rparr>) (s_records s)\<rparr>)"
    if "map_of (s_records s) k = Some m" for k m
    using update_record_ok [OF assms that, of "m\<lparr>m_last_used_unix := now\<rparr>"] index_okD(1) [OF assms that]
    by (simp add: meta_ok_def)
  then show ?thesis using assms by (auto simp: touch_def split: option.splits)
qed

lemma index_ok_statistics_records [simp]:
  "index_off off (s\<lparr>s_statistics := x, s_records := recs\<rparr>) = index_off off (s\<lparr>s_records := recs\<rparr>)"
  by (simp add: index_off_def)

lemma stage_fields [simp]: "w_header (stage h ts) = h" "w_tokens (stage h ts) = ts"
  by (simp_all add: stage_def)

lemma drop_reader_accounts:
  assumes "index_off off s"
  shows "index_off off (drop_reader r s)"
proof -
  have "index_off off (s\<lparr>s_records := AList.update k (m\<lparr>m_active_readers := m_active_readers m - 1\<rparr>) (s_records s)\<rparr>)"
    if "map_of (s_records s) k = Some m" for k m
    using update_record_ok [OF assms that, of "m\<lparr>m_active_readers := m_active_readers m - 1\<rparr>"]
      index_okD(1) [OF assms that]
    by (simp add: meta_ok_def)
  then show ?thesis using assms by (auto simp: drop_reader_def Let_def split: option.splits)
qed

lemma reserve_accounts:
  assumes "accounts_ok cfg s (xs @ Admitted h ts # ys)" and "reserve h ts s = (ok, s')"
  shows "accounts_ok cfg s' (xs @ (if ok then Pending h ts else Closing) # ys)"
    and "s_records s' = s_records s" and "s_committed_bytes s' = s_committed_bytes s"
    and "s_resident s' = s_resident s"
  using assms by (auto simp: reserve_def Let_def accounts_ok_def split: if_splits)

lemma release_system_ok:
  assumes "system_ok off cfg crc y" and "y_flights y = xs @ f # ys" and "held f = [h]"
  shows "system_ok off cfg crc (y\<lparr>y_store := release_reservation h (y_store y), y_flights := xs @ Closing # ys\<rparr>)"
    and "system_ok off cfg crc (y\<lparr>y_store := cancel_reservation h (y_store y), y_flights := xs @ Closing # ys\<rparr>)"
proof -
  have "accounts_ok cfg (release_reservation h (y_store y)) (xs @ Closing # ys)"
    by (rule accounts_release [where f = f]) (use assms in \<open>simp_all add: system_ok_def\<close>)
  moreover have "index_off off (release_reservation h (y_store y))"
    using assms(1) by (simp add: system_ok_def release_reservation_def)
  ultimately show "system_ok off cfg crc (y\<lparr>y_store := release_reservation h (y_store y), y_flights := xs @ Closing # ys\<rparr>)"
    "system_ok off cfg crc (y\<lparr>y_store := cancel_reservation h (y_store y), y_flights := xs @ Closing # ys\<rparr>)"
    using assms(1,2) by (simp_all add: system_ok_def cancel_reservation_def)
qed

lemma step_system_ok:
  assumes "store_step cfg crc y y'" and ok: "system_ok off cfg crc y"
  shows "system_ok off cfg crc y'"
  using assms(1)
proof cases
  case (admit fp tokens regs h s)
  then show ?thesis using ok
    by (auto simp: system_ok_def try_acquire_def accounts_ok_def planned_def split: if_splits)
next
  case (busy s)
  then show ?thesis using ok by (auto simp: system_ok_def try_acquire_def split: if_splits)
next
  case (reserve xs h tokens ys good s)
  then show ?thesis
    using ok reserve_accounts [of cfg "y_store y" xs h tokens ys good s]
    by (auto simp: system_ok_def index_off_def)
next
  case (check xs h tokens ys s paths full)
  then show ?thesis
    using ok accounts_check [of cfg "y_store y" xs h tokens ys off s paths full] by (auto simp: system_ok_def)
next
  case (delete ps p qs)
  then show ?thesis using ok by (simp add: system_ok_def discard_def)
next
  case (rollback xs h tokens ys)
  then show ?thesis using release_system_ok(2) [OF ok] by simp
next
  case (allocated xs h tokens ys)
  then show ?thesis
    using ok accounts_stage [of cfg "y_store y" xs "Ready h tokens" ys "Open (stage h tokens)"]
      planned_facts(5) [of cfg h tokens]
    by (simp add: system_ok_def)
next
  case (not_allocated xs h tokens ys)
  then show ?thesis using release_system_ok(2) [OF ok] by simp
next
  case (fill xs w ys i bs w')
  then have "writer_ok w" using ok by (simp add: system_ok_def)
  from fill_region_ok [OF this fill(3)] fill show ?thesis
    using ok accounts_stage [of cfg "y_store y" xs "Open w" ys "Open w'"] by (simp add: system_ok_def)
next
  case (cancelled xs w ys)
  then show ?thesis using release_system_ok(1) [OF ok] by simp
next
  case (prepared xs w ys promote job)
  then have w: "writer_ok w" "planned cfg (w_header w) (w_tokens w)" using ok by (simp_all add: system_ok_def)
  obtain job' where "prepare crc promote w = Inr job'" "prepared_ok crc (w_header w) (w_tokens w) job'"
    using prepare_valid [OF w(1)] by blast
  with prepared have job: "prepared_ok crc (w_header w) (w_tokens w) job" by simp
  then have "capture_ok cfg crc (Job job)" using w(2) by (auto simp: prepared_ok_def)
  with prepared job show ?thesis
    using ok accounts_stage [of cfg "y_store y" xs "Open w" ys "Job job"]
    by (simp add: system_ok_def prepared_ok_def)
next
  case (commit_failed xs job ys)
  then show ?thesis using release_system_ok(2) [OF ok] by simp
next
  case (readback_failed xs job ys)
  let ?y = "y\<lparr>y_store := (y_store y)\<lparr>s_removed := s_removed (y_store y)
    @ [record_path cfg (key_hash_field (p_header job))]\<rparr>\<rparr>"
  have "system_ok off cfg crc ?y" using ok by (simp add: system_ok_def)
  from release_system_ok(2) [OF this] readback_failed show ?thesis by simp
next
  case (install xs job ys now)
  then have acc: "accounts_ok cfg (y_store y) (xs @ Job job # ys)" and idx: "index_off off (y_store y)"
    and job: "capture_ok cfg crc (Job job)" using ok by (simp_all add: system_ok_def)
  show ?thesis
    using install ok accounts_install [OF acc idx, of now] install_index_ok [OF idx job, of now]
    by (simp add: system_ok_def)
next
  case (close xs ys)
  then show ?thesis using ok by (auto simp: system_ok_def drop_permit_def accounts_ok_def)
next
  case (tier t th)
  then show ?thesis using ok by (simp add: system_ok_def)
next
  case (hit now fp tokens minimum r s)
  then show ?thesis
    using ok longest_prefix_accounts [of off "y_store y" now fp tokens minimum "Some r" s]
      accounts_same [of cfg "y_store y" "y_flights y" s] by (simp add: system_ok_def)
next
  case (miss now fp tokens minimum s)
  then show ?thesis
    using ok longest_prefix_accounts [of off "y_store y" now fp tokens minimum None s]
      accounts_same [of cfg "y_store y" "y_flights y" s] by (simp add: system_ok_def)
next
  case (touched r now)
  have "accounts_ok cfg (touch now r (y_store y)) (y_flights y)"
    by (rule accounts_same [of _ "y_store y"]) (use ok in \<open>auto simp: system_ok_def touch_def split: option.splits\<close>)
  with touched show ?thesis using ok touch_accounts by (simp add: system_ok_def)
next
  case (dropped xs r ys)
  have "accounts_ok cfg (drop_reader r (y_store y)) (y_flights y)"
    by (rule accounts_same [of _ "y_store y"])
      (use ok in \<open>auto simp: system_ok_def drop_reader_def Let_def split: option.splits\<close>)
  with dropped show ?thesis using ok drop_reader_accounts by (simp add: system_ok_def)
next
  case (expire now s paths)
  then show ?thesis
    using ok expire_all_spec [of off "y_store y" "expired_hashes cfg now (s_records (y_store y))" s paths]
      accounts_same [of cfg "y_store y" "y_flights y" s] by (simp add: system_ok_def)
next
  case (integrity r m)
  have "accounts_ok cfg (remove_record (reader_key r) m (y_store y)) (y_flights y)"
    by (rule accounts_same [of _ "y_store y"]) (use ok in \<open>auto simp: system_ok_def remove_record_def\<close>)
  with integrity show ?thesis using ok remove_record_ok by (simp add: system_ok_def)
qed

section \<open>Reader pins\<close>

definition readers_of :: "u64 \<Rightarrow> record_reader list \<Rightarrow> nat" where
  "readers_of k rs = length (filter (\<lambda>r. reader_key r = k) rs)"

definition pins_ok :: "(u64 \<rightharpoonup> record_meta) \<Rightarrow> record_reader list \<Rightarrow> bool \<Rightarrow> bool" where
  "pins_ok recs rs clean \<longleftrightarrow>
     (\<forall>k m. recs k = Some m \<longrightarrow> m_active_readers m \<le> readers_of k rs)
     \<and> (clean \<longrightarrow> (\<forall>k. readers_of k rs = (case recs k of None \<Rightarrow> 0 | Some m \<Rightarrow> m_active_readers m)))"

lemma readers_of_simps [simp]:
  "readers_of k [] = 0" "readers_of k (r # rs) = (if reader_key r = k then Suc (readers_of k rs) else readers_of k rs)"
  "readers_of k (xs @ ys) = readers_of k xs + readers_of k ys"
  by (simp_all add: readers_of_def)

lemma pins_evict:
  assumes "pins_ok recs rs clean" and "\<And>k m. recs' k = Some m \<Longrightarrow> recs k = Some m"
    and "\<And>k m. recs k = Some m \<Longrightarrow> recs' k = None \<Longrightarrow> m_active_readers m = 0"
  shows "pins_ok recs' rs clean"
proof -
  have "readers_of k rs = (case recs' k of None \<Rightarrow> 0 | Some m \<Rightarrow> m_active_readers m)" if clean for k
  proof (cases "recs' k")
    case None
    then show ?thesis using assms(1,3) that by (cases "recs k") (auto simp: pins_ok_def)
  next
    case (Some m)
    then show ?thesis using assms(1) assms(2) [OF Some] that by (simp add: pins_ok_def)
  qed
  with assms(1,2) show ?thesis by (auto simp: pins_ok_def)
qed

lemma pins_update:
  assumes "pins_ok recs rs clean" and "\<And>q. q \<noteq> k \<Longrightarrow> recs' q = recs q" and "\<And>q. q \<noteq> k \<Longrightarrow> readers_of q rs' = readers_of q rs"
    and "recs' k = Some m" and "m_active_readers m \<le> readers_of k rs'"
    and "clean' \<Longrightarrow> clean \<and> readers_of k rs' = m_active_readers m"
  shows "pins_ok recs' rs' clean'"
proof -
  have "m_active_readers m' \<le> readers_of q rs'" if "recs' q = Some m'" for q m'
    using that assms by (cases "q = k") (auto simp: pins_ok_def)
  moreover have "readers_of q rs' = (case recs' q of None \<Rightarrow> 0 | Some m \<Rightarrow> m_active_readers m)" if clean' for q
    using that assms by (cases "q = k") (auto simp: pins_ok_def)
  ultimately show ?thesis by (simp add: pins_ok_def)
qed

lemma install_records:
  "map_of (s_records (install_record cfg now job s)) q =
     (if q = key_hash_field (p_header job)
      then Some \<lparr>m_header = p_header job, m_tokens = p_tokens job, m_path = record_path cfg q,
        m_file_bytes = file_bytes (p_header job), m_last_used_unix = now, m_active_readers = 0\<rparr>
      else map_of (s_records s) q)"
  by (auto simp: install_record_def Let_def release_reservation_def remove_record_def map_of_update_if
      map_of_delete_if split: option.splits)

text \<open>Each operation that changes records or readers keeps the pins.\<close>

lemma pins_install:
  assumes "pins_ok (map_of (s_records s)) rs clean"
  shows "pins_ok (map_of (s_records (install_record cfg now job s))) rs
    (clean \<and> unpinned s (key_hash_field (p_header job)))"
proof (rule pins_update [OF assms, where k = "key_hash_field (p_header job)"])
  let ?k = "key_hash_field (p_header job)"
  assume "clean \<and> unpinned s ?k"
  with assms show "clean \<and> readers_of ?k rs = m_active_readers
      \<lparr>m_header = p_header job, m_tokens = p_tokens job, m_path = record_path cfg ?k,
      m_file_bytes = file_bytes (p_header job), m_last_used_unix = now, m_active_readers = 0\<rparr>"
    by (auto simp: pins_ok_def unpinned_def split: option.splits)
qed (simp_all add: install_records)

lemma pins_hit:
  assumes idx: "index_off off s" and pins: "pins_ok (map_of (s_records s)) rs clean"
    and run: "longest_prefix now fp tokens minimum s = (Some r, s')"
  shows "pins_ok (map_of (s_records s')) (r # rs) clean"
proof -
  from longest_prefix_cases [OF idx, of now fp tokens minimum] run obtain k m where
    m: "map_of (s_records s) k = Some m" and r: "r = \<lparr>r_header = m_header m, r_path = m_path m, r_tokens = m_tokens m\<rparr>"
    and s: "s_records s' = AList.update k (pin now m) (s_records s)" by auto
  have k: "reader_key r = k" using index_okD(1) [OF idx m] by (simp add: r meta_ok_def)
  show ?thesis
    by (rule pins_update [OF pins, where k = k and m = "pin now m"])
      (use m k pins in \<open>auto simp: s map_of_update_if pin_def pins_ok_def\<close>)
qed

lemma pins_touch:
  assumes "pins_ok (map_of (s_records s)) rs clean"
  shows "pins_ok (map_of (s_records (touch now r s))) rs clean"
proof (cases "map_of (s_records s) (reader_key r)")
  case (Some m)
  have "pins_ok (map_of (AList.update (reader_key r) (m\<lparr>m_last_used_unix := now\<rparr>) (s_records s))) rs clean"
    by (rule pins_update [OF assms, where k = "reader_key r" and m = "m\<lparr>m_last_used_unix := now\<rparr>"])
      (use Some assms in \<open>auto simp: map_of_update_if pins_ok_def\<close>)
  with Some show ?thesis by (simp add: touch_def)
qed (simp add: touch_def assms)

lemma pins_drop_absent:
  assumes pins: "pins_ok recs (xs @ r # ys) clean" and none: "recs (reader_key r) = None"
  shows "pins_ok recs (xs @ ys) clean"
proof -
  have "m_active_readers m \<le> readers_of k (xs @ ys)" if "recs k = Some m" for k m
  proof -
    have "m_active_readers m \<le> readers_of k (xs @ r # ys)" using pins that unfolding pins_ok_def by blast
    moreover have "k \<noteq> reader_key r" using that none by auto
    ultimately show ?thesis by simp
  qed
  moreover have "\<not> clean" using pins none by (auto simp: pins_ok_def dest!: spec [of _ "reader_key r"])
  ultimately show ?thesis by (simp add: pins_ok_def)
qed

lemma pins_drop:
  assumes pins: "pins_ok (map_of (s_records s)) (xs @ r # ys) clean"
  shows "pins_ok (map_of (s_records (drop_reader r s))) (xs @ ys) clean"
proof (cases "map_of (s_records s) (reader_key r)")
  case None
  with pins_drop_absent [OF pins None] show ?thesis by (simp add: drop_reader_def Let_def)
next
  case (Some m)
  let ?m = "m\<lparr>m_active_readers := m_active_readers m - 1\<rparr>"
  have "m_active_readers m \<le> readers_of (reader_key r) (xs @ r # ys)"
    using pins Some unfolding pins_ok_def by blast
  moreover have "readers_of (reader_key r) (xs @ r # ys) = m_active_readers m" if clean
    using pins Some that unfolding pins_ok_def by (auto dest: spec [of _ "reader_key r"])
  ultimately have count: "m_active_readers ?m \<le> readers_of (reader_key r) (xs @ ys)"
    "clean \<Longrightarrow> readers_of (reader_key r) (xs @ ys) = m_active_readers ?m" by auto
  have "pins_ok (map_of (AList.update (reader_key r) ?m (s_records s))) (xs @ ys) clean"
    by (rule pins_update [OF pins, where k = "reader_key r" and m = ?m])
      (use count in \<open>simp_all add: map_of_update_if\<close>)
  with Some show ?thesis by (simp add: drop_reader_def Let_def)
qed

lemma pins_expire:
  assumes idx: "index_off off s" and pins: "pins_ok (map_of (s_records s)) rs clean"
    and run: "expire_all (expired_hashes cfg now (s_records s)) s = (s', paths)"
  shows "pins_ok (map_of (s_records s')) rs clean"
proof (rule pins_evict [OF pins])
  note spec = expire_all_spec [OF idx run]
  fix k m
  show "map_of (s_records s') k = Some m \<Longrightarrow> map_of (s_records s) k = Some m"
    using spec by (auto split: if_splits)
  assume "map_of (s_records s) k = Some m" "map_of (s_records s') k = None"
  then show "m_active_readers m = 0"
    using spec expired_hashes_iff [OF idx, of k cfg now] by (auto simp: expired_def split: if_splits)
qed

lemma pins_integrity:
  assumes pins: "pins_ok (map_of (s_records s)) rs clean" and m: "map_of (s_records s) k = Some m"
  shows "pins_ok (map_of (s_records (remove_record k m s))) rs (clean \<and> m_active_readers m = 0)"
proof (cases "m_active_readers m = 0")
  case True
  have "pins_ok (map_of (s_records (remove_record k m s))) rs clean"
    by (rule pins_evict [OF pins])
      (use m True in \<open>auto simp: remove_record_def map_of_delete_if split: if_splits\<close>)
  with True show ?thesis by simp
next
  case False
  then show ?thesis
    using pins by (auto simp: pins_ok_def remove_record_def map_of_delete_if split: if_splits)
qed

lemma step_pins_ok:
  assumes "store_step cfg crc y y'" and ok: "system_ok off cfg crc y"
    and pins: "pins_ok (map_of (s_records (y_store y))) (y_readers y) (y_clean y)"
  shows "pins_ok (map_of (s_records (y_store y'))) (y_readers y') (y_clean y')"
proof -
  have idx: "index_off off (y_store y)" using ok by (simp add: system_ok_def)
  from assms(1) show ?thesis
  proof cases
    case (reserve xs h tokens ys good s)
    then show ?thesis using pins by (auto simp: reserve_def Let_def split: if_splits)
  next
    case (check xs h tokens ys s paths full)
    then have acc: "accounts_ok cfg (y_store y) (xs @ Pending h tokens # ys)" using ok by (simp add: system_ok_def)
    have ev: "evicted_lru (y_store y) s" by (rule accounts_check(2) [OF acc idx check(3)])
    have "pins_ok (map_of (s_records s)) (y_readers y) (y_clean y)"
      by (rule pins_evict [OF pins]) (use ev in \<open>auto simp: evicted_lru_def\<close>)
    with check show ?thesis by simp
  next
    case (install xs job ys now)
    with pins_install [OF pins] show ?thesis by simp
  next
    case (hit now fp tokens minimum r s)
    with pins_hit [OF idx pins] show ?thesis by simp
  next
    case (touched r now)
    with pins_touch [OF pins] show ?thesis by simp
  next
    case (dropped xs r ys)
    with pins pins_drop [of "y_store y" xs r ys "y_clean y"] show ?thesis by simp
  next
    case (expire now s paths)
    with pins_expire [OF idx pins] show ?thesis by simp
  next
    case (integrity r m)
    with pins_integrity [OF pins] show ?thesis by simp
  next
    case (miss now fp tokens minimum s)
    with longest_prefix_cases [OF idx, of now fp tokens minimum] have "s_records s = s_records (y_store y)" by auto
    with miss pins show ?thesis by simp
  qed (use pins in \<open>auto simp: try_acquire_def discard_def cancel_reservation_def release_reservation_def
      drop_permit_def split: if_splits\<close>)
qed

section \<open>The resident tier inside the store\<close>

lemma step_tier_ok:
  assumes "store_step cfg crc y y'" and small: "c_resident_capacity_bytes cfg < u64_max"
    and idx: "index_off off (y_store y)"
    and ok: "tier_system_ok (c_resident_capacity_bytes cfg) (s_resident (y_store y), y_threads y)"
  shows "tier_system_ok (c_resident_capacity_bytes cfg) (s_resident (y_store y'), y_threads y')"
proof -
  have inv: "tier_system_ok (c_resident_capacity_bytes cfg) (tier_invalidate p (s_resident (y_store y)), y_threads y)" for p
    by (rule tier_step_preserves [OF tier_step.invalidate ok small])
  show ?thesis using assms(1)
  proof cases
    case (tier t th)
    then show ?thesis using tier_step_preserves [OF tier(2) ok small] by simp
  next
    case (install xs job ys now)
    then show ?thesis
      using ok inv
      by (auto simp: install_record_def Let_def release_reservation_def remove_record_def split: option.splits)
  next
    case (delete ps p qs)
    then show ?thesis using inv by (simp add: discard_def)
  next
    case (check xs h tokens ys s paths full)
    have "s_resident s = s_resident (y_store y)"
      using enforce_loop_spec [OF idx, of "Suc (length (s_records (y_store y)))" "c_capacity_bytes cfg" 0] check(3)
      by (auto simp: evicted_lru_def)
    with check ok show ?thesis by simp
  next
    case (expire now s paths)
    then show ?thesis using ok expire_all_spec [OF idx expire(2)] by simp
  next
    case (hit now fp tokens minimum r s)
    then show ?thesis using ok longest_prefix_accounts(6) [OF idx hit(2)] by simp
  next
    case (miss now fp tokens minimum s)
    then show ?thesis using ok longest_prefix_accounts(6) [OF idx miss(2)] by simp
  next
    case (reserve xs h tokens ys good s)
    then show ?thesis using ok by (auto simp: reserve_def Let_def split: if_splits)
  qed (use ok in \<open>auto simp: try_acquire_def cancel_reservation_def release_reservation_def drop_permit_def
      touch_def drop_reader_def Let_def remove_record_def split: if_splits option.splits\<close>)
qed

section \<open>Startup\<close>

lemma shadowed_snoc:
  "bytes_of (shadowed (files @ [(k, h, ts)])) =
     bytes_of (shadowed files) + (case map_of (rev files) k of None \<Rightarrow> 0 | Some (h', ts') \<Rightarrow> file_bytes h')"
proof (induction files)
  case (Cons f files)
  obtain k' h' ts' where f: "f = (k', h', ts')" by (cases f)
  have "map_of (rev files) k = None \<longleftrightarrow> k \<notin> fst ` set files" by (simp add: map_of_eq_None_iff)
  then show ?case using Cons by (auto simp: f map_add_def split: option.splits)
qed simp

lemma scanned_append: "scanned (xs @ ys) = scanned xs @ scanned ys"
  by (induction xs rule: scanned.induct) auto

lemma scan_append: "scan (xs @ ys) s = scan ys (scan xs s)"
  by (induction xs s rule: scan.induct) simp_all

text \<open>A record added under a key that the index has: the bytes of the old one stay counted.\<close>

lemma replace_record_off:
  assumes "index_off off s" and "map_of (s_records s) k = Some old" and "meta_ok k m"
  shows "index_off (off + m_file_bytes old) (s\<lparr>s_committed_bytes := s_committed_bytes s + m_file_bytes m,
    s_records := AList.update k m (s_records s)\<rparr>)"
  using assms table_sum_update [of "s_records s" k old m_file_bytes m]
  by (auto simp: index_off_def map_of_update_if split: if_splits)

lemma scan_spec:
  assumes "loaded_ok entries"
  shows "index_off (bytes_of (shadowed (scanned entries))) (scan entries empty_store)
    \<and> (\<forall>k m. map_of (s_records (scan entries empty_store)) k = Some m \<longrightarrow>
        m_active_readers m = 0 \<and> map_of (rev (scanned entries)) k = Some (m_header m, m_tokens m))
    \<and> (\<forall>k. map_of (s_records (scan entries empty_store)) k = None \<longrightarrow> map_of (rev (scanned entries)) k = None)
    \<and> s_reserved_bytes (scan entries empty_store) = 0 \<and> s_reserved_hashes (scan entries empty_store) = {}
    \<and> s_outstanding (scan entries empty_store) = 0 \<and> s_resident (scan entries empty_store) = tier_new"
  using assms
proof (induction entries rule: rev_induct)
  case Nil
  then show ?case by (simp add: empty_store_def index_off_def)
next
  case (snoc e entries)
  obtain p l t where e: "e = (p, l, t)" by (cases e)
  let ?s = "scan entries empty_store" and ?files = "scanned entries"
  have ok: "loaded_ok entries" using snoc.prems by (simp add: loaded_ok_def scanned_append)
  note IH = snoc.IH [OF ok]
  show ?case
  proof (cases "\<exists>h ts. l = Inr (h, ts) \<and> key_hash (fingerprint h) ts = key_hash_field h")
    case False
    then have "scanned [e] = []" "scan [e] ?s = count_stat integrity_eviction_count_update (?s\<lparr>s_removed := s_removed ?s @ [p]\<rparr>)"
      by (auto simp: e split: sum.splits prod.splits) (cases l; auto)+
    then show ?thesis using IH by (simp add: scan_append scanned_append)
  next
    case True
    then obtain h ts where l: "l = Inr (h, ts)" and key: "key_hash (fingerprint h) ts = key_hash_field h" by blast
    let ?k = "key_hash_field h"
    let ?m = "\<lparr>m_header = h, m_tokens = ts, m_path = p, m_file_bytes = file_bytes h, m_last_used_unix = t, m_active_readers = 0\<rparr>"
    let ?s' = "?s\<lparr>s_committed_bytes := s_committed_bytes ?s + m_file_bytes ?m, s_records := AList.update ?k ?m (s_records ?s)\<rparr>"
    have new: "scanned [e] = [(?k, h, ts)]" "scan [e] ?s = ?s'" using key by (simp_all add: e l)
    have meta: "meta_ok ?k ?m" using snoc.prems key new(1) by (simp add: meta_ok_def loaded_ok_def scanned_append)
    have "index_off (bytes_of (shadowed (?files @ [(?k, h, ts)]))) ?s'"
    proof (cases "map_of (s_records ?s) ?k")
      case None
      then show ?thesis using IH add_record_ok [OF _ None meta] by (simp add: shadowed_snoc)
    next
      case (Some old)
      then have "map_of (rev ?files) ?k = Some (m_header old, m_tokens old)" "m_file_bytes old = file_bytes (m_header old)"
        using IH index_okD(1) by (auto simp: meta_ok_def)
      then show ?thesis using IH replace_record_off [OF _ Some meta] by (simp add: shadowed_snoc)
    qed
    then show ?thesis using IH new by (auto simp: scan_append scanned_append map_of_update_if split: if_splits)
  qed
qed

lemma open_store_ok:
  assumes "loaded_ok entries"
  shows "\<exists>ok s. open_store cfg entries = Some (ok, s) \<and> index_off (bytes_of (shadowed (scanned entries))) s
    \<and> (accounts_ok cfg s [] \<longleftrightarrow> ok) \<and> pins_ok (map_of (s_records s)) [] True
    \<and> tier_system_ok rcap (s_resident s, \<lambda>_. Idle)"
proof -
  let ?s0 = "scan entries empty_store" and ?off = "bytes_of (shadowed (scanned entries))"
  note scan = scan_spec [OF assms]
  obtain s1 paths full where run:
    "enforce_loop (Suc (length (s_records ?s0))) (c_capacity_bytes cfg) 0 ?s0 = Some (s1, paths, full)"
    and spec: "index_off ?off s1" "evicted_lru ?s0 s1" "full \<longleftrightarrow> \<not> fits (c_capacity_bytes cfg) 0 s1"
    using enforce_loop_spec [of ?off ?s0 "Suc (length (s_records ?s0))" "c_capacity_bytes cfg" 0] scan by blast
  have opened: "open_store cfg entries = Some (\<not> full, discard paths s1)"
    using run by (simp add: open_store_def enforce_capacity_for_def del: enforce_loop.simps)
  have idle: "map_of (s_records s1) k = Some m \<Longrightarrow> m_active_readers m = 0" for k m
    using spec(2) scan unfolding evicted_lru_def by blast
  have same: "s_reserved_bytes s1 = 0" "s_reserved_hashes s1 = {}" "s_outstanding s1 = 0" "s_resident s1 = tier_new"
    using spec(2) scan by (simp_all add: evicted_lru_def)
  have "index_off ?off (discard paths s1)" using spec(1) by (simp add: discard_def)
  moreover have "accounts_ok cfg (discard paths s1) [] \<longleftrightarrow> \<not> full"
    using spec(3) same by (auto simp: accounts_ok_def discard_def fits_def)
  moreover have "pins_ok (map_of (s_records (discard paths s1))) [] True"
    using idle by (auto simp: pins_ok_def discard_def split: option.splits)
  moreover have inv: "tier_system_ok rcap (t, th) \<Longrightarrow> tier_system_ok rcap (fold tier_invalidate ps t, th)" for t th ps
    by (induction ps arbitrary: t) (auto simp: tier_system_ok_def tier_invalidate_refines)
  have "tier_system_ok rcap (s_resident (discard paths s1), \<lambda>_. Idle)"
    using inv [OF tier_new_ok] same(4) by (simp add: discard_def)
  ultimately show ?thesis using opened by blast
qed

lemma store_reachable_ok:
  assumes "store_reachable cfg crc entries y" and "loaded_ok entries" and "c_resident_capacity_bytes cfg < u64_max"
  shows "system_ok (bytes_of (shadowed (scanned entries))) cfg crc y
    \<and> pins_ok (map_of (s_records (y_store y))) (y_readers y) (y_clean y)
    \<and> tier_system_ok (c_resident_capacity_bytes cfg) (s_resident (y_store y), y_threads y)"
  using assms(1)
proof induction
  case (start s)
  then show ?case using open_store_ok [OF assms(2), of cfg "c_resident_capacity_bytes cfg"] by (auto simp: system_ok_def)
next
  case (step y y')
  then show ?case
    using step_system_ok [OF step.hyps(2)] step_pins_ok [OF step.hyps(2)] step_tier_ok [OF step.hyps(2) assms(3)]
    by (auto simp: system_ok_def)
qed

section \<open>A small run of the store\<close>

definition sample_key :: u64 where "sample_key = key_hash (replicate 32 7) [1, 2]"

definition small_header :: record_header where
  "small_header = sample_layout\<lparr>key_hash_field := sample_key, token_count := 2\<rparr>"

lemma small_header_planned:
  "plan_capture sample_config (replicate 32 7) [1, 2] sample_regions = Inr small_header"
  "planned sample_config small_header [1, 2]"
proof -
  have "layout (replicate 32 7) sample_key 2 sample_regions = Inr small_header"
    by (simp add: layout_def sample_regions_def sample_layout_def small_header_def ensure_def validate_region_name_def
        is_ascii_graphic_def MAX_REGIONS_def MAX_REGION_NAME_BYTES_def checked_mul_def checked_add_def
        checked_mul64_def checked_add64_def align_up_def HEADER_BYTES_def ALIGNMENT_def u64_max_def)
  then show "plan_capture sample_config (replicate 32 7) [1, 2] sample_regions = Inr small_header"
    by (simp add: plan_capture_def sample_config_def sample_key_def numeral_2_eq_2)
      (simp add: small_header_def sample_layout_def)
  then show "planned sample_config small_header [1, 2]"
    by (auto simp: planned_def intro!: exI [of _ "replicate 32 7"])
qed

definition idle_system :: "prefix_store \<Rightarrow> store_system" where
  "idle_system s = \<lparr>y_store = s, y_flights = [], y_readers = [], y_victims = [],
     y_threads = (\<lambda>_. Idle), y_clean = True\<rparr>"

lemma empty_start: "store_reachable sample_config crc [] (idle_system empty_store)"
proof -
  have "open_store sample_config [] = Some (True, empty_store)"
    by (simp add: open_store_def enforce_capacity_for_def empty_store_def sample_config_def discard_def)
  then show ?thesis unfolding idle_system_def by (rule store_reachable.start)
qed

lemma sample_start:
  "store_reachable sample_config crc [(''r'', Inr (small_header, [1, 2]), 5)] (idle_system (sample_store 5 0))"
  "loaded_ok [(''r'', Inr (small_header, [1, 2]), 5)]"
proof -
  have "open_store sample_config [(''r'', Inr (small_header, [1, 2]), 5)] = Some (True, sample_store 5 0)"
    by (simp add: open_store_def enforce_capacity_for_def empty_store_def sample_config_def discard_def
        small_header_def sample_store_def sample_meta_def sample_layout_def sample_key_def)
  then show "store_reachable sample_config crc [(''r'', Inr (small_header, [1, 2]), 5)] (idle_system (sample_store 5 0))"
    unfolding idle_system_def by (rule store_reachable.start)
  show "loaded_ok [(''r'', Inr (small_header, [1, 2]), 5)]" by (simp add: loaded_ok_def small_header_def)
qed

lemma lookup_single:
  assumes "index_ok s" and "map_of (s_records s) sample_key = Some m" and "m_tokens m = [1, 2]"
    and "fingerprint (m_header m) = replicate 32 7" and "\<forall>k m'. map_of (s_records s) k = Some m' \<longrightarrow> k = sample_key"
  shows "\<exists>r s'. longest_prefix 9 (replicate 32 7) [1, 2, 3] 1 s = (Some r, s') \<and> reader_key r = sample_key"
proof -
  have use: "usable (replicate 32 7) [1, 2, 3] 1 m" using assms(3,4) by (simp add: usable_def)
  have key: "reader_key \<lparr>r_header = m_header m', r_path = m_path m', r_tokens = m_tokens m'\<rparr> = sample_key"
    if "map_of (s_records s) k = Some m'" for k m'
    using index_okD(1) [OF assms(1) that] assms(5) that by (simp add: meta_ok_def)
  show ?thesis
    using longest_prefix_cases [OF assms(1), of 9 "replicate 32 7" "[1, 2, 3]" 1] use assms(2) key by blast
qed

lemma shadowed_distinct: "distinct (map fst files) \<Longrightarrow> shadowed files = []"
  by (induction files rule: shadowed.induct) auto


section \<open>Properties\<close>

lemma bytes_of_flights:
  assumes "\<forall>f \<in> set fs. capture_ok cfg crc f"
  shows "bytes_of (concat (map not_checked fs)) \<le> length fs * c_capacity_bytes cfg"
  using assms
proof (induction fs)
  case Nil
  then show ?case by simp
next
  case (Cons f fs)
  have "bytes_of (not_checked f) \<le> c_capacity_bytes cfg"
    using Cons.prems planned_facts(1) by (cases f) auto
  with Cons show ?case by simp
qed

text \<open>
  C2: in every interleaving of captures, commits, readers, evictions and expiries after a successful
  opening the index is consistent (one record per key, stored under the hash of its fingerprint and
  tokens, with the token count and the file size of its header) and the counters are exact. The
  committed byte count is the size of the indexed records and, for good, that of the files that a later
  file with the same key replaced while the directory was scanned; when the files have distinct keys
  there are none. The reserved byte count is exactly that of the captures in flight; no two captures
  hold the same key, at most two are outstanding, and the budget is exceeded only by captures whose
  capacity check has not finished, never beyond three times the budget. When no capture is in flight,
  nothing is reserved and no writer permit is taken. The hypotheses are that reading a record file
  gives as many tokens as its header counts, and the limits of the configuration.
\<close>

theorem prefix_store_accounting:
  assumes "store_reachable cfg crc entries y" and "loaded_ok entries"
    and "c_resident_capacity_bytes cfg < u64_max" and "c_capacity_bytes cfg \<noteq> 0"
  shows "distinct (map fst (s_records (y_store y)))
    \<and> (\<forall>k m. map_of (s_records (y_store y)) k = Some m \<longrightarrow>
        key_hash_field (m_header m) = k \<and> key_hash (fingerprint (m_header m)) (m_tokens m) = k
        \<and> token_count (m_header m) = length (m_tokens m) \<and> m_file_bytes m = file_bytes (m_header m))
    \<and> s_committed_bytes (y_store y) = table_sum m_file_bytes (s_records (y_store y)) + bytes_of (shadowed (scanned entries))
    \<and> (distinct (map fst (scanned entries)) \<longrightarrow> s_committed_bytes (y_store y) = table_sum m_file_bytes (s_records (y_store y)))
    \<and> s_reserved_bytes (y_store y) = bytes_of (reservations (y_flights y))
    \<and> s_reserved_hashes (y_store y) = key_hash_field ` set (reservations (y_flights y))
    \<and> distinct (map key_hash_field (reservations (y_flights y)))
    \<and> s_outstanding (y_store y) = length (y_flights y) \<and> length (y_flights y) \<le> 2
    \<and> s_committed_bytes (y_store y) + s_reserved_bytes (y_store y)
        \<le> c_capacity_bytes cfg + bytes_of (concat (map not_checked (y_flights y)))
    \<and> s_committed_bytes (y_store y) + s_reserved_bytes (y_store y) \<le> 3 * c_capacity_bytes cfg
    \<and> (y_flights y = [] \<longrightarrow> s_reserved_bytes (y_store y) = 0 \<and> s_reserved_hashes (y_store y) = {}
        \<and> s_outstanding (y_store y) = 0 \<and> s_committed_bytes (y_store y) \<le> c_capacity_bytes cfg)"
proof -
  have ok: "system_ok (bytes_of (shadowed (scanned entries))) cfg crc y" using store_reachable_ok [OF assms(1-3)] by blast
  then have acc: "accounts_ok cfg (y_store y) (y_flights y)" and idx: "index_off (bytes_of (shadowed (scanned entries))) (y_store y)"
    and good: "\<forall>f \<in> set (y_flights y). capture_ok cfg crc f" by (simp_all add: system_ok_def)
  have "length (y_flights y) * c_capacity_bytes cfg \<le> 2 * c_capacity_bytes cfg"
    using acc by (intro mult_right_mono) (simp_all add: accounts_ok_def MAX_OUTSTANDING_COMMITS_def)
  then have "bytes_of (concat (map not_checked (y_flights y))) \<le> 2 * c_capacity_bytes cfg"
    using bytes_of_flights [OF good] by linarith
  then show ?thesis
    using acc idx assms(4) shadowed_distinct [of "scanned entries"]
    by (auto simp: accounts_ok_def index_off_def meta_ok_def MAX_OUTSTANDING_COMMITS_def)
qed

theorem prefix_store_accounting_witness:
  "\<exists>y. store_reachable sample_config counting_crc [] y \<and> length (y_flights y) = 1
     \<and> s_reserved_bytes (y_store y) = 20480"
proof -
  obtain s1 where s1: "try_acquire empty_store = (True, s1)" "s_reserved_hashes s1 = {}" "s_records s1 = []"
    by (simp add: try_acquire_def empty_store_def MAX_OUTSTANDING_COMMITS_def)
  let ?y1 = "(idle_system empty_store)\<lparr>y_store := s1, y_flights := [Admitted small_header [1, 2]]\<rparr>"
  have "store_step sample_config counting_crc (idle_system empty_store) ?y1"
    using store_step.admit [OF small_header_planned(1), of "idle_system empty_store" s1 counting_crc] s1(1)
    by (simp add: idle_system_def)
  with empty_start have r1: "store_reachable sample_config counting_crc [] ?y1" by (rule store_reachable.step)
  obtain s2 where s2: "reserve small_header [1, 2] s1 = (True, s2)" using s1 by (simp add: reserve_def)
  let ?y2 = "?y1\<lparr>y_store := s2, y_flights := [Pending small_header [1, 2]]\<rparr>"
  have "store_step sample_config counting_crc ?y1 ?y2"
    using store_step.reserve [of ?y1 "[]" small_header "[1, 2]" "[]" True s2 sample_config counting_crc] s2 by simp
  with r1 have r2: "store_reachable sample_config counting_crc [] ?y2" by (rule store_reachable.step)
  have cfg: "c_resident_capacity_bytes sample_config < u64_max" "c_capacity_bytes sample_config \<noteq> 0"
    by (simp_all add: sample_config_def u64_max_def)
  have "s_reserved_bytes (y_store ?y2) = bytes_of (reservations (y_flights ?y2))"
    using prefix_store_accounting [OF r2 _ cfg] by (simp add: loaded_ok_def)
  also have "\<dots> = 20480" by (simp add: small_header_def sample_layout_def)
  finally show ?thesis using r2 by (intro exI [of _ ?y2]) simp
qed

text \<open>
  C27: as long as no pinned record has been dropped by an integrity eviction or replaced under a
  colliding hash, the record of every open reader stays in the index, and its reader count is
  exactly the number of open readers of that key, whatever evictions, expiries, captures and commits
  run in between. In every case a reader count never exceeds the number of open readers.
\<close>

theorem open_readers_pin_records:
  assumes "store_reachable cfg crc entries y" and "loaded_ok entries" and "c_resident_capacity_bytes cfg < u64_max"
  shows "(\<forall>k m. map_of (s_records (y_store y)) k = Some m \<longrightarrow>
        m_active_readers m \<le> length (filter (\<lambda>r. reader_key r = k) (y_readers y)))
    \<and> (y_clean y \<longrightarrow> (\<forall>r \<in> set (y_readers y). \<exists>m. map_of (s_records (y_store y)) (reader_key r) = Some m
        \<and> 0 < m_active_readers m
        \<and> m_active_readers m = length (filter (\<lambda>r'. reader_key r' = reader_key r) (y_readers y))))"
proof -
  have pins: "pins_ok (map_of (s_records (y_store y))) (y_readers y) (y_clean y)"
    using store_reachable_ok [OF assms] by blast
  have "\<exists>m. map_of (s_records (y_store y)) (reader_key r) = Some m \<and> 0 < m_active_readers m
      \<and> m_active_readers m = readers_of (reader_key r) (y_readers y)"
    if "y_clean y" "r \<in> set (y_readers y)" for r
  proof -
    have "0 < readers_of (reader_key r) (y_readers y)"
      using that(2) by (auto simp: readers_of_def filter_empty_conv)
    moreover have "readers_of (reader_key r) (y_readers y) =
        (case map_of (s_records (y_store y)) (reader_key r) of None \<Rightarrow> 0 | Some m \<Rightarrow> m_active_readers m)"
      using pins that(1) by (simp add: pins_ok_def)
    ultimately show ?thesis by (auto split: option.splits)
  qed
  then show ?thesis using pins by (auto simp: pins_ok_def readers_of_def)
qed

theorem open_readers_pin_records_witness:
  "\<exists>y r m. store_reachable sample_config counting_crc [(''r'', Inr (small_header, [1, 2]), 5)] y \<and> y_readers y = [r] \<and> y_clean y
     \<and> map_of (s_records (y_store y)) (reader_key r) = Some m \<and> m_active_readers m = 1"
proof -
  have single: "map_of (s_records (sample_store 5 0)) sample_key = Some (sample_meta 5 0)"
    "\<forall>k m'. map_of (s_records (sample_store 5 0)) k = Some m' \<longrightarrow> k = sample_key"
    by (simp_all add: sample_store_def sample_key_def split: if_splits)
  obtain r s' where hit: "longest_prefix 9 (replicate 32 7) [1, 2, 3] 1 (sample_store 5 0) = (Some r, s')"
    using lookup_single [OF sample_store_ok single(1) _ _ single(2)]
    by (auto simp: sample_meta_def sample_layout_def)
  let ?y = "(idle_system (sample_store 5 0))\<lparr>y_store := s', y_readers := [r]\<rparr>"
  have "store_step sample_config counting_crc (idle_system (sample_store 5 0)) ?y"
    using store_step.hit [of 9 "replicate 32 7" "[1, 2, 3]" 1 "idle_system (sample_store 5 0)" r s'] hit
    by (simp add: idle_system_def)
  with sample_start(1) have reach: "store_reachable sample_config counting_crc [(''r'', Inr (small_header, [1, 2]), 5)] ?y"
    by (rule store_reachable.step)
  have cfg: "c_resident_capacity_bytes sample_config < u64_max" by (simp add: sample_config_def u64_max_def)
  have "y_clean ?y" "y_readers ?y = [r]" by (simp_all add: idle_system_def)
  with open_readers_pin_records [OF reach sample_start(2) cfg] reach show ?thesis
    by (intro exI [of _ ?y] exI [of _ r]) auto
qed

text \<open>
  C35: a reader opened before its record is dropped by an integrity eviction still releases a pin
  when it closes. If the same key was captured again and opened by another reader meanwhile, that
  release unpins the new record: its reader count is zero although its reader is still open.
\<close>

theorem stale_reader_unpins_new_record:
  assumes "index_ok s" and "key_hash_field (r_header stale) = key_hash_field (p_header job)"
    and "capture_ok cfg crc (Job job)"
    and "longest_prefix now fp tokens minimum
           (install_record cfg now job (evict_for_integrity (key_hash_field (r_header stale)) s)) = (Some fresh, s')"
    and "reader_key fresh = reader_key stale"
  shows "\<exists>m. map_of (s_records (drop_reader stale s')) (reader_key fresh) = Some m \<and> m_active_readers m = 0"
proof -
  let ?k = "key_hash_field (p_header job)"
  let ?s1 = "evict_for_integrity ?k s"
  let ?s2 = "install_record cfg now job ?s1"
  have ok1: "index_ok ?s1"
    using assms(1) remove_record_ok [OF assms(1)]
    by (auto simp: evict_for_integrity_def discard_def split: option.splits)
  have ok2: "index_ok ?s2" by (rule install_index_ok [OF ok1 assms(3)])
  have run: "longest_prefix now fp tokens minimum ?s2 = (Some fresh, s')" using assms(2,4) by simp
  from longest_prefix_cases [OF ok2, of now fp tokens minimum] run obtain k m where
    m: "map_of (s_records ?s2) k = Some m" "fresh = \<lparr>r_header = m_header m, r_path = m_path m, r_tokens = m_tokens m\<rparr>"
    and s': "s_records s' = AList.update k (pin now m) (s_records ?s2)" by auto
  have "k = ?k" using index_okD(1) [OF ok2 m(1)] m(2) assms(2,5) by (simp add: meta_ok_def)
  with m(1) have "m_active_readers m = 0" by (auto simp: install_records)
  then show ?thesis
    using s' \<open>k = ?k\<close> assms(2,5) by (simp add: drop_reader_def Let_def map_of_update_if pin_def)
qed

theorem stale_reader_unpins_new_record_witness:
  "\<exists>stale fresh s m. reader_key fresh = sample_key
     \<and> map_of (s_records (drop_reader stale s)) sample_key = Some m \<and> m_active_readers m = 0"
proof -
  let ?s = "sample_store 5 1" and ?crc = "counting_crc"
  obtain job where job: "prepared_ok ?crc small_header [1, 2] job"
    using prepare_valid [OF planned_facts(5) [OF small_header_planned(2)], of ?crc True] by auto
  then have cap: "capture_ok sample_config ?crc (Job job)" and key: "key_hash_field (p_header job) = sample_key"
    using small_header_planned(2) by (auto simp: prepared_ok_def small_header_def)
  let ?s2 = "install_record sample_config 9 job (evict_for_integrity sample_key ?s)"
  have ok1: "index_ok (evict_for_integrity sample_key ?s)"
    using remove_record_ok [OF sample_store_ok [of 5 1]] sample_store_ok [of 5 1]
    by (auto simp: evict_for_integrity_def discard_def split: option.splits)
  have none: "map_of (s_records (evict_for_integrity sample_key ?s)) k = None" for k
    by (simp add: evict_for_integrity_def sample_store_def sample_key_def discard_def remove_record_def)
  have single: "\<forall>k m'. map_of (s_records ?s2) k = Some m' \<longrightarrow> k = sample_key"
    using none by (simp add: install_records key split: if_splits)
  obtain m where m: "map_of (s_records ?s2) sample_key = Some m" "m_tokens m = [1, 2]" "m_header m = p_header job"
    using job by (simp add: install_records key prepared_ok_def)
  have "fingerprint (m_header m) = replicate 32 7"
    using job m(3) by (simp add: prepared_ok_def small_header_def sample_layout_def)
  then obtain r s' where fresh: "longest_prefix 9 (replicate 32 7) [1, 2, 3] 1 ?s2 = (Some r, s')" "reader_key r = sample_key"
    using lookup_single [OF install_index_ok [OF ok1 cap] m(1,2) _ single] by blast
  let ?stale = "\<lparr>r_header = m_header (sample_meta 5 1), r_path = ''r'', r_tokens = [1, 2]\<rparr>"
  have stale: "reader_key ?stale = sample_key" by (simp add: sample_meta_def sample_key_def)
  from stale_reader_unpins_new_record [OF sample_store_ok [of 5 1], of ?stale job sample_config ?crc 9 "replicate 32 7" "[1, 2, 3]" 1 r s']
    cap key stale fresh show ?thesis by auto
qed



end
