(* ===== verification/WatchdogRecord.thy ===== *)
theory WatchdogRecord
  imports ByteCodec
begin

text \<open>
  The sample record of the watchdog: \<open>WatchdogSample\<close> and its telemetry
  (\<open>core/watchdog/src/li_watchdog_contract.rs\<close>) and the fixed 284-byte little-endian record with its
  bitwise CRC-32 (\<open>core/watchdog/src/li_watchdog_record.rs\<close>). Shown here: encoding and decoding are
  inverse in both directions, and a record with one damaged byte is never accepted.
\<close>

section \<open>Samples\<close>

datatype watchdog_error =
    InvalidContract string
  | Provider string string
  | StateUnavailable

definition WATCHDOG_MAX_CPU_CORES :: nat where "WATCHDOG_MAX_CPU_CORES = 32"
definition WATCHDOG_GPU_ENGINES :: nat where "WATCHDOG_GPU_ENGINES = 6"
definition WATCHDOG_PERCENT_UNKNOWN :: byte where "WATCHDOG_PERCENT_UNKNOWN = 255"
definition WATCHDOG_CLOCK_UNKNOWN :: u32 where "WATCHDOG_CLOCK_UNKNOWN = 0xffffffff"

text \<open>\<open>i16\<close> values are kept as their 16 bits; \<open>i16::MIN\<close> is the pattern 0x8000.\<close>

definition WATCHDOG_TEMP_UNKNOWN :: u16 where "WATCHDOG_TEMP_UNKNOWN = 0x8000"
definition WATCHDOG_SAMPLE_ROLLUP :: byte where "WATCHDOG_SAMPLE_ROLLUP = 1"

record sample_telemetry =
  cpu_core_count :: byte
  flags :: byte
  cpu_percent :: byte
  gpu_percent :: byte
  memory_percent :: byte
  disk_percent :: byte
  gpu_memory_percent :: byte
  workload_type :: byte
  cpu_core_percent :: "byte list"
  gpu_engine_percent :: "byte list"
  system_temp_deci_c :: u16
  gpu_temp_deci_c :: u16
  nvme_temp_deci_c :: u16
  power_deci_w :: u16
  load1_centi :: u16
  memory_used_mib :: u32
  memory_total_mib :: u32
  disk_used_mib :: u32
  disk_total_mib :: u32
  network_rx_kib_s :: u32
  network_tx_kib_s :: u32
  disk_read_kib_s :: u32
  disk_write_kib_s :: u32
  workload_id :: u32
  cpu_clock_mhz :: u32
  gpu_clock_mhz :: u32
  vram_clock_mhz :: u32
  system_ram_clock_mhz :: u32
  active_requests :: u32
  queued_requests :: u32
  connected_clients :: u32
  requests_received :: u64
  requests_admitted :: u64
  requests_completed :: u64
  requests_failed :: u64
  requests_cancelled :: u64
  requests_retried :: u64
  input_tokens :: u64
  output_tokens :: u64
  cached_tokens :: u64
  queue_milliseconds :: u64
  ttft_milliseconds :: u64
  decode_milliseconds :: u64
  exact_token_requests :: u64
  prefix_cache_hits :: u64
  usage_records_dropped :: u64
  usage_write_errors :: u64

record watchdog_sample =
  sequence :: u64
  unix_milliseconds :: u64
  monotonic_milliseconds :: u64
  telemetry :: sample_telemetry

definition default_telemetry :: sample_telemetry where
  "default_telemetry =
     \<lparr>cpu_core_count = 0, flags = 0, cpu_percent = WATCHDOG_PERCENT_UNKNOWN,
      gpu_percent = WATCHDOG_PERCENT_UNKNOWN, memory_percent = WATCHDOG_PERCENT_UNKNOWN,
      disk_percent = WATCHDOG_PERCENT_UNKNOWN, gpu_memory_percent = WATCHDOG_PERCENT_UNKNOWN,
      workload_type = 0, cpu_core_percent = replicate WATCHDOG_MAX_CPU_CORES WATCHDOG_PERCENT_UNKNOWN,
      gpu_engine_percent = replicate WATCHDOG_GPU_ENGINES WATCHDOG_PERCENT_UNKNOWN,
      system_temp_deci_c = WATCHDOG_TEMP_UNKNOWN, gpu_temp_deci_c = WATCHDOG_TEMP_UNKNOWN,
      nvme_temp_deci_c = WATCHDOG_TEMP_UNKNOWN, power_deci_w = 0, load1_centi = 0, memory_used_mib = 0,
      memory_total_mib = 0, disk_used_mib = 0, disk_total_mib = 0, network_rx_kib_s = 0,
      network_tx_kib_s = 0, disk_read_kib_s = 0, disk_write_kib_s = 0, workload_id = 0,
      cpu_clock_mhz = WATCHDOG_CLOCK_UNKNOWN, gpu_clock_mhz = WATCHDOG_CLOCK_UNKNOWN,
      vram_clock_mhz = WATCHDOG_CLOCK_UNKNOWN, system_ram_clock_mhz = WATCHDOG_CLOCK_UNKNOWN,
      active_requests = 0, queued_requests = 0, connected_clients = 0, requests_received = 0,
      requests_admitted = 0, requests_completed = 0, requests_failed = 0, requests_cancelled = 0,
      requests_retried = 0, input_tokens = 0, output_tokens = 0, cached_tokens = 0,
      queue_milliseconds = 0, ttft_milliseconds = 0, decode_milliseconds = 0, exact_token_requests = 0,
      prefix_cache_hits = 0, usage_records_dropped = 0, usage_write_errors = 0\<rparr>"

definition with_telemetry :: "u64 \<Rightarrow> u64 \<Rightarrow> u64 \<Rightarrow> sample_telemetry \<Rightarrow> watchdog_error + watchdog_sample" where
  "with_telemetry sq unix monotonic t =
     bind_result (ensure (\<not> (sq = 0 \<or> unix = 0 \<or> monotonic = 0))
       (InvalidContract ''sample sequence and clocks must be positive'')) (\<lambda>_.
     bind_result (ensure (\<not> unat (cpu_core_count t) > WATCHDOG_MAX_CPU_CORES)
       (InvalidContract ''sample CPU core count exceeds the native record bound'')) (\<lambda>_.
     Inr \<lparr>sequence = sq, unix_milliseconds = unix, monotonic_milliseconds = monotonic, telemetry = t\<rparr>))"

definition from_record :: "u64 \<Rightarrow> u64 \<Rightarrow> u64 \<Rightarrow> sample_telemetry \<Rightarrow> watchdog_error + watchdog_sample" where
  "from_record sq unix monotonic t =
     bind_result (ensure (\<not> unat (cpu_core_count t) > WATCHDOG_MAX_CPU_CORES)
       (InvalidContract ''sample CPU core count exceeds the native record bound'')) (\<lambda>_.
     Inr \<lparr>sequence = sq, unix_milliseconds = unix, monotonic_milliseconds = monotonic, telemetry = t\<rparr>)"

section \<open>The record\<close>

definition WATCHDOG_RECORD_BYTES :: nat where "WATCHDOG_RECORD_BYTES = 284"
definition WATCHDOG_RECORD_MAGIC :: u32 where "WATCHDOG_RECORD_MAGIC = 0x3152494c"
definition WATCHDOG_RECORD_VERSION :: u16 where "WATCHDOG_RECORD_VERSION = 2"
definition WATCHDOG_RECORD_CRC_OFFSET :: nat where "WATCHDOG_RECORD_CRC_OFFSET = 280"

definition record_error :: watchdog_error where
  "record_error = InvalidContract ''Watchdog sample record is corrupt or incompatible''"

text \<open>The body of the inner loop of \<open>watchdog_crc32\<close>, and its eight rounds for one byte.\<close>

definition crc_round :: "u32 \<Rightarrow> u32" where
  "crc_round checksum = drop_bit 1 checksum XOR (0xedb88320 AND (0 - (checksum AND 1)))"

definition crc_byte :: "byte \<Rightarrow> u32 \<Rightarrow> u32" where
  "crc_byte b checksum = (crc_round ^^ 8) (checksum XOR ucast b)"

definition watchdog_crc32 :: "byte list \<Rightarrow> u32" where
  "watchdog_crc32 input = NOT (fold crc_byte input 0xffffffff)"

text \<open>A put is the offset and the bytes that \<open>copy_from_slice\<close> writes there.\<close>

type_synonym put = "nat \<times> byte list"

definition put_u8 :: "nat \<Rightarrow> byte \<Rightarrow> put" where "put_u8 offset value = (offset, [value])"
definition put_u16 :: "nat \<Rightarrow> u16 \<Rightarrow> put" where "put_u16 offset value = (offset, to_le 2 value)"
definition put_u32 :: "nat \<Rightarrow> u32 \<Rightarrow> put" where "put_u32 offset value = (offset, to_le 4 value)"
definition put_u64 :: "nat \<Rightarrow> u64 \<Rightarrow> put" where "put_u64 offset value = (offset, to_le 8 value)"

definition write_put :: "put \<Rightarrow> byte list \<Rightarrow> byte list" where
  "write_put p output = splice (fst p) (snd p) output"

definition get_u16 :: "byte list \<Rightarrow> nat \<Rightarrow> u16" where "get_u16 input offset = from_le (slice offset 2 input)"
definition get_u32 :: "byte list \<Rightarrow> nat \<Rightarrow> u32" where "get_u32 input offset = from_le (slice offset 4 input)"
definition get_u64 :: "byte list \<Rightarrow> nat \<Rightarrow> u64" where "get_u64 input offset = from_le (slice offset 8 input)"

text \<open>The puts of \<open>encode_watchdog_record\<close> before the checksum, in its order.\<close>

definition record_puts :: "watchdog_sample \<Rightarrow> put list" where
  "record_puts sample =
     (let t = telemetry sample in
      [put_u32 0 WATCHDOG_RECORD_MAGIC, put_u16 4 WATCHDOG_RECORD_VERSION,
       put_u16 6 (of_nat WATCHDOG_RECORD_BYTES), put_u64 8 (sequence sample),
       put_u64 16 (unix_milliseconds sample), put_u64 24 (monotonic_milliseconds sample),
       put_u8 32 (cpu_core_count t), put_u8 33 (flags t), put_u8 34 (cpu_percent t),
       put_u8 35 (gpu_percent t), put_u8 36 (memory_percent t), put_u8 37 (disk_percent t),
       put_u8 38 (gpu_memory_percent t), put_u8 39 (workload_type t), (40, cpu_core_percent t),
       (72, gpu_engine_percent t), put_u16 78 (system_temp_deci_c t), put_u16 80 (gpu_temp_deci_c t),
       put_u16 82 (nvme_temp_deci_c t), put_u16 84 (power_deci_w t), put_u16 86 (load1_centi t),
       put_u32 88 (memory_used_mib t), put_u32 92 (memory_total_mib t), put_u32 96 (disk_used_mib t),
       put_u32 100 (disk_total_mib t), put_u32 104 (network_rx_kib_s t),
       put_u32 108 (network_tx_kib_s t), put_u32 112 (disk_read_kib_s t),
       put_u32 116 (disk_write_kib_s t), put_u32 120 (workload_id t), put_u32 124 (cpu_clock_mhz t),
       put_u32 128 (gpu_clock_mhz t), put_u32 132 (vram_clock_mhz t),
       put_u32 136 (system_ram_clock_mhz t), put_u32 140 (active_requests t),
       put_u32 144 (queued_requests t), put_u64 148 (requests_received t),
       put_u64 156 (requests_admitted t), put_u64 164 (requests_completed t),
       put_u64 172 (requests_failed t), put_u64 180 (requests_cancelled t),
       put_u64 188 (requests_retried t), put_u64 196 (input_tokens t), put_u64 204 (output_tokens t),
       put_u64 212 (cached_tokens t), put_u64 220 (queue_milliseconds t),
       put_u64 228 (ttft_milliseconds t), put_u64 236 (decode_milliseconds t),
       put_u64 244 (exact_token_requests t), put_u64 252 (prefix_cache_hits t),
       put_u64 260 (usage_records_dropped t), put_u64 268 (usage_write_errors t),
       put_u32 276 (connected_clients t)])"

definition encode_watchdog_record :: "watchdog_sample \<Rightarrow> watchdog_error + byte list" where
  "encode_watchdog_record sample =
     (if unat (cpu_core_count (telemetry sample)) > WATCHDOG_MAX_CPU_CORES then Inl record_error
      else let output = fold write_put (record_puts sample) (replicate WATCHDOG_RECORD_BYTES 0);
               checksum = watchdog_crc32 (take WATCHDOG_RECORD_CRC_OFFSET output)
           in Inr (write_put (put_u32 WATCHDOG_RECORD_CRC_OFFSET checksum) output))"

definition decode_telemetry :: "byte list \<Rightarrow> sample_telemetry" where
  "decode_telemetry input =
     \<lparr>cpu_core_count = input ! 32, flags = input ! 33, cpu_percent = input ! 34,
      gpu_percent = input ! 35, memory_percent = input ! 36, disk_percent = input ! 37,
      gpu_memory_percent = input ! 38, workload_type = input ! 39,
      cpu_core_percent = slice 40 WATCHDOG_MAX_CPU_CORES input,
      gpu_engine_percent = slice 72 WATCHDOG_GPU_ENGINES input, system_temp_deci_c = get_u16 input 78,
      gpu_temp_deci_c = get_u16 input 80, nvme_temp_deci_c = get_u16 input 82,
      power_deci_w = get_u16 input 84, load1_centi = get_u16 input 86,
      memory_used_mib = get_u32 input 88, memory_total_mib = get_u32 input 92,
      disk_used_mib = get_u32 input 96, disk_total_mib = get_u32 input 100,
      network_rx_kib_s = get_u32 input 104, network_tx_kib_s = get_u32 input 108,
      disk_read_kib_s = get_u32 input 112, disk_write_kib_s = get_u32 input 116,
      workload_id = get_u32 input 120, cpu_clock_mhz = get_u32 input 124,
      gpu_clock_mhz = get_u32 input 128, vram_clock_mhz = get_u32 input 132,
      system_ram_clock_mhz = get_u32 input 136, active_requests = get_u32 input 140,
      queued_requests = get_u32 input 144, connected_clients = get_u32 input 276,
      requests_received = get_u64 input 148, requests_admitted = get_u64 input 156,
      requests_completed = get_u64 input 164, requests_failed = get_u64 input 172,
      requests_cancelled = get_u64 input 180, requests_retried = get_u64 input 188,
      input_tokens = get_u64 input 196, output_tokens = get_u64 input 204,
      cached_tokens = get_u64 input 212, queue_milliseconds = get_u64 input 220,
      ttft_milliseconds = get_u64 input 228, decode_milliseconds = get_u64 input 236,
      exact_token_requests = get_u64 input 244, prefix_cache_hits = get_u64 input 252,
      usage_records_dropped = get_u64 input 260, usage_write_errors = get_u64 input 268\<rparr>"

definition decode_watchdog_record :: "byte list \<Rightarrow> watchdog_error + watchdog_sample" where
  "decode_watchdog_record input =
     (if length input \<noteq> WATCHDOG_RECORD_BYTES
         \<or> get_u32 input 0 \<noteq> WATCHDOG_RECORD_MAGIC
         \<or> get_u16 input 4 \<noteq> WATCHDOG_RECORD_VERSION
         \<or> unat (get_u16 input 6) \<noteq> WATCHDOG_RECORD_BYTES
         \<or> get_u32 input WATCHDOG_RECORD_CRC_OFFSET \<noteq> watchdog_crc32 (take WATCHDOG_RECORD_CRC_OFFSET input)
         \<or> unat (input ! 32) > WATCHDOG_MAX_CPU_CORES
      then Inl record_error
      else from_record (get_u64 input 8) (get_u64 input 16) (get_u64 input 24) (decode_telemetry input))"

section \<open>Contiguous puts\<close>

fun contiguous :: "nat \<Rightarrow> put list \<Rightarrow> bool" where
  "contiguous a [] \<longleftrightarrow> True"
| "contiguous a (p # ps) \<longleftrightarrow> fst p = a \<and> contiguous (a + length (snd p)) ps"

abbreviation put_bytes_of :: "put list \<Rightarrow> byte list" where
  "put_bytes_of ps \<equiv> concat (map snd ps)"

lemma fold_write_contiguous:
  "contiguous (length pre) ps \<Longrightarrow> length (put_bytes_of ps) \<le> n \<Longrightarrow>
   fold write_put ps (pre @ replicate n 0) = pre @ put_bytes_of ps @ replicate (n - length (put_bytes_of ps)) 0"
proof (induction ps arbitrary: pre n)
  case Nil
  then show ?case by simp
next
  case (Cons p ps)
  then have "write_put p (pre @ replicate n 0) = (pre @ snd p) @ replicate (n - length (snd p)) 0"
    by (simp add: write_put_def splice_append)
  with Cons.IH [of "pre @ snd p" "n - length (snd p)"] Cons.prems show ?case
    by (simp add: diff_diff_left)
qed

lemma slice_put:
  "contiguous (length pre) ps \<Longrightarrow> p \<in> set ps \<Longrightarrow>
   slice (fst p) (length (snd p)) (pre @ put_bytes_of ps @ post) = snd p"
proof (induction ps arbitrary: pre)
  case Nil
  then show ?case by simp
next
  case (Cons q ps)
  show ?case
  proof (cases "p = q")
    case True
    with Cons.prems show ?thesis by (simp add: slice_append flip: append_assoc)
      (simp add: slice_append)
  next
    case False
    with Cons.prems Cons.IH [of "pre @ snd q"] show ?thesis by simp
  qed
qed

lemma slice_join: "slice a n bs @ slice (a + n) m bs = slice a (n + m) bs"
  by (metis slice_def take_add drop_drop add.commute)

lemma puts_of_slices:
  "contiguous a ps \<Longrightarrow> \<forall>p\<in>set ps. snd p = slice (fst p) (length (snd p)) bs \<Longrightarrow>
   put_bytes_of ps = slice a (length (put_bytes_of ps)) bs"
proof (induction ps arbitrary: a)
  case Nil
  then show ?case by (simp add: slice_def)
next
  case (Cons p ps)
  then have "put_bytes_of ps = slice (a + length (snd p)) (length (put_bytes_of ps)) bs"
    and "snd p = slice a (length (snd p)) bs"
    by auto
  then show ?case by (metis concat.simps(2) length_append list.simps(9) slice_join)
qed

section \<open>Checksum\<close>

text \<open>
  One round is injective: the polynomial has its top bit set and the shifted state has it clear, so
  the top bit of the result tells which bit was shifted out.
\<close>

lemma crc_mask_bit: "bit (0xedb88320 AND - (c AND 1) :: u32) n \<longleftrightarrow> bit (0xedb88320 :: u32) n \<and> bit c 0"
proof (cases "bit c 0")
  case True
  then have "c AND 1 = 1" by (simp add: and_one_eq bit_0 odd_iff_mod_2_eq_one)
  then show ?thesis using True by (auto simp: bit_and_iff bit_minus_1_iff dest: bit_imp_le_length)
next
  case False
  then have "c AND 1 = 0" by (simp add: and_one_eq bit_0 even_iff_mod_2_eq_zero)
  then show ?thesis using False by simp
qed

lemma bit_crc_round:
  "bit (crc_round c) n \<longleftrightarrow> (bit c (Suc n) \<noteq> (bit (0xedb88320 :: u32) n \<and> bit c 0))"
  by (simp add: crc_round_def bit_xor_iff bit_drop_bit_eq crc_mask_bit)

lemma crc_round_inj: "crc_round c = crc_round d \<Longrightarrow> c = d"
proof (rule bit_word_eqI)
  fix n
  assume eq: "crc_round c = crc_round d" and n: "n < LENGTH(32)"
  have all: "(bit c (Suc k) \<noteq> (bit (0xedb88320 :: u32) k \<and> bit c 0)) \<longleftrightarrow>
      (bit d (Suc k) \<noteq> (bit (0xedb88320 :: u32) k \<and> bit d 0))" for k
    using eq bit_crc_round by metis
  have "bit (0xedb88320 :: u32) 31" by simp
  moreover have "\<not> bit c 32" "\<not> bit d 32" by (auto dest: bit_imp_le_length)
  ultimately have "bit c 0 \<longleftrightarrow> bit d 0" using all [of 31] by simp
  with all show "bit c n \<longleftrightarrow> bit d n" by (cases n) auto
qed

lemma crc_rounds_inj: "(crc_round ^^ k) c = (crc_round ^^ k) d \<Longrightarrow> c = d"
  by (induction k) (auto dest: crc_round_inj)

lemma xor_left_cancel: "(a XOR b = a XOR c) \<longleftrightarrow> b = (c :: 'a::len word)"
  by (metis xor.assoc xor_self_eq xor.left_neutral)

lemma crc_byte_inj: "crc_byte b c = crc_byte b d \<Longrightarrow> c = d"
  using crc_rounds_inj [of 8 "c XOR ucast b" "d XOR ucast b"]
  by (simp add: crc_byte_def) (metis xor.commute xor_left_cancel)

lemma crc_byte_value_inj: "crc_byte b c = crc_byte b' c \<Longrightarrow> b = b'"
proof -
  assume "crc_byte b c = crc_byte b' c"
  then have eq: "ucast b = (ucast b' :: u32)"
    using crc_rounds_inj [of 8 "c XOR ucast b" "c XOR ucast b'"] by (simp add: crc_byte_def xor_left_cancel)
  have "bit b n \<longleftrightarrow> bit b' n" if "n < 8" for n
    using arg_cong [OF eq, of "\<lambda>w. bit w n"] that by (simp add: bit_ucast_iff)
  then show ?thesis by (intro bit_word_eqI) simp
qed

lemma fold_crc_inj: "fold crc_byte bs c = fold crc_byte bs d \<Longrightarrow> c = d"
  by (induction bs arbitrary: c d) (auto dest: crc_byte_inj)

text \<open>Two inputs of which exactly one byte differs have different checksums.\<close>

lemma crc32_single_byte:
  assumes "i < length bs" and "b \<noteq> bs ! i"
  shows "watchdog_crc32 (bs[i := b]) \<noteq> watchdog_crc32 bs"
proof
  assume eq: "watchdog_crc32 (bs[i := b]) = watchdog_crc32 bs"
  let ?c = "fold crc_byte (take i bs) 0xffffffff"
  have split: "bs = take i bs @ bs ! i # drop (Suc i) bs" "bs[i := b] = take i bs @ b # drop (Suc i) bs"
    using assms(1) by (simp_all add: id_take_nth_drop upd_conv_take_nth_drop)
  have "fold crc_byte (bs[i := b]) 0xffffffff = fold crc_byte bs 0xffffffff"
    using eq by (simp add: watchdog_crc32_def)
  then have "fold crc_byte (drop (Suc i) bs) (crc_byte b ?c) = fold crc_byte (drop (Suc i) bs) (crc_byte (bs ! i) ?c)"
    by (subst (asm) split(2), subst (asm) (2) split(1)) (simp only: fold_append fold.simps comp_apply)
  then show False using assms(2) by (metis fold_crc_inj crc_byte_value_inj)
qed

section \<open>Layout of the record\<close>

text \<open>The arrays of the telemetry have their declared lengths.\<close>

definition telemetry_ok :: "sample_telemetry \<Rightarrow> bool" where
  "telemetry_ok t \<longleftrightarrow> length (cpu_core_percent t) = WATCHDOG_MAX_CPU_CORES
     \<and> length (gpu_engine_percent t) = WATCHDOG_GPU_ENGINES \<and> unat (cpu_core_count t) \<le> WATCHDOG_MAX_CPU_CORES"

abbreviation sample_ok :: "watchdog_sample \<Rightarrow> bool" where
  "sample_ok s \<equiv> telemetry_ok (telemetry s)"

lemmas put_defs = put_u8_def put_u16_def put_u32_def put_u64_def
lemmas record_constants = WATCHDOG_RECORD_BYTES_def WATCHDOG_RECORD_CRC_OFFSET_def
  WATCHDOG_MAX_CPU_CORES_def WATCHDOG_GPU_ENGINES_def

lemma record_puts_contiguous:
  assumes "telemetry_ok (telemetry s)"
  shows "contiguous 0 (record_puts s)" and "length (put_bytes_of (record_puts s)) = 280"
  using assms by (simp_all add: record_puts_def telemetry_ok_def put_defs record_constants Let_def)

definition record_bytes :: "watchdog_sample \<Rightarrow> byte list" where
  "record_bytes s = (let body = put_bytes_of (record_puts s) in body @ to_le 4 (watchdog_crc32 body))"

lemma encode_record_bytes:
  assumes "sample_ok s"
  shows "encode_watchdog_record s = Inr (record_bytes s)"
proof -
  let ?body = "put_bytes_of (record_puts s)"
  have "fold write_put (record_puts s) (replicate 284 0) = ?body @ replicate 4 0"
    using fold_write_contiguous [of "[]" "record_puts s" 284] record_puts_contiguous [OF assms] by simp
  with assms record_puts_contiguous(2) [OF assms] show ?thesis
    by (simp add: encode_watchdog_record_def record_bytes_def Let_def put_u32_def write_put_def splice_def
        record_constants telemetry_ok_def)
qed

lemma length_record_bytes: "sample_ok s \<Longrightarrow> length (record_bytes s) = 284"
  by (simp add: record_bytes_def Let_def record_puts_contiguous)

lemma record_bytes_slices:
  assumes "sample_ok s"
  shows "list_all (\<lambda>p. slice (fst p) (length (snd p)) (record_bytes s) = snd p) (record_puts s)"
  using slice_put [of "[]" "record_puts s" _ "to_le 4 (watchdog_crc32 (put_bytes_of (record_puts s)))"]
    record_puts_contiguous(1) [OF assms]
  by (simp add: list_all_iff record_bytes_def Let_def)

lemma nth_of_slice: "slice a (Suc 0) bs = [b] \<Longrightarrow> bs ! a = b"
  by (cases "a < length bs") (simp_all add: slice_def take_Suc hd_drop_conv_nth)

lemma slice_of_nth: "a < length bs \<Longrightarrow> slice a (Suc 0) bs = [bs ! a]"
  by (simp add: slice_def take_Suc hd_drop_conv_nth)


lemma decode_record_bytes:
  assumes "sample_ok s"
  shows "decode_watchdog_record (record_bytes s) = Inr s"
proof -
  let ?out = "record_bytes s"
  note fields = record_bytes_slices [OF assms, unfolded record_puts_def Let_def put_defs, simplified]
  have arrays: "slice 40 32 ?out = cpu_core_percent (telemetry s)" "slice 72 6 ?out = gpu_engine_percent (telemetry s)"
    using fields assms by (auto simp: telemetry_ok_def record_constants)
  have tel: "decode_telemetry ?out = telemetry s"
    using fields arrays
    by (simp add: decode_telemetry_def get_u16_def get_u32_def get_u64_def record_constants nth_of_slice)
  have crc: "get_u32 ?out 280 = watchdog_crc32 (take 280 ?out)"
    using record_puts_contiguous(2) [OF assms] by (simp add: record_bytes_def Let_def get_u32_def slice_def)
  have head: "get_u32 ?out 0 = WATCHDOG_RECORD_MAGIC" "get_u16 ?out 4 = WATCHDOG_RECORD_VERSION"
    "unat (get_u16 ?out 6) = 284" "get_u64 ?out 8 = sequence s" "get_u64 ?out 16 = unix_milliseconds s"
    "get_u64 ?out 24 = monotonic_milliseconds s" "?out ! 32 = cpu_core_count (telemetry s)"
    using fields by (simp_all add: get_u16_def get_u32_def get_u64_def record_constants nth_of_slice)
  show ?thesis
    using assms length_record_bytes [OF assms]
    by (simp add: decode_watchdog_record_def tel crc head record_constants telemetry_ok_def from_record_def)
qed

lemma to_le_get [simp]:
  "offset + 2 \<le> length bs \<Longrightarrow> to_le 2 (get_u16 bs offset) = slice offset 2 bs"
  "offset + 4 \<le> length bs \<Longrightarrow> to_le 4 (get_u32 bs offset) = slice offset 4 bs"
  "offset + 8 \<le> length bs \<Longrightarrow> to_le 8 (get_u64 bs offset) = slice offset 8 bs"
  using to_from_le [of "slice offset 2 bs", where 'a = 16] to_from_le [of "slice offset 4 bs", where 'a = 32]
    to_from_le [of "slice offset 8 bs", where 'a = 64]
  by (simp_all add: get_u16_def get_u32_def get_u64_def)

lemma decode_canonical:
  assumes "decode_watchdog_record bs = Inr s"
  shows "sample_ok s" and "record_bytes s = bs"
proof -
  have accepted: "length bs = 284" "get_u32 bs 0 = WATCHDOG_RECORD_MAGIC" "get_u16 bs 4 = WATCHDOG_RECORD_VERSION"
    "unat (get_u16 bs 6) = 284" "get_u32 bs 280 = watchdog_crc32 (take 280 bs)" "unat (bs ! 32) \<le> 32"
    and s: "s = \<lparr>sequence = get_u64 bs 8, unix_milliseconds = get_u64 bs 16,
      monotonic_milliseconds = get_u64 bs 24, telemetry = decode_telemetry bs\<rparr>"
    using assms by (auto simp: decode_watchdog_record_def record_constants from_record_def bind_result_eq_Inr
        split: if_splits)
  show ok: "sample_ok s"
    using accepted(1,6) by (simp add: s telemetry_ok_def decode_telemetry_def record_constants)
  have len: "284 = get_u16 bs 6" using accepted(4) by (simp add: word_unat_eq_iff)
  have "list_all (\<lambda>p. snd p = slice (fst p) (length (snd p)) bs) (record_puts s)"
    unfolding record_puts_def Let_def put_defs s
    by (simp add: decode_telemetry_def accepted(1) record_constants slice_of_nth flip: accepted(2,3))
      (simp add: accepted(1) len)
  then have "put_bytes_of (record_puts s) = take 280 bs"
    using puts_of_slices [OF record_puts_contiguous(1) [OF ok], of bs] record_puts_contiguous(2) [OF ok]
    by (simp add: list_all_iff slice_def)
  moreover have "to_le 4 (watchdog_crc32 (take 280 bs)) = drop 280 bs"
    using accepted(1) to_le_get(2) [of 280 bs] accepted(5) by (simp add: slice_def)
  ultimately show "record_bytes s = bs"
    by (simp add: record_bytes_def)
qed

section \<open>Properties\<close>

text \<open>
  encoding and decoding are inverse. A sample whose arrays have their declared sizes and whose core
  count is within bounds is encoded in exactly 284 bytes, and bytes decode to a sample if and only if
  the sample is within these bounds and the bytes are its encoding, so two different byte strings never
  hold the same sample.
\<close>

theorem watchdog_record_round_trip:
  "(sample_ok s \<longrightarrow> (\<exists>bs. encode_watchdog_record s = Inr bs \<and> length bs = WATCHDOG_RECORD_BYTES)) \<and>
   (decode_watchdog_record bs = Inr s \<longleftrightarrow> sample_ok s \<and> encode_watchdog_record s = Inr bs)"
proof -
  have "encode_watchdog_record s = Inr bs \<and> sample_ok s" if "decode_watchdog_record bs = Inr s"
    using encode_record_bytes [OF decode_canonical(1) [OF that]] decode_canonical [OF that] by simp
  then show ?thesis
    by (auto simp: encode_record_bytes length_record_bytes decode_record_bytes WATCHDOG_RECORD_BYTES_def)
qed

definition small_sample :: watchdog_sample where
  "small_sample = \<lparr>sequence = 3, unix_milliseconds = 61500, monotonic_milliseconds = 9, telemetry = default_telemetry\<rparr>"

lemma small_sample_ok: "sample_ok small_sample"
  by (simp add: small_sample_def default_telemetry_def telemetry_ok_def)

theorem watchdog_record_round_trip_witness:
  "sample_ok small_sample \<and> (\<exists>bs. encode_watchdog_record small_sample = Inr bs \<and>
     decode_watchdog_record bs = Inr small_sample \<and> length bs = WATCHDOG_RECORD_BYTES)"
  using watchdog_record_round_trip [of small_sample] small_sample_ok by blast

text \<open>
  damage to a single byte is always detected. If a record is accepted, then the same record
  with any one of its 284 bytes replaced by another value is rejected.
\<close>

theorem single_byte_damage_detected:
  assumes "decode_watchdog_record bs = Inr s" and "i < WATCHDOG_RECORD_BYTES" and "b \<noteq> bs ! i"
  shows "decode_watchdog_record (bs[i := b]) = Inl record_error"
proof -
  let ?bs = "bs[i := b]"
  have len: "length bs = 284" and crc: "get_u32 bs 280 = watchdog_crc32 (take 280 bs)"
    using assms(1) by (auto simp: decode_watchdog_record_def record_constants split: if_splits)
  have "get_u32 ?bs 280 \<noteq> watchdog_crc32 (take 280 ?bs)"
  proof (cases "i < 280")
    case True
    then have "get_u32 ?bs 280 = get_u32 bs 280" by (simp add: get_u32_def slice_def drop_update_cancel)
    moreover have "watchdog_crc32 (take 280 ?bs) \<noteq> watchdog_crc32 (take 280 bs)"
      using crc32_single_byte [of i "take 280 bs" b] True len assms(3) by (simp add: take_update_swap)
    ultimately show ?thesis using crc by simp
  next
    case False
    have "slice 280 4 ?bs \<noteq> slice 280 4 bs"
      using False assms(2,3) len
      by (auto simp: slice_def drop_update_swap list_eq_iff_nth_eq WATCHDOG_RECORD_BYTES_def nth_list_update
          intro!: exI [of _ "i - 280"])
    moreover have "slice 280 4 ?bs = to_le 4 (get_u32 ?bs 280)" "slice 280 4 bs = to_le 4 (get_u32 bs 280)"
      using len by simp_all
    ultimately have "get_u32 ?bs 280 \<noteq> get_u32 bs 280" by auto
    then show ?thesis using False crc by simp
  qed
  then show ?thesis by (simp add: decode_watchdog_record_def record_constants)
qed

theorem single_byte_damage_detected_witness:
  "decode_watchdog_record ((record_bytes small_sample)[32 := 1]) = Inl record_error"
proof -
  have "record_bytes small_sample ! 32 = 0"
    using record_bytes_slices [OF small_sample_ok, unfolded record_puts_def Let_def put_defs]
    by (simp add: small_sample_def default_telemetry_def nth_of_slice)
  then show ?thesis
    by (intro single_byte_damage_detected [OF decode_record_bytes [OF small_sample_ok]])
      (simp_all add: WATCHDOG_RECORD_BYTES_def)
qed

end
