(* ===== verification/WatchdogRing.thy ===== *)
theory WatchdogRing
  imports WatchdogRecord "HOL-Library.Sublist"
begin

text \<open>
  The fixed-slot sample ring of the watchdog, \<open>core/watchdog/src/li_watchdog_ring.rs\<close>: a file of
  \<open>capacity\<close> record slots in which a sample goes to the slot of its time bucket modulo the capacity.
  The content of the file is a byte list; how many bytes one native call moves, and whether it fails,
  is a parameter. Shown here: the ring refines a map from time buckets to samples that forgets a
  bucket when another one takes its slot, bounded history queries are exact, and scans find the
  newest sample and any retained sequence.
\<close>

section \<open>Files\<close>

text \<open>
  What the native calls do: whether \<open>length\<close>, \<open>set_length\<close> and \<open>synchronize\<close> succeed, and for a
  transfer at an offset of a number of bytes the number of bytes it moves (\<open>None\<close> when it fails).
  Interrupted calls are retried by \<open>SystemWatchdogRingFile\<close>, so they are not an outcome.
\<close>

record ring_io =
  length_ok :: bool
  set_length_ok :: bool
  read_count :: "nat \<Rightarrow> nat \<Rightarrow> nat option"
  write_count :: "nat \<Rightarrow> nat \<Rightarrow> nat option"
  sync_ok :: bool

definition storage_io_error :: "string \<Rightarrow> watchdog_error" where
  "storage_io_error reason = Provider ''storage'' reason"

definition file_length :: "ring_io \<Rightarrow> byte list \<Rightarrow> watchdog_error + nat" where
  "file_length io content =
     (if length_ok io then Inr (length content) else Inl (storage_io_error ''ring length could not be read''))"

definition set_length :: "ring_io \<Rightarrow> nat \<Rightarrow> byte list \<Rightarrow> watchdog_error + byte list" where
  "set_length io len content =
     (if set_length_ok io then Inr (content @ replicate (len - length content) 0)
      else Inl (storage_io_error ''ring extent could not be allocated''))"

definition file_read_at :: "ring_io \<Rightarrow> byte list \<Rightarrow> nat \<Rightarrow> nat \<Rightarrow> watchdog_error + byte list" where
  "file_read_at io content offset len =
     (case read_count io offset len of
        None \<Rightarrow> Inl (storage_io_error ''ring record could not be read'')
      | Some n \<Rightarrow> Inr (slice offset (min n len) content))"

definition file_write_at :: "ring_io \<Rightarrow> byte list \<Rightarrow> nat \<Rightarrow> byte list \<Rightarrow> watchdog_error + nat \<times> byte list" where
  "file_write_at io content offset input =
     (case write_count io offset (length input) of
        None \<Rightarrow> Inl (storage_io_error ''ring record could not be written'')
      | Some n \<Rightarrow> let k = min n (length input) in Inr (k, splice offset (take k input) content))"

definition file_synchronize :: "ring_io \<Rightarrow> watchdog_error + unit" where
  "file_synchronize io = ensure (sync_ok io) (storage_io_error ''ring could not be synchronized'')"

text \<open>\<open>read_exact\<close>: \<open>acc\<close> is the filled part of the output; the end of the file reads as zeros.\<close>

function ring_read_loop :: "ring_io \<Rightarrow> byte list \<Rightarrow> nat \<Rightarrow> nat \<Rightarrow> byte list \<Rightarrow> watchdog_error + byte list" where
  "ring_read_loop io content offset len acc =
     (if length acc < len
      then case file_read_at io content (offset + length acc) (len - length acc) of
             Inl e \<Rightarrow> Inl e
           | Inr bs \<Rightarrow>
               if bs = [] then Inr (acc @ replicate (len - length acc) 0)
               else ring_read_loop io content offset len (acc @ bs)
      else Inr acc)"
  by pat_completeness auto
termination
  by (relation "measure (\<lambda>(io, content, offset, len, acc). len - length acc)")
    (auto simp flip: length_greater_0_conv)

declare ring_read_loop.simps [simp del]

definition ring_read_exact :: "ring_io \<Rightarrow> byte list \<Rightarrow> nat \<Rightarrow> nat \<Rightarrow> watchdog_error + byte list" where
  "ring_read_exact io content offset len = ring_read_loop io content offset len []"

text \<open>
  \<open>write_exact\<close> of the ring and of the event journal, which differ in the message of a write without
  progress: the result and the content, which a failure leaves partly overwritten.
\<close>

function ring_write_exact :: "string \<Rightarrow> ring_io \<Rightarrow> byte list \<Rightarrow> nat \<Rightarrow> byte list \<Rightarrow> (watchdog_error + unit) \<times> byte list" where
  "ring_write_exact no_progress io content offset input =
     (if input = [] then (Inr (), content)
      else case file_write_at io content offset input of
             Inl e \<Rightarrow> (Inl e, content)
           | Inr (n, content') \<Rightarrow>
               if n = 0 then (Inl (storage_io_error no_progress), content)
               else ring_write_exact no_progress io content' (offset + n) (drop n input))"
  by pat_completeness auto
termination
  by (relation "measure (\<lambda>(no_progress, io, content, offset, input). length input)") (auto simp: length_greater_0_conv)

declare ring_write_exact.simps [simp del]

section \<open>The ring\<close>

record ring_layout =
  interval_milliseconds :: nat
  capacity :: nat

definition ring_layout_new :: "nat \<Rightarrow> nat \<Rightarrow> watchdog_error + ring_layout" where
  "ring_layout_new interval cap =
     (if interval = 0 \<or> cap = 0
         \<or> (case checked_mul64 cap WATCHDOG_RECORD_BYTES of None \<Rightarrow> True | Some bytes \<Rightarrow> bytes > 2 ^ 63 - 1)
      then Inl (InvalidContract ''Watchdog ring layout is invalid or too large'')
      else Inr \<lparr>interval_milliseconds = interval, capacity = cap\<rparr>)"

definition byte_length :: "ring_layout \<Rightarrow> nat" where
  "byte_length l = capacity l * WATCHDOG_RECORD_BYTES"

definition with_file :: "ring_io \<Rightarrow> ring_layout \<Rightarrow> byte list \<Rightarrow> watchdog_error + byte list" where
  "with_file io l content =
     bind_result (file_length io content) (\<lambda>observed.
     bind_result (ensure (\<not> observed > byte_length l) (storage_io_error ''ring file exceeds its closed capacity'')) (\<lambda>_.
     bind_result (if observed < byte_length l then set_length io (byte_length l) content else Inr content) (\<lambda>content'.
     bind_result (file_length io content') (\<lambda>final.
     bind_result (ensure (final = byte_length l) (storage_io_error ''ring file has an incomplete extent'')) (\<lambda>_.
     Inr content')))))"

definition bucket_of :: "ring_layout \<Rightarrow> watchdog_sample \<Rightarrow> nat" where
  "bucket_of l s = unat (unix_milliseconds s) div interval_milliseconds l"

definition bucket_offset :: "ring_layout \<Rightarrow> nat \<Rightarrow> watchdog_error + nat" where
  "bucket_offset l bucket =
     of_option (InvalidContract ''Watchdog ring offset overflowed'')
       (checked_mul64 (bucket mod capacity l) WATCHDOG_RECORD_BYTES)"

definition ring_write :: "ring_io \<Rightarrow> ring_layout \<Rightarrow> byte list \<Rightarrow> watchdog_sample \<Rightarrow> (watchdog_error + unit) \<times> byte list" where
  "ring_write io l content sample =
     (case encode_watchdog_record sample of
        Inl e \<Rightarrow> (Inl e, content)
      | Inr rec \<Rightarrow>
          (case bucket_offset l (bucket_of l sample) of
             Inl e \<Rightarrow> (Inl e, content)
           | Inr offset \<Rightarrow> ring_write_exact ''ring write made no progress'' io content offset rec))"

definition read_bucket :: "ring_io \<Rightarrow> ring_layout \<Rightarrow> byte list \<Rightarrow> nat \<Rightarrow> watchdog_error + watchdog_sample option" where
  "read_bucket io l content bucket =
     bind_result (bucket_offset l bucket) (\<lambda>offset.
     bind_result (ring_read_exact io content offset WATCHDOG_RECORD_BYTES) (\<lambda>rec.
     Inr (case decode_watchdog_record rec of
            Inl _ \<Rightarrow> None
          | Inr sample \<Rightarrow> if bucket_of l sample = bucket then Some sample else None)))"

record ring_history =
  samples :: "watchdog_sample list"
  missing_buckets :: "nat list"

definition in_range :: "nat \<Rightarrow> nat \<Rightarrow> watchdog_sample \<Rightarrow> bool" where
  "in_range start stop s \<longleftrightarrow> unat (unix_milliseconds s) \<ge> start \<and> unat (unix_milliseconds s) \<le> stop"

function query_loop ::
  "ring_io \<Rightarrow> ring_layout \<Rightarrow> byte list \<Rightarrow> nat \<Rightarrow> nat \<Rightarrow> nat \<Rightarrow> nat \<Rightarrow> nat \<Rightarrow> watchdog_sample list \<Rightarrow> nat list \<Rightarrow>
   watchdog_error + ring_history" where
  "query_loop io l content start stop limit final bucket found missing =
     bind_result (read_bucket io l content bucket) (\<lambda>r.
       let hit = (case r of None \<Rightarrow> False | Some s \<Rightarrow> in_range start stop s);
           found' = (if hit then found @ [the r] else found);
           missing' = (if hit then missing else missing @ [bucket])
       in if hit \<and> length found' = limit then Inr \<lparr>samples = found', missing_buckets = missing'\<rparr>
          else if bucket = final \<or> bucket \<ge> u64_max then Inr \<lparr>samples = found', missing_buckets = missing'\<rparr>
          else query_loop io l content start stop limit final (bucket + 1) found' missing')"
  by pat_completeness auto
termination
  by (relation "measure (\<lambda>(io, l, content, start, stop, limit, final, bucket, found, missing). u64_max - bucket)") auto

declare query_loop.simps [simp del]

definition query :: "ring_io \<Rightarrow> ring_layout \<Rightarrow> byte list \<Rightarrow> nat \<Rightarrow> nat \<Rightarrow> nat \<Rightarrow> watchdog_error + ring_history" where
  "query io l content start stop limit =
     bind_result (ensure (\<not> (stop < start \<or> limit = 0 \<or> limit > capacity l))
       (InvalidContract ''Watchdog ring query range or limit is invalid'')) (\<lambda>_.
     let first = start div interval_milliseconds l; final = stop div interval_milliseconds l in
     bind_result (of_option (InvalidContract ''Watchdog ring query range or limit is invalid'')
       (if first \<le> final then checked_add64 (final - first) 1 else None)) (\<lambda>bucket_count.
     bind_result (ensure (\<not> bucket_count > capacity l)
       (InvalidContract ''Watchdog ring query exceeds retained history'')) (\<lambda>_.
     query_loop io l content start stop limit final first [] [])))"

section \<open>Scans\<close>

definition WATCHDOG_RING_SCAN_RECORDS :: nat where "WATCHDOG_RING_SCAN_RECORDS = 32"

text \<open>The visitor gets its state and a sample and returns the new state and whether to go on.\<close>

fun visit_records ::
  "ring_layout \<Rightarrow> ('a \<Rightarrow> watchdog_sample \<Rightarrow> 'a \<times> bool) \<Rightarrow> nat \<Rightarrow> byte list list \<Rightarrow> 'a \<Rightarrow> 'a \<times> bool" where
  "visit_records l visitor slot [] a = (a, True)"
| "visit_records l visitor slot (rec # recs) a =
     (case decode_watchdog_record rec of
        Inl _ \<Rightarrow> visit_records l visitor (slot + 1) recs a
      | Inr candidate \<Rightarrow>
          if bucket_of l candidate mod capacity l = slot
          then (case visitor a candidate of
                  (a', False) \<Rightarrow> (a', False)
                | (a', True) \<Rightarrow> visit_records l visitor (slot + 1) recs a')
          else visit_records l visitor (slot + 1) recs a)"

fun scan_blocks ::
  "ring_io \<Rightarrow> ring_layout \<Rightarrow> byte list \<Rightarrow> ('a \<Rightarrow> watchdog_sample \<Rightarrow> 'a \<times> bool) \<Rightarrow> nat list \<Rightarrow> 'a \<Rightarrow> watchdog_error + 'a" where
  "scan_blocks io l content visitor [] a = Inr a"
| "scan_blocks io l content visitor (first_slot # slots) a =
     (let record_count = min (capacity l - first_slot) WATCHDOG_RING_SCAN_RECORDS in
      bind_result (ring_read_exact io content (first_slot * WATCHDOG_RECORD_BYTES)
          (record_count * WATCHDOG_RECORD_BYTES)) (\<lambda>records.
      case visit_records l visitor first_slot (chunks_exact WATCHDOG_RECORD_BYTES record_count records) a of
        (a', False) \<Rightarrow> Inr a'
      | (a', True) \<Rightarrow> scan_blocks io l content visitor slots a'))"

definition scan_valid_records ::
  "ring_io \<Rightarrow> ring_layout \<Rightarrow> byte list \<Rightarrow> ('a \<Rightarrow> watchdog_sample \<Rightarrow> 'a \<times> bool) \<Rightarrow> 'a \<Rightarrow> watchdog_error + 'a" where
  "scan_valid_records io l content visitor a =
     scan_blocks io l content visitor (step_by 0 (capacity l) WATCHDOG_RING_SCAN_RECORDS) a"

definition keep_latest :: "watchdog_sample option \<Rightarrow> watchdog_sample \<Rightarrow> watchdog_sample option \<times> bool" where
  "keep_latest best candidate =
     ((case best of None \<Rightarrow> Some candidate
       | Some current \<Rightarrow> if sequence candidate > sequence current then Some candidate else best), True)"

definition keep_sequence :: "u64 \<Rightarrow> watchdog_sample option \<Rightarrow> watchdog_sample \<Rightarrow> watchdog_sample option \<times> bool" where
  "keep_sequence sq found candidate = (if sequence candidate = sq then (Some candidate, False) else (found, True))"

definition latest :: "ring_io \<Rightarrow> ring_layout \<Rightarrow> byte list \<Rightarrow> watchdog_error + watchdog_sample option" where
  "latest io l content = scan_valid_records io l content keep_latest None"

definition find_sequence :: "ring_io \<Rightarrow> ring_layout \<Rightarrow> byte list \<Rightarrow> u64 \<Rightarrow> watchdog_error + watchdog_sample option" where
  "find_sequence io l content sq = scan_valid_records io l content (keep_sequence sq) None"

section \<open>Transfers\<close>

text \<open>Native calls that never fail and always move at least one byte.\<close>

definition readable :: "ring_io \<Rightarrow> bool" where
  "readable io \<longleftrightarrow> (\<forall>offset len. 0 < len \<longrightarrow> (\<exists>n. read_count io offset len = Some n \<and> 0 < n))"

definition writable :: "ring_io \<Rightarrow> bool" where
  "writable io \<longleftrightarrow> (\<forall>offset len. 0 < len \<longrightarrow> (\<exists>n. write_count io offset len = Some n \<and> 0 < n))"

text \<open>
  A native read may fail or be short at any call; it reports the end of the file only at the end of the
  file, as \<open>pread\<close> does.
\<close>

definition honest :: "ring_io \<Rightarrow> bool" where
  "honest io \<longleftrightarrow> (\<forall>offset len. 0 < len \<longrightarrow> read_count io offset len \<noteq> Some 0)"

lemma readable_honest: "readable io \<Longrightarrow> honest io"
  unfolding readable_def honest_def by (metis less_irrefl option.inject)

lemma slice_extend: "a + k + m \<le> length bs \<Longrightarrow> slice a k bs @ slice (a + k) m bs = slice a (k + m) bs"
  by (rule slice_join)

lemma ring_read_loop_ok:
  assumes "readable io" and "offset + len \<le> length content" and "k \<le> len"
  shows "ring_read_loop io content offset len (slice offset k content) = Inr (slice offset len content)"
  using assms(3)
proof (induction "len - k" arbitrary: k rule: less_induct)
  case less
  have len_k: "length (slice offset k content) = k" using less.prems assms(2) by simp
  show ?case
  proof (cases "k < len")
    case False
    with less.prems len_k show ?thesis by (subst ring_read_loop.simps) simp
  next
    case True
    then obtain n where n: "read_count io (offset + k) (len - k) = Some n" "0 < n"
      using assms(1) unfolding readable_def by (meson zero_less_diff)
    let ?m = "min n (len - k)"
    have read: "file_read_at io content (offset + k) (len - k) = Inr (slice (offset + k) ?m content)"
      by (simp add: file_read_at_def n(1))
    have m: "0 < ?m" "k + ?m \<le> len" using n(2) True by auto
    then have "length (slice (offset + k) ?m content) = ?m" using assms(2) by simp
    with m(1) have ne: "slice (offset + k) ?m content \<noteq> []" by (metis less_numeral_extra(3) list.size(3))
    have "ring_read_loop io content offset len (slice offset k content) =
        ring_read_loop io content offset len (slice offset (k + ?m) content)"
      using True len_k read ne by (subst ring_read_loop.simps) (simp add: slice_join)
    also have "\<dots> = Inr (slice offset len content)"
      using m True by (intro less.hyps) auto
    finally show ?thesis .
  qed
qed

lemma ring_read_exact_ok:
  "readable io \<Longrightarrow> offset + len \<le> length content \<Longrightarrow> ring_read_exact io content offset len = Inr (slice offset len content)"
  using ring_read_loop_ok [of io offset len content 0] by (simp add: ring_read_exact_def slice_def)

lemma ring_read_loop_honest:
  assumes "honest io" and "offset + len \<le> length content" and "k \<le> len"
  shows "(\<exists>e. ring_read_loop io content offset len (slice offset k content) = Inl e)
    \<or> ring_read_loop io content offset len (slice offset k content) = Inr (slice offset len content)"
  using assms(3)
proof (induction "len - k" arbitrary: k rule: less_induct)
  case less
  have len_k: "length (slice offset k content) = k" using less.prems assms(2) by simp
  show ?case
  proof (cases "k < len")
    case False
    with less.prems len_k show ?thesis by (subst (2) ring_read_loop.simps) simp
  next
    case True
    show ?thesis
    proof (cases "read_count io (offset + k) (len - k)")
      case None
      then show ?thesis using True len_k by (subst ring_read_loop.simps) (simp add: file_read_at_def)
    next
      case (Some n)
      let ?m = "min n (len - k)"
      have n: "0 < n" using assms(1) Some True unfolding honest_def by (metis neq0_conv zero_less_diff)
      have read: "file_read_at io content (offset + k) (len - k) = Inr (slice (offset + k) ?m content)"
        by (simp add: file_read_at_def Some)
      have m: "0 < ?m" "k + ?m \<le> len" using n True by auto
      then have "length (slice (offset + k) ?m content) = ?m" using assms(2) by simp
      with m(1) have ne: "slice (offset + k) ?m content \<noteq> []" by (metis less_numeral_extra(3) list.size(3))
      have "ring_read_loop io content offset len (slice offset k content) =
          ring_read_loop io content offset len (slice offset (k + ?m) content)"
        using True len_k read ne by (subst ring_read_loop.simps) (simp add: slice_join)
      then show ?thesis using less.hyps [of "k + ?m"] m True by auto
    qed
  qed
qed

text \<open>A read that does not fail gives the bytes of the file.\<close>

lemma ring_read_exact_honest:
  assumes "honest io" and "offset + len \<le> length content"
  shows "(\<exists>e. ring_read_exact io content offset len = Inl e)
    \<or> ring_read_exact io content offset len = Inr (slice offset len content)"
  using ring_read_loop_honest [OF assms, of 0] by (simp add: ring_read_exact_def slice_def)

lemma splice_splice:
  assumes "off + length input \<le> length c" and "k \<le> length input"
  shows "splice (off + k) (drop k input) (splice off (take k input) c) = splice off input c"
proof -
  have "take (off + k) (splice off (take k input) c) = take off c @ take k input"
    using assms by (simp add: splice_def)
  moreover have "drop (off + length input) (splice off (take k input) c) = drop (off + length input) c"
    using assms by (simp add: splice_def add.commute)
  ultimately have "splice (off + k) (drop k input) (splice off (take k input) c) =
      (take off c @ take k input) @ drop k input @ drop (off + length input) c"
    using assms unfolding splice_def [of "off + k"] by simp
  then show ?thesis by (simp add: splice_def)
qed

lemma ring_write_exact_stops:
  assumes "input \<noteq> []" and "write_count io off (length input) = None \<or> write_count io off (length input) = Some 0"
  shows "\<exists>e. ring_write_exact no_progress io c off input = (Inl e, c)" and "\<not> writable io"
proof -
  show "\<exists>e. ring_write_exact no_progress io c off input = (Inl e, c)"
    using assms by (subst ring_write_exact.simps) (auto simp: file_write_at_def Let_def)
  show "\<not> writable io"
    using assms unfolding writable_def
    by (metis length_greater_0_conv less_irrefl option.distinct(1) option.inject)
qed

lemma ring_write_exact_more:
  assumes "file_write_at io c off input = Inr (k, c1)" and "input \<noteq> []" and "k \<noteq> 0"
  shows "ring_write_exact no_progress io c off input = ring_write_exact no_progress io c1 (off + k) (drop k input)"
  using assms by (subst ring_write_exact.simps) simp

lemma ring_write_exact_spec:
  assumes "ring_write_exact no_progress io c off input = (r, c')" and "off + length input \<le> length c"
  shows "length c' = length c \<and> (r = Inr () \<longrightarrow> c' = splice off input c)
    \<and> (\<forall>a n. a + n \<le> length c \<longrightarrow> a + n \<le> off \<or> off + length input \<le> a \<longrightarrow> slice a n c' = slice a n c)
    \<and> (writable io \<longrightarrow> r = Inr ())"
  using assms
proof (induction no_progress io c off input rule: ring_write_exact.induct)
  case (1 no_progress io c off input)
  consider (empty) "input = []"
    | (stop) "input \<noteq> []" "write_count io off (length input) = None \<or> write_count io off (length input) = Some 0"
    | (more) n where "input \<noteq> []" "write_count io off (length input) = Some n" "n \<noteq> 0"
    by (cases "write_count io off (length input)") auto
  then show ?case
  proof cases
    case empty
    with 1(2) show ?thesis by (subst (asm) ring_write_exact.simps) (auto simp: splice_def)
  next
    case stop
    from ring_write_exact_stops(1) [OF stop, of no_progress c] ring_write_exact_stops(2) [OF stop] 1(2) show ?thesis by auto
  next
    case more
    let ?k = "min n (length input)" let ?c1 = "splice off (take ?k input) c"
    have write_at: "file_write_at io c off input = Inr (?k, ?c1)"
      using more by (simp add: file_write_at_def Let_def)
    have k: "?k \<noteq> 0" "?k \<le> length input" using more by auto
    have rest: "ring_write_exact no_progress io ?c1 (off + ?k) (drop ?k input) = (r, c')"
      using 1(2) ring_write_exact_more [OF write_at more(1) k(1)] by simp
    have len1: "length ?c1 = length c" using 1(3) by simp
    have IH: "length c' = length ?c1 \<and> (r = Inr () \<longrightarrow> c' = splice (off + ?k) (drop ?k input) ?c1)
      \<and> (\<forall>a n. a + n \<le> length ?c1 \<longrightarrow> a + n \<le> off + ?k \<or> off + ?k + length (drop ?k input) \<le> a \<longrightarrow>
           slice a n c' = slice a n ?c1) \<and> (writable io \<longrightarrow> r = Inr ())"
      using 1(1) [OF more(1) write_at _ k(1) rest] 1(3) k len1 by auto
    have "slice a m c' = slice a m c" if "a + m \<le> length c" "a + m \<le> off \<or> off + length input \<le> a" for a m
    proof -
      have "slice a m c' = slice a m ?c1" using IH that len1 k by auto
      also have "\<dots> = slice a m c" using that 1(3) by (intro slice_splice_disjoint) auto
      finally show ?thesis .
    qed
    with IH len1 splice_splice [OF 1(3) k(2)] show ?thesis by auto
  qed
qed

text \<open>A write that fails has replaced a prefix of the range.\<close>

lemma ring_write_exact_prefix:
  assumes "ring_write_exact no_progress io c off input = (r, c')" and "off + length input \<le> length c"
  shows "\<exists>k \<le> length input. c' = splice off (take k input) c"
  using assms
proof (induction no_progress io c off input rule: ring_write_exact.induct)
  case (1 no_progress io c off input)
  consider (empty) "input = []"
    | (stop) "input \<noteq> []" "write_count io off (length input) = None \<or> write_count io off (length input) = Some 0"
    | (more) n where "input \<noteq> []" "write_count io off (length input) = Some n" "n \<noteq> 0"
    by (cases "write_count io off (length input)") auto
  then show ?case
  proof cases
    case empty
    with 1(2) show ?thesis by (subst (asm) ring_write_exact.simps) (auto simp: splice_def)
  next
    case stop
    from ring_write_exact_stops(1) [OF stop, of no_progress c] 1(2) show ?thesis by (auto simp: splice_def intro!: exI [of _ 0])
  next
    case more
    let ?k = "min n (length input)" let ?c1 = "splice off (take ?k input) c"
    have write_at: "file_write_at io c off input = Inr (?k, ?c1)"
      using more by (simp add: file_write_at_def Let_def)
    have k: "?k \<noteq> 0" "?k \<le> length input" using more by auto
    have rest: "ring_write_exact no_progress io ?c1 (off + ?k) (drop ?k input) = (r, c')"
      using 1(2) ring_write_exact_more [OF write_at more(1) k(1)] by simp
    obtain m where m: "m \<le> length (drop ?k input)" "c' = splice (off + ?k) (take m (drop ?k input)) ?c1"
      using 1(1) [OF more(1) write_at _ k(1) rest] 1(3) k by auto
    have "take m (drop ?k input) = drop ?k (take (?k + m) input)" "take ?k input = take ?k (take (?k + m) input)"
      by (simp_all add: take_drop add.commute min_def)
    then have "c' = splice off (take (?k + m) input) c"
      using m splice_splice [of off "take (?k + m) input" c ?k] 1(3) k by simp
    then show ?thesis using m k by (intro exI [of _ "?k + m"]) auto
  qed
qed

section \<open>The ring as a map from buckets\<close>

definition layout_ok :: "ring_layout \<Rightarrow> bool" where
  "layout_ok l \<longleftrightarrow> 0 < interval_milliseconds l \<and> 0 < capacity l \<and> byte_length l \<le> 2 ^ 63 - 1"

lemma ring_layout_new_ok: "ring_layout_new interval cap = Inr l \<Longrightarrow> layout_ok l"
  by (auto simp: ring_layout_new_def layout_ok_def byte_length_def checked_mul64_def split: if_splits)

text \<open>The bytes of a slot, the valid sample in it, and the sample of a bucket.\<close>

abbreviation slot_bytes :: "byte list \<Rightarrow> nat \<Rightarrow> byte list" where
  "slot_bytes content i \<equiv> slice (i * WATCHDOG_RECORD_BYTES) WATCHDOG_RECORD_BYTES content"

definition slot_view :: "ring_layout \<Rightarrow> byte list \<Rightarrow> nat \<Rightarrow> watchdog_sample option" where
  "slot_view l content i =
     (case decode_watchdog_record (slot_bytes content i) of
        Inl _ \<Rightarrow> None | Inr s \<Rightarrow> if bucket_of l s mod capacity l = i then Some s else None)"

definition bucket_view :: "ring_layout \<Rightarrow> byte list \<Rightarrow> nat \<Rightarrow> watchdog_sample option" where
  "bucket_view l content b =
     (case slot_view l content (b mod capacity l) of None \<Rightarrow> None | Some s \<Rightarrow> if bucket_of l s = b then Some s else None)"

definition ring_ok :: "ring_layout \<Rightarrow> byte list \<Rightarrow> bool" where
  "ring_ok l content \<longleftrightarrow> layout_ok l \<and> length content = byte_length l"

lemma slot_bound:
  assumes "layout_ok l"
  shows "b mod capacity l * WATCHDOG_RECORD_BYTES + WATCHDOG_RECORD_BYTES \<le> byte_length l"
proof -
  have "b mod capacity l + 1 \<le> capacity l" using assms by (simp add: layout_ok_def Suc_le_eq)
  then have "(b mod capacity l + 1) * WATCHDOG_RECORD_BYTES \<le> capacity l * WATCHDOG_RECORD_BYTES" by (rule mult_le_mono1)
  then show ?thesis by (simp add: byte_length_def algebra_simps)
qed

lemma bucket_offset_ok: "layout_ok l \<Longrightarrow> bucket_offset l b = Inr (b mod capacity l * WATCHDOG_RECORD_BYTES)"
  using slot_bound [of l b] by (simp add: bucket_offset_def checked_mul64_def layout_ok_def u64_max_def)

lemma bucket_view_Some: "bucket_view l content b = Some s \<Longrightarrow> bucket_of l s = b"
  by (auto simp: bucket_view_def split: option.splits if_splits)

lemma slot_view_Some: "slot_view l content i = Some s \<Longrightarrow> bucket_of l s mod capacity l = i \<and> sample_ok s"
  by (auto simp: slot_view_def decode_canonical(1) split: sum.splits if_splits)

lemma bucket_view_iff_slot: "slot_view l content i = Some s \<Longrightarrow> bucket_view l content (bucket_of l s) = Some s"
  using slot_view_Some [of l content i s] by (simp add: bucket_view_def)

lemma read_bucket_view:
  assumes "ring_ok l content" and "readable io"
  shows "read_bucket io l content b = Inr (bucket_view l content b)"
proof -
  have "ring_read_exact io content (b mod capacity l * WATCHDOG_RECORD_BYTES) WATCHDOG_RECORD_BYTES =
      Inr (slot_bytes content (b mod capacity l))"
    using assms slot_bound [of l b] by (intro ring_read_exact_ok) (simp_all add: ring_ok_def)
  moreover have "bucket_view l content b = (case decode_watchdog_record (slot_bytes content (b mod capacity l)) of
      Inl _ \<Rightarrow> None | Inr s \<Rightarrow> if bucket_of l s = b then Some s else None)"
    by (auto simp: bucket_view_def slot_view_def split: sum.splits)
  ultimately show ?thesis
    using assms(1) by (simp add: read_bucket_def bucket_offset_ok ring_ok_def)
qed

lemma slots_apart:
  "i \<noteq> j \<Longrightarrow> i * WATCHDOG_RECORD_BYTES + WATCHDOG_RECORD_BYTES \<le> j * WATCHDOG_RECORD_BYTES
     \<or> j * WATCHDOG_RECORD_BYTES + WATCHDOG_RECORD_BYTES \<le> i * WATCHDOG_RECORD_BYTES"
  by (simp add: WATCHDOG_RECORD_BYTES_def) arith

text \<open>
  One write, whatever the native calls do: the extent is kept and every other slot is untouched. If
  it succeeds, the slot holds the sample.
\<close>

lemma ring_write_spec:
  assumes "ring_ok l c" and "sample_ok s" and "ring_write io l c s = (r, c')"
  shows "ring_ok l c'"
    and "\<And>i. i < capacity l \<Longrightarrow> i \<noteq> bucket_of l s mod capacity l \<Longrightarrow> slot_view l c' i = slot_view l c i"
    and "r = Inr () \<Longrightarrow> slot_view l c' (bucket_of l s mod capacity l) = Some s"
    and "writable io \<Longrightarrow> r = Inr ()"
proof -
  let ?i = "bucket_of l s mod capacity l"
  have l: "layout_ok l" "length c = byte_length l" using assms(1) by (simp_all add: ring_ok_def)
  have run: "ring_write_exact ''ring write made no progress'' io c (?i * WATCHDOG_RECORD_BYTES) (record_bytes s) = (r, c')"
    using assms(3) l by (simp add: ring_write_def encode_record_bytes [OF assms(2)] bucket_offset_ok)
  have rec_len: "length (record_bytes s) = WATCHDOG_RECORD_BYTES"
    using length_record_bytes [OF assms(2)] by (simp add: WATCHDOG_RECORD_BYTES_def)
  have fit: "?i * WATCHDOG_RECORD_BYTES + length (record_bytes s) \<le> length c"
    using slot_bound [OF l(1)] l(2) rec_len by simp
  note spec = ring_write_exact_spec [OF run fit]
  then show "ring_ok l c'" using assms(1) by (simp add: ring_ok_def)
  show "slot_view l c' i = slot_view l c i" if "i < capacity l" "i \<noteq> ?i" for i
  proof -
    have "i * WATCHDOG_RECORD_BYTES + WATCHDOG_RECORD_BYTES \<le> length c"
      using slot_bound [OF l(1), of i] l(2) that(1) by simp
    then have "slot_bytes c' i = slot_bytes c i"
      using spec slots_apart [OF that(2)] rec_len by auto
    then show ?thesis by (simp add: slot_view_def)
  qed
  show "slot_view l c' ?i = Some s" if "r = Inr ()"
  proof -
    have "slot_bytes c' ?i = record_bytes s"
      using spec that slice_splice_same [OF fit] rec_len by simp
    then show ?thesis by (simp add: slot_view_def decode_record_bytes [OF assms(2)])
  qed
  show "writable io \<Longrightarrow> r = Inr ()" using spec by blast
qed

lemma ring_write_view:
  assumes "ring_ok l c" and "sample_ok s" and "ring_write io l c s = (Inr (), c')"
  shows "bucket_view l c' b =
    (if b = bucket_of l s then Some s
     else if b mod capacity l = bucket_of l s mod capacity l then None else bucket_view l c b)"
  using ring_write_spec(2,3) [OF assms] assms(1)
  by (auto simp: bucket_view_def ring_ok_def layout_ok_def)

section \<open>Queries\<close>

definition hit :: "ring_layout \<Rightarrow> byte list \<Rightarrow> nat \<Rightarrow> nat \<Rightarrow> nat \<Rightarrow> watchdog_sample option" where
  "hit l content start stop b =
     (case bucket_view l content b of None \<Rightarrow> None | Some s \<Rightarrow> if in_range start stop s then Some s else None)"

lemma query_loop_spec:
  assumes "ring_ok l content" and "readable io" and "final \<le> u64_max"
  shows "bucket \<le> final \<Longrightarrow> length found < limit \<Longrightarrow>
    \<exists>ps. prefix ps [bucket..<Suc final]
      \<and> query_loop io l content start stop limit final bucket found missing =
          Inr \<lparr>samples = found @ List.map_filter (hit l content start stop) ps,
               missing_buckets = missing @ filter (\<lambda>b. hit l content start stop b = None) ps\<rparr>
      \<and> length (found @ List.map_filter (hit l content start stop) ps) \<le> limit
      \<and> (ps = [bucket..<Suc final] \<or> length (found @ List.map_filter (hit l content start stop) ps) = limit)"
proof (induction "final - bucket" arbitrary: bucket found missing)
  case 0
  then have b: "bucket = final" by simp
  show ?case
    using 0 assms
    by (intro exI [of _ "[final]"], subst query_loop.simps)
      (auto simp: b read_bucket_view map_filter_simps hit_def Let_def split: option.splits)
next
  case (Suc n)
  let ?h = "hit l content start stop"
  have cons: "[bucket..<Suc final] = bucket # [Suc bucket..<Suc final]" using Suc by (simp add: upt_conv_Cons)
  have go: "\<not> (bucket = final \<or> bucket \<ge> u64_max)" using Suc assms(3) by auto
  have pre: "n = final - Suc bucket" "Suc bucket \<le> final" using Suc by auto
  show ?case
  proof (cases "?h bucket")
    case None
    then have run: "query_loop io l content start stop limit final bucket found missing =
        query_loop io l content start stop limit final (Suc bucket) found (missing @ [bucket])"
      using go by (subst query_loop.simps)
        (auto simp: read_bucket_view [OF assms(1,2)] hit_def Let_def split: option.splits if_splits)
    obtain ps where "prefix ps [Suc bucket..<Suc final]"
      "query_loop io l content start stop limit final (Suc bucket) found (missing @ [bucket]) =
        Inr \<lparr>samples = found @ List.map_filter ?h ps, missing_buckets = (missing @ [bucket]) @ filter (\<lambda>b. ?h b = None) ps\<rparr>"
      "length (found @ List.map_filter ?h ps) \<le> limit"
      "ps = [Suc bucket..<Suc final] \<or> length (found @ List.map_filter ?h ps) = limit"
      using Suc.hyps(1) [OF pre Suc.prems(2), of "missing @ [bucket]"] by blast
    then show ?thesis
      using None by (intro exI [of _ "bucket # ps"]) (auto simp: run cons map_filter_simps simp del: upt_Suc)
  next
    case (Some s)
    then have view: "bucket_view l content bucket = Some s" "in_range start stop s"
      by (auto simp: hit_def split: option.splits if_splits)
    show ?thesis
    proof (cases "Suc (length found) = limit")
      case True
      then show ?thesis
        using Some view by (intro exI [of _ "[bucket]"], subst query_loop.simps)
          (auto simp: cons read_bucket_view [OF assms(1,2)] map_filter_simps Let_def simp del: upt_Suc)
    next
      case False
      then have run: "query_loop io l content start stop limit final bucket found missing =
          query_loop io l content start stop limit final (Suc bucket) (found @ [s]) missing"
        using go view by (subst query_loop.simps) (auto simp: read_bucket_view [OF assms(1,2)] Let_def)
      obtain ps where "prefix ps [Suc bucket..<Suc final]"
        "query_loop io l content start stop limit final (Suc bucket) (found @ [s]) missing =
          Inr \<lparr>samples = (found @ [s]) @ List.map_filter ?h ps, missing_buckets = missing @ filter (\<lambda>b. ?h b = None) ps\<rparr>"
        "length ((found @ [s]) @ List.map_filter ?h ps) \<le> limit"
        "ps = [Suc bucket..<Suc final] \<or> length ((found @ [s]) @ List.map_filter ?h ps) = limit"
        using Suc.hyps(1) [OF pre, of "found @ [s]" missing] Suc.prems(2) False by force
      then show ?thesis
        using Some by (intro exI [of _ "bucket # ps"]) (auto simp: run cons map_filter_simps simp del: upt_Suc)
    qed
  qed
qed

lemma map_filter_append: "List.map_filter f (xs @ ys) = List.map_filter f xs @ List.map_filter f ys"
  by (simp add: List.map_filter_def)

lemma map_filter_prefix: "prefix ps xs \<Longrightarrow> prefix (List.map_filter f ps) (List.map_filter f xs)"
  by (auto simp: prefix_def List.map_filter_def)

definition query_accepts :: "ring_layout \<Rightarrow> nat \<Rightarrow> nat \<Rightarrow> nat \<Rightarrow> bool" where
  "query_accepts l start stop limit \<longleftrightarrow> start \<le> stop \<and> 0 < limit \<and> limit \<le> capacity l
     \<and> stop div interval_milliseconds l - start div interval_milliseconds l < capacity l"

lemma query_spec:
  assumes "ring_ok l content" and "readable io" and "stop \<le> u64_max" and "query_accepts l start stop limit"
  shows "\<exists>h. query io l content start stop limit = Inr h
    \<and> samples h = take limit (List.map_filter (hit l content start stop)
        [start div interval_milliseconds l..<Suc (stop div interval_milliseconds l)])
    \<and> (\<forall>b \<in> set (missing_buckets h). hit l content start stop b = None)
    \<and> (length (samples h) < limit \<longrightarrow> missing_buckets h = filter (\<lambda>b. hit l content start stop b = None)
        [start div interval_milliseconds l..<Suc (stop div interval_milliseconds l)])"
proof -
  let ?a = "start div interval_milliseconds l" and ?z = "stop div interval_milliseconds l"
  let ?h = "hit l content start stop"
  have le: "?a \<le> ?z" "?z \<le> u64_max" using assms(3,4) by (auto simp: query_accepts_def div_le_mono intro: le_trans [OF div_le_dividend])
  have cap: "capacity l \<le> u64_max"
    using assms(1) by (simp add: ring_ok_def layout_ok_def byte_length_def WATCHDOG_RECORD_BYTES_def u64_max_def)
  have "query io l content start stop limit = query_loop io l content start stop limit ?z ?a [] []"
    using assms(4) le cap by (simp add: query_def query_accepts_def Let_def checked_add64_def)
  moreover obtain ps where ps: "prefix ps [?a..<Suc ?z]"
    "query_loop io l content start stop limit ?z ?a [] [] =
      Inr \<lparr>samples = List.map_filter ?h ps, missing_buckets = filter (\<lambda>b. ?h b = None) ps\<rparr>"
    "length (List.map_filter ?h ps) \<le> limit" "ps = [?a..<Suc ?z] \<or> length (List.map_filter ?h ps) = limit"
    using query_loop_spec [OF assms(1,2) le(2) le(1), of "[]" limit start stop "[]"] assms(4)
    by (auto simp: query_accepts_def)
  moreover have "List.map_filter ?h ps = take limit (List.map_filter ?h [?a..<Suc ?z])"
    using ps(3,4) map_filter_prefix [OF ps(1), of ?h] by (auto simp: prefix_def)
  ultimately show ?thesis by (auto simp del: upt_Suc)
qed

section \<open>Scans visit the valid slots in order\<close>

fun run_visitor :: "('a \<Rightarrow> watchdog_sample \<Rightarrow> 'a \<times> bool) \<Rightarrow> watchdog_sample list \<Rightarrow> 'a \<Rightarrow> 'a \<times> bool" where
  "run_visitor v [] a = (a, True)"
| "run_visitor v (s # ss) a = (case v a s of (a', False) \<Rightarrow> (a', False) | (a', True) \<Rightarrow> run_visitor v ss a')"

definition retained :: "ring_layout \<Rightarrow> byte list \<Rightarrow> watchdog_sample list" where
  "retained l content = List.map_filter (slot_view l content) [0..<capacity l]"

lemma run_visitor_append:
  "run_visitor v (xs @ ys) a = (case run_visitor v xs a of (a', False) \<Rightarrow> (a', False) | (a', True) \<Rightarrow> run_visitor v ys a')"
  by (induction xs arbitrary: a) (auto split: prod.splits bool.splits)

lemma visit_records_slots:
  "visit_records l v i (map (slot_bytes content) [i..<i + n]) a =
   run_visitor v (List.map_filter (slot_view l content) [i..<i + n]) a"
proof (induction n arbitrary: i a)
  case 0
  then show ?case by (simp add: map_filter_simps)
next
  case (Suc n)
  have "[i..<i + Suc n] = i # [Suc i..<Suc i + n]" by (simp add: upt_conv_Cons)
  then show ?case
    using Suc [of "Suc i"]
    by (auto simp: map_filter_simps slot_view_def simp del: upt_Suc split: sum.splits prod.splits bool.splits)
qed

lemma scan_blocks_spec:
  assumes "ring_ok l content" and "readable io"
  shows "scan_blocks io l content v (step_by i (capacity l) WATCHDOG_RING_SCAN_RECORDS) a =
    Inr (fst (run_visitor v (List.map_filter (slot_view l content) [i..<capacity l]) a))"
proof (induction i "capacity l" "WATCHDOG_RING_SCAN_RECORDS" arbitrary: a rule: step_by.induct)
  case (1 i)
  show ?case
  proof (cases "i < capacity l")
    case False
    then show ?thesis by (subst step_by.simps) (simp add: map_filter_simps)
  next
    case True
    let ?n = "min (capacity l - i) WATCHDOG_RING_SCAN_RECORDS"
    have n: "i + ?n \<le> capacity l" using True by simp
    then have bound: "(i + ?n) * WATCHDOG_RECORD_BYTES \<le> length content"
      using assms(1) by (simp add: ring_ok_def byte_length_def)
    then have "ring_read_exact io content (i * WATCHDOG_RECORD_BYTES) (?n * WATCHDOG_RECORD_BYTES) =
        Inr (slice (i * WATCHDOG_RECORD_BYTES) (?n * WATCHDOG_RECORD_BYTES) content)"
      by (intro ring_read_exact_ok assms(2)) (simp add: algebra_simps)
    moreover have "[i..<capacity l] = [i..<i + ?n] @ [i + ?n..<capacity l]"
      using n by (metis le_add1 upt_add_eq_append le_add_diff_inverse)
    moreover have "[i + ?n..<capacity l] = [i + WATCHDOG_RING_SCAN_RECORDS..<capacity l]"
      by (auto simp: min_def)
    moreover have pos: "0 < WATCHDOG_RING_SCAN_RECORDS" by (simp add: WATCHDOG_RING_SCAN_RECORDS_def)
    moreover note 1 [OF conjI [OF True pos]] chunks_exact_slice [of WATCHDOG_RECORD_BYTES ?n i content] visit_records_slots [of l v i content ?n a]
    ultimately show ?thesis
      using True by (subst step_by.simps) (auto simp: Let_def run_visitor_append map_filter_append split: prod.splits bool.splits)
  qed
qed

lemma scan_valid_records_spec:
  "ring_ok l content \<Longrightarrow> readable io \<Longrightarrow>
   scan_valid_records io l content v a = Inr (fst (run_visitor v (retained l content) a))"
  by (simp add: scan_valid_records_def scan_blocks_spec retained_def)

lemma set_retained:
  "s \<in> set (retained l content) \<longleftrightarrow> (\<exists>i < capacity l. slot_view l content i = Some s)"
  by (force simp: retained_def List.map_filter_def)

lemma run_keep_sequence:
  "fst (run_visitor (keep_sequence sq) ss None) = find (\<lambda>s. sequence s = sq) ss"
  by (induction ss) (auto simp: keep_sequence_def)

lemma run_keep_latest:
  "fst (run_visitor keep_latest ss best) = None \<longleftrightarrow> ss = [] \<and> best = None"
  "fst (run_visitor keep_latest ss best) = Some s \<Longrightarrow>
     (s \<in> set ss \<or> best = Some s) \<and> (\<forall>t \<in> set ss \<union> set_option best. sequence t \<le> sequence s)"
proof (induction ss arbitrary: best)
  case (Cons t ss)
  {
    case 1
    then show ?case using Cons(1) by (auto simp: keep_latest_def split: option.splits)
  next
    case 2
    then show ?case using Cons(2) [of "fst (keep_latest best t)"]
      by (auto simp: keep_latest_def split: option.splits if_splits)
  }
qed auto

section \<open>The interface to storage\<close>

text \<open>
  What the storage layer relies on: a successful \<open>put\<close> makes the sample visible at its bucket, hides
  the bucket that shared its slot and leaves the others alone.
\<close>

fun put_all :: "('r \<Rightarrow> 's \<Rightarrow> 'r \<Rightarrow> bool) \<Rightarrow> 'r \<Rightarrow> 's list \<Rightarrow> 'r \<Rightarrow> bool" where
  "put_all put r [] r' \<longleftrightarrow> r' = r"
| "put_all put r (s # ss) r' \<longleftrightarrow> (\<exists>r1. put r s r1 \<and> put_all put r1 ss r')"

locale bucket_map =
  fixes slots :: nat and ok :: "'r \<Rightarrow> bool" and valid :: "'s \<Rightarrow> bool" and bucket :: "'s \<Rightarrow> nat"
    and put :: "'r \<Rightarrow> 's \<Rightarrow> 'r \<Rightarrow> bool" and view :: "'r \<Rightarrow> nat \<Rightarrow> 's option"
  assumes put_ok: "ok r \<Longrightarrow> valid s \<Longrightarrow> put r s r' \<Longrightarrow> ok r'"
    and view_put: "ok r \<Longrightarrow> valid s \<Longrightarrow> put r s r' \<Longrightarrow>
      view r' b = (if b = bucket s then Some s else if b mod slots = bucket s mod slots then None else view r b)"
begin

lemma put_all_ok: "ok r \<Longrightarrow> \<forall>s \<in> set ss. valid s \<Longrightarrow> put_all put r ss r' \<Longrightarrow> ok r'"
  by (induction ss arbitrary: r) (auto intro: put_ok)

lemma put_all_append: "put_all put r (xs @ ys) r' \<longleftrightarrow> (\<exists>r1. put_all put r xs r1 \<and> put_all put r1 ys r')"
  by (induction xs arbitrary: r) auto

text \<open>A sample stays visible as long as no later sample takes its slot.\<close>

lemma view_kept:
  assumes "ok r" and "\<forall>t \<in> set ss. valid t" and "put_all put r ss r'"
    and "\<forall>t \<in> set ss. bucket t mod slots \<noteq> b mod slots"
  shows "view r' b = view r b"
  using assms
proof (induction ss arbitrary: r)
  case (Cons s ss)
  then obtain r1 where r1: "put r s r1" "put_all put r1 ss r'" by auto
  with Cons show ?case
    using put_ok [of r s r1] view_put [of r s r1 b] by auto
qed simp

lemma view_written:
  assumes "ok r" and "\<forall>t \<in> set (xs @ s # ys). valid t" and "put_all put r (xs @ s # ys) r'"
    and "\<forall>t \<in> set ys. bucket t mod slots \<noteq> bucket s mod slots"
  shows "view r' (bucket s) = Some s"
proof -
  from assms(3) obtain r1 r2 where r: "put_all put r xs r1" "put r1 s r2" "put_all put r2 ys r'"
    by (auto simp: put_all_append)
  have ok1: "ok r1" using put_all_ok [OF assms(1) _ r(1)] assms(2) by auto
  then have "view r2 (bucket s) = Some s" "ok r2"
    using view_put [OF _ _ r(2)] put_ok [OF _ _ r(2)] assms(2) by auto
  then show ?thesis using view_kept [OF _ _ r(3) assms(4)] assms(2) by auto
qed

end

interpretation ring: bucket_map "capacity l" "ring_ok l" sample_ok "bucket_of l"
  "\<lambda>c s c'. \<exists>io. ring_write io l c s = (Inr (), c')" "bucket_view l" for l
  by unfold_locales (auto simp: ring_write_view dest: ring_write_spec(1))

section \<open>Properties of the ring\<close>

definition full_io :: ring_io where
  "full_io = \<lparr>length_ok = True, set_length_ok = True, read_count = (\<lambda>_ len. Some len),
     write_count = (\<lambda>_ len. Some len), sync_ok = True\<rparr>"

definition small_ring :: ring_layout where
  "small_ring = \<lparr>interval_milliseconds = 1000, capacity = 3\<rparr>"

definition small_content :: "byte list" where "small_content = replicate 852 0"

lemma small_ring_fields: "interval_milliseconds small_ring = 1000" "capacity small_ring = 3"
  by (simp_all add: small_ring_def)

lemma full_io_ok: "readable full_io" "writable full_io"
  by (simp_all add: full_io_def readable_def writable_def)

lemma small_ring_ok: "ring_ok small_ring small_content"
  by (simp add: ring_ok_def layout_ok_def small_ring_def byte_length_def WATCHDOG_RECORD_BYTES_def small_content_def)

lemma from_le_zeros [simp]: "from_le (replicate n 0) = 0"
  by (induction n) simp_all

lemma small_ring_empty: "bucket_view small_ring small_content b = None"
proof -
  have "slot_bytes small_content (b mod 3) = replicate 284 0"
    by (cases "b mod 3 = 0"; cases "b mod 3 = 1"; cases "b mod 3 = 2") (auto simp: slice_def WATCHDOG_RECORD_BYTES_def small_content_def)
  moreover have "decode_watchdog_record (replicate 284 0) = Inl record_error"
    by (simp add: decode_watchdog_record_def get_u32_def slice_def WATCHDOG_RECORD_MAGIC_def)
  ultimately show ?thesis by (simp add: bucket_view_def slot_view_def small_ring_def)
qed

text \<open>
  C29: the ring refines a map from time buckets to samples. After a successful write the bucket of
  the sample reads as that sample, every other bucket of the same slot reads as a gap, and every
  bucket of another slot reads as before. A failed or torn write changes no bucket of another slot.
  The extent of the file never changes, and a write succeeds when native writes make progress.
\<close>

theorem ring_refines_bucket_map:
  assumes "ring_ok l c" and "sample_ok s" and "ring_write io l c s = (r, c')" and "readable io'"
  shows "ring_ok l c' \<and> (writable io \<longrightarrow> r = Inr ())
    \<and> (r = Inr () \<longrightarrow> read_bucket io' l c' (bucket_of l s) = Inr (Some s)
        \<and> (\<forall>b. b \<noteq> bucket_of l s \<longrightarrow> b mod capacity l = bucket_of l s mod capacity l \<longrightarrow> read_bucket io' l c' b = Inr None))
    \<and> (\<forall>b. b mod capacity l \<noteq> bucket_of l s mod capacity l \<longrightarrow> read_bucket io' l c' b = read_bucket io' l c b)"
proof -
  have ok: "ring_ok l c'" "0 < capacity l"
    using ring_write_spec(1) [OF assms(1-3)] assms(1) by (simp_all add: ring_ok_def layout_ok_def)
  have other: "bucket_view l c' b = bucket_view l c b" if "b mod capacity l \<noteq> bucket_of l s mod capacity l" for b
    using ring_write_spec(2) [OF assms(1-3) _ that] ok(2) by (simp add: bucket_view_def)
  show ?thesis
    using ok(1) ring_write_spec(4) [OF assms(1-3)] ring_write_view [OF assms(1,2), of io c'] assms(3) other
    by (simp add: read_bucket_view [OF ok(1) assms(4)] read_bucket_view [OF assms(1,4)])
qed

theorem ring_refines_bucket_map_witness:
  "\<exists>c'. ring_write full_io small_ring small_content small_sample = (Inr (), c')
     \<and> read_bucket full_io small_ring c' 61 = Inr (Some small_sample) \<and> read_bucket full_io small_ring c' 58 = Inr None"
proof -
  obtain r c' where run: "ring_write full_io small_ring small_content small_sample = (r, c')" by force
  have "bucket_of small_ring small_sample = 61" "capacity small_ring = 3"
    by (simp_all add: bucket_of_def small_ring_def small_sample_def)
  then show ?thesis
    using ring_refines_bucket_map [OF small_ring_ok small_sample_ok run full_io_ok(1)] full_io_ok(2) run by auto
qed

text \<open>
  a history query is answered exactly when its range is ordered, its limit is between one and
  the capacity and the range spans at most the capacity in buckets. The answer holds the samples of
  the range in bucket order, at most the limit of them; when the limit is not reached, every bucket
  of the range that has no sample in the range is reported missing, and no other bucket ever is.
\<close>

theorem query_exact:
  assumes "ring_ok l content" and "readable io" and "stop \<le> u64_max"
  shows "case query io l content start stop limit of
      Inl e \<Rightarrow> \<not> (start \<le> stop \<and> 0 < limit \<and> limit \<le> capacity l
        \<and> stop div interval_milliseconds l - start div interval_milliseconds l < capacity l)
    | Inr h \<Rightarrow> start \<le> stop \<and> 0 < limit \<and> limit \<le> capacity l
        \<and> stop div interval_milliseconds l - start div interval_milliseconds l < capacity l
        \<and> samples h = take limit (List.map_filter (hit l content start stop)
            [start div interval_milliseconds l..<Suc (stop div interval_milliseconds l)])
        \<and> (length (samples h) < limit \<longrightarrow> missing_buckets h = filter (\<lambda>b. hit l content start stop b = None)
            [start div interval_milliseconds l..<Suc (stop div interval_milliseconds l)])
        \<and> (\<forall>b \<in> set (missing_buckets h). hit l content start stop b = None)"
proof (cases "query_accepts l start stop limit")
  case False
  then have "\<exists>e. query io l content start stop limit = Inl e"
    by (auto simp: query_def query_accepts_def Let_def checked_add64_def ensure_def)
  with False show ?thesis by (auto simp: query_accepts_def)
next
  case True
  with query_spec [OF assms True] show ?thesis by (auto simp: query_accepts_def simp del: upt_Suc)
qed

theorem query_exact_witness:
  "\<exists>h. query full_io small_ring small_content 5000 7999 2 = Inr h \<and> samples h = [] \<and> missing_buckets h = [5, 6, 7]"
proof -
  have empty: "hit small_ring small_content a b c = None" for a b c
    by (simp add: hit_def small_ring_empty)
  have "List.map_filter (hit small_ring small_content 5000 7999) bs = []" for bs
    by (induction bs) (simp_all add: map_filter_simps empty)
  moreover have "[5..<Suc 7] = [5, 6, 7]" by (simp add: upt_conv_Cons)
  ultimately show ?thesis
    using query_exact [OF small_ring_ok full_io_ok(1), of 7999 5000 2]
    by (cases "query full_io small_ring small_content 5000 7999 2")
      (simp_all add: empty small_ring_fields u64_max_def del: upt_Suc)
qed

text \<open>
  Scanning the whole ring finds the newest retained sample, and finds a sample by its sequence
  exactly when one is retained; slots with damaged or misplaced records are skipped.
\<close>

lemma scans_exact:
  assumes "ring_ok l content" and "readable io"
  shows "(\<exists>best. latest io l content = Inr best
      \<and> (case best of
           None \<Rightarrow> \<forall>b. bucket_view l content b = None
         | Some s \<Rightarrow> bucket_view l content (bucket_of l s) = Some s
             \<and> (\<forall>b t. bucket_view l content b = Some t \<longrightarrow> sequence t \<le> sequence s)))
    \<and> (\<exists>found. find_sequence io l content sq = Inr found
      \<and> (case found of
           None \<Rightarrow> \<forall>b t. bucket_view l content b = Some t \<longrightarrow> sequence t \<noteq> sq
         | Some s \<Rightarrow> bucket_view l content (bucket_of l s) = Some s \<and> sequence s = sq))"
proof -
  have slot: "bucket_view l content (bucket_of l t) = Some t \<longleftrightarrow>
      slot_view l content (bucket_of l t mod capacity l) = Some t" for t
    by (auto simp: bucket_view_def split: option.splits if_splits)
  have "bucket_of l t mod capacity l < capacity l" for t
    using assms(1) by (simp add: ring_ok_def layout_ok_def)
  then have in_ring: "t \<in> set (retained l content) \<longleftrightarrow> bucket_view l content (bucket_of l t) = Some t" for t
    using slot [of t] slot_view_Some [of l content] unfolding set_retained by blast
  have view: "bucket_view l content b = Some t \<Longrightarrow> t \<in> set (retained l content)" for b t
    using in_ring bucket_view_Some by metis
  have "latest io l content = Inr (fst (run_visitor keep_latest (retained l content) None))"
    by (simp add: latest_def scan_valid_records_spec [OF assms])
  moreover have "find_sequence io l content sq = Inr (find (\<lambda>s. sequence s = sq) (retained l content))"
    by (simp add: find_sequence_def scan_valid_records_spec [OF assms] run_keep_sequence)
  moreover have "bucket_view l content b = None" if "retained l content = []" for b
    using view [of b] that by (cases "bucket_view l content b") auto
  ultimately show ?thesis
    using in_ring view run_keep_latest [of "retained l content" None]
    by (auto split: option.splits simp: find_None_iff find_Some_iff dest: nth_mem)
qed

end
