(* ===== verification/WatchdogRollup.thy ===== *)
theory WatchdogRollup
  imports WatchdogRecord "HOL-Library.Signed_Division"
begin

text \<open>
  Time-bucket rollups of watchdog samples, \<open>core/watchdog/src/li_watchdog_rollup.rs\<close>: wrapping
  accumulators that are averaged when the bucket changes. Shown here: below \<open>2\<^sup>3\<^sup>2\<close> samples a
  bucket no accumulator wraps or saturates, so a completed rollup holds the exact rounded means of
  the known values of its bucket and the counters of its last sample, and pushing a stream yields
  exactly one rollup for each run of samples in one bucket.
\<close>

section \<open>Accumulators\<close>

text \<open>Totals are \<open>u64\<close> and \<open>i64\<close>, counts \<open>u32\<close>, with the wrapping additions written out.\<close>

record unsigned_accumulator =
  u_total :: nat
  u_count :: nat

record signed_accumulator =
  i_total :: int
  i_count :: nat

definition unsigned_zero :: unsigned_accumulator where "unsigned_zero = \<lparr>u_total = 0, u_count = 0\<rparr>"
definition signed_zero :: signed_accumulator where "signed_zero = \<lparr>i_total = 0, i_count = 0\<rparr>"

definition unsigned_add :: "nat \<Rightarrow> unsigned_accumulator \<Rightarrow> unsigned_accumulator" where
  "unsigned_add v a = \<lparr>u_total = (u_total a + v) mod 2 ^ 64, u_count = (u_count a + 1) mod 2 ^ 32\<rparr>"

definition average :: "unsigned_accumulator \<Rightarrow> nat" where
  "average a = (if u_count a = 0 then 0 else ((u_total a + u_count a div 2) mod 2 ^ 64) div u_count a)"

definition add_temperature :: "u16 \<Rightarrow> signed_accumulator \<Rightarrow> signed_accumulator" where
  "add_temperature v a =
     (if v \<noteq> WATCHDOG_TEMP_UNKNOWN
      then \<lparr>i_total = signed_take_bit 63 (i_total a + sint v), i_count = (i_count a + 1) mod 2 ^ 32\<rparr> else a)"

text \<open>\<open>i64\<close> division truncates; \<open>i16::try_from\<close> falls back to the unknown value.\<close>

definition average_temperature :: "signed_accumulator \<Rightarrow> u16" where
  "average_temperature a =
     (if i_count a = 0 then WATCHDOG_TEMP_UNKNOWN
      else let m = i_total a sdiv int (i_count a) in
           if - (2 ^ 15) \<le> m \<and> m < 2 ^ 15 then of_int m else WATCHDOG_TEMP_UNKNOWN)"

definition add_percent :: "byte \<Rightarrow> unsigned_accumulator \<Rightarrow> unsigned_accumulator" where
  "add_percent v a = (if v \<noteq> WATCHDOG_PERCENT_UNKNOWN then unsigned_add (unat v) a else a)"

definition add_clock :: "u32 \<Rightarrow> unsigned_accumulator \<Rightarrow> unsigned_accumulator" where
  "add_clock v a = (if v \<noteq> WATCHDOG_CLOCK_UNKNOWN then unsigned_add (unat v) a else a)"

definition saturating_u16 :: "nat \<Rightarrow> u16" where "saturating_u16 v = of_nat (min v (2 ^ 16 - 1))"
definition saturating_u32 :: "nat \<Rightarrow> u32" where "saturating_u32 v = of_nat (min v (2 ^ 32 - 1))"

definition average_percent :: "unsigned_accumulator \<Rightarrow> byte" where
  "average_percent a = (if u_count a = 0 then WATCHDOG_PERCENT_UNKNOWN else of_nat (min (average a) 100))"

definition average_clock :: "unsigned_accumulator \<Rightarrow> u32" where
  "average_clock a = (if u_count a = 0 then WATCHDOG_CLOCK_UNKNOWN else saturating_u32 (average a))"

text \<open>The loops over the core and engine arrays: \<open>zip\<close>, cut after \<open>n\<close> entries.\<close>

fun add_percents :: "nat \<Rightarrow> byte list \<Rightarrow> unsigned_accumulator list \<Rightarrow> unsigned_accumulator list" where
  "add_percents (Suc n) (v # vs) (a # accs) = add_percent v a # add_percents n vs accs"
| "add_percents n vs accs = accs"

fun fill_percents :: "nat \<Rightarrow> byte list \<Rightarrow> unsigned_accumulator list \<Rightarrow> byte list" where
  "fill_percents (Suc n) (v # vs) (a # accs) = average_percent a # fill_percents n vs accs"
| "fill_percents n vs accs = vs"

section \<open>The rollup\<close>

record rollup =
  ro_interval :: nat
  ro_bucket :: nat
  ro_sample_count :: nat
  ro_latest :: "watchdog_sample option"
  ro_cpu :: unsigned_accumulator
  ro_gpu :: unsigned_accumulator
  ro_memory :: unsigned_accumulator
  ro_disk :: unsigned_accumulator
  ro_gpu_memory :: unsigned_accumulator
  ro_cores :: "unsigned_accumulator list"
  ro_engines :: "unsigned_accumulator list"
  ro_system_temp :: signed_accumulator
  ro_gpu_temp :: signed_accumulator
  ro_nvme_temp :: signed_accumulator
  ro_power :: unsigned_accumulator
  ro_load :: unsigned_accumulator
  ro_memory_used :: unsigned_accumulator
  ro_disk_used :: unsigned_accumulator
  ro_network_rx :: unsigned_accumulator
  ro_network_tx :: unsigned_accumulator
  ro_disk_read :: unsigned_accumulator
  ro_disk_write :: unsigned_accumulator
  ro_cpu_clock :: unsigned_accumulator
  ro_gpu_clock :: unsigned_accumulator
  ro_vram_clock :: unsigned_accumulator
  ro_system_ram_clock :: unsigned_accumulator
  ro_active_requests :: unsigned_accumulator
  ro_connected_clients :: unsigned_accumulator
  ro_queued_requests :: unsigned_accumulator

definition empty_rollup :: "nat \<Rightarrow> rollup" where
  "empty_rollup interval =
     \<lparr>ro_interval = interval, ro_bucket = 0, ro_sample_count = 0, ro_latest = None, ro_cpu = unsigned_zero,
      ro_gpu = unsigned_zero, ro_memory = unsigned_zero, ro_disk = unsigned_zero,
      ro_gpu_memory = unsigned_zero, ro_cores = replicate WATCHDOG_MAX_CPU_CORES unsigned_zero,
      ro_engines = replicate WATCHDOG_GPU_ENGINES unsigned_zero, ro_system_temp = signed_zero,
      ro_gpu_temp = signed_zero, ro_nvme_temp = signed_zero, ro_power = unsigned_zero,
      ro_load = unsigned_zero, ro_memory_used = unsigned_zero, ro_disk_used = unsigned_zero,
      ro_network_rx = unsigned_zero, ro_network_tx = unsigned_zero, ro_disk_read = unsigned_zero,
      ro_disk_write = unsigned_zero, ro_cpu_clock = unsigned_zero, ro_gpu_clock = unsigned_zero,
      ro_vram_clock = unsigned_zero, ro_system_ram_clock = unsigned_zero,
      ro_active_requests = unsigned_zero, ro_connected_clients = unsigned_zero,
      ro_queued_requests = unsigned_zero\<rparr>"

definition rollup_new :: "nat \<Rightarrow> watchdog_error + rollup" where
  "rollup_new interval =
     (if interval = 0 then Inl (InvalidContract ''Watchdog rollup interval must be positive'')
      else Inr (empty_rollup interval))"

definition accumulate :: "watchdog_sample \<Rightarrow> rollup \<Rightarrow> rollup" where
  "accumulate sample r =
     (let t = telemetry sample in
      r\<lparr>ro_latest := Some sample, ro_sample_count := (ro_sample_count r + 1) mod 2 ^ 32,
        ro_cpu := add_percent (cpu_percent t) (ro_cpu r), ro_gpu := add_percent (gpu_percent t) (ro_gpu r),
        ro_memory := add_percent (memory_percent t) (ro_memory r),
        ro_disk := add_percent (disk_percent t) (ro_disk r),
        ro_gpu_memory := add_percent (gpu_memory_percent t) (ro_gpu_memory r),
        ro_cores := add_percents (unat (cpu_core_count t)) (cpu_core_percent t) (ro_cores r),
        ro_engines := add_percents (length (ro_engines r)) (gpu_engine_percent t) (ro_engines r),
        ro_system_temp := add_temperature (system_temp_deci_c t) (ro_system_temp r),
        ro_gpu_temp := add_temperature (gpu_temp_deci_c t) (ro_gpu_temp r),
        ro_nvme_temp := add_temperature (nvme_temp_deci_c t) (ro_nvme_temp r),
        ro_power := unsigned_add (unat (power_deci_w t)) (ro_power r),
        ro_load := unsigned_add (unat (load1_centi t)) (ro_load r),
        ro_memory_used := unsigned_add (unat (memory_used_mib t)) (ro_memory_used r),
        ro_disk_used := unsigned_add (unat (disk_used_mib t)) (ro_disk_used r),
        ro_network_rx := unsigned_add (unat (network_rx_kib_s t)) (ro_network_rx r),
        ro_network_tx := unsigned_add (unat (network_tx_kib_s t)) (ro_network_tx r),
        ro_disk_read := unsigned_add (unat (disk_read_kib_s t)) (ro_disk_read r),
        ro_disk_write := unsigned_add (unat (disk_write_kib_s t)) (ro_disk_write r),
        ro_cpu_clock := add_clock (cpu_clock_mhz t) (ro_cpu_clock r),
        ro_gpu_clock := add_clock (gpu_clock_mhz t) (ro_gpu_clock r),
        ro_vram_clock := add_clock (vram_clock_mhz t) (ro_vram_clock r),
        ro_system_ram_clock := add_clock (system_ram_clock_mhz t) (ro_system_ram_clock r),
        ro_active_requests := unsigned_add (unat (active_requests t)) (ro_active_requests r),
        ro_connected_clients := unsigned_add (unat (connected_clients t)) (ro_connected_clients r),
        ro_queued_requests := unsigned_add (unat (queued_requests t)) (ro_queued_requests r)\<rparr>)"

text \<open>\<open>complete\<close>: the telemetry of the finished bucket from the latest sample's telemetry \<open>s\<close>.\<close>

definition rollup_telemetry :: "rollup \<Rightarrow> sample_telemetry \<Rightarrow> sample_telemetry" where
  "rollup_telemetry r s =
     \<lparr>cpu_core_count = cpu_core_count s, flags = flags s OR WATCHDOG_SAMPLE_ROLLUP,
      cpu_percent = average_percent (ro_cpu r), gpu_percent = average_percent (ro_gpu r),
      memory_percent = average_percent (ro_memory r), disk_percent = average_percent (ro_disk r),
      gpu_memory_percent = average_percent (ro_gpu_memory r), workload_type = workload_type s,
      cpu_core_percent = fill_percents (unat (cpu_core_count s)) (cpu_core_percent default_telemetry) (ro_cores r),
      gpu_engine_percent = fill_percents WATCHDOG_GPU_ENGINES (gpu_engine_percent default_telemetry) (ro_engines r),
      system_temp_deci_c = average_temperature (ro_system_temp r),
      gpu_temp_deci_c = average_temperature (ro_gpu_temp r),
      nvme_temp_deci_c = average_temperature (ro_nvme_temp r),
      power_deci_w = saturating_u16 (average (ro_power r)),
      load1_centi = saturating_u16 (average (ro_load r)),
      memory_used_mib = saturating_u32 (average (ro_memory_used r)), memory_total_mib = memory_total_mib s,
      disk_used_mib = saturating_u32 (average (ro_disk_used r)), disk_total_mib = disk_total_mib s,
      network_rx_kib_s = saturating_u32 (average (ro_network_rx r)),
      network_tx_kib_s = saturating_u32 (average (ro_network_tx r)),
      disk_read_kib_s = saturating_u32 (average (ro_disk_read r)),
      disk_write_kib_s = saturating_u32 (average (ro_disk_write r)), workload_id = workload_id s,
      cpu_clock_mhz = average_clock (ro_cpu_clock r), gpu_clock_mhz = average_clock (ro_gpu_clock r),
      vram_clock_mhz = average_clock (ro_vram_clock r),
      system_ram_clock_mhz = average_clock (ro_system_ram_clock r),
      active_requests = saturating_u32 (average (ro_active_requests r)),
      queued_requests = saturating_u32 (average (ro_queued_requests r)),
      connected_clients = saturating_u32 (average (ro_connected_clients r)),
      requests_received = requests_received s, requests_admitted = requests_admitted s,
      requests_completed = requests_completed s, requests_failed = requests_failed s,
      requests_cancelled = requests_cancelled s, requests_retried = requests_retried s,
      input_tokens = input_tokens s, output_tokens = output_tokens s, cached_tokens = cached_tokens s,
      queue_milliseconds = queue_milliseconds s, ttft_milliseconds = ttft_milliseconds s,
      decode_milliseconds = decode_milliseconds s, exact_token_requests = exact_token_requests s,
      prefix_cache_hits = prefix_cache_hits s, usage_records_dropped = usage_records_dropped s,
      usage_write_errors = usage_write_errors s\<rparr>"

definition complete :: "rollup \<Rightarrow> watchdog_sample option" where
  "complete r =
     (case ro_latest r of
        None \<Rightarrow> None
      | Some sample \<Rightarrow>
          (case from_record (sequence sample) (of_nat ((ro_bucket r * ro_interval r) mod 2 ^ 64))
                  (monotonic_milliseconds sample) (rollup_telemetry r (telemetry sample)) of
             Inl _ \<Rightarrow> None | Inr completed \<Rightarrow> Some completed))"

definition push :: "watchdog_sample \<Rightarrow> rollup \<Rightarrow> watchdog_sample option \<times> rollup" where
  "push sample r =
     (let bucket = unat (unix_milliseconds sample) div ro_interval r in
      if ro_sample_count r = 0 then (None, accumulate sample (r\<lparr>ro_bucket := bucket\<rparr>))
      else if bucket = ro_bucket r then (None, accumulate sample r)
      else (complete r, accumulate sample ((empty_rollup (ro_interval r))\<lparr>ro_bucket := bucket\<rparr>)))"

definition complete_partial :: "rollup \<Rightarrow> watchdog_sample option \<times> rollup" where
  "complete_partial r = (complete r, empty_rollup (ro_interval r))"

section \<open>Exact means\<close>

text \<open>The specification: means of the known values over unbounded numbers.\<close>

definition rounded_mean :: "nat list \<Rightarrow> nat" where
  "rounded_mean vs = (sum_list vs + length vs div 2) div length vs"

definition mean_percent :: "byte list \<Rightarrow> byte" where
  "mean_percent vs = (let known = filter (\<lambda>v. v \<noteq> WATCHDOG_PERCENT_UNKNOWN) vs in
     if known = [] then WATCHDOG_PERCENT_UNKNOWN else of_nat (min (rounded_mean (map unat known)) 100))"

definition mean_clock :: "u32 list \<Rightarrow> u32" where
  "mean_clock vs = (let known = filter (\<lambda>v. v \<noteq> WATCHDOG_CLOCK_UNKNOWN) vs in
     if known = [] then WATCHDOG_CLOCK_UNKNOWN else of_nat (rounded_mean (map unat known)))"

definition mean_temperature :: "u16 list \<Rightarrow> u16" where
  "mean_temperature vs = (let known = filter (\<lambda>v. v \<noteq> WATCHDOG_TEMP_UNKNOWN) vs in
     if known = [] then WATCHDOG_TEMP_UNKNOWN
     else of_int (sum_list (map sint known) sdiv int (length known)))"

definition mean_word :: "'w::len word list \<Rightarrow> 'w word" where
  "mean_word vs = of_nat (rounded_mean (map unat vs))"

definition core_values :: "nat \<Rightarrow> sample_telemetry list \<Rightarrow> byte list" where
  "core_values i ts = map (\<lambda>t. cpu_core_percent t ! i) (filter (\<lambda>t. i < unat (cpu_core_count t)) ts)"

definition mean_telemetry :: "sample_telemetry list \<Rightarrow> sample_telemetry" where
  "mean_telemetry ts =
     (let s = last ts in
      \<lparr>cpu_core_count = cpu_core_count s, flags = flags s OR WATCHDOG_SAMPLE_ROLLUP,
       cpu_percent = mean_percent (map cpu_percent ts), gpu_percent = mean_percent (map gpu_percent ts),
       memory_percent = mean_percent (map memory_percent ts),
       disk_percent = mean_percent (map disk_percent ts),
       gpu_memory_percent = mean_percent (map gpu_memory_percent ts), workload_type = workload_type s,
       cpu_core_percent = map (\<lambda>i. if i < unat (cpu_core_count s) then mean_percent (core_values i ts) else WATCHDOG_PERCENT_UNKNOWN)
        [0..<WATCHDOG_MAX_CPU_CORES],
       gpu_engine_percent = map (\<lambda>i. mean_percent (map (\<lambda>t. gpu_engine_percent t ! i) ts)) [0..<WATCHDOG_GPU_ENGINES],
       system_temp_deci_c = mean_temperature (map system_temp_deci_c ts),
       gpu_temp_deci_c = mean_temperature (map gpu_temp_deci_c ts),
       nvme_temp_deci_c = mean_temperature (map nvme_temp_deci_c ts),
       power_deci_w = mean_word (map power_deci_w ts), load1_centi = mean_word (map load1_centi ts),
       memory_used_mib = mean_word (map memory_used_mib ts), memory_total_mib = memory_total_mib s,
       disk_used_mib = mean_word (map disk_used_mib ts), disk_total_mib = disk_total_mib s,
       network_rx_kib_s = mean_word (map network_rx_kib_s ts),
       network_tx_kib_s = mean_word (map network_tx_kib_s ts),
       disk_read_kib_s = mean_word (map disk_read_kib_s ts),
       disk_write_kib_s = mean_word (map disk_write_kib_s ts), workload_id = workload_id s,
       cpu_clock_mhz = mean_clock (map cpu_clock_mhz ts), gpu_clock_mhz = mean_clock (map gpu_clock_mhz ts),
       vram_clock_mhz = mean_clock (map vram_clock_mhz ts),
       system_ram_clock_mhz = mean_clock (map system_ram_clock_mhz ts),
       active_requests = mean_word (map active_requests ts),
       queued_requests = mean_word (map queued_requests ts),
       connected_clients = mean_word (map connected_clients ts), requests_received = requests_received s,
       requests_admitted = requests_admitted s, requests_completed = requests_completed s,
       requests_failed = requests_failed s, requests_cancelled = requests_cancelled s,
       requests_retried = requests_retried s, input_tokens = input_tokens s,
       output_tokens = output_tokens s, cached_tokens = cached_tokens s,
       queue_milliseconds = queue_milliseconds s, ttft_milliseconds = ttft_milliseconds s,
       decode_milliseconds = decode_milliseconds s, exact_token_requests = exact_token_requests s,
       prefix_cache_hits = prefix_cache_hits s, usage_records_dropped = usage_records_dropped s,
       usage_write_errors = usage_write_errors s\<rparr>)"

definition summary :: "nat \<Rightarrow> watchdog_sample list \<Rightarrow> watchdog_sample" where
  "summary interval ss =
     \<lparr>sequence = sequence (last ss),
      unix_milliseconds = of_nat (unat (unix_milliseconds (last ss)) div interval * interval),
      monotonic_milliseconds = monotonic_milliseconds (last ss),
      telemetry = mean_telemetry (map telemetry ss)\<rparr>"

section \<open>No accumulator wraps\<close>

lemma sum_list_le: "\<forall>v \<in> set vs. v \<le> (M::nat) \<Longrightarrow> sum_list vs \<le> length vs * M"
  by (induction vs) auto

lemma sum_below_2_64:
  assumes "n < 2 ^ 32" and "s \<le> n * (2 ^ 32 - 1)"
  shows "s + n div 2 < (2::nat) ^ 64"
proof -
  have "n * (2 ^ 32 - 1) \<le> (2 ^ 32 - 1) * (2 ^ 32 - 1)" using assms(1) by (intro mult_le_mono) auto
  moreover have "n div 2 \<le> 2 ^ 31" using assms(1) by simp
  ultimately show ?thesis using assms(2) by simp
qed

lemma fold_unsigned_add:
  assumes "length vs < 2 ^ 32" and "\<forall>v \<in> set vs. v \<le> 2 ^ 32 - 1"
  shows "fold unsigned_add vs unsigned_zero = \<lparr>u_total = sum_list vs, u_count = length vs\<rparr>"
  using assms
proof (induction vs rule: rev_induct)
  case Nil
  then show ?case by (simp add: unsigned_zero_def)
next
  case (snoc v vs)
  have "sum_list (vs @ [v]) \<le> length (vs @ [v]) * (2 ^ 32 - 1)" using snoc.prems(2) by (rule sum_list_le)
  then have "sum_list vs + v < 2 ^ 64"
    using sum_below_2_64 [OF snoc.prems(1)] by force
  with snoc show ?case by (simp add: unsigned_add_def)
qed

lemma average_fold:
  assumes "length vs < 2 ^ 32" and "\<forall>v \<in> set vs. v \<le> 2 ^ 32 - 1"
  shows "average (fold unsigned_add vs unsigned_zero) = rounded_mean vs"
  using sum_below_2_64 [OF assms(1) sum_list_le [OF assms(2)]]
  by (simp add: fold_unsigned_add [OF assms] average_def rounded_mean_def)

lemma rounded_mean_le: "\<forall>v \<in> set vs. v \<le> M \<Longrightarrow> rounded_mean vs \<le> M"
proof (cases "vs = []")
  case False
  assume "\<forall>v \<in> set vs. v \<le> M"
  then have "sum_list vs + length vs div 2 < length vs * M + length vs"
    using sum_list_le [of vs M] False by (auto intro: le_less_trans [OF add_right_mono] simp: div_less_dividend)
  then have "sum_list vs + length vs div 2 < Suc M * length vs" by (simp add: algebra_simps)
  then show ?thesis using False by (simp add: rounded_mean_def less_mult_imp_div_less flip: less_Suc_eq_le)
qed (simp add: rounded_mean_def)

lemma fold_add_percent:
  "fold add_percent vs a = fold unsigned_add (map unat (filter (\<lambda>v. v \<noteq> WATCHDOG_PERCENT_UNKNOWN) vs)) a"
  by (induction vs arbitrary: a) (auto simp: add_percent_def)

lemma fold_add_clock:
  "fold add_clock vs a = fold unsigned_add (map unat (filter (\<lambda>v. v \<noteq> WATCHDOG_CLOCK_UNKNOWN) vs)) a"
  by (induction vs arbitrary: a) (auto simp: add_clock_def)

lemma unat_le_u32:
  "unat (b :: byte) \<le> 2 ^ 32 - 1" "unat (w :: u16) \<le> 2 ^ 32 - 1" "unat (d :: u32) \<le> 2 ^ 32 - 1"
  using unsigned_less [of b, where 'a = nat] unsigned_less [of w, where 'a = nat] unsigned_less [of d, where 'a = nat]
  by simp_all

lemma filter_short: "length vs < n \<Longrightarrow> length (filter P vs) < n"
  by (rule le_less_trans [OF length_filter_le])

lemma average_percent_fold:
  "length vs < 2 ^ 32 \<Longrightarrow> average_percent (fold add_percent vs unsigned_zero) = mean_percent vs"
  using average_fold [of "map unat (filter (\<lambda>v. v \<noteq> WATCHDOG_PERCENT_UNKNOWN) vs)"]
    fold_unsigned_add [of "map unat (filter (\<lambda>v. v \<noteq> WATCHDOG_PERCENT_UNKNOWN) vs)"] unat_le_u32(1)
    filter_short [of vs "2 ^ 32" "\<lambda>v. v \<noteq> WATCHDOG_PERCENT_UNKNOWN"]
  by (simp add: fold_add_percent average_percent_def mean_percent_def Let_def)

lemma average_clock_fold:
  assumes "length vs < 2 ^ 32"
  shows "average_clock (fold add_clock vs unsigned_zero) = mean_clock vs"
proof -
  let ?ns = "map unat (filter (\<lambda>v. v \<noteq> WATCHDOG_CLOCK_UNKNOWN) vs)"
  have short: "length ?ns < 2 ^ 32" "\<forall>n \<in> set ?ns. n \<le> 2 ^ 32 - 1"
    using filter_short [OF assms] unat_le_u32(3) by auto
  show ?thesis
    using average_fold [OF short] fold_unsigned_add [OF short] rounded_mean_le [OF short(2)]
    by (simp add: fold_add_clock average_clock_def mean_clock_def Let_def saturating_u32_def min_absorb1)
qed

lemma saturating_fold:
  "length vs < 2 ^ 32 \<Longrightarrow> saturating_u16 (average (fold unsigned_add (map unat (vs :: u16 list)) unsigned_zero)) = mean_word vs"
  "length ws < 2 ^ 32 \<Longrightarrow> saturating_u32 (average (fold unsigned_add (map unat (ws :: u32 list)) unsigned_zero)) = mean_word ws"
proof -
  have v: "\<forall>n \<in> set (map unat vs). n \<le> 2 ^ 16 - 1" using unsigned_less [where 'a = nat and 'b = 16] by (auto simp: Suc_le_eq [symmetric] intro: le_diff_conv2 [THEN iffD2])
  have w: "\<forall>n \<in> set (map unat ws). n \<le> 2 ^ 32 - 1" using unat_le_u32(3) by auto
  show "saturating_u16 (average (fold unsigned_add (map unat vs) unsigned_zero)) = mean_word vs" if "length vs < 2 ^ 32"
    using average_fold [of "map unat vs"] that v rounded_mean_le [OF v] unat_le_u32(2)
    by (simp add: saturating_u16_def mean_word_def min_absorb1)
  show "saturating_u32 (average (fold unsigned_add (map unat ws) unsigned_zero)) = mean_word ws" if "length ws < 2 ^ 32"
    using average_fold [OF _ w] that rounded_mean_le [OF w]
    by (simp add: saturating_u32_def mean_word_def min_absorb1)
qed

lemma sint_bounds_16: "- (2 ^ 15) \<le> sint (v :: u16)" "sint (v :: u16) < 2 ^ 15"
  using sint_greater_eq [of v] sint_less [of v] by simp_all

lemma fold_add_temperature:
  assumes "length vs < 2 ^ 32" and "known = filter (\<lambda>v. v \<noteq> WATCHDOG_TEMP_UNKNOWN) vs"
  shows "fold add_temperature vs signed_zero = \<lparr>i_total = sum_list (map sint known), i_count = length known\<rparr>
    \<and> - (int (length known) * 2 ^ 15) \<le> sum_list (map sint known)
    \<and> sum_list (map sint known) \<le> int (length known) * (2 ^ 15 - 1)"
  using assms
proof (induction vs arbitrary: known rule: rev_induct)
  case Nil
  then show ?case by (simp add: signed_zero_def)
next
  case (snoc v vs)
  let ?k = "filter (\<lambda>v. v \<noteq> WATCHDOG_TEMP_UNKNOWN) vs" and ?s = "sum_list (map sint (filter (\<lambda>v. v \<noteq> WATCHDOG_TEMP_UNKNOWN) vs))"
  have IH: "fold add_temperature vs signed_zero = \<lparr>i_total = ?s, i_count = length ?k\<rparr>"
    "- (int (length ?k) * 2 ^ 15) \<le> ?s" "?s \<le> int (length ?k) * (2 ^ 15 - 1)"
    using snoc.IH [OF _ refl] snoc.prems(1) by auto
  have len: "length ?k < 2 ^ 32 - 1" using snoc.prems filter_short [of vs "2 ^ 32 - 1"] by simp
  then have "signed_take_bit 63 (?s + sint v) = ?s + sint v"
    using IH(2,3) sint_bounds_16 [of v] by (intro signed_take_bit_int_eq_self) simp_all
  with IH len sint_bounds_16 [of v] snoc.prems(2) show ?case by (simp add: add_temperature_def [of v])
qed

lemma sdiv_bounds:
  assumes "0 < n" and "- (n * 2 ^ 15) \<le> s" and "s \<le> n * (2 ^ 15 - 1)"
  shows "- (2 ^ 15) \<le> s sdiv n \<and> s sdiv n < (2 ^ 15 :: int)"
proof (cases "0 \<le> s")
  case True
  then have "s div n \<le> 2 ^ 15 - 1" "0 \<le> s div n"
    using assms zdiv_mono1 [OF assms(3,1)] by (simp_all add: pos_imp_zdiv_nonneg_iff)
  with True assms(1) show ?thesis by (cases "s = 0") (simp_all add: signed_divide_int_def)
next
  case False
  then have "- s div n \<le> 2 ^ 15" "0 \<le> - s div n"
    using assms zdiv_mono1 [of "- s" "n * 2 ^ 15" n] by (simp_all add: pos_imp_zdiv_nonneg_iff)
  with False assms(1) show ?thesis by (simp add: signed_divide_int_def)
qed

lemma average_temperature_fold:
  assumes "length vs < 2 ^ 32"
  shows "average_temperature (fold add_temperature vs signed_zero) = mean_temperature vs"
  using fold_add_temperature [OF assms refl]
    sdiv_bounds [of "int (length (filter (\<lambda>v. v \<noteq> WATCHDOG_TEMP_UNKNOWN) vs))"]
  by (simp add: average_temperature_def mean_temperature_def Let_def)


section \<open>A bucket of samples\<close>

lemma fold_accumulate:
  "ro_cpu (fold accumulate ss r) = fold add_percent (map cpu_percent (map telemetry ss)) (ro_cpu r)"
  "ro_gpu (fold accumulate ss r) = fold add_percent (map gpu_percent (map telemetry ss)) (ro_gpu r)"
  "ro_memory (fold accumulate ss r) = fold add_percent (map memory_percent (map telemetry ss)) (ro_memory r)"
  "ro_disk (fold accumulate ss r) = fold add_percent (map disk_percent (map telemetry ss)) (ro_disk r)"
  "ro_gpu_memory (fold accumulate ss r) = fold add_percent (map gpu_memory_percent (map telemetry ss)) (ro_gpu_memory r)"
  "ro_system_temp (fold accumulate ss r) = fold add_temperature (map system_temp_deci_c (map telemetry ss)) (ro_system_temp r)"
  "ro_gpu_temp (fold accumulate ss r) = fold add_temperature (map gpu_temp_deci_c (map telemetry ss)) (ro_gpu_temp r)"
  "ro_nvme_temp (fold accumulate ss r) = fold add_temperature (map nvme_temp_deci_c (map telemetry ss)) (ro_nvme_temp r)"
  "ro_power (fold accumulate ss r) = fold unsigned_add (map unat (map power_deci_w (map telemetry ss))) (ro_power r)"
  "ro_load (fold accumulate ss r) = fold unsigned_add (map unat (map load1_centi (map telemetry ss))) (ro_load r)"
  "ro_memory_used (fold accumulate ss r) = fold unsigned_add (map unat (map memory_used_mib (map telemetry ss))) (ro_memory_used r)"
  "ro_disk_used (fold accumulate ss r) = fold unsigned_add (map unat (map disk_used_mib (map telemetry ss))) (ro_disk_used r)"
  "ro_network_rx (fold accumulate ss r) = fold unsigned_add (map unat (map network_rx_kib_s (map telemetry ss))) (ro_network_rx r)"
  "ro_network_tx (fold accumulate ss r) = fold unsigned_add (map unat (map network_tx_kib_s (map telemetry ss))) (ro_network_tx r)"
  "ro_disk_read (fold accumulate ss r) = fold unsigned_add (map unat (map disk_read_kib_s (map telemetry ss))) (ro_disk_read r)"
  "ro_disk_write (fold accumulate ss r) = fold unsigned_add (map unat (map disk_write_kib_s (map telemetry ss))) (ro_disk_write r)"
  "ro_cpu_clock (fold accumulate ss r) = fold add_clock (map cpu_clock_mhz (map telemetry ss)) (ro_cpu_clock r)"
  "ro_gpu_clock (fold accumulate ss r) = fold add_clock (map gpu_clock_mhz (map telemetry ss)) (ro_gpu_clock r)"
  "ro_vram_clock (fold accumulate ss r) = fold add_clock (map vram_clock_mhz (map telemetry ss)) (ro_vram_clock r)"
  "ro_system_ram_clock (fold accumulate ss r) = fold add_clock (map system_ram_clock_mhz (map telemetry ss)) (ro_system_ram_clock r)"
  "ro_active_requests (fold accumulate ss r) = fold unsigned_add (map unat (map active_requests (map telemetry ss))) (ro_active_requests r)"
  "ro_connected_clients (fold accumulate ss r) = fold unsigned_add (map unat (map connected_clients (map telemetry ss))) (ro_connected_clients r)"
  "ro_queued_requests (fold accumulate ss r) = fold unsigned_add (map unat (map queued_requests (map telemetry ss))) (ro_queued_requests r)"
  by (induction ss arbitrary: r) (simp_all add: accumulate_def Let_def)

lemma fold_accumulate_frame:
  "ro_interval (fold accumulate ss r) = ro_interval r" "ro_bucket (fold accumulate ss r) = ro_bucket r"
  "ro_latest (fold accumulate ss r) = (if ss = [] then ro_latest r else Some (last ss))"
  "ro_sample_count (fold accumulate ss r) = (if ss = [] then ro_sample_count r else (ro_sample_count r + length ss) mod 2 ^ 32)"
  by (induction ss arbitrary: r) (auto simp: accumulate_def Let_def mod_simps)


lemma length_add_percents [simp]: "length (add_percents n vs accs) = length accs"
  by (induction n vs accs rule: add_percents.induct) simp_all

lemma nth_add_percents:
  "i < length accs \<Longrightarrow> length accs \<le> length vs \<Longrightarrow>
   add_percents n vs accs ! i = (if i < n then add_percent (vs ! i) (accs ! i) else accs ! i)"
  by (induction n vs accs arbitrary: i rule: add_percents.induct) (auto simp: nth_Cons split: nat.splits)

lemma length_fill_percents [simp]: "length (fill_percents n vs accs) = length vs"
  by (induction n vs accs rule: fill_percents.induct) simp_all

lemma nth_fill_percents:
  "i < length vs \<Longrightarrow> length vs \<le> length accs \<Longrightarrow>
   fill_percents n vs accs ! i = (if i < n then average_percent (accs ! i) else vs ! i)"
  by (induction n vs accs arbitrary: i rule: fill_percents.induct) (auto simp: nth_Cons split: nat.splits)

lemma fold_accumulate_cores:
  assumes "\<forall>s \<in> set ss. sample_ok s" and "length (ro_cores r) = WATCHDOG_MAX_CPU_CORES"
  shows "length (ro_cores (fold accumulate ss r)) = WATCHDOG_MAX_CPU_CORES"
    and "i < WATCHDOG_MAX_CPU_CORES \<Longrightarrow>
      ro_cores (fold accumulate ss r) ! i = fold add_percent (core_values i (map telemetry ss)) (ro_cores r ! i)"
  using assms
  by (induction ss arbitrary: r)
    (simp_all add: accumulate_def Let_def core_values_def telemetry_ok_def nth_add_percents)

lemma fold_accumulate_engines:
  assumes "\<forall>s \<in> set ss. sample_ok s" and "length (ro_engines r) = WATCHDOG_GPU_ENGINES"
  shows "length (ro_engines (fold accumulate ss r)) = WATCHDOG_GPU_ENGINES"
    and "i < WATCHDOG_GPU_ENGINES \<Longrightarrow> ro_engines (fold accumulate ss r) ! i =
      fold add_percent (map (\<lambda>t. gpu_engine_percent t ! i) (map telemetry ss)) (ro_engines r ! i)"
  using assms
  by (induction ss arbitrary: r)
    (simp_all add: accumulate_def Let_def telemetry_ok_def nth_add_percents)

lemma core_values_short: "length ts < n \<Longrightarrow> length (core_values i ts) < n"
  by (simp add: core_values_def filter_short)

text \<open>The state after the samples of one bucket.\<close>

definition filled :: "nat \<Rightarrow> watchdog_sample list \<Rightarrow> rollup" where
  "filled interval ss =
     fold accumulate ss ((empty_rollup interval)\<lparr>ro_bucket := unat (unix_milliseconds (hd ss)) div interval\<rparr>)"

lemma rollup_telemetry_filled:
  assumes "\<forall>s \<in> set ss. sample_ok s" and "length ss < 2 ^ 32" and "ss \<noteq> []"
  shows "rollup_telemetry (filled interval ss) (telemetry (last ss)) = mean_telemetry (map telemetry ss)"
proof -
  let ?r = "(empty_rollup interval)\<lparr>ro_bucket := unat (unix_milliseconds (hd ss)) div interval\<rparr>"
  let ?f = "fold accumulate ss ?r"
  have zero: "ro_cores ?r = replicate WATCHDOG_MAX_CPU_CORES unsigned_zero"
    "ro_engines ?r = replicate WATCHDOG_GPU_ENGINES unsigned_zero"
    by (simp_all add: empty_rollup_def)
  have cores: "fill_percents (unat (cpu_core_count (telemetry (last ss)))) (cpu_core_percent default_telemetry) (ro_cores ?f) =
      map (\<lambda>i. if i < unat (cpu_core_count (telemetry (last ss))) then mean_percent (core_values i (map telemetry ss))
               else WATCHDOG_PERCENT_UNKNOWN) [0..<WATCHDOG_MAX_CPU_CORES]"
    using fold_accumulate_cores [OF assms(1), of ?r] zero assms(2)
    by (intro nth_equalityI) (simp_all add: default_telemetry_def nth_fill_percents average_percent_fold core_values_short)
  have engines: "fill_percents WATCHDOG_GPU_ENGINES (gpu_engine_percent default_telemetry) (ro_engines ?f) =
      map (\<lambda>i. mean_percent (map (\<lambda>t. gpu_engine_percent t ! i) (map telemetry ss))) [0..<WATCHDOG_GPU_ENGINES]"
    using fold_accumulate_engines [OF assms(1), of ?r] zero assms(2)
    by (intro nth_equalityI) (simp_all add: default_telemetry_def nth_fill_percents average_percent_fold)
  have "length (map telemetry ss) < 2 ^ 32" "last (map telemetry ss) = telemetry (last ss)"
    using assms(2,3) by (simp_all add: last_map)
  then show ?thesis
    unfolding filled_def rollup_telemetry_def mean_telemetry_def Let_def cores engines fold_accumulate
    by (simp add: empty_rollup_def average_percent_fold average_clock_fold average_temperature_fold saturating_fold
        del: map_map)
qed

lemma complete_filled:
  assumes "\<forall>s \<in> set ss. sample_ok s" and "length ss < 2 ^ 32" and "ss \<noteq> []"
    and "\<forall>s \<in> set ss. unat (unix_milliseconds s) div interval = unat (unix_milliseconds (hd ss)) div interval"
  shows "complete (filled interval ss) = Some (summary interval ss)"
proof -
  have "unat (unix_milliseconds (last ss)) div interval * interval \<le> unat (unix_milliseconds (last ss))"
    by (metis times_div_less_eq_dividend mult.commute)
  also have "\<dots> < 2 ^ 64" using unsigned_less [of "unix_milliseconds (last ss)", where 'a = nat] by simp
  finally have "unat (unix_milliseconds (last ss)) div interval * interval < 2 ^ 64" .
  moreover have "unat (unix_milliseconds (hd ss)) div interval = unat (unix_milliseconds (last ss)) div interval"
    using bspec [OF assms(4) last_in_set [OF assms(3)]] by (rule sym)
  moreover have "cpu_core_count (mean_telemetry (map telemetry ss)) = cpu_core_count (telemetry (last ss))"
    using assms(3) by (simp add: mean_telemetry_def Let_def last_map)
  moreover have "unat (cpu_core_count (telemetry (last ss))) \<le> WATCHDOG_MAX_CPU_CORES"
    using assms(1,3) by (simp add: telemetry_ok_def)
  moreover have "ro_latest (filled interval ss) = Some (last ss)" "ro_interval (filled interval ss) = interval"
    "ro_bucket (filled interval ss) = unat (unix_milliseconds (hd ss)) div interval"
    using assms(3) by (simp_all add: filled_def fold_accumulate_frame empty_rollup_def)
  ultimately show ?thesis
    using rollup_telemetry_filled [OF assms(1-3)]
    by (simp add: complete_def from_record_def summary_def)
qed

section \<open>Streams\<close>

text \<open>The outputs of pushing a list of samples, and the rollup left.\<close>

fun push_all :: "watchdog_sample list \<Rightarrow> rollup \<Rightarrow> watchdog_sample list \<times> rollup" where
  "push_all [] r = ([], r)"
| "push_all (s # ss) r =
     (let (out, r1) = push s r; (outs, r2) = push_all ss r1 in ((case out of None \<Rightarrow> outs | Some x \<Rightarrow> x # outs), r2))"

text \<open>Maximal runs of consecutive samples in one bucket; \<open>cur\<close> is the run so far.\<close>

abbreviation time_bucket :: "nat \<Rightarrow> watchdog_sample \<Rightarrow> nat" where
  "time_bucket interval s \<equiv> unat (unix_milliseconds s) div interval"

fun runs_from :: "nat \<Rightarrow> watchdog_sample list \<Rightarrow> watchdog_sample list \<Rightarrow> watchdog_sample list list" where
  "runs_from interval cur [] = [cur]"
| "runs_from interval cur (s # ss) =
     (if time_bucket interval s = time_bucket interval (hd cur) then runs_from interval (cur @ [s]) ss
      else cur # runs_from interval [s] ss)"

definition bucket_runs :: "nat \<Rightarrow> watchdog_sample list \<Rightarrow> watchdog_sample list list" where
  "bucket_runs interval ss = (case ss of [] \<Rightarrow> [] | s # rest \<Rightarrow> runs_from interval [s] rest)"

lemma map_snoc_summary: "map f (xs @ [x]) = map f xs @ [f x]"
  by simp

lemma runs_from_nonempty: "runs_from interval cur ss \<noteq> []"
  by (induction ss arbitrary: cur) auto

lemma concat_runs: "concat (runs_from interval cur ss) = cur @ ss"
  by (induction ss arbitrary: cur) auto

definition same_bucket :: "nat \<Rightarrow> watchdog_sample \<Rightarrow> watchdog_sample \<Rightarrow> bool" where
  "same_bucket interval a s \<longleftrightarrow> time_bucket interval s = time_bucket interval a"

definition run_ok :: "nat \<Rightarrow> watchdog_sample list \<Rightarrow> bool" where
  "run_ok interval run \<longleftrightarrow> run \<noteq> [] \<and> length run < 2 ^ 32 \<and> (\<forall>s \<in> set run. sample_ok s)
     \<and> (\<forall>s \<in> set run. same_bucket interval (hd run) s)"

lemma complete_run: "run_ok interval run \<Longrightarrow> complete (filled interval run) = Some (summary interval run)"
  unfolding run_ok_def same_bucket_def by (intro complete_filled) blast+

lemma filled_frame:
  assumes "run_ok interval run"
  shows "ro_sample_count (filled interval run) = length run" "ro_bucket (filled interval run) = time_bucket interval (hd run)"
    "ro_interval (filled interval run) = interval"
  using assms by (simp_all add: filled_def fold_accumulate_frame empty_rollup_def run_ok_def)

lemma filled_snoc: "run \<noteq> [] \<Longrightarrow> filled interval (run @ [s]) = accumulate s (filled interval run)"
  by (simp add: filled_def)

lemma filled_single: "filled interval [s] = accumulate s ((empty_rollup interval)\<lparr>ro_bucket := time_bucket interval s\<rparr>)"
  by (simp add: filled_def)

lemma push_filled:
  assumes "run_ok interval run"
  shows "push s (filled interval run) =
    (if time_bucket interval s = time_bucket interval (hd run) then (None, filled interval (run @ [s]))
     else (Some (summary interval run), filled interval [s]))"
proof -
  have ne: "run \<noteq> []" "length run \<noteq> 0" using assms by (auto simp: run_ok_def)
  then show ?thesis
    by (simp add: push_def filled_frame [OF assms] filled_snoc filled_single complete_run [OF assms])
qed

lemma push_all_runs:
  assumes "run_ok interval cur" and "\<forall>s \<in> set ss. sample_ok s" and "length cur + length ss < 2 ^ 32"
  shows "push_all ss (filled interval cur) =
    (map (summary interval) (butlast (runs_from interval cur ss)), filled interval (last (runs_from interval cur ss)))
    \<and> run_ok interval (last (runs_from interval cur ss))"
  using assms
proof (induction ss arbitrary: cur)
  case Nil
  then show ?case by simp
next
  case (Cons s ss)
  show ?case
  proof (cases "time_bucket interval s = time_bucket interval (hd cur)")
    case True
    with Cons.prems have "run_ok interval (cur @ [s])" by (auto simp: run_ok_def same_bucket_def [of interval _ s])
    with Cons.IH [OF this] Cons.prems True show ?thesis
      by (simp add: push_filled [OF Cons.prems(1)])
  next
    case False
    have "run_ok interval [s]" using Cons.prems by (simp add: run_ok_def same_bucket_def)
    moreover have "length [s] + length ss < 2 ^ 32" using Cons.prems by (cases cur) (auto simp: run_ok_def)
    ultimately show ?thesis
      using Cons.IH [of "[s]"] Cons.prems(2) False
      by (simp add: push_filled [OF Cons.prems(1)] runs_from_nonempty)
  qed
qed

section \<open>Properties of rollups\<close>

text \<open>
  C30: pushing a stream of samples into a new rollup and then completing the partial bucket yields
  exactly one rollup sample for each maximal run of samples in one time bucket, in order. Each is
  the summary of its run: the start of the bucket as its time, the sequence, clocks and counters of
  the last sample, and the exact rounded mean of the known values of every averaged field. No
  accumulator wraps and no field saturates below \<open>2\<^sup>3\<^sup>2\<close> samples.
\<close>

theorem rollup_exact:
  assumes "rollup_new interval = Inr r" and "\<forall>s \<in> set ss. sample_ok s" and "length ss < 2 ^ 32"
    and "push_all ss r = (outs, r')"
  shows "outs @ (case complete_partial r' of (None, _) \<Rightarrow> [] | (Some x, _) \<Rightarrow> [x])
      = map (summary interval) (bucket_runs interval ss) \<and> concat (bucket_runs interval ss) = ss"
proof (cases ss)
  case Nil
  then show ?thesis
    using assms(1,4) by (auto simp: bucket_runs_def complete_partial_def complete_def rollup_new_def empty_rollup_def
        split: if_splits)
next
  case (Cons s rest)
  have r: "r = empty_rollup interval" using assms(1) by (simp add: rollup_new_def split: if_splits)
  have one: "run_ok interval [s]" using assms(2,3) Cons by (simp add: run_ok_def same_bucket_def)
  have "push s r = (None, filled interval [s])"
    by (simp add: r push_def filled_single empty_rollup_def)
  moreover note runs = push_all_runs [OF one, of rest]
  ultimately have outs: "outs = map (summary interval) (butlast (runs_from interval [s] rest))"
    "r' = filled interval (last (runs_from interval [s] rest))" "run_ok interval (last (runs_from interval [s] rest))"
    using assms(2-4) Cons by (auto split: prod.splits)
  then have "complete_partial r' = (Some (summary interval (last (runs_from interval [s] rest))), empty_rollup interval)"
    by (simp add: complete_partial_def complete_run [OF outs(3)] filled_frame [OF outs(3)])
  then show ?thesis
    using outs(1) Cons concat_runs [of interval "[s]" rest] runs_from_nonempty [of interval "[s]" rest]
    by (simp add: bucket_runs_def append_butlast_last_id flip: map_snoc_summary)
qed

theorem rollup_exact_witness:
  "\<exists>outs r'. push_all [small_sample, small_sample\<lparr>unix_milliseconds := 62000\<rparr>] (empty_rollup 60000) = (outs, r')
     \<and> outs @ (case complete_partial r' of (None, _) \<Rightarrow> [] | (Some x, _) \<Rightarrow> [x])
       = [summary 60000 [small_sample, small_sample\<lparr>unix_milliseconds := 62000\<rparr>]]"
proof -
  let ?ss = "[small_sample, small_sample\<lparr>unix_milliseconds := 62000\<rparr>]"
  obtain outs r' where run: "push_all ?ss (empty_rollup 60000) = (outs, r')" by force
  have "bucket_runs 60000 ?ss = [?ss]" by (simp add: bucket_runs_def small_sample_def)
  then show ?thesis
    using rollup_exact [of 60000 "empty_rollup 60000" ?ss outs r'] run small_sample_ok by (simp add: rollup_new_def)
qed

end
