(* ===== verification/WatchdogJournal.thy ===== *)
theory WatchdogJournal
  imports WatchdogRing "HOL-Library.Multiset"
begin

text \<open>
  The safety-event journal of the watchdog, \<open>core/watchdog/src/li_watchdog_event_journal.rs\<close>: fixed
  64-byte records in a ring with one spare slot, published in two phases (erase, prepare, commit) so
  that an interruption between them is recognised when the journal is opened again. Shown here: the
  record codec is exact, an append is atomic under a crash after any of its writes, a torn record damages
  only the slot being written and is noticed, and an event is stored once however often it is replayed
  within the window.
\<close>

section \<open>Events\<close>

datatype safety_action = Stop | Kill

record safety_event =
  ev_kind :: string
  ev_reason :: string
  ev_severity :: byte
  ev_generation :: "byte list"
  ev_sequence :: u64
  ev_action :: "safety_action option"
  ev_containment :: "bool option"

datatype event_kind = Warning | EngineExit | ProtectionTrip
datatype event_reason = HostMemoryWarning | ProtectedProcessExited | CgroupOomKill

record event_identity =
  id_kind :: event_kind
  id_reason :: event_reason
  id_severity :: byte
  id_generation :: "byte list"
  id_sequence :: u64
  id_action :: "safety_action option"
  id_containment :: "bool option"

definition event_contract_error :: watchdog_error where
  "event_contract_error = InvalidContract ''Watchdog safety event is outside the native journal contract''"

definition event_corruption_error :: watchdog_error where
  "event_corruption_error = InvalidContract ''Watchdog safety event journal is corrupt''"

definition capacity_error :: watchdog_error where
  "capacity_error = InvalidContract ''Watchdog safety event journal capacity is invalid''"

text \<open>ASCII \<open>0\<close> to \<open>9\<close> and \<open>a\<close> to \<open>f\<close>.\<close>

definition is_hex :: "byte \<Rightarrow> bool" where
  "is_hex b \<longleftrightarrow> (48 \<le> b \<and> b \<le> 57) \<or> (97 \<le> b \<and> b \<le> 102)"

definition closed_combination :: "event_identity \<Rightarrow> bool" where
  "closed_combination e \<longleftrightarrow>
     (case (id_kind e, id_reason e, id_action e, id_containment e) of
        (Warning, HostMemoryWarning, None, None) \<Rightarrow> id_severity e = 1
      | (EngineExit, ProtectedProcessExited, Some Stop, Some _) \<Rightarrow> id_severity e = 2
      | (ProtectionTrip, CgroupOomKill, Some Kill, Some _) \<Rightarrow> id_severity e = 3
      | _ \<Rightarrow> False)"

definition validate_identity :: "event_identity \<Rightarrow> watchdog_error + unit" where
  "validate_identity e =
     ensure (closed_combination e \<and> id_sequence e \<noteq> 0 \<and> list_all is_hex (id_generation e)) event_contract_error"

definition kind_of_string :: "string \<Rightarrow> event_kind option" where
  "kind_of_string k = (if k = ''protection.warning'' then Some Warning else if k = ''engine.exit'' then Some EngineExit
     else if k = ''protection.trip'' then Some ProtectionTrip else None)"

definition reason_of_string :: "string \<Rightarrow> event_reason option" where
  "reason_of_string r = (if r = ''host_memory_warning'' then Some HostMemoryWarning
     else if r = ''protected_process_exited'' then Some ProtectedProcessExited
     else if r = ''cgroup_oom_kill'' then Some CgroupOomKill else None)"

definition identity_from_event :: "safety_event \<Rightarrow> watchdog_error + event_identity" where
  "identity_from_event ev =
     bind_result (of_option event_contract_error (kind_of_string (ev_kind ev))) (\<lambda>kind.
     bind_result (of_option event_contract_error (reason_of_string (ev_reason ev))) (\<lambda>reason.
     bind_result (ensure (length (ev_generation ev) = 32) event_contract_error) (\<lambda>_.
     bind_result (ensure (\<not> (ev_sequence ev = 0 \<or> \<not> list_all is_hex (ev_generation ev))) event_contract_error) (\<lambda>_.
     let e = \<lparr>id_kind = kind, id_reason = reason, id_severity = ev_severity ev, id_generation = ev_generation ev,
              id_sequence = ev_sequence ev, id_action = ev_action ev, id_containment = ev_containment ev\<rparr>
     in bind_result (validate_identity e) (\<lambda>_. Inr e)))))"

section \<open>Records\<close>

definition WATCHDOG_EVENT_MAGIC :: "byte list" where "WATCHDOG_EVENT_MAGIC = [76, 73, 87, 69]"
definition WATCHDOG_EVENT_VERSION :: byte where "WATCHDOG_EVENT_VERSION = 1"
definition WATCHDOG_EVENT_RECORD_BYTES :: nat where "WATCHDOG_EVENT_RECORD_BYTES = 64"
definition WATCHDOG_EVENT_CRC_OFFSET :: nat where "WATCHDOG_EVENT_CRC_OFFSET = 60"
definition WATCHDOG_EVENT_SCAN_RECORDS :: nat where "WATCHDOG_EVENT_SCAN_RECORDS = 64"
definition WATCHDOG_EVENT_PREPARING_MARKER :: byte where "WATCHDOG_EVENT_PREPARING_MARKER = 0x5a"
definition WATCHDOG_EVENT_COMMITTED_MARKER :: byte where "WATCHDOG_EVENT_COMMITTED_MARKER = 0xa5"

fun kind_byte :: "event_kind \<Rightarrow> byte" where
  "kind_byte Warning = 1" | "kind_byte EngineExit = 2" | "kind_byte ProtectionTrip = 3"

fun reason_byte :: "event_reason \<Rightarrow> byte" where
  "reason_byte HostMemoryWarning = 1" | "reason_byte ProtectedProcessExited = 2" | "reason_byte CgroupOomKill = 3"

fun action_byte :: "safety_action option \<Rightarrow> byte" where
  "action_byte None = 0" | "action_byte (Some Stop) = 1" | "action_byte (Some Kill) = 2"

fun containment_byte :: "bool option \<Rightarrow> byte" where
  "containment_byte None = 0" | "containment_byte (Some False) = 1" | "containment_byte (Some True) = 2"

text \<open>The puts of \<open>encode_record\<close> before the checksum; byte 11 stays zero.\<close>

definition event_puts :: "u64 \<Rightarrow> event_identity \<Rightarrow> byte \<Rightarrow> put list" where
  "event_puts ordinal e marker =
     [(0, WATCHDOG_EVENT_MAGIC), put_u8 4 WATCHDOG_EVENT_VERSION, put_u8 5 (kind_byte (id_kind e)),
      put_u8 6 (reason_byte (id_reason e)), put_u8 7 (id_severity e), put_u8 8 (action_byte (id_action e)),
      put_u8 9 (containment_byte (id_containment e)), put_u8 10 marker, put_u64 12 ordinal,
      put_u64 20 (id_sequence e), (28, id_generation e)]"

definition encode_event :: "u64 \<Rightarrow> event_identity \<Rightarrow> byte \<Rightarrow> byte list" where
  "encode_event ordinal e marker =
     (let rec = fold write_put (event_puts ordinal e marker) (replicate WATCHDOG_EVENT_RECORD_BYTES 0)
      in write_put (put_u32 WATCHDOG_EVENT_CRC_OFFSET (watchdog_crc32 (take WATCHDOG_EVENT_CRC_OFFSET rec))) rec)"

datatype event_slot =
    Empty
  | Preparing nat event_identity
  | Committed nat event_identity

definition identity_from_record :: "byte list \<Rightarrow> watchdog_error + event_identity" where
  "identity_from_record rec =
     bind_result (if rec ! 5 = 1 then Inr Warning else if rec ! 5 = 2 then Inr EngineExit
       else if rec ! 5 = 3 then Inr ProtectionTrip else Inl event_corruption_error) (\<lambda>kind.
     bind_result (if rec ! 6 = 1 then Inr HostMemoryWarning else if rec ! 6 = 2 then Inr ProtectedProcessExited
       else if rec ! 6 = 3 then Inr CgroupOomKill else Inl event_corruption_error) (\<lambda>reason.
     bind_result (if rec ! 8 = 0 then Inr None else if rec ! 8 = 1 then Inr (Some Stop)
       else if rec ! 8 = 2 then Inr (Some Kill) else Inl event_corruption_error) (\<lambda>action.
     bind_result (if rec ! 9 = 0 then Inr None else if rec ! 9 = 1 then Inr (Some False)
       else if rec ! 9 = 2 then Inr (Some True) else Inl event_corruption_error) (\<lambda>containment.
     let e = \<lparr>id_kind = kind, id_reason = reason, id_severity = rec ! 7, id_generation = slice 28 32 rec,
              id_sequence = get_u64 rec 20, id_action = action, id_containment = containment\<rparr>
     in bind_result (map_err (\<lambda>_. event_corruption_error) (validate_identity e)) (\<lambda>_. Inr e)))))"

definition decode_event_slot :: "byte list \<Rightarrow> watchdog_error + event_slot" where
  "decode_event_slot rec =
     (if list_all (\<lambda>b. b = 0) rec then Inr Empty
      else if rec ! 10 \<noteq> WATCHDOG_EVENT_PREPARING_MARKER \<and> rec ! 10 \<noteq> WATCHDOG_EVENT_COMMITTED_MARKER
      then Inl event_corruption_error
      else if take 4 rec \<noteq> WATCHDOG_EVENT_MAGIC \<or> rec ! 4 \<noteq> WATCHDOG_EVENT_VERSION \<or> rec ! 11 \<noteq> 0
         \<or> get_u32 rec WATCHDOG_EVENT_CRC_OFFSET \<noteq> watchdog_crc32 (take WATCHDOG_EVENT_CRC_OFFSET rec)
      then Inl event_corruption_error
      else let ordinal = unat (get_u64 rec 12) in
           if ordinal = 0 then Inl event_corruption_error
           else bind_result (identity_from_record rec) (\<lambda>e.
             Inr (if rec ! 10 = WATCHDOG_EVENT_PREPARING_MARKER then Preparing ordinal e else Committed ordinal e)))"

section \<open>The journal\<close>

definition event_physical_capacity :: "nat \<Rightarrow> watchdog_error + nat" where
  "event_physical_capacity logical =
     of_option capacity_error (if logical \<ge> 2 then checked_add64 logical 1 else None)"

definition event_file_bytes :: "nat \<Rightarrow> watchdog_error + nat" where
  "event_file_bytes logical =
     bind_result (event_physical_capacity logical) (\<lambda>physical.
     of_option capacity_error
       (case checked_mul64 physical WATCHDOG_EVENT_RECORD_BYTES of
          None \<Rightarrow> None | Some bytes \<Rightarrow> if bytes \<le> 2 ^ 63 - 1 then Some bytes else None))"

text \<open>
  The scan: committed records in slot order and the slot and ordinal of an interrupted record.
\<close>

type_synonym scan_result = "(nat \<times> event_identity) list \<times> (nat \<times> nat) option"

fun scan_chunk :: "nat \<Rightarrow> nat \<Rightarrow> byte list list \<Rightarrow> scan_result \<Rightarrow> watchdog_error + scan_result" where
  "scan_chunk cap slot [] acc = Inr acc"
| "scan_chunk cap slot (rec # recs) (found, preparing) =
     bind_result (decode_event_slot rec) (\<lambda>d.
       case d of
         Empty \<Rightarrow> scan_chunk cap (slot + 1) recs (found, preparing)
       | Preparing ordinal e \<Rightarrow>
           if (ordinal - 1) mod cap \<noteq> slot \<or> preparing \<noteq> None then Inl event_corruption_error
           else scan_chunk cap (slot + 1) recs (found, Some (slot, ordinal))
       | Committed ordinal e \<Rightarrow>
           if (ordinal - 1) mod cap \<noteq> slot then Inl event_corruption_error
           else scan_chunk cap (slot + 1) recs (found @ [(ordinal, e)], preparing))"

fun scan_event_blocks :: "nat \<Rightarrow> ring_io \<Rightarrow> byte list \<Rightarrow> nat list \<Rightarrow> scan_result \<Rightarrow> watchdog_error + scan_result" where
  "scan_event_blocks cap io content [] acc = Inr acc"
| "scan_event_blocks cap io content (first_slot # slots) acc =
     (let record_count = min (cap - first_slot) WATCHDOG_EVENT_SCAN_RECORDS in
      bind_result (ring_read_exact io content (first_slot * WATCHDOG_EVENT_RECORD_BYTES)
          (record_count * WATCHDOG_EVENT_RECORD_BYTES)) (\<lambda>bytes.
      bind_result (scan_chunk cap first_slot (chunks_exact WATCHDOG_EVENT_RECORD_BYTES record_count bytes) acc) (\<lambda>acc'.
      scan_event_blocks cap io content slots acc')))"

definition scan_event_records :: "nat \<Rightarrow> ring_io \<Rightarrow> byte list \<Rightarrow> watchdog_error + scan_result" where
  "scan_event_records cap io content =
     scan_event_blocks cap io content (step_by 0 cap WATCHDOG_EVENT_SCAN_RECORDS) ([], None)"

definition max_ordinal :: "(nat \<times> event_identity) list \<Rightarrow> nat" where
  "max_ordinal recs = fold max (map fst recs) 0"

text \<open>\<open>BTreeSet\<close> of the ordinals as a sorted list without repetitions.\<close>

definition validate_record_set ::
  "nat \<Rightarrow> nat \<Rightarrow> (nat \<times> event_identity) list \<Rightarrow> (nat \<times> nat) option \<Rightarrow> watchdog_error + nat" where
  "validate_record_set logical physical recs preparing =
     (let maximum = max_ordinal recs in
      bind_result (of_option event_corruption_error (checked_add64 maximum 1)) (\<lambda>next_ordinal.
      bind_result (ensure (\<not> (case preparing of None \<Rightarrow> False
          | Some (slot, ordinal) \<Rightarrow> slot \<noteq> (next_ordinal - 1) mod physical \<or> ordinal \<noteq> next_ordinal))
        event_corruption_error) (\<lambda>_.
      if maximum = 0 then (if recs = [] then Inr next_ordinal else Inl event_corruption_error)
      else
        let committed_count = length recs; complete_count = min maximum physical;
            interrupted_count = min maximum logical in
        bind_result (ensure (\<not> (committed_count \<noteq> interrupted_count
            \<and> (preparing \<noteq> None \<or> committed_count \<noteq> complete_count))) event_corruption_error) (\<lambda>_.
        let first = maximum - committed_count + 1; ordinals = sort (remdups (map fst recs)) in
        bind_result (ensure (\<not> (length ordinals \<noteq> length recs \<or> hd ordinals \<noteq> first \<or> last ordinals \<noteq> maximum))
          event_corruption_error) (\<lambda>_.
        let retained_first = maximum - min maximum logical + 1;
            window = filter (\<lambda>r. fst r \<ge> retained_first) recs in
        bind_result (ensure (length (remdups (map snd window)) = length window) event_corruption_error) (\<lambda>_.
        Inr next_ordinal))))))"

definition retained_identities :: "(nat \<times> event_identity) list \<Rightarrow> nat \<Rightarrow> event_identity set" where
  "retained_identities recs logical = set (map snd (take logical (rev (sort_key fst recs))))"

record event_journal =
  j_logical :: nat
  j_physical :: nat
  j_content :: "byte list"
  j_next :: nat
  j_records :: "(nat \<times> event_identity) list"
  j_identities :: "event_identity set"
  j_uncertain :: bool

definition journal_with_file :: "ring_io \<Rightarrow> nat \<Rightarrow> byte list \<Rightarrow> watchdog_error + event_journal" where
  "journal_with_file io logical content =
     bind_result (event_physical_capacity logical) (\<lambda>physical.
     bind_result (event_file_bytes logical) (\<lambda>expected.
     bind_result (file_length io content) (\<lambda>observed.
     bind_result (ensure (\<not> observed > expected)
       (storage_io_error ''safety event journal exceeds its closed capacity'')) (\<lambda>_.
     bind_result (if observed < expected then set_length io expected content else Inr content) (\<lambda>content'.
     bind_result (file_length io content') (\<lambda>final.
     bind_result (ensure (final = expected)
       (storage_io_error ''safety event journal has an incomplete extent'')) (\<lambda>_.
     bind_result (scan_event_records physical io content') (\<lambda>(recs, preparing).
     bind_result (validate_record_set logical physical recs preparing) (\<lambda>next_ordinal.
     Inr \<lparr>j_logical = logical, j_physical = physical, j_content = content', j_next = next_ordinal,
          j_records = recs, j_identities = retained_identities recs logical, j_uncertain = False\<rparr>)))))))))"

definition reconstruct :: "ring_io \<Rightarrow> event_journal \<Rightarrow> watchdog_error + event_journal" where
  "reconstruct io j =
     bind_result (scan_event_records (j_physical j) io (j_content j)) (\<lambda>(recs, preparing).
     bind_result (validate_record_set (j_logical j) (j_physical j) recs preparing) (\<lambda>next_ordinal.
     Inr (j\<lparr>j_identities := retained_identities recs (j_logical j), j_records := recs, j_next := next_ordinal\<rparr>)))"

definition read_event_slot :: "ring_io \<Rightarrow> event_journal \<Rightarrow> nat \<Rightarrow> watchdog_error + event_slot" where
  "read_event_slot io j slot =
     bind_result (ring_read_exact io (j_content j) (slot * WATCHDOG_EVENT_RECORD_BYTES) WATCHDOG_EVENT_RECORD_BYTES)
       decode_event_slot"

text \<open>The native calls of one append can behave differently at each of its phases.\<close>

datatype phase = Rescan | Lookup | Recheck | Erase | Prepare | Commit

text \<open>One \<open>write_exact\<close> followed by \<open>synchronize\<close>.\<close>

definition publish :: "ring_io \<Rightarrow> nat \<Rightarrow> byte list \<Rightarrow> event_journal \<Rightarrow> (watchdog_error + unit) \<times> event_journal" where
  "publish io offset bytes j =
     (case ring_write_exact ''safety event journal write made no progress'' io (j_content j) offset bytes of
        (Inl e, content) \<Rightarrow> (Inl e, j\<lparr>j_content := content\<rparr>)
      | (Inr _, content) \<Rightarrow> (file_synchronize io, j\<lparr>j_content := content\<rparr>))"

text \<open>
  The append proper, after the slot has been looked up: \<open>overwritten\<close> is the ordinal the index has for
  the slot and \<open>previous\<close> the one found in the file.
\<close>

definition append_event ::
  "(phase \<Rightarrow> ring_io) \<Rightarrow> event_identity \<Rightarrow> nat option \<Rightarrow> nat option \<Rightarrow> event_journal \<Rightarrow>
   (watchdog_error + bool) \<times> event_journal" where
  "append_event ios e overwritten previous j =
     (let ordinal = j_next j; slot = (ordinal - 1) mod j_physical j; offset = slot * WATCHDOG_EVENT_RECORD_BYTES in
      case publish (ios Erase) offset (replicate WATCHDOG_EVENT_RECORD_BYTES 0) j of
        (Inl err, j1) \<Rightarrow> (Inl err, j1)
      | (Inr _, j1) \<Rightarrow>
          (case publish (ios Prepare) offset (encode_event (of_nat ordinal) e WATCHDOG_EVENT_PREPARING_MARKER) j1 of
             (Inl err, j2) \<Rightarrow> (Inl err, j2)
           | (Inr _, j2) \<Rightarrow>
               (case publish (ios Commit) offset (encode_event (of_nat ordinal) e WATCHDOG_EVENT_COMMITTED_MARKER)
                       (j2\<lparr>j_uncertain := True\<rparr>) of
                  (Inl err, j3) \<Rightarrow> (Inl err, j3)
                | (Inr _, j3) \<Rightarrow>
                    let recs1 = (case overwritten of None \<Rightarrow> j_records j3 | Some o1 \<Rightarrow> AList.delete o1 (j_records j3));
                        recs2 = (case previous of None \<Rightarrow> recs1 | Some o2 \<Rightarrow> AList.delete o2 recs1);
                        recs3 = AList.update ordinal e recs2
                    in (Inr True, j3\<lparr>j_records := recs3, j_identities := retained_identities recs3 (j_logical j),
                          j_next := ordinal + 1, j_uncertain := False\<rparr>))))"

text \<open>
  \<open>record\<close>. Its recursive call happens after the index was rebuilt; \<open>fuel\<close> bounds it and
  \<open>None\<close> stands for running out.
\<close>

fun record_event ::
  "nat \<Rightarrow> (phase \<Rightarrow> ring_io) \<Rightarrow> safety_event \<Rightarrow> event_journal \<Rightarrow> ((watchdog_error + bool) \<times> event_journal) option" where
  "record_event 0 ios ev j0 = None"
| "record_event (Suc fuel) ios ev j0 =
     (case (if j_uncertain j0 then map_sum id (\<lambda>j. j\<lparr>j_uncertain := False\<rparr>) (reconstruct (ios Rescan) j0) else Inr j0) of
        Inl err \<Rightarrow> Some (Inl err, j0)
      | Inr j \<Rightarrow>
     (case identity_from_event ev of
        Inl err \<Rightarrow> Some (Inl err, j)
      | Inr e \<Rightarrow>
     if e \<in> j_identities j then Some (Inr False, j)
     else if j_next j \<ge> u64_max
     then Some (Inl (InvalidContract ''Watchdog safety event journal ordinal overflowed''), j)
     else
     let ordinal = j_next j; slot = (ordinal - 1) mod j_physical j;
         overwritten = find (\<lambda>previous. (previous - 1) mod j_physical j = slot) (sort (map fst (j_records j))) in
     (case read_event_slot (ios Lookup) j slot of
        Inl err \<Rightarrow> Some (Inl err, j)
      | Inr Empty \<Rightarrow> Some (append_event ios e overwritten None j)
      | Inr (Preparing previous _) \<Rightarrow>
          if previous = ordinal then Some (append_event ios e overwritten None j)
          else Some (Inl event_corruption_error, j)
      | Inr (Committed previous pe) \<Rightarrow>
          if previous = ordinal
          then (case file_synchronize (ios Recheck) of
                  Inl err \<Rightarrow> Some (Inl err, j)
                | Inr _ \<Rightarrow>
                    (case reconstruct (ios Recheck) j of
                       Inl err \<Rightarrow> Some (Inl err, j)
                     | Inr j' \<Rightarrow>
                         if j_next j' \<noteq> ordinal + 1 \<or> pe \<notin> j_identities j' then Some (Inl event_corruption_error, j')
                         else if pe = e then Some (Inr False, j')
                         else record_event fuel ios ev j'))
          else if previous + j_physical j = ordinal
          then Some (append_event ios e overwritten (Some previous) j)
          else Some (Inl event_corruption_error, j))))"

section \<open>The record codec\<close>

definition identity_ok :: "event_identity \<Rightarrow> bool" where
  "identity_ok e \<longleftrightarrow> closed_combination e \<and> id_sequence e \<noteq> 0 \<and> list_all is_hex (id_generation e)
     \<and> length (id_generation e) = 32"

lemma identity_from_event_ok: "identity_from_event ev = Inr e \<Longrightarrow> identity_ok e"
  by (auto simp: identity_from_event_def identity_ok_def validate_identity_def result_simps Let_def)

lemmas event_constants = WATCHDOG_EVENT_MAGIC_def WATCHDOG_EVENT_VERSION_def WATCHDOG_EVENT_RECORD_BYTES_def
  WATCHDOG_EVENT_CRC_OFFSET_def WATCHDOG_EVENT_PREPARING_MARKER_def WATCHDOG_EVENT_COMMITTED_MARKER_def

text \<open>The puts with the untouched byte 11 made explicit cover the record without a gap.\<close>

definition event_fields :: "u64 \<Rightarrow> event_identity \<Rightarrow> byte \<Rightarrow> put list" where
  "event_fields ordinal e marker = take 8 (event_puts ordinal e marker) @ (11, [0]) # drop 8 (event_puts ordinal e marker)"

lemma event_fields_contiguous:
  assumes "length (id_generation e) = 32"
  shows "contiguous 0 (event_fields ordinal e marker)" "length (put_bytes_of (event_fields ordinal e marker)) = 60"
  using assms by (simp_all add: event_fields_def event_puts_def put_defs event_constants numeral_eq_Suc)

definition event_bytes :: "u64 \<Rightarrow> event_identity \<Rightarrow> byte \<Rightarrow> byte list" where
  "event_bytes ordinal e marker =
     (let body = put_bytes_of (event_fields ordinal e marker) in body @ to_le 4 (watchdog_crc32 body))"

lemma contiguous_append:
  "contiguous a (ps @ qs) \<longleftrightarrow> contiguous a ps \<and> contiguous (a + length (put_bytes_of ps)) qs"
  by (induction ps arbitrary: a) (auto simp: add.assoc)

lemma encode_event_bytes:
  assumes "length (id_generation e) = 32"
  shows "encode_event ordinal e marker = event_bytes ordinal e marker"
proof -
  let ?ps = "take 8 (event_puts ordinal e marker)" and ?qs = "drop 8 (event_puts ordinal e marker)"
  let ?body = "put_bytes_of (event_fields ordinal e marker)"
  have len: "length (put_bytes_of ?ps) = 11"
    by (simp add: event_puts_def put_defs event_constants numeral_eq_Suc)
  have cont: "contiguous 0 ?ps" "contiguous 12 ?qs" "length (put_bytes_of ?qs) = 48"
    using event_fields_contiguous [OF assms, of ordinal marker] len
    by (simp_all add: event_fields_def contiguous_append)
  have "fold write_put ?ps (replicate 64 0) = put_bytes_of ?ps @ replicate 53 0"
    using fold_write_contiguous [of "[]" ?ps 64] cont(1) len by simp
  also have "\<dots> = (put_bytes_of ?ps @ [0]) @ replicate 52 0" by (simp add: numeral_eq_Suc)
  finally have "fold write_put (event_puts ordinal e marker) (replicate 64 0) =
      fold write_put ?qs ((put_bytes_of ?ps @ [0]) @ replicate 52 0)"
    by (metis append_take_drop_id fold_append comp_apply)
  also have "\<dots> = ?body @ replicate 4 0"
    using fold_write_contiguous [of "put_bytes_of ?ps @ [0]" ?qs 52] cont(2,3) len by (simp add: event_fields_def)
  finally show ?thesis
    using event_fields_contiguous(2) [OF assms, of ordinal marker]
    by (simp add: encode_event_def event_bytes_def Let_def put_u32_def write_put_def splice_def event_constants)
qed

lemma length_event_bytes [simp]: "length (id_generation e) = 32 \<Longrightarrow> length (event_bytes ordinal e marker) = 64"
  by (simp add: event_bytes_def Let_def event_fields_contiguous)

lemma event_bytes_slices:
  assumes "length (id_generation e) = 32"
  shows "list_all (\<lambda>p. slice (fst p) (length (snd p)) (event_bytes ordinal e marker) = snd p) (event_fields ordinal e marker)"
  using slice_put [of "[]" "event_fields ordinal e marker" _ "to_le 4 (watchdog_crc32 (put_bytes_of (event_fields ordinal e marker)))"]
    event_fields_contiguous(1) [OF assms]
  by (simp add: list_all_iff event_bytes_def Let_def)

lemma decode_identity:
  assumes "rec ! 5 = kind_byte (id_kind e)" "rec ! 6 = reason_byte (id_reason e)" "rec ! 7 = id_severity e"
    "rec ! 8 = action_byte (id_action e)" "rec ! 9 = containment_byte (id_containment e)"
    "slice 28 32 rec = id_generation e" "get_u64 rec 20 = id_sequence e" "identity_ok e"
  shows "identity_from_record rec = Inr e"
proof -
  have "(if kind_byte k = 1 then Inr Warning else if kind_byte k = 2 then Inr EngineExit
      else if kind_byte k = 3 then Inr ProtectionTrip else Inl event_corruption_error) = Inr k" for k
    by (cases k) simp_all
  moreover have "(if reason_byte k = 1 then Inr HostMemoryWarning else if reason_byte k = 2 then Inr ProtectedProcessExited
      else if reason_byte k = 3 then Inr CgroupOomKill else Inl event_corruption_error) = Inr k" for k
    by (cases k) simp_all
  moreover have "(if action_byte k = 0 then Inr None else if action_byte k = 1 then Inr (Some Stop)
      else if action_byte k = 2 then Inr (Some Kill) else Inl event_corruption_error) = Inr k" for k
    by (cases k rule: action_byte.cases) simp_all
  moreover have "(if containment_byte k = 0 then Inr None else if containment_byte k = 1 then Inr (Some False)
      else if containment_byte k = 2 then Inr (Some True) else Inl event_corruption_error) = Inr k" for k
    by (cases k rule: containment_byte.cases) simp_all
  moreover have eta: "\<lparr>id_kind = id_kind e, id_reason = id_reason e, id_severity = id_severity e,
      id_generation = id_generation e, id_sequence = id_sequence e, id_action = id_action e,
      id_containment = id_containment e\<rparr> = e"
    by simp
  ultimately show ?thesis
    using assms(8) unfolding identity_from_record_def assms(1-7) Let_def
    by (simp add: validate_identity_def identity_ok_def eta)
qed

lemma decode_event_bytes:
  assumes "identity_ok e" and "0 < ordinal" and "ordinal \<le> u64_max"
    and "marker = WATCHDOG_EVENT_PREPARING_MARKER \<or> marker = WATCHDOG_EVENT_COMMITTED_MARKER"
  shows "decode_event_slot (event_bytes (of_nat ordinal) e marker) =
    Inr (if marker = WATCHDOG_EVENT_PREPARING_MARKER then Preparing ordinal e else Committed ordinal e)"
proof -
  let ?rec = "event_bytes (of_nat ordinal) e marker"
  have gen: "length (id_generation e) = 32" using assms(1) by (simp add: identity_ok_def)
  note fields = event_bytes_slices [OF gen, of "of_nat ordinal" marker, unfolded event_fields_def event_puts_def put_defs, simplified]
  have bytes: "?rec ! 4 = WATCHDOG_EVENT_VERSION" "?rec ! 5 = kind_byte (id_kind e)" "?rec ! 6 = reason_byte (id_reason e)"
    "?rec ! 7 = id_severity e" "?rec ! 8 = action_byte (id_action e)" "?rec ! 9 = containment_byte (id_containment e)"
    "?rec ! 10 = marker" "?rec ! 11 = 0"
    using fields by (simp_all add: nth_of_slice)
  have "length WATCHDOG_EVENT_MAGIC = 4" by (simp add: WATCHDOG_EVENT_MAGIC_def)
  then have ranges: "take 4 ?rec = WATCHDOG_EVENT_MAGIC" "get_u64 ?rec 12 = of_nat ordinal" "get_u64 ?rec 20 = id_sequence e"
    "slice 28 32 ?rec = id_generation e"
    using fields gen by (simp_all add: get_u64_def slice_def)
  have crc: "get_u32 ?rec 60 = watchdog_crc32 (take 60 ?rec)"
    using event_fields_contiguous(2) [OF gen] by (simp add: event_bytes_def Let_def get_u32_def slice_def)
  have ord: "unat (get_u64 ?rec 12) = ordinal"
    using assms(3) by (simp add: ranges(2) u64_max_def unat_of_nat take_bit_nat_eq_self)
  have "\<not> list_all (\<lambda>b. b = 0) ?rec"
    using bytes(1) gen by (auto simp: list_all_length event_constants intro!: exI [of _ 4])
  then show ?thesis
    using assms(2,4) bytes ranges crc ord decode_identity [OF bytes(2-6) ranges(4,3) assms(1)]
    by (auto simp: decode_event_slot_def Let_def WATCHDOG_EVENT_CRC_OFFSET_def)
qed

section \<open>What the file holds\<close>

text \<open>
  The slots after the events \<open>es\<close> have been appended, by ordinal from one: event \<open>k\<close> is in slot
  \<open>(k - 1) mod P\<close> until event \<open>k + P\<close> replaces it.
\<close>

definition slots_of :: "nat \<Rightarrow> event_identity list \<Rightarrow> nat \<Rightarrow> event_slot" where
  "slots_of P es = fold (\<lambda>k d. d((k - 1) mod P := Committed k (es ! (k - 1)))) [1..<Suc (length es)] (\<lambda>_. Empty)"

lemma slots_of_Nil: "slots_of P [] = (\<lambda>_. Empty)"
  by (simp add: slots_of_def)

lemma slots_of_snoc:
  "slots_of P (es @ [e]) = (slots_of P es)(length es mod P := Committed (Suc (length es)) e)"
proof -
  have "fold (\<lambda>k d. d((k - 1) mod P := Committed k ((es @ [e]) ! (k - 1)))) [1..<Suc (length es)] d =
      fold (\<lambda>k d. d((k - 1) mod P := Committed k (es ! (k - 1)))) [1..<Suc (length es)] d" for d
    by (intro fold_cong) (auto simp: nth_append)
  then show ?thesis by (simp add: slots_of_def)
qed

lemma slots_of_Committed:
  assumes "0 < P" and "i < P"
  shows "slots_of P es i = Committed k e \<longleftrightarrow>
      1 \<le> k \<and> k \<le> length es \<and> length es < k + P \<and> (k - 1) mod P = i \<and> e = es ! (k - 1)"
proof (induction es rule: rev_induct)
  case Nil
  then show ?case by (auto simp: slots_of_Nil)
next
  case (snoc x es)
  let ?n = "length es"
  show ?case
  proof (cases "i = ?n mod P")
    case True
    have "k = Suc ?n" if "1 \<le> k" "k \<le> Suc ?n" "Suc ?n < k + P" "(k - 1) mod P = ?n mod P"
    proof -
      have "k - 1 \<le> ?n" "?n - (k - 1) < P" using that by auto
      moreover have "P dvd ?n - (k - 1)" using that(4) calculation(1) by (metis mod_eq_dvd_iff_nat)
      ultimately have "?n - (k - 1) = 0" using nat_dvd_not_less by blast
      then show ?thesis using that by auto
    qed
    then show ?thesis using True assms by (auto simp: slots_of_snoc)
  next
    case False
    have "?n < k + P \<longleftrightarrow> Suc ?n < k + P" if "1 \<le> k" "k \<le> ?n" "(k - 1) mod P = i"
    proof -
      have "Suc ?n \<noteq> k + P"
      proof
        assume "Suc ?n = k + P"
        with that(1) have "?n = (k - 1) + P" by simp
        then have "?n mod P = (k - 1) mod P" by simp
        with False that(3) show False by simp
      qed
      then show ?thesis by auto
    qed
    moreover have "k \<noteq> Suc ?n" if "(k - 1) mod P = i" using False that by auto
    ultimately show ?thesis
      using False snoc by (auto simp: slots_of_snoc nth_append)
  qed
qed

lemma slots_of_not_Preparing: "slots_of P es i \<noteq> Preparing k e"
  by (induction es rule: rev_induct) (auto simp: slots_of_Nil slots_of_snoc)

text \<open>
  How far an append has come in the next slot: not begun or complete, erased, or prepared.
\<close>

datatype progress = Quiet | Erased | Prepared event_identity

fun disk :: "nat \<Rightarrow> event_identity list \<Rightarrow> progress \<Rightarrow> nat \<Rightarrow> event_slot" where
  "disk P es Quiet = slots_of P es"
| "disk P es Erased = (slots_of P es)(length es mod P := Empty)"
| "disk P es (Prepared e) = (slots_of P es)(length es mod P := Preparing (Suc (length es)) e)"

text \<open>How many of the newest events are in committed records.\<close>

definition kept :: "nat \<Rightarrow> nat \<Rightarrow> progress \<Rightarrow> nat" where
  "kept P n pr = (case pr of Quiet \<Rightarrow> min n P | _ \<Rightarrow> min n (P - 1))"

lemma next_slot_free:
  fixes n P k :: nat
  assumes "n - min n (P - 1) < k" "k \<le> n"
  shows "(k - 1) mod P \<noteq> n mod P"
proof
  assume eq: "(k - 1) mod P = n mod P"
  have "k - 1 \<le> n" "n - (k - 1) \<le> P" using assms by (auto simp: min_def split: if_splits)
  moreover have "P dvd n - (k - 1)" using eq calculation(1) by (metis mod_eq_dvd_iff_nat)
  moreover have "n - (k - 1) \<noteq> 0" using assms by auto
  ultimately have "n - (k - 1) = P" using dvd_imp_le [of P "n - (k - 1)"] by auto
  then show False using assms by (auto simp: min_def split: if_splits)
qed

lemma disk_Committed:
  assumes "0 < P" and "i < P"
  shows "disk P es pr i = Committed k e \<longleftrightarrow>
    length es - kept P (length es) pr < k \<and> k \<le> length es \<and> (k - 1) mod P = i \<and> e = es ! (k - 1)"
proof -
  let ?n = "length es"
  have other: "?n < k + P \<longleftrightarrow> ?n - min ?n P < k" if "1 \<le> k" "k \<le> ?n"
    using that by (auto simp: min_def)
  note next_slot = next_slot_free [of "length es" P]
  have skipped: "?n < k + P \<longleftrightarrow> ?n - min ?n (P - 1) < k" if "1 \<le> k" "k \<le> ?n" "(k - 1) mod P \<noteq> ?n mod P"
  proof -
    have "?n \<noteq> (k - 1) + P" using that(3) by auto
    with that(1,2) assms(1) show ?thesis by (auto simp: min_def)
  qed
  show ?thesis
  proof (cases pr)
    case Quiet
    then show ?thesis
      using slots_of_Committed [OF assms, of es k e] other by (auto simp: kept_def)
  next
    case Erased
    then show ?thesis
      using slots_of_Committed [OF assms, of es k e] next_slot [of k] skipped by (auto simp: kept_def)
  next
    case (Prepared e')
    then show ?thesis
      using slots_of_Committed [OF assms, of es k e] next_slot [of k] skipped by (auto simp: kept_def)
  qed
qed

section \<open>Scanning\<close>

abbreviation event_bytes_at :: "byte list \<Rightarrow> nat \<Rightarrow> byte list" where
  "event_bytes_at content i \<equiv> slice (i * WATCHDOG_EVENT_RECORD_BYTES) WATCHDOG_EVENT_RECORD_BYTES content"

definition file_holds :: "nat \<Rightarrow> byte list \<Rightarrow> (nat \<Rightarrow> event_slot) \<Rightarrow> bool" where
  "file_holds P content d \<longleftrightarrow> length content = P * WATCHDOG_EVENT_RECORD_BYTES
     \<and> (\<forall>i < P. decode_event_slot (event_bytes_at content i) = Inr (d i))"

definition committed_in :: "(nat \<Rightarrow> event_slot) \<Rightarrow> nat list \<Rightarrow> (nat \<times> event_identity) list" where
  "committed_in d is = List.map_filter (\<lambda>i. case d i of Committed k e \<Rightarrow> Some (k, e) | _ \<Rightarrow> None) is"

definition interrupted :: "(nat \<Rightarrow> event_slot) \<Rightarrow> nat \<Rightarrow> nat \<Rightarrow> (nat \<times> nat) option" where
  "interrupted d q t = (case d q of Preparing k e \<Rightarrow> if q < t then Some (q, k) else None | _ \<Rightarrow> None)"

text \<open>Every record is in the slot of its ordinal and only slot \<open>q\<close> may hold an interrupted one.\<close>

definition placed :: "nat \<Rightarrow> nat \<Rightarrow> (nat \<Rightarrow> event_slot) \<Rightarrow> bool" where
  "placed P q d \<longleftrightarrow> (\<forall>i < P. case d i of Empty \<Rightarrow> True | Preparing k _ \<Rightarrow> (k - 1) mod P = i \<and> i = q
     | Committed k _ \<Rightarrow> (k - 1) mod P = i)"

lemma scan_chunk_spec:
  assumes "\<forall>i < P. decode_event_slot (event_bytes_at content i) = Inr (d i)" and "placed P q d" and "s + n \<le> P"
  shows "scan_chunk P s (map (event_bytes_at content) [s..<s + n]) (found, interrupted d q s) =
    Inr (found @ committed_in d [s..<s + n], interrupted d q (s + n))"
  using assms(3)
proof (induction n arbitrary: s found)
  case 0
  then show ?case by (simp add: committed_in_def map_filter_simps)
next
  case (Suc n)
  have cons: "[s..<Suc (s + n)] = s # [Suc s..<Suc (s + n)]" by (simp add: upt_conv_Cons)
  have dec: "decode_event_slot (event_bytes_at content s) = Inr (d s)"
    and pl: "case d s of Empty \<Rightarrow> True | Preparing k _ \<Rightarrow> (k - 1) mod P = s \<and> s = q | Committed k _ \<Rightarrow> (k - 1) mod P = s"
    using assms(1,2) Suc.prems by (auto simp: placed_def)
  show ?case
  proof (cases "d s")
    case Empty
    then have "interrupted d q (Suc s) = interrupted d q s"
      by (auto simp: interrupted_def less_Suc_eq split: event_slot.splits)
    then show ?thesis
      using Suc.IH [of "Suc s" found] Suc.prems dec Empty
      by (simp add: cons committed_in_def map_filter_simps del: upt_Suc)
  next
    case (Preparing k e)
    with pl have "interrupted d q s = None" "interrupted d q (Suc s) = Some (s, k)"
      by (auto simp: interrupted_def)
    then show ?thesis
      using Suc.IH [of "Suc s" found] Suc.prems dec Preparing pl cons
      by (simp add: committed_in_def map_filter_simps del: upt_Suc)
  next
    case (Committed k e)
    then have "interrupted d q (Suc s) = interrupted d q s"
      by (auto simp: interrupted_def less_Suc_eq split: event_slot.splits)
    then show ?thesis
      using Suc.IH [of "Suc s" "found @ [(k, e)]"] Suc.prems dec Committed pl
      by (simp add: cons committed_in_def map_filter_simps del: upt_Suc)
  qed
qed

lemma committed_in_append: "committed_in d (xs @ ys) = committed_in d xs @ committed_in d ys"
  by (simp add: committed_in_def map_filter_append)

lemma scan_event_blocks_spec:
  assumes "file_holds P content d" and "placed P q d" and "readable io" and "s \<le> P"
  shows "scan_event_blocks P io content (step_by s P WATCHDOG_EVENT_SCAN_RECORDS) (found, interrupted d q s) =
    Inr (found @ committed_in d [s..<P], interrupted d q P)"
  using assms
proof (induction s P "WATCHDOG_EVENT_SCAN_RECORDS" arbitrary: found rule: step_by.induct)
  case (1 s P)
  show ?case
  proof (cases "s < P")
    case False
    with 1 have "s = P" by simp
    then show ?thesis by (subst step_by.simps) (simp add: committed_in_def map_filter_simps)
  next
    case True
    let ?n = "min (P - s) WATCHDOG_EVENT_SCAN_RECORDS" and ?k = WATCHDOG_EVENT_RECORD_BYTES
    have n: "s + ?n \<le> P" using True by simp
    then have "(s + ?n) * ?k \<le> length content" using 1(2) by (simp add: file_holds_def)
    then have read: "ring_read_exact io content (s * ?k) (?n * ?k) = Inr (slice (s * ?k) (?n * ?k) content)"
      by (intro ring_read_exact_ok 1(4)) (simp add: algebra_simps)
    have chunk: "scan_chunk P s (map (event_bytes_at content) [s..<s + ?n]) (found, interrupted d q s) =
        Inr (found @ committed_in d [s..<s + ?n], interrupted d q (s + ?n))"
      using 1(2,3) n by (intro scan_chunk_spec) (simp_all add: file_holds_def)
    have pos: "0 < WATCHDOG_EVENT_SCAN_RECORDS" by (simp add: WATCHDOG_EVENT_SCAN_RECORDS_def)
    have split: "[s..<P] = [s..<s + ?n] @ [s + ?n..<P]" using n by (metis le_add1 upt_add_eq_append le_add_diff_inverse)
    have "scan_event_blocks P io content (step_by s P WATCHDOG_EVENT_SCAN_RECORDS) (found, interrupted d q s) =
        scan_event_blocks P io content (step_by (s + WATCHDOG_EVENT_SCAN_RECORDS) P WATCHDOG_EVENT_SCAN_RECORDS)
          (found @ committed_in d [s..<s + ?n], interrupted d q (s + ?n))"
      using True pos read chunk by (subst step_by.simps) (simp add: Let_def chunks_exact_slice)
    also have "\<dots> = Inr ((found @ committed_in d [s..<s + ?n]) @ committed_in d [s + ?n..<P], interrupted d q P)"
    proof (cases "P - s \<le> WATCHDOG_EVENT_SCAN_RECORDS")
      case last: True
      then have "s + ?n = P" using True by simp
      moreover have "step_by (s + WATCHDOG_EVENT_SCAN_RECORDS) P WATCHDOG_EVENT_SCAN_RECORDS = []"
        using last by (subst step_by.simps) auto
      ultimately show ?thesis by (simp add: committed_in_def map_filter_simps)
    next
      case False
      then have "?n = WATCHDOG_EVENT_SCAN_RECORDS" by simp
      with 1(1) [OF conjI [OF True pos] 1(2-4)] n show ?thesis by simp
    qed
    finally show ?thesis unfolding split committed_in_append by simp
  qed
qed

lemma scan_event_records_spec:
  assumes "file_holds P content d" and "placed P q d" and "readable io"
  shows "scan_event_records P io content = Inr (committed_in d [0..<P], interrupted d q P)"
  using scan_event_blocks_spec [OF assms, of 0 "[]"] by (simp add: scan_event_records_def interrupted_def split: event_slot.splits)

section \<open>What a scan of the file shows\<close>

lemma placed_disk: "0 < P \<Longrightarrow> placed P (length es mod P) (disk P es pr)"
  unfolding placed_def
proof (intro allI impI)
  fix i
  assume "0 < P" "i < P"
  show "case disk P es pr i of Empty \<Rightarrow> True | Preparing k _ \<Rightarrow> (k - 1) mod P = i \<and> i = length es mod P
      | Committed k _ \<Rightarrow> (k - 1) mod P = i"
  proof (cases "disk P es pr i")
    case (Preparing k e)
    then show ?thesis using slots_of_not_Preparing [of P es i] by (cases pr) (auto split: if_splits)
  next
    case (Committed k e)
    then show ?thesis using disk_Committed [of P i es pr k e] \<open>0 < P\<close> \<open>i < P\<close> by simp
  qed simp
qed

lemma committed_in_disk:
  assumes "0 < P"
  shows "set (committed_in (disk P es pr) [0..<P]) =
      (\<lambda>k. (k, es ! (k - 1))) ` {Suc (length es - kept P (length es) pr)..length es}"
    and "distinct (map fst (committed_in (disk P es pr) [0..<P]))"
proof -
  let ?d = "disk P es pr"
  have mem: "(k, e) \<in> set (committed_in ?d is) \<longleftrightarrow> (\<exists>i \<in> set is. ?d i = Committed k e)" for k e "is"
    by (induction "is") (auto simp: committed_in_def map_filter_simps split: event_slot.splits option.splits)
  show "set (committed_in ?d [0..<P]) = (\<lambda>k. (k, es ! (k - 1))) ` {Suc (length es - kept P (length es) pr)..length es}"
  proof (intro set_eqI, clarify)
    fix k e
    have "(\<exists>i<P. ?d i = Committed k e) \<longleftrightarrow> length es - kept P (length es) pr < k \<and> k \<le> length es \<and> e = es ! (k - 1)"
      using disk_Committed [OF assms] mod_less_divisor [OF assms, of "k - 1"] by blast
    then show "(k, e) \<in> set (committed_in ?d [0..<P]) \<longleftrightarrow>
        (k, e) \<in> (\<lambda>k. (k, es ! (k - 1))) ` {Suc (length es - kept P (length es) pr)..length es}"
      by (auto simp: mem Suc_le_eq)
  qed
  have sub: "distinct (map fst (committed_in ?d is))" if "distinct is" "set is \<subseteq> {..<P}" for "is"
    using that
  proof (induction "is")
    case Nil
    then show ?case by (simp add: committed_in_def map_filter_simps)
  next
    case (Cons i "is")
    have "k \<notin> fst ` set (committed_in ?d is)" if "?d i = Committed k e" for k e
    proof
      assume "k \<in> fst ` set (committed_in ?d is)"
      then obtain e' i' where "i' \<in> set is" "?d i' = Committed k e'" using mem by force
      with that Cons.prems disk_Committed [OF assms] show False by (metis distinct.simps(2) insert_subset lessThan_iff list.simps(15) subsetD)
    qed
    with Cons show ?case by (auto simp: committed_in_def map_filter_simps split: event_slot.splits)
  qed
  show "distinct (map fst (committed_in ?d [0..<P]))" by (rule sub) auto
qed

lemma interrupted_disk:
  "0 < P \<Longrightarrow> interrupted (disk P es pr) (length es mod P) P =
    (case pr of Prepared e \<Rightarrow> Some (length es mod P, Suc (length es)) | _ \<Rightarrow> None)"
  using slots_of_not_Preparing [of P es]
  by (auto simp: interrupted_def split: progress.splits event_slot.splits)

text \<open>The index of the newest \<open>c\<close> of the events \<open>es\<close>, in any order.\<close>

definition indexes :: "event_identity list \<Rightarrow> nat \<Rightarrow> (nat \<times> event_identity) list \<Rightarrow> bool" where
  "indexes es c recs \<longleftrightarrow> c \<le> length es \<and> distinct (map fst recs)
     \<and> set recs = (\<lambda>k. (k, es ! (k - 1))) ` {Suc (length es - c)..length es}"

lemma indexes_disk: "0 < P \<Longrightarrow> indexes es (kept P (length es) pr) (committed_in (disk P es pr) [0..<P])"
  unfolding indexes_def using committed_in_disk [of P es pr] by (auto simp: kept_def split: progress.splits)

lemma indexes_facts:
  assumes "indexes es c recs"
  shows "set (map fst recs) = {Suc (length es - c)..length es}" and "length recs = c"
    and "sort (map fst recs) = [Suc (length es - c)..<Suc (length es)]"
    and "sort_key fst recs = map (\<lambda>k. (k, es ! (k - 1))) [Suc (length es - c)..<Suc (length es)]"
    and "c \<noteq> 0 \<Longrightarrow> max_ordinal recs = length es"
proof -
  have d: "distinct (map fst recs)" and c: "c \<le> length es"
    and set_recs: "set recs = (\<lambda>k. (k, es ! (k - 1))) ` {Suc (length es - c)..length es}"
    using assms by (auto simp: indexes_def)
  show keys: "set (map fst recs) = {Suc (length es - c)..length es}"
    by (simp add: set_recs image_image)
  then have "card {Suc (length es - c)..length es} = length recs"
    using distinct_card [OF d] by simp
  then show "length recs = c" using c by simp
  show sorted_keys: "sort (map fst recs) = [Suc (length es - c)..<Suc (length es)]"
    using d keys by (intro sorted_distinct_set_unique) (auto simp del: upt_Suc)
  have "((\<lambda>k. (k, es ! (k - 1))) \<circ> fst) r = r" if "r \<in> set (sort_key fst recs)" for r
    using that set_recs by auto
  then have "map ((\<lambda>k. (k, es ! (k - 1))) \<circ> fst) (sort_key fst recs) = sort_key fst recs"
    by (rule map_idI)
  then have "sort_key fst recs = map (\<lambda>k. (k, es ! (k - 1))) (map fst (sort_key fst recs))"
    by simp
  moreover have "map fst (sort_key fst recs) = sort (map fst recs)"
    by (intro properties_for_sort [symmetric]) simp_all
  ultimately show "sort_key fst recs = map (\<lambda>k. (k, es ! (k - 1))) [Suc (length es - c)..<Suc (length es)]"
    using sorted_keys by simp
  show "max_ordinal recs = length es" if "c \<noteq> 0"
  proof -
    have "max_ordinal recs = Max (insert 0 (set (map fst recs)))"
      unfolding max_ordinal_def by (metis Max.set_eq_fold list.simps(15))
    also have "\<dots> = length es" unfolding keys using that c by (intro Max_eqI) auto
    finally show ?thesis .
  qed
qed

lemma retained_window:
  assumes "indexes es c recs" and "min (length es) L \<le> c"
  shows "retained_identities recs L = set (drop (length es - L) es)"
proof -
  let ?n = "length es"
  have c: "c \<le> ?n" using assms(1) by (simp add: indexes_def)
  have "take L (rev [Suc (?n - c)..<Suc ?n]) = rev (drop (c - L) [Suc (?n - c)..<Suc ?n])"
    using c by (simp add: take_rev del: upt_Suc)
  also have "drop (c - L) [Suc (?n - c)..<Suc ?n] = [Suc (?n - L)..<Suc ?n]"
    using assms(2) c by (cases "?n \<le> L") (auto simp: drop_upt min_def simp del: upt_Suc)
  finally have "retained_identities recs L = (\<lambda>k. es ! (k - 1)) ` set [Suc (?n - L)..<Suc ?n]"
    using indexes_facts(4) [OF assms(1)]
    by (simp add: retained_identities_def rev_map take_map image_image del: upt_Suc)
  also have "\<dots> = (!) es ` {?n - L..<?n}"
    by (simp add: image_image flip: image_Suc_atLeastLessThan del: upt_Suc)
  also have "\<dots> = set (drop (?n - L) (map ((!) es) [0..<?n]))"
    by (simp add: drop_map)
  also have "\<dots> = set (drop (?n - L) es)" by (simp add: map_nth)
  finally show ?thesis .
qed

lemma validate_index:
  assumes "indexes es c recs" and "c = min (length es) P \<or> c = min (length es) (P - 1)" and "2 < P"
    and "length es < u64_max" and "distinct (drop (length es - (P - 1)) es)"
    and "preparing = None \<or> preparing = Some (length es mod P, Suc (length es)) \<and> c = min (length es) (P - 1)"
  shows "validate_record_set (P - 1) P recs preparing = Inr (Suc (length es))"
proof (cases "length es = 0")
  case True
  then have "recs = []" using indexes_facts(2) [OF assms(1)] assms(2) by auto
  then show ?thesis
    using True assms(4,6) by (auto simp: validate_record_set_def max_ordinal_def checked_add64_def)
next
  case False
  let ?n = "length es" and ?L = "P - 1"
  have c: "c \<noteq> 0" "c \<le> ?n" "min ?n ?L \<le> c" using assms(1,2,3) False by (auto simp: indexes_def)
  note facts = indexes_facts [OF assms(1)]
  have maxi: "max_ordinal recs = ?n" by (rule facts(5) [OF c(1)])
  have distinct_keys: "distinct (map fst recs)" using assms(1) by (simp add: indexes_def)
  have ords: "sort (remdups (map fst recs)) = [Suc (?n - c)..<Suc ?n]"
    using facts(3) distinct_keys by (simp add: distinct_remdups_id)
  have window: "?n - min ?n ?L + 1 = Suc (?n - ?L)" by simp
  have inj: "inj_on (\<lambda>k. es ! (k - 1)) {Suc (?n - ?L)..?n}"
  proof (rule inj_onI)
    fix a b
    assume ab: "a \<in> {Suc (?n - ?L)..?n}" "b \<in> {Suc (?n - ?L)..?n}" "es ! (a - 1) = es ! (b - 1)"
    then have "drop (?n - ?L) es ! (a - 1 - (?n - ?L)) = drop (?n - ?L) es ! (b - 1 - (?n - ?L))" by auto
    then have "a - 1 - (?n - ?L) = b - 1 - (?n - ?L)"
      using ab(1,2) nth_eq_iff_index_eq [OF assms(5), of "a - 1 - (?n - ?L)" "b - 1 - (?n - ?L)"]
      by (simp add: less_diff_conv2 Suc_le_eq)
    then show "a = b" using ab(1,2) by auto
  qed
  have "distinct (map snd (filter (\<lambda>r. Suc (?n - ?L) \<le> fst r) recs))"
  proof -
    have "map snd (filter (\<lambda>r. Suc (?n - ?L) \<le> fst r) recs) =
        map (\<lambda>k. es ! (k - 1)) (filter (\<lambda>k. Suc (?n - ?L) \<le> k) (map fst recs))"
      using assms(1) by (auto simp: indexes_def filter_map comp_def intro!: map_cong)
    moreover have "inj_on (\<lambda>k. es ! (k - 1)) (set (filter (\<lambda>k. Suc (?n - ?L) \<le> k) (map fst recs)))"
      by (rule inj_on_subset [OF inj]) (use facts(1) in auto)
    ultimately show ?thesis using distinct_keys by (simp add: distinct_map distinct_filter)
  qed
  then have ids: "length (remdups (map snd (filter (\<lambda>r. fst r \<ge> ?n - min ?n ?L + 1) recs))) =
      length (filter (\<lambda>r. fst r \<ge> ?n - min ?n ?L + 1) recs)"
    unfolding window by (simp add: distinct_remdups_id)
  have hd_last: "hd [Suc (?n - c)..<Suc ?n] = ?n - c + 1" "last [Suc (?n - c)..<Suc ?n] = ?n"
    using c by (simp_all add: hd_upt last_upt del: upt_Suc)
  show ?thesis
    using assms(2,4,6) c facts(2) False
    unfolding validate_record_set_def Let_def maxi ords hd_last ids
    by (auto simp: checked_add64_def simp del: upt_Suc)
qed

lemma recover:
  assumes "file_holds P content (disk P es pr)" and "readable io" and "2 < P" and "length es < u64_max"
    and "distinct (drop (length es - (P - 1)) es)"
  shows "\<exists>recs preparing. scan_event_records P io content = Inr (recs, preparing)
    \<and> validate_record_set (P - 1) P recs preparing = Inr (Suc (length es))
    \<and> retained_identities recs (P - 1) = set (drop (length es - (P - 1)) es)
    \<and> indexes es (kept P (length es) pr) recs"
proof -
  have P: "0 < P" using assms(3) by simp
  let ?recs = "committed_in (disk P es pr) [0..<P]"
  have ind: "indexes es (kept P (length es) pr) ?recs" by (rule indexes_disk [OF P])
  have scan: "scan_event_records P io content = Inr (?recs, interrupted (disk P es pr) (length es mod P) P)"
    by (rule scan_event_records_spec [OF assms(1) placed_disk [OF P] assms(2)])
  moreover have "validate_record_set (P - 1) P ?recs (interrupted (disk P es pr) (length es mod P) P) = Inr (Suc (length es))"
    by (rule validate_index [OF ind _ assms(3-5)])
      (auto simp: interrupted_disk [OF P] kept_def split: progress.splits)
  moreover have "retained_identities ?recs (P - 1) = set (drop (length es - (P - 1)) es)"
    by (rule retained_window [OF ind]) (auto simp: kept_def split: progress.splits)
  ultimately show ?thesis using ind by blast
qed

section \<open>Appending\<close>

text \<open>
  A write of one record is atomic when it moves all 64 bytes or none, as a file system does for a
  range inside one sector.
\<close>

definition atomic_write :: "ring_io \<Rightarrow> bool" where
  "atomic_write io \<longleftrightarrow> (\<forall>offset. case write_count io offset WATCHDOG_EVENT_RECORD_BYTES of
     None \<Rightarrow> True | Some n \<Rightarrow> n = 0 \<or> WATCHDOG_EVENT_RECORD_BYTES \<le> n)"

lemma atomic_write_exact:
  assumes "atomic_write io" and "length bytes = WATCHDOG_EVENT_RECORD_BYTES"
  shows "\<exists>e. ring_write_exact no_progress io c off bytes = (Inl e, c)
    \<or> ring_write_exact no_progress io c off bytes = (Inr (), splice off bytes c)"
proof -
  have whole: "ring_write_exact no_progress io c' off' [] = (Inr (), c')" for c' off'
    by (subst ring_write_exact.simps) simp
  have "bytes \<noteq> []" using assms(2) by (auto simp: event_constants)
  then show ?thesis
    using assms whole unfolding atomic_write_def
    by (subst (1 2) ring_write_exact.simps)
      (auto simp: file_write_at_def Let_def min_def split: option.splits dest: spec [of _ off])
qed

lemma slots_of_length: "q < P \<Longrightarrow> q * WATCHDOG_EVENT_RECORD_BYTES + WATCHDOG_EVENT_RECORD_BYTES \<le> P * WATCHDOG_EVENT_RECORD_BYTES"
  by (metis Suc_leI mult_Suc mult_le_mono1 add.commute)

lemma file_holds_splice:
  assumes "file_holds P c d" and "q < P" and "length bytes = WATCHDOG_EVENT_RECORD_BYTES"
    and "decode_event_slot bytes = Inr x"
  shows "file_holds P (splice (q * WATCHDOG_EVENT_RECORD_BYTES) bytes c) (d(q := x))"
proof -
  let ?k = WATCHDOG_EVENT_RECORD_BYTES
  have len: "length c = P * ?k" using assms(1) by (simp add: file_holds_def)
  have fit: "q * ?k + ?k \<le> length c" using slots_of_length [OF assms(2)] len by simp
  have same: "event_bytes_at (splice (q * ?k) bytes c) q = bytes"
    using fit assms(3) by (simp add: slice_def splice_def)
  have other: "event_bytes_at (splice (q * ?k) bytes c) i = event_bytes_at c i" if "i < P" "i \<noteq> q" for i
  proof -
    have "i * ?k + ?k \<le> q * ?k \<or> q * ?k + ?k \<le> i * ?k"
      using that(2) slots_of_length [of i q] slots_of_length [of q i] by linarith
    then show ?thesis
      using slots_of_length [OF that(1)] fit assms(3) len by (intro slice_splice_disjoint) auto
  qed
  show ?thesis
    using assms fit len same other by (auto simp: file_holds_def splice_def)
qed

text \<open>
  A publication replaces a prefix of its slot: the whole record when it succeeds, all or nothing when the
  write is atomic, and never a byte of another slot.
\<close>

definition file_next :: "nat \<Rightarrow> byte list \<Rightarrow> event_identity list \<Rightarrow> bool" where
  "file_next P c es \<longleftrightarrow> length c = P * WATCHDOG_EVENT_RECORD_BYTES
     \<and> (\<forall>i < P. i \<noteq> length es mod P \<longrightarrow> decode_event_slot (event_bytes_at c i) = Inr (slots_of P es i))"

text \<open>The file after a torn write: the next slot does not decode, every other one is as the history has it.\<close>

definition file_torn :: "nat \<Rightarrow> byte list \<Rightarrow> event_identity list \<Rightarrow> bool" where
  "file_torn P c es \<longleftrightarrow> file_next P c es \<and> (\<exists>err. decode_event_slot (event_bytes_at c (length es mod P)) = Inl err)"

lemma file_holds_next: "file_holds P c (disk P es pr) \<Longrightarrow> file_next P c es"
  by (cases pr) (auto simp: file_holds_def file_next_def)

lemma file_next_holds:
  assumes "file_next P c es" and "decode_event_slot (event_bytes_at c (length es mod P)) = Inr (d (length es mod P))"
    and "\<And>i. i \<noteq> length es mod P \<Longrightarrow> d i = slots_of P es i"
  shows "file_holds P c d"
proof -
  have "decode_event_slot (event_bytes_at c i) = Inr (d i)" if "i < P" for i
    using assms that by (cases "i = length es mod P") (simp_all add: file_next_def)
  then show ?thesis using assms(1) by (simp add: file_holds_def file_next_def)
qed

lemma file_next_cases:
  assumes "file_next P c es"
  shows "decode_event_slot (event_bytes_at c (length es mod P)) = Inr Empty \<Longrightarrow> file_holds P c (disk P es Erased)"
    and "decode_event_slot (event_bytes_at c (length es mod P)) = Inr (Preparing (Suc (length es)) e) \<Longrightarrow>
      file_holds P c (disk P es (Prepared e))"
    and "decode_event_slot (event_bytes_at c (length es mod P)) = Inr (Committed (Suc (length es)) e) \<Longrightarrow>
      file_holds P c (disk P (es @ [e]) Quiet)"
  by (rule file_next_holds [OF assms]; simp add: slots_of_snoc)+

lemma slice_splice_prefix:
  assumes "off + n \<le> length c" and "k \<le> n" and "length bytes = n"
  shows "slice off n (splice off (take k bytes) c) = take k bytes @ drop k (slice off n c)"
proof -
  have "slice off n (splice off (take k bytes) c) = take k bytes @ take (n - k) (drop (off + k) c)"
    using assms by (simp add: slice_def splice_def)
  then show ?thesis by (simp add: slice_def drop_take add.commute)
qed

lemma publish_slot:
  assumes "publish io (q * WATCHDOG_EVENT_RECORD_BYTES) bytes j = (r, j')" and "file_next P (j_content j) es"
    and "q = length es mod P" and "0 < P" and "length bytes = WATCHDOG_EVENT_RECORD_BYTES"
  shows "\<exists>c k. j' = j\<lparr>j_content := c\<rparr> \<and> file_next P c es \<and> k \<le> WATCHDOG_EVENT_RECORD_BYTES
      \<and> event_bytes_at c q = take k bytes @ drop k (event_bytes_at (j_content j) q)
      \<and> (r = Inr () \<longrightarrow> k = WATCHDOG_EVENT_RECORD_BYTES) \<and> (atomic_write io \<longrightarrow> k = 0 \<or> k = WATCHDOG_EVENT_RECORD_BYTES)"
    and "writable io \<Longrightarrow> sync_ok io \<Longrightarrow> r = Inr ()"
proof -
  let ?w = WATCHDOG_EVENT_RECORD_BYTES and ?c = "j_content j"
  have q: "q < P" using assms(3,4) by simp
  have len: "length ?c = P * ?w" using assms(2) by (simp add: file_next_def)
  have fit: "q * ?w + ?w \<le> length ?c" using slots_of_length [OF q] len by simp
  obtain r1 c1 where run: "ring_write_exact ''safety event journal write made no progress'' io ?c (q * ?w) bytes = (r1, c1)"
    by (metis surj_pair)
  have fit': "q * ?w + length bytes \<le> length ?c" using fit assms(5) by simp
  note spec = ring_write_exact_spec [OF run fit']
  have "\<exists>k \<le> ?w. c1 = splice (q * ?w) (take k bytes) ?c \<and> (r1 = Inr () \<longrightarrow> k = ?w) \<and> (atomic_write io \<longrightarrow> k = 0 \<or> k = ?w)"
  proof (cases "r1 = Inr () \<or> c1 = splice (q * ?w) bytes ?c")
    case True
    then show ?thesis using spec assms(5) by (intro exI [of _ ?w]) auto
  next
    case False
    obtain k where k: "k \<le> ?w" "c1 = splice (q * ?w) (take k bytes) ?c"
      using ring_write_exact_prefix [OF run fit'] assms(5) by auto
    have "c1 = splice (q * ?w) (take 0 bytes) ?c" if "atomic_write io"
      using atomic_write_exact [OF that assms(5), of "''safety event journal write made no progress''" ?c "q * ?w"] run False
      by (auto simp: splice_def)
    then show ?thesis using False k by (cases "atomic_write io") blast+
  qed
  then obtain k where k: "k \<le> ?w" "c1 = splice (q * ?w) (take k bytes) ?c" "r1 = Inr () \<longrightarrow> k = ?w"
      "atomic_write io \<longrightarrow> k = 0 \<or> k = ?w" by blast
  have bytes: "event_bytes_at c1 q = take k bytes @ drop k (event_bytes_at ?c q)"
    using fit k(1) assms(5) by (simp add: k(2) slice_splice_prefix)
  have "event_bytes_at c1 i = event_bytes_at ?c i" if "i < P" "i \<noteq> q" for i
  proof -
    have "i * ?w + ?w \<le> q * ?w \<or> q * ?w + ?w \<le> i * ?w"
      using that(2) slots_of_length [of i q] slots_of_length [of q i] by linarith
    then show ?thesis
      using spec slots_of_length [OF that(1)] assms(5) len by auto
  qed
  then have "file_next P c1 es" using assms(2,3) spec by (simp add: file_next_def)
  moreover have "j' = j\<lparr>j_content := c1\<rparr>" "r = Inr () \<longrightarrow> r1 = Inr ()"
    using assms(1) by (auto simp: publish_def run split: sum.splits)
  ultimately show "\<exists>c k. j' = j\<lparr>j_content := c\<rparr> \<and> file_next P c es \<and> k \<le> ?w
      \<and> event_bytes_at c q = take k bytes @ drop k (event_bytes_at ?c q)
      \<and> (r = Inr () \<longrightarrow> k = ?w) \<and> (atomic_write io \<longrightarrow> k = 0 \<or> k = ?w)"
    using k bytes by blast
  show "r = Inr ()" if "writable io" "sync_ok io"
    using assms(1) spec that by (simp add: publish_def run file_synchronize_def ensure_def)
qed


lemma torn_erase:
  assumes "length b = WATCHDOG_EVENT_RECORD_BYTES" and "0 < k" and "k \<le> WATCHDOG_EVENT_RECORD_BYTES"
  shows "decode_event_slot (replicate k 0 @ drop k b) = Inr Empty \<or> (\<exists>err. decode_event_slot (replicate k 0 @ drop k b) = Inl err)"
proof -
  have "take 4 (replicate k 0 @ drop k b) \<noteq> WATCHDOG_EVENT_MAGIC"
  proof
    assume "take 4 (replicate k 0 @ drop k b) = WATCHDOG_EVENT_MAGIC"
    then have "hd (take 4 (replicate k 0 @ drop k b)) = hd WATCHDOG_EVENT_MAGIC" by simp
    then show False using assms(2) by (cases k) (simp_all add: WATCHDOG_EVENT_MAGIC_def)
  qed
  then show ?thesis by (auto simp: decode_event_slot_def)
qed

lemma decode_checksum:
  assumes "decode_event_slot b = Inr x" and "x \<noteq> Empty" and "length b = WATCHDOG_EVENT_RECORD_BYTES"
  shows "b = take 60 b @ to_le 4 (watchdog_crc32 (take 60 b))" and "list_all is_hex (slice 28 32 b)"
proof -
  have crc: "get_u32 b 60 = watchdog_crc32 (take 60 b)"
    using assms(1,2) by (auto simp: decode_event_slot_def WATCHDOG_EVENT_CRC_OFFSET_def split: if_splits)
  have "slice 60 4 b = drop 60 b" using assms(3) by (simp add: slice_def WATCHDOG_EVENT_RECORD_BYTES_def)
  moreover have "length (drop 60 b) = 4" using assms(3) by (simp add: WATCHDOG_EVENT_RECORD_BYTES_def)
  ultimately have "drop 60 b = to_le 4 (watchdog_crc32 (take 60 b))"
    using crc to_from_le [of "drop 60 b", where 'a = 32] by (simp add: get_u32_def)
  then show "b = take 60 b @ to_le 4 (watchdog_crc32 (take 60 b))" by (metis append_take_drop_id)
  show "list_all is_hex (slice 28 32 b)"
    using assms(1,2) by (auto simp: decode_event_slot_def identity_from_record_def validate_identity_def result_simps Let_def split: if_splits)
qed

lemma update_fresh: "k \<notin> fst ` set t \<Longrightarrow> AList.update k v t = t @ [(k, v)]"
  by (induction t) auto

lemma indexes_delete:
  assumes "indexes es c recs" and "c = min (length es) P \<or> c = min (length es) (P - 1)" and "2 < P"
    and "previous = None \<or> previous = Some (Suc (length es) - P)"
    and "recs1 = (case find (\<lambda>k. (k - 1) mod P = length es mod P) (sort (map fst recs)) of
        None \<Rightarrow> recs | Some k \<Rightarrow> AList.delete k recs)"
    and "recs2 = (case previous of None \<Rightarrow> recs1 | Some k \<Rightarrow> AList.delete k recs1)"
  shows "indexes es (min (length es) (P - 1)) recs2"
proof -
  let ?n = "length es" and ?old = "Suc (length es) - P"
  note facts = indexes_facts [OF assms(1)]
  have absent: "?old \<notin> fst ` set recs" if "c = min ?n (P - 1)"
    using facts(1) that assms(3) by (auto simp: min_def split: if_splits)
  have shrink: "indexes es (min ?n (P - 1)) (AList.delete ?old recs)"
  proof (cases "c = min ?n (P - 1)")
    case True
    then show ?thesis using absent assms(1) by (simp add: delete_absent)
  next
    case False
    then have c: "c = P" "P \<le> ?n" using assms(2) by (auto simp: min_def split: if_splits)
    have "{Suc (?n - c)..?n} - {?old} = {Suc (?n - (P - 1))..?n}" using c assms(3) by auto
    moreover have "inj_on (\<lambda>k. (k, es ! (k - 1))) A" for A by (simp add: inj_on_def)
    moreover have "set (AList.delete ?old recs) = (\<lambda>k. (k, es ! (k - 1))) ` ({Suc (?n - c)..?n} - {?old})"
      using assms(1) by (auto simp: indexes_def AList.delete_eq)
    ultimately show ?thesis
      using assms(1) c by (simp add: indexes_def min_def AList.distinct_delete)
  qed
  have "recs1 = AList.delete ?old recs"
  proof (cases "c = min ?n (P - 1)")
    case True
    have "(k - 1) mod P \<noteq> ?n mod P" if "k \<in> fst ` set recs" for k
      using that facts(1) True next_slot_free [of ?n P k] by auto
    then have "find (\<lambda>k. (k - 1) mod P = ?n mod P) (sort (map fst recs)) = None"
      by (auto simp: find_None_iff)
    then show ?thesis using absent True assms(5) by (simp add: delete_absent)
  next
    case False
    then have c: "c = P" "P \<le> ?n" using assms(2) by (auto simp: min_def split: if_splits)
    then have "Suc (?n - c) = ?old" by simp
    moreover have "[?old..<Suc ?n] = ?old # [Suc ?old..<Suc ?n]"
      using c assms(3) by (intro upt_conv_Cons) simp
    moreover have "(?old - 1) mod P = ?n mod P" using c assms(3) by (simp add: le_mod_geq)
    ultimately show ?thesis using assms(5) facts(3) by (simp del: upt_Suc)
  qed
  then show ?thesis
    using assms(4,6) shrink by (cases previous) (auto simp: AList.delete_idem)
qed

lemma indexes_snoc:
  assumes "indexes es (min (length es) (P - 1)) recs" and "2 < P"
  shows "indexes (es @ [e]) (min (Suc (length es)) P) (AList.update (Suc (length es)) e recs)"
proof -
  let ?n = "length es" and ?c = "min (length es) (P - 1)"
  have keys: "set (map fst recs) = {Suc (?n - ?c)..?n}" by (rule indexes_facts(1) [OF assms(1)])
  have c: "min (Suc ?n) P = Suc ?c" using assms(2) by auto
  have fresh: "Suc ?n \<notin> fst ` set recs" using keys by auto
  have "set recs = (\<lambda>k. (k, (es @ [e]) ! (k - 1))) ` {Suc (?n - ?c)..?n}"
    using assms(1) by (auto simp: indexes_def nth_append intro!: image_cong)
  moreover have "{Suc (?n - ?c)..Suc ?n} = insert (Suc ?n) {Suc (?n - ?c)..?n}" by auto
  ultimately have "set (recs @ [(Suc ?n, e)]) = (\<lambda>k. (k, (es @ [e]) ! (k - 1))) ` {Suc (?n - ?c)..Suc ?n}"
    by (simp add: insert_commute)
  then show ?thesis
    using assms(1) fresh unfolding indexes_def c update_fresh [OF fresh] by simp
qed

section \<open>The journal as a list of events\<close>

text \<open>
  \<open>journal_holds P j es\<close>: the committed history of the journal is \<open>es\<close>. The file may show an append
  in any phase; the index in memory has to agree with the history unless a commit is in doubt.
\<close>

definition window :: "nat \<Rightarrow> event_identity list \<Rightarrow> event_identity list" where
  "window P es = drop (length es - (P - 1)) es"

definition index_holds :: "nat \<Rightarrow> event_journal \<Rightarrow> event_identity list \<Rightarrow> bool" where
  "index_holds P j es \<longleftrightarrow> j_next j = Suc (length es) \<and> j_identities j = set (window P es)
     \<and> (\<exists>c. (c = min (length es) P \<or> c = min (length es) (P - 1)) \<and> indexes es c (j_records j))"

definition journal_holds :: "nat \<Rightarrow> event_journal \<Rightarrow> event_identity list \<Rightarrow> bool" where
  "journal_holds P j es \<longleftrightarrow> 2 < P \<and> j_physical j = P \<and> j_logical j = P - 1 \<and> length es < u64_max \<and> distinct (window P es)
     \<and> (\<exists>pr. file_holds P (j_content j) (disk P es pr)) \<and> (\<not> j_uncertain j \<longrightarrow> index_holds P j es)"

lemma kept_cases: "kept P n pr = min n P \<or> kept P n pr = min n (P - 1)"
  by (simp add: kept_def split: progress.splits)

lemma reconstruct_holds:
  assumes "journal_holds P j es" and "readable io"
  shows "\<exists>j'. reconstruct io j = Inr j' \<and> journal_holds P (j'\<lparr>j_uncertain := u\<rparr>) es"
proof -
  have j: "2 < P" "j_physical j = P" "j_logical j = P - 1" "length es < u64_max" "distinct (window P es)"
    using assms(1) by (simp_all add: journal_holds_def)
  obtain pr where pr: "file_holds P (j_content j) (disk P es pr)" using assms(1) by (auto simp: journal_holds_def)
  obtain recs preparing where scan: "scan_event_records P io (j_content j) = Inr (recs, preparing)"
      "validate_record_set (P - 1) P recs preparing = Inr (Suc (length es))"
      "retained_identities recs (P - 1) = set (window P es)" "indexes es (kept P (length es) pr) recs"
    using recover [OF pr assms(2) j(1,4)] j(5) unfolding window_def by blast
  then show ?thesis
    using j pr kept_cases [of P "length es" pr]
    by (auto simp: reconstruct_def journal_holds_def index_holds_def result_simps)
qed

lemma distinct_window_snoc:
  assumes "distinct (window P es)" and "e \<notin> set (window P es)"
  shows "distinct (window P (es @ [e]))"
proof -
  have "window P (es @ [e]) = drop (Suc (length es) - (P - 1)) es @ (if P \<le> 1 then [] else [e])"
    by (auto simp: window_def)
  moreover have "Suc (length es) - (P - 1) = (Suc (length es) - (P - 1) - (length es - (P - 1))) + (length es - (P - 1))"
    by simp
  then have "drop (Suc (length es) - (P - 1)) es = drop (Suc (length es) - (P - 1) - (length es - (P - 1))) (window P es)"
    by (metis window_def drop_drop)
  ultimately show ?thesis
    using assms by (auto dest: in_set_dropD)
qed

lemma disk_update:
  "(disk P es pr)(length es mod P := Empty) = disk P es Erased"
  "(disk P es pr)(length es mod P := Preparing (Suc (length es)) e) = disk P es (Prepared e)"
  "(disk P es pr)(length es mod P := Committed (Suc (length es)) e) = disk P (es @ [e]) Quiet"
  by (cases pr; simp add: slots_of_snoc)+

lemma encode_event_decodes:
  assumes "identity_ok e" and "0 < ordinal" and "ordinal \<le> u64_max"
  shows "length (encode_event (of_nat ordinal) e marker) = WATCHDOG_EVENT_RECORD_BYTES"
    and "decode_event_slot (encode_event (of_nat ordinal) e WATCHDOG_EVENT_PREPARING_MARKER) = Inr (Preparing ordinal e)"
    and "decode_event_slot (encode_event (of_nat ordinal) e WATCHDOG_EVENT_COMMITTED_MARKER) = Inr (Committed ordinal e)"
proof -
  have gen: "length (id_generation e) = 32" using assms(1) by (simp add: identity_ok_def)
  show "length (encode_event (of_nat ordinal) e marker) = WATCHDOG_EVENT_RECORD_BYTES"
    using gen by (simp add: encode_event_bytes WATCHDOG_EVENT_RECORD_BYTES_def)
  show "decode_event_slot (encode_event (of_nat ordinal) e WATCHDOG_EVENT_PREPARING_MARKER) = Inr (Preparing ordinal e)"
    "decode_event_slot (encode_event (of_nat ordinal) e WATCHDOG_EVENT_COMMITTED_MARKER) = Inr (Committed ordinal e)"
    using decode_event_bytes [OF assms] gen
    by (simp_all add: encode_event_bytes WATCHDOG_EVENT_PREPARING_MARKER_def WATCHDOG_EVENT_COMMITTED_MARKER_def)
qed

lemma encode_event_body:
  assumes "identity_ok e"
  shows "take 60 (encode_event ordinal e marker) = put_bytes_of (event_fields ordinal e marker)"
    and "encode_event ordinal e marker = take 60 (encode_event ordinal e marker) @ to_le 4 (watchdog_crc32 (take 60 (encode_event ordinal e marker)))"
proof -
  have gen: "length (id_generation e) = 32" using assms by (simp add: identity_ok_def)
  show "take 60 (encode_event ordinal e marker) = put_bytes_of (event_fields ordinal e marker)"
    using event_fields_contiguous(2) [OF gen] by (simp add: encode_event_bytes [OF gen] event_bytes_def Let_def)
  then show "encode_event ordinal e marker =
      take 60 (encode_event ordinal e marker) @ to_le 4 (watchdog_crc32 (take 60 (encode_event ordinal e marker)))"
    using event_fields_contiguous(2) [OF gen] by (simp add: encode_event_bytes [OF gen] event_bytes_def Let_def)
qed

text \<open>A record that decodes and has the body of an encoded record is that record.\<close>

lemma torn_whole:
  assumes "identity_ok e" and "length b = WATCHDOG_EVENT_RECORD_BYTES" and "take 60 b = take 60 (encode_event ordinal e marker)"
    and "decode_event_slot b = Inr x" and "x \<noteq> Empty"
  shows "b = encode_event ordinal e marker"
  using decode_checksum(1) [OF assms(4,5,2)] encode_event_body(2) [OF assms(1), of ordinal marker] assms(3) by simp

lemma torn_prepare:
  assumes "identity_ok e" and "0 < ordinal" and "ordinal \<le> u64_max" and "k \<le> WATCHDOG_EVENT_RECORD_BYTES"
    and "b = take k (encode_event (of_nat ordinal) e WATCHDOG_EVENT_PREPARING_MARKER) @ drop k (replicate WATCHDOG_EVENT_RECORD_BYTES 0)"
  shows "decode_event_slot b = Inr Empty \<or> decode_event_slot b = Inr (Preparing ordinal e) \<or> (\<exists>err. decode_event_slot b = Inl err)"
proof (cases "\<exists>x. decode_event_slot b = Inr x \<and> x \<noteq> Empty")
  case True
  then obtain x where x: "decode_event_slot b = Inr x" "x \<noteq> Empty" by blast
  let ?r = "encode_event (of_nat ordinal) e WATCHDOG_EVENT_PREPARING_MARKER"
  note codec = encode_event_decodes [OF assms(1-3)]
  have len: "length b = WATCHDOG_EVENT_RECORD_BYTES" using assms(4,5) codec(1) by simp
  have "60 \<le> k"
  proof (rule ccontr)
    assume "\<not> 60 \<le> k"
    then have "b ! 59 = 0" using assms(5) codec(1) by (simp add: nth_append WATCHDOG_EVENT_RECORD_BYTES_def)
    moreover have "slice 28 32 b ! 31 = b ! 59" using len by (simp add: slice_def WATCHDOG_EVENT_RECORD_BYTES_def)
    moreover have "length (slice 28 32 b) = 32" using len by (simp add: slice_def WATCHDOG_EVENT_RECORD_BYTES_def)
    ultimately have "is_hex 0" using decode_checksum(2) [OF x len] by (metis list_all_length numeral_less_iff semiring_norm(76,78,81))
    then show False by (simp add: is_hex_def)
  qed
  then have "take 60 b = take 60 ?r" using assms(4,5) codec(1) by (simp add: min_def)
  then have "b = ?r" by (rule torn_whole [OF assms(1) len _ x])
  then show ?thesis using codec(2) by simp
next
  case False
  then show ?thesis by (cases "decode_event_slot b") auto
qed

lemma torn_commit:
  assumes "identity_ok e" and "0 < ordinal" and "ordinal \<le> u64_max" and "k \<le> WATCHDOG_EVENT_RECORD_BYTES"
    and "b = take k (encode_event (of_nat ordinal) e WATCHDOG_EVENT_COMMITTED_MARKER)
      @ drop k (encode_event (of_nat ordinal) e WATCHDOG_EVENT_PREPARING_MARKER)"
  shows "decode_event_slot b = Inr (Preparing ordinal e) \<or> decode_event_slot b = Inr (Committed ordinal e)
    \<or> decode_event_slot b = Inr Empty \<or> (\<exists>err. decode_event_slot b = Inl err)"
proof (cases "\<exists>x. decode_event_slot b = Inr x \<and> x \<noteq> Empty")
  case True
  then obtain x where x: "decode_event_slot b = Inr x" "x \<noteq> Empty" by blast
  let ?p = "encode_event (of_nat ordinal) e WATCHDOG_EVENT_PREPARING_MARKER"
  let ?c = "encode_event (of_nat ordinal) e WATCHDOG_EVENT_COMMITTED_MARKER"
  note codec = encode_event_decodes [OF assms(1-3)]
  have len: "length b = WATCHDOG_EVENT_RECORD_BYTES" using assms(4,5) codec(1) by simp
  have body: "\<exists>u v. \<forall>m. take 60 (encode_event (of_nat ordinal) e m) = u @ m # v \<and> length u = 10"
    unfolding encode_event_body(1) [OF assms(1)]
    by (intro exI [of _ "put_bytes_of (take 7 (event_puts (of_nat ordinal) e 0))"]
        exI [of _ "0 # put_bytes_of (drop 8 (event_puts (of_nat ordinal) e 0))"])
      (simp add: event_fields_def event_puts_def put_defs event_constants numeral_eq_Suc)
  then obtain u v where uv: "\<And>m. take 60 (encode_event (of_nat ordinal) e m) = u @ m # v" "length u = 10" by blast
  show ?thesis
  proof (cases "k \<le> 10")
    case True
    have "take k ?c = take k (take 60 ?c)" "take k ?p = take k (take 60 ?p)" using True by simp_all
    then have "take k ?c = take k ?p" using True uv by simp
    then have "b = ?p" using assms(5) by simp
    then show ?thesis using codec(2) by simp
  next
    case False
    have "drop k (take 60 ?p) = drop k (take 60 ?c)" using False uv by (simp add: drop_Cons')
    moreover have "length (take k ?c) = k" using assms(4) codec(1) by simp
    then have "take 60 b = take 60 (take k ?c) @ take (60 - k) (drop k ?p)" unfolding assms(5) by simp
    then have "take 60 b = take k (take 60 ?c) @ drop k (take 60 ?p)" by (simp only: drop_take take_take min.commute)
    ultimately have "take 60 b = take 60 ?c" by (metis append_take_drop_id)
    then have "b = ?c" by (rule torn_whole [OF assms(1) len _ x])
    then show ?thesis using codec(3) by simp
  qed
next
  case False
  then show ?thesis by (cases "decode_event_slot b") auto
qed

lemma decode_empty: "decode_event_slot (replicate WATCHDOG_EVENT_RECORD_BYTES 0) = Inr Empty"
  by (simp add: decode_event_slot_def list_all_iff)

text \<open>
  The native calls of a \<open>record\<close> may fail at any point; \<open>atomic\<close> says whether the writes of records are
  atomic, so that a failing one is not torn.
\<close>

definition phases_ok :: "bool \<Rightarrow> (phase \<Rightarrow> ring_io) \<Rightarrow> bool" where
  "phases_ok atomic ios \<longleftrightarrow> (\<forall>p. honest (ios p)) \<and> (atomic \<longrightarrow> (\<forall>p. atomic_write (ios p)))"

definition calls_succeed :: "(phase \<Rightarrow> ring_io) \<Rightarrow> bool" where
  "calls_succeed ios \<longleftrightarrow> list_all (\<lambda>p. writable (ios p) \<and> sync_ok (ios p)) [Erase, Prepare, Commit]
     \<and> readable (ios Rescan) \<and> readable (ios Lookup)"

text \<open>
  After a torn write the journal is as it was, over a file whose next slot does not decode;
  \<open>journal_keeps\<close> allows that where writes need not be atomic.
\<close>

definition journal_torn :: "nat \<Rightarrow> event_journal \<Rightarrow> event_identity list \<Rightarrow> bool" where
  "journal_torn P j es \<longleftrightarrow> (\<exists>c. journal_holds P (j\<lparr>j_content := c\<rparr>) es) \<and> file_torn P (j_content j) es"

definition journal_keeps :: "bool \<Rightarrow> nat \<Rightarrow> event_journal \<Rightarrow> event_identity list \<Rightarrow> bool" where
  "journal_keeps atomic P j es \<longleftrightarrow> journal_holds P j es \<or> \<not> atomic \<and> journal_torn P j es"

definition file_keeps :: "bool \<Rightarrow> nat \<Rightarrow> byte list \<Rightarrow> event_identity list \<Rightarrow> bool" where
  "file_keeps atomic P c es \<longleftrightarrow> (\<exists>pr. file_holds P c (disk P es pr)) \<or> \<not> atomic \<and> file_torn P c es"

lemma journal_keeps_content:
  assumes "journal_holds P j es" and "file_keeps atomic P c es"
  shows "journal_keeps atomic P (j\<lparr>j_content := c\<rparr>) es" and "journal_keeps atomic P (j\<lparr>j_content := c, j_uncertain := True\<rparr>) es"
proof -
  have same: "journal_holds P (j\<lparr>j_content := c\<rparr>) es" if "file_holds P c (disk P es pr)" for c pr
    using assms(1) that by (auto simp: journal_holds_def index_holds_def)
  have doubt: "journal_holds P (j\<lparr>j_content := c, j_uncertain := True\<rparr>) es" if "file_holds P c (disk P es pr)" for c pr
    using assms(1) that by (auto simp: journal_holds_def)
  obtain pr where pr: "file_holds P (j_content j) (disk P es pr)" using assms(1) by (auto simp: journal_holds_def)
  have torn: "journal_torn P (j\<lparr>j_content := c\<rparr>) es" "journal_torn P (j\<lparr>j_content := c, j_uncertain := True\<rparr>) es" if "file_torn P c es"
    using same [OF pr] doubt [OF pr] that unfolding journal_torn_def by (auto intro: exI [of _ "j_content j"])
  show "journal_keeps atomic P (j\<lparr>j_content := c\<rparr>) es"
    using assms(2) same torn(1) unfolding file_keeps_def journal_keeps_def by blast
  show "journal_keeps atomic P (j\<lparr>j_content := c, j_uncertain := True\<rparr>) es"
    using assms(2) doubt torn(2) unfolding file_keeps_def journal_keeps_def by blast
qed

lemma index_after_append:
  assumes "index_holds P j es" and "2 < P"
    and "previous = None \<or> previous = Some (Suc (length es) - P)"
    and "overwritten = find (\<lambda>k. (k - 1) mod P = length es mod P) (sort (map fst (j_records j)))"
    and "recs1 = (case overwritten of None \<Rightarrow> j_records j | Some o1 \<Rightarrow> AList.delete o1 (j_records j))"
    and "recs2 = (case previous of None \<Rightarrow> recs1 | Some o2 \<Rightarrow> AList.delete o2 recs1)"
  shows "indexes (es @ [e]) (min (Suc (length es)) P) (AList.update (Suc (length es)) e recs2)"
    and "retained_identities (AList.update (Suc (length es)) e recs2) (P - 1) = set (window P (es @ [e]))"
proof -
  obtain c where c: "c = min (length es) P \<or> c = min (length es) (P - 1)" "indexes es c (j_records j)"
    using assms(1) by (auto simp: index_holds_def)
  have "indexes es (min (length es) (P - 1)) recs2"
    by (rule indexes_delete [OF c(2,1) assms(2,3) assms(5) [unfolded assms(4)] assms(6)])
  then show ind: "indexes (es @ [e]) (min (Suc (length es)) P) (AList.update (Suc (length es)) e recs2)"
    by (rule indexes_snoc [OF _ assms(2)])
  show "retained_identities (AList.update (Suc (length es)) e recs2) (P - 1) = set (window P (es @ [e]))"
    unfolding window_def by (rule retained_window [OF ind]) simp
qed

lemma append_committed:
  assumes "journal_holds P j es" and "\<not> j_uncertain j" and "e \<notin> set (window P es)" and "Suc (length es) < u64_max"
    and "previous = None \<or> previous = Some (Suc (length es) - P)"
    and "overwritten = find (\<lambda>k. (k - 1) mod P = length es mod P) (sort (map fst (j_records j)))"
    and "j3 = j\<lparr>j_content := c, j_uncertain := True\<rparr>" and "file_holds P c (disk P (es @ [e]) Quiet)"
    and "recs = AList.update (Suc (length es)) e
        (case previous of None \<Rightarrow> (case overwritten of None \<Rightarrow> j_records j3 | Some o1 \<Rightarrow> AList.delete o1 (j_records j3))
         | Some o2 \<Rightarrow> AList.delete o2 (case overwritten of None \<Rightarrow> j_records j3 | Some o1 \<Rightarrow> AList.delete o1 (j_records j3)))"
    and "j' = j3\<lparr>j_records := recs, j_identities := retained_identities recs (P - 1), j_next := Suc (Suc (length es)),
        j_uncertain := False\<rparr>"
  shows "journal_holds P j' (es @ [e])"
proof -
  have j: "2 < P" "index_holds P j es" using assms(1,2) by (simp_all add: journal_holds_def)
  have records: "j_records j3 = j_records j" using assms(7) by simp
  have index: "indexes (es @ [e]) (min (Suc (length es)) P) recs" "retained_identities recs (P - 1) = set (window P (es @ [e]))"
    unfolding assms(9) records by (fact index_after_append [OF j(2,1) assms(5,6) refl refl])+
  have "distinct (window P (es @ [e]))"
    using distinct_window_snoc [OF _ assms(3)] assms(1) by (simp add: journal_holds_def)
  moreover have "\<exists>pr. file_holds P c (disk P (es @ [e]) pr)" using assms(8) by blast
  ultimately show ?thesis
    using assms(1,4,7,10) index by (auto simp: journal_holds_def index_holds_def simp del: disk.simps)
qed

lemma append_outcome:
  assumes "journal_holds P j es" and "\<not> j_uncertain j" and "e \<notin> set (window P es)" and "Suc (length es) < u64_max"
    and "previous = None \<or> previous = Some (Suc (length es) - P)"
    and "overwritten = find (\<lambda>k. (k - 1) mod P = length es mod P) (sort (map fst (j_records j)))"
    and "j3 = j\<lparr>j_content := c, j_uncertain := True\<rparr>"
    and "file_holds P c (disk P (es @ [e]) Quiet) \<or> r3 \<noteq> Inr () \<and> file_keeps atomic P c es"
    and "case r3 of Inl err \<Rightarrow> r = Inl err \<and> j' = j3
      | Inr _ \<Rightarrow> (\<exists>recs. recs = AList.update (Suc (length es)) e
          (case previous of None \<Rightarrow> (case overwritten of None \<Rightarrow> j_records j3 | Some o1 \<Rightarrow> AList.delete o1 (j_records j3))
           | Some o2 \<Rightarrow> AList.delete o2 (case overwritten of None \<Rightarrow> j_records j3 | Some o1 \<Rightarrow> AList.delete o1 (j_records j3)))
        \<and> r = Inr True \<and> j' = j3\<lparr>j_records := recs, j_identities := retained_identities recs (P - 1),
            j_next := Suc (Suc (length es)), j_uncertain := False\<rparr>)"
  shows "(journal_holds P j' (es @ [e]) \<or> r \<noteq> Inr True \<and> journal_keeps atomic P j' es) \<and> (r3 = Inr () \<longrightarrow> r = Inr True)"
proof (cases r3)
  case (Inr u)
  then have committed: "file_holds P c (disk P (es @ [e]) Quiet)" using assms(8) by simp
  obtain recs where recs: "recs = AList.update (Suc (length es)) e
          (case previous of None \<Rightarrow> (case overwritten of None \<Rightarrow> j_records j3 | Some o1 \<Rightarrow> AList.delete o1 (j_records j3))
           | Some o2 \<Rightarrow> AList.delete o2 (case overwritten of None \<Rightarrow> j_records j3 | Some o1 \<Rightarrow> AList.delete o1 (j_records j3)))"
      "j' = j3\<lparr>j_records := recs, j_identities := retained_identities recs (P - 1),
            j_next := Suc (Suc (length es)), j_uncertain := False\<rparr>"
    using assms(9) Inr by auto
  show ?thesis using append_committed [OF assms(1-7) committed recs] assms(9) Inr by auto
next
  case (Inl err)
  then have r: "r = Inl err" "j' = j3" using assms(9) by simp_all
  have "distinct (window P (es @ [e]))"
    using distinct_window_snoc [OF _ assms(3)] assms(1) by (simp add: journal_holds_def)
  then have "file_holds P c (disk P (es @ [e]) Quiet) \<Longrightarrow> journal_holds P j3 (es @ [e])"
    using assms(1,4,7) by (auto simp: journal_holds_def simp del: disk.simps)
  then show ?thesis using assms(7,8) r Inl journal_keeps_content(2) [OF assms(1)] by auto
qed

text \<open>The three publications of an append, each from the slot the one before it left.\<close>

lemma erase_step:
  assumes "publish io (q * WATCHDOG_EVENT_RECORD_BYTES) (replicate WATCHDOG_EVENT_RECORD_BYTES 0) j = (r, j')"
    and "file_holds P (j_content j) (disk P es pr)" and "q = length es mod P" and "0 < P" and "atomic \<longrightarrow> atomic_write io"
  shows "\<exists>c. j' = j\<lparr>j_content := c\<rparr> \<and> file_next P c es \<and> file_keeps atomic P c es
    \<and> (r = Inr () \<longrightarrow> event_bytes_at c q = replicate WATCHDOG_EVENT_RECORD_BYTES 0)"
proof -
  let ?w = WATCHDOG_EVENT_RECORD_BYTES and ?old = "event_bytes_at (j_content j) q"
  have q: "q < P" using assms(3,4) by simp
  have old: "length ?old = ?w" "decode_event_slot ?old = Inr (disk P es pr q)"
    using assms(2) q slots_of_length [OF q] by (simp_all add: file_holds_def)
  obtain c k where c: "j' = j\<lparr>j_content := c\<rparr>" "file_next P c es" "k \<le> ?w"
      "event_bytes_at c q = take k (replicate ?w 0) @ drop k ?old" "r = Inr () \<longrightarrow> k = ?w" "atomic_write io \<longrightarrow> k = 0 \<or> k = ?w"
    using publish_slot(1) [OF assms(1) file_holds_next [OF assms(2)] assms(3,4) length_replicate] by blast
  have bytes: "event_bytes_at c q = replicate k 0 @ drop k ?old" using c(3,4) by simp
  have "file_keeps atomic P c es"
  proof (cases "k = 0")
    case True
    then have "decode_event_slot (event_bytes_at c q) = Inr (disk P es pr q)" using bytes old(2) by simp
    then have "file_holds P c (disk P es pr)"
      unfolding assms(3) by (rule file_next_holds [OF c(2)]) (cases pr; simp)
    then show ?thesis by (auto simp: file_keeps_def)
  next
    case False
    have whole: "event_bytes_at c q = replicate ?w 0" if "k = ?w" using that bytes old(1) by simp
    have "decode_event_slot (event_bytes_at c q) = Inr Empty
        \<or> \<not> atomic \<and> (\<exists>err. decode_event_slot (event_bytes_at c q) = Inl err)"
      using torn_erase [OF old(1) _ c(3)] False whole decode_empty c(6) assms(5) unfolding bytes by fastforce
    then show ?thesis
      using file_next_cases(1) [OF c(2)] c(2) unfolding assms(3) file_keeps_def file_torn_def by blast
  qed
  moreover have "r = Inr () \<longrightarrow> event_bytes_at c q = replicate ?w 0" using c(5) bytes old(1) by simp
  ultimately show ?thesis using c(1,2) by blast
qed

lemma prepare_step:
  assumes "publish io (q * WATCHDOG_EVENT_RECORD_BYTES) (encode_event (of_nat (Suc (length es))) e WATCHDOG_EVENT_PREPARING_MARKER) j = (r, j')"
    and "file_next P (j_content j) es" and "q = length es mod P" and "0 < P" and "atomic \<longrightarrow> atomic_write io"
    and "event_bytes_at (j_content j) q = replicate WATCHDOG_EVENT_RECORD_BYTES 0"
    and "identity_ok e" and "Suc (length es) \<le> u64_max"
  shows "\<exists>c. j' = j\<lparr>j_content := c\<rparr> \<and> file_next P c es \<and> file_keeps atomic P c es
    \<and> (r = Inr () \<longrightarrow> event_bytes_at c q = encode_event (of_nat (Suc (length es))) e WATCHDOG_EVENT_PREPARING_MARKER)"
proof -
  let ?w = WATCHDOG_EVENT_RECORD_BYTES and ?r = "encode_event (of_nat (Suc (length es))) e WATCHDOG_EVENT_PREPARING_MARKER"
  note codec = encode_event_decodes [OF assms(7) zero_less_Suc assms(8)]
  obtain c k where c: "j' = j\<lparr>j_content := c\<rparr>" "file_next P c es" "k \<le> ?w"
      "event_bytes_at c q = take k ?r @ drop k (replicate ?w 0)" "r = Inr () \<longrightarrow> k = ?w" "atomic_write io \<longrightarrow> k = 0 \<or> k = ?w"
    using publish_slot(1) [OF assms(1-4) codec(1)] assms(6) by auto
  have "k = 0 \<Longrightarrow> event_bytes_at c q = replicate ?w 0" "k = ?w \<Longrightarrow> event_bytes_at c q = ?r"
    using c(4) codec(1) by simp_all
  then have "decode_event_slot (event_bytes_at c q) = Inr Empty \<or> decode_event_slot (event_bytes_at c q) = Inr (Preparing (Suc (length es)) e)
      \<or> \<not> atomic \<and> (\<exists>err. decode_event_slot (event_bytes_at c q) = Inl err)"
    using torn_prepare [OF assms(7) zero_less_Suc assms(8) c(3,4)] decode_empty codec(2) c(6) assms(5) by metis
  then have "file_keeps atomic P c es"
    using file_next_cases(1,2) [OF c(2)] c(2) unfolding assms(3) file_keeps_def file_torn_def by blast
  then show ?thesis using c codec(1) by auto
qed

lemma commit_step:
  assumes "publish io (q * WATCHDOG_EVENT_RECORD_BYTES) (encode_event (of_nat (Suc (length es))) e WATCHDOG_EVENT_COMMITTED_MARKER) j = (r, j')"
    and "file_next P (j_content j) es" and "q = length es mod P" and "0 < P" and "atomic \<longrightarrow> atomic_write io"
    and "event_bytes_at (j_content j) q = encode_event (of_nat (Suc (length es))) e WATCHDOG_EVENT_PREPARING_MARKER"
    and "identity_ok e" and "Suc (length es) \<le> u64_max"
  shows "\<exists>c. j' = j\<lparr>j_content := c\<rparr> \<and> (file_holds P c (disk P (es @ [e]) Quiet) \<or> r \<noteq> Inr () \<and> file_keeps atomic P c es)"
proof -
  let ?w = WATCHDOG_EVENT_RECORD_BYTES and ?n = "of_nat (Suc (length es)) :: u64"
  let ?p = "encode_event ?n e WATCHDOG_EVENT_PREPARING_MARKER" and ?c = "encode_event ?n e WATCHDOG_EVENT_COMMITTED_MARKER"
  note codec = encode_event_decodes [OF assms(7) zero_less_Suc assms(8)]
  obtain c k where c: "j' = j\<lparr>j_content := c\<rparr>" "file_next P c es" "k \<le> ?w"
      "event_bytes_at c q = take k ?c @ drop k ?p" "r = Inr () \<longrightarrow> k = ?w" "atomic_write io \<longrightarrow> k = 0 \<or> k = ?w"
    using publish_slot(1) [OF assms(1-4) codec(1)] assms(6) by auto
  have whole: "k = 0 \<Longrightarrow> event_bytes_at c q = ?p" "k = ?w \<Longrightarrow> event_bytes_at c q = ?c"
    using c(4) codec(1) by simp_all
  have "decode_event_slot (event_bytes_at c q) = Inr (Committed (Suc (length es)) e)
      \<or> r \<noteq> Inr () \<and> (decode_event_slot (event_bytes_at c q) = Inr Empty
          \<or> decode_event_slot (event_bytes_at c q) = Inr (Preparing (Suc (length es)) e)
          \<or> \<not> atomic \<and> (\<exists>err. decode_event_slot (event_bytes_at c q) = Inl err))"
    using torn_commit [OF assms(7) zero_less_Suc assms(8) c(3,4)] whole codec(2,3) c(5,6) assms(5) by metis
  then have "file_holds P c (disk P (es @ [e]) Quiet) \<or> r \<noteq> Inr () \<and> file_keeps atomic P c es"
    using file_next_cases [OF c(2)] c(2) unfolding assms(3) file_keeps_def file_torn_def by blast
  then show ?thesis using c(1) by blast
qed

lemma append_event_holds:
  assumes "journal_holds P j es" and "\<not> j_uncertain j" and "identity_ok e" and "e \<notin> set (window P es)"
    and "Suc (length es) < u64_max" and "phases_ok atomic ios"
    and "previous = None \<or> previous = Some (Suc (length es) - P)"
    and "overwritten = find (\<lambda>k. (k - 1) mod P = length es mod P) (sort (map fst (j_records j)))"
    and "append_event ios e overwritten previous j = (r, j')"
  shows "(journal_holds P j' (es @ [e]) \<or> r \<noteq> Inr True \<and> journal_keeps atomic P j' es) \<and> (calls_succeed ios \<longrightarrow> r = Inr True)"
proof -
  let ?n = "length es" and ?q = "length es mod P"
  let ?off = "?q * WATCHDOG_EVENT_RECORD_BYTES"
  have j: "2 < P" "j_physical j = P" "j_logical j = P - 1" "distinct (window P es)" "index_holds P j es"
    using assms(1,2) by (simp_all add: journal_holds_def)
  have nxt: "j_next j = Suc ?n" using j(5) by (simp add: index_holds_def)
  have P: "0 < P" using j(1) by simp
  have big: "Suc ?n \<le> u64_max" using assms(5) by simp
  obtain pr where pr: "file_holds P (j_content j) (disk P es pr)" using assms(1) by (auto simp: journal_holds_def)
  have ios: "atomic \<longrightarrow> atomic_write (ios p)" for p using assms(6) by (simp add: phases_ok_def)
  note codec = encode_event_decodes [OF assms(3) zero_less_Suc big]
  obtain r1 j1 where p1: "publish (ios Erase) ?off (replicate WATCHDOG_EVENT_RECORD_BYTES 0) j = (r1, j1)"
    by (metis surj_pair)
  obtain r2 j2 where p2: "publish (ios Prepare) ?off (encode_event (of_nat (Suc ?n)) e WATCHDOG_EVENT_PREPARING_MARKER) j1 = (r2, j2)"
    by (metis surj_pair)
  obtain r3 j3 where p3: "publish (ios Commit) ?off (encode_event (of_nat (Suc ?n)) e WATCHDOG_EVENT_COMMITTED_MARKER)
      (j2\<lparr>j_uncertain := True\<rparr>) = (r3, j3)"
    by (metis surj_pair)
  note run = assms(9) [unfolded append_event_def Let_def nxt j(2) diff_Suc_1 p1 prod.case]
  obtain c1 where c1: "j1 = j\<lparr>j_content := c1\<rparr>" "file_next P c1 es" "file_keeps atomic P c1 es"
      "r1 = Inr () \<longrightarrow> event_bytes_at c1 ?q = replicate WATCHDOG_EVENT_RECORD_BYTES 0"
    using erase_step [OF p1 pr refl P ios] by blast
  have ok: "calls_succeed ios \<Longrightarrow> r1 = Inr ()"
    using publish_slot(2) [OF p1 file_holds_next [OF pr] refl P length_replicate] by (simp add: calls_succeed_def)
  show ?thesis
  proof (cases r1)
    case (Inl err)
    then show ?thesis using run journal_keeps_content(1) [OF assms(1) c1(3)] c1(1) ok by auto
  next
    case ok1: (Inr u1)
    have f1: "file_next P (j_content j1) es" "event_bytes_at (j_content j1) ?q = replicate WATCHDOG_EVENT_RECORD_BYTES 0"
      using c1 ok1 by simp_all
    obtain c2 where c2': "j2 = j1\<lparr>j_content := c2\<rparr>" "file_next P c2 es" "file_keeps atomic P c2 es"
        "r2 = Inr () \<longrightarrow> event_bytes_at c2 ?q = encode_event (of_nat (Suc ?n)) e WATCHDOG_EVENT_PREPARING_MARKER"
      using prepare_step [OF p2 f1(1) refl P ios f1(2) assms(3) big] by blast
    then have c2: "j2 = j\<lparr>j_content := c2\<rparr>" using c1 by simp
    have ok: "calls_succeed ios \<Longrightarrow> r2 = Inr ()"
      using publish_slot(2) [OF p2 f1(1) refl P codec(1)] by (simp add: calls_succeed_def)
    show ?thesis
    proof (cases r2)
      case (Inl err)
      then show ?thesis
        using run journal_keeps_content(1) [OF assms(1) c2'(3)] c2 ok1 ok by (auto simp: p2 simp del: of_nat_Suc)
    next
      case ok2: (Inr u2)
      have f2: "file_next P (j_content (j2\<lparr>j_uncertain := True\<rparr>)) es"
          "event_bytes_at (j_content (j2\<lparr>j_uncertain := True\<rparr>)) ?q = encode_event (of_nat (Suc ?n)) e WATCHDOG_EVENT_PREPARING_MARKER"
        using c2' ok2 by simp_all
      obtain c3 where c3': "j3 = j2\<lparr>j_uncertain := True, j_content := c3\<rparr>"
          "file_holds P c3 (disk P (es @ [e]) Quiet) \<or> r3 \<noteq> Inr () \<and> file_keeps atomic P c3 es"
        using commit_step [OF p3 f2(1) refl P ios f2(2) assms(3) big] by blast
      then have c3: "j3 = j\<lparr>j_content := c3, j_uncertain := True\<rparr>" using c2 by simp
      have ok: "calls_succeed ios \<Longrightarrow> r3 = Inr ()"
        using publish_slot(2) [OF p3 f2(1) refl P codec(1)] by (simp add: calls_succeed_def)
      have "(journal_holds P j' (es @ [e]) \<or> r \<noteq> Inr True \<and> journal_keeps atomic P j' es) \<and> (r3 = Inr () \<longrightarrow> r = Inr True)"
        by (rule append_outcome [OF assms(1,2,4,5,7,8) c3 c3'(2)])
          (use run ok1 ok2 j(3) in \<open>auto simp: p2 p3 simp del: of_nat_Suc split: sum.splits\<close>)
      then show ?thesis using ok by blast
    qed
  qed
qed

lemma append_event_result:
  assumes "append_event ios e overwritten previous j = (r, j')"
  shows "r = Inr True \<or> (\<exists>err. r = Inl err)"
  using assms by (auto simp: append_event_def Let_def split: prod.splits sum.splits)

lemma next_slot_content:
  assumes "2 < P"
  shows "disk P es pr (length es mod P) = Empty \<or> (\<exists>e. disk P es pr (length es mod P) = Preparing (Suc (length es)) e)
    \<or> (\<exists>e. disk P es pr (length es mod P) = Committed (Suc (length es) - P) e \<and> P \<le> length es)"
proof (cases "disk P es pr (length es mod P)")
  case (Preparing k e)
  then show ?thesis using slots_of_not_Preparing [of P es] by (cases pr) auto
next
  case (Committed k e)
  let ?n = "length es"
  have "?n mod P < P" using assms by simp
  then have k: "?n - kept P ?n pr < k" "k \<le> ?n" "(k - 1) mod P = ?n mod P"
    using disk_Committed [of P "?n mod P" es pr k e] Committed assms by auto
  then have "?n - min ?n P < k" "\<not> ?n - min ?n (P - 1) < k"
    using kept_cases [of P ?n pr] next_slot_free [of ?n P k] by (auto simp: min_def split: if_splits)
  then have "k = Suc ?n - P \<and> P \<le> ?n" using k(2) by (auto simp: min_def split: if_splits)
  then show ?thesis using Committed by blast
qed simp

text \<open>
  Reads that do not fail show what a file without read failures shows, so every scan fails or gives the
  result it would have with all native calls succeeding.
\<close>

lemma scan_event_blocks_honest:
  assumes "honest io" and "\<forall>s \<in> set slots. s \<le> cap" and "length content = cap * WATCHDOG_EVENT_RECORD_BYTES"
  shows "(\<exists>err. scan_event_blocks cap io content slots acc = Inl err)
    \<or> scan_event_blocks cap io content slots acc = scan_event_blocks cap full_io content slots acc"
  using assms(2)
proof (induction slots arbitrary: acc)
  case (Cons s slots)
  let ?n = "min (cap - s) WATCHDOG_EVENT_SCAN_RECORDS" and ?w = WATCHDOG_EVENT_RECORD_BYTES
  have "(s + ?n) * ?w \<le> cap * ?w" using Cons.prems by (intro mult_le_mono1) auto
  then have range: "s * ?w + ?n * ?w \<le> length content" using assms(3) by (simp add: algebra_simps)
  have full: "ring_read_exact full_io content (s * ?w) (?n * ?w) = Inr (slice (s * ?w) (?n * ?w) content)"
    by (rule ring_read_exact_ok [OF full_io_ok(1) range])
  from ring_read_exact_honest [OF assms(1) range] show ?case
  proof
    assume "ring_read_exact io content (s * ?w) (?n * ?w) = Inr (slice (s * ?w) (?n * ?w) content)"
    with full Cons show ?thesis
      by (cases "scan_chunk cap s (chunks_exact ?w ?n (slice (s * ?w) (?n * ?w) content)) acc") (auto simp: Let_def)
  qed (auto simp: Let_def)
qed simp

lemma scan_event_records_honest:
  assumes "honest io" and "length content = cap * WATCHDOG_EVENT_RECORD_BYTES"
  shows "(\<exists>err. scan_event_records cap io content = Inl err) \<or> scan_event_records cap io content = scan_event_records cap full_io content"
  unfolding scan_event_records_def by (rule scan_event_blocks_honest [OF assms(1) _ assms(2)]) (auto dest: step_by_bounds)

lemma reconstruct_honest:
  assumes "honest io" and "length (j_content j) = j_physical j * WATCHDOG_EVENT_RECORD_BYTES"
  shows "(\<exists>err. reconstruct io j = Inl err) \<or> reconstruct io j = reconstruct full_io j"
  using scan_event_records_honest [OF assms] by (auto simp: reconstruct_def)

lemma read_event_slot_honest:
  assumes "honest io" and "slot < P" and "length (j_content j) = P * WATCHDOG_EVENT_RECORD_BYTES"
  shows "(\<exists>err. read_event_slot io j slot = Inl err) \<or> read_event_slot io j slot = decode_event_slot (event_bytes_at (j_content j) slot)"
  using ring_read_exact_honest [OF assms(1), of "slot * WATCHDOG_EVENT_RECORD_BYTES" WATCHDOG_EVENT_RECORD_BYTES "j_content j"]
    slots_of_length [OF assms(2)] assms(3)
  by (auto simp: read_event_slot_def)

text \<open>A slot that does not decode fails every scan.\<close>

lemma scan_chunk_decodes:
  "scan_chunk cap s recs acc = Inr x \<Longrightarrow> rec \<in> set recs \<Longrightarrow> \<exists>d. decode_event_slot rec = Inr d"
proof (induction recs arbitrary: s acc)
  case (Cons r recs)
  obtain found preparing where acc: "acc = (found, preparing)" by (cases acc)
  obtain d where d: "decode_event_slot r = Inr d" using Cons.prems(1) acc by (cases "decode_event_slot r") auto
  have "\<exists>s' acc'. scan_chunk cap s' recs acc' = Inr x"
    using Cons.prems(1) acc d by (cases d) (auto split: if_splits)
  then show ?case using Cons.IH Cons.prems(2) d by auto
qed simp

lemma scan_event_blocks_decodes:
  assumes "scan_event_blocks cap full_io content slots acc = Inr x" and "\<forall>s \<in> set slots. s \<le> cap"
    and "length content = cap * WATCHDOG_EVENT_RECORD_BYTES" and "s \<in> set slots" and "i < min (cap - s) WATCHDOG_EVENT_SCAN_RECORDS"
  shows "\<exists>d. decode_event_slot (event_bytes_at content (s + i)) = Inr d"
  using assms(1,2,4)
proof (induction slots arbitrary: acc)
  case (Cons t slots)
  let ?n = "min (cap - t) WATCHDOG_EVENT_SCAN_RECORDS" and ?w = WATCHDOG_EVENT_RECORD_BYTES
  have "(t + ?n) * ?w \<le> cap * ?w" using Cons.prems by (intro mult_le_mono1) auto
  then have range: "t * ?w + ?n * ?w \<le> length content" using assms(3) by (simp add: algebra_simps)
  obtain acc' where acc': "scan_chunk cap t (map (event_bytes_at content) [t..<t + ?n]) acc = Inr acc'"
      "scan_event_blocks cap full_io content slots acc' = Inr x"
    using Cons.prems(1) ring_read_exact_ok [OF full_io_ok(1) range] by (auto simp: Let_def chunks_exact_slice result_simps split: sum.splits)
  show ?case
  proof (cases "s = t")
    case True
    with assms(5) have "event_bytes_at content (s + i) \<in> set (map (event_bytes_at content) [t..<t + ?n])" by auto
    then show ?thesis by (rule scan_chunk_decodes [OF acc'(1)])
  next
    case False
    then show ?thesis using Cons.IH [OF acc'(2)] Cons.prems by simp
  qed
qed simp

lemma scan_event_records_torn:
  assumes "decode_event_slot (event_bytes_at content q) = Inl err" and "q < cap"
    and "length content = cap * WATCHDOG_EVENT_RECORD_BYTES" and "honest io"
  shows "\<exists>err. scan_event_records cap io content = Inl err"
proof -
  let ?k = WATCHDOG_EVENT_SCAN_RECORDS
  have pos: "0 < ?k" by (simp add: WATCHDOG_EVENT_SCAN_RECORDS_def)
  obtain s where s: "s \<in> set (step_by 0 cap ?k)" "s \<le> q" "q < s + ?k" using step_by_covers [OF pos _ assms(2), of 0] by blast
  have "scan_event_records cap full_io content \<noteq> Inr x" for x
  proof
    assume "scan_event_records cap full_io content = Inr x"
    then have "\<exists>d. decode_event_slot (event_bytes_at content (s + (q - s))) = Inr d"
      unfolding scan_event_records_def using s assms(2,3)
      by (intro scan_event_blocks_decodes) (auto dest: step_by_bounds)
    with s(2) assms(1) show False by simp
  qed
  then show ?thesis using scan_event_records_honest [OF assms(4,3)] by (metis sum.exhaust)
qed

lemma record_event_known:
  assumes "journal_holds P j es" and "\<not> j_uncertain j" and "phases_ok atomic ios"
  shows "\<exists>r j'. record_event (Suc fuel) ios ev j = Some (r, j') \<and>
    (case identity_from_event ev of
       Inl err \<Rightarrow> r = Inl err \<and> journal_holds P j' es
     | Inr e \<Rightarrow>
         if e \<in> set (window P es) then r = Inr False \<and> journal_holds P j' es
         else (r = Inr True \<or> (\<exists>err. r = Inl err)) \<and> (journal_holds P j' (es @ [e]) \<or> r \<noteq> Inr True \<and> journal_keeps atomic P j' es)
           \<and> (calls_succeed ios \<and> Suc (length es) < u64_max \<longrightarrow> r = Inr True))"
proof (cases "identity_from_event ev")
  case (Inl err)
  then show ?thesis using assms by simp
next
  case (Inr e)
  let ?n = "length es"
  have j: "2 < P" "j_physical j = P" "j_identities j = set (window P es)" "j_next j = Suc ?n"
    using assms(1,2) by (simp_all add: journal_holds_def index_holds_def)
  obtain pr where pr: "file_holds P (j_content j) (disk P es pr)" using assms(1) by (auto simp: journal_holds_def)
  have q: "?n mod P < P" using j(1) by simp
  have len: "length (j_content j) = P * WATCHDOG_EVENT_RECORD_BYTES"
    and dec: "decode_event_slot (event_bytes_at (j_content j) (?n mod P)) = Inr (disk P es pr (?n mod P))"
    using pr q by (simp_all add: file_holds_def)
  have look: "(\<exists>err. read_event_slot (ios Lookup) j (?n mod P) = Inl err)
      \<or> read_event_slot (ios Lookup) j (?n mod P) = Inr (disk P es pr (?n mod P))"
    using read_event_slot_honest [OF _ q len, of "ios Lookup"] assms(3) dec by (auto simp: phases_ok_def)
  have looked: "read_event_slot (ios Lookup) j (?n mod P) \<noteq> Inl err" if "calls_succeed ios" for err
    using ring_read_exact_ok [of "ios Lookup" "?n mod P * WATCHDOG_EVENT_RECORD_BYTES" WATCHDOG_EVENT_RECORD_BYTES "j_content j"]
      that slots_of_length [OF q] len dec by (simp add: calls_succeed_def read_event_slot_def)
  consider "e \<in> set (window P es)" | "e \<notin> set (window P es)" "u64_max \<le> Suc ?n"
    | err where "e \<notin> set (window P es)" "Suc ?n < u64_max" "read_event_slot (ios Lookup) j (?n mod P) = Inl err"
    | "e \<notin> set (window P es)" "Suc ?n < u64_max" "read_event_slot (ios Lookup) j (?n mod P) = Inr (disk P es pr (?n mod P))"
    using look by (metis not_le)
  then show ?thesis
  proof cases
    case 3
    then show ?thesis
      using assms(1,2) Inr looked [of err] by (auto simp: Let_def j(2-4) journal_keeps_def)
  next
    case 4
    define overwritten where "overwritten = find (\<lambda>k. (k - 1) mod P = ?n mod P) (sort (map fst (j_records j)))"
    define previous where "previous = (case disk P es pr (?n mod P) of Committed k _ \<Rightarrow> Some k | _ \<Rightarrow> None)"
    have prev: "previous = None \<or> previous = Some (Suc ?n - P)"
      using next_slot_content [OF j(1), of es pr] by (auto simp: previous_def)
    have step: "record_event (Suc fuel) ios ev j = Some (append_event ios e overwritten previous j)"
      using next_slot_content [OF j(1), of es pr] 4 Inr assms(2) j(1)
      by (auto simp: Let_def overwritten_def previous_def j(2-4))
    obtain r j' where run: "append_event ios e overwritten previous j = (r, j')" by (metis surj_pair)
    show ?thesis
      using append_event_holds [OF assms(1,2) identity_from_event_ok [OF Inr] 4(1,2) assms(3) prev overwritten_def run]
        append_event_result [OF run] step run 4(1) Inr
      by auto
  qed (use assms j Inr in \<open>auto simp: journal_keeps_def\<close>)
qed

text \<open>After a torn write nothing more is appended: every call fails or reports a known event.\<close>

lemma torn_facts:
  assumes "journal_torn P j es"
  shows "2 < P" "j_physical j = P" "length (j_content j) = P * WATCHDOG_EVENT_RECORD_BYTES" "length es mod P < P"
    "\<exists>err. decode_event_slot (event_bytes_at (j_content j) (length es mod P)) = Inl err"
    "\<not> j_uncertain j \<Longrightarrow> j_next j = Suc (length es) \<and> j_identities j = set (window P es)"
  using assms by (auto simp: journal_torn_def journal_holds_def index_holds_def file_torn_def file_next_def)

lemma record_event_torn:
  assumes "journal_torn P j es" and "phases_ok atomic ios"
  shows "\<exists>r. record_event (Suc fuel) ios ev j = Some (r, j) \<and> r \<noteq> Inr True"
proof -
  note t = torn_facts [OF assms(1)]
  have io: "honest (ios p)" for p using assms(2) by (simp add: phases_ok_def)
  obtain err0 where err0: "decode_event_slot (event_bytes_at (j_content j) (length es mod P)) = Inl err0" using t(5) by blast
  show ?thesis
  proof (cases "j_uncertain j")
    case True
    obtain err where "scan_event_records P (ios Rescan) (j_content j) = Inl err"
      using scan_event_records_torn [OF err0 t(4,3) io] by blast
    then show ?thesis using True t(2) by (simp add: reconstruct_def)
  next
    case False
    obtain err where "read_event_slot (ios Lookup) j (length es mod P) = Inl err"
      using read_event_slot_honest [OF io t(4,3)] err0 by metis
    then show ?thesis using False t(2) t(6) [OF False] by (auto simp: Let_def split: sum.splits)
  qed
qed

lemma record_event_keeps:
  assumes "journal_keeps atomic P j es" and "phases_ok atomic ios"
  shows "\<exists>r j'. record_event (Suc fuel) ios ev j = Some (r, j') \<and>
    (case identity_from_event ev of
       Inl err \<Rightarrow> r \<noteq> Inr True \<and> journal_keeps atomic P j' es
     | Inr e \<Rightarrow> journal_holds P j' (es @ [e]) \<or> r \<noteq> Inr True \<and> journal_keeps atomic P j' es)"
proof (cases "journal_holds P j es")
  case False
  then have torn: "journal_torn P j es" using assms(1) by (simp add: journal_keeps_def)
  then show ?thesis
    using record_event_torn [OF torn assms(2), of fuel ev] assms(1) by (auto split: sum.splits simp del: record_event.simps)
next
  case holds: True
  have known: ?thesis if "journal_holds P j1 es" "\<not> j_uncertain j1" "record_event (Suc fuel) ios ev j = record_event (Suc fuel) ios ev j1" for j1
    using record_event_known [OF that(1,2) assms(2), of fuel ev] that(3)
    by (cases "identity_from_event ev") (auto simp: journal_keeps_def split: if_splits simp del: record_event.simps)
  show ?thesis
  proof (cases "j_uncertain j")
    case False
    then show ?thesis using known [OF holds] by simp
  next
    case True
    have io: "honest (ios Rescan)" using assms(2) by (simp add: phases_ok_def)
    have len: "length (j_content j) = j_physical j * WATCHDOG_EVENT_RECORD_BYTES"
      using holds by (auto simp: journal_holds_def file_holds_def)
    obtain j1 where j1: "reconstruct full_io j = Inr j1" "journal_holds P (j1\<lparr>j_uncertain := False\<rparr>) es"
      using reconstruct_holds [OF holds full_io_ok(1), of False] by blast
    from reconstruct_honest [OF io len] show ?thesis
    proof
      assume "\<exists>err. reconstruct (ios Rescan) j = Inl err"
      then show ?thesis using True assms(1) by (auto split: sum.splits)
    next
      assume "reconstruct (ios Rescan) j = reconstruct full_io j"
      then have "record_event (Suc fuel) ios ev j = record_event (Suc fuel) ios ev (j1\<lparr>j_uncertain := False\<rparr>)"
        using True j1(1) by simp
      then show ?thesis by (intro known [OF j1(2)]) simp_all
    qed
  qed
qed

text \<open>With native calls that succeed a valid event is stored or known.\<close>

lemma record_event_succeeds:
  assumes "journal_holds P j es" and "phases_ok atomic ios" and "calls_succeed ios" and "identity_from_event ev = Inr e"
    and "Suc (length es) < u64_max"
  shows "\<exists>j'. record_event (Suc fuel) ios ev j = Some (Inr (e \<notin> set (window P es)), j')
    \<and> journal_holds P j' (if e \<in> set (window P es) then es else es @ [e])"
proof -
  have known: ?thesis if "journal_holds P j1 es" "\<not> j_uncertain j1" "record_event (Suc fuel) ios ev j = record_event (Suc fuel) ios ev j1" for j1
    using record_event_known [OF that(1,2) assms(2), of fuel ev] that(3) assms(3-5)
    by (auto split: if_splits simp del: record_event.simps)
  show ?thesis
  proof (cases "j_uncertain j")
    case False
    then show ?thesis using known [OF assms(1)] by simp
  next
    case True
    obtain j1 where j1: "reconstruct (ios Rescan) j = Inr j1" "journal_holds P (j1\<lparr>j_uncertain := False\<rparr>) es"
      using reconstruct_holds [OF assms(1), of "ios Rescan" False] assms(3) by (auto simp: calls_succeed_def)
    have "record_event (Suc fuel) ios ev j = record_event (Suc fuel) ios ev (j1\<lparr>j_uncertain := False\<rparr>)"
      using True j1(1) by simp
    then show ?thesis by (intro known [OF j1(2)]) simp_all
  qed
qed

section \<open>Opening\<close>

lemma event_capacity:
  assumes "event_file_bytes L = Inr b"
  shows "event_physical_capacity L = Inr (Suc L)" "b = Suc L * WATCHDOG_EVENT_RECORD_BYTES" "2 < Suc L"
  using assms
  by (auto simp: event_file_bytes_def event_physical_capacity_def checked_add64_def checked_mul64_def result_simps
      split: if_splits option.splits sum.splits)

lemma open_holds:
  assumes "event_file_bytes L = Inr b" and "length content \<le> b" and "length content < b \<longrightarrow> set_length_ok io"
    and "file_holds (Suc L) (content @ replicate (b - length content) 0) (disk (Suc L) es pr)"
    and "length_ok io" and "readable io" and "length es < u64_max" and "distinct (window (Suc L) es)"
  shows "\<exists>j. journal_with_file io L content = Inr j \<and> journal_holds (Suc L) j es \<and> \<not> j_uncertain j"
proof -
  let ?content = "content @ replicate (b - length content) 0"
  note cap = event_capacity [OF assms(1)]
  have grown: "(if length content < b then set_length io b content else Inr content) = Inr ?content"
    using assms(2,3) by (simp add: set_length_def)
  have len: "length ?content = b" using assms(2) by simp
  obtain recs preparing where scan: "scan_event_records (Suc L) io ?content = Inr (recs, preparing)"
      "validate_record_set L (Suc L) recs preparing = Inr (Suc (length es))"
      "retained_identities recs L = set (window (Suc L) es)" "indexes es (kept (Suc L) (length es) pr) recs"
    using recover [OF assms(4,6) cap(3) assms(7)] assms(8) unfolding window_def by auto
  then have "journal_with_file io L content = Inr \<lparr>j_logical = L, j_physical = Suc L, j_content = ?content,
      j_next = Suc (length es), j_records = recs, j_identities = set (window (Suc L) es), j_uncertain = False\<rparr>"
    using assms(2,5) len
    by (simp add: journal_with_file_def cap(1) assms(1) grown file_length_def ensure_def split del: if_split)
  then show ?thesis
    using cap(3) assms(4,7,8) scan(4) kept_cases [of "Suc L" "length es" pr]
    by (auto simp: journal_holds_def index_holds_def simp del: disk.simps)
qed

lemma open_bounds: "journal_with_file io L content = Inr j \<Longrightarrow>
  \<exists>b. event_file_bytes L = Inr b \<and> length content \<le> b \<and> (length content < b \<longrightarrow> set_length_ok io) \<and> length_ok io"
  by (auto simp: journal_with_file_def file_length_def set_length_def result_simps split: if_splits sum.splits)


lemma fresh_file: "file_holds P (replicate (P * WATCHDOG_EVENT_RECORD_BYTES) 0) (disk P [] Quiet)"
proof -
  have "event_bytes_at (replicate (P * WATCHDOG_EVENT_RECORD_BYTES) 0) i = replicate WATCHDOG_EVENT_RECORD_BYTES 0" if "i < P" for i
    using slots_of_length [OF that] by (simp add: slice_def)
  then show ?thesis by (simp add: file_holds_def slots_of_Nil decode_empty)
qed

lemma journal_with_file_honest:
  assumes "honest io"
  shows "(\<exists>err. journal_with_file io L content = Inl err) \<or> journal_with_file io L content = journal_with_file full_io L content"
proof (cases "\<exists>j. journal_with_file io L content = Inr j")
  case True
  then obtain j where j: "journal_with_file io L content = Inr j" by blast
  obtain b where b: "event_file_bytes L = Inr b" "length content \<le> b" "length content < b \<longrightarrow> set_length_ok io" "length_ok io"
    using open_bounds [OF j] by blast
  note cap = event_capacity [OF b(1)]
  let ?content = "content @ replicate (b - length content) 0"
  have len: "length ?content = Suc L * WATCHDOG_EVENT_RECORD_BYTES" using b(2) cap(2) by simp
  have opened: "journal_with_file io' L content =
      bind_result (scan_event_records (Suc L) io' ?content) (\<lambda>(recs, preparing).
      bind_result (validate_record_set L (Suc L) recs preparing) (\<lambda>next_ordinal.
      Inr \<lparr>j_logical = L, j_physical = Suc L, j_content = ?content, j_next = next_ordinal,
        j_records = recs, j_identities = retained_identities recs L, j_uncertain = False\<rparr>))"
    if "length_ok io'" "length content < b \<longrightarrow> set_length_ok io'" for io'
    using that b(2) by (simp add: journal_with_file_def cap(1) b(1) file_length_def set_length_def ensure_def)
  have "length_ok full_io" "length content < b \<longrightarrow> set_length_ok full_io" by (simp_all add: full_io_def)
  note full = opened [OF this]
  from scan_event_records_honest [OF assms len] show ?thesis
    unfolding opened [OF b(4,3)] full by auto
next
  case False
  then show ?thesis by (cases "journal_with_file io L content") auto
qed

section \<open>Runs\<close>

text \<open>
  What can happen to a journal of logical capacity \<open>L\<close>: it is created on an empty file, events are
  recorded while any native call fails at any point, and at any moment the process stops and the
  journal is opened again on the bytes that are there. \<open>atomic\<close> says whether record writes move all 64
  bytes or none; without it a failing write may be torn anywhere. The lists are the events that were
  submitted and those of them that were acknowledged as newly stored.
\<close>

inductive journal_run :: "bool \<Rightarrow> nat \<Rightarrow> event_identity list \<Rightarrow> event_identity list \<Rightarrow> event_journal \<Rightarrow> bool" for atomic L where
  created: "honest io \<Longrightarrow> journal_with_file io L [] = Inr j \<Longrightarrow> journal_run atomic L [] [] j"
| recorded: "journal_run atomic L submitted acknowledged j \<Longrightarrow> phases_ok atomic ios \<Longrightarrow> identity_from_event ev = Inr e \<Longrightarrow>
    record_event fuel ios ev j = Some (r, j') \<Longrightarrow>
    journal_run atomic L (submitted @ [e]) (if r = Inr True then acknowledged @ [e] else acknowledged) j'"
| refused: "journal_run atomic L submitted acknowledged j \<Longrightarrow> phases_ok atomic ios \<Longrightarrow> identity_from_event ev = Inl err \<Longrightarrow>
    record_event fuel ios ev j = Some (r, j') \<Longrightarrow> journal_run atomic L submitted acknowledged j'"
| reopened: "journal_run atomic L submitted acknowledged j \<Longrightarrow> honest io \<Longrightarrow>
    journal_with_file io L (j_content j) = Inr j' \<Longrightarrow> journal_run atomic L submitted acknowledged j'"





lemma open_kept:
  assumes "journal_keeps atomic (Suc L) j es" and "honest io" and "journal_with_file io L (j_content j) = Inr j'"
  shows "journal_holds (Suc L) j es \<and> journal_holds (Suc L) j' es \<and> \<not> j_uncertain j'"
proof -
  obtain b where b: "event_file_bytes L = Inr b" using open_bounds [OF assms(3)] by blast
  have full: "journal_with_file full_io L (j_content j) = Inr j'" using journal_with_file_honest [OF assms(2)] assms(3) by (metis sum.distinct(1))
  have len: "length (j_content j) = b"
    using assms(1) event_capacity [OF b] torn_facts(3) by (auto simp: journal_keeps_def journal_holds_def file_holds_def)
  show ?thesis
  proof (cases "journal_holds (Suc L) j es")
    case True
    then obtain pr where pr: "file_holds (Suc L) (j_content j) (disk (Suc L) es pr)" by (auto simp: journal_holds_def)
    have "\<exists>j'. journal_with_file full_io L (j_content j) = Inr j' \<and> journal_holds (Suc L) j' es \<and> \<not> j_uncertain j'"
      by (rule open_holds [OF b, where pr = pr]) (use len pr True full_io_ok in \<open>auto simp: journal_holds_def full_io_def\<close>)
    then show ?thesis using full True by auto
  next
    case False
    then have torn: "journal_torn (Suc L) j es" using assms(1) by (simp add: journal_keeps_def)
    note t = torn_facts [OF this]
    obtain err0 where err0: "decode_event_slot (event_bytes_at (j_content j) (length es mod Suc L)) = Inl err0" using t(5) by blast
    obtain err where "scan_event_records (Suc L) full_io (j_content j) = Inl err"
      using scan_event_records_torn [OF err0 t(4,3) readable_honest [OF full_io_ok(1)]] by blast
    then have False using full len event_capacity [OF b] b by (simp add: journal_with_file_def file_length_def full_io_def)
    then show ?thesis ..
  qed
qed

lemma journal_run_keeps:
  "journal_run atomic L submitted acknowledged j \<Longrightarrow>
   \<exists>es. journal_keeps atomic (Suc L) j es \<and> subseq acknowledged es \<and> subseq es submitted"
proof (induction rule: journal_run.induct)
  case (created io j)
  have full: "journal_with_file full_io L [] = Inr j" using journal_with_file_honest [OF created(1)] created(2) by (metis sum.distinct(1))
  obtain b where b: "event_file_bytes L = Inr b" using open_bounds [OF created(2)] by blast
  have "\<exists>j. journal_with_file full_io L [] = Inr j \<and> journal_holds (Suc L) j [] \<and> \<not> j_uncertain j"
    by (rule open_holds [OF b, where pr = Quiet])
      (use fresh_file [of "Suc L"] event_capacity(2) [OF b] full_io_ok in \<open>simp_all add: window_def u64_max_def full_io_def\<close>)
  then show ?case using full by (auto simp: journal_keeps_def)
next
  case (recorded submitted acknowledged j ios ev e fuel r j')
  then obtain es where es: "journal_keeps atomic (Suc L) j es" "subseq acknowledged es" "subseq es submitted" by blast
  obtain f where f: "fuel = Suc f" using recorded by (cases fuel) auto
  have "journal_holds (Suc L) j' (es @ [e]) \<or> r \<noteq> Inr True \<and> journal_keeps atomic (Suc L) j' es"
    using record_event_keeps [OF es(1) recorded.hyps(2), of f ev] recorded.hyps(4) unfolding f recorded.hyps(3)
    by (simp del: record_event.simps)
  then show ?case
  proof
    assume "journal_holds (Suc L) j' (es @ [e])"
    then show ?thesis using es(2,3) by (intro exI [of _ "es @ [e]"]) (auto simp: journal_keeps_def intro: list_emb_prefix)
  next
    assume "r \<noteq> Inr True \<and> journal_keeps atomic (Suc L) j' es"
    then show ?thesis using es(2,3) by (intro exI [of _ es]) (auto intro: list_emb_prefix)
  qed
next
  case (refused submitted acknowledged j ios ev err fuel r j')
  then obtain es where es: "journal_keeps atomic (Suc L) j es" "subseq acknowledged es" "subseq es submitted" by blast
  obtain f where f: "fuel = Suc f" using refused by (cases fuel) auto
  show ?case
    using record_event_keeps [OF es(1) refused.hyps(2), of f ev] refused.hyps(3,4) f es by (auto simp del: record_event.simps)
next
  case (reopened submitted acknowledged j io j')
  then obtain es where es: "journal_keeps atomic (Suc L) j es" "subseq acknowledged es" "subseq es submitted" by blast
  then show ?case using open_kept [OF es(1) reopened.hyps(2,3)] by (auto simp: journal_keeps_def)
qed


lemma window_snoc_mem: "2 < P \<Longrightarrow> e \<in> set (window P (es @ [e]))"
  by (auto simp: window_def)

text \<open>A small journal and one event for it.\<close>

definition small_event :: safety_event where
  "small_event = \<lparr>ev_kind = ''protection.trip'', ev_reason = ''cgroup_oom_kill'', ev_severity = 3,
     ev_generation = replicate 32 97, ev_sequence = 7, ev_action = Some Kill, ev_containment = Some True\<rparr>"

definition small_identity :: event_identity where
  "small_identity = \<lparr>id_kind = ProtectionTrip, id_reason = CgroupOomKill, id_severity = 3,
     id_generation = replicate 32 97, id_sequence = 7, id_action = Some Kill, id_containment = Some True\<rparr>"

lemma small_event_identity: "identity_from_event small_event = Inr small_identity"
  by (simp add: identity_from_event_def small_event_def small_identity_def kind_of_string_def reason_of_string_def
      validate_identity_def closed_combination_def is_hex_def list_all_iff Let_def)

lemma full_phases: "phases_ok atomic (\<lambda>_. full_io)" "calls_succeed (\<lambda>_. full_io)"
  using full_io_ok readable_honest [OF full_io_ok(1)]
  by (simp_all add: phases_ok_def calls_succeed_def atomic_write_def full_io_def)

lemma small_created: "\<exists>j. journal_run atomic 2 [] [] j"
proof -
  have b: "event_file_bytes 2 = Inr 192"
    by (simp add: event_file_bytes_def event_physical_capacity_def checked_add64_def checked_mul64_def
        WATCHDOG_EVENT_RECORD_BYTES_def u64_max_def)
  have "\<exists>j. journal_with_file full_io 2 [] = Inr j \<and> journal_holds (Suc 2) j [] \<and> \<not> j_uncertain j"
    by (rule open_holds [OF b, where pr = Quiet])
      (use fresh_file [of 3] full_io_ok in \<open>simp_all add: window_def u64_max_def full_io_def WATCHDOG_EVENT_RECORD_BYTES_def\<close>)
  then show ?thesis using journal_run.created [OF readable_honest [OF full_io_ok(1)]] by blast
qed

lemma small_run: "\<exists>j. journal_run True 2 [small_identity] [small_identity] j"
proof -
  obtain j where j: "journal_run True 2 [] [] j" using small_created by blast
  then have "journal_holds 3 j []" using journal_run_keeps [OF j] by (auto simp: journal_keeps_def dest: list_emb_Nil2)
  then obtain j' where "record_event (Suc 0) (\<lambda>_. full_io) small_event j = Some (Inr True, j')"
    using record_event_succeeds [OF _ full_phases small_event_identity, of 3 j "[]" 0]
    by (auto simp: window_def u64_max_def simp del: record_event.simps)
  then show ?thesis using journal_run.recorded [OF j full_phases(1) small_event_identity] by fastforce
qed

section \<open>Properties\<close>

text \<open>
  C3: An event is stored at most once and never lost. Whatever native reads, writes and
  synchronizations fail or tear a record, and wherever the process stops and opens the journal again,
  there is a history that holds every acknowledged event in the order of submission, nothing that was
  not submitted and no event twice within the replay window, and the file has every record of it in its
  slot; only the next slot may be undecodable, and only where a record write was torn. The index in
  memory agrees with that history unless a commit is in doubt. Assumed of the native calls: a read does
  not report the end of the file inside the file.
\<close>

theorem journal_exactly_once:
  assumes "journal_run atomic L submitted acknowledged j"
  shows "\<exists>es. (journal_holds (Suc L) j es \<or> \<not> atomic \<and> journal_torn (Suc L) j es)
    \<and> distinct (window (Suc L) es) \<and> subseq acknowledged es \<and> subseq es submitted"
  using journal_run_keeps [OF assms] by (auto simp: journal_keeps_def journal_holds_def journal_torn_def)

theorem journal_exactly_once_witness:
  "\<exists>j. journal_run True 2 [small_identity] [small_identity] j \<and> journal_holds 3 j [small_identity]"
proof -
  obtain j where j: "journal_run True 2 [small_identity] [small_identity] j" using small_run by blast
  then obtain es where "journal_holds 3 j es" "subseq [small_identity] es" "subseq es [small_identity]"
    using journal_exactly_once [OF j] by auto
  then show ?thesis using j subseq_order.antisym by blast
qed



text \<open>
  Recording terminates and makes progress. In every state a run with atomic record writes reaches, a
  valid event whose native calls succeed is accepted by the first pass of \<open>record\<close> (the recursive call is
  not needed), also right after a failed commit, and is in the replay window afterwards.
\<close>

theorem record_event_progress:
  assumes "journal_run True L submitted acknowledged j" and "phases_ok True ios" and "calls_succeed ios"
    and "identity_from_event ev = Inr e" and "Suc (length submitted) < u64_max"
  shows "\<exists>fresh j' es. record_event (Suc fuel) ios ev j = Some (Inr fresh, j')
    \<and> journal_holds (Suc L) j' es \<and> e \<in> set (window (Suc L) es)"
proof -
  obtain es where es: "journal_holds (Suc L) j es" "subseq es submitted"
    using journal_run_keeps [OF assms(1)] by (auto simp: journal_keeps_def)
  have "Suc (length es) < u64_max" "2 < Suc L"
    using list_emb_length [OF es(2)] assms(5) es(1) by (simp_all add: journal_holds_def)
  then show ?thesis
    using record_event_succeeds [OF es(1) assms(2-4), of fuel] window_snoc_mem [of "Suc L" e es]
    by (auto split: if_splits simp del: record_event.simps)
qed

theorem record_event_progress_witness:
  "\<exists>j fresh j'. journal_run True 2 [small_identity] [small_identity] j
     \<and> record_event 1 (\<lambda>_. full_io) small_event j = Some (Inr fresh, j')"
proof -
  obtain j where j: "journal_run True 2 [small_identity] [small_identity] j" using small_run by blast
  show ?thesis
    using record_event_progress [OF j full_phases small_event_identity, of 0] j
    by (auto simp: u64_max_def simp del: record_event.simps)
qed

end
