(* ===== verification/WatchdogStorage.thy ===== *)
theory WatchdogStorage
  imports WatchdogRing WatchdogRollup WatchdogJournal
begin

text \<open>
  The storage of the watchdog, \<open>core/watchdog/src/li_watchdog_storage.rs\<close>: a raw ring, two rollup
  rings and the event journal behind one lock. A sample is recorded by pushing it into copies of the
  two rollups, writing the rollup samples that this completes, and writing the raw sample last; only
  then does the state in memory advance. Shown here: what each outcome of recording leaves behind,
  that the rollup rings hold the exact summaries of the recorded samples, and that opening the files
  again restores the state that was in memory.
\<close>

section \<open>State\<close>

definition WATCHDOG_RAW_INTERVAL_MILLISECONDS :: nat where "WATCHDOG_RAW_INTERVAL_MILLISECONDS = 1000"
definition WATCHDOG_MINUTE_INTERVAL_MILLISECONDS :: nat where "WATCHDOG_MINUTE_INTERVAL_MILLISECONDS = 60000"
definition WATCHDOG_QUARTER_INTERVAL_MILLISECONDS :: nat where "WATCHDOG_QUARTER_INTERVAL_MILLISECONDS = 900000"
definition WATCHDOG_RAW_CAPACITY :: nat where "WATCHDOG_RAW_CAPACITY = 86400"
definition WATCHDOG_MINUTE_CAPACITY :: nat where "WATCHDOG_MINUTE_CAPACITY = 43200"
definition WATCHDOG_QUARTER_CAPACITY :: nat where "WATCHDOG_QUARTER_CAPACITY = 35040"

record storage_layout =
  sl_raw :: ring_layout
  sl_minute :: ring_layout
  sl_quarter :: ring_layout

definition storage_layout_new :: "nat \<Rightarrow> nat \<Rightarrow> nat \<Rightarrow> watchdog_error + storage_layout" where
  "storage_layout_new raw_capacity minute_capacity quarter_capacity =
     bind_result (ring_layout_new WATCHDOG_RAW_INTERVAL_MILLISECONDS raw_capacity) (\<lambda>raw.
     bind_result (ring_layout_new WATCHDOG_MINUTE_INTERVAL_MILLISECONDS minute_capacity) (\<lambda>minute.
     bind_result (ring_layout_new WATCHDOG_QUARTER_INTERVAL_MILLISECONDS quarter_capacity) (\<lambda>quarter.
     Inr \<lparr>sl_raw = raw, sl_minute = minute, sl_quarter = quarter\<rparr>)))"

definition production :: "watchdog_error + storage_layout" where
  "production = storage_layout_new WATCHDOG_RAW_CAPACITY WATCHDOG_MINUTE_CAPACITY WATCHDOG_QUARTER_CAPACITY"

datatype resolution = Raw | Minute | QuarterHour

text \<open>The open files are their contents; the lock makes every operation one step.\<close>

record storage =
  st_layout :: storage_layout
  st_raw :: "byte list"
  st_minute :: "byte list"
  st_quarter :: "byte list"
  st_events :: event_journal
  st_minute_rollup :: rollup
  st_quarter_rollup :: rollup
  st_latest :: "watchdog_sample option"
  st_next :: nat
  st_raw_dirty :: bool
  st_minute_dirty :: bool
  st_quarter_dirty :: bool
  st_events_dirty :: bool

fun layout_of :: "resolution \<Rightarrow> storage \<Rightarrow> ring_layout" where
  "layout_of Raw st = sl_raw (st_layout st)"
| "layout_of Minute st = sl_minute (st_layout st)"
| "layout_of QuarterHour st = sl_quarter (st_layout st)"

fun content_of :: "resolution \<Rightarrow> storage \<Rightarrow> byte list" where
  "content_of Raw st = st_raw st"
| "content_of Minute st = st_minute st"
| "content_of QuarterHour st = st_quarter st"

section \<open>Opening\<close>

definition next_after :: "watchdog_sample option \<Rightarrow> watchdog_error + nat" where
  "next_after latest_sample =
     (case latest_sample of
        None \<Rightarrow> Inr 1
      | Some sample \<Rightarrow>
          of_option (InvalidContract ''Watchdog retained sequence cannot advance'')
            (case checked_add64 (unat (sequence sample)) 1 of
               None \<Rightarrow> None | Some sq \<Rightarrow> if sq \<noteq> 0 then Some sq else None))"

fun rebuild_push :: "watchdog_sample list \<Rightarrow> rollup \<Rightarrow> watchdog_error + rollup" where
  "rebuild_push [] r = Inr r"
| "rebuild_push (s # ss) r =
     (case push s r of
        (Some _, _) \<Rightarrow> Inl (InvalidContract ''Watchdog retained raw bucket is internally inconsistent'')
      | (None, r') \<Rightarrow> rebuild_push ss r')"

definition rebuild_rollup ::
  "ring_io \<Rightarrow> ring_layout \<Rightarrow> byte list \<Rightarrow> nat \<Rightarrow> watchdog_sample option \<Rightarrow> watchdog_error + rollup" where
  "rebuild_rollup io l content interval latest_sample =
     bind_result (rollup_new interval) (\<lambda>r.
     case latest_sample of
       None \<Rightarrow> Inr r
     | Some s \<Rightarrow>
         let unix = unat (unix_milliseconds s);
             latest_bucket = unix div interval_milliseconds l;
             rollup_start = (unix div interval) * interval;
             rollup_first = rollup_start div interval_milliseconds l;
             retained_first = latest_bucket - (capacity l - 1);
             first = max rollup_first retained_first;
             start = first * interval_milliseconds l
         in bind_result (query io l content start unix (capacity l)) (\<lambda>h.
            rebuild_push (samples h) r))"

text \<open>
  What opening meets outside: the private directory, the four files, which open with their present
  bytes, and the synchronization of the directory.
\<close>

record storage_files =
  sf_directory :: "watchdog_error + unit"
  sf_ring :: "resolution \<Rightarrow> watchdog_error + byte list"
  sf_events :: "watchdog_error + byte list"
  sf_directory_sync :: bool

definition open_with_layout ::
  "(resolution \<Rightarrow> ring_io) \<Rightarrow> ring_io \<Rightarrow> storage_files \<Rightarrow> string \<Rightarrow> storage_layout \<Rightarrow> watchdog_error + storage" where
  "open_with_layout ios events_io files root layout =
     bind_result (ensure (\<not> (root = [] \<or> length root > 4095))
       (InvalidContract ''Watchdog storage root is empty or too long'')) (\<lambda>_.
     bind_result (sf_directory files) (\<lambda>_.
     bind_result (bind_result (sf_ring files Raw) (with_file (ios Raw) (sl_raw layout))) (\<lambda>raw.
     bind_result (bind_result (sf_ring files Minute) (with_file (ios Minute) (sl_minute layout))) (\<lambda>minute.
     bind_result (bind_result (sf_ring files QuarterHour) (with_file (ios QuarterHour) (sl_quarter layout))) (\<lambda>quarter.
     bind_result (bind_result (sf_events files) (journal_with_file events_io (max (capacity (sl_raw layout)) 2))) (\<lambda>events.
     bind_result (ensure (sf_directory_sync files)
       (storage_io_error ''storage directory entries could not be synchronized'')) (\<lambda>_.
     bind_result (latest (ios Raw) (sl_raw layout) raw) (\<lambda>latest_sample.
     bind_result (next_after latest_sample) (\<lambda>next_sequence.
     bind_result (rebuild_rollup (ios Raw) (sl_raw layout) raw WATCHDOG_MINUTE_INTERVAL_MILLISECONDS latest_sample) (\<lambda>minute_rollup.
     bind_result (rebuild_rollup (ios Raw) (sl_raw layout) raw WATCHDOG_QUARTER_INTERVAL_MILLISECONDS latest_sample) (\<lambda>quarter_rollup.
     Inr \<lparr>st_layout = layout, st_raw = raw, st_minute = minute, st_quarter = quarter, st_events = events,
          st_minute_rollup = minute_rollup, st_quarter_rollup = quarter_rollup,
          st_latest = latest_sample, st_next = next_sequence,
          st_raw_dirty = False, st_minute_dirty = False, st_quarter_dirty = False, st_events_dirty = False\<rparr>)))))))))))"

section \<open>Operations\<close>

definition history :: "(resolution \<Rightarrow> ring_io) \<Rightarrow> resolution \<Rightarrow> nat \<Rightarrow> nat \<Rightarrow> nat \<Rightarrow> storage \<Rightarrow> watchdog_error + ring_history" where
  "history ios res start stop limit st = query (ios res) (layout_of res st) (content_of res st) start stop limit"

definition next_sequence :: "storage \<Rightarrow> nat" where
  "next_sequence st = st_next st"

text \<open>A rollup sample is written only when the push completed one.\<close>

definition write_completed ::
  "ring_io \<Rightarrow> ring_layout \<Rightarrow> byte list \<Rightarrow> watchdog_sample option \<Rightarrow> (watchdog_error + unit) \<times> byte list" where
  "write_completed io l content completed =
     (case completed of None \<Rightarrow> (Inr (), content) | Some s \<Rightarrow> ring_write io l content s)"

definition record_sample ::
  "(resolution \<Rightarrow> ring_io) \<Rightarrow> watchdog_sample \<Rightarrow> storage \<Rightarrow> (watchdog_error + unit) \<times> storage" where
  "record_sample ios s st =
     (if unat (sequence s) < st_next st
      then case find_sequence (ios Raw) (layout_of Raw st) (st_raw st) (sequence s) of
             Inl e \<Rightarrow> (Inl e, st)
           | Inr found \<Rightarrow>
               if found = Some s then (Inr (), st)
               else (Inl (InvalidContract ''Watchdog sample replay conflicts with retained storage''), st)
      else if unat (sequence s) \<noteq> st_next st
      then (Inl (InvalidContract ''Watchdog sample sequence is not the next storage head''), st)
      else
        let (minute, minute_rollup) = push s (st_minute_rollup st);
            (quarter, quarter_rollup) = push s (st_quarter_rollup st)
        in case write_completed (ios Minute) (layout_of Minute st) (st_minute st) minute of
             (Inl e, c1) \<Rightarrow> (Inl e, st\<lparr>st_minute := c1\<rparr>)
           | (Inr _, c1) \<Rightarrow>
          (case write_completed (ios QuarterHour) (layout_of QuarterHour st) (st_quarter st) quarter of
             (Inl e, c2) \<Rightarrow> (Inl e, st\<lparr>st_minute := c1, st_quarter := c2\<rparr>)
           | (Inr _, c2) \<Rightarrow>
          (case ring_write (ios Raw) (layout_of Raw st) (st_raw st) s of
             (Inl e, c3) \<Rightarrow> (Inl e, st\<lparr>st_minute := c1, st_quarter := c2, st_raw := c3\<rparr>)
           | (Inr _, c3) \<Rightarrow>
               let st' = st\<lparr>st_minute := c1, st_quarter := c2, st_raw := c3,
                      st_minute_rollup := minute_rollup, st_quarter_rollup := quarter_rollup,
                      st_minute_dirty := st_minute_dirty st \<or> minute \<noteq> None,
                      st_quarter_dirty := st_quarter_dirty st \<or> quarter \<noteq> None,
                      st_raw_dirty := True, st_latest := Some s\<rparr>
               in case checked_add64 (unat (sequence s)) 1 of
                    None \<Rightarrow> (Inl (InvalidContract ''Watchdog storage sequence overflowed''), st')
                  | Some next_head \<Rightarrow> (Inr (), st'\<lparr>st_next := next_head\<rparr>))))"

definition storage_record_event ::
  "nat \<Rightarrow> (resolution \<Rightarrow> ring_io) \<Rightarrow> (phase \<Rightarrow> ring_io) \<Rightarrow> safety_event \<Rightarrow> storage \<Rightarrow>
   ((watchdog_error + unit) \<times> storage) option" where
  "storage_record_event fuel ios event_ios ev st =
     (case (if st_latest st \<noteq> None \<and> sequence (the (st_latest st)) = ev_sequence ev then Inr True
            else map_sum id (\<lambda>found. found \<noteq> None) (find_sequence (ios Raw) (layout_of Raw st) (st_raw st) (ev_sequence ev))) of
        Inl e \<Rightarrow> Some (Inl e, st)
      | Inr is_retained \<Rightarrow>
          if \<not> is_retained
          then Some (Inl (InvalidContract ''Watchdog event does not reference a retained sample''), st)
          else case record_event fuel event_ios ev (st_events st) of
                 None \<Rightarrow> None
               | Some (Inl e, j) \<Rightarrow> Some (Inl e, st\<lparr>st_events := j\<rparr>)
               | Some (Inr recorded, j) \<Rightarrow>
                   Some (Inr (), st\<lparr>st_events := j, st_events_dirty := st_events_dirty st \<or> recorded\<rparr>))"

definition flush :: "(resolution \<Rightarrow> ring_io) \<Rightarrow> ring_io \<Rightarrow> storage \<Rightarrow> (watchdog_error + unit) \<times> storage" where
  "flush ios events_io st =
     (case bind_result (if st_raw_dirty st then file_synchronize (ios Raw) else Inr ()) (\<lambda>_.
           bind_result (if st_minute_dirty st then file_synchronize (ios Minute) else Inr ()) (\<lambda>_.
           bind_result (if st_quarter_dirty st then file_synchronize (ios QuarterHour) else Inr ()) (\<lambda>_.
           if st_events_dirty st then file_synchronize events_io else Inr ()))) of
        Inl e \<Rightarrow> (Inl e, st)
      | Inr _ \<Rightarrow> (Inr (), st\<lparr>st_raw_dirty := False, st_minute_dirty := False, st_quarter_dirty := False,
          st_events_dirty := False\<rparr>))"

section \<open>Sorted samples and their buckets\<close>

lemma filter_bucket_split:
  assumes "sorted_wrt (<) (map f ss)" and "a \<le> (z :: nat)"
  shows "filter (\<lambda>s. a \<le> f s \<and> f s < Suc z) ss = filter (\<lambda>s. a \<le> f s \<and> f s < z) ss @ filter (\<lambda>s. f s = z) ss"
  using assms
proof (induction ss)
  case (Cons s ss)
  have later: "\<forall>t \<in> set ss. f s < f t" using Cons.prems(1) by simp
  show ?case
  proof (cases "f s < z")
    case False
    then have "filter (\<lambda>s. a \<le> f s \<and> f s < z) ss = []" "filter (\<lambda>s. f s = z) ss = filter (\<lambda>t. a \<le> f t \<and> f t < Suc z) ss"
      using later assms(2) by (auto simp: filter_empty_conv intro!: filter_cong)
    then show ?thesis using Cons False assms(2) by auto
  qed (use Cons in auto)
qed simp

lemma filter_key_find:
  assumes "sorted_wrt (<) (map f ss)"
  shows "filter (\<lambda>s. f s = (z :: nat)) ss = (case find (\<lambda>s. f s = z) ss of None \<Rightarrow> [] | Some s \<Rightarrow> [s])"
  using assms
proof (induction ss)
  case (Cons s ss)
  show ?case
  proof (cases "f s = z")
    case True
    then have "filter (\<lambda>t. f t = z) ss = []" using Cons.prems by (auto simp: filter_empty_conv)
    then show ?thesis using True by simp
  next
    case False
    then show ?thesis using Cons by simp
  qed
qed simp

lemma map_filter_buckets:
  assumes "sorted_wrt (<) (map f ss)" and "\<forall>b. a \<le> b \<and> b < z \<longrightarrow> h b = find (\<lambda>s. f s = b) ss"
  shows "List.map_filter h [a..<z] = filter (\<lambda>s. a \<le> f s \<and> f s < (z :: nat)) ss"
  using assms(2)
proof (induction z)
  case 0
  then show ?case by (simp add: map_filter_simps)
next
  case (Suc z)
  show ?case
  proof (cases "a \<le> z")
    case True
    have "List.map_filter h [z] = filter (\<lambda>s. f s = z) ss"
      using Suc.prems True filter_key_find [OF assms(1), of z] by (auto simp: map_filter_simps split: option.splits)
    then show ?thesis
      using Suc True filter_bucket_split [OF assms(1) True] by (simp add: map_filter_append)
  next
    case False
    then show ?thesis by (auto simp: map_filter_simps filter_empty_conv)
  qed
qed

section \<open>Rollups of the newest bucket\<close>

lemma last_run:
  assumes "cur \<noteq> []" and "\<forall>c \<in> set cur. same_bucket I (hd cur) c"
    and "sorted (map (time_bucket I) (cur @ ss))"
  shows "last (runs_from I cur ss) = filter (\<lambda>s. same_bucket I (last (cur @ ss)) s) (cur @ ss)"
  using assms
proof (induction ss arbitrary: cur)
  case Nil
  have "same_bucket I (last cur) c" if "c \<in> set cur" for c
    using bspec [OF Nil(2) that] bspec [OF Nil(2) last_in_set [OF Nil(1)]] by (simp add: same_bucket_def)
  then show ?case by (simp add: filter_id_conv)
next
  case (Cons s ss)
  show ?case
  proof (cases "same_bucket I (hd cur) s")
    case True
    then have "last (runs_from I (cur @ [s]) ss) = filter (\<lambda>t. same_bucket I (last ((cur @ [s]) @ ss)) t) ((cur @ [s]) @ ss)"
      using Cons.prems by (intro Cons.IH) auto
    then show ?thesis using True by (simp add: same_bucket_def)
  next
    case False
    have "hd cur \<in> set cur" using Cons.prems(1) by simp
    then have "time_bucket I (hd cur) < time_bucket I s"
      using Cons.prems(3) False by (auto simp: sorted_append same_bucket_def)
    moreover have "time_bucket I s \<le> time_bucket I (last (s # ss))"
      using Cons.prems(3) by (auto simp: sorted_append)
    ultimately have "\<not> same_bucket I (last (s # ss)) c" if "c \<in> set cur" for c
      using bspec [OF Cons.prems(2) that] by (simp add: same_bucket_def)
    then have "filter (\<lambda>t. same_bucket I (last (s # ss)) t) cur = []" by (simp add: filter_empty_conv)
    moreover have "last (runs_from I [s] ss) = filter (\<lambda>t. same_bucket I (last ([s] @ ss)) t) ([s] @ ss)"
      using Cons.prems(3) by (intro Cons.IH) (auto simp: sorted_append same_bucket_def)
    ultimately show ?thesis using False by (simp add: runs_from_nonempty same_bucket_def)
  qed
qed

lemma run_ok_append:
  assumes "run_ok I (cur @ ss)" and "cur \<noteq> []"
  shows "run_ok I cur" and "\<And>s. s \<in> set ss \<Longrightarrow> time_bucket I s = time_bucket I (hd cur)"
proof -
  have hd: "hd (cur @ ss) = hd cur" using assms(2) by simp
  show "run_ok I cur" using assms by (simp add: run_ok_def hd)
  have all: "\<forall>s \<in> set (cur @ ss). same_bucket I (hd cur) s" using assms(1) unfolding run_ok_def hd by blast
  show "time_bucket I s = time_bucket I (hd cur)" if "s \<in> set ss" for s
    using bspec [OF all, of s] that by (simp add: same_bucket_def)
qed

lemma rebuild_filled:
  assumes "run_ok I (cur @ ss)" and "cur \<noteq> []"
  shows "rebuild_push ss (filled I cur) = Inr (filled I (cur @ ss))"
  using assms
proof (induction ss arbitrary: cur)
  case (Cons s ss)
  have "push s (filled I cur) = (None, filled I (cur @ [s]))"
    using push_filled [OF run_ok_append(1) [OF Cons.prems]] run_ok_append(2) [OF Cons.prems, of s] by simp
  then show ?case using Cons.IH [of "cur @ [s]"] Cons.prems by simp
qed simp

lemma rebuild_run:
  assumes "run_ok I run"
  shows "rebuild_push run (empty_rollup I) = Inr (filled I run)"
proof -
  obtain s ss where run: "run = s # ss" using assms by (cases run) (auto simp: run_ok_def)
  have "push s (empty_rollup I) = (None, filled I [s])"
    by (simp add: push_def filled_single empty_rollup_def)
  then show ?thesis using rebuild_filled [of I "[s]" ss] assms run by simp
qed

lemma push_all_append:
  "push_all (xs @ ys) r = (fst (push_all xs r) @ fst (push_all ys (snd (push_all xs r))), snd (push_all ys (snd (push_all xs r))))"
  by (induction xs arbitrary: r) (auto split: prod.splits option.splits)

text \<open>After a stream of samples the rollup holds the last run and the completed runs have been given out.\<close>

lemma push_all_stream:
  assumes "ss \<noteq> []" and "\<forall>s \<in> set ss. sample_ok s" and "length ss < 2 ^ 32"
  shows "push_all ss (empty_rollup I) = (map (summary I) (butlast (bucket_runs I ss)), filled I (last (bucket_runs I ss)))"
    and "run_ok I (last (bucket_runs I ss))"
proof -
  obtain s rest where ss: "ss = s # rest" using assms(1) by (cases ss) auto
  have one: "run_ok I [s]" using assms(2,3) ss by (simp add: run_ok_def same_bucket_def)
  have "push s (empty_rollup I) = (None, filled I [s])"
    by (simp add: push_def filled_single empty_rollup_def)
  then show "push_all ss (empty_rollup I) = (map (summary I) (butlast (bucket_runs I ss)), filled I (last (bucket_runs I ss)))"
    "run_ok I (last (bucket_runs I ss))"
    using push_all_runs [OF one, of rest] assms(2,3) ss by (auto simp: bucket_runs_def)
qed

section \<open>What the files hold\<close>

context bucket_map
begin

lemma view_source:
  assumes "ok r" and "\<forall>t \<in> set ss. valid t" and "put_all put r ss r'" and "view r' b = Some s"
  shows "s \<in> set ss \<and> bucket s = b \<or> view r b = Some s"
  using assms
proof (induction ss arbitrary: r)
  case (Cons t ss)
  then obtain r1 where r1: "put r t r1" "put_all put r1 ss r'" by auto
  have t: "valid t" "ok r1" using Cons.prems(1,2) put_ok [OF _ _ r1(1)] by auto
  have "s \<in> set ss \<and> bucket s = b \<or> view r1 b = Some s"
    by (rule Cons.IH) (use t r1 Cons.prems in auto)
  then show ?case
    using view_put [OF Cons.prems(1) t(1) r1(1), of b] by (auto split: if_splits)
qed simp

text \<open>Samples with increasing buckets: a bucket of the newest \<open>slots\<close> shows its sample or nothing.\<close>

lemma view_sorted:
  assumes "ok r" and "\<forall>t \<in> set ss. valid t" and "put_all put r ss r'" and "\<forall>b. view r b = None"
    and "sorted_wrt (<) (map bucket ss)" and "\<forall>t \<in> set ss. bucket t < b + slots" and "0 < slots"
  shows "view r' b = find (\<lambda>t. bucket t = b) ss"
proof (cases "find (\<lambda>t. bucket t = b) ss")
  case None
  then have "\<forall>t \<in> set ss. bucket t \<noteq> b" by (simp add: find_None_iff)
  then show ?thesis using None view_source [OF assms(1-3), of b] assms(4) by (cases "view r' b") auto
next
  case (Some s)
  then have s: "s \<in> set ss" "bucket s = b" by (auto simp: find_Some_iff)
  then obtain xs ys where ss: "ss = xs @ s # ys" by (meson split_list)
  have "bucket t mod slots \<noteq> bucket s mod slots" if "t \<in> set ys" for t
  proof -
    have "bucket s < bucket t" "bucket t < bucket s + slots"
      using that assms(5,6) s(2) ss by (auto simp: sorted_wrt_append)
    then show ?thesis
      using mod_eq_dvd_iff_nat [of "bucket s" "bucket t" slots] dvd_imp_le [of slots "bucket t - bucket s"] by auto
  qed
  then have "view r' (bucket s) = Some s"
    using view_written [of r xs s ys r'] assms(1-3) ss by auto
  then show ?thesis using Some s(2) by simp
qed

end

abbreviation ring_put :: "ring_layout \<Rightarrow> byte list \<Rightarrow> watchdog_sample \<Rightarrow> byte list \<Rightarrow> bool" where
  "ring_put l \<equiv> \<lambda>c s c'. \<exists>io. ring_write io l c s = (Inr (), c')"

definition empty_ring :: "ring_layout \<Rightarrow> byte list \<Rightarrow> bool" where
  "empty_ring l c \<longleftrightarrow> ring_ok l c \<and> (\<forall>b. bucket_view l c b = None)"

definition ring_holds :: "ring_layout \<Rightarrow> byte list \<Rightarrow> watchdog_sample list \<Rightarrow> bool" where
  "ring_holds l c ss \<longleftrightarrow> (\<exists>c0. empty_ring l c0 \<and> put_all (ring_put l) c0 ss c) \<and> (\<forall>s \<in> set ss. sample_ok s)"

lemma ring_holds_ok: "ring_holds l c ss \<Longrightarrow> ring_ok l c"
  unfolding ring_holds_def empty_ring_def by (blast intro: ring.put_all_ok)

lemma ring_holds_empty: "empty_ring l c \<Longrightarrow> ring_holds l c []"
  by (simp add: ring_holds_def)

lemma ring_holds_snoc:
  assumes "ring_holds l c ss" and "sample_ok s" and "ring_write io l c s = (Inr (), c')"
  shows "ring_holds l c' (ss @ [s])"
  using assms unfolding ring_holds_def by (auto simp: ring.put_all_append)

lemma ring_holds_view_source: "ring_holds l c ss \<Longrightarrow> bucket_view l c b = Some s \<Longrightarrow> s \<in> set ss \<and> bucket_of l s = b"
  unfolding ring_holds_def empty_ring_def using ring.view_source [of l _ ss c b s] by fastforce

lemma ring_holds_view:
  assumes "ring_holds l c ss" and "sorted_wrt (<) (map (bucket_of l) ss)" and "\<forall>t \<in> set ss. bucket_of l t < b + capacity l"
  shows "bucket_view l c b = find (\<lambda>t. bucket_of l t = b) ss"
proof -
  obtain c0 where "empty_ring l c0" "put_all (ring_put l) c0 ss c" using assms(1) by (auto simp: ring_holds_def)
  moreover have "0 < capacity l" using ring_holds_ok [OF assms(1)] by (simp add: ring_ok_def layout_ok_def)
  ultimately show ?thesis
    using ring.view_sorted [of l c0 ss c b] assms by (simp add: ring_holds_def empty_ring_def)
qed

lemma ring_holds_retained: "ring_holds l c ss \<Longrightarrow> set (retained l c) \<subseteq> set ss"
  using ring_holds_view_source bucket_view_iff_slot by (fastforce simp: set_retained)

section \<open>The storage as a list of samples\<close>

definition layouts_ok :: "storage_layout \<Rightarrow> bool" where
  "layouts_ok layout \<longleftrightarrow> layout_ok (sl_raw layout) \<and> layout_ok (sl_minute layout) \<and> layout_ok (sl_quarter layout)
     \<and> interval_milliseconds (sl_raw layout) = WATCHDOG_RAW_INTERVAL_MILLISECONDS
     \<and> interval_milliseconds (sl_minute layout) = WATCHDOG_MINUTE_INTERVAL_MILLISECONDS
     \<and> interval_milliseconds (sl_quarter layout) = WATCHDOG_QUARTER_INTERVAL_MILLISECONDS"

lemma storage_layout_new_ok:
  "storage_layout_new rc mc qc = Inr layout \<Longrightarrow>
   layouts_ok layout \<and> capacity (sl_raw layout) = rc \<and> capacity (sl_minute layout) = mc \<and> capacity (sl_quarter layout) = qc"
  by (auto simp: storage_layout_new_def layouts_ok_def result_simps intro: ring_layout_new_ok)
    (auto simp: ring_layout_new_def split: if_splits)

text \<open>
  The storage after the samples \<open>ss\<close> were recorded: the raw ring holds them, the rollups in memory hold
  what is not completed, and the head is behind the last one. When no sample write has failed
  (\<open>steady\<close>), the rollup rings hold what the rollups completed.
\<close>

definition storage_holds :: "bool \<Rightarrow> storage \<Rightarrow> watchdog_sample list \<Rightarrow> bool" where
  "storage_holds steady st ss \<longleftrightarrow> layouts_ok (st_layout st)
     \<and> ring_holds (layout_of Raw st) (st_raw st) ss
     \<and> ring_ok (layout_of Minute st) (st_minute st) \<and> ring_ok (layout_of QuarterHour st) (st_quarter st)
     \<and> (steady \<longrightarrow>
          ring_holds (layout_of Minute st) (st_minute st) (fst (push_all ss (empty_rollup WATCHDOG_MINUTE_INTERVAL_MILLISECONDS)))
          \<and> ring_holds (layout_of QuarterHour st) (st_quarter st) (fst (push_all ss (empty_rollup WATCHDOG_QUARTER_INTERVAL_MILLISECONDS))))
     \<and> st_minute_rollup st = snd (push_all ss (empty_rollup WATCHDOG_MINUTE_INTERVAL_MILLISECONDS))
     \<and> st_quarter_rollup st = snd (push_all ss (empty_rollup WATCHDOG_QUARTER_INTERVAL_MILLISECONDS))
     \<and> st_latest st = (if ss = [] then None else Some (last ss))
     \<and> st_next st = Suc (length ss) \<and> Suc (length ss) \<le> u64_max
     \<and> map (\<lambda>s. unat (sequence s)) ss = [1..<Suc (length ss)]"

lemma rollup_telemetry_arrays:
  "length (cpu_core_percent (rollup_telemetry r t)) = WATCHDOG_MAX_CPU_CORES"
  "length (gpu_engine_percent (rollup_telemetry r t)) = WATCHDOG_GPU_ENGINES"
  by (simp_all add: rollup_telemetry_def default_telemetry_def)

lemma complete_sample_ok:
  assumes "complete r = Some x"
  shows "sample_ok x"
proof -
  obtain sq unix monotonic t where "from_record sq unix monotonic (rollup_telemetry r t) = Inr x"
    using assms by (auto simp: complete_def split: option.splits sum.splits)
  then have "telemetry x = rollup_telemetry r t" "unat (cpu_core_count (telemetry x)) \<le> WATCHDOG_MAX_CPU_CORES"
    by (auto simp: from_record_def result_simps)
  then show ?thesis by (simp add: telemetry_ok_def rollup_telemetry_arrays)
qed

lemma push_completed_ok: "push s r = (Some x, r') \<Longrightarrow> sample_ok x"
  by (auto simp: push_def Let_def dest: complete_sample_ok split: if_splits)

lemma push_all_snoc:
  "push s (snd (push_all ss r)) = (out, r') \<Longrightarrow>
   push_all (ss @ [s]) r = (fst (push_all ss r) @ (case out of None \<Rightarrow> [] | Some x \<Rightarrow> [x]), r')"
  by (simp add: push_all_append split: option.splits)

lemma write_completed_holds:
  assumes "ring_holds l c (fst (push_all ss r))" and "push s (snd (push_all ss r)) = (out, r')"
    and "write_completed io l c out = (Inr (), c')"
  shows "ring_holds l c' (fst (push_all (ss @ [s]) r))"
  using assms push_completed_ok [of s "snd (push_all ss r)"]
  by (cases out) (auto simp: write_completed_def push_all_snoc intro: ring_holds_snoc)

lemma write_completed_ok:
  assumes "ring_ok l c" and "push s r = (out, r')" and "write_completed io l c out = (res, c')"
  shows "ring_ok l c'"
  using assms push_completed_ok [of s r] ring_write_spec(1) [OF assms(1)]
  by (cases out) (auto simp: write_completed_def)

lemma record_sample_fresh:
  assumes "storage_holds steady st ss" and "sample_ok s" and "record_sample ios s st = (Inr (), st')" and "unat (sequence s) = st_next st"
  shows "storage_holds steady st' (ss @ [s]) \<and> st_layout st' = st_layout st \<and> st_events st' = st_events st"
proof -
  obtain m mr where m: "push s (st_minute_rollup st) = (m, mr)" by force
  obtain q qr where q: "push s (st_quarter_rollup st) = (q, qr)" by force
  obtain r1 c1 where c1: "write_completed (ios Minute) (layout_of Minute st) (st_minute st) m = (r1, c1)" by force
  obtain r2 c2 where c2: "write_completed (ios QuarterHour) (layout_of QuarterHour st) (st_quarter st) q = (r2, c2)" by force
  obtain r3 c3 where c3: "ring_write (ios Raw) (layout_of Raw st) (st_raw st) s = (r3, c3)" by force
  have run: "r1 = Inr ()" "r2 = Inr ()" "r3 = Inr ()" "unat (sequence s) + 1 \<le> u64_max"
    "st' = st\<lparr>st_minute := c1, st_quarter := c2, st_raw := c3, st_minute_rollup := mr, st_quarter_rollup := qr,
       st_minute_dirty := st_minute_dirty st \<or> m \<noteq> None, st_quarter_dirty := st_quarter_dirty st \<or> q \<noteq> None,
       st_raw_dirty := True, st_latest := Some s, st_next := unat (sequence s) + 1\<rparr>"
    using assms(3,4) m q c1 c2 c3
    by (auto simp: record_sample_def Let_def checked_add64_def split: sum.splits if_splits option.splits)
  have h: "storage_holds steady st ss" by fact
  have raw: "ring_holds (layout_of Raw st) c3 (ss @ [s])"
    using h c3 run(3) assms(2) by (auto simp: storage_holds_def intro: ring_holds_snoc)
  have ok: "ring_ok (layout_of Minute st) c1" "ring_ok (layout_of QuarterHour st) c2"
    using h write_completed_ok [OF _ m c1] write_completed_ok [OF _ q c2] by (simp_all add: storage_holds_def)
  have minute: "ring_holds (layout_of Minute st) c1 (fst (push_all (ss @ [s]) (empty_rollup WATCHDOG_MINUTE_INTERVAL_MILLISECONDS)))" if steady
    using h m c1 run(1) that by (intro write_completed_holds [where c = "st_minute st" and out = m]) (auto simp: storage_holds_def)
  have quarter: "ring_holds (layout_of QuarterHour st) c2 (fst (push_all (ss @ [s]) (empty_rollup WATCHDOG_QUARTER_INTERVAL_MILLISECONDS)))" if steady
    using h q c2 run(2) that by (intro write_completed_holds [where c = "st_quarter st" and out = q]) (auto simp: storage_holds_def)
  have "mr = snd (push_all (ss @ [s]) (empty_rollup WATCHDOG_MINUTE_INTERVAL_MILLISECONDS))"
    "qr = snd (push_all (ss @ [s]) (empty_rollup WATCHDOG_QUARTER_INTERVAL_MILLISECONDS))"
    using h m q by (simp_all add: storage_holds_def push_all_snoc)
  then show ?thesis
    using h raw ok minute quarter run(4,5) assms(4) by (auto simp: storage_holds_def)
qed

section \<open>Restart\<close>

lemma last_retained:
  assumes "ring_holds l c ss" and "ss \<noteq> []"
  shows "last ss \<in> set (retained l c)"
proof -
  obtain xs where xs: "ss = xs @ [last ss]" using assms(2) by (metis append_butlast_last_id)
  obtain c0 where c0: "empty_ring l c0" "put_all (ring_put l) c0 ss c" "\<forall>s \<in> set ss. sample_ok s"
    using assms(1) by (auto simp: ring_holds_def)
  have "bucket_view l c (bucket_of l (last ss)) = Some (last ss)"
    using ring.view_written [of l c0 xs "last ss" "[]" c] c0 xs by (simp add: empty_ring_def)
  then show ?thesis
    using ring_holds_ok [OF assms(1)]
    by (auto simp: set_retained bucket_view_def ring_ok_def layout_ok_def split: option.splits if_splits
        intro!: exI [of _ "bucket_of l (last ss) mod capacity l"])
qed

lemma latest_last:
  assumes "ring_holds l c ss" and "map (\<lambda>s. unat (sequence s)) ss = [1..<Suc (length ss)]" and "readable io"
  shows "latest io l c = Inr (if ss = [] then None else Some (last ss))"
proof -
  let ?found = "fst (run_visitor keep_latest (retained l c) None)"
  have scan: "latest io l c = Inr ?found"
    by (simp add: latest_def scan_valid_records_spec [OF ring_holds_ok [OF assms(1)] assms(3)])
  have sub: "set (retained l c) \<subseteq> set ss" by (rule ring_holds_retained [OF assms(1)])
  show ?thesis
  proof (cases "ss = []")
    case True
    then have "retained l c = []" using sub by simp
    then show ?thesis using scan True by simp
  next
    case False
    have "last ss \<in> set (retained l c)" by (rule last_retained [OF assms(1) False])
    moreover from this obtain s where s: "?found = Some s"
      using run_keep_latest(1) [of "retained l c" None] by fastforce
    ultimately have "s \<in> set ss" "sequence (last ss) \<le> sequence s"
      using run_keep_latest(2) [OF s] sub by auto
    then obtain i where i: "i < length ss" "s = ss ! i" "unat (sequence (last ss)) \<le> unat (sequence (ss ! i))"
      by (auto simp: in_set_conv_nth word_le_nat_alt)
    have seq: "unat (sequence (ss ! k)) = Suc k" if "k < length ss" for k
      using that assms(2) nth_map [of k ss "\<lambda>s. unat (sequence s)"] by (simp add: nth_upt del: upt_Suc nth_map)
    have "i = length ss - 1"
      using i seq [OF i(1)] seq [of "length ss - 1"] False by (simp add: last_conv_nth)
    then show ?thesis using scan s i(2) False by (simp add: last_conv_nth)
  qed
qed

lemma bucket_in_range:
  assumes "interval_milliseconds l = i" and "0 < i" and "a \<le> bucket_of l s" and "bucket_of l s < bucket_of l t \<or> s = t"
  shows "in_range (a * i) (unat (unix_milliseconds t)) s"
proof -
  have "a * i \<le> bucket_of l s * i" using assms(3) by simp
  also have "\<dots> \<le> unat (unix_milliseconds s)" using assms(1) by (simp add: bucket_of_def)
  finally have low: "a * i \<le> unat (unix_milliseconds s)" .
  have "unat (unix_milliseconds s) \<le> unat (unix_milliseconds t)"
  proof (rule ccontr)
    assume less: "\<not> ?thesis"
    then have "unat (unix_milliseconds t) div i \<le> unat (unix_milliseconds s) div i" by (intro div_le_mono) simp
    then have "\<not> bucket_of l s < bucket_of l t" using assms(1) by (simp add: bucket_of_def)
    then show False using less assms(4) by simp
  qed
  then show ?thesis using low by (simp add: in_range_def)
qed

text \<open>The samples in the newest bucket of \<open>k\<close> seconds, as the restart queries them.\<close>

lemma sorted_below:
  assumes "sorted_wrt (<) (map f ss)" and "s \<in> set ss"
  shows "f s < (f (last ss) :: nat) \<or> s = last ss"
proof -
  obtain xs where xs: "ss = xs @ [last ss]" using assms(2) by (metis append_butlast_last_id empty_iff empty_set)
  have "sorted_wrt (<) (map f (xs @ [last ss]))" using assms(1) xs by simp
  moreover have "s \<in> set xs \<or> s = last ss" using assms(2) xs by (metis UnE empty_iff list.set(1) set_ConsD set_append)
  ultimately show ?thesis by (auto simp: sorted_wrt_append)
qed

lemma newest_view:
  assumes "ring_holds l c ss" and "interval_milliseconds l = 1000" and "k \<le> capacity l" and "0 < k"
    and "sorted_wrt (<) (map (bucket_of l) ss)" and "ss \<noteq> []"
    and "bucket_of l (last ss) div k * k \<le> b" and "b \<le> bucket_of l (last ss)"
  shows "hit l c (bucket_of l (last ss) div k * k * 1000) (unat (unix_milliseconds (last ss))) b = find (\<lambda>t. bucket_of l t = b) ss"
proof -
  let ?B = "bucket_of l (last ss)"
  note below = sorted_below [OF assms(5)]
  have "bucket_of l t < b + capacity l" if "t \<in> set ss" for t
    using below [OF that] dividend_less_div_times [OF assms(4), of ?B] assms(3,7) by auto
  then have v: "bucket_view l c b = find (\<lambda>t. bucket_of l t = b) ss"
    by (intro ring_holds_view [OF assms(1,5)]) auto
  show ?thesis
  proof (cases "find (\<lambda>t. bucket_of l t = b) ss")
    case None
    then show ?thesis using v by (simp add: hit_def)
  next
    case (Some s)
    then have "s \<in> set ss" "bucket_of l s = b" by (auto simp: find_Some_iff)
    then have "in_range (?B div k * k * 1000) (unat (unix_milliseconds (last ss))) s"
      using assms(7) below by (intro bucket_in_range [OF assms(2)]) auto
    then show ?thesis using v Some by (simp add: hit_def)
  qed
qed

lemma same_newest_bucket:
  assumes "interval_milliseconds l = 1000" and "0 < k" and "bucket_of l s \<le> bucket_of l t"
  shows "same_bucket (1000 * k) t s \<longleftrightarrow> bucket_of l t div k * k \<le> bucket_of l s"
proof -
  have "time_bucket (1000 * k) s = bucket_of l s div k" for s
    using assms(1) by (simp add: bucket_of_def div_mult2_eq)
  moreover have "bucket_of l s div k \<le> bucket_of l t div k" using assms(3) by (rule div_le_mono)
  moreover have "bucket_of l t div k \<le> bucket_of l s div k \<longleftrightarrow> bucket_of l t div k * k \<le> bucket_of l s"
    using assms(2) by (simp add: less_eq_div_iff_mult_less_eq)
  ultimately show ?thesis by (auto simp: same_bucket_def)
qed

lemma newest_samples:
  assumes "ring_holds l c ss" and "interval_milliseconds l = 1000" and "k \<le> capacity l" and "0 < k"
    and "sorted_wrt (<) (map (bucket_of l) ss)" and "ss \<noteq> []" and "readable io"
  shows "\<exists>h. query io l c (bucket_of l (last ss) div k * k * 1000) (unat (unix_milliseconds (last ss))) (capacity l) = Inr h
    \<and> samples h = filter (same_bucket (1000 * k) (last ss)) ss"
proof -
  let ?u = "unat (unix_milliseconds (last ss))" and ?B = "bucket_of l (last ss)"
  let ?F = "bucket_of l (last ss) div k * k"
  have B: "?u div 1000 = ?B" "?F * 1000 \<le> ?B * 1000" "?B * 1000 \<le> ?u" using assms(2) by (simp_all add: bucket_of_def)
  have F: "?F \<le> ?B" "?B < ?F + k" using dividend_less_div_times [OF assms(4), of ?B] by (simp_all add: add.commute)
  have "query_accepts l (?F * 1000) ?u (capacity l)"
  proof -
    have "?F * 1000 \<le> ?u" "?B - ?F < capacity l" "0 < capacity l" using F B assms(3) by linarith+
    then show ?thesis using B(1) assms(2) by (simp add: query_accepts_def)
  qed
  moreover have "?u \<le> u64_max" using unsigned_less [of "unix_milliseconds (last ss)", where 'a = nat] by (simp add: u64_max_def)
  ultimately obtain h where h: "query io l c (?F * 1000) ?u (capacity l) = Inr h"
      "samples h = take (capacity l) (List.map_filter (hit l c (?F * 1000) ?u) [?F..<Suc ?B])"
    using query_spec [OF ring_holds_ok [OF assms(1)] assms(7), of ?u "?F * 1000" "capacity l"] assms(2) B by auto
  have "length (List.map_filter (hit l c (?F * 1000) ?u) [?F..<Suc ?B]) \<le> length [?F..<Suc ?B]"
    unfolding List.map_filter_def length_map comp_apply by (rule length_filter_le)
  also have "\<dots> \<le> capacity l" unfolding length_upt using F assms(3) by linarith
  finally have "samples h = List.map_filter (hit l c (?F * 1000) ?u) [?F..<Suc ?B]" using h(2) by simp
  also have "\<dots> = filter (\<lambda>s. ?F \<le> bucket_of l s \<and> bucket_of l s < Suc ?B) ss"
    using newest_view [OF assms(1-6)] by (intro map_filter_buckets assms(5)) auto
  also have "\<dots> = filter (same_bucket (1000 * k) (last ss)) ss"
  proof (rule filter_cong [OF refl])
    fix s
    assume "s \<in> set ss"
    then have "bucket_of l s \<le> ?B"
      using sorted_below [OF assms(5)] by fastforce
    then show "(?F \<le> bucket_of l s \<and> bucket_of l s < Suc ?B) = same_bucket (1000 * k) (last ss) s"
      using same_newest_bucket [OF assms(2,4)] by auto
  qed
  finally show ?thesis using h(1) by blast
qed

lemma sorted_time_buckets:
  assumes "sorted_wrt (<) (map (bucket_of l) ss)" and "interval_milliseconds l = 1000"
  shows "sorted (map (time_bucket (1000 * k)) ss)"
proof -
  have "time_bucket (1000 * k) s \<le> time_bucket (1000 * k) t" if "bucket_of l s < bucket_of l t" for s t
    using that assms(2) div_le_mono [of "bucket_of l s" "bucket_of l t" k] by (simp add: bucket_of_def div_mult2_eq)
  then show ?thesis
    using assms(1) by (auto simp: sorted_wrt_map intro: sorted_wrt_mono_rel [rotated])
qed

lemma rebuild_restores:
  assumes "ring_holds l c ss" and "interval_milliseconds l = 1000" and "k \<le> capacity l" and "0 < k"
    and "sorted_wrt (<) (map (bucket_of l) ss)" and "length ss < 2 ^ 32" and "readable io"
  shows "rebuild_rollup io l c (1000 * k) (if ss = [] then None else Some (last ss)) =
    Inr (snd (push_all ss (empty_rollup (1000 * k))))"
proof (cases "ss = []")
  case True
  then show ?thesis using assms(4) by (simp add: rebuild_rollup_def rollup_new_def)
next
  case False
  let ?I = "1000 * k" and ?u = "unat (unix_milliseconds (last ss))" and ?B = "bucket_of l (last ss)"
  have B: "?u div 1000 = ?B" using assms(2) by (simp add: bucket_of_def)
  have "?u div ?I * ?I div 1000 = ?B div k * k" using B by (simp add: div_mult2_eq)
  moreover have "?B - (capacity l - 1) \<le> ?B div k * k"
    using dividend_less_div_times [OF assms(4), of ?B] assms(3) by linarith
  ultimately have first: "max (?u div ?I * ?I div 1000) (?u div 1000 - (capacity l - 1)) = ?B div k * k"
    unfolding B by linarith
  obtain h where h: "query io l c (?B div k * k * 1000) ?u (capacity l) = Inr h"
      "samples h = filter (same_bucket ?I (last ss)) ss"
    using newest_samples [OF assms(1-5) False assms(7)] by blast
  have sorted: "sorted (map (time_bucket ?I) ss)" by (rule sorted_time_buckets [OF assms(5,2)])
  obtain s rest where ss: "ss = s # rest" using False by (cases ss) auto
  have run: "last (bucket_runs ?I ss) = filter (same_bucket ?I (last ss)) ss"
    using last_run [of "[s]" ?I rest] sorted by (simp add: ss bucket_runs_def same_bucket_def [of ?I s s])
  have ok: "\<forall>s \<in> set ss. sample_ok s" using assms(1) by (simp add: ring_holds_def)
  note stream = push_all_stream [OF False ok assms(6), of ?I]
  have "rebuild_push (samples h) (empty_rollup ?I) = Inr (filled ?I (last (bucket_runs ?I ss)))"
    unfolding h(2) run [symmetric] by (rule rebuild_run [OF stream(2)])
  then show ?thesis
    using False assms(2,4) first h(1) stream(1) by (simp add: rebuild_rollup_def rollup_new_def Let_def)
qed

text \<open>Opening a ring that has its full extent, or a new file.\<close>

lemma with_file_full: "ring_ok l c \<Longrightarrow> length_ok io \<Longrightarrow> with_file io l c = Inr c"
  by (simp add: with_file_def file_length_def ring_ok_def)

lemma zero_ring_empty:
  assumes "layout_ok l"
  shows "empty_ring l (replicate (byte_length l) 0)"
proof -
  have "slot_bytes (replicate (byte_length l) 0) (b mod capacity l) = replicate WATCHDOG_RECORD_BYTES 0" for b
    using slot_bound [OF assms, of b] by (simp add: slice_def)
  moreover have "decode_watchdog_record (replicate WATCHDOG_RECORD_BYTES 0) = Inl record_error"
    by (simp add: decode_watchdog_record_def get_u32_def slice_def WATCHDOG_RECORD_MAGIC_def WATCHDOG_RECORD_BYTES_def)
  ultimately show ?thesis
    using assms by (simp add: empty_ring_def ring_ok_def bucket_view_def slot_view_def)
qed

lemma with_file_new:
  assumes "layout_ok l" and "with_file io l [] = Inr c"
  shows "empty_ring l c"
  using assms zero_ring_empty [OF assms(1)]
  by (auto simp: with_file_def file_length_def set_length_def result_simps split: if_splits)

definition clean :: "storage \<Rightarrow> storage" where
  "clean st = st\<lparr>st_raw_dirty := False, st_minute_dirty := False, st_quarter_dirty := False, st_events_dirty := False\<rparr>"

text \<open>The directory and the four files as the storage has left them.\<close>

definition files_of :: "storage \<Rightarrow> storage_files \<Rightarrow> bool" where
  "files_of st files \<longleftrightarrow> sf_directory files = Inr () \<and> sf_directory_sync files
     \<and> (\<forall>res. sf_ring files res = Inr (content_of res st)) \<and> sf_events files = Inr (j_content (st_events st))"

text \<open>The journal of a storage is opened with the capacity of the raw ring, at least two.\<close>

abbreviation event_capacity_of :: "storage_layout \<Rightarrow> nat" where
  "event_capacity_of layout \<equiv> max (capacity (sl_raw layout)) 2"

definition io_ok :: "(resolution \<Rightarrow> ring_io) \<Rightarrow> bool" where
  "io_ok ios \<longleftrightarrow> (\<forall>res. readable (ios res) \<and> length_ok (ios res))"

lemma interval_seconds:
  "WATCHDOG_MINUTE_INTERVAL_MILLISECONDS = 1000 * 60" "WATCHDOG_QUARTER_INTERVAL_MILLISECONDS = 1000 * 900"
  by (simp_all add: WATCHDOG_MINUTE_INTERVAL_MILLISECONDS_def WATCHDOG_QUARTER_INTERVAL_MILLISECONDS_def)

lemma open_restores:
  assumes "storage_holds steady st ss" and "900 \<le> capacity (layout_of Raw st)"
    and "sorted_wrt (<) (map (bucket_of (layout_of Raw st)) ss)" and "length ss < 2 ^ 32"
    and "io_ok ios" and "files_of st files" and "root \<noteq> []" and "length root \<le> 4095"
  shows "open_with_layout ios events_io files root (st_layout st) =
    bind_result (journal_with_file events_io (event_capacity_of (st_layout st)) (j_content (st_events st)))
      (\<lambda>j. Inr (clean st\<lparr>st_events := j\<rparr>))"
proof -
  have h: "storage_holds steady st ss" by fact
  have io: "readable (ios Raw)" "\<And>res. length_ok (ios res)" using assms(5) by (simp_all add: io_ok_def)
  have rings: "ring_ok (layout_of res st) (content_of res st)" for res
    using h by (cases res) (auto simp: storage_holds_def intro: ring_holds_ok)
  have raw: "ring_holds (layout_of Raw st) (st_raw st) ss" "interval_milliseconds (layout_of Raw st) = 1000"
    "map (\<lambda>s. unat (sequence s)) ss = [1..<Suc (length ss)]"
    using h by (auto simp: storage_holds_def layouts_ok_def WATCHDOG_RAW_INTERVAL_MILLISECONDS_def)
  have files: "bind_result (sf_ring files res) (with_file (ios res) (layout_of res st)) = Inr (content_of res st)" for res
    using assms(6) with_file_full [OF rings io(2)] by (simp add: files_of_def)
  have head: "latest (ios Raw) (layout_of Raw st) (st_raw st) = Inr (st_latest st)"
    using latest_last [OF raw(1,3) io(1)] h by (simp add: storage_holds_def)
  have "ss \<noteq> [] \<Longrightarrow> unat (sequence (last ss)) = length ss"
    using arg_cong [OF raw(3), of last] by (simp add: last_map Suc_le_eq)
  then have "next_after (st_latest st) = Inr (st_next st)"
    using h by (auto simp: next_after_def storage_holds_def checked_add64_def)
  moreover have "rebuild_rollup (ios Raw) (layout_of Raw st) (st_raw st) WATCHDOG_MINUTE_INTERVAL_MILLISECONDS (st_latest st) = Inr (st_minute_rollup st)"
    "rebuild_rollup (ios Raw) (layout_of Raw st) (st_raw st) WATCHDOG_QUARTER_INTERVAL_MILLISECONDS (st_latest st) = Inr (st_quarter_rollup st)"
    using rebuild_restores [OF raw(1,2) _ _ assms(3,4) io(1), of 60] rebuild_restores [OF raw(1,2) _ _ assms(3,4) io(1), of 900]
      assms(2) h unfolding interval_seconds storage_holds_def by simp_all
  ultimately show ?thesis
    using assms(6-8) files [of Raw] files [of Minute] files [of QuarterHour] head
    by (cases "journal_with_file events_io (event_capacity_of (st_layout st)) (j_content (st_events st))")
      (simp_all add: open_with_layout_def files_of_def clean_def)
qed

section \<open>Runs\<close>

text \<open>
  What can happen to a storage: it is created on empty files, samples are recorded, refused or fail to be
  written, events are recorded while any native call fails, it is flushed, and it is closed and opened
  again. \<open>steady\<close> says that no sample write has failed. Without it a write to a rollup ring may fail and
  be torn and a raw write may fail before it moves a byte; a raw write that is torn midway is not
  covered. \<open>atomic\<close> says that event records are written whole or not at all. A restart needs a wall clock
  that moved forward between the samples and a raw ring that covers a quarter of an hour.
\<close>

inductive storage_run :: "bool \<Rightarrow> bool \<Rightarrow> storage_layout \<Rightarrow> watchdog_sample list \<Rightarrow> storage \<Rightarrow> bool" for steady atomic layout where
  created: "layouts_ok layout \<Longrightarrow> readable (ios Raw) \<Longrightarrow> honest events_io \<Longrightarrow> \<forall>res. sf_ring files res = Inr [] \<Longrightarrow>
    sf_events files = Inr [] \<Longrightarrow> open_with_layout ios events_io files root layout = Inr st \<Longrightarrow> storage_run steady atomic layout [] st"
| recorded: "storage_run steady atomic layout ss st \<Longrightarrow> sample_ok s \<Longrightarrow> unat (sequence s) = st_next st \<Longrightarrow>
    record_sample ios s st = (Inr (), st') \<Longrightarrow> storage_run steady atomic layout (ss @ [s]) st'"
| refused: "storage_run steady atomic layout ss st \<Longrightarrow> unat (sequence s) \<noteq> st_next st \<Longrightarrow>
    record_sample ios s st = (r, st') \<Longrightarrow> storage_run steady atomic layout ss st'"
| failed: "\<not> steady \<Longrightarrow> storage_run steady atomic layout ss st \<Longrightarrow> st_next st < u64_max \<Longrightarrow>
    record_sample ios s st = (Inl e, st') \<Longrightarrow> st_raw st' = st_raw st \<Longrightarrow> storage_run steady atomic layout ss st'"
| event: "storage_run steady atomic layout ss st \<Longrightarrow> phases_ok atomic event_ios \<Longrightarrow>
    storage_record_event fuel ios event_ios ev st = Some (r, st') \<Longrightarrow> storage_run steady atomic layout ss st'"
| flushed: "storage_run steady atomic layout ss st \<Longrightarrow> flush ios events_io st = (r, st') \<Longrightarrow> storage_run steady atomic layout ss st'"
| reopened: "storage_run steady atomic layout ss st \<Longrightarrow> 900 \<le> capacity (sl_raw layout) \<Longrightarrow>
    sorted_wrt (<) (map (bucket_of (sl_raw layout)) ss) \<Longrightarrow> length ss < 2 ^ 32 \<Longrightarrow> io_ok ios \<Longrightarrow> honest events_io \<Longrightarrow>
    files_of st files \<Longrightarrow> open_with_layout ios events_io files root layout = Inr st' \<Longrightarrow> storage_run steady atomic layout ss st'"

definition events_kept :: "bool \<Rightarrow> storage \<Rightarrow> bool" where
  "events_kept atomic st \<longleftrightarrow> (\<exists>es. journal_keeps atomic (Suc (event_capacity_of (st_layout st))) (st_events st) es)"

lemma record_sample_refused: "unat (sequence s) \<noteq> st_next st \<Longrightarrow> record_sample ios s st = (r, st') \<Longrightarrow> st' = st"
  by (auto simp: record_sample_def split: if_splits sum.splits option.splits)

lemma storage_record_event_frame:
  "storage_record_event fuel ios event_ios ev st = Some (r, st') \<Longrightarrow>
   st' = st\<lparr>st_events := st_events st', st_events_dirty := st_events_dirty st'\<rparr>"
  by (auto simp: storage_record_event_def split: if_splits sum.splits option.splits prod.splits)

lemma storage_record_event_journal:
  "storage_record_event fuel ios event_ios ev st = Some (r, st') \<Longrightarrow>
   st_events st' = st_events st \<or> (\<exists>r'. record_event fuel event_ios ev (st_events st) = Some (r', st_events st'))"
  by (auto simp: storage_record_event_def split: if_splits sum.splits option.splits prod.splits)

lemma record_event_kept:
  assumes "journal_keeps atomic P j es" and "phases_ok atomic ios" and "record_event fuel ios ev j = Some (r, j')"
  shows "\<exists>es'. journal_keeps atomic P j' es'"
proof -
  obtain f where f: "fuel = Suc f" using assms(3) by (cases fuel) auto
  show ?thesis
    using record_event_keeps [OF assms(1,2), of f ev] assms(3) unfolding f
    by (auto simp: journal_keeps_def simp del: record_event.simps split: sum.splits)
qed

lemma record_sample_failed:
  assumes "storage_holds False st ss" and "record_sample ios s st = (Inl e, st')" and "st_next st < u64_max"
    and "st_raw st' = st_raw st"
  shows "storage_holds False st' ss \<and> st_layout st' = st_layout st \<and> st_events st' = st_events st"
proof -
  obtain m mr where m: "push s (st_minute_rollup st) = (m, mr)" by force
  obtain q qr where q: "push s (st_quarter_rollup st) = (q, qr)" by force
  obtain r1 c1 where c1: "write_completed (ios Minute) (layout_of Minute st) (st_minute st) m = (r1, c1)" by force
  obtain r2 c2 where c2: "write_completed (ios QuarterHour) (layout_of QuarterHour st) (st_quarter st) q = (r2, c2)" by force
  have ok: "ring_ok (layout_of Minute st) c1" "ring_ok (layout_of QuarterHour st) c2"
    using assms(1) write_completed_ok [OF _ m c1] write_completed_ok [OF _ q c2] by (simp_all add: storage_holds_def)
  have "st' = st \<or> st' = st\<lparr>st_minute := c1\<rparr> \<or> st' = st\<lparr>st_minute := c1, st_quarter := c2\<rparr>
      \<or> (\<exists>c3. st' = st\<lparr>st_minute := c1, st_quarter := c2, st_raw := c3\<rparr>)"
    using assms(2,3) m q c1 c2
    by (auto simp: record_sample_def Let_def checked_add64_def split: sum.splits if_splits option.splits prod.splits)
  then show ?thesis using assms(1,4) ok by (auto simp: storage_holds_def)
qed

lemma created_holds:
  assumes "layouts_ok layout" and "readable (ios Raw)" and "honest events_io" and "\<forall>res. sf_ring files res = Inr []"
    and "sf_events files = Inr []" and "open_with_layout ios events_io files root layout = Inr st"
  shows "storage_holds steady st [] \<and> st_layout st = layout \<and> events_kept atomic st"
proof -
  have layouts: "layout_ok (sl_raw layout)" "layout_ok (sl_minute layout)" "layout_ok (sl_quarter layout)"
    using assms(1) by (simp_all add: layouts_ok_def)
  obtain raw minute quarter where rings: "with_file (ios Raw) (sl_raw layout) [] = Inr raw"
      "with_file (ios Minute) (sl_minute layout) [] = Inr minute" "with_file (ios QuarterHour) (sl_quarter layout) [] = Inr quarter"
    using assms(4,6) by (auto simp: open_with_layout_def result_simps)
  have empty: "ring_holds (sl_raw layout) raw []" "ring_holds (sl_minute layout) minute []" "ring_holds (sl_quarter layout) quarter []"
    using layouts rings by (auto intro!: ring_holds_empty with_file_new)
  have "latest (ios Raw) (sl_raw layout) raw = Inr None"
    using latest_last [OF empty(1) _ assms(2)] by simp
  then have "storage_holds steady st [] \<and> st_layout st = layout"
    using assms(1,4,6) rings empty ring_holds_ok [OF empty(2)] ring_holds_ok [OF empty(3)]
    by (auto simp: open_with_layout_def result_simps next_after_def rebuild_rollup_def rollup_new_def storage_holds_def
        u64_max_def split: if_splits)
  moreover have "journal_with_file events_io (event_capacity_of layout) [] = Inr (st_events st)"
    using assms(5,6) by (auto simp: open_with_layout_def result_simps)
  then have "journal_run atomic (event_capacity_of layout) [] [] (st_events st)" by (rule journal_run.created [OF assms(3)])
  then have "\<exists>es. journal_keeps atomic (Suc (event_capacity_of layout)) (st_events st) es" using journal_run_keeps by blast
  ultimately show ?thesis by (simp add: events_kept_def)
qed

lemma storage_run_holds:
  "storage_run steady atomic layout ss st \<Longrightarrow> storage_holds steady st ss \<and> st_layout st = layout \<and> events_kept atomic st"
proof (induction rule: storage_run.induct)
  case (created ios events_io files root st)
  then show ?case by (intro created_holds)
next
  case (recorded ss st s ios st')
  then show ?case using record_sample_fresh [of steady st ss s ios st'] by (auto simp: events_kept_def)
next
  case (refused ss st s ios r st')
  then show ?case using record_sample_refused by blast
next
  case (failed ss st ios s e st')
  then show ?case using record_sample_failed [of st ss ios s e st'] by (auto simp: events_kept_def)
next
  case (event ss st event_ios fuel ios ev r st')
  have "storage_holds steady (st\<lparr>st_events := j, st_events_dirty := d\<rparr>) ss = storage_holds steady st ss" for j d
    by (simp add: storage_holds_def)
  then have "storage_holds steady st' ss" "st_layout st' = layout"
    using event.IH storage_record_event_frame [OF event.hyps(3)] by (metis storage.select_convs(1) storage.surjective storage.update_convs(5,13))+
  moreover from this have "events_kept atomic st'"
    using event.IH storage_record_event_journal [OF event.hyps(3)] record_event_kept [OF _ event.hyps(2)] unfolding events_kept_def by metis
  ultimately show ?case by simp
next
  case (flushed ss st ios events_io r st')
  then show ?case by (auto simp: flush_def storage_holds_def events_kept_def split: sum.splits)
next
  case (reopened ss st ios events_io files root st')
  have root: "root \<noteq> []" "length root \<le> 4095"
    using reopened.hyps(8) by (auto simp: open_with_layout_def result_simps)
  have "open_with_layout ios events_io files root (st_layout st) =
      bind_result (journal_with_file events_io (event_capacity_of layout) (j_content (st_events st))) (\<lambda>j. Inr (clean st\<lparr>st_events := j\<rparr>))"
    using reopened root by (subst open_restores [of steady st ss]) auto
  then obtain j where j: "journal_with_file events_io (event_capacity_of layout) (j_content (st_events st)) = Inr j" "st' = clean st\<lparr>st_events := j\<rparr>"
    using reopened.hyps(8) reopened.IH
    by (cases "journal_with_file events_io (event_capacity_of layout) (j_content (st_events st))") auto
  have "\<exists>es. journal_keeps atomic (Suc (event_capacity_of layout)) j es"
    using reopened.IH open_kept [OF _ reopened.hyps(6) j(1)] by (auto simp: events_kept_def journal_keeps_def)
  then show ?case using reopened.IH j(2) by (auto simp: clean_def storage_holds_def events_kept_def)
qed

section \<open>The rollup rings\<close>

lemma runs_from_sorted:
  assumes "cur \<noteq> []" and "\<forall>c \<in> set cur. same_bucket I (hd cur) c" and "sorted (map (time_bucket I) (cur @ ss))"
  shows "sorted_wrt (<) (map (\<lambda>r. time_bucket I (last r)) (runs_from I cur ss))
    \<and> (\<forall>r \<in> set (runs_from I cur ss). time_bucket I (last cur) \<le> time_bucket I (last r))
    \<and> time_bucket I (last (last (runs_from I cur ss))) = time_bucket I (last (cur @ ss))"
  using assms
proof (induction ss arbitrary: cur)
  case Nil
  then show ?case by simp
next
  case (Cons s ss)
  have lastb: "time_bucket I (last cur) = time_bucket I (hd cur)"
    using bspec [OF Cons.prems(2) last_in_set [OF Cons.prems(1)]] by (simp add: same_bucket_def)
  show ?case
  proof (cases "same_bucket I (hd cur) s")
    case True
    have "runs_from I cur (s # ss) = runs_from I (cur @ [s]) ss" using True by (simp add: same_bucket_def)
    moreover have "time_bucket I (last (cur @ [s])) = time_bucket I (last cur)" using True lastb by (simp add: same_bucket_def)
    moreover have "\<forall>c \<in> set (cur @ [s]). same_bucket I (hd (cur @ [s])) c" using True Cons.prems(1,2) by simp
    ultimately show ?thesis using Cons.IH [of "cur @ [s]"] Cons.prems(3) by simp
  next
    case False
    have "time_bucket I (hd cur) \<le> time_bucket I s"
      using Cons.prems(1,3) hd_in_set [of cur] by (auto simp: sorted_append)
    with False lastb have less: "time_bucket I (last cur) < time_bucket I s" by (simp add: same_bucket_def)
    have "runs_from I cur (s # ss) = cur # runs_from I [s] ss" using False by (simp add: same_bucket_def)
    moreover have "sorted (map (time_bucket I) ([s] @ ss))" using Cons.prems(3) by (simp add: sorted_append)
    ultimately show ?thesis
      using Cons.IH [of "[s]"] less by (auto simp: same_bucket_def [of I s s] runs_from_nonempty)
  qed
qed

lemma bucket_runs_sorted:
  assumes "sorted (map (time_bucket I) ss)" and "ss \<noteq> []"
  shows "sorted_wrt (<) (map (\<lambda>r. time_bucket I (last r)) (butlast (bucket_runs I ss)))"
    and "\<And>r. r \<in> set (butlast (bucket_runs I ss)) \<Longrightarrow> time_bucket I (last r) < time_bucket I (last ss)"
proof -
  obtain s rest where ss: "ss = s # rest" using assms(2) by (cases ss) auto
  have all: "sorted_wrt (<) (map (\<lambda>r. time_bucket I (last r)) (bucket_runs I ss))"
    "time_bucket I (last (last (bucket_runs I ss))) = time_bucket I (last ss)" "bucket_runs I ss \<noteq> []"
    using runs_from_sorted [of "[s]" I rest] assms(1)
    by (simp_all add: ss bucket_runs_def same_bucket_def [of I s s] runs_from_nonempty)
  have runs: "bucket_runs I ss = butlast (bucket_runs I ss) @ [last (bucket_runs I ss)]" using all(3) by simp
  have "sorted_wrt (<) (map (\<lambda>r. time_bucket I (last r)) (butlast (bucket_runs I ss) @ [last (bucket_runs I ss)]))"
    using all(1) runs by simp
  then show "sorted_wrt (<) (map (\<lambda>r. time_bucket I (last r)) (butlast (bucket_runs I ss)))"
    "\<And>r. r \<in> set (butlast (bucket_runs I ss)) \<Longrightarrow> time_bucket I (last r) < time_bucket I (last ss)"
    using all(2) by (auto simp: sorted_wrt_append)
qed

lemma summary_bucket:
  assumes "interval_milliseconds l = I" and "0 < I"
  shows "bucket_of l (summary I run) = time_bucket I (last run)"
proof -
  have "time_bucket I (last run) * I \<le> unat (unix_milliseconds (last run))" by simp
  also have "\<dots> < 2 ^ 64" using unsigned_less [of "unix_milliseconds (last run)", where 'a = nat] by simp
  finally have "unat (of_nat (time_bucket I (last run) * I) :: u64) = time_bucket I (last run) * I"
    by (simp add: unat_of_nat take_bit_nat_eq_self del: of_nat_mult)
  then show ?thesis using assms by (simp add: bucket_of_def summary_def del: of_nat_mult)
qed

lemma find_sorted: "sorted_wrt (<) (map f xs) \<Longrightarrow> x \<in> set xs \<Longrightarrow> find (\<lambda>t. f t = (f x :: nat)) xs = Some x"
  by (induction xs) auto

lemma rollup_ring_view:
  assumes "ring_holds l c (fst (push_all ss (empty_rollup I)))" and "interval_milliseconds l = I" and "0 < I"
    and "sorted (map (time_bucket I) ss)" and "\<forall>s \<in> set ss. sample_ok s" and "length ss < 2 ^ 32"
    and "run \<in> set (butlast (bucket_runs I ss))" and "time_bucket I (last ss) \<le> time_bucket I (last run) + capacity l"
  shows "bucket_view l c (time_bucket I (last run)) = Some (summary I run)"
proof -
  let ?done = "map (summary I) (butlast (bucket_runs I ss))"
  have ne: "ss \<noteq> []" using assms(7) by (auto simp: bucket_runs_def)
  have "fst (push_all ss (empty_rollup I)) = ?done" using push_all_stream(1) [OF ne assms(5,6)] by simp
  then have holds: "ring_holds l c ?done" using assms(1) by simp
  have buckets: "map (bucket_of l) ?done = map (\<lambda>r. time_bucket I (last r)) (butlast (bucket_runs I ss))"
    using summary_bucket [OF assms(2,3)] by simp
  note sorted = bucket_runs_sorted [OF assms(4) ne]
  have srt: "sorted_wrt (<) (map (bucket_of l) ?done)" unfolding buckets by (rule sorted(1))
  have "bucket_of l t < time_bucket I (last run) + capacity l" if "t \<in> set ?done" for t
    using that summary_bucket [OF assms(2,3)] assms(8) by (auto dest!: sorted(2))
  then have "bucket_view l c (time_bucket I (last run)) = find (\<lambda>t. bucket_of l t = time_bucket I (last run)) ?done"
    by (intro ring_holds_view [OF holds srt]) blast
  also have "\<dots> = Some (summary I run)"
    using find_sorted [OF srt, of "summary I run"] assms(7) summary_bucket [OF assms(2,3), of run] by simp
  finally show ?thesis .
qed

section \<open>Outcomes of recording\<close>

lemma find_sequence_spec:
  "ring_ok l c \<Longrightarrow> readable io \<Longrightarrow> find_sequence io l c sq = Inr (find (\<lambda>s. sequence s = sq) (retained l c))"
  by (simp add: find_sequence_def scan_valid_records_spec run_keep_sequence)

lemma storage_holds_raw:
  assumes "storage_holds steady st ss"
  shows "ring_holds (layout_of Raw st) (st_raw st) ss" "ring_ok (layout_of Raw st) (st_raw st)"
  using assms ring_holds_ok by (auto simp: storage_holds_def)

lemma find_replay:
  assumes "storage_holds steady st ss"
  shows "find (\<lambda>t. sequence t = sequence s) (retained (layout_of Raw st) (st_raw st)) = Some s
    \<longleftrightarrow> s \<in> set (retained (layout_of Raw st) (st_raw st))"
proof
  assume "s \<in> set (retained (layout_of Raw st) (st_raw st))"
  moreover from this obtain t where t: "find (\<lambda>t. sequence t = sequence s) (retained (layout_of Raw st) (st_raw st)) = Some t"
    by (cases "find (\<lambda>t. sequence t = sequence s) (retained (layout_of Raw st) (st_raw st))") (auto simp: find_None_iff)
  moreover have "set (retained (layout_of Raw st) (st_raw st)) \<subseteq> set ss"
    by (rule ring_holds_retained [OF storage_holds_raw(1) [OF assms]])
  ultimately have "s \<in> set ss" "t \<in> set ss" "sequence t = sequence s" by (auto simp: find_Some_iff)
  moreover have "distinct (map (\<lambda>s. unat (sequence s)) ss)" using assms by (simp only: storage_holds_def distinct_upt)
  ultimately have "t = s" unfolding distinct_map by (metis inj_onD)
  then show "find (\<lambda>t. sequence t = sequence s) (retained (layout_of Raw st) (st_raw st)) = Some s" using t by simp
qed (auto simp: find_Some_iff)

lemma write_completed_succeeds:
  assumes "ring_ok l c" and "push s r = (out, r')" and "writable io"
  shows "\<exists>c'. write_completed io l c out = (Inr (), c')"
proof (cases out)
  case None
  then show ?thesis by (simp add: write_completed_def)
next
  case (Some x)
  obtain res c' where run: "ring_write io l c x = (res, c')" by force
  have "res = Inr ()"
    using ring_write_spec(4) [OF assms(1) _ run assms(3)] push_completed_ok assms(2) Some by blast
  then show ?thesis using run Some by (simp add: write_completed_def)
qed

lemma record_sample_succeeds:
  assumes "storage_holds steady st ss" and "sample_ok s" and "unat (sequence s) = st_next st" and "st_next st < u64_max"
    and "\<forall>res. writable (ios res)"
  shows "\<exists>st'. record_sample ios s st = (Inr (), st')"
proof -
  have rings: "ring_ok (layout_of res st) (content_of res st)" for res
    using assms(1) by (cases res) (auto simp: storage_holds_def intro: ring_holds_ok)
  obtain m mr where m: "push s (st_minute_rollup st) = (m, mr)" by force
  obtain q qr where q: "push s (st_quarter_rollup st) = (q, qr)" by force
  obtain c1 where "write_completed (ios Minute) (layout_of Minute st) (st_minute st) m = (Inr (), c1)"
    using write_completed_succeeds [OF rings [of Minute] m] assms(5) by auto
  moreover obtain c2 where "write_completed (ios QuarterHour) (layout_of QuarterHour st) (st_quarter st) q = (Inr (), c2)"
    using write_completed_succeeds [OF rings [of QuarterHour] q] assms(5) by auto
  moreover obtain c3 where "ring_write (ios Raw) (layout_of Raw st) (st_raw st) s = (Inr (), c3)"
    using ring_write_spec(4) [OF rings [of Raw] assms(2), of "ios Raw"] assms(5) by (cases "ring_write (ios Raw) (layout_of Raw st) (st_raw st) s") auto
  ultimately show ?thesis
    using m q assms(3,4) by (simp add: record_sample_def Let_def checked_add64_def)
qed

lemma record_sample_failure:
  assumes "record_sample ios s st = (Inl e, st')" and "st_next st < u64_max"
  shows "st' = st\<lparr>st_raw := st_raw st', st_minute := st_minute st', st_quarter := st_quarter st'\<rparr>"
  using assms
  by (auto simp: record_sample_def Let_def checked_add64_def split: if_splits sum.splits prod.splits option.splits)

section \<open>A small storage\<close>

definition small_layout :: storage_layout where
  "small_layout = \<lparr>sl_raw = \<lparr>interval_milliseconds = 1000, capacity = 900\<rparr>,
     sl_minute = \<lparr>interval_milliseconds = 60000, capacity = 2\<rparr>, sl_quarter = \<lparr>interval_milliseconds = 900000, capacity = 2\<rparr>\<rparr>"

definition first_sample :: watchdog_sample where "first_sample = small_sample\<lparr>sequence := 1\<rparr>"
definition second_sample :: watchdog_sample where "second_sample = small_sample\<lparr>sequence := 2, unix_milliseconds := 122000\<rparr>"

lemma small_samples_ok: "sample_ok first_sample" "sample_ok second_sample"
  using small_sample_ok by (simp_all add: first_sample_def second_sample_def)

lemma small_layout_ok: "layouts_ok small_layout"
  by (simp add: small_layout_def layouts_ok_def layout_ok_def byte_length_def WATCHDOG_RECORD_BYTES_def
      WATCHDOG_RAW_INTERVAL_MILLISECONDS_def WATCHDOG_MINUTE_INTERVAL_MILLISECONDS_def WATCHDOG_QUARTER_INTERVAL_MILLISECONDS_def)

definition new_files :: storage_files where
  "new_files = \<lparr>sf_directory = Inr (), sf_ring = (\<lambda>_. Inr []), sf_events = Inr [], sf_directory_sync = True\<rparr>"


lemma small_capacity: "capacity (sl_raw small_layout) = 900"
  by (simp add: small_layout_def)

lemma full_io_calls: "length_ok full_io" "set_length_ok full_io"
  by (simp_all add: full_io_def)

lemma with_file_grows: "length_ok io \<Longrightarrow> set_length_ok io \<Longrightarrow> with_file io l [] = Inr (replicate (byte_length l) 0)"
  by (simp add: with_file_def file_length_def set_length_def)

lemma journal_created:
  assumes "event_file_bytes L = Inr b"
  shows "\<exists>j. journal_with_file full_io L [] = Inr j \<and> journal_holds (Suc L) j [] \<and> \<not> j_uncertain j"
  by (rule open_holds [OF assms, where pr = Quiet])
    (use fresh_file [of "Suc L"] event_capacity(2) [OF assms] full_io_ok in \<open>simp_all add: window_def u64_max_def full_io_def\<close>)

lemma small_storage_created: "\<exists>st. storage_run steady atomic small_layout [] st \<and> journal_holds 901 (st_events st) []"
proof -
  have b: "event_file_bytes 900 = Inr (901 * 64)"
    by (simp add: event_file_bytes_def event_physical_capacity_def checked_add64_def checked_mul64_def
        WATCHDOG_EVENT_RECORD_BYTES_def u64_max_def)
  obtain j where j: "journal_with_file full_io 900 [] = Inr j" "journal_holds 901 j []" using journal_created [OF b] by auto
  let ?raw = "sl_raw small_layout" and ?ios = "\<lambda>_ :: resolution. full_io"
  have ok: "layout_ok ?raw" using small_layout_ok by (simp add: layouts_ok_def)
  have "latest full_io ?raw (replicate (byte_length ?raw) 0) = Inr None"
    using latest_last [OF ring_holds_empty [OF zero_ring_empty [OF ok]] _ full_io_ok(1)] by simp
  then have "open_with_layout ?ios full_io new_files ''/var'' small_layout = Inr
      \<lparr>st_layout = small_layout, st_raw = replicate (byte_length ?raw) 0, st_minute = replicate (byte_length (sl_minute small_layout)) 0,
       st_quarter = replicate (byte_length (sl_quarter small_layout)) 0, st_events = j,
       st_minute_rollup = empty_rollup WATCHDOG_MINUTE_INTERVAL_MILLISECONDS, st_quarter_rollup = empty_rollup WATCHDOG_QUARTER_INTERVAL_MILLISECONDS,
       st_latest = None, st_next = 1, st_raw_dirty = False, st_minute_dirty = False, st_quarter_dirty = False, st_events_dirty = False\<rparr>"
    using with_file_grows [of full_io] j(1) small_capacity
    by (simp add: open_with_layout_def new_files_def full_io_calls next_after_def rebuild_rollup_def rollup_new_def interval_seconds)
  from storage_run.created [OF small_layout_ok _ _ _ _ this] j(2) show ?thesis
    using full_io_ok readable_honest [OF full_io_ok(1)] by (fastforce simp: new_files_def)
qed

lemma small_storage_recorded: "\<exists>st. storage_run steady atomic small_layout [first_sample, second_sample] st \<and> journal_holds 901 (st_events st) []"
proof -
  let ?ios = "\<lambda>_ :: resolution. full_io"
  have step: "\<exists>st'. storage_run steady atomic small_layout (ss @ [s]) st' \<and> st_events st' = st_events st"
    if run: "storage_run steady atomic small_layout ss st" and s: "sample_ok s" "unat (sequence s) = Suc (length ss)" "length ss < 2" for ss st s
  proof -
    have h: "storage_holds steady st ss" "st_next st = Suc (length ss)" using storage_run_holds [OF run] by (auto simp: storage_holds_def)
    then obtain st' where st': "record_sample ?ios s st = (Inr (), st')"
      using record_sample_succeeds [of steady st ss s ?ios] s full_io_ok by (auto simp: u64_max_def)
    have "st_events st' = st_events st"
      using st' s(2) h(2) by (auto simp: record_sample_def Let_def split: if_splits sum.splits prod.splits option.splits)
    then show ?thesis using storage_run.recorded [OF run s(1) _ st'] s(2) h(2) by auto
  qed
  obtain st0 where st0: "storage_run steady atomic small_layout [] st0" "journal_holds 901 (st_events st0) []" using small_storage_created by blast
  obtain st1 where st1: "storage_run steady atomic small_layout [first_sample] st1" "st_events st1 = st_events st0"
    using step [OF st0(1) small_samples_ok(1)] by (auto simp: first_sample_def)
  show ?thesis
    using step [OF st1(1) small_samples_ok(2)] st0(2) st1(2) by (auto simp: second_sample_def)
qed

lemma small_buckets:
  "sorted_wrt (<) (map (bucket_of (sl_raw small_layout)) [first_sample, second_sample])"
  "bucket_runs 60000 [first_sample, second_sample] = [[first_sample], [second_sample]]"
  "unat (unix_milliseconds first_sample) = 61500" "unat (unix_milliseconds second_sample) = 122000"
  by (simp_all add: first_sample_def second_sample_def small_sample_def bucket_of_def small_layout_def bucket_runs_def)

section \<open>Properties of storage\<close>



text \<open>
  every outcome of recording a sample. A sequence below the head succeeds exactly when the ring
  still has that very sample, and changes nothing; a sequence beyond the head is refused and changes
  nothing; at the head the sample is either recorded, or the call fails and everything but the bytes
  of the rings is as before, so it can be repeated. It is recorded when the writes make progress.
\<close>

theorem record_sample_outcomes:
  assumes "storage_run steady atomic layout ss st" and "sample_ok s" and "readable (ios Raw)"
    and "record_sample ios s st = (r, st')" and "Suc (length ss) < u64_max"
  shows "if unat (sequence s) \<le> length ss
    then st' = st \<and> (r = Inr () \<longleftrightarrow> s \<in> set (retained (sl_raw layout) (st_raw st)))
    else if unat (sequence s) \<noteq> Suc (length ss) then st' = st \<and> (\<exists>reason. r = Inl (InvalidContract reason))
    else (r = Inr () \<and> storage_run steady atomic layout (ss @ [s]) st'
        \<or> (\<exists>e. r = Inl e) \<and> st' = st\<lparr>st_raw := st_raw st', st_minute := st_minute st', st_quarter := st_quarter st'\<rparr>)
      \<and> ((\<forall>res. writable (ios res)) \<longrightarrow> r = Inr ())"
proof -
  have h: "storage_holds steady st ss" and lay: "st_layout st = layout" using storage_run_holds [OF assms(1)] by auto
  then have head: "st_next st = Suc (length ss)" by (simp add: storage_holds_def)
  have found: "find_sequence (ios Raw) (sl_raw layout) (st_raw st) (sequence s) =
      Inr (find (\<lambda>t. sequence t = sequence s) (retained (sl_raw layout) (st_raw st)))"
    using find_sequence_spec [OF storage_holds_raw(2) [OF h] assms(3)] lay by simp
  show ?thesis
  proof (cases "unat (sequence s) = Suc (length ss)")
    case True
    have "r = Inr () \<or> (\<exists>e. r = Inl e)" by (cases r) auto
    moreover have "storage_run steady atomic layout (ss @ [s]) st'" if "r = Inr ()"
      using storage_run.recorded [OF assms(1,2)] that assms(4) True head by simp
    moreover have "st' = st\<lparr>st_raw := st_raw st', st_minute := st_minute st', st_quarter := st_quarter st'\<rparr>" if "r = Inl e" for e
      using record_sample_failure [of ios s st e st'] that assms(4,5) head by simp
    moreover have "r = Inr ()" if "\<forall>res. writable (ios res)"
      using record_sample_succeeds [OF h assms(2) _ _ that] True head assms(4,5) by auto
    ultimately show ?thesis using True by auto
  next
    case False
    then show ?thesis
      using assms(4) head lay found find_replay [OF h, of s] by (auto simp: record_sample_def split: if_splits)
  qed
qed

theorem record_sample_outcomes_witness:
  "\<exists>st st' err. storage_run True True small_layout [first_sample, second_sample] st
     \<and> record_sample (\<lambda>_. full_io) second_sample st = (Inr (), st)
     \<and> record_sample (\<lambda>_. full_io) (second_sample\<lparr>sequence := 3, unix_milliseconds := 123000\<rparr>) st = (Inr (), st')
     \<and> record_sample (\<lambda>_. full_io) (second_sample\<lparr>sequence := 9\<rparr>) st = (Inl err, st)"
proof -
  let ?third = "second_sample\<lparr>sequence := 3, unix_milliseconds := 123000\<rparr>" and ?gap = "second_sample\<lparr>sequence := 9\<rparr>"
  obtain st where st: "storage_run True True small_layout [first_sample, second_sample] st" using small_storage_recorded by blast
  have h: "storage_holds True st [first_sample, second_sample]" "st_layout st = small_layout" using storage_run_holds [OF st] by auto
  obtain r1 s1 where 1: "record_sample (\<lambda>_. full_io) second_sample st = (r1, s1)" by force
  obtain r2 s2 where 2: "record_sample (\<lambda>_. full_io) ?third st = (r2, s2)" by force
  obtain r3 s3 where 3: "record_sample (\<lambda>_. full_io) ?gap st = (r3, s3)" by force
  have "second_sample \<in> set (retained (sl_raw small_layout) (st_raw st))"
    using last_retained [OF storage_holds_raw(1) [OF h(1)]] h(2) by simp
  moreover have "Suc (length [first_sample, second_sample]) < u64_max" by (simp add: u64_max_def)
  ultimately show ?thesis
    using record_sample_outcomes [OF st small_samples_ok(2) full_io_ok(1) 1] st 1 2 3
      record_sample_outcomes [OF st _ full_io_ok(1) 2] record_sample_outcomes [OF st _ full_io_ok(1) 3] small_samples_ok full_io_ok
    by (auto simp: second_sample_def)
qed

text \<open>
  the rollup rings are exact. For every maximal run of recorded samples in one minute or quarter
  of an hour that a later sample has closed, the ring reads back the exact summary of that run, as
  long as the run is within the capacity of the ring.
\<close>

theorem rollup_rings_exact:
  assumes "storage_run True atomic layout ss st" and "sorted_wrt (<) (map (bucket_of (sl_raw layout)) ss)" and "length ss < 2 ^ 32"
    and "readable io" and "res \<noteq> Raw" and "interval = interval_milliseconds (layout_of res st)"
    and "run \<in> set (butlast (bucket_runs interval ss))"
    and "unat (unix_milliseconds (last ss)) div interval \<le> unat (unix_milliseconds (last run)) div interval + capacity (layout_of res st)"
  shows "read_bucket io (layout_of res st) (content_of res st) (unat (unix_milliseconds (last run)) div interval)
    = Inr (Some (summary interval run))"
proof -
  have h: "storage_holds True st ss" and lay: "st_layout st = layout" using storage_run_holds [OF assms(1)] by auto
  then have ok: "layouts_ok layout" and samples: "\<forall>s \<in> set ss. sample_ok s" by (auto simp: storage_holds_def ring_holds_def)
  have "interval = (if res = Minute then WATCHDOG_MINUTE_INTERVAL_MILLISECONDS else WATCHDOG_QUARTER_INTERVAL_MILLISECONDS)"
    using assms(5,6) ok lay by (cases res) (simp_all add: layouts_ok_def)
  moreover from this have ring: "ring_holds (layout_of res st) (content_of res st) (fst (push_all ss (empty_rollup interval)))"
    using assms(5) h by (cases res) (simp_all add: storage_holds_def)
  ultimately obtain k where k: "interval = 1000 * k" "0 < interval"
    unfolding interval_seconds by (cases "res = Minute") auto
  have "sorted (map (time_bucket interval) ss)"
    unfolding k(1) using assms(2) ok by (intro sorted_time_buckets) (auto simp: layouts_ok_def WATCHDOG_RAW_INTERVAL_MILLISECONDS_def)
  then have "bucket_view (layout_of res st) (content_of res st) (time_bucket interval (last run)) = Some (summary interval run)"
    using assms(3,6-8) k ring samples by (intro rollup_ring_view) auto
  then show ?thesis using read_bucket_view [OF ring_holds_ok [OF ring] assms(4)] by simp
qed

theorem rollup_rings_exact_witness:
  "\<exists>st. storage_run True True small_layout [first_sample, second_sample] st
     \<and> read_bucket full_io (sl_minute small_layout) (st_minute st) 1 = Inr (Some (summary 60000 [first_sample]))"
proof -
  obtain st where st: "storage_run True True small_layout [first_sample, second_sample] st" using small_storage_recorded by blast
  have lay: "layout_of Minute st = sl_minute small_layout" using storage_run_holds [OF st] by simp
  have "read_bucket full_io (layout_of Minute st) (content_of Minute st) (unat (unix_milliseconds (last [first_sample])) div 60000)
      = Inr (Some (summary 60000 [first_sample]))"
    by (rule rollup_rings_exact [OF st small_buckets(1) _ full_io_ok(1)])
      (simp_all only: small_buckets lay, simp_all add: small_layout_def small_buckets)
  then show ?thesis using st lay by (auto simp: small_buckets)
qed

text \<open>
  safety events refer to samples. In every reachable storage an event is accepted exactly when the
  raw ring still has a sample with its sequence; an accepted event whose writes succeed is in the
  replay window of the journal afterwards, any other leaves the storage as it was.
\<close>

theorem storage_events_reference_samples:
  assumes "storage_run steady atomic layout ss st" and "readable (ios Raw)" and "journal_holds (Suc L) (st_events st) es"
    and "phases_ok atomic event_ios" and "calls_succeed event_ios" and "identity_from_event ev = Inr e" and "Suc (length es) < u64_max"
  shows "\<exists>r st'. storage_record_event (Suc fuel) ios event_ios ev st = Some (r, st')
    \<and> (if \<exists>s \<in> set (retained (sl_raw layout) (st_raw st)). sequence s = ev_sequence ev
       then r = Inr () \<and> (\<exists>es'. journal_holds (Suc L) (st_events st') es' \<and> e \<in> set (window (Suc L) es'))
       else r = Inl (InvalidContract ''Watchdog event does not reference a retained sample'') \<and> st' = st)"
proof -
  have h: "storage_holds steady st ss" and lay: "st_layout st = layout" using storage_run_holds [OF assms(1)] by auto
  have raw: "ring_holds (sl_raw layout) (st_raw st) ss" using storage_holds_raw(1) [OF h] lay by simp
  let ?found = "find (\<lambda>s. sequence s = ev_sequence ev) (retained (sl_raw layout) (st_raw st))"
  let ?retained = "\<exists>s \<in> set (retained (sl_raw layout) (st_raw st)). sequence s = ev_sequence ev"
  have scan: "find_sequence (ios Raw) (layout_of Raw st) (st_raw st) (ev_sequence ev) = Inr ?found"
    using find_sequence_spec [OF ring_holds_ok [OF raw] assms(2)] lay by simp
  have found: "(\<exists>s. ?found = Some s) \<longleftrightarrow> ?retained"
    by (cases ?found) (auto simp: find_None_iff find_Some_iff)
  have newest: "?retained" if "st_latest st = Some s" "sequence s = ev_sequence ev" for s
    using that h last_retained [OF raw] by (auto simp: storage_holds_def split: if_splits)
  obtain b j es' where rec: "record_event (Suc fuel) event_ios ev (st_events st) = Some (Inr b, j)"
      "journal_holds (Suc L) j es'" "e \<in> set (window (Suc L) es')"
  proof -
    have "2 < Suc L" using assms(3) by (simp add: journal_holds_def)
    then show thesis
      using that record_event_succeeds [OF assms(3-7), of fuel] window_snoc_mem [of "Suc L" e es]
      by (auto split: if_splits simp del: record_event.simps)
  qed
  show ?thesis
  proof (cases ?retained)
    case True
    then have "storage_record_event (Suc fuel) ios event_ios ev st =
        Some (Inr (), st\<lparr>st_events := j, st_events_dirty := st_events_dirty st \<or> b\<rparr>)"
      using scan found rec(1) by (auto simp: storage_record_event_def simp del: record_event.simps)
    then show ?thesis using True rec(2,3) by auto
  next
    case False
    then have "storage_record_event (Suc fuel) ios event_ios ev st =
        Some (Inl (InvalidContract ''Watchdog event does not reference a retained sample''), st)"
      using scan found newest by (auto simp: storage_record_event_def simp del: record_event.simps)
    then show ?thesis using False by auto
  qed
qed

theorem storage_events_reference_samples_witness:
  "\<exists>st st'. storage_run True True small_layout [first_sample, second_sample] st
     \<and> storage_record_event 1 (\<lambda>_. full_io) (\<lambda>_. full_io) (small_event\<lparr>ev_sequence := 2\<rparr>) st = Some (Inr (), st')"
proof -
  obtain st where st: "storage_run True True small_layout [first_sample, second_sample] st" "journal_holds 901 (st_events st) []"
    using small_storage_recorded by blast
  let ?ev = "small_event\<lparr>ev_sequence := 2\<rparr>"
  have h: "storage_holds True st [first_sample, second_sample]" "st_layout st = small_layout" using storage_run_holds [OF st(1)] by auto
  have "second_sample \<in> set (retained (sl_raw small_layout) (st_raw st))"
    using last_retained [OF storage_holds_raw(1) [OF h(1)]] h(2) by simp
  moreover have "sequence second_sample = ev_sequence ?ev" by (simp add: second_sample_def)
  ultimately have "\<exists>s \<in> set (retained (sl_raw small_layout) (st_raw st)). sequence s = ev_sequence ?ev" by blast
  moreover have "identity_from_event ?ev = Inr (small_identity\<lparr>id_sequence := 2\<rparr>)"
    by (simp add: identity_from_event_def small_event_def small_identity_def kind_of_string_def reason_of_string_def
        validate_identity_def closed_combination_def is_hex_def list_all_iff Let_def)
  ultimately show ?thesis
    using storage_events_reference_samples [OF st(1) full_io_ok(1), of 900 "[]" "\<lambda>_. full_io" ?ev _ 0] st full_phases
    by (auto simp: u64_max_def)
qed

end
