(* ===== verification/CoreText.thy ===== *)
theory CoreText
  imports Prelude
begin

text \<open>
  Text. A Rust \<open>str\<close> is the list of its UTF-8 bytes, so that \<open>len\<close> is \<open>length\<close>. The functions of the
  standard library that work on characters read them with \<open>chars\<close>. The validation of identities and
  names (\<open>core/interface/src/li_identity.rs\<close>, \<open>li_value.rs\<close>), decimal numbers and the lowercase
  hexadecimal form of bytes follow, with the round trips that the components use.
\<close>

section \<open>Bytes and decimal digits\<close>

function decimal :: "nat \<Rightarrow> byte list" where
  "decimal n = (if n < 10 then [of_nat (48 + n)] else decimal (n div 10) @ [of_nat (48 + n mod 10)])"
  by pat_completeness auto
termination by (relation "measure id") auto

declare decimal.simps [simp del]

definition ascii :: "string \<Rightarrow> byte list" where
  "ascii s = map of_char s"

definition decimal_text :: "nat \<Rightarrow> string" where
  "decimal_text n = map (\<lambda>b. char_of (unat b)) (decimal n)"

definition is_ascii_digit :: "byte \<Rightarrow> bool" where
  "is_ascii_digit b \<longleftrightarrow> 48 \<le> b \<and> b \<le> 57"

definition digits_value :: "byte list \<Rightarrow> nat" where
  "digits_value = foldl (\<lambda>n b. 10 * n + (unat b - 48)) 0"

section \<open>Characters\<close>

text \<open>The scalar values of a text. Bytes that are not UTF-8 do not occur in a \<open>str\<close>; they read as the replacement character.\<close>

definition utf8_tail :: "char \<Rightarrow> nat" where
  "utf8_tail c = of_char c mod 64"

fun chars :: "string \<Rightarrow> nat list" where
  "chars [] = []"
| "chars (a # r) =
     (if of_char a < (128 :: nat) then of_char a # chars r
      else if of_char a < (224 :: nat)
      then (case r of b # r' \<Rightarrow> ((of_char a mod 32) * 64 + utf8_tail b) # chars r' | _ \<Rightarrow> [65533])
      else if of_char a < (240 :: nat)
      then (case r of b # c # r' \<Rightarrow> ((of_char a mod 16) * 4096 + utf8_tail b * 64 + utf8_tail c) # chars r'
                    | _ \<Rightarrow> [65533])
      else (case r of b # c # d # r' \<Rightarrow>
                        ((of_char a mod 8) * 262144 + utf8_tail b * 4096 + utf8_tail c * 64 + utf8_tail d) # chars r'
                    | _ \<Rightarrow> [65533]))"

definition is_whitespace :: "nat \<Rightarrow> bool" where
  "is_whitespace c \<longleftrightarrow> 9 \<le> c \<and> c \<le> 13 \<or> c = 32 \<or> c = 133 \<or> c = 160 \<or> c = 5760 \<or> 8192 \<le> c \<and> c \<le> 8202
     \<or> c = 8232 \<or> c = 8233 \<or> c = 8239 \<or> c = 8287 \<or> c = 12288"

definition is_control :: "nat \<Rightarrow> bool" where
  "is_control c \<longleftrightarrow> c < 32 \<or> 127 \<le> c \<and> c < 160"

text \<open>\<open>value.trim() == value\<close>.\<close>

definition is_trimmed :: "string \<Rightarrow> bool" where
  "is_trimmed s \<longleftrightarrow> (case chars s of [] \<Rightarrow> True | c # cs \<Rightarrow> \<not> is_whitespace c \<and> \<not> is_whitespace (last (c # cs)))"

definition is_char_boundary :: "string \<Rightarrow> nat \<Rightarrow> bool" where
  "is_char_boundary s n \<longleftrightarrow>
     n = 0 \<or> n = length s \<or> n < length s \<and> \<not> (128 \<le> (of_char (s ! n) :: nat) \<and> of_char (s ! n) < (192 :: nat))"

section \<open>Identities and names\<close>

definition lower_hex_char :: "char \<Rightarrow> bool" where
  "lower_hex_char c \<longleftrightarrow> (48 \<le> (of_char c :: nat) \<and> of_char c \<le> (57 :: nat)) \<or> (97 \<le> (of_char c :: nat) \<and> of_char c \<le> (102 :: nat))"

definition is_lower_hex :: "string \<Rightarrow> nat \<Rightarrow> bool" where
  "is_lower_hex value len \<longleftrightarrow> length value = len \<and> list_all lower_hex_char value"

definition is_bounded_text :: "string \<Rightarrow> nat \<Rightarrow> bool \<Rightarrow> bool" where
  "is_bounded_text value maximum_bytes allow_whitespace \<longleftrightarrow>
     value \<noteq> [] \<and> length value \<le> maximum_bytes \<and> is_trimmed value
     \<and> \<not> list_ex is_control (chars value)
     \<and> (allow_whitespace \<or> \<not> list_ex is_whitespace (chars value))"

definition name_first_char :: "char \<Rightarrow> bool" where
  "name_first_char c \<longleftrightarrow> (97 \<le> (of_char c :: nat) \<and> of_char c \<le> (122 :: nat)) \<or> (48 \<le> (of_char c :: nat) \<and> of_char c \<le> (57 :: nat))"

definition is_technical_name :: "string \<Rightarrow> bool" where
  "is_technical_name value \<longleftrightarrow>
     (case value of [] \<Rightarrow> False
      | c # cs \<Rightarrow> name_first_char c \<and> length value \<le> 64
          \<and> list_all (\<lambda>b. name_first_char b \<or> b \<in> {CHR ''.'', CHR ''_'', CHR ''-''}) cs)"

section \<open>Hexadecimal text\<close>

definition hex_alphabet :: string where
  "hex_alphabet = ''0123456789abcdef''"

definition hexadecimal :: "byte list \<Rightarrow> string" where
  "hexadecimal bs = concat (map (\<lambda>b. [hex_alphabet ! unat (drop_bit 4 b), hex_alphabet ! unat (b AND 15)]) bs)"

definition hexadecimal_nibble :: "char \<Rightarrow> byte option" where
  "hexadecimal_nibble c =
     (if 48 \<le> (of_char c :: nat) \<and> of_char c \<le> (57 :: nat) then Some (of_char c - 48)
      else if 97 \<le> (of_char c :: nat) \<and> of_char c \<le> (102 :: nat) then Some (of_char c - 97 + 10)
      else None)"

fun decode_pairs :: "string \<Rightarrow> byte list option" where
  "decode_pairs (a # b # r) =
     (case (hexadecimal_nibble a, hexadecimal_nibble b, decode_pairs r) of
        (Some hi, Some lo, Some bs) \<Rightarrow> Some ((push_bit 4 hi OR lo) # bs)
      | _ \<Rightarrow> None)"
| "decode_pairs _ = Some []"

definition decode_hexadecimal :: "nat \<Rightarrow> string \<Rightarrow> byte list option" where
  "decode_hexadecimal len value = (if length value \<noteq> len * 2 then None else decode_pairs value)"

section \<open>Lemmas\<close>

lemma digit_bytes: "d < 10 \<Longrightarrow> unat (of_nat (48 + d) :: byte) = 48 + d"
  by (simp add: unat_of_nat del: of_nat_add)

lemma decimal_digits: "list_all is_ascii_digit (decimal n) \<and> decimal n \<noteq> []"
proof (induction n rule: decimal.induct)
  case (1 n)
  have digit: "is_ascii_digit (of_nat (48 + d))" if "d < 10" for d
    using that digit_bytes [OF that] by (simp add: is_ascii_digit_def word_le_nat_alt)
  show ?case
  proof (cases "n < 10")
    case True
    then show ?thesis using digit [of n] by (simp add: decimal.simps [of n] del: of_nat_add)
  next
    case False
    then show ?thesis using 1 digit [of "n mod 10"] by (simp add: decimal.simps [of n] del: of_nat_add)
  qed
qed

lemma digits_value_decimal: "digits_value (decimal n) = n"
proof (induction n rule: decimal.induct)
  case (1 n)
  show ?case
  proof (cases "n < 10")
    case True
    then show ?thesis using digit_bytes [of n]
      by (simp add: decimal.simps [of n] digits_value_def del: of_nat_add)
  next
    case False
    then show ?thesis using 1 digit_bytes [of "n mod 10"]
      by (simp add: decimal.simps [of n] digits_value_def del: of_nat_add)
  qed
qed

lemma length_decimal: "n < 10 ^ k \<Longrightarrow> 0 < k \<Longrightarrow> length (decimal n) \<le> k"
proof (induction k arbitrary: n)
  case (Suc k)
  show ?case
  proof (cases "n < 10")
    case True
    then show ?thesis by (subst decimal.simps) simp
  next
    case False
    with Suc.prems have "0 < k" by (cases k) auto
    moreover have "n div 10 < 10 ^ k" using Suc.prems by (simp add: less_mult_imp_div_less mult.commute)
    ultimately show ?thesis using Suc.IH [of "n div 10"] False by (subst decimal.simps) simp
  qed
qed simp

lemma length_decimal_u64: "n \<le> u64_max \<Longrightarrow> length (decimal n) \<le> 20"
  by (rule length_decimal) (simp_all add: u64_max_def)

lemma inj_byte_of_char: "inj (of_char :: char \<Rightarrow> byte)"
proof (rule injI)
  fix c d :: char
  assume "(of_char c :: byte) = of_char d"
  then have "(of_nat (of_char c) :: byte) = of_nat (of_char d)" by (simp add: of_nat_of_char)
  then have "unat (of_nat (of_char c) :: byte) = unat (of_nat (of_char d) :: byte)" by simp
  then have "(of_char c :: nat) = of_char d" by (simp add: unat_of_nat)
  then show "c = d" by simp
qed

lemma ascii_inject [simp]: "ascii s = ascii t \<longleftrightarrow> s = t"
  by (simp add: ascii_def inj_map_eq_map inj_byte_of_char)

lemma ascii_append [simp]: "ascii (s @ t) = ascii s @ ascii t"
  by (simp add: ascii_def)

lemma length_ascii [simp]: "length (ascii s) = length s"
  by (simp add: ascii_def)

lemma byte_of_char_of [simp]: "(of_char (char_of (unat b)) :: byte) = b"
proof -
  have "(of_char (char_of (unat b)) :: byte) = of_nat (of_char (char_of (unat b) :: char))"
    by (simp only: of_nat_of_char)
  also have "\<dots> = of_nat (unat b mod 256)" by simp
  finally show ?thesis using unsigned_less [of b, where ?'a = nat] by simp
qed

lemma ascii_decimal_text [simp]: "ascii (decimal_text n) = decimal n"
  by (simp add: ascii_def decimal_text_def comp_def)

lemma decimal_inject [simp]: "decimal m = decimal n \<longleftrightarrow> m = n"
  by (metis digits_value_decimal)

lemma decimal_text_inject [simp]: "decimal_text m = decimal_text n \<longleftrightarrow> m = n"
  by (metis ascii_decimal_text decimal_inject)

text \<open>On ASCII text characters are bytes.\<close>

lemma chars_ascii: "list_all (\<lambda>c. of_char c < (128 :: nat)) s \<Longrightarrow> chars s = map of_char s"
  by (induction s) auto

text \<open>Text of visible ASCII characters is canonical.\<close>

definition visible :: "char \<Rightarrow> bool" where
  "visible c \<longleftrightarrow> 33 \<le> (of_char c :: nat) \<and> of_char c < (127 :: nat)"

lemma visible_plain:
  assumes "list_all visible s"
  shows "is_trimmed s" and "\<not> list_ex is_control (chars s)"
proof -
  have c: "chars s = map of_char s" by (rule chars_ascii) (use assms in \<open>auto simp: list_all_iff visible_def\<close>)
  have "\<not> is_whitespace (of_char c)" "\<not> is_control (of_char c)" if "c \<in> set s" for c
    using assms that by (auto simp: list_all_iff visible_def is_whitespace_def is_control_def)
  then show "is_trimmed s" "\<not> list_ex is_control (chars s)"
    by (auto simp: is_trimmed_def c list_ex_iff last_map split: list.splits)
qed

lemma lower_hex_visible: "is_lower_hex s n \<Longrightarrow> list_all visible s"
  by (auto simp: is_lower_hex_def list_all_iff lower_hex_char_def visible_def)

lemma lower_hex_no_underscore: "is_lower_hex s n \<Longrightarrow> CHR ''_'' \<notin> set s"
  by (auto simp: is_lower_hex_def list_all_iff lower_hex_char_def)

lemma decimal_text_visible: "list_all visible (decimal_text n)"
proof -
  have "visible (char_of (unat b))" if "b \<in> set (decimal n)" for b
  proof -
    have "48 \<le> b \<and> b \<le> 57" using decimal_digits [of n] that by (auto simp: list_all_iff is_ascii_digit_def)
    then have "48 \<le> unat b \<and> unat b \<le> 57" by (simp add: word_le_nat_alt)
    then show ?thesis by (simp add: visible_def)
  qed
  then show ?thesis by (auto simp: decimal_text_def list_all_iff)
qed

text \<open>Hexadecimal text decodes to the bytes it was printed from.\<close>

lemma hex_nibble_alphabet:
  assumes "k < 16"
  shows "hexadecimal_nibble (hex_alphabet ! k) = Some (of_nat k)" and "lower_hex_char (hex_alphabet ! k)"
proof -
  have "k \<in> {0, 1, 2, 3, 4, 5, 6, 7, 8, 9, 10, 11, 12, 13, 14, 15}" using assms by (simp, presburger)
  then show "hexadecimal_nibble (hex_alphabet ! k) = Some (of_nat k)" "lower_hex_char (hex_alphabet ! k)"
    by (auto simp: hexadecimal_nibble_def hex_alphabet_def lower_hex_char_def)
qed

lemma nibbles:
  fixes b :: byte
  shows "unat (drop_bit 4 b) < 16" and "unat (b AND 15) < 16" and "push_bit 4 (drop_bit 4 b) OR (b AND 15) = b"
proof -
  have mask: "b AND 15 = take_bit 4 b" by (simp add: take_bit_eq_mask mask_eq_exp_minus_1)
  show "unat (drop_bit 4 b) < 16" using unsigned_less [of b, where ?'a = nat] by (simp add: drop_bit_eq_div unat_div less_mult_imp_div_less)
  show "unat (b AND 15) < 16" by (simp add: mask take_bit_eq_mod unat_mod)
  show "push_bit 4 (drop_bit 4 b) OR (b AND 15) = b"
    by (rule bit_word_eqI) (auto simp: mask bit_simps)
qed

lemma decode_pairs_hexadecimal: "decode_pairs (hexadecimal bs) = Some bs"
  by (induction bs) (simp_all add: hexadecimal_def hex_nibble_alphabet nibbles)

lemma length_decode_pairs: "decode_pairs s = Some bs \<Longrightarrow> length bs = length s div 2"
  by (induction s arbitrary: bs rule: decode_pairs.induct) (auto split: option.splits)

lemma length_hexadecimal [simp]: "length (hexadecimal bs) = 2 * length bs"
  by (induction bs) (simp_all add: hexadecimal_def)

lemma decode_hexadecimal_round_trip: "length bs = n \<Longrightarrow> decode_hexadecimal n (hexadecimal bs) = Some bs"
  by (simp add: decode_hexadecimal_def decode_pairs_hexadecimal)

lemma hexadecimal_lower_hex: "is_lower_hex (hexadecimal bs) (2 * length bs)"
  unfolding is_lower_hex_def
  by (induction bs) (simp_all add: hexadecimal_def hex_nibble_alphabet nibbles)

end
