(* ===== verification/GatewayContract.thy ===== *)
theory GatewayContract
  imports CoreText "HOL-Library.List_Lexorder" "HOL-Library.Char_ord" "HOL-Library.Product_Lexorder"
begin

text \<open>
  The data that the Gateway components exchange (\<open>core/gateway/src/li_gateway_contract.rs\<close>,
  \<open>GatewayError\<close> of \<open>li_gateway_manager.rs\<close>, \<open>GatewayExactUsage\<close> of \<open>li_gateway_execution.rs\<close> and
  \<open>ApiKeyLimits\<close> of \<open>core/authentication/src/li_api_key.rs\<close>): one record per struct, one datatype per
  enum and the validating constructors. Identities are parsed before they reach the Gateway and are
  compared and ordered as strings. \<open>NonZeroU32\<close> and \<open>NonZeroU64\<close> values are \<open>nat\<close>.
\<close>

section \<open>Identities and text\<close>

type_synonym node_id = string
type_synonym placement_group_id = string
type_synonym placement_id = string
type_synonym installation_id = string
type_synonym sha256_digest = string
type_synonym api_key_id = string
type_synonym logical_model_name = string
type_synonym unix_milliseconds = nat

text \<open>
  Free text is a list of Unicode scalar values, because the checks below look at characters and at
  the length in UTF-8 bytes.
\<close>

type_synonym utext = "nat list"

definition text_of :: "string \<Rightarrow> utext" where
  "text_of = map of_char"

definition len_utf8 :: "nat \<Rightarrow> nat" where
  "len_utf8 c = (if c < 128 then 1 else if c < 2048 then 2 else if c < 65536 then 3 else 4)"

definition text_len :: "utext \<Rightarrow> nat" where
  "text_len t = sum_list (map len_utf8 t)"

section \<open>Errors\<close>

datatype gateway_error =
    InvalidContract string
  | AuthenticationDenied
  | RelayDenied
  | PublicUnavailableOnChild
  | PrivateRelayUnavailableOnMain
  | DuplicateRequest
  | RequestRateLimit
  | TokenRateLimit
  | ConcurrencyLimit
  | ContextTooLarge
  | NoRoute
  | CapacityUnavailable
  | QueueFull
  | QueueExpired
  | RequestNotFound
  | Provider string string
  | StateUnavailable

section \<open>Routes\<close>

definition MAX_PREFIX_KEYS :: nat where "MAX_PREFIX_KEYS = 4096"
definition MAX_QUEUE_MILLISECONDS :: nat where "MAX_QUEUE_MILLISECONDS = 5 * 60 * 1000"

datatype gateway_mode =
    Main (local_node_id: node_id)
  | Child (local_node_id: node_id) (child_main_node_id: node_id)

fun main_node_id :: "gateway_mode \<Rightarrow> node_id option" where
  "main_node_id (Main l) = None"
| "main_node_id (Child l m) = Some m"

datatype endpoint_scheme = Http | Https

record endpoint_address =
  ep_scheme :: endpoint_scheme
  ep_host :: string
  ep_port :: nat

datatype route_target = LocalEngine endpoint_address | ChildRelay string

record gateway_route =
  rt_placement_group_id :: placement_group_id
  rt_endpoint_node_id :: node_id
  rt_model :: logical_model_name
  rt_target :: route_target
  rt_max_active_requests :: nat
  rt_max_context_tokens :: nat
  rt_healthy :: bool
  rt_memory_pressure :: bool
  rt_temperature_millicelsius :: "nat option"
  rt_prefix_keys :: "sha256_digest list"

text \<open>\<open>windows(2).any(|values| values[0] == values[1])\<close>.\<close>

fun adjacent_equal :: "'a list \<Rightarrow> bool" where
  "adjacent_equal (x # y # zs) \<longleftrightarrow> x = y \<or> adjacent_equal (y # zs)"
| "adjacent_equal _ \<longleftrightarrow> False"

definition route_new ::
  "placement_group_id \<Rightarrow> node_id \<Rightarrow> logical_model_name \<Rightarrow> route_target \<Rightarrow> nat \<Rightarrow> nat \<Rightarrow> bool \<Rightarrow> bool \<Rightarrow>
   nat option \<Rightarrow> sha256_digest list \<Rightarrow> gateway_error + gateway_route" where
  "route_new grp node model target active context healthy pressure temperature keys =
     (if length keys > MAX_PREFIX_KEYS \<or> (case temperature of None \<Rightarrow> False | Some t \<Rightarrow> t > 250000)
      then Inl (InvalidContract ''gateway route exceeds the prefix-key or temperature bound'')
      else
        let sorted_keys = sort keys
        in if adjacent_equal sorted_keys
           then Inl (InvalidContract ''gateway route contains duplicate prefix keys'')
           else Inr \<lparr>rt_placement_group_id = grp, rt_endpoint_node_id = node, rt_model = model,
                  rt_target = target, rt_max_active_requests = active,
                  rt_max_context_tokens = context, rt_healthy = healthy,
                  rt_memory_pressure = pressure, rt_temperature_millicelsius = temperature,
                  rt_prefix_keys = sorted_keys\<rparr>)"

section \<open>Requests, principals and usage\<close>

record gateway_request =
  rq_request_id :: sha256_digest
  rq_model :: logical_model_name
  rq_context_tokens :: nat
  rq_maximum_output_tokens :: nat
  rq_prefix_key :: "sha256_digest option"
  rq_maximum_queue_milliseconds :: nat

definition request_new ::
  "sha256_digest \<Rightarrow> logical_model_name \<Rightarrow> nat \<Rightarrow> nat \<Rightarrow> sha256_digest option \<Rightarrow> nat \<Rightarrow>
   gateway_error + gateway_request" where
  "request_new rid model context output prefix_key queue =
     (if queue > MAX_QUEUE_MILLISECONDS \<or> checked_add64 context output = None
      then Inl (InvalidContract ''gateway request queue or token demand exceeds its bound'')
      else Inr \<lparr>rq_request_id = rid, rq_model = model, rq_context_tokens = context,
             rq_maximum_output_tokens = output, rq_prefix_key = prefix_key,
             rq_maximum_queue_milliseconds = queue\<rparr>)"

definition token_demand :: "gateway_request \<Rightarrow> nat" where
  "token_demand r = rq_context_tokens r + rq_maximum_output_tokens r"

record api_key_limits =
  requests_per_minute :: "nat option"
  tokens_per_minute :: "nat option"
  concurrency :: "nat option"
  context_tokens :: "nat option"

record gateway_principal =
  pr_key_id :: api_key_id
  pr_limits :: api_key_limits

record usage_record =
  us_request_id :: sha256_digest
  us_key_id :: api_key_id
  us_received_at :: unix_milliseconds
  us_completed_at :: unix_milliseconds
  us_tokens :: nat

definition usage_new ::
  "sha256_digest \<Rightarrow> api_key_id \<Rightarrow> unix_milliseconds \<Rightarrow> unix_milliseconds \<Rightarrow> nat \<Rightarrow>
   gateway_error + usage_record" where
  "usage_new rid key received completed tokens =
     (if completed < received
      then Inl (InvalidContract ''gateway usage completion precedes receipt'')
      else Inr \<lparr>us_request_id = rid, us_key_id = key, us_received_at = received,
             us_completed_at = completed, us_tokens = tokens\<rparr>)"

record exact_usage =
  eu_input_tokens :: nat
  eu_output_tokens :: nat
  eu_cached_tokens :: nat

definition exact_usage_new :: "nat \<Rightarrow> nat \<Rightarrow> nat \<Rightarrow> gateway_error + exact_usage" where
  "exact_usage_new input output cached =
     (if cached > input \<or> checked_add64 input output = None
      then Inl (InvalidContract ''chat-completions usage is inconsistent or overflows'')
      else Inr \<lparr>eu_input_tokens = input, eu_output_tokens = output, eu_cached_tokens = cached\<rparr>)"

definition validate_for :: "exact_usage \<Rightarrow> gateway_request \<Rightarrow> gateway_error + unit" where
  "validate_for u r =
     (if eu_input_tokens u \<noteq> rq_context_tokens r \<or> eu_output_tokens u > rq_maximum_output_tokens r
      then Inl (InvalidContract ''exact Engine usage does not match the admitted token envelope'')
      else Inr ())"

section \<open>Ownership of capacity\<close>

record reservation =
  rs_request :: gateway_request
  rs_route :: gateway_route
  rs_principal :: "gateway_principal option"
  rs_received_at :: unix_milliseconds
  rs_queued_milliseconds :: nat
  rs_reserved_tokens :: nat

text \<open>A queue ticket is the identity of its request.\<close>

type_synonym queue_ticket = sha256_digest

datatype admission = Admitted reservation | Queued queue_ticket
datatype queue_status = Waiting | StatusAdmitted reservation

section \<open>Lemmas\<close>

lemma adjacent_equal_sorted:
  "sorted (xs :: ('a :: linorder) list) \<Longrightarrow> adjacent_equal xs \<longleftrightarrow> \<not> distinct xs"
  by (induction xs rule: adjacent_equal.induct) auto

text \<open>A constructed route has bounded, sorted and pairwise different prefix keys.\<close>

lemma route_new_ok:
  assumes "route_new grp node model target active context healthy pressure temperature keys = Inr r"
  shows "sorted (rt_prefix_keys r)" "distinct (rt_prefix_keys r)"
    "set (rt_prefix_keys r) = set keys" "length (rt_prefix_keys r) \<le> MAX_PREFIX_KEYS"
  using assms
  by (auto simp: route_new_def Let_def adjacent_equal_sorted split: if_splits)

lemma request_new_ok:
  assumes "request_new rid model context output prefix_key queue = Inr r"
  shows "token_demand r \<le> u64_max" "rq_maximum_queue_milliseconds r \<le> MAX_QUEUE_MILLISECONDS"
  using assms by (auto simp: request_new_def token_demand_def checked_add64_def split: if_splits)

text \<open>The tokens charged for a completed request never exceed what its admission reserved.\<close>

lemma validated_usage_within_demand:
  "validate_for u r = Inr () \<Longrightarrow> eu_input_tokens u + eu_output_tokens u \<le> token_demand r"
  by (auto simp: validate_for_def token_demand_def split: if_splits)

end
