(* ===== verification/GatewayProtection.thy ===== *)
theory GatewayProtection
  imports GatewayContract
begin

text \<open>
  Placement protection (\<open>core/gateway/src/li_gateway_protection_lease.rs\<close> and
  \<open>li_gateway_macos_placement_safety.rs\<close>): the expiring leases that prove a placement is guarded, the
  snapshots that carry them, and the process-local high-water marks that decide whether a snapshot is
  accepted. A \<open>BTreeMap\<close> of the state is a partial function; a \<open>BTreeSet\<close> built from a list is the
  set of its elements.
\<close>

section \<open>Linux leases\<close>

definition MAXIMUM_PROTECTION_LEASE_MILLISECONDS :: nat where
  "MAXIMUM_PROTECTION_LEASE_MILLISECONDS = 60000"
definition MAXIMUM_PROTECTED_PLACEMENTS :: nat where "MAXIMUM_PROTECTED_PLACEMENTS = 1024"

record protection_authority =
  au_node_id :: node_id
  au_core_installation_id :: installation_id
  au_watchdog_source_identity :: sha256_digest
  au_watchdog_session_id :: sha256_digest
  au_watchdog_session_generation :: nat

record protection_lease =
  pl_node_id :: node_id
  pl_placement_group_id :: placement_group_id
  pl_placement_id :: placement_id
  pl_core_installation_id :: installation_id
  pl_watchdog_source_identity :: sha256_digest
  pl_watchdog_session_id :: sha256_digest
  pl_watchdog_session_generation :: nat
  pl_protection_generation :: utext
  pl_container_name :: string
  pl_container_id :: sha256_digest
  pl_process_id :: nat
  pl_process_start_ticks :: nat
  pl_boot_id :: string
  pl_cgroup :: utext
  pl_sample_sequence :: nat
  pl_observed_at :: unix_milliseconds
  pl_observed_at_monotonic_milliseconds :: nat
  pl_expires_at :: unix_milliseconds
  pl_armed :: bool
  pl_trip_latched :: bool

definition valid_protection_generation :: "utext \<Rightarrow> bool" where
  "valid_protection_generation v \<longleftrightarrow>
     text_len v = 32 \<and> list_all (\<lambda>c. (48 \<le> c \<and> c \<le> 57) \<or> (97 \<le> c \<and> c \<le> 102)) v"

text \<open>\<open>value.split('/')\<close>: the pieces between the separators, at least one.\<close>

fun split_on :: "'a \<Rightarrow> 'a list \<Rightarrow> 'a list list" where
  "split_on s [] = [[]]"
| "split_on s (x # xs) =
     (if x = s then [] # split_on s xs
      else case split_on s xs of [] \<Rightarrow> [[x]] | p # ps \<Rightarrow> (x # p) # ps)"

definition cgroup_root :: utext where "cgroup_root = text_of ''/sys/fs/cgroup/''"
definition slash :: nat where "slash = 47"

definition valid_cgroup :: "utext \<Rightarrow> bool" where
  "valid_cgroup v \<longleftrightarrow>
     v \<noteq> [] \<and> text_len v \<le> 4095 \<and> take (length cgroup_root) v = cgroup_root \<and>
     \<not> list_ex (\<lambda>c. is_control c \<or> is_whitespace c \<or> c = 61) v \<and>
     (let suffix = drop (length cgroup_root) v
      in \<not> (suffix = [] \<or> last suffix = slash \<or>
            list_ex (\<lambda>part. part = [] \<or> part = text_of ''.'' \<or> part = text_of ''..'') (split_on slash suffix)))"

definition protection_contract_error :: gateway_error where
  "protection_contract_error = InvalidContract ''gateway placement protection contract is invalid''"

text \<open>
  \<open>GatewayPlacementProtectionLease::new\<close> takes every field; the fields are passed as the candidate
  record.
\<close>

definition protection_lease_new :: "protection_lease \<Rightarrow> gateway_error + protection_lease" where
  "protection_lease_new l =
     (if \<not> valid_protection_generation (pl_protection_generation l) \<or> pl_process_id l \<le> 1 \<or>
         pl_process_start_ticks l = 0 \<or> pl_observed_at_monotonic_milliseconds l = 0 \<or>
         \<not> valid_cgroup (pl_cgroup l) \<or> pl_expires_at l \<le> pl_observed_at l \<or>
         pl_expires_at l - pl_observed_at l > MAXIMUM_PROTECTION_LEASE_MILLISECONDS
      then Inl protection_contract_error else Inr l)"

record protection_snapshot =
  sn_placement_group_id :: placement_group_id
  sn_expected_placements :: "(placement_id \<times> node_id) list"
  sn_authorities :: "protection_authority list"
  sn_leases :: "protection_lease list"

definition protection_snapshot_new ::
  "placement_group_id \<Rightarrow> (placement_id \<times> node_id) list \<Rightarrow> protection_authority list \<Rightarrow>
   protection_lease list \<Rightarrow> gateway_error + protection_snapshot" where
  "protection_snapshot_new grp placements authorities leases =
     (if placements = [] \<or> length placements > MAXIMUM_PROTECTED_PLACEMENTS \<or> authorities = [] \<or>
         length authorities > MAXIMUM_PROTECTED_PLACEMENTS \<or>
         length leases > MAXIMUM_PROTECTED_PLACEMENTS
      then Inl protection_contract_error
      else Inr \<lparr>sn_placement_group_id = grp, sn_expected_placements = placements,
             sn_authorities = authorities, sn_leases = leases\<rparr>)"

section \<open>Acceptance of a Linux snapshot\<close>

text \<open>
  \<open>valid_leases\<close> is the loop over the leases: \<open>seen\<close> is the ordered map that it fills, keyed by
  placement and node. The map of the authorities keeps the last one of a node.
\<close>

definition authority_of :: "protection_authority list \<Rightarrow> node_id \<Rightarrow> protection_authority option" where
  "authority_of authorities node = map_of (rev (map (\<lambda>a. (au_node_id a, a)) authorities)) node"

definition lease_key :: "protection_lease \<Rightarrow> placement_id \<times> node_id" where
  "lease_key l = (pl_placement_id l, pl_node_id l)"

definition lease_matches ::
  "protection_snapshot \<Rightarrow> protection_authority \<Rightarrow> nat \<Rightarrow> protection_lease \<Rightarrow> bool" where
  "lease_matches s a now l \<longleftrightarrow>
     pl_placement_group_id l = sn_placement_group_id s \<and>
     lease_key l \<in> set (sn_expected_placements s) \<and>
     pl_core_installation_id l = au_core_installation_id a \<and>
     pl_watchdog_source_identity l = au_watchdog_source_identity a \<and>
     pl_watchdog_session_id l = au_watchdog_session_id a \<and>
     pl_watchdog_session_generation l = au_watchdog_session_generation a \<and>
     pl_armed l \<and> \<not> pl_trip_latched l \<and> pl_observed_at l \<le> now \<and> now < pl_expires_at l"

fun valid_leases ::
  "protection_snapshot \<Rightarrow> nat \<Rightarrow> ((placement_id \<times> node_id) \<times> protection_lease) list \<Rightarrow>
   protection_lease list \<Rightarrow> ((placement_id \<times> node_id) \<times> protection_lease) list option" where
  "valid_leases s now seen [] = Some seen"
| "valid_leases s now seen (l # ls) =
     (case authority_of (sn_authorities s) (pl_node_id l) of
        None \<Rightarrow> None
      | Some a \<Rightarrow>
          if lease_matches s a now l \<and> map_of seen (lease_key l) = None
          then valid_leases s now (seen @ [(lease_key l, l)]) ls else None)"

definition valid_snapshot ::
  "gateway_route \<Rightarrow> protection_snapshot \<Rightarrow> nat \<Rightarrow> protection_lease list option" where
  "valid_snapshot route s now =
     (if sn_placement_group_id s \<noteq> rt_placement_group_id route then None
      else let expected = set (sn_expected_placements s)
           in if card expected \<noteq> length (sn_expected_placements s) \<or>
                 \<not> list_ex (\<lambda>(_, node). node = rt_endpoint_node_id route) (sn_expected_placements s)
              then None
              else let nodes = set (map au_node_id (sn_authorities s))
                   in if card nodes \<noteq> length (sn_authorities s) \<or> nodes \<noteq> snd ` expected then None
                      else case valid_leases s now [] (sn_leases s) of
                             None \<Rightarrow> None
                           | Some seen \<Rightarrow>
                               if set (map fst seen) \<noteq> expected then None
                               else Some (map snd (sort_key fst seen)))"

record protection_state =
  ps_latest :: "(node_id \<times> placement_id) \<rightharpoonup> protection_lease"
  ps_sessions :: "node_id \<rightharpoonup> (nat \<times> sha256_digest)"

definition protection_state_default :: protection_state where
  "protection_state_default = \<lparr>ps_latest = Map.empty, ps_sessions = Map.empty\<rparr>"

definition session_regressed :: "protection_state \<Rightarrow> protection_authority \<Rightarrow> bool" where
  "session_regressed st a =
     (case ps_sessions st (au_node_id a) of
        None \<Rightarrow> False
      | Some (generation, session_id) \<Rightarrow>
          au_watchdog_session_generation a < generation \<or>
          (au_watchdog_session_generation a = generation \<and> au_watchdog_session_id a \<noteq> session_id) \<or>
          (au_watchdog_session_generation a > generation \<and> au_watchdog_session_id a = session_id))"

definition lease_regressed :: "protection_state \<Rightarrow> protection_lease \<Rightarrow> bool" where
  "lease_regressed st l =
     (case ps_latest st (pl_node_id l, pl_placement_id l) of
        None \<Rightarrow> False
      | Some previous \<Rightarrow>
          let same_session =
                pl_watchdog_session_generation previous = pl_watchdog_session_generation l \<and>
                pl_watchdog_session_id previous = pl_watchdog_session_id l
          in same_session \<and>
             (pl_sample_sequence l < pl_sample_sequence previous \<or>
              pl_observed_at l < pl_observed_at previous \<or>
              pl_observed_at_monotonic_milliseconds l < pl_observed_at_monotonic_milliseconds previous \<or>
              (pl_sample_sequence l = pl_sample_sequence previous \<and> l \<noteq> previous)))"

definition insert_session :: "protection_state \<Rightarrow> protection_authority \<Rightarrow> protection_state" where
  "insert_session st a =
     st\<lparr>ps_sessions := (ps_sessions st)(au_node_id a \<mapsto>
          (au_watchdog_session_generation a, au_watchdog_session_id a))\<rparr>"

definition insert_lease :: "protection_state \<Rightarrow> protection_lease \<Rightarrow> protection_state" where
  "insert_lease st l = st\<lparr>ps_latest := (ps_latest st)((pl_node_id l, pl_placement_id l) \<mapsto> l)\<rparr>"

definition accepts ::
  "protection_state \<Rightarrow> gateway_route \<Rightarrow> protection_snapshot \<Rightarrow> nat \<Rightarrow> bool \<times> protection_state" where
  "accepts st route s now =
     (case valid_snapshot route s now of
        None \<Rightarrow> (False, st)
      | Some leases \<Rightarrow>
          if list_ex (session_regressed st) (sn_authorities s) then (False, st)
          else if list_ex (lease_regressed st) leases then (False, st)
          else (True, foldl insert_lease (foldl insert_session st (sn_authorities s)) leases))"

section \<open>macOS leases\<close>

definition MAXIMUM_MACOS_SAFETY_LEASE_MILLISECONDS :: nat where
  "MAXIMUM_MACOS_SAFETY_LEASE_MILLISECONDS = 60000"

record macos_lease =
  ml_node_id :: node_id
  ml_placement_group_id :: placement_group_id
  ml_placement_id :: placement_id
  ml_core_installation_id :: installation_id
  ml_executable_identity :: sha256_digest
  ml_launchd_label :: utext
  ml_launch_generation :: sha256_digest
  ml_process_id :: nat
  ml_process_start_time_unix_milliseconds :: unix_milliseconds
  ml_observed_at :: unix_milliseconds
  ml_expires_at :: unix_milliseconds

definition valid_launchd_label :: "utext \<Rightarrow> bool" where
  "valid_launchd_label v \<longleftrightarrow>
     v \<noteq> [] \<and> text_len v \<le> 255 \<and> 46 \<in> set v \<and> \<not> list_ex (\<lambda>c. is_control c \<or> is_whitespace c) v"

definition macos_safety_error :: gateway_error where
  "macos_safety_error = InvalidContract ''macOS placement safety contract is invalid''"

definition macos_lease_new :: "macos_lease \<Rightarrow> gateway_error + macos_lease" where
  "macos_lease_new l =
     (if \<not> valid_launchd_label (ml_launchd_label l) \<or> ml_process_id l \<le> 1 \<or>
         ml_process_start_time_unix_milliseconds l > ml_observed_at l \<or>
         ml_expires_at l \<le> ml_observed_at l \<or>
         ml_expires_at l - ml_observed_at l > MAXIMUM_MACOS_SAFETY_LEASE_MILLISECONDS
      then Inl macos_safety_error else Inr l)"

record macos_snapshot =
  ms_placement_group_id :: placement_group_id
  ms_expected_placements :: "(placement_id \<times> node_id) list"
  ms_leases :: "macos_lease list"

definition macos_snapshot_new ::
  "placement_group_id \<Rightarrow> (placement_id \<times> node_id) list \<Rightarrow> macos_lease list \<Rightarrow>
   gateway_error + macos_snapshot" where
  "macos_snapshot_new grp placements leases =
     (if placements = [] \<or> length placements > 1024 \<or> card (set placements) \<noteq> length placements \<or>
         leases = [] \<or> length leases > 1024 \<or>
         list_ex (\<lambda>l. ml_placement_group_id l \<noteq> grp) leases
      then Inl macos_safety_error
      else Inr \<lparr>ms_placement_group_id = grp, ms_expected_placements = placements,
             ms_leases = leases\<rparr>)"

type_synonym macos_state = "(node_id \<times> placement_id) \<rightharpoonup> macos_lease"

definition macos_lease_key :: "macos_lease \<Rightarrow> placement_id \<times> node_id" where
  "macos_lease_key l = (ml_placement_id l, ml_node_id l)"

definition same_process :: "macos_lease \<Rightarrow> macos_lease \<Rightarrow> bool" where
  "same_process l previous \<longleftrightarrow>
     ml_process_id l = ml_process_id previous \<and>
     ml_process_start_time_unix_milliseconds l = ml_process_start_time_unix_milliseconds previous"

definition macos_lease_refused :: "macos_state \<Rightarrow> macos_lease \<Rightarrow> bool" where
  "macos_lease_refused latest l =
     (case latest (ml_node_id l, ml_placement_id l) of
        None \<Rightarrow> False
      | Some previous \<Rightarrow>
          let binding_changed =
                ml_core_installation_id l \<noteq> ml_core_installation_id previous \<or>
                ml_executable_identity l \<noteq> ml_executable_identity previous \<or>
                ml_launchd_label l \<noteq> ml_launchd_label previous \<or>
                ml_launch_generation l \<noteq> ml_launch_generation previous;
              process_regressed =
                ml_process_start_time_unix_milliseconds l
                  < ml_process_start_time_unix_milliseconds previous
          in binding_changed \<or> process_regressed \<or> ml_observed_at l < ml_observed_at previous \<or>
             (same_process l previous \<and> l \<noteq> previous))"

fun macos_valid_leases ::
  "macos_state \<Rightarrow> (placement_id \<times> node_id) set \<Rightarrow> nat \<Rightarrow>
   ((placement_id \<times> node_id) \<times> macos_lease) list \<Rightarrow> macos_lease list \<Rightarrow>
   ((placement_id \<times> node_id) \<times> macos_lease) list option" where
  "macos_valid_leases latest expected now seen [] = Some seen"
| "macos_valid_leases latest expected now seen (l # ls) =
     (if macos_lease_key l \<notin> expected \<or> map_of seen (macos_lease_key l) \<noteq> None \<or>
         ml_observed_at l > now \<or> ml_expires_at l \<le> now
      then None
      else if macos_lease_refused latest l then None
      else macos_valid_leases latest expected now (seen @ [(macos_lease_key l, l)]) ls)"

definition macos_insert :: "macos_state \<Rightarrow> macos_lease \<Rightarrow> macos_state" where
  "macos_insert latest l = latest((ml_node_id l, ml_placement_id l) \<mapsto> l)"

definition macos_accepts ::
  "macos_state \<Rightarrow> gateway_route \<Rightarrow> macos_snapshot \<Rightarrow> nat \<Rightarrow> bool \<times> macos_state" where
  "macos_accepts latest route s now =
     (let expected = set (ms_expected_placements s)
      in if ms_placement_group_id s \<noteq> rt_placement_group_id route \<or>
            card expected \<noteq> length (ms_expected_placements s) \<or>
            \<not> list_ex (\<lambda>(_, node). node = rt_endpoint_node_id route) (ms_expected_placements s)
         then (False, latest)
         else case macos_valid_leases latest expected now [] (ms_leases s) of
                None \<Rightarrow> (False, latest)
              | Some seen \<Rightarrow>
                  if set (map fst seen) \<noteq> expected then (False, latest)
                  else (True, foldl macos_insert latest (map snd (sort_key fst seen))))"

section \<open>Paths\<close>

text \<open>\<open>join s parts\<close> writes \<open>s\<close> between the parts; \<open>split_on\<close> undoes it.\<close>

fun join :: "'a \<Rightarrow> 'a list list \<Rightarrow> 'a list" where
  "join s [] = []"
| "join s [p] = p"
| "join s (p # ps) = p @ s # join s ps"

lemma split_on_nonempty [simp]: "split_on s xs \<noteq> []"
  by (cases xs) (auto split: list.splits)

lemma join_split_on: "join s (split_on s xs) = xs"
proof (induction xs)
  case Nil
  then show ?case by simp
next
  case (Cons x xs)
  obtain p ps where "split_on s xs = p # ps" by (cases "split_on s xs") auto
  with Cons show ?case by (cases ps) auto
qed

lemma split_on_parts: "p \<in> set (split_on s xs) \<Longrightarrow> s \<notin> set p"
  by (induction xs arbitrary: p) (auto split: if_splits list.splits)

lemma split_on_piece: "s \<notin> set p \<Longrightarrow> split_on s p = [p]"
  by (induction p) auto

lemma split_on_append: "s \<notin> set p \<Longrightarrow> split_on s (p @ s # xs) = p # split_on s xs"
  by (induction p) auto

lemma split_on_join:
  "ps \<noteq> [] \<Longrightarrow> \<forall>p\<in>set ps. s \<notin> set p \<Longrightarrow> split_on s (join s ps) = ps"
  by (induction s ps rule: join.induct) (auto simp: split_on_piece split_on_append)

lemma last_join: "ps \<noteq> [] \<Longrightarrow> last ps \<noteq> [] \<Longrightarrow> last (join s ps) = last (last ps) \<and> join s ps \<noteq> []"
proof (induction s ps rule: join.induct)
  case (3 s p q qs)
  then show ?case by simp
qed auto

definition safe_part :: "utext \<Rightarrow> bool" where
  "safe_part p \<longleftrightarrow> p \<noteq> [] \<and> p \<noteq> text_of ''.'' \<and> p \<noteq> text_of ''..'' \<and> slash \<notin> set p"

lemma valid_cgroup_suffix:
  "\<not> (suffix = [] \<or> last suffix = slash \<or>
      list_ex (\<lambda>part. part = [] \<or> part = text_of ''.'' \<or> part = text_of ''..'') (split_on slash suffix))
   \<longleftrightarrow> (\<exists>parts. parts \<noteq> [] \<and> list_all safe_part parts \<and> suffix = join slash parts)" (is "?L \<longleftrightarrow> ?R")
proof
  assume ?L
  then have "list_all safe_part (split_on slash suffix)"
    by (auto simp: list_ex_iff list_all_iff safe_part_def dest: split_on_parts)
  then show ?R using join_split_on [of slash suffix] by (metis split_on_nonempty)
next
  assume ?R
  then obtain parts where p: "parts \<noteq> []" "list_all safe_part parts" "suffix = join slash parts"
    by auto
  have split: "split_on slash suffix = parts"
    using p by (auto simp: list_all_iff safe_part_def intro: split_on_join)
  have end_part: "last parts \<noteq> []" "slash \<notin> set (last parts)"
    using p(1,2) last_in_set [OF p(1)] by (auto simp: list_all_iff safe_part_def)
  from last_join [OF p(1) end_part(1), of slash] p(3)
  have "suffix \<noteq> []" "last suffix = last (last parts)" by auto
  moreover have "last (last parts) \<noteq> slash" using end_part last_in_set by metis
  ultimately show ?L using split p(2) by (auto simp: list_ex_iff list_all_iff safe_part_def)
qed

lemma valid_cgroup_iff:
  "valid_cgroup v \<longleftrightarrow>
     text_len v \<le> 4095 \<and> list_all (\<lambda>c. \<not> is_control c \<and> \<not> is_whitespace c \<and> c \<noteq> 61) v \<and>
     (\<exists>parts. parts \<noteq> [] \<and> list_all safe_part parts \<and> v = cgroup_root @ join slash parts)"
proof -
  have root: "take (length cgroup_root) v = cgroup_root \<longleftrightarrow>
      v = cgroup_root @ drop (length cgroup_root) v"
    by (metis append_eq_conv_conj append_take_drop_id)
  have "cgroup_root \<noteq> []" by (simp add: cgroup_root_def text_of_def)
  then show ?thesis
    unfolding valid_cgroup_def Let_def valid_cgroup_suffix root
    by (auto simp: list_ex_iff list_all_iff)
qed

lemma hex_digit_iff:
  "c \<in> set (text_of ''0123456789abcdef'') \<longleftrightarrow> (48 \<le> c \<and> c \<le> 57) \<or> (97 \<le> c \<and> c \<le> 102)"
  by (simp add: text_of_def) presburger

lemma text_len_ascii: "list_all (\<lambda>c. c < 128) v \<Longrightarrow> text_len v = length v"
  by (induction v) (auto simp: text_len_def len_utf8_def)

lemma valid_protection_generation_iff:
  "valid_protection_generation v \<longleftrightarrow>
     length v = 32 \<and> list_all (\<lambda>c. c \<in> set (text_of ''0123456789abcdef'')) v"
proof -
  have "list_all (\<lambda>c. (48 \<le> c \<and> c \<le> 57) \<or> (97 \<le> c \<and> c \<le> 102)) v \<Longrightarrow> list_all (\<lambda>c. c < 128) v"
    by (auto simp: list_all_iff)
  then show ?thesis
    unfolding hex_digit_iff valid_protection_generation_def using text_len_ascii by auto
qed

section \<open>Accepted Linux snapshots\<close>

lemma table_ok_sort: "table_ok t \<Longrightarrow> table_ok (sort_key f t)"
  by (simp add: distinct_map)

lemma valid_leases_spec:
  assumes "valid_leases s now seen ls = Some out" "distinct (map fst seen)"
  shows "out = seen @ map (\<lambda>l. (lease_key l, l)) ls \<and> distinct (map fst out) \<and>
    (\<forall>l\<in>set ls. \<exists>a. authority_of (sn_authorities s) (pl_node_id l) = Some a \<and> lease_matches s a now l)"
  using assms
proof (induction s now seen ls rule: valid_leases.induct)
  case (2 s now seen l ls)
  then obtain a where a: "authority_of (sn_authorities s) (pl_node_id l) = Some a"
    "lease_matches s a now l" "map_of seen (lease_key l) = None"
    "valid_leases s now (seen @ [(lease_key l, l)]) ls = Some out"
    by (auto split: option.splits if_splits)
  have "distinct (map fst (seen @ [(lease_key l, l)]))"
    using 2(3) a(3) by (auto simp: map_of_eq_None_iff)
  then have "out = (seen @ [(lease_key l, l)]) @ map (\<lambda>l. (lease_key l, l)) ls \<and> distinct (map fst out) \<and>
    (\<forall>l\<in>set ls. \<exists>a. authority_of (sn_authorities s) (pl_node_id l) = Some a \<and> lease_matches s a now l)"
    using 2(1) [OF a(1) _ a(4)] a(2,3) by blast
  with a(1,2) show ?case by (elim conjE) (intro conjI ballI; force)
qed simp

lemma authority_of_in: "authority_of as n = Some a \<Longrightarrow> a \<in> set as \<and> au_node_id a = n"
  unfolding authority_of_def by (auto dest!: map_of_SomeD)

text \<open>What a valid snapshot guarantees, over the leases in the order the code keeps them.\<close>

lemma valid_snapshot_spec:
  assumes "valid_snapshot route s now = Some leases"
  shows "sn_placement_group_id s = rt_placement_group_id route"
    "\<exists>p. (p, rt_endpoint_node_id route) \<in> set (sn_expected_placements s)"
    "distinct (map au_node_id (sn_authorities s))"
    "set (map au_node_id (sn_authorities s)) = snd ` set (sn_expected_placements s)"
    "set leases = set (sn_leases s)" "distinct (map lease_key leases)"
    "distinct (map lease_key (sn_leases s))"
    "lease_key ` set leases = set (sn_expected_placements s)"
    "\<forall>l\<in>set leases. \<exists>a. authority_of (sn_authorities s) (pl_node_id l) = Some a \<and> lease_matches s a now l"
proof -
  from assms obtain seen where
    g: "sn_placement_group_id s = rt_placement_group_id route"
    and e: "list_ex (\<lambda>(_, node). node = rt_endpoint_node_id route) (sn_expected_placements s)"
    and n: "card (set (map au_node_id (sn_authorities s))) = length (sn_authorities s)"
      "set (map au_node_id (sn_authorities s)) = snd ` set (sn_expected_placements s)"
    and v: "valid_leases s now [] (sn_leases s) = Some seen"
    and k: "set (map fst seen) = set (sn_expected_placements s)"
    and l: "leases = map snd (sort_key fst seen)"
    unfolding valid_snapshot_def Let_def by (auto split: if_splits option.splits)
  note spec = valid_leases_spec [OF v, simplified]
  have keyed: "map lease_key leases = map fst (sort_key fst seen)"
    unfolding l using spec by (auto intro!: map_cong)
  show "sn_placement_group_id s = rt_placement_group_id route" by (rule g)
  show "\<exists>p. (p, rt_endpoint_node_id route) \<in> set (sn_expected_placements s)"
    using e by (auto simp: list_ex_iff)
  show "distinct (map au_node_id (sn_authorities s))" using n(1) by (metis card_distinct length_map)
  show "set (map au_node_id (sn_authorities s)) = snd ` set (sn_expected_placements s)" by (rule n(2))
  show same: "set leases = set (sn_leases s)" unfolding l using spec by force
  have "distinct (map fst (sort_key fst seen))"
    using spec by (blast intro: table_ok_sort)
  then show "distinct (map lease_key leases)" unfolding keyed .
  show "distinct (map lease_key (sn_leases s))" using spec by (auto simp: comp_def)
  show "lease_key ` set leases = set (sn_expected_placements s)"
    using k arg_cong [OF keyed, of set] by simp
  show "\<forall>l\<in>set leases. \<exists>a. authority_of (sn_authorities s) (pl_node_id l) = Some a \<and> lease_matches s a now l"
    using spec same by blast
qed

text \<open>The two insertion loops, seen through lookups.\<close>

lemma sessions_after:
  "ps_sessions (foldl insert_session st as) n =
     (case authority_of as n of
        None \<Rightarrow> ps_sessions st n
      | Some a \<Rightarrow> Some (au_watchdog_session_generation a, au_watchdog_session_id a))"
proof (induction as rule: rev_induct)
  case Nil
  then show ?case by (simp add: authority_of_def)
next
  case (snoc a as)
  have "authority_of (as @ [a]) n = (if n = au_node_id a then Some a else authority_of as n)"
    by (simp add: authority_of_def)
  with snoc show ?case by (simp add: insert_session_def)
qed

lemma latest_foldl_session [simp]: "ps_latest (foldl insert_session st as) = ps_latest st"
  by (induction as arbitrary: st) (simp_all add: insert_session_def)

lemma sessions_foldl_lease [simp]: "ps_sessions (foldl insert_lease st ls) = ps_sessions st"
  by (induction ls arbitrary: st) (simp_all add: insert_lease_def)

lemma latest_other:
  "(p, n) \<notin> lease_key ` set ls \<Longrightarrow> ps_latest (foldl insert_lease st ls) (n, p) = ps_latest st (n, p)"
  by (induction ls arbitrary: st) (auto simp: insert_lease_def lease_key_def)

lemma latest_insert_lease: "ps_latest (insert_lease st l) (pl_node_id l, pl_placement_id l) = Some l"
  by (simp add: insert_lease_def)

lemma latest_inserted:
  "distinct (map lease_key ls) \<Longrightarrow> l \<in> set ls \<Longrightarrow>
   ps_latest (foldl insert_lease st ls) (pl_node_id l, pl_placement_id l) = Some l"
proof (induction ls arbitrary: st)
  case (Cons x xs)
  show ?case
  proof (cases "l = x")
    case True
    with Cons.prems have "(pl_placement_id l, pl_node_id l) \<notin> lease_key ` set xs"
      by (auto simp: lease_key_def)
    from latest_other [OF this] True show ?thesis by (simp add: latest_insert_lease)
  next
    case False
    with Cons show ?thesis by simp
  qed
qed simp

lemma accepts_True:
  assumes "accepts st route s now = (True, st')"
  obtains leases where "valid_snapshot route s now = Some leases"
    "\<forall>a\<in>set (sn_authorities s). \<not> session_regressed st a" "\<forall>l\<in>set leases. \<not> lease_regressed st l"
    "st' = foldl insert_lease (foldl insert_session st (sn_authorities s)) leases"
  using assms by (auto simp: accepts_def list_ex_iff split: option.splits if_splits)

lemma accepts_False: "accepts st route s now = (False, st') \<Longrightarrow> st' = st"
  by (auto simp: accepts_def split: option.splits if_splits)

section \<open>High-water marks\<close>

text \<open>
  What both platforms promise about a series of snapshots: a rejected snapshot changes nothing, an
  accepted one records exactly its leases, one per key, and each follows the lease recorded before.
  \<open>accept_all\<close> feeds a series of calls and collects the accepted leases in order.
\<close>

fun accept_all :: "('s \<Rightarrow> 'c \<Rightarrow> bool \<times> 's) \<Rightarrow> ('c \<Rightarrow> 'l list) \<Rightarrow> 's \<Rightarrow> 'c list \<Rightarrow> 's \<times> 'l list" where
  "accept_all accept leases st [] = (st, [])"
| "accept_all accept leases st (c # cs) =
     (let (ok, st1) = accept st c; (st2, accepted) = accept_all accept leases st1 cs
      in (st2, (if ok then leases c else []) @ accepted))"

locale high_water =
  fixes accept :: "'s \<Rightarrow> 'c \<Rightarrow> bool \<times> 's"
    and latest :: "'s \<Rightarrow> 'k \<Rightarrow> 'l option"
    and leases :: "'c \<Rightarrow> 'l list"
    and key :: "'l \<Rightarrow> 'k"
    and follows :: "'l \<Rightarrow> 'l \<Rightarrow> bool"
    and inv :: "'s \<Rightarrow> bool"
  assumes rejected: "accept st c = (False, st') \<Longrightarrow> st' = st"
    and inv_kept: "inv st \<Longrightarrow> accept st c = (True, st') \<Longrightarrow> inv st'"
    and keys_distinct: "accept st c = (True, st') \<Longrightarrow> distinct (map key (leases c))"
    and recorded: "accept st c = (True, st') \<Longrightarrow> l \<in> set (leases c) \<Longrightarrow> latest st' (key l) = Some l"
    and others: "accept st c = (True, st') \<Longrightarrow> k \<notin> key ` set (leases c) \<Longrightarrow> latest st' k = latest st k"
    and newer: "inv st \<Longrightarrow> accept st c = (True, st') \<Longrightarrow> l \<in> set (leases c) \<Longrightarrow>
      latest st (key l) = Some previous \<Longrightarrow> follows previous l"
    and follows_trans: "follows a b \<Longrightarrow> follows b c' \<Longrightarrow> follows a c'"
begin

lemma follows_latest:
  assumes "inv st" "latest st (key p) = Some p"
    "l \<in> set (snd (accept_all accept leases st cs))" "key l = key p"
  shows "follows p l"
  using assms
proof (induction cs arbitrary: st p)
  case (Cons c cs)
  obtain ok st1 where a: "accept st c = (ok, st1)" by force
  have next_call: "l \<in> set (snd (accept_all accept leases st1 cs)) \<or> ok \<and> l \<in> set (leases c)"
    using Cons.prems(3) a by (auto split: prod.splits if_splits)
  show ?case
  proof (cases ok)
    case False
    with a rejected have "st1 = st" by auto
    with Cons False next_call show ?thesis by auto
  next
    case True
    have acc: "accept st c = (True, st1)" using a True by simp
    show ?thesis
    proof (cases "key p \<in> key ` set (leases c)")
      case False
      with others [OF acc] Cons.prems(2) have "latest st1 (key p) = Some p" by simp
      moreover have "l \<notin> set (leases c)" using False Cons.prems(4) by (metis image_eqI)
      ultimately have "latest st1 (key p) = Some p" "l \<notin> set (leases c)" by auto
      with Cons inv_kept [OF Cons.prems(1) acc] next_call show ?thesis by auto
    next
      case True
      then obtain q where q: "q \<in> set (leases c)" "key q = key p" by auto
      with newer [OF Cons.prems(1) acc q(1)] Cons.prems(2) have pq: "follows p q" by simp
      have "l \<in> set (leases c) \<Longrightarrow> l = q"
        using keys_distinct [OF acc] q Cons.prems(4) by (auto simp: distinct_map inj_on_def)
      moreover have "l \<in> set (snd (accept_all accept leases st1 cs)) \<Longrightarrow> follows q l"
        using Cons.IH [OF inv_kept [OF Cons.prems(1) acc], of q] recorded [OF acc q(1)] q Cons.prems(4)
        by auto
      ultimately show ?thesis using next_call pq follows_trans by blast
    qed
  qed
qed simp

lemma inv_step: "inv st \<Longrightarrow> accept st c = (ok, st1) \<Longrightarrow> inv st1"
  using inv_kept [of st c st1] rejected [of st c st1] by (cases ok) auto

text \<open>What follows the mark recorded after a call follows the mark recorded before it.\<close>

lemma earlier_mark:
  assumes "inv st" "accept st c = (ok, st1)" "latest st k = Some p"
    "\<And>q. latest st1 k = Some q \<Longrightarrow> follows q l"
  shows "follows p l"
proof (cases "ok \<and> k \<in> key ` set (leases c)")
  case True
  with assms(2) have acc: "accept st c = (True, st1)" by simp
  from True obtain q where q: "q \<in> set (leases c)" "k = key q" by auto
  have "follows q l" using assms(4) recorded [OF acc q(1)] q(2) by simp
  moreover have "follows p q" using newer [OF assms(1) acc q(1)] assms(3) q(2) by simp
  ultimately show ?thesis by (rule follows_trans [rotated])
next
  case False
  then have "latest st1 k = latest st k" using assms(2) others [of st c st1 k] rejected [of st c st1] by (cases ok) auto
  with assms(3,4) show ?thesis by simp
qed

lemma history_ordered:
  "inv st \<Longrightarrow>
   sorted_wrt (\<lambda>p l. key p = key l \<longrightarrow> follows p l) (snd (accept_all accept leases st cs))"
proof (induction cs arbitrary: st)
  case (Cons c cs)
  obtain ok st1 where a: "accept st c = (ok, st1)" by force
  obtain st2 log where r: "accept_all accept leases st1 cs = (st2, log)" by force
  show ?case
  proof (cases ok)
    case False
    with a rejected have "st1 = st" by auto
    with Cons a r False show ?thesis by force
  next
    case True
    have acc: "accept st c = (True, st1)" using a True by simp
    have once: "sorted_wrt (\<lambda>p l. key p = key l \<longrightarrow> follows p l) (leases c)"
      using keys_distinct [OF acc]
      by (auto simp: sorted_wrt_iff_nth_less distinct_conv_nth)
    have "follows p l" if "p \<in> set (leases c)" "l \<in> set log" "key p = key l" for p l
      by (rule follows_latest [OF inv_kept [OF Cons.prems acc] recorded [OF acc that(1)], of _ cs])
        (use that r in simp_all)
    moreover have "sorted_wrt (\<lambda>p l. key p = key l \<longrightarrow> follows p l) log"
      using Cons.IH [OF inv_kept [OF Cons.prems acc]] r by simp
    ultimately show ?thesis using once a r True by (auto simp: sorted_wrt_append)
  qed
qed simp

end

section \<open>Linux: no replay and no rollback\<close>

definition linux_accept ::
  "protection_state \<Rightarrow> gateway_route \<times> protection_snapshot \<times> nat \<Rightarrow> bool \<times> protection_state" where
  "linux_accept st c = (case c of (route, s, now) \<Rightarrow> accepts st route s now)"

definition linux_leases :: "gateway_route \<times> protection_snapshot \<times> nat \<Rightarrow> protection_lease list" where
  "linux_leases c = sn_leases (fst (snd c))"

definition linux_latest :: "protection_state \<Rightarrow> placement_id \<times> node_id \<Rightarrow> protection_lease option" where
  "linux_latest st k = ps_latest st (snd k, fst k)"

text \<open>
  \<open>supersedes p l\<close>: \<open>l\<close> is from a later Watchdog session, or from the same session with no counter
  moved back and, at the same sample, the very same lease.
\<close>

definition supersedes :: "protection_lease \<Rightarrow> protection_lease \<Rightarrow> bool" where
  "supersedes p l \<longleftrightarrow>
     pl_watchdog_session_generation p < pl_watchdog_session_generation l \<or>
     (pl_watchdog_session_generation p = pl_watchdog_session_generation l \<and>
      pl_watchdog_session_id p = pl_watchdog_session_id l \<and>
      pl_sample_sequence p \<le> pl_sample_sequence l \<and> pl_observed_at p \<le> pl_observed_at l \<and>
      pl_observed_at_monotonic_milliseconds p \<le> pl_observed_at_monotonic_milliseconds l \<and>
      (pl_sample_sequence p = pl_sample_sequence l \<longrightarrow> p = l))"

definition sessions_cover :: "protection_state \<Rightarrow> bool" where
  "sessions_cover st \<longleftrightarrow>
     (\<forall>n p l. ps_latest st (n, p) = Some l \<longrightarrow>
        (\<exists>g i. ps_sessions st n = Some (g, i) \<and>
          (pl_watchdog_session_generation l < g \<or>
           pl_watchdog_session_generation l = g \<and> pl_watchdog_session_id l = i)))"

lemma supersedes_trans: "supersedes a b \<Longrightarrow> supersedes b c \<Longrightarrow> supersedes a c"
  unfolding supersedes_def by (elim disjE conjE) (auto dest: antisym)

lemma session_not_regressed:
  assumes "\<not> session_regressed st a" "ps_sessions st (au_node_id a) = Some (g, i)"
    "h < g \<or> h = g \<and> j = i"
  shows "h < au_watchdog_session_generation a \<or>
    h = au_watchdog_session_generation a \<and> j = au_watchdog_session_id a"
  using assms by (auto simp: session_regressed_def)

lemma sessions_cover_accept:
  assumes inv: "sessions_cover st" and acc: "accepts st route s now = (True, st')"
  shows "sessions_cover st'"
  unfolding sessions_cover_def
proof (intro allI impI)
  fix n p l assume cur: "ps_latest st' (n, p) = Some l"
  from acc obtain ls where v: "valid_snapshot route s now = Some ls"
    "\<forall>a\<in>set (sn_authorities s). \<not> session_regressed st a"
    and st': "st' = foldl insert_lease (foldl insert_session st (sn_authorities s)) ls"
    by (rule accepts_True)
  note spec = valid_snapshot_spec [OF v(1)]
  show "\<exists>g i. ps_sessions st' n = Some (g, i) \<and>
    (pl_watchdog_session_generation l < g \<or> pl_watchdog_session_generation l = g \<and> pl_watchdog_session_id l = i)"
  proof (cases "(p, n) \<in> lease_key ` set ls")
    case True
    then obtain l' where l': "l' \<in> set ls" "lease_key l' = (p, n)" by force
    with latest_inserted [OF spec(6) l'(1)] cur st' have "l' = l" by (auto simp: lease_key_def)
    with spec(9) l' show ?thesis
      by (force simp: st' sessions_after lease_key_def lease_matches_def)
  next
    case False
    with cur st' have old: "ps_latest st (n, p) = Some l" by (simp add: latest_other)
    with inv obtain g i where gi: "ps_sessions st n = Some (g, i)"
      "pl_watchdog_session_generation l < g \<or> pl_watchdog_session_generation l = g \<and> pl_watchdog_session_id l = i"
      unfolding sessions_cover_def by blast
    show ?thesis
    proof (cases "authority_of (sn_authorities s) n")
      case None
      with gi show ?thesis by (simp add: st' sessions_after)
    next
      case (Some a)
      with authority_of_in have a: "a \<in> set (sn_authorities s)" "au_node_id a = n" by auto
      have "pl_watchdog_session_generation l < au_watchdog_session_generation a \<or>
        pl_watchdog_session_generation l = au_watchdog_session_generation a \<and>
        pl_watchdog_session_id l = au_watchdog_session_id a"
        by (rule session_not_regressed [OF _ _ gi(2)]) (use v(2) a gi(1) in auto)
      with Some show ?thesis by (simp add: st' sessions_after)
    qed
  qed
qed

lemma accepted_supersedes:
  assumes inv: "sessions_cover st" and acc: "accepts st route s now = (True, st')"
    and l: "l \<in> set (sn_leases s)" and p: "ps_latest st (pl_node_id l, pl_placement_id l) = Some p"
  shows "supersedes p l"
proof -
  from acc obtain ls where v: "valid_snapshot route s now = Some ls"
    "\<forall>a\<in>set (sn_authorities s). \<not> session_regressed st a" "\<forall>l\<in>set ls. \<not> lease_regressed st l"
    by (rule accepts_True)
  note spec = valid_snapshot_spec [OF v(1)]
  from spec(5,9) l obtain a where a: "authority_of (sn_authorities s) (pl_node_id l) = Some a"
    "lease_matches s a now l" by auto
  with authority_of_in have au: "a \<in> set (sn_authorities s)" "au_node_id a = pl_node_id l" by auto
  from inv p obtain g i where gi: "ps_sessions st (pl_node_id l) = Some (g, i)"
    "pl_watchdog_session_generation p < g \<or> pl_watchdog_session_generation p = g \<and> pl_watchdog_session_id p = i"
    unfolding sessions_cover_def by blast
  have "pl_watchdog_session_generation p < au_watchdog_session_generation a \<or>
    pl_watchdog_session_generation p = au_watchdog_session_generation a \<and>
    pl_watchdog_session_id p = au_watchdog_session_id a"
    by (rule session_not_regressed [OF _ _ gi(2)]) (use v(2) au gi(1) in auto)
  moreover have "\<not> lease_regressed st l" using v(3) spec(5) l by auto
  ultimately show ?thesis
    using a(2) p by (auto simp: supersedes_def lease_matches_def lease_regressed_def Let_def)
qed

interpretation linux: high_water linux_accept linux_latest linux_leases lease_key supersedes sessions_cover
proof
  fix st st' :: protection_state and c :: "gateway_route \<times> protection_snapshot \<times> nat"
    and l previous a b d :: protection_lease and k :: "placement_id \<times> node_id"
  obtain route s now where c: "c = (route, s, now)" by (cases c) auto
  note defs = c linux_accept_def linux_leases_def linux_latest_def lease_key_def
  show "linux_accept st c = (False, st') \<Longrightarrow> st' = st" by (auto simp: defs dest: accepts_False)
  show "sessions_cover st \<Longrightarrow> linux_accept st c = (True, st') \<Longrightarrow> sessions_cover st'"
    by (auto simp: c linux_accept_def intro: sessions_cover_accept)
  assume acc: "linux_accept st c = (True, st')"
  then obtain ls where v: "valid_snapshot route s now = Some ls"
    and st': "st' = foldl insert_lease (foldl insert_session st (sn_authorities s)) ls"
    by (auto simp: c linux_accept_def elim: accepts_True)
  note spec = valid_snapshot_spec [OF v]
  show "distinct (map lease_key (linux_leases c))" using spec(7) by (simp add: c linux_leases_def)
  show "l \<in> set (linux_leases c) \<Longrightarrow> linux_latest st' (lease_key l) = Some l"
    using latest_inserted [OF spec(6)] spec(5) st' by (auto simp: defs)
  show "k \<notin> lease_key ` set (linux_leases c) \<Longrightarrow> linux_latest st' k = linux_latest st k"
    using latest_other spec(5) st' by (cases k) (auto simp: c linux_leases_def linux_latest_def)
  show "sessions_cover st \<Longrightarrow> l \<in> set (linux_leases c) \<Longrightarrow>
      linux_latest st (lease_key l) = Some previous \<Longrightarrow> supersedes previous l"
    using acc by (auto simp: defs intro: accepted_supersedes)
qed (rule supersedes_trans)

section \<open>macOS: bindings and process order\<close>

lemma macos_valid_leases_spec:
  assumes "macos_valid_leases latest expected now seen ls = Some out" "table_ok seen"
  shows "out = seen @ map (\<lambda>l. (macos_lease_key l, l)) ls \<and> table_ok out \<and>
    (\<forall>l\<in>set ls. macos_lease_key l \<in> expected \<and> ml_observed_at l \<le> now \<and> now < ml_expires_at l \<and>
      \<not> macos_lease_refused latest l)"
  using assms
proof (induction latest expected now seen ls rule: macos_valid_leases.induct)
  case (2 latest expected now seen l ls)
  from 2(2) have a: "macos_lease_key l \<in> expected" "map_of seen (macos_lease_key l) = None"
    "ml_observed_at l \<le> now" "now < ml_expires_at l" "\<not> macos_lease_refused latest l"
    "macos_valid_leases latest expected now (seen @ [(macos_lease_key l, l)]) ls = Some out"
    by (simp_all split: if_splits)
  have tbl: "table_ok (seen @ [(macos_lease_key l, l)])"
    using 2(3) a(2) by (auto simp: map_of_eq_None_iff)
  have "out = (seen @ [(macos_lease_key l, l)]) @ map (\<lambda>l. (macos_lease_key l, l)) ls \<and> table_ok out \<and>
    (\<forall>l\<in>set ls. macos_lease_key l \<in> expected \<and> ml_observed_at l \<le> now \<and> now < ml_expires_at l \<and>
      \<not> macos_lease_refused latest l)"
    by (rule 2(1) [OF _ a(5) a(6) tbl]) (use a(1-4) in simp)
  with a show ?case by (elim conjE) (intro conjI ballI; force)
qed simp

lemma macos_insert_other:
  "(p, n) \<notin> macos_lease_key ` set ls \<Longrightarrow> foldl macos_insert latest ls (n, p) = latest (n, p)"
  by (induction ls arbitrary: latest) (auto simp: macos_insert_def macos_lease_key_def)

lemma macos_insert_same: "macos_insert latest l (ml_node_id l, ml_placement_id l) = Some l"
  by (simp add: macos_insert_def)

lemma macos_inserted:
  "distinct (map macos_lease_key ls) \<Longrightarrow> l \<in> set ls \<Longrightarrow>
   foldl macos_insert latest ls (ml_node_id l, ml_placement_id l) = Some l"
proof (induction ls arbitrary: latest)
  case (Cons x xs)
  show ?case
  proof (cases "l = x")
    case True
    with Cons.prems have "(ml_placement_id l, ml_node_id l) \<notin> macos_lease_key ` set xs"
      by (auto simp: macos_lease_key_def)
    from macos_insert_other [OF this] True show ?thesis by (simp add: macos_insert_same)
  next
    case False
    with Cons show ?thesis by simp
  qed
qed simp

lemma macos_accepts_False: "macos_accepts latest route s now = (False, latest') \<Longrightarrow> latest' = latest"
  by (auto simp: macos_accepts_def Let_def split: option.splits if_splits)

lemma macos_accepts_True:
  assumes "macos_accepts latest route s now = (True, latest')"
  shows "distinct (map macos_lease_key (ms_leases s))"
    "macos_lease_key ` set (ms_leases s) = set (ms_expected_placements s)"
    "\<forall>l\<in>set (ms_leases s). ml_observed_at l \<le> now \<and> now < ml_expires_at l \<and> \<not> macos_lease_refused latest l"
    "\<exists>ls. latest' = foldl macos_insert latest ls \<and> set ls = set (ms_leases s) \<and> distinct (map macos_lease_key ls)"
proof -
  from assms obtain seen where
    v: "macos_valid_leases latest (set (ms_expected_placements s)) now [] (ms_leases s) = Some seen"
    and k: "set (map fst seen) = set (ms_expected_placements s)"
    and l: "latest' = foldl macos_insert latest (map snd (sort_key fst seen))"
    by (auto simp: macos_accepts_def Let_def split: option.splits if_splits)
  note spec = macos_valid_leases_spec [OF v, simplified]
  show "distinct (map macos_lease_key (ms_leases s))" using spec by (auto simp: comp_def)
  show "macos_lease_key ` set (ms_leases s) = set (ms_expected_placements s)"
    using k spec by (auto simp: image_comp comp_def)
  show "\<forall>l\<in>set (ms_leases s). ml_observed_at l \<le> now \<and> now < ml_expires_at l \<and> \<not> macos_lease_refused latest l"
    using spec by blast
  have keyed: "map macos_lease_key (map snd (sort_key fst seen)) = map fst (sort_key fst seen)"
    using spec by (auto intro!: map_cong)
  have "table_ok (sort_key fst seen)" using spec by (blast intro: table_ok_sort)
  with keyed have "distinct (map macos_lease_key (map snd (sort_key fst seen)))" by metis
  moreover have "set (map snd (sort_key fst seen)) = set (ms_leases s)" using spec by force
  ultimately show "\<exists>ls. latest' = foldl macos_insert latest ls \<and> set ls = set (ms_leases s) \<and> distinct (map macos_lease_key ls)"
    using l by blast
qed

text \<open>\<open>macos_follows p l\<close>: the same installed job, with neither the process nor the clock moved back.\<close>

definition macos_follows :: "macos_lease \<Rightarrow> macos_lease \<Rightarrow> bool" where
  "macos_follows p l \<longleftrightarrow>
     ml_core_installation_id p = ml_core_installation_id l \<and>
     ml_executable_identity p = ml_executable_identity l \<and>
     ml_launchd_label p = ml_launchd_label l \<and> ml_launch_generation p = ml_launch_generation l \<and>
     ml_process_start_time_unix_milliseconds p \<le> ml_process_start_time_unix_milliseconds l \<and>
     ml_observed_at p \<le> ml_observed_at l"

definition macos_accept :: "macos_state \<Rightarrow> gateway_route \<times> macos_snapshot \<times> nat \<Rightarrow> bool \<times> macos_state" where
  "macos_accept st c = (case c of (route, s, now) \<Rightarrow> macos_accepts st route s now)"

definition macos_leases :: "gateway_route \<times> macos_snapshot \<times> nat \<Rightarrow> macos_lease list" where
  "macos_leases c = ms_leases (fst (snd c))"

definition macos_latest :: "macos_state \<Rightarrow> placement_id \<times> node_id \<Rightarrow> macos_lease option" where
  "macos_latest st k = st (snd k, fst k)"

interpretation macos: high_water macos_accept macos_latest macos_leases macos_lease_key macos_follows "\<lambda>_. True"
proof
  fix st st' :: macos_state and c :: "gateway_route \<times> macos_snapshot \<times> nat"
    and l previous a b d :: macos_lease and k :: "placement_id \<times> node_id"
  obtain route s now where c: "c = (route, s, now)" by (cases c) auto
  note defs = c macos_accept_def macos_leases_def macos_latest_def macos_lease_key_def
  show "macos_accept st c = (False, st') \<Longrightarrow> st' = st" by (auto simp: defs dest: macos_accepts_False)
  show "macos_follows a b \<Longrightarrow> macos_follows b d \<Longrightarrow> macos_follows a d" by (simp add: macos_follows_def)
  assume "macos_accept st c = (True, st')"
  then have acc: "macos_accepts st route s now = (True, st')" by (simp add: c macos_accept_def)
  note spec = macos_accepts_True [OF acc]
  then obtain ls where ls: "st' = foldl macos_insert st ls" "set ls = set (ms_leases s)"
    "distinct (map macos_lease_key ls)" by blast
  show "distinct (map macos_lease_key (macos_leases c))" using spec(1) by (simp add: c macos_leases_def)
  show "l \<in> set (macos_leases c) \<Longrightarrow> macos_latest st' (macos_lease_key l) = Some l"
    using macos_inserted [OF ls(3)] ls by (auto simp: defs)
  show "k \<notin> macos_lease_key ` set (macos_leases c) \<Longrightarrow> macos_latest st' k = macos_latest st k"
    using macos_insert_other ls by (cases k) (auto simp: c macos_leases_def macos_latest_def)
  show "l \<in> set (macos_leases c) \<Longrightarrow> macos_latest st (macos_lease_key l) = Some previous \<Longrightarrow>
      macos_follows previous l"
    using spec(3) by (auto simp: defs macos_lease_refused_def macos_follows_def Let_def)
qed simp

lemma macos_same_process_refused:
  assumes acc: "macos_accepts latest route s now = (True, latest')" and l: "l \<in> set (ms_leases s)"
    and l': "l' \<in> set (ms_leases s')" "macos_lease_key l' = macos_lease_key l" "same_process l' l"
      "l' \<noteq> l \<or> ml_expires_at l \<le> now'"
  shows "macos_accepts latest' route' s' now' = (False, latest')"
proof -
  obtain ok latest'' where r: "macos_accepts latest' route' s' now' = (ok, latest'')" by force
  have rec: "latest' (ml_node_id l', ml_placement_id l') = Some l"
    using macos.recorded [of latest "(route, s, now)" latest' l] acc l l'(2)
    by (simp add: macos_accept_def macos_leases_def macos_latest_def macos_lease_key_def)
  have "\<not> ok"
  proof
    assume ok
    with r have "macos_accepts latest' route' s' now' = (True, latest'')" by simp
    from macos_accepts_True(3) [OF this] l'(1)
    have fresh: "now' < ml_expires_at l'" "\<not> macos_lease_refused latest' l'" by auto
    from fresh(2) rec l'(3) have "l' = l" by (simp add: macos_lease_refused_def Let_def)
    with l'(4) fresh(1) show False by simp
  qed
  with r macos_accepts_False show ?thesis by auto
qed

section \<open>Example values\<close>

definition example_route :: gateway_route where
  "example_route =
     \<lparr>rt_placement_group_id = ''g'', rt_endpoint_node_id = ''n'', rt_model = ''m'',
      rt_target = ChildRelay ''peer'', rt_max_active_requests = 1, rt_max_context_tokens = 1024,
      rt_healthy = True, rt_memory_pressure = False, rt_temperature_millicelsius = None,
      rt_prefix_keys = []\<rparr>"

definition example_authority :: protection_authority where
  "example_authority =
     \<lparr>au_node_id = ''n'', au_core_installation_id = ''core'', au_watchdog_source_identity = ''wd'',
      au_watchdog_session_id = ''s1'', au_watchdog_session_generation = 1\<rparr>"

definition example_lease :: "nat \<Rightarrow> nat \<Rightarrow> protection_lease" where
  "example_lease sequence observed =
     \<lparr>pl_node_id = ''n'', pl_placement_group_id = ''g'', pl_placement_id = ''p'',
      pl_core_installation_id = ''core'', pl_watchdog_source_identity = ''wd'',
      pl_watchdog_session_id = ''s1'', pl_watchdog_session_generation = 1,
      pl_protection_generation = replicate 32 48, pl_container_name = ''c'',
      pl_container_id = ''cid'', pl_process_id = 42, pl_process_start_ticks = 7, pl_boot_id = ''b'',
      pl_cgroup = text_of ''/sys/fs/cgroup/li/engine'', pl_sample_sequence = sequence,
      pl_observed_at = observed, pl_observed_at_monotonic_milliseconds = observed,
      pl_expires_at = observed + 1000, pl_armed = True, pl_trip_latched = False\<rparr>"

definition example_snapshot :: "nat \<Rightarrow> nat \<Rightarrow> protection_snapshot" where
  "example_snapshot sequence observed =
     \<lparr>sn_placement_group_id = ''g'', sn_expected_placements = [(''p'', ''n'')],
      sn_authorities = [example_authority], sn_leases = [example_lease sequence observed]\<rparr>"

definition example_macos_lease :: "nat \<Rightarrow> macos_lease" where
  "example_macos_lease observed =
     \<lparr>ml_node_id = ''n'', ml_placement_group_id = ''g'', ml_placement_id = ''p'',
      ml_core_installation_id = ''core'', ml_executable_identity = ''exe'',
      ml_launchd_label = text_of ''ai.letsinfer.engine'', ml_launch_generation = ''lg'',
      ml_process_id = 42, ml_process_start_time_unix_milliseconds = 900,
      ml_observed_at = observed, ml_expires_at = observed + 1000\<rparr>"

definition example_macos_snapshot :: "nat \<Rightarrow> macos_snapshot" where
  "example_macos_snapshot observed =
     \<lparr>ms_placement_group_id = ''g'', ms_expected_placements = [(''p'', ''n'')],
      ms_leases = [example_macos_lease observed]\<rparr>"

lemmas example_defs = example_route_def example_authority_def example_lease_def example_snapshot_def
  example_macos_lease_def example_macos_snapshot_def

lemma example_accepted:
  "fst (accepts protection_state_default example_route (example_snapshot 5 100) 200)"
  by (simp add: accepts_def valid_snapshot_def example_defs protection_state_default_def authority_of_def
      lease_matches_def lease_key_def session_regressed_def lease_regressed_def Let_def)

lemma example_macos_accepted:
  "macos_accepts Map.empty example_route (example_macos_snapshot 1000) 1000
     = (True, [(''n'', ''p'') \<mapsto> example_macos_lease 1000])"
  by (simp add: macos_accepts_def example_defs macos_lease_key_def macos_lease_refused_def
      macos_insert_def)

definition lease_protects :: "gateway_route \<Rightarrow> protection_snapshot \<Rightarrow> nat \<Rightarrow> protection_lease \<Rightarrow> bool" where
  "lease_protects route s now l \<longleftrightarrow>
     pl_placement_group_id l = rt_placement_group_id route \<and>
     lease_key l \<in> set (sn_expected_placements s) \<and>
     pl_armed l \<and> \<not> pl_trip_latched l \<and> pl_observed_at l \<le> now \<and> now < pl_expires_at l \<and>
     (\<exists>a\<in>set (sn_authorities s). au_node_id a = pl_node_id l \<and>
        au_core_installation_id a = pl_core_installation_id l \<and>
        au_watchdog_source_identity a = pl_watchdog_source_identity l \<and>
        au_watchdog_session_id a = pl_watchdog_session_id l \<and>
        au_watchdog_session_generation a = pl_watchdog_session_generation l)"

section \<open>Properties\<close>

text \<open>
  C21: A snapshot is accepted only as a whole. After acceptance every expected placement of the route's
  group, the endpoint node's included, has exactly one lease, and each lease is for that group, armed,
  not tripped, current, and issued by the session of the authority of its node; the lease and the
  session are recorded. A rejected snapshot leaves the recorded marks unchanged.
\<close>

theorem accepted_group_is_protected:
  assumes "accepts st route s now = (ok, st')"
  shows "if ok then
      sn_placement_group_id s = rt_placement_group_id route \<and>
      (\<exists>p. (p, rt_endpoint_node_id route) \<in> set (sn_expected_placements s)) \<and>
      (\<forall>k\<in>set (sn_expected_placements s). \<exists>!l. l \<in> set (sn_leases s) \<and> lease_key l = k) \<and>
      (\<forall>l\<in>set (sn_leases s).
         lease_protects route s now l \<and>
         ps_latest st' (pl_node_id l, pl_placement_id l) = Some l \<and>
         ps_sessions st' (pl_node_id l) =
           Some (pl_watchdog_session_generation l, pl_watchdog_session_id l))
    else st' = st"
proof (cases ok)
  case False
  with assms accepts_False show ?thesis by auto
next
  case True
  with assms obtain ls where v: "valid_snapshot route s now = Some ls"
    and st': "st' = foldl insert_lease (foldl insert_session st (sn_authorities s)) ls"
    by (auto elim: accepts_True)
  note spec = valid_snapshot_spec [OF v]
  have "\<exists>!l. l \<in> set (sn_leases s) \<and> lease_key l = k" if "k \<in> set (sn_expected_placements s)" for k
  proof -
    from spec(5,8) that obtain l where "l \<in> set (sn_leases s)" "lease_key l = k"
      by (metis imageE)
    with spec(7) show ?thesis by (intro ex1I [of _ l]) (auto simp: distinct_map dest: inj_onD)
  qed
  moreover have "lease_protects route s now l \<and>
      ps_latest st' (pl_node_id l, pl_placement_id l) = Some l \<and>
      ps_sessions st' (pl_node_id l) = Some (pl_watchdog_session_generation l, pl_watchdog_session_id l)"
    if "l \<in> set (sn_leases s)" for l
  proof -
    from spec(5,9) that obtain a where a: "authority_of (sn_authorities s) (pl_node_id l) = Some a"
      "lease_matches s a now l" by auto
    then show ?thesis
      using authority_of_in [OF a(1)] latest_inserted [OF spec(6)] spec(1,5) that
      by (auto simp: st' sessions_after lease_matches_def lease_protects_def)
  qed
  ultimately show ?thesis using True spec(1,2) by simp
qed

theorem accepted_group_is_protected_witness:
  "\<exists>st'. accepts protection_state_default example_route (example_snapshot 5 100) 200 = (True, st') \<and>
     ps_latest st' (''n'', ''p'') = Some (example_lease 5 100) \<and> ps_sessions st' ''n'' = Some (1, ''s1'')"
proof -
  obtain ok st' where r: "accepts protection_state_default example_route (example_snapshot 5 100) 200 = (ok, st')"
    by force
  with example_accepted have ok by simp
  with r accepted_group_is_protected [OF r] show ?thesis
    by (simp add: example_snapshot_def example_lease_def)
qed

text \<open>
  C22: Over any series of snapshots, accepted and rejected ones mixed, the leases accepted for one
  placement on one node never go back: each later one is from a newer Watchdog session, or from the same
  session with no counter or clock moved back, and a sample number is never used for two different
  leases.
\<close>

theorem protection_history_never_rolls_back:
  "sorted_wrt (\<lambda>p l. lease_key p = lease_key l \<longrightarrow> supersedes p l)
     (snd (accept_all linux_accept linux_leases protection_state_default calls))"
  by (rule linux.history_ordered) (simp add: sessions_cover_def protection_state_default_def)

theorem protection_history_never_rolls_back_witness:
  "sorted_wrt (\<lambda>p l. lease_key p = lease_key l \<longrightarrow> supersedes p l)
     (snd (accept_all linux_accept linux_leases protection_state_default
        [(example_route, example_snapshot 5 100, 200), (example_route, example_snapshot 6 150, 200),
         (example_route, example_snapshot 5 100, 200)])) \<and>
   snd (accept_all linux_accept linux_leases protection_state_default
        [(example_route, example_snapshot 5 100, 200), (example_route, example_snapshot 6 150, 200),
         (example_route, example_snapshot 5 100, 200)]) = [example_lease 5 100, example_lease 6 150]"
  by (rule conjI, rule protection_history_never_rolls_back)
    (simp add: linux_accept_def linux_leases_def accepts_def valid_snapshot_def example_defs
      protection_state_default_def authority_of_def lease_matches_def lease_key_def
      session_regressed_def lease_regressed_def insert_lease_def insert_session_def Let_def)

text \<open>
  C38: Once a macOS lease of a process has been accepted, every snapshot with a fresh observation of that
  same process is refused, and from the expiry of the accepted lease on so is the lease itself: no series
  of snapshots of the unchanged process is ever accepted again.
\<close>

theorem macos_lease_renewal_refused:
  assumes "macos_accepts latest route s now = (True, latest')" and "l \<in> set (ms_leases s)"
    and "\<forall>(route', s', now')\<in>set calls. \<exists>l'\<in>set (ms_leases s').
           macos_lease_key l' = macos_lease_key l \<and> same_process l' l \<and>
           (l' \<noteq> l \<or> ml_expires_at l \<le> now')"
  shows "(\<forall>c\<in>set calls. macos_accept latest' c = (False, latest')) \<and>
    accept_all macos_accept macos_leases latest' calls = (latest', [])"
proof -
  have each: "\<forall>c\<in>set calls. macos_accept latest' c = (False, latest')"
    using assms(3) by (auto simp: macos_accept_def intro: macos_same_process_refused [OF assms(1,2)])
  then have "accept_all macos_accept macos_leases latest' calls = (latest', [])"
    by (induction calls) auto
  with each show ?thesis by blast
qed

theorem macos_lease_renewal_refused_witness:
  "macos_accept [(''n'', ''p'') \<mapsto> example_macos_lease 1000] (example_route, example_macos_snapshot 1500, 1500)
     = (False, [(''n'', ''p'') \<mapsto> example_macos_lease 1000]) \<and>
   macos_accept [(''n'', ''p'') \<mapsto> example_macos_lease 1000] (example_route, example_macos_snapshot 9000, 9000)
     = (False, [(''n'', ''p'') \<mapsto> example_macos_lease 1000])"
  using macos_lease_renewal_refused [OF example_macos_accepted, of "example_macos_lease 1000"
      "[(example_route, example_macos_snapshot 1500, 1500), (example_route, example_macos_snapshot 9000, 9000)]"]
  by (simp add: example_macos_snapshot_def example_macos_lease_def macos_lease_key_def same_process_def)

text \<open>
  The type of a constructed lease. Construction succeeds exactly for a 32-digit lowercase
  hexadecimal generation, a process above 1 with a start and an observation time, a lifetime of 1 to 60000
  milliseconds, and a cgroup path of at most 4095 bytes below the cgroup root whose components are
  nonempty, are not "." or "..", and have no separator, control, white space or equals character.
\<close>

theorem protection_lease_type:
  "protection_lease_new l = Inr l' \<longleftrightarrow>
     l' = l \<and> length (pl_protection_generation l) = 32 \<and>
     list_all (\<lambda>c. c \<in> set (text_of ''0123456789abcdef'')) (pl_protection_generation l) \<and>
     1 < pl_process_id l \<and> 0 < pl_process_start_ticks l \<and> 0 < pl_observed_at_monotonic_milliseconds l \<and>
     pl_observed_at l < pl_expires_at l \<and> pl_expires_at l \<le> pl_observed_at l + 60000 \<and>
     text_len (pl_cgroup l) \<le> 4095 \<and>
     list_all (\<lambda>c. \<not> is_control c \<and> \<not> is_whitespace c \<and> c \<noteq> 61) (pl_cgroup l) \<and>
     (\<exists>parts. parts \<noteq> [] \<and> list_all safe_part parts \<and> pl_cgroup l = cgroup_root @ join slash parts)"
proof -
  have "valid_protection_generation v \<longleftrightarrow> length v = 32 \<and>
      list_all (\<lambda>c. c \<in> set (text_of ''0123456789abcdef'')) v" for v
    by (rule valid_protection_generation_iff)
  then show ?thesis
    unfolding protection_lease_new_def valid_cgroup_iff MAXIMUM_PROTECTION_LEASE_MILLISECONDS_def
    by auto
qed

end
