(* ===== verification/GatewayTelemetry.thy ===== *)
theory GatewayTelemetry
  imports GatewayContract CoreText
begin

text \<open>
  Gateway telemetry (\<open>core/gateway/src/li_gateway_telemetry.rs\<close>): the saturating counters that the
  manager updates under its lock, the bounded activity per placement group, the snapshot, and the
  publisher that projects a snapshot on the telemetry-v2 text. The replacement of the file is a
  parameter. Token rates are floating-point numbers; the integers they are computed from are kept
  instead.
\<close>

section \<open>Counters\<close>

definition MAX_PLACEMENT_GROUP_ACTIVITY :: nat where "MAX_PLACEMENT_GROUP_ACTIVITY = 4096"
definition MAX_PLACEMENT_GROUP_SAMPLES :: nat where "MAX_PLACEMENT_GROUP_SAMPLES = 16384"
definition PLACEMENT_GROUP_RATE_WINDOW_MILLISECONDS :: nat where
  "PLACEMENT_GROUP_RATE_WINDOW_MILLISECONDS = 5000"
definition TELEMETRY_STALE_MILLISECONDS :: nat where "TELEMETRY_STALE_MILLISECONDS = 3500"
definition TELEMETRY_V2_MAX_BYTES :: nat where "TELEMETRY_V2_MAX_BYTES = 4096"

record telemetry_counters =
  tc_requests_received :: nat
  tc_requests_admitted :: nat
  tc_requests_completed :: nat
  tc_requests_failed :: nat
  tc_requests_cancelled :: nat
  tc_requests_retried :: nat
  tc_active_requests :: nat
  tc_queued_requests :: nat
  tc_input_tokens :: nat
  tc_output_tokens :: nat
  tc_cached_tokens :: nat
  tc_queue_milliseconds :: nat
  tc_ttft_milliseconds :: nat
  tc_decode_milliseconds :: nat
  tc_exact_token_requests :: nat
  tc_prefix_cache_hits :: nat

definition telemetry_counters_default :: telemetry_counters where
  "telemetry_counters_default =
     \<lparr>tc_requests_received = 0, tc_requests_admitted = 0, tc_requests_completed = 0,
      tc_requests_failed = 0, tc_requests_cancelled = 0, tc_requests_retried = 0,
      tc_active_requests = 0, tc_queued_requests = 0, tc_input_tokens = 0, tc_output_tokens = 0,
      tc_cached_tokens = 0, tc_queue_milliseconds = 0, tc_ttft_milliseconds = 0,
      tc_decode_milliseconds = 0, tc_exact_token_requests = 0, tc_prefix_cache_hits = 0\<rparr>"

record group_counters =
  gc_requests_admitted :: nat
  gc_requests_completed :: nat
  gc_requests_failed :: nat
  gc_requests_cancelled :: nat
  gc_requests_retried :: nat
  gc_input_tokens :: nat
  gc_output_tokens :: nat
  gc_cached_tokens :: nat

definition group_counters_default :: group_counters where
  "group_counters_default =
     \<lparr>gc_requests_admitted = 0, gc_requests_completed = 0, gc_requests_failed = 0,
      gc_requests_cancelled = 0, gc_requests_retried = 0, gc_input_tokens = 0, gc_output_tokens = 0,
      gc_cached_tokens = 0\<rparr>"

record telemetry_timing =
  tt_queue_milliseconds :: nat
  tt_ttft_milliseconds :: nat
  tt_decode_milliseconds :: nat

text \<open>\<open>option.zip(other).map_or(0, |(a, b)| b.saturating_sub(a))\<close>.\<close>

definition elapsed_between :: "nat option \<Rightarrow> nat option \<Rightarrow> nat" where
  "elapsed_between a b = (case (a, b) of (Some x, Some y) \<Rightarrow> y - x | _ \<Rightarrow> 0)"

definition from_observations ::
  "nat \<Rightarrow> nat option \<Rightarrow> nat option \<Rightarrow> nat option \<Rightarrow> telemetry_timing" where
  "from_observations queue dispatched_at first_byte_at completed_at =
     \<lparr>tt_queue_milliseconds = queue,
      tt_ttft_milliseconds = elapsed_between dispatched_at first_byte_at,
      tt_decode_milliseconds = elapsed_between first_byte_at completed_at\<rparr>"

definition telemetry_timing_default :: telemetry_timing where
  "telemetry_timing_default =
     \<lparr>tt_queue_milliseconds = 0, tt_ttft_milliseconds = 0, tt_decode_milliseconds = 0\<rparr>"

record group_telemetry =
  gt_model :: logical_model_name
  gt_endpoint_node_id :: node_id
  gt_max_active_requests :: nat
  gt_counters :: group_counters

record group_sample =
  gs_observed_at :: nat
  gs_placement_group_id :: placement_group_id
  gs_input_tokens :: nat
  gs_output_tokens :: nat
  gs_cached_tokens :: nat

record telemetry_state =
  te_counters :: telemetry_counters
  te_placement_groups :: "(placement_group_id \<times> group_telemetry) list"
  te_placement_group_samples :: "group_sample list"
  te_last_publish_success :: "nat option"
  te_last_publish_failure :: "nat option"

definition telemetry_state_default :: telemetry_state where
  "telemetry_state_default =
     \<lparr>te_counters = telemetry_counters_default, te_placement_groups = [],
      te_placement_group_samples = [], te_last_publish_success = None,
      te_last_publish_failure = None\<rparr>"

section \<open>Recording\<close>

definition increment :: "nat \<Rightarrow> nat \<Rightarrow> nat" where
  "increment value delta = saturating_add64 value delta"

definition record_timing :: "telemetry_state \<Rightarrow> telemetry_timing \<Rightarrow> telemetry_state" where
  "record_timing st t =
     (let c = te_counters st in
      st\<lparr>te_counters := c\<lparr>
           tc_queue_milliseconds := increment (tc_queue_milliseconds c) (tt_queue_milliseconds t),
           tc_ttft_milliseconds := increment (tc_ttft_milliseconds c) (tt_ttft_milliseconds t),
           tc_decode_milliseconds := increment (tc_decode_milliseconds c) (tt_decode_milliseconds t)\<rparr>\<rparr>)"

text \<open>
  \<open>group\<close> returns a mutable reference to the row of the route's group, after inserting it when there
  is room and refreshing its description; \<open>with_group\<close> applies \<open>f\<close> to the counters of that row.
\<close>

definition with_group ::
  "telemetry_state \<Rightarrow> gateway_route \<Rightarrow> (group_counters \<Rightarrow> group_counters) \<Rightarrow> telemetry_state" where
  "with_group st route f =
     (let gid = rt_placement_group_id route; groups = te_placement_groups st;
          current = (case map_of groups gid of
                       Some g \<Rightarrow> Some (gt_counters g)
                     | None \<Rightarrow> if length groups \<ge> MAX_PLACEMENT_GROUP_ACTIVITY then None
                              else Some group_counters_default)
      in case current of
           None \<Rightarrow> st
         | Some c \<Rightarrow>
             st\<lparr>te_placement_groups := AList.update gid
                  \<lparr>gt_model = rt_model route, gt_endpoint_node_id = rt_endpoint_node_id route,
                   gt_max_active_requests = rt_max_active_requests route, gt_counters = f c\<rparr> groups\<rparr>)"

definition record_received :: "telemetry_state \<Rightarrow> telemetry_state" where
  "record_received st =
     st\<lparr>te_counters := (te_counters st)\<lparr>
          tc_requests_received := increment (tc_requests_received (te_counters st)) 1\<rparr>\<rparr>"

definition record_unrouted_failure_with_timing ::
  "telemetry_state \<Rightarrow> telemetry_timing \<Rightarrow> telemetry_state" where
  "record_unrouted_failure_with_timing st t =
     record_timing (st\<lparr>te_counters := (te_counters st)\<lparr>
        tc_requests_failed := increment (tc_requests_failed (te_counters st)) 1\<rparr>\<rparr>) t"

definition record_unrouted_failure :: "telemetry_state \<Rightarrow> telemetry_state" where
  "record_unrouted_failure st = record_unrouted_failure_with_timing st telemetry_timing_default"

definition record_admitted :: "telemetry_state \<Rightarrow> gateway_route \<Rightarrow> telemetry_state" where
  "record_admitted st route =
     with_group (st\<lparr>te_counters := (te_counters st)\<lparr>
        tc_requests_admitted := increment (tc_requests_admitted (te_counters st)) 1\<rparr>\<rparr>) route
       (\<lambda>c. c\<lparr>gc_requests_admitted := increment (gc_requests_admitted c) 1\<rparr>)"

definition record_retried :: "telemetry_state \<Rightarrow> gateway_route \<Rightarrow> telemetry_state" where
  "record_retried st route =
     with_group (st\<lparr>te_counters := (te_counters st)\<lparr>
        tc_requests_retried := increment (tc_requests_retried (te_counters st)) 1\<rparr>\<rparr>) route
       (\<lambda>c. c\<lparr>gc_requests_retried := increment (gc_requests_retried c) 1\<rparr>)"

definition record_group_sample ::
  "telemetry_state \<Rightarrow> placement_group_id \<Rightarrow> nat \<Rightarrow> nat \<Rightarrow> nat \<Rightarrow> nat \<Rightarrow> telemetry_state" where
  "record_group_sample st gid observed_at input output cached =
     (if map_of (te_placement_groups st) gid = None then st
      else let samples = te_placement_group_samples st @
                 [\<lparr>gs_observed_at = observed_at, gs_placement_group_id = gid,
                   gs_input_tokens = input, gs_output_tokens = output, gs_cached_tokens = cached\<rparr>]
           in st\<lparr>te_placement_group_samples :=
                drop (length samples - MAX_PLACEMENT_GROUP_SAMPLES) samples\<rparr>)"

definition record_completed ::
  "telemetry_state \<Rightarrow> gateway_route \<Rightarrow> nat \<Rightarrow> telemetry_timing \<Rightarrow> nat \<Rightarrow> nat \<Rightarrow> nat \<Rightarrow> bool \<Rightarrow>
   telemetry_state" where
  "record_completed st route observed_at timing input output cached exact_tokens =
     (let c = te_counters st;
          st1 = st\<lparr>te_counters := c\<lparr>
            tc_requests_completed := increment (tc_requests_completed c) 1,
            tc_input_tokens := increment (tc_input_tokens c) input,
            tc_output_tokens := increment (tc_output_tokens c) output,
            tc_cached_tokens := increment (tc_cached_tokens c) cached\<rparr>\<rparr>;
          st2 = record_timing st1 timing;
          c2 = te_counters st2;
          st3 = (if exact_tokens
                 then st2\<lparr>te_counters := c2\<lparr>
                   tc_exact_token_requests := increment (tc_exact_token_requests c2) 1\<rparr>\<rparr>
                 else st2);
          c3 = te_counters st3;
          st4 = (if cached > 0
                 then st3\<lparr>te_counters := c3\<lparr>
                   tc_prefix_cache_hits := increment (tc_prefix_cache_hits c3) 1\<rparr>\<rparr>
                 else st3);
          st5 = with_group st4 route (\<lambda>g. g\<lparr>
            gc_requests_completed := increment (gc_requests_completed g) 1,
            gc_input_tokens := increment (gc_input_tokens g) input,
            gc_output_tokens := increment (gc_output_tokens g) output,
            gc_cached_tokens := increment (gc_cached_tokens g) cached\<rparr>)
      in record_group_sample st5 (rt_placement_group_id route) observed_at input output cached)"

definition record_failed :: "telemetry_state \<Rightarrow> gateway_route \<Rightarrow> telemetry_timing \<Rightarrow> telemetry_state" where
  "record_failed st route timing =
     with_group (record_timing (st\<lparr>te_counters := (te_counters st)\<lparr>
        tc_requests_failed := increment (tc_requests_failed (te_counters st)) 1\<rparr>\<rparr>) timing) route
       (\<lambda>c. c\<lparr>gc_requests_failed := increment (gc_requests_failed c) 1\<rparr>)"

definition record_cancelled ::
  "telemetry_state \<Rightarrow> gateway_route option \<Rightarrow> telemetry_timing \<Rightarrow> telemetry_state" where
  "record_cancelled st route timing =
     (let st1 = record_timing (st\<lparr>te_counters := (te_counters st)\<lparr>
        tc_requests_cancelled := increment (tc_requests_cancelled (te_counters st)) 1\<rparr>\<rparr>) timing
      in case route of
           None \<Rightarrow> st1
         | Some r \<Rightarrow> with_group st1 r
             (\<lambda>c. c\<lparr>gc_requests_cancelled := increment (gc_requests_cancelled c) 1\<rparr>))"

definition publisher_did_succeed :: "telemetry_state \<Rightarrow> nat \<Rightarrow> telemetry_state" where
  "publisher_did_succeed st observed_at =
     st\<lparr>te_last_publish_success := Some observed_at, te_last_publish_failure := None\<rparr>"

definition publisher_did_fail :: "telemetry_state \<Rightarrow> nat \<Rightarrow> telemetry_state" where
  "publisher_did_fail st observed_at = st\<lparr>te_last_publish_failure := Some observed_at\<rparr>"

record telemetry_health =
  th_healthy :: bool
  th_last_success_at :: "nat option"
  th_last_failure_at :: "nat option"

definition health :: "telemetry_state \<Rightarrow> nat \<Rightarrow> telemetry_health" where
  "health st observed_at =
     \<lparr>th_healthy = (case te_last_publish_success st of
                      None \<Rightarrow> False
                    | Some success \<Rightarrow>
                        te_last_publish_failure st = None \<and> success \<le> observed_at \<and>
                        observed_at - success \<le> TELEMETRY_STALE_MILLISECONDS),
      th_last_success_at = te_last_publish_success st,
      th_last_failure_at = te_last_publish_failure st\<rparr>"

section \<open>Snapshots\<close>

definition prune_samples :: "telemetry_state \<Rightarrow> nat \<Rightarrow> telemetry_state" where
  "prune_samples st observed_at =
     st\<lparr>te_placement_group_samples :=
          dropWhile (\<lambda>s. gs_observed_at s < observed_at - PLACEMENT_GROUP_RATE_WINDOW_MILLISECONDS)
            (te_placement_group_samples st)\<rparr>"

type_synonym sample_totals = "nat \<times> nat \<times> nat \<times> nat"

definition add_sample ::
  "(placement_group_id \<times> sample_totals) list \<Rightarrow> group_sample \<Rightarrow> (placement_group_id \<times> sample_totals) list" where
  "add_sample totals s =
     (let (i, o1, c, first) = (case map_of totals (gs_placement_group_id s) of
                                Some row \<Rightarrow> row | None \<Rightarrow> (0, 0, 0, gs_observed_at s))
      in AList.update (gs_placement_group_id s)
           (saturating_add64 i (gs_input_tokens s), saturating_add64 o1 (gs_output_tokens s),
            saturating_add64 c (gs_cached_tokens s), min first (gs_observed_at s)) totals)"

definition recent_sample_totals :: "telemetry_state \<Rightarrow> (placement_group_id \<times> sample_totals) list" where
  "recent_sample_totals st = foldl add_sample [] (te_placement_group_samples st)"

record model_activity =
  ma_model :: logical_model_name
  ma_queued_requests :: nat

record group_activity =
  ga_placement_group_id :: placement_group_id
  ga_model :: logical_model_name
  ga_endpoint_node_id :: node_id
  ga_active_requests :: nat
  ga_max_active_requests :: nat
  ga_counters :: group_counters
  ga_recent_tokens :: "nat \<times> nat \<times> nat"
  ga_elapsed_milliseconds :: nat

record telemetry_snapshot =
  ts_observed_at :: nat
  ts_counters :: telemetry_counters
  ts_models :: "model_activity list"
  ts_placement_groups :: "group_activity list"

definition count_model :: "(logical_model_name \<times> nat) list \<Rightarrow> logical_model_name \<Rightarrow> (logical_model_name \<times> nat) list" where
  "count_model queued model =
     AList.update model (increment (case map_of queued model of Some n \<Rightarrow> n | None \<Rightarrow> 0) 1) queued"

definition snapshot ::
  "telemetry_state \<Rightarrow> nat \<Rightarrow> nat \<Rightarrow> logical_model_name list \<Rightarrow> (placement_group_id \<times> nat) list \<Rightarrow>
   telemetry_snapshot \<times> telemetry_state" where
  "snapshot st observed_at active queued_models route_active =
     (let st1 = prune_samples st observed_at;
          queued = sort_key fst (foldl count_model [] queued_models);
          recent = recent_sample_totals st1
      in (\<lparr>ts_observed_at = observed_at,
           ts_counters = (te_counters st1)\<lparr>
             tc_active_requests := min active u64_max,
             tc_queued_requests := foldl saturating_add64 0 (map snd queued)\<rparr>,
           ts_models = map (\<lambda>(model, n). \<lparr>ma_model = model, ma_queued_requests = n\<rparr>) queued,
           ts_placement_groups = map (\<lambda>(gid, g).
             let (i, o1, c, first) = (case map_of recent gid of Some row \<Rightarrow> row | None \<Rightarrow> (0, 0, 0, 0))
             in \<lparr>ga_placement_group_id = gid, ga_model = gt_model g,
                 ga_endpoint_node_id = gt_endpoint_node_id g,
                 ga_active_requests = (case map_of route_active gid of Some n \<Rightarrow> n | None \<Rightarrow> 0),
                 ga_max_active_requests = gt_max_active_requests g, ga_counters = gt_counters g,
                 ga_recent_tokens = (i, o1, c),
                 ga_elapsed_milliseconds = max (observed_at - first) 1000\<rparr>)
             (sort_key fst (te_placement_groups st1))\<rparr>, st1))"

section \<open>Publication\<close>

record runtime_counters =
  rc_connected_clients :: nat
  rc_usage_records_dropped :: nat
  rc_usage_write_errors :: nat

record v2_record =
  v2_active_requests :: nat
  v2_connected_clients :: nat
  v2_queued_requests :: nat
  v2_counters :: "nat list"

definition telemetry_contract_error :: "string \<Rightarrow> gateway_error" where
  "telemetry_contract_error reason = InvalidContract reason"

definition from_snapshot :: "telemetry_snapshot \<Rightarrow> runtime_counters \<Rightarrow> gateway_error + v2_record" where
  "from_snapshot s runtime =
     (let c = ts_counters s in
      bind_result (ensure (tc_active_requests c \<le> u32_max)
        (telemetry_contract_error ''active request gauge is out of range'')) (\<lambda>_.
      bind_result (ensure (tc_queued_requests c \<le> u32_max)
        (telemetry_contract_error ''queued request gauge is out of range'')) (\<lambda>_.
      Inr \<lparr>v2_active_requests = tc_active_requests c,
           v2_connected_clients = rc_connected_clients runtime,
           v2_queued_requests = tc_queued_requests c,
           v2_counters =
             [tc_requests_received c, tc_requests_admitted c, tc_requests_completed c,
              tc_requests_failed c, tc_requests_cancelled c, tc_requests_retried c,
              tc_input_tokens c, tc_output_tokens c, tc_cached_tokens c, tc_queue_milliseconds c,
              tc_ttft_milliseconds c, tc_decode_milliseconds c, tc_exact_token_requests c,
              tc_prefix_cache_hits c, rc_usage_records_dropped runtime,
              rc_usage_write_errors runtime]\<rparr>)))"

definition counters_follow :: "nat list \<Rightarrow> nat list \<Rightarrow> bool" where
  "counters_follow current previous \<longleftrightarrow> list_all (\<lambda>(c, p). p \<le> c) (zip current previous)"

definition v2_follows :: "v2_record \<Rightarrow> v2_record \<Rightarrow> bool" where
  "v2_follows r previous = counters_follow (v2_counters r) (v2_counters previous)"

definition field_line :: "string \<Rightarrow> nat \<Rightarrow> byte list" where
  "field_line name value = ascii name @ 61 # decimal value @ [10]"

definition payload_fields :: "v2_record \<Rightarrow> (string \<times> nat) list" where
  "payload_fields r =
     (let c = v2_counters r in
      [(''active_requests'', v2_active_requests r), (''cached_tokens'', c ! 8),
       (''connected_clients'', v2_connected_clients r), (''decode_milliseconds'', c ! 11),
       (''exact_token_requests'', c ! 12), (''input_tokens'', c ! 6), (''output_tokens'', c ! 7),
       (''prefix_cache_hits'', c ! 13), (''queue_milliseconds'', c ! 9),
       (''queued_requests'', v2_queued_requests r), (''requests_admitted'', c ! 1),
       (''requests_cancelled'', c ! 4), (''requests_completed'', c ! 2), (''requests_failed'', c ! 3),
       (''requests_received'', c ! 0), (''requests_retried'', c ! 5), (''ttft_milliseconds'', c ! 10),
       (''usage_records_dropped'', c ! 14), (''usage_write_errors'', c ! 15)])"

definition payload :: "v2_record \<Rightarrow> byte list" where
  "payload r = field_line ''version'' 2 @ concat (map (\<lambda>(name, value). field_line name value) (payload_fields r))"

record publisher_state =
  pu_observed_at :: nat
  pu_record :: v2_record

text \<open>
  \<open>replace\<close> is the outcome of the atomic replacement of the file with the given content, \<open>identity\<close> the
  outcome of drawing a temporary name, \<open>runtime\<close> the observed runtime counters. The result carries the
  bytes that were put in place.
\<close>

definition publish_atomically ::
  "publisher_state option \<Rightarrow> telemetry_snapshot \<Rightarrow> gateway_error + runtime_counters \<Rightarrow>
   gateway_error + string \<Rightarrow> (byte list \<Rightarrow> string \<Rightarrow> gateway_error + unit) \<Rightarrow>
   (gateway_error + byte list) \<times> publisher_state option" where
  "publish_atomically st s runtime identity replace =
     (case bind_result (map_err (\<lambda>_. Provider ''telemetry_runtime_counters'' ''runtime counters are unavailable'')
              runtime) (from_snapshot s) of
        Inl e \<Rightarrow> (Inl e, st)
      | Inr r \<Rightarrow>
          if length (payload r) > TELEMETRY_V2_MAX_BYTES
          then (Inl (telemetry_contract_error ''telemetry payload exceeds its bound''), st)
          else if (case st of None \<Rightarrow> False
                   | Some previous \<Rightarrow> ts_observed_at s < pu_observed_at previous \<or>
                                      \<not> v2_follows r (pu_record previous))
          then (Inl (telemetry_contract_error ''telemetry sequence regressed''), st)
          else case bind_result identity (replace (payload r)) of
                 Inl e \<Rightarrow> (Inl e, st)
               | Inr _ \<Rightarrow> (Inr (payload r), Some \<lparr>pu_observed_at = ts_observed_at s, pu_record = r\<rparr>))"

end
