(* ===== verification/GatewayManager.thy ===== *)
theory GatewayManager
  imports GatewayTelemetry GatewayProtection
begin

text \<open>
  The Gateway manager (\<open>core/gateway/src/li_gateway_manager.rs\<close>): live limits of the API keys, the FIFO
  queue, route selection, reservations and their release. \<open>gateway_state\<close> is the state under the
  manager's lock; a hash map is an association list. Every operation is its locked section, a function
  of the state and of what the operation read before (clock, routes, recent usage), followed by the
  operation that calls the providers and the section in the order of the code.
\<close>

section \<open>State\<close>

definition ROLLING_WINDOW_MILLISECONDS :: nat where "ROLLING_WINDOW_MILLISECONDS = 60000"
definition MAX_QUEUED_REQUESTS :: nat where "MAX_QUEUED_REQUESTS = 1024"
definition MAX_BACKEND_FAILURES :: nat where "MAX_BACKEND_FAILURES = 16"
definition MAX_BACKEND_COOLDOWN_MILLISECONDS :: nat where "MAX_BACKEND_COOLDOWN_MILLISECONDS = 60000"
definition PREFIX_AFFINITY_MILLISECONDS :: nat where "PREFIX_AFFINITY_MILLISECONDS = 60 * 60 * 1000"
definition MAX_PREFIX_AFFINITY_ENTRIES :: nat where "MAX_PREFIX_AFFINITY_ENTRIES = 4096"

record queued_request =
  qr_request :: gateway_request
  qr_principal :: "gateway_principal option"
  qr_received_at :: unix_milliseconds
  qr_enqueued_at :: nat
  qr_queued_milliseconds :: nat
  qr_reserved_tokens :: nat
  qr_was_admitted :: bool

record gateway_state =
  g_loaded_keys :: "api_key_id set"
  g_request_windows :: "(api_key_id \<times> nat list) list"
  g_token_windows :: "(api_key_id \<times> (nat \<times> nat) list) list"
  g_principal_active :: "(api_key_id \<times> nat) list"
  g_principal_reserved_tokens :: "(api_key_id \<times> nat) list"
  g_route_active :: "(placement_group_id \<times> nat) list"
  g_failure_counts :: "(placement_group_id \<times> nat) list"
  g_unavailable_until :: "(placement_group_id \<times> nat) list"
  g_prefix_affinity :: "((logical_model_name \<times> sha256_digest) \<times> (placement_group_id \<times> nat)) list"
  g_active_requests :: "(sha256_digest \<times> placement_group_id) list"
  g_queue_order :: "sha256_digest list"
  g_queued :: "(sha256_digest \<times> queued_request) list"
  g_telemetry :: telemetry_state

definition gateway_state_default :: gateway_state where
  "gateway_state_default =
     \<lparr>g_loaded_keys = {}, g_request_windows = [], g_token_windows = [], g_principal_active = [],
      g_principal_reserved_tokens = [], g_route_active = [], g_failure_counts = [],
      g_unavailable_until = [], g_prefix_affinity = [], g_active_requests = [], g_queue_order = [],
      g_queued = [], g_telemetry = telemetry_state_default\<rparr>"

datatype route_selection = Selected gateway_route | Busy

text \<open>\<open>map.get(key).copied().unwrap_or(default)\<close>.\<close>

definition get_or :: "'v \<Rightarrow> ('k \<times> 'v) list \<Rightarrow> 'k \<Rightarrow> 'v" where
  "get_or d t k = (case map_of t k of None \<Rightarrow> d | Some v \<Rightarrow> v)"

section \<open>Admission policy\<close>

definition require_new_request :: "gateway_state \<Rightarrow> sha256_digest \<Rightarrow> gateway_error + unit" where
  "require_new_request st rid =
     (if map_of (g_active_requests st) rid \<noteq> None \<or> map_of (g_queued st) rid \<noteq> None
      then Inl DuplicateRequest else Inr ())"

definition load_usage :: "api_key_id \<Rightarrow> gateway_state \<Rightarrow> usage_record \<Rightarrow> gateway_state" where
  "load_usage key st u =
     st\<lparr>g_request_windows :=
          AList.update key (get_or [] (g_request_windows st) key @ [us_received_at u]) (g_request_windows st),
        g_token_windows :=
          AList.update key (get_or [] (g_token_windows st) key @ [(us_completed_at u, us_tokens u)])
            (g_token_windows st)\<rparr>"

definition load_recent_usage ::
  "gateway_state \<Rightarrow> api_key_id \<Rightarrow> usage_record list \<Rightarrow> nat \<Rightarrow> nat \<Rightarrow> (gateway_error + unit) \<times> gateway_state" where
  "load_recent_usage st key recent since now =
     (if list_ex (\<lambda>u. us_key_id u \<noteq> key \<or> us_received_at u < since \<or> us_completed_at u > now) recent
      then (Inl (InvalidContract ''gateway usage store returned a foreign or out-of-window record''), st)
      else if key \<in> g_loaded_keys st then (Inr (), st)
      else (Inr (), foldl (load_usage key) (st\<lparr>g_loaded_keys := insert key (g_loaded_keys st)\<rparr>) recent))"

text \<open>
  The sum of the token window is a plain \<open>u64\<close> sum, which wraps around.
\<close>

definition used_tokens :: "(nat \<times> nat) list \<Rightarrow> nat" where
  "used_tokens window = sum_list (map snd window) mod 2 ^ 64"

definition exceeds :: "nat \<Rightarrow> nat option \<Rightarrow> bool" where
  "exceeds value limit = (case limit of None \<Rightarrow> False | Some l \<Rightarrow> value > l)"

definition reaches :: "nat \<Rightarrow> nat option \<Rightarrow> bool" where
  "reaches value limit = (case limit of None \<Rightarrow> False | Some l \<Rightarrow> value \<ge> l)"

definition admit_principal ::
  "gateway_state \<Rightarrow> gateway_principal \<Rightarrow> gateway_request \<Rightarrow> nat \<Rightarrow> (gateway_error + unit) \<times> gateway_state" where
  "admit_principal st p r now =
     (let key = pr_key_id p;
          cutoff = now - ROLLING_WINDOW_MILLISECONDS;
          requests = dropWhile (\<lambda>v. v \<le> cutoff) (get_or [] (g_request_windows st) key);
          tokens = dropWhile (\<lambda>(observed, _). observed \<le> cutoff) (get_or [] (g_token_windows st) key);
          st1 = st\<lparr>g_request_windows := AList.update key requests (g_request_windows st),
                   g_token_windows := AList.update key tokens (g_token_windows st)\<rparr>;
          limits = pr_limits p
      in if exceeds (rq_context_tokens r) (context_tokens limits) then (Inl ContextTooLarge, st1)
         else if reaches (length requests) (requests_per_minute limits) then (Inl RequestRateLimit, st1)
         else
           let active = get_or 0 (g_principal_active st1) key;
               admitted = (\<lambda>s. s\<lparr>g_request_windows := AList.update key (requests @ [now]) (g_request_windows s),
                                 g_principal_active := AList.update key (active + 1) (g_principal_active s)\<rparr>)
           in if reaches active (concurrency limits) then (Inl ConcurrencyLimit, st1)
              else case tokens_per_minute limits of
                     None \<Rightarrow> (Inr (), admitted st1)
                   | Some limit \<Rightarrow>
                       let used = used_tokens tokens;
                           reserved = get_or 0 (g_principal_reserved_tokens st1) key
                       in if (case Option.bind (checked_add64 used reserved)
                                     (\<lambda>v. checked_add64 v (token_demand r)) of
                                None \<Rightarrow> True | Some v \<Rightarrow> v > limit)
                          then (Inl TokenRateLimit, st1)
                          else (Inr (), admitted (st1\<lparr>g_principal_reserved_tokens :=
                                 AList.update key (reserved + token_demand r)
                                   (g_principal_reserved_tokens st1)\<rparr>)))"

definition release_principal :: "gateway_state \<Rightarrow> gateway_principal option \<Rightarrow> nat \<Rightarrow> gateway_state" where
  "release_principal st holder reserved_tokens =
     (case holder of
        None \<Rightarrow> st
      | Some p \<Rightarrow>
          let key = pr_key_id p;
              active = get_or 0 (g_principal_active st) key;
              st1 = st\<lparr>g_principal_active :=
                         (if active \<le> 1 then AList.delete key (g_principal_active st)
                          else AList.update key (active - 1) (g_principal_active st))\<rparr>
          in if reserved_tokens > 0
             then let reserved = get_or 0 (g_principal_reserved_tokens st1) key - reserved_tokens
                  in st1\<lparr>g_principal_reserved_tokens :=
                       (if reserved = 0 then AList.delete key (g_principal_reserved_tokens st1)
                        else AList.update key reserved (g_principal_reserved_tokens st1))\<rparr>
             else st1)"

section \<open>Route selection\<close>

definition route_active :: "gateway_state \<Rightarrow> gateway_route \<Rightarrow> nat" where
  "route_active st r = get_or 0 (g_route_active st) (rt_placement_group_id r)"

definition out_of_cooldown :: "gateway_state \<Rightarrow> nat \<Rightarrow> gateway_route \<Rightarrow> bool" where
  "out_of_cooldown st now r =
     (case map_of (g_unavailable_until st) (rt_placement_group_id r) of
        None \<Rightarrow> True | Some deadline \<Rightarrow> deadline \<le> now)"

definition affinity_of :: "gateway_state \<Rightarrow> gateway_request \<Rightarrow> nat \<Rightarrow> placement_group_id option" where
  "affinity_of st r now =
     (case rq_prefix_key r of
        None \<Rightarrow> None
      | Some key \<Rightarrow> (case map_of (g_prefix_affinity st) (rq_model r, key) of
                       None \<Rightarrow> None
                     | Some (gid, deadline) \<Rightarrow> if deadline > now then Some gid else None))"

definition has_prefix :: "gateway_state \<Rightarrow> gateway_request \<Rightarrow> nat \<Rightarrow> gateway_route \<Rightarrow> bool" where
  "has_prefix st r now route =
     (case rq_prefix_key r of
        None \<Rightarrow> False
      | Some key \<Rightarrow> key \<in> set (rt_prefix_keys route) \<or>
                    affinity_of st r now = Some (rt_placement_group_id route))"

definition temperature_key :: "gateway_route \<Rightarrow> nat" where
  "temperature_key r = (case rt_temperature_millicelsius r of None \<Rightarrow> u32_max | Some t \<Rightarrow> t)"

text \<open>
  \<open>route_less\<close> is the comparison of \<open>sort_by\<close>: with a local prefix first, then the lower share of used
  capacity (by cross multiplication), then the cooler, then the smaller node identity.
\<close>

definition route_less ::
  "gateway_state \<Rightarrow> gateway_request \<Rightarrow> nat \<Rightarrow> gateway_route \<Rightarrow> gateway_route \<Rightarrow> bool" where
  "route_less st r now left right =
     (let left_prefix = has_prefix st r now left; right_prefix = has_prefix st r now right;
          left_load = route_active st left * rt_max_active_requests right;
          right_load = route_active st right * rt_max_active_requests left
      in if left_prefix \<noteq> right_prefix then left_prefix
         else if left_load \<noteq> right_load then left_load < right_load
         else if temperature_key left \<noteq> temperature_key right
         then temperature_key left < temperature_key right
         else rt_endpoint_node_id left < rt_endpoint_node_id right)"

text \<open>A stable sort by a strict comparison.\<close>

fun insert_by :: "('a \<Rightarrow> 'a \<Rightarrow> bool) \<Rightarrow> 'a \<Rightarrow> 'a list \<Rightarrow> 'a list" where
  "insert_by lt x [] = [x]"
| "insert_by lt x (y # ys) = (if lt y x then y # insert_by lt x ys else x # y # ys)"

definition sort_by :: "('a \<Rightarrow> 'a \<Rightarrow> bool) \<Rightarrow> 'a list \<Rightarrow> 'a list" where
  "sort_by lt xs = foldr (insert_by lt) xs []"

definition select_route ::
  "gateway_state \<Rightarrow> gateway_request \<Rightarrow> gateway_route list \<Rightarrow> nat \<Rightarrow> gateway_error + route_selection" where
  "select_route st r routes now =
     (let healthy = filter (\<lambda>x. rt_healthy x \<and> \<not> rt_memory_pressure x) routes
      in if healthy = [] then Inl NoRoute
         else let compatible = filter (\<lambda>x. rt_max_context_tokens x \<ge> token_demand r) healthy
         in if compatible = [] then Inl ContextTooLarge
         else let routable = filter (out_of_cooldown st now) compatible
         in if routable = [] then Inl NoRoute
         else let available = filter (\<lambda>x. route_active st x < rt_max_active_requests x) routable
         in if available = [] then Inr Busy
         else Inr (Selected (hd (sort_by (route_less st r now) available))))"

definition route_has_admission_capacity :: "gateway_state \<Rightarrow> gateway_route \<Rightarrow> nat \<Rightarrow> bool" where
  "route_has_admission_capacity st r now \<longleftrightarrow>
     rt_healthy r \<and> \<not> rt_memory_pressure r \<and> out_of_cooldown st now r \<and>
     route_active st r < rt_max_active_requests r"

definition mark_route_failure :: "gateway_state \<Rightarrow> placement_group_id \<Rightarrow> nat \<Rightarrow> gateway_state" where
  "mark_route_failure st gid now =
     (let failures = min (min (get_or 0 (g_failure_counts st) gid + 1) 255) MAX_BACKEND_FAILURES;
          exponent = min (failures - 1) 16;
          cooldown = min (min (2 ^ exponent * 1000) u64_max) MAX_BACKEND_COOLDOWN_MILLISECONDS
      in st\<lparr>g_failure_counts := AList.update gid failures (g_failure_counts st),
            g_unavailable_until := AList.update gid (saturating_add64 now cooldown) (g_unavailable_until st)\<rparr>)"

definition mark_route_success :: "gateway_state \<Rightarrow> placement_group_id \<Rightarrow> gateway_state" where
  "mark_route_success st gid =
     st\<lparr>g_failure_counts := AList.delete gid (g_failure_counts st),
        g_unavailable_until := AList.delete gid (g_unavailable_until st)\<rparr>"

type_synonym affinity_table = "((logical_model_name \<times> sha256_digest) \<times> (placement_group_id \<times> nat)) list"

definition oldest_affinity :: "affinity_table \<Rightarrow> (logical_model_name \<times> sha256_digest) option" where
  "oldest_affinity t =
     (if t = [] then None else Some (snd (Min (set (map (\<lambda>(k, _, deadline). (deadline, k)) t)))))"

lemma oldest_affinity_in:
  assumes "oldest_affinity t = Some k"
  shows "k \<in> fst ` set t"
proof -
  define ages where "ages = map (\<lambda>(k, _, deadline). (deadline, k)) t"
  have "t \<noteq> []" and k: "k = snd (Min (set ages))"
    using assms by (auto simp: oldest_affinity_def ages_def split: if_splits)
  then have "Min (set ages) \<in> set ages" by (intro Min_in) (auto simp: ages_def)
  then have "snd (Min (set ages)) \<in> snd ` set ages" by (rule imageI)
  moreover have "snd ` set ages = fst ` set t" by (auto simp: ages_def image_comp comp_def case_prod_beta)
  ultimately show ?thesis by (simp add: k)
qed

lemma length_delete_less: "k \<in> fst ` set t \<Longrightarrow> length (AList.delete k t) < length t"
  by (auto simp: AList.delete_eq intro: length_filter_less)

function trim_affinity :: "affinity_table \<Rightarrow> affinity_table" where
  "trim_affinity t =
     (if length t > MAX_PREFIX_AFFINITY_ENTRIES
      then (case oldest_affinity t of None \<Rightarrow> t | Some k \<Rightarrow> trim_affinity (AList.delete k t))
      else t)"
  by pat_completeness auto
termination
  by (relation "measure length") (auto dest: oldest_affinity_in intro: length_delete_less)

declare trim_affinity.simps [simp del]

definition record_prefix_affinity ::
  "gateway_state \<Rightarrow> logical_model_name \<times> sha256_digest \<Rightarrow> placement_group_id \<Rightarrow> nat \<Rightarrow> gateway_state" where
  "record_prefix_affinity st key gid now =
     st\<lparr>g_prefix_affinity :=
          trim_affinity (AList.update key (gid, saturating_add64 now PREFIX_AFFINITY_MILLISECONDS)
            (filter (\<lambda>(_, _, deadline). deadline > now) (g_prefix_affinity st)))\<rparr>"

section \<open>Reservations\<close>

definition queue_time :: "queued_request \<Rightarrow> nat \<Rightarrow> nat" where
  "queue_time q now = saturating_add64 (qr_queued_milliseconds q) (now - qr_enqueued_at q)"

definition reserve_route ::
  "gateway_state \<Rightarrow> queued_request \<Rightarrow> gateway_route \<Rightarrow> nat \<Rightarrow> (gateway_error + reservation) \<times> gateway_state" where
  "reserve_route st q route now =
     (let rid = rq_request_id (qr_request q);
          gid = rt_placement_group_id route;
          st1 = st\<lparr>g_active_requests := AList.update rid gid (g_active_requests st)\<rparr>
      in if map_of (g_active_requests st) rid \<noteq> None then (Inl DuplicateRequest, st1)
         else
           let st2 = st1\<lparr>g_route_active := AList.update gid (get_or 0 (g_route_active st1) gid + 1)
                           (g_route_active st1)\<rparr>;
               st3 = (if qr_was_admitted q then st2
                      else st2\<lparr>g_telemetry := record_admitted (g_telemetry st2) route\<rparr>)
           in (Inr \<lparr>rs_request = qr_request q, rs_route = route, rs_principal = qr_principal q,
                    rs_received_at = qr_received_at q, rs_queued_milliseconds = queue_time q now,
                    rs_reserved_tokens = qr_reserved_tokens q\<rparr>, st3))"

definition remove_queued_request ::
  "gateway_state \<Rightarrow> sha256_digest \<Rightarrow> (gateway_error + queued_request) \<times> gateway_state" where
  "remove_queued_request st rid =
     (case map_of (g_queued st) rid of
        None \<Rightarrow> (Inl RequestNotFound, st)
      | Some q \<Rightarrow> (Inr q, st\<lparr>g_queued := AList.delete rid (g_queued st),
                           g_queue_order := filter (\<lambda>x. x \<noteq> rid) (g_queue_order st)\<rparr>))"

definition release_reservation :: "gateway_state \<Rightarrow> reservation \<Rightarrow> (gateway_error + unit) \<times> gateway_state" where
  "release_reservation st r =
     (let rid = rq_request_id (rs_request r); gid = rt_placement_group_id (rs_route r)
      in case map_of (g_active_requests st) rid of
           None \<Rightarrow> (Inl RequestNotFound, st)
         | Some observed \<Rightarrow>
             let st1 = st\<lparr>g_active_requests := AList.delete rid (g_active_requests st)\<rparr>
             in if observed \<noteq> gid then (Inl StateUnavailable, st1)
                else case map_of (g_route_active st1) gid of
                       None \<Rightarrow> (Inl StateUnavailable, st1)
                     | Some active \<Rightarrow>
                         (Inr (), st1\<lparr>g_route_active :=
                            (if active \<le> 1 then AList.delete gid (g_route_active st1)
                             else AList.update gid (active - 1) (g_route_active st1))\<rparr>))"

section \<open>Locked sections\<close>

text \<open>\<open>admit\<close> from the lock on: policy, selection, reservation or one bounded queue entry.\<close>

definition enqueue :: "gateway_state \<Rightarrow> queued_request \<Rightarrow> gateway_state" where
  "enqueue st q =
     st\<lparr>g_queue_order := g_queue_order st @ [rq_request_id (qr_request q)],
        g_queued := AList.update (rq_request_id (qr_request q)) q (g_queued st)\<rparr>"

definition reserved_for :: "gateway_principal option \<Rightarrow> gateway_request \<Rightarrow> nat" where
  "reserved_for holder r =
     (case Option.bind holder (\<lambda>p. tokens_per_minute (pr_limits p)) of None \<Rightarrow> 0 | Some _ \<Rightarrow> token_demand r)"

definition admit_route ::
  "gateway_state \<Rightarrow> gateway_request \<Rightarrow> gateway_principal option \<Rightarrow> nat \<Rightarrow> gateway_route list \<Rightarrow>
   (gateway_error + admission) \<times> gateway_state" where
  "admit_route st r holder now routes =
     (let reserved = reserved_for holder r;
          q = \<lparr>qr_request = r, qr_principal = holder, qr_received_at = now, qr_enqueued_at = now,
               qr_queued_milliseconds = 0, qr_reserved_tokens = reserved, qr_was_admitted = False\<rparr>
      in case select_route st r routes now of
           Inr (Selected route) \<Rightarrow>
             (case reserve_route st q route now of
                (Inl e, st1) \<Rightarrow> (Inl e, st1)
              | (Inr reservation, st1) \<Rightarrow> (Inr (Admitted reservation), st1))
         | Inr Busy \<Rightarrow>
             if rq_maximum_queue_milliseconds r > 0
             then if length (g_queued st) \<ge> MAX_QUEUED_REQUESTS
                  then (Inl QueueFull, release_principal st holder reserved)
                  else (Inr (Queued (rq_request_id r)), enqueue st q)
             else (Inl CapacityUnavailable, release_principal st holder reserved)
         | Inl e \<Rightarrow> (Inl e, release_principal st holder reserved))"

definition admit_section ::
  "gateway_state \<Rightarrow> gateway_request \<Rightarrow> gateway_principal option \<Rightarrow> nat \<Rightarrow> gateway_route list \<Rightarrow>
   usage_record list \<Rightarrow> (gateway_error + admission) \<times> gateway_state" where
  "admit_section st r holder now routes recent =
     (case require_new_request st (rq_request_id r) of
        Inl e \<Rightarrow> (Inl e, st)
      | Inr _ \<Rightarrow>
          (case holder of
             None \<Rightarrow> admit_route st r holder now routes
           | Some p \<Rightarrow>
               (case load_recent_usage st (pr_key_id p) recent (now - ROLLING_WINDOW_MILLISECONDS) now of
                  (Inl e, st1) \<Rightarrow> (Inl e, st1)
                | (Inr _, st1) \<Rightarrow>
                    (case admit_principal st1 p r now of
                       (Inl e, st2) \<Rightarrow> (Inl e, st2)
                     | (Inr _, st2) \<Rightarrow> admit_route st2 r holder now routes))))"

text \<open>
  \<open>poll_queue\<close> from its second lock on. \<open>r\<close> is the request that the first look at the queue returned.
\<close>

definition same_model_queued :: "gateway_state \<Rightarrow> logical_model_name \<Rightarrow> sha256_digest \<Rightarrow> bool" where
  "same_model_queued st model rid =
     (case map_of (g_queued st) rid of None \<Rightarrow> False | Some q \<Rightarrow> rq_model (qr_request q) = model)"

definition must_wait :: "gateway_state \<Rightarrow> queue_ticket \<Rightarrow> logical_model_name \<Rightarrow> bool" where
  "must_wait st ticket model \<longleftrightarrow>
     list_ex (\<lambda>rid. rid \<noteq> ticket \<and> same_model_queued st model rid) (g_queue_order st) \<and>
     find (same_model_queued st model) (g_queue_order st) \<noteq> Some ticket"

definition expire_queued :: "gateway_state \<Rightarrow> queue_ticket \<Rightarrow> nat \<Rightarrow> (gateway_error + queue_status) \<times> gateway_state" where
  "expire_queued st ticket now =
     (case remove_queued_request st ticket of
        (Inl e, st1) \<Rightarrow> (Inl e, st1)
      | (Inr q, st1) \<Rightarrow>
          let st2 = release_principal st1 (qr_principal q) (qr_reserved_tokens q)
          in (Inl QueueExpired, st2\<lparr>g_telemetry := record_unrouted_failure_with_timing (g_telemetry st2)
                (from_observations (queue_time q now) None None None)\<rparr>))"

definition poll_section ::
  "gateway_state \<Rightarrow> queue_ticket \<Rightarrow> gateway_request \<Rightarrow> nat \<Rightarrow> gateway_route list \<Rightarrow>
   (gateway_error + queue_status) \<times> gateway_state" where
  "poll_section st ticket r now routes =
     (case map_of (g_queued st) ticket of
        None \<Rightarrow> (Inl RequestNotFound, st)
      | Some q \<Rightarrow>
          if queue_time q now > rq_maximum_queue_milliseconds r then expire_queued st ticket now
          else if must_wait st ticket (rq_model r) then (Inr Waiting, st)
          else case select_route st r routes now of
                 Inl e \<Rightarrow> (Inl e, st)
               | Inr Busy \<Rightarrow> (Inr Waiting, st)
               | Inr (Selected route) \<Rightarrow>
                   (case remove_queued_request st ticket of
                      (Inl e, st1) \<Rightarrow> (Inl e, st1)
                    | (Inr q1, st1) \<Rightarrow>
                        (case reserve_route st1 q1 route now of
                           (Inl e, st2) \<Rightarrow> (Inl e, st2)
                         | (Inr reservation, st2) \<Rightarrow> (Inr (StatusAdmitted reservation), st2))))"

definition cancel_queue_section ::
  "gateway_state \<Rightarrow> queue_ticket \<Rightarrow> nat \<Rightarrow> (gateway_error + unit) \<times> gateway_state" where
  "cancel_queue_section st ticket now =
     (case remove_queued_request st ticket of
        (Inl e, st1) \<Rightarrow> (Inl e, st1)
      | (Inr q, st1) \<Rightarrow>
          let st2 = release_principal st1 (qr_principal q) (qr_reserved_tokens q)
          in (Inr (), st2\<lparr>g_telemetry := record_cancelled (g_telemetry st2) None
                (from_observations (queue_time q now) None None None)\<rparr>))"

definition fail_queue_section ::
  "gateway_state \<Rightarrow> queue_ticket \<Rightarrow> nat \<Rightarrow> (gateway_error + unit) \<times> gateway_state" where
  "fail_queue_section st ticket now =
     (case remove_queued_request st ticket of
        (Inl e, st1) \<Rightarrow> (Inl e, st1)
      | (Inr q, st1) \<Rightarrow>
          let st2 = release_principal st1 (qr_principal q) (qr_reserved_tokens q)
          in (Inr (), st2\<lparr>g_telemetry := record_unrouted_failure_with_timing (g_telemetry st2)
                (from_observations (queue_time q now) None None None)\<rparr>))"

text \<open>
  \<open>complete_request\<close>: the usage record is computed before the lock from the clock and the token sum;
  the durable record is written after it.
\<close>

definition total_tokens :: "nat \<Rightarrow> nat \<Rightarrow> gateway_error + nat" where
  "total_tokens input output =
     of_option (InvalidContract ''completed gateway usage overflows its token bound'') (checked_add64 input output)"

definition completed_usage ::
  "reservation \<Rightarrow> gateway_error + nat \<Rightarrow> gateway_error + nat \<Rightarrow> gateway_error + usage_record option" where
  "completed_usage r completed_at tokens_result =
     bind_result completed_at (\<lambda>now. bind_result tokens_result (\<lambda>tokens.
       case rs_principal r of
         None \<Rightarrow> Inr None
       | Some p \<Rightarrow> bind_result (usage_new (rq_request_id (rs_request r)) (pr_key_id p) (rs_received_at r) now tokens)
           (\<lambda>u. Inr (Some u))))"

definition mark_completed :: "gateway_state \<Rightarrow> reservation \<Rightarrow> gateway_error + nat \<Rightarrow> gateway_state" where
  "mark_completed st r completed_at =
     (case completed_at of
        Inl _ \<Rightarrow> st
      | Inr now \<Rightarrow>
          let gid = rt_placement_group_id (rs_route r); s = mark_route_success st gid
          in case rq_prefix_key (rs_request r) of
               None \<Rightarrow> s
             | Some key \<Rightarrow> record_prefix_affinity s (rq_model (rs_request r), key) gid now)"

definition charge_completed ::
  "gateway_state \<Rightarrow> reservation \<Rightarrow> gateway_error + nat \<Rightarrow> gateway_error + nat \<Rightarrow> gateway_state" where
  "charge_completed st r completed_at tokens_result =
     (case rs_principal r of
        None \<Rightarrow> st
      | Some p \<Rightarrow>
          let s = release_principal st (Some p) (rs_reserved_tokens r)
          in case (completed_at, tokens_result) of
               (Inr now, Inr tokens) \<Rightarrow>
                 s\<lparr>g_token_windows := AList.update (pr_key_id p)
                     (get_or [] (g_token_windows s) (pr_key_id p) @ [(now, tokens)]) (g_token_windows s)\<rparr>
             | _ \<Rightarrow> s)"

definition complete_section ::
  "gateway_state \<Rightarrow> reservation \<Rightarrow> gateway_error + nat \<Rightarrow> nat \<Rightarrow> nat \<Rightarrow> nat \<Rightarrow> bool \<Rightarrow> telemetry_timing \<Rightarrow>
   (gateway_error + unit) \<times> gateway_state" where
  "complete_section st r completed_at input output cached exact_tokens timing =
     (case release_reservation st r of
        (Inl e, st1) \<Rightarrow> (Inl e, st1)
      | (Inr _, st1) \<Rightarrow>
          let tokens_result = total_tokens input output;
              st2 = mark_completed st1 r completed_at;
              st3 = charge_completed st2 r completed_at tokens_result
          in (Inr (), st3\<lparr>g_telemetry :=
                (case (completed_at, completed_usage r completed_at tokens_result) of
                   (Inr now, Inr _) \<Rightarrow>
                     record_completed (g_telemetry st3) (rs_route r) now timing input output cached exact_tokens
                 | _ \<Rightarrow> record_failed (g_telemetry st3) (rs_route r) timing)\<rparr>))"

definition cancel_section ::
  "gateway_state \<Rightarrow> reservation \<Rightarrow> telemetry_timing \<Rightarrow> (gateway_error + unit) \<times> gateway_state" where
  "cancel_section st r timing =
     (case release_reservation st r of
        (Inl e, st1) \<Rightarrow> (Inl e, st1)
      | (Inr _, st1) \<Rightarrow>
          let st2 = release_principal st1 (rs_principal r) (rs_reserved_tokens r)
          in (Inr (), st2\<lparr>g_telemetry := record_cancelled (g_telemetry st2) (Some (rs_route r)) timing\<rparr>))"

definition end_failed :: "gateway_state \<Rightarrow> reservation \<Rightarrow> telemetry_timing \<Rightarrow> gateway_state" where
  "end_failed st r timing =
     (let st1 = release_principal st (rs_principal r) (rs_reserved_tokens r)
      in st1\<lparr>g_telemetry := record_failed (g_telemetry st1) (rs_route r) timing\<rparr>)"

definition retry_section ::
  "gateway_state \<Rightarrow> reservation \<Rightarrow> gateway_error + nat \<Rightarrow> gateway_error + gateway_route list \<Rightarrow>
   (gateway_error + admission) \<times> gateway_state" where
  "retry_section st r now_result routes_result =
     (case release_reservation st r of
        (Inl e, st1) \<Rightarrow> (Inl e, st1)
      | (Inr _, st1) \<Rightarrow>
          let timing = from_observations (rs_queued_milliseconds r) None None None
          in case now_result of
               Inl e \<Rightarrow> (Inl e, end_failed st1 r timing)
             | Inr now \<Rightarrow>
                 let st2 = mark_route_failure st1 (rt_placement_group_id (rs_route r)) now
                 in case routes_result of
                      Inl e \<Rightarrow> (Inl e, end_failed st2 r timing)
                    | Inr routes \<Rightarrow>
                        let q = \<lparr>qr_request = rs_request r, qr_principal = rs_principal r,
                                 qr_received_at = rs_received_at r, qr_enqueued_at = now,
                                 qr_queued_milliseconds = rs_queued_milliseconds r,
                                 qr_reserved_tokens = rs_reserved_tokens r, qr_was_admitted = True\<rparr>
                        in case select_route st2 (rs_request r) routes now of
                             Inl e \<Rightarrow> (Inl e, end_failed st2 r timing)
                           | Inr (Selected route) \<Rightarrow>
                               (case reserve_route st2 q route now of
                                  (Inl e, st3) \<Rightarrow> (Inl e, st3)
                                | (Inr reservation, st3) \<Rightarrow>
                                    (Inr (Admitted reservation),
                                     st3\<lparr>g_telemetry := record_retried (g_telemetry st3) (rs_route r)\<rparr>))
                           | Inr Busy \<Rightarrow>
                               if rq_maximum_queue_milliseconds (rs_request r) > 0 \<and>
                                  queue_time q now \<le> rq_maximum_queue_milliseconds (rs_request r)
                               then if length (g_queued st2) \<ge> MAX_QUEUED_REQUESTS
                                    then (Inl QueueFull, end_failed st2 r timing)
                                    else let st3 = enqueue st2 q
                                         in (Inr (Queued (rq_request_id (rs_request r))),
                                             st3\<lparr>g_telemetry := record_retried (g_telemetry st3) (rs_route r)\<rparr>)
                               else (Inl CapacityUnavailable, end_failed st2 r timing))"

definition fail_section ::
  "gateway_state \<Rightarrow> reservation \<Rightarrow> gateway_error + nat \<Rightarrow> telemetry_timing \<Rightarrow>
   (gateway_error + unit) \<times> gateway_state" where
  "fail_section st r now_result timing =
     (case release_reservation st r of
        (Inl e, st1) \<Rightarrow> (Inl e, st1)
      | (Inr _, st1) \<Rightarrow>
          let st2 = release_principal st1 (rs_principal r) (rs_reserved_tokens r)
          in case now_result of
               Inl e \<Rightarrow> (Inl e, st2\<lparr>g_telemetry := record_failed (g_telemetry st2) (rs_route r) timing\<rparr>)
             | Inr now \<Rightarrow>
                 let st3 = mark_route_failure st2 (rt_placement_group_id (rs_route r)) now
                 in (Inr (), st3\<lparr>g_telemetry := record_failed (g_telemetry st3) (rs_route r) timing\<rparr>))"

definition counts :: "gateway_state \<Rightarrow> nat \<times> nat" where
  "counts st = (length (g_active_requests st), length (g_queued st))"

section \<open>Operations\<close>

text \<open>
  The injected capabilities are what they answer during one call: the clock, the routes, the placement
  safety and its clock reading for each route, authentication, and the usage store. \<open>gateway_manager\<close> is
  the manager's own data: its mode and the three locked states.
\<close>

datatype safety_provider =
    Linux "gateway_route \<Rightarrow> gateway_error + protection_snapshot option"
  | Macos "gateway_route \<Rightarrow> gateway_error + macos_snapshot option"

record providers =
  pv_authenticate :: "string \<Rightarrow> logical_model_name \<Rightarrow> gateway_error + gateway_principal"
  pv_authorize :: "string \<Rightarrow> gateway_error + node_id"
  pv_routes :: "logical_model_name \<Rightarrow> gateway_error + gateway_route list"
  pv_safety :: safety_provider
  pv_now :: "gateway_error + nat"
  pv_route_now :: "gateway_route \<Rightarrow> gateway_error + nat"
  pv_recent :: "api_key_id \<Rightarrow> nat \<Rightarrow> gateway_error + usage_record list"
  pv_record :: "usage_record \<Rightarrow> gateway_error + unit"

record gateway_manager =
  gm_mode :: gateway_mode
  gm_state :: gateway_state
  gm_protection :: protection_state
  gm_macos :: macos_state

definition new_configured :: "gateway_mode \<Rightarrow> gateway_error + gateway_manager" where
  "new_configured mode =
     (if main_node_id mode = Some (local_node_id mode)
      then Inl (InvalidContract ''child gateway local and main identities must differ'')
      else Inr \<lparr>gm_mode = mode, gm_state = gateway_state_default,
             gm_protection = protection_state_default, gm_macos = Map.empty\<rparr>)"

definition child_route_ok :: "gateway_mode \<Rightarrow> gateway_route \<Rightarrow> bool" where
  "child_route_ok mode route =
     (case (mode, rt_target route) of
        (Child l _, LocalEngine _) \<Rightarrow> rt_endpoint_node_id route = l
      | (Child _ _, ChildRelay _) \<Rightarrow> False
      | (Main _, _) \<Rightarrow> True)"

definition relayed :: "gateway_mode \<Rightarrow> gateway_route \<Rightarrow> bool" where
  "relayed mode route =
     (case (mode, rt_target route) of (Main _, ChildRelay _) \<Rightarrow> True | _ \<Rightarrow> False)"

text \<open>One judgement: \<open>Inr False\<close> drops the route, without a snapshot or with one that is not accepted.\<close>

definition judge :: "providers \<Rightarrow> gateway_manager \<Rightarrow> gateway_route \<Rightarrow> (gateway_error + bool) \<times> gateway_manager" where
  "judge pv gm route =
     (case pv_safety pv of
        Linux protection \<Rightarrow>
          (case protection route of
             Inl e \<Rightarrow> (Inl e, gm)
           | Inr None \<Rightarrow> (Inr False, gm)
           | Inr (Some s) \<Rightarrow>
               (case pv_route_now pv route of
                  Inl e \<Rightarrow> (Inl e, gm)
                | Inr now \<Rightarrow>
                    let (ok, st) = accepts (gm_protection gm) route s now
                    in (Inr ok, gm\<lparr>gm_protection := st\<rparr>)))
      | Macos protection \<Rightarrow>
          (case protection route of
             Inl e \<Rightarrow> (Inl e, gm)
           | Inr None \<Rightarrow> (Inr False, gm)
           | Inr (Some s) \<Rightarrow>
               (case pv_route_now pv route of
                  Inl e \<Rightarrow> (Inl e, gm)
                | Inr now \<Rightarrow>
                    let (ok, st) = macos_accepts (gm_macos gm) route s now
                    in (Inr ok, gm\<lparr>gm_macos := st\<rparr>))))"

fun check_routes ::
  "providers \<Rightarrow> logical_model_name \<Rightarrow> placement_group_id list \<Rightarrow> gateway_manager \<Rightarrow> gateway_route list \<Rightarrow>
   (gateway_error + gateway_route list) \<times> gateway_manager" where
  "check_routes pv model seen gm [] = (Inr [], gm)"
| "check_routes pv model seen gm (route # rest) =
     (if rt_model route \<noteq> model \<or> rt_placement_group_id route \<in> set seen
      then (Inl (InvalidContract ''gateway route snapshot has a foreign model or duplicate group''), gm)
      else if \<not> child_route_ok (gm_mode gm) route
      then (Inl (InvalidContract ''child gateway may route only its local Engine endpoint''), gm)
      else
        let keep = (\<lambda>ok gm1. case check_routes pv model (rt_placement_group_id route # seen) gm1 rest of
                              (Inl e, gm2) \<Rightarrow> (Inl e, gm2)
                            | (Inr kept, gm2) \<Rightarrow> (Inr (if ok then route # kept else kept), gm2))
        in if relayed (gm_mode gm) route then keep True gm
           else case judge pv gm route of
                  (Inl e, gm1) \<Rightarrow> (Inl e, gm1)
                | (Inr ok, gm1) \<Rightarrow> keep ok gm1)"

definition current_routes ::
  "providers \<Rightarrow> gateway_manager \<Rightarrow> logical_model_name \<Rightarrow> (gateway_error + gateway_route list) \<times> gateway_manager" where
  "current_routes pv gm model =
     (case pv_routes pv model of
        Inl e \<Rightarrow> (Inl e, gm)
      | Inr routes \<Rightarrow> check_routes pv model [] gm routes)"

definition admit ::
  "providers \<Rightarrow> gateway_manager \<Rightarrow> gateway_request \<Rightarrow> gateway_principal option \<Rightarrow>
   (gateway_error + admission) \<times> gateway_manager" where
  "admit pv gm r holder =
     (case pv_now pv of
        Inl e \<Rightarrow> (Inl e, gm)
      | Inr now \<Rightarrow>
          (case current_routes pv gm (rq_model r) of
             (Inl e, gm1) \<Rightarrow> (Inl e, gm1)
           | (Inr routes, gm1) \<Rightarrow>
               (case (case holder of
                        None \<Rightarrow> Inr []
                      | Some p \<Rightarrow> if pr_key_id p \<notin> g_loaded_keys (gm_state gm1)
                                 then pv_recent pv (pr_key_id p) (now - ROLLING_WINDOW_MILLISECONDS)
                                 else Inr []) of
                  Inl e \<Rightarrow> (Inl e, gm1)
                | Inr recent \<Rightarrow>
                    let (result, st) = admit_section (gm_state gm1) r holder now routes recent
                    in (result, gm1\<lparr>gm_state := st\<rparr>))))"

definition received :: "gateway_manager \<Rightarrow> gateway_manager" where
  "received gm =
     (let st = gm_state gm
      in gm\<lparr>gm_state := st\<lparr>g_telemetry := record_received (g_telemetry st)\<rparr>\<rparr>)"

definition record_initial_failure ::
  "(gateway_error + 'a) \<times> gateway_manager \<Rightarrow> (gateway_error + 'a) \<times> gateway_manager" where
  "record_initial_failure result =
     (case result of
        (Inr v, gm) \<Rightarrow> (Inr v, gm)
      | (Inl e, gm) \<Rightarrow>
          let st = gm_state gm
          in (Inl e, gm\<lparr>gm_state := st\<lparr>g_telemetry := record_unrouted_failure (g_telemetry st)\<rparr>\<rparr>))"

definition admit_public ::
  "providers \<Rightarrow> gateway_manager \<Rightarrow> string \<Rightarrow> gateway_request \<Rightarrow> (gateway_error + admission) \<times> gateway_manager" where
  "admit_public pv gm bearer r =
     (let gm1 = received gm
      in record_initial_failure
        (case gm_mode gm1 of
           Child _ _ \<Rightarrow> (Inl PublicUnavailableOnChild, gm1)
         | Main _ \<Rightarrow>
             (case pv_authenticate pv bearer (rq_model r) of
                Inl e \<Rightarrow> (Inl e, gm1)
              | Inr p \<Rightarrow> admit pv gm1 r (Some p))))"

definition admit_relay ::
  "providers \<Rightarrow> gateway_manager \<Rightarrow> string \<Rightarrow> gateway_request \<Rightarrow> (gateway_error + admission) \<times> gateway_manager" where
  "admit_relay pv gm credential r =
     (let gm1 = received gm
      in record_initial_failure
        (case main_node_id (gm_mode gm1) of
           None \<Rightarrow> (Inl PrivateRelayUnavailableOnMain, gm1)
         | Some expected \<Rightarrow>
             (case pv_authorize pv credential of
                Inl e \<Rightarrow> (Inl e, gm1)
              | Inr authorized \<Rightarrow>
                  if authorized \<noteq> expected then (Inl RelayDenied, gm1) else admit pv gm1 r None)))"

definition poll_queue ::
  "providers \<Rightarrow> gateway_manager \<Rightarrow> queue_ticket \<Rightarrow> (gateway_error + queue_status) \<times> gateway_manager" where
  "poll_queue pv gm ticket =
     (case pv_now pv of
        Inl e \<Rightarrow> (Inl e, gm)
      | Inr now \<Rightarrow>
          (case map_of (g_queued (gm_state gm)) ticket of
             None \<Rightarrow> (Inl RequestNotFound, gm)
           | Some q \<Rightarrow>
               (case current_routes pv gm (rq_model (qr_request q)) of
                  (Inl e, gm1) \<Rightarrow> (Inl e, gm1)
                | (Inr routes, gm1) \<Rightarrow>
                    let (result, st) = poll_section (gm_state gm1) ticket (qr_request q) now routes
                    in (result, gm1\<lparr>gm_state := st\<rparr>))))"

definition cancel_queue ::
  "providers \<Rightarrow> gateway_manager \<Rightarrow> queue_ticket \<Rightarrow> (gateway_error + unit) \<times> gateway_manager" where
  "cancel_queue pv gm ticket =
     (case pv_now pv of
        Inl e \<Rightarrow> (Inl e, gm)
      | Inr now \<Rightarrow> let (result, st) = cancel_queue_section (gm_state gm) ticket now
                   in (result, gm\<lparr>gm_state := st\<rparr>))"

definition fail_queue ::
  "providers \<Rightarrow> gateway_manager \<Rightarrow> queue_ticket \<Rightarrow> (gateway_error + unit) \<times> gateway_manager" where
  "fail_queue pv gm ticket =
     (case pv_now pv of
        Inl e \<Rightarrow> (Inl e, gm)
      | Inr now \<Rightarrow> let (result, st) = fail_queue_section (gm_state gm) ticket now
                   in (result, gm\<lparr>gm_state := st\<rparr>))"

definition complete_request ::
  "providers \<Rightarrow> gateway_manager \<Rightarrow> reservation \<Rightarrow> nat \<Rightarrow> nat \<Rightarrow> nat \<Rightarrow> bool \<Rightarrow> telemetry_timing \<Rightarrow>
   (gateway_error + usage_record option) \<times> gateway_manager" where
  "complete_request pv gm r input output cached exact_tokens timing =
     (case complete_section (gm_state gm) r (pv_now pv) input output cached exact_tokens timing of
        (Inl e, st) \<Rightarrow> (Inl e, gm\<lparr>gm_state := st\<rparr>)
      | (Inr _, st) \<Rightarrow>
          (bind_result (completed_usage r (pv_now pv) (total_tokens input output)) (\<lambda>usage.
             case usage of
               None \<Rightarrow> Inr None
             | Some u \<Rightarrow> bind_result (pv_record pv u) (\<lambda>_. Inr (Some u))),
           gm\<lparr>gm_state := st\<rparr>))"

definition complete_execution ::
  "providers \<Rightarrow> gateway_manager \<Rightarrow> reservation \<Rightarrow> exact_usage \<Rightarrow> telemetry_timing \<Rightarrow>
   (gateway_error + usage_record option) \<times> gateway_manager" where
  "complete_execution pv gm r u timing =
     complete_request pv gm r (eu_input_tokens u) (eu_output_tokens u) (eu_cached_tokens u) True timing"

definition cancel_with_timing ::
  "gateway_manager \<Rightarrow> reservation \<Rightarrow> telemetry_timing \<Rightarrow> (gateway_error + unit) \<times> gateway_manager" where
  "cancel_with_timing gm r timing =
     (let (result, st) = cancel_section (gm_state gm) r timing in (result, gm\<lparr>gm_state := st\<rparr>))"

definition retry_before_output ::
  "providers \<Rightarrow> gateway_manager \<Rightarrow> reservation \<Rightarrow> (gateway_error + admission) \<times> gateway_manager" where
  "retry_before_output pv gm r =
     (let (routes, gm1) = current_routes pv gm (rq_model (rs_request r));
          (result, st) = retry_section (gm_state gm1) r (pv_now pv) routes
      in (result, gm1\<lparr>gm_state := st\<rparr>))"

definition fail_reservation ::
  "providers \<Rightarrow> gateway_manager \<Rightarrow> reservation \<Rightarrow> telemetry_timing \<Rightarrow> (gateway_error + unit) \<times> gateway_manager" where
  "fail_reservation pv gm r timing =
     (let (result, st) = fail_section (gm_state gm) r (pv_now pv) timing in (result, gm\<lparr>gm_state := st\<rparr>))"

text \<open>The public entry points without observed durations count only the time in the queue.\<close>

definition queue_only :: "reservation \<Rightarrow> telemetry_timing" where
  "queue_only r = from_observations (rs_queued_milliseconds r) None None None"

definition complete ::
  "providers \<Rightarrow> gateway_manager \<Rightarrow> reservation \<Rightarrow> nat \<Rightarrow> nat \<Rightarrow>
   (gateway_error + usage_record option) \<times> gateway_manager" where
  "complete pv gm r input output = complete_request pv gm r input output 0 True (queue_only r)"

definition cancel :: "gateway_manager \<Rightarrow> reservation \<Rightarrow> (gateway_error + unit) \<times> gateway_manager" where
  "cancel gm r = cancel_with_timing gm r (queue_only r)"

definition fail_after_output ::
  "providers \<Rightarrow> gateway_manager \<Rightarrow> reservation \<Rightarrow> (gateway_error + unit) \<times> gateway_manager" where
  "fail_after_output pv gm r = fail_reservation pv gm r (queue_only r)"

definition manager_telemetry_health :: "providers \<Rightarrow> gateway_manager \<Rightarrow> gateway_error + telemetry_health" where
  "manager_telemetry_health pv gm =
     bind_result (pv_now pv) (\<lambda>now. Inr (health (g_telemetry (gm_state gm)) now))"

definition telemetry_section :: "gateway_state \<Rightarrow> nat \<Rightarrow> telemetry_snapshot \<times> gateway_state" where
  "telemetry_section st observed_at =
     (let (s, t) = snapshot (g_telemetry st) observed_at (length (g_active_requests st))
            (map (\<lambda>(_, q). rq_model (qr_request q)) (g_queued st)) (g_route_active st)
      in (s, st\<lparr>g_telemetry := t\<rparr>))"

definition manager_telemetry_snapshot ::
  "providers \<Rightarrow> gateway_manager \<Rightarrow> (gateway_error + telemetry_snapshot) \<times> gateway_manager" where
  "manager_telemetry_snapshot pv gm =
     (case pv_now pv of
        Inl e \<Rightarrow> (Inl e, gm)
      | Inr now \<Rightarrow> let (s, st) = telemetry_section (gm_state gm) now in (Inr s, gm\<lparr>gm_state := st\<rparr>))"

definition publish_telemetry ::
  "providers \<Rightarrow> gateway_manager \<Rightarrow> (telemetry_snapshot \<Rightarrow> gateway_error + unit) \<Rightarrow>
   (gateway_error + telemetry_snapshot) \<times> gateway_manager" where
  "publish_telemetry pv gm publish =
     (case manager_telemetry_snapshot pv gm of
        (Inl e, gm1) \<Rightarrow> (Inl e, gm1)
      | (Inr s, gm1) \<Rightarrow>
          let st = gm_state gm1
          in case publish s of
               Inr _ \<Rightarrow> (Inr s, gm1\<lparr>gm_state :=
                 st\<lparr>g_telemetry := publisher_did_succeed (g_telemetry st) (ts_observed_at s)\<rparr>\<rparr>)
             | Inl _ \<Rightarrow> (Inl (Provider ''telemetry_publish'' ''atomic publisher rejected snapshot''),
                 gm1\<lparr>gm_state := st\<lparr>g_telemetry := publisher_did_fail (g_telemetry st) (ts_observed_at s)\<rparr>\<rparr>))"

definition public_model_is_available ::
  "providers \<Rightarrow> gateway_manager \<Rightarrow> logical_model_name \<Rightarrow> (gateway_error + bool) \<times> gateway_manager" where
  "public_model_is_available pv gm model =
     (case gm_mode gm of
        Child _ _ \<Rightarrow> (Inr False, gm)
      | Main _ \<Rightarrow>
          (case pv_now pv of
             Inl e \<Rightarrow> (Inl e, gm)
           | Inr now \<Rightarrow>
               (case current_routes pv gm model of
                  (Inl e, gm1) \<Rightarrow> (Inl e, gm1)
                | (Inr routes, gm1) \<Rightarrow>
                    (Inr (list_ex (\<lambda>r. route_has_admission_capacity (gm_state gm1) r now) routes), gm1))))"

definition authorize_public_token_count ::
  "providers \<Rightarrow> gateway_manager \<Rightarrow> string \<Rightarrow> logical_model_name \<Rightarrow> gateway_error + unit" where
  "authorize_public_token_count pv gm bearer model =
     (case gm_mode gm of
        Child _ _ \<Rightarrow> Inl PublicUnavailableOnChild
      | Main _ \<Rightarrow> bind_result (pv_authenticate pv bearer model) (\<lambda>_. Inr ()))"

definition authorize_relay_token_count ::
  "providers \<Rightarrow> gateway_manager \<Rightarrow> string \<Rightarrow> gateway_error + unit" where
  "authorize_relay_token_count pv gm credential =
     (case main_node_id (gm_mode gm) of
        None \<Rightarrow> Inl PrivateRelayUnavailableOnMain
      | Some expected \<Rightarrow> bind_result (pv_authorize pv credential) (\<lambda>authorized.
          if authorized \<noteq> expected then Inl RelayDenied else Inr ()))"

definition token_route_less :: "gateway_route \<Rightarrow> gateway_route \<Rightarrow> bool" where
  "token_route_less left right =
     (if rt_max_context_tokens left \<noteq> rt_max_context_tokens right
      then rt_max_context_tokens right < rt_max_context_tokens left
      else if rt_endpoint_node_id left \<noteq> rt_endpoint_node_id right
      then rt_endpoint_node_id left < rt_endpoint_node_id right
      else rt_placement_group_id left < rt_placement_group_id right)"

definition token_count_routes ::
  "providers \<Rightarrow> gateway_manager \<Rightarrow> logical_model_name \<Rightarrow> (gateway_error + gateway_route list) \<times> gateway_manager" where
  "token_count_routes pv gm model =
     (case pv_now pv of
        Inl e \<Rightarrow> (Inl e, gm)
      | Inr now \<Rightarrow>
          (case current_routes pv gm model of
             (Inl e, gm1) \<Rightarrow> (Inl e, gm1)
           | (Inr routes, gm1) \<Rightarrow>
               (Inr (sort_by token_route_less
                  (filter (\<lambda>r. rt_healthy r \<and> \<not> rt_memory_pressure r \<and>
                             out_of_cooldown (gm_state gm1) now r) routes)), gm1)))"

end
