(* ===== verification/GatewayAccounting.thy ===== *)
theory GatewayAccounting
  imports GatewayManager
begin

text \<open>
  Conservation in the Gateway manager: over every interleaving of the locked sections the live counters
  are exact for the reservations that callers hold and the requests that wait, and the telemetry counts
  every received request once. A configuration is the locked state, the reservations held by callers and
  the number of admissions that have been counted as received and have not reached their section.
\<close>

section \<open>Tables\<close>

lemma get_or_update [simp]: "get_or d (AList.update k v t) k' = (if k' = k then v else get_or d t k')"
  by (simp add: get_or_def map_of_update_if)

lemma get_or_delete [simp]: "get_or d (AList.delete k t) k' = (if k' = k then d else get_or d t k')"
  by (simp add: get_or_def map_of_delete_if)

lemma get_or_Nil [simp]: "get_or d [] k = d"
  by (simp add: get_or_def)

text \<open>A counter table holds positive counts only, one row per key.\<close>

definition counter_ok :: "('k \<times> nat) list \<Rightarrow> bool" where
  "counter_ok t \<longleftrightarrow> table_ok t \<and> (\<forall>k. map_of t k \<noteq> Some 0)"

lemma counter_ok_update: "counter_ok t \<Longrightarrow> 0 < n \<Longrightarrow> counter_ok (AList.update k n t)"
  by (simp add: counter_ok_def map_of_update_if)

lemma counter_ok_delete: "counter_ok t \<Longrightarrow> counter_ok (AList.delete k t)"
  by (simp add: counter_ok_def map_of_delete_if)

lemma counter_ok_empty:
  assumes "counter_ok t" "\<And>k. get_or 0 t k = 0"
  shows "t = []"
proof -
  have "map_of t k = None" for k
    using assms(1) assms(2) [of k] by (auto simp: counter_ok_def get_or_def split: option.splits)
  then show ?thesis by (cases t) (force split: if_splits)+
qed

lemma get_or_positive:
  fixes t :: "('k \<times> nat) list"
  shows "0 < get_or 0 t k \<Longrightarrow> map_of t k = Some (get_or 0 t k)"
  by (simp add: get_or_def split: option.splits)

lemma update_absent_set: "k \<notin> fst ` set t \<Longrightarrow> set (AList.update k v t) = insert (k, v) (set t)"
  by (induction t) auto

section \<open>Who holds capacity\<close>

type_synonym holder = "gateway_principal option \<times> nat"

definition reservation_id :: "reservation \<Rightarrow> sha256_digest" where
  "reservation_id r = rq_request_id (rs_request r)"

definition reservation_group :: "reservation \<Rightarrow> placement_group_id" where
  "reservation_group r = rt_placement_group_id (rs_route r)"

definition reservation_holder :: "reservation \<Rightarrow> holder" where
  "reservation_holder r = (rs_principal r, rs_reserved_tokens r)"

definition queued_holder :: "queued_request \<Rightarrow> holder" where
  "queued_holder q = (qr_principal q, qr_reserved_tokens q)"

definition holds_key :: "api_key_id \<Rightarrow> holder \<Rightarrow> bool" where
  "holds_key k h \<longleftrightarrow> map_option pr_key_id (fst h) = Some k"

definition key_weight :: "api_key_id \<Rightarrow> holder \<Rightarrow> nat" where
  "key_weight k h = (if holds_key k h then 1 else 0)"

definition key_tokens :: "api_key_id \<Rightarrow> holder \<Rightarrow> nat" where
  "key_tokens k h = (if holds_key k h then snd h else 0)"

text \<open>The outstanding total of a measure: reservations held by callers plus the waiting requests.\<close>

definition outstanding :: "(holder \<Rightarrow> nat) \<Rightarrow> gateway_state \<Rightarrow> reservation list \<Rightarrow> nat" where
  "outstanding f st R =
     sum_list (map (f \<circ> reservation_holder) R) + table_sum (f \<circ> queued_holder) (g_queued st)"

section \<open>The invariant\<close>

definition active_exact :: "gateway_state \<Rightarrow> reservation list \<Rightarrow> bool" where
  "active_exact st R \<longleftrightarrow>
     table_ok (g_active_requests st) \<and> distinct (map reservation_id R) \<and>
     (\<forall>rid. map_of (g_active_requests st) rid = map_of (map (\<lambda>r. (reservation_id r, reservation_group r)) R) rid)"

definition routes_exact :: "gateway_state \<Rightarrow> reservation list \<Rightarrow> bool" where
  "routes_exact st R \<longleftrightarrow>
     counter_ok (g_route_active st) \<and>
     (\<forall>g. get_or 0 (g_route_active st) g = length (filter (\<lambda>r. reservation_group r = g) R))"

definition queue_exact :: "gateway_state \<Rightarrow> reservation list \<Rightarrow> bool" where
  "queue_exact st R \<longleftrightarrow>
     table_ok (g_queued st) \<and> (\<forall>(rid, q)\<in>set (g_queued st). rid = rq_request_id (qr_request q)) \<and>
     distinct (g_queue_order st) \<and> set (g_queue_order st) = fst ` set (g_queued st) \<and>
     fst ` set (g_queued st) \<inter> reservation_id ` set R = {} \<and>
     length (g_queued st) \<le> MAX_QUEUED_REQUESTS"

definition keys_exact :: "gateway_state \<Rightarrow> reservation list \<Rightarrow> bool" where
  "keys_exact st R \<longleftrightarrow>
     counter_ok (g_principal_active st) \<and> counter_ok (g_principal_reserved_tokens st) \<and>
     (\<forall>k. get_or 0 (g_principal_active st) k = outstanding (key_weight k) st R) \<and>
     (\<forall>k. get_or 0 (g_principal_reserved_tokens st) k = outstanding (key_tokens k) st R)"

definition affinity_bounded :: "gateway_state \<Rightarrow> bool" where
  "affinity_bounded st \<longleftrightarrow>
     table_ok (g_prefix_affinity st) \<and> length (g_prefix_affinity st) \<le> MAX_PREFIX_AFFINITY_ENTRIES"

definition accounts :: "gateway_state \<Rightarrow> reservation list \<Rightarrow> bool" where
  "accounts st R \<longleftrightarrow>
     active_exact st R \<and> routes_exact st R \<and> queue_exact st R \<and> keys_exact st R \<and> affinity_bounded st"

lemmas accounts_defs = accounts_def active_exact_def routes_exact_def queue_exact_def keys_exact_def
  affinity_bounded_def

text \<open>The telemetry and the request windows are outside the invariant.\<close>

lemma accounts_cong:
  assumes "g_active_requests st' = g_active_requests st" "g_route_active st' = g_route_active st"
    "g_queued st' = g_queued st" "g_queue_order st' = g_queue_order st"
    "g_principal_active st' = g_principal_active st"
    "g_principal_reserved_tokens st' = g_principal_reserved_tokens st"
    "g_prefix_affinity st' = g_prefix_affinity st"
  shows "accounts st' R = accounts st R"
  using assms by (simp add: accounts_defs outstanding_def)

lemma accounts_telemetry [simp]: "accounts (st\<lparr>g_telemetry := t\<rparr>) R = accounts st R"
  by (rule accounts_cong) simp_all

lemma accounts_default: "accounts gateway_state_default []"
  by (simp add: accounts_defs gateway_state_default_def counter_ok_def outstanding_def)

section \<open>Releasing a principal\<close>

lemma outstanding_cong: "g_queued st' = g_queued st \<Longrightarrow> outstanding f st' R = outstanding f st R"
  by (simp add: outstanding_def)

text \<open>
  \<open>owed st R h\<close>: the key counters of the state are exact for the outstanding holders and one more
  holder \<open>h\<close>, which has just been taken out of the queue or of a reservation, or is about to be put there.
\<close>

definition owed :: "gateway_state \<Rightarrow> reservation list \<Rightarrow> holder \<Rightarrow> bool" where
  "owed st R h \<longleftrightarrow>
     counter_ok (g_principal_active st) \<and> counter_ok (g_principal_reserved_tokens st) \<and>
     (\<forall>k. get_or 0 (g_principal_active st) k = key_weight k h + outstanding (key_weight k) st R) \<and>
     (\<forall>k. get_or 0 (g_principal_reserved_tokens st) k = key_tokens k h + outstanding (key_tokens k) st R)"

lemma release_principal_frame [simp]:
  "g_active_requests (release_principal st h n) = g_active_requests st"
  "g_route_active (release_principal st h n) = g_route_active st"
  "g_queued (release_principal st h n) = g_queued st"
  "g_queue_order (release_principal st h n) = g_queue_order st"
  "g_prefix_affinity (release_principal st h n) = g_prefix_affinity st"
  "g_telemetry (release_principal st h n) = g_telemetry st"
  "g_token_windows (release_principal st h n) = g_token_windows st"
  "g_request_windows (release_principal st h n) = g_request_windows st"
  by (simp_all add: release_principal_def Let_def split: option.splits)

lemma release_principal_pays:
  assumes "owed st R (holder, n)"
  shows "keys_exact (release_principal st holder n) R"
proof (cases holder)
  case None
  with assms show ?thesis
    by (simp add: owed_def keys_exact_def release_principal_def key_weight_def key_tokens_def holds_key_def)
next
  case (Some p)
  let ?st = "release_principal st holder n"
  have o: "counter_ok (g_principal_active st)" "counter_ok (g_principal_reserved_tokens st)"
    "\<And>k. get_or 0 (g_principal_active st) k = (if pr_key_id p = k then 1 else 0) + outstanding (key_weight k) st R"
    "\<And>k. get_or 0 (g_principal_reserved_tokens st) k = (if pr_key_id p = k then n else 0) + outstanding (key_tokens k) st R"
    using assms Some by (auto simp: owed_def key_weight_def key_tokens_def holds_key_def)
  have out: "outstanding f ?st R = outstanding f st R" for f by (simp add: outstanding_def)
  have "counter_ok (g_principal_active ?st)" "counter_ok (g_principal_reserved_tokens ?st)"
    using o(1,2) Some
    by (auto simp: release_principal_def Let_def intro!: counter_ok_update counter_ok_delete)
  moreover have "get_or 0 (g_principal_active ?st) k = outstanding (key_weight k) st R" for k
    using o(3) [of k] o(3) [of "pr_key_id p"] Some
    by (auto simp: release_principal_def Let_def)
  moreover have "get_or 0 (g_principal_reserved_tokens ?st) k = outstanding (key_tokens k) st R" for k
    using o(4) [of k] o(4) [of "pr_key_id p"] Some
    by (auto simp: release_principal_def Let_def)
  ultimately show ?thesis by (simp add: keys_exact_def out)
qed

section \<open>Taking out and putting back\<close>

definition owing :: "gateway_state \<Rightarrow> reservation list \<Rightarrow> holder \<Rightarrow> bool" where
  "owing st R h \<longleftrightarrow>
     active_exact st R \<and> routes_exact st R \<and> queue_exact st R \<and> owed st R h \<and> affinity_bounded st"

definition fresh :: "gateway_state \<Rightarrow> sha256_digest \<Rightarrow> bool" where
  "fresh st rid \<longleftrightarrow> map_of (g_active_requests st) rid = None \<and> map_of (g_queued st) rid = None"

lemma owing_cong:
  assumes "g_active_requests st' = g_active_requests st" "g_route_active st' = g_route_active st"
    "g_queued st' = g_queued st" "g_queue_order st' = g_queue_order st"
    "g_principal_active st' = g_principal_active st"
    "g_principal_reserved_tokens st' = g_principal_reserved_tokens st"
    "g_prefix_affinity st' = g_prefix_affinity st"
  shows "owing st' R h = owing st R h"
  using assms by (simp add: owing_def accounts_defs outstanding_def owed_def)

lemma owing_release: "owing st R (holder, n) \<Longrightarrow> accounts (release_principal st holder n) R"
  by (simp add: owing_def accounts_def release_principal_pays)
    (simp add: accounts_defs)

lemma map_of_reservations:
  "distinct (map reservation_id (R1 @ r # R2)) \<Longrightarrow>
   map_of (map (\<lambda>r. (reservation_id r, reservation_group r)) (R1 @ r # R2)) rid =
     (if rid = reservation_id r then Some (reservation_group r)
      else map_of (map (\<lambda>r. (reservation_id r, reservation_group r)) (R1 @ R2)) rid)"
  by (induction R1) auto

lemma map_of_reservations_None:
  "map_of (map (\<lambda>r. (reservation_id r, reservation_group r)) R) rid = None \<longleftrightarrow>
   rid \<notin> reservation_id ` set R"
  by (force simp: map_of_eq_None_iff)

lemma release_reservation_takes:
  assumes acc: "accounts st (R1 @ r # R2)"
  shows "\<exists>st1. release_reservation st r = (Inr (), st1) \<and>
    owing st1 (R1 @ R2) (reservation_holder r) \<and> fresh st1 (reservation_id r) \<and>
    g_telemetry st1 = g_telemetry st \<and> g_queued st1 = g_queued st"
proof -
  let ?R = "R1 @ R2" and ?g = "reservation_group r" and ?id = "reservation_id r"
  have ids: "distinct (map reservation_id (R1 @ r # R2))" and tbl: "table_ok (g_active_requests st)"
    and act: "\<And>rid. map_of (g_active_requests st) rid =
      map_of (map (\<lambda>r. (reservation_id r, reservation_group r)) (R1 @ r # R2)) rid"
    using acc by (simp_all add: accounts_def active_exact_def)
  have cnt: "counter_ok (g_route_active st)"
    "\<And>g. get_or 0 (g_route_active st) g = (if ?g = g then 1 else 0) + length (filter (\<lambda>r. reservation_group r = g) ?R)"
    using acc by (auto simp: accounts_def routes_exact_def)
  define n where "n = get_or 0 (g_route_active st) ?g"
  have some: "map_of (g_route_active st) ?g = Some n" "0 < n"
    using get_or_positive [of "g_route_active st" ?g] cnt(2) [of ?g] by (auto simp: n_def)
  define st1 where "st1 = st\<lparr>g_active_requests := AList.delete ?id (g_active_requests st),
    g_route_active := (if n \<le> 1 then AList.delete ?g (g_route_active st)
      else AList.update ?g (n - 1) (g_route_active st))\<rparr>"
  have "release_reservation st r = (Inr (), st1)"
    using act [of ?id] map_of_reservations [OF ids, of ?id] some
    by (simp add: release_reservation_def Let_def st1_def reservation_id_def reservation_group_def)
  moreover have "map_of (map (\<lambda>r. (reservation_id r, reservation_group r)) ?R) ?id = None"
    unfolding map_of_reservations_None using ids by auto
  then have "active_exact st1 ?R"
    using ids tbl act [unfolded map_of_reservations [OF ids]]
    by (simp add: active_exact_def st1_def map_of_delete_if del: map_append map_of_append) auto
  moreover have "routes_exact st1 ?R"
    using cnt(1) cnt(2) n_def [unfolded cnt(2)]
    by (auto simp: routes_exact_def st1_def intro!: counter_ok_delete counter_ok_update)
  moreover have "queue_exact st1 ?R" "affinity_bounded st1" "owed st1 ?R (reservation_holder r)"
    using acc by (auto simp: accounts_defs st1_def owed_def outstanding_def)
  moreover have "fresh st1 ?id"
    using acc by (auto simp: fresh_def st1_def map_of_delete_if accounts_def queue_exact_def map_of_eq_None_iff)
  ultimately show ?thesis by (auto simp: owing_def st1_def)
qed

lemma remove_queued_takes:
  assumes acc: "accounts st R" and q: "map_of (g_queued st) rid = Some q"
  shows "\<exists>st1. remove_queued_request st rid = (Inr q, st1) \<and> owing st1 R (queued_holder q) \<and>
    fresh st1 rid \<and> rq_request_id (qr_request q) = rid \<and> g_telemetry st1 = g_telemetry st \<and>
    length (g_queued st) = Suc (length (g_queued st1))"
proof -
  define st1 where "st1 = st\<lparr>g_queued := AList.delete rid (g_queued st),
    g_queue_order := filter (\<lambda>x. x \<noteq> rid) (g_queue_order st)\<rparr>"
  have tbl: "table_ok (g_queued st)" using acc by (simp add: accounts_def queue_exact_def)
  have inq: "(rid, q) \<in> set (g_queued st)" using q by (rule map_of_SomeD)
  have len: "length (g_queued st) = Suc (length (g_queued st1))"
    using length_delete_present [OF tbl q] by (simp add: st1_def)
  have "outstanding f st R = f (queued_holder q) + outstanding f st1 R" for f
    using table_sum_delete [OF tbl q, of "f \<circ> queued_holder"] by (simp add: outstanding_def st1_def)
  then have "owed st1 R (queued_holder q)"
    using acc by (simp add: accounts_def keys_exact_def owed_def st1_def)
  moreover have "active_exact st1 R" "routes_exact st1 R" "affinity_bounded st1"
    using acc by (simp_all add: accounts_defs st1_def)
  moreover have "queue_exact st1 R"
    using acc len by (auto simp: accounts_def queue_exact_def st1_def set_delete)
  moreover have "map_of (g_active_requests st) rid = None"
    using acc inq by (auto simp: accounts_def active_exact_def queue_exact_def map_of_reservations_None)
  then have "fresh st1 rid" by (simp add: fresh_def st1_def map_of_delete_if)
  moreover have "rq_request_id (qr_request q) = rid" using acc inq by (auto simp: accounts_def queue_exact_def)
  ultimately show ?thesis using q len by (auto simp: remove_queued_request_def owing_def st1_def)
qed

lemma reserve_route_puts:
  assumes o: "owing st R (queued_holder q)" and f: "fresh st (rq_request_id (qr_request q))"
  shows "\<exists>r st'. reserve_route st q route now = (Inr r, st') \<and> accounts st' (r # R) \<and>
    rs_request r = qr_request q \<and> rs_route r = route \<and> rs_principal r = qr_principal q \<and>
    g_telemetry st' = (if qr_was_admitted q then g_telemetry st else record_admitted (g_telemetry st) route) \<and>
    g_queued st' = g_queued st"
proof -
  let ?id = "rq_request_id (qr_request q)" and ?g = "rt_placement_group_id route"
  obtain r st' where res: "reserve_route st q route now = (Inr r, st')"
    using f by (simp add: reserve_route_def fresh_def Let_def)
  have r: "rs_request r = qr_request q" "rs_route r = route" "reservation_id r = ?id"
    "reservation_group r = ?g" "reservation_holder r = queued_holder q" "rs_principal r = qr_principal q"
    using res f by (auto simp: reserve_route_def fresh_def Let_def reservation_id_def
        reservation_group_def reservation_holder_def queued_holder_def)
  have st': "g_active_requests st' = AList.update ?id ?g (g_active_requests st)"
    "g_route_active st' = AList.update ?g (get_or 0 (g_route_active st) ?g + 1) (g_route_active st)"
    "g_queued st' = g_queued st" "g_queue_order st' = g_queue_order st"
    "g_principal_active st' = g_principal_active st"
    "g_principal_reserved_tokens st' = g_principal_reserved_tokens st"
    "g_prefix_affinity st' = g_prefix_affinity st"
    "g_telemetry st' = (if qr_was_admitted q then g_telemetry st else record_admitted (g_telemetry st) route)"
    using res f by (auto simp: reserve_route_def fresh_def Let_def)
  have new: "?id \<notin> reservation_id ` set R" "?id \<notin> fst ` set (g_queued st)"
    using o f by (auto simp: owing_def active_exact_def fresh_def map_of_reservations_None [symmetric]
        map_of_eq_None_iff)
  have "active_exact st' (r # R)"
    using o new r by (auto simp: owing_def active_exact_def st' map_of_update_if)
  moreover have "routes_exact st' (r # R)"
    using o r by (auto simp: owing_def routes_exact_def st' intro!: counter_ok_update)
  moreover have "queue_exact st' (r # R)"
    using o new r by (auto simp: owing_def queue_exact_def st')
  moreover have "keys_exact st' (r # R)"
    using o r by (simp add: owing_def keys_exact_def owed_def st' outstanding_def)
  moreover have "affinity_bounded st'" using o by (simp add: owing_def affinity_bounded_def st')
  ultimately show ?thesis using res r st' by (auto simp: accounts_def)
qed

lemma enqueue_puts:
  assumes o: "owing st R (queued_holder q)" and f: "fresh st (rq_request_id (qr_request q))"
    and room: "length (g_queued st) < MAX_QUEUED_REQUESTS"
  shows "accounts (enqueue st q) R \<and> length (g_queued (enqueue st q)) = Suc (length (g_queued st)) \<and>
    g_telemetry (enqueue st q) = g_telemetry st"
proof -
  let ?id = "rq_request_id (qr_request q)" and ?st = "enqueue st q"
  have absent: "map_of (g_queued st) ?id = None" using f by (simp add: fresh_def)
  have new: "?id \<notin> reservation_id ` set R" "?id \<notin> fst ` set (g_queued st)"
    using o f by (auto simp: owing_def active_exact_def fresh_def map_of_reservations_None [symmetric]
        map_of_eq_None_iff)
  have len: "length (g_queued ?st) = Suc (length (g_queued st))"
    using length_update_absent [OF absent] by (simp add: enqueue_def)
  have rows: "set (g_queued ?st) = insert (?id, q) (set (g_queued st))"
    using new(2) by (simp add: enqueue_def update_absent_set)
  have "outstanding f ?st R = f (queued_holder q) + outstanding f st R" for f
    using table_sum_update_absent [OF absent] by (simp add: outstanding_def enqueue_def)
  then have "keys_exact ?st R"
    using o by (simp add: owing_def keys_exact_def owed_def enqueue_def)
  moreover have "queue_exact ?st R"
    using o new room unfolding queue_exact_def rows len
    by (auto simp: owing_def queue_exact_def enqueue_def)
  moreover have "active_exact ?st R" "routes_exact ?st R" "affinity_bounded ?st"
    using o by (simp_all add: owing_def active_exact_def routes_exact_def affinity_bounded_def enqueue_def)
  ultimately show ?thesis using len by (simp add: accounts_def enqueue_def)
qed

section \<open>Policy and marks\<close>

lemma load_usage_frame [simp]:
  "g_active_requests (foldl (load_usage k) st us) = g_active_requests st"
  "g_route_active (foldl (load_usage k) st us) = g_route_active st"
  "g_queued (foldl (load_usage k) st us) = g_queued st"
  "g_queue_order (foldl (load_usage k) st us) = g_queue_order st"
  "g_principal_active (foldl (load_usage k) st us) = g_principal_active st"
  "g_principal_reserved_tokens (foldl (load_usage k) st us) = g_principal_reserved_tokens st"
  "g_prefix_affinity (foldl (load_usage k) st us) = g_prefix_affinity st"
  "g_telemetry (foldl (load_usage k) st us) = g_telemetry st"
  by (induction us arbitrary: st) (simp_all add: load_usage_def)

lemma load_recent_usage_keeps:
  assumes "load_recent_usage st k recent since now = (res, st')"
  shows "accounts st' R = accounts st R" "fresh st' rid = fresh st rid"
    "g_telemetry st' = g_telemetry st" "g_queued st' = g_queued st"
proof -
  have "g_active_requests st' = g_active_requests st" "g_route_active st' = g_route_active st"
    "g_queued st' = g_queued st" "g_queue_order st' = g_queue_order st"
    "g_principal_active st' = g_principal_active st"
    "g_principal_reserved_tokens st' = g_principal_reserved_tokens st"
    "g_prefix_affinity st' = g_prefix_affinity st" "g_telemetry st' = g_telemetry st"
    using assms by (auto simp: load_recent_usage_def split: if_splits)
  then show "accounts st' R = accounts st R" "fresh st' rid = fresh st rid"
    "g_telemetry st' = g_telemetry st" "g_queued st' = g_queued st"
    by (simp_all add: accounts_cong [of st' st] fresh_def)
qed

lemma admit_principal_frame:
  assumes "admit_principal st p r now = (res, st')"
  shows "g_active_requests st' = g_active_requests st" "g_route_active st' = g_route_active st"
    "g_queued st' = g_queued st" "g_queue_order st' = g_queue_order st"
    "g_prefix_affinity st' = g_prefix_affinity st" "g_telemetry st' = g_telemetry st"
  using assms
  by (auto simp: admit_principal_def Let_def split: if_splits option.splits)

lemma admit_principal_error:
  assumes "admit_principal st p r now = (Inl e, st')"
  shows "g_principal_active st' = g_principal_active st"
    "g_principal_reserved_tokens st' = g_principal_reserved_tokens st"
  using assms
  by (auto simp: admit_principal_def Let_def split: if_splits option.splits)

lemma admit_principal_ok:
  assumes "admit_principal st p r now = (Inr u, st')"
  shows "g_principal_active st' =
      AList.update (pr_key_id p) (get_or 0 (g_principal_active st) (pr_key_id p) + 1) (g_principal_active st)"
    "g_principal_reserved_tokens st' =
      (if tokens_per_minute (pr_limits p) = None then g_principal_reserved_tokens st
       else AList.update (pr_key_id p) (get_or 0 (g_principal_reserved_tokens st) (pr_key_id p) + token_demand r)
         (g_principal_reserved_tokens st))"
  using assms
  by (auto simp: admit_principal_def Let_def split: if_splits option.splits)

lemma admit_principal_owes:
  assumes acc: "accounts st R" and ok: "admit_principal st p r now = (Inr u, st')" and d: "0 < token_demand r"
  shows "owing st' R (Some p, reserved_for (Some p) r)"
proof -
  note frame = admit_principal_frame [OF ok] and tables = admit_principal_ok [OF ok]
  have out: "outstanding f st' R = outstanding f st R" for f by (simp add: outstanding_def frame)
  have "keys_exact st R" using acc by (simp add: accounts_def)
  then have "owed st' R (Some p, reserved_for (Some p) r)"
    using d unfolding owed_def keys_exact_def out tables
    by (auto simp: key_weight_def key_tokens_def holds_key_def reserved_for_def
        intro!: counter_ok_update split: option.splits)
  moreover have "active_exact st' R" "routes_exact st' R" "queue_exact st' R" "affinity_bounded st'"
    using acc by (simp_all add: accounts_defs frame)
  ultimately show ?thesis by (simp add: owing_def)
qed

lemma no_principal_owes: "accounts st R \<Longrightarrow> owing st R (None, reserved_for None r)"
  by (simp add: accounts_def owing_def owed_def keys_exact_def key_weight_def key_tokens_def holds_key_def)

lemma trim_affinity_bounded:
  "table_ok t \<Longrightarrow> table_ok (trim_affinity t) \<and> length (trim_affinity t) \<le> MAX_PREFIX_AFFINITY_ENTRIES"
proof (induction t rule: trim_affinity.induct)
  case (1 t)
  show ?case
  proof (cases "length t > MAX_PREFIX_AFFINITY_ENTRIES")
    case True
    then have "oldest_affinity t \<noteq> None" by (auto simp: oldest_affinity_def)
    then obtain k where "oldest_affinity t = Some k" by blast
    with 1 True show ?thesis by (simp add: trim_affinity.simps [of t])
  next
    case False
    with 1 show ?thesis by (simp add: trim_affinity.simps [of t])
  qed
qed

lemma mark_route_failure_marks:
  "\<exists>a b. mark_route_failure st g now = st\<lparr>g_failure_counts := a, g_unavailable_until := b\<rparr>"
  unfolding mark_route_failure_def Let_def by blast

lemma mark_route_frame [simp]:
  "g_telemetry (mark_route_failure st g now) = g_telemetry st" "g_telemetry (mark_route_success st g) = g_telemetry st"
  "g_queued (mark_route_failure st g now) = g_queued st" "g_queued (mark_route_success st g) = g_queued st"
  using mark_route_failure_marks [of st g now] by (auto simp: mark_route_success_def)

lemma mark_route_failure_keeps [simp]:
  "owing (mark_route_failure st g now) R h = owing st R h"
  "accounts (mark_route_failure st g now) R = accounts st R"
  "fresh (mark_route_failure st g now) rid = fresh st rid"
proof -
  let ?st = "mark_route_failure st g now"
  have frame: "g_active_requests ?st = g_active_requests st" "g_route_active ?st = g_route_active st"
    "g_queued ?st = g_queued st" "g_queue_order ?st = g_queue_order st"
    "g_principal_active ?st = g_principal_active st"
    "g_principal_reserved_tokens ?st = g_principal_reserved_tokens st"
    "g_prefix_affinity ?st = g_prefix_affinity st"
    using mark_route_failure_marks [of st g now] by auto
  show "owing ?st R h = owing st R h" by (rule owing_cong) (rule frame)+
  show "accounts ?st R = accounts st R" by (rule accounts_cong) (rule frame)+
  show "fresh ?st rid = fresh st rid" by (simp only: fresh_def frame)
qed

lemma mark_route_success_keeps [simp]: "owing (mark_route_success st g) R h = owing st R h"
  by (rule owing_cong) (simp_all add: mark_route_success_def)

lemma record_prefix_affinity_frame [simp]:
  "g_telemetry (record_prefix_affinity st k g now) = g_telemetry st"
  "g_queued (record_prefix_affinity st k g now) = g_queued st"
  by (simp_all add: record_prefix_affinity_def)

lemma record_prefix_affinity_owing:
  "owing st R h \<Longrightarrow> owing (record_prefix_affinity st k g now) R h"
proof -
  assume o: "owing st R h"
  then have "table_ok (filter (\<lambda>(_, _, deadline). deadline > now) (g_prefix_affinity st))"
    by (simp add: owing_def affinity_bounded_def distinct_map inj_on_def)
  then have "affinity_bounded (record_prefix_affinity st k g now)"
    using trim_affinity_bounded by (simp add: affinity_bounded_def record_prefix_affinity_def)
  with o show ?thesis
    by (simp add: owing_def owed_def accounts_defs record_prefix_affinity_def outstanding_def)
qed

section \<open>Telemetry\<close>

definition settled :: "telemetry_state \<Rightarrow> nat" where
  "settled t = tc_requests_completed (te_counters t) + tc_requests_failed (te_counters t)
     + tc_requests_cancelled (te_counters t)"

definition conserved :: "telemetry_state \<Rightarrow> nat \<Rightarrow> bool" where
  "conserved t live \<longleftrightarrow>
     (tc_requests_received (te_counters t) < u64_max \<longrightarrow>
      tc_requests_received (te_counters t) = settled t + live)"

lemma increment_one: "n < u64_max \<Longrightarrow> increment n 1 = Suc n"
  by (simp add: increment_def saturating_add64_def)

lemma te_counters_with_group [simp]: "te_counters (with_group st route f) = te_counters st"
  by (simp add: with_group_def Let_def split: option.splits)

lemma te_counters_group_sample [simp]: "te_counters (record_group_sample st g a b c d) = te_counters st"
  by (simp add: record_group_sample_def Let_def)

lemmas conserved_defs = conserved_def settled_def record_received_def record_unrouted_failure_def
  record_unrouted_failure_with_timing_def record_admitted_def record_retried_def record_completed_def
  record_failed_def record_cancelled_def record_timing_def Let_def

lemma conserved_received: "conserved t n \<Longrightarrow> conserved (record_received t) (Suc n)"
  by (auto simp: conserved_defs increment_def saturating_add64_def min_def split: if_splits)

lemma conserved_same [simp]:
  "conserved (record_admitted t r) n = conserved t n" "conserved (record_retried t r) n = conserved t n"
  "conserved (publisher_did_succeed t k) n = conserved t n" "conserved (publisher_did_fail t k) n = conserved t n"
  "conserved (prune_samples t k) n = conserved t n"
  by (simp_all add: conserved_defs publisher_did_succeed_def publisher_did_fail_def prune_samples_def)

lemma conserved_settled:
  assumes "conserved t (Suc n)"
  shows "conserved (record_unrouted_failure t) n" "conserved (record_unrouted_failure_with_timing t time) n"
    "conserved (record_failed t r time) n" "conserved (record_cancelled t ro time) n"
    "conserved (record_completed t r now time i j c e) n"
  using assms increment_one by (auto simp: conserved_defs split: option.splits)

section \<open>Sections\<close>

text \<open>
  \<open>sound st R n\<close>: the accounts are exact and every received request is settled, held by a caller,
  waiting, or one of the \<open>n\<close> admissions under way. \<open>in_flight\<close> is the same while a section has one
  request in its hands.
\<close>

definition sound :: "gateway_state \<Rightarrow> reservation list \<Rightarrow> nat \<Rightarrow> bool" where
  "sound st R n \<longleftrightarrow> accounts st R \<and> conserved (g_telemetry st) (length R + length (g_queued st) + n)"

definition in_flight :: "gateway_state \<Rightarrow> reservation list \<Rightarrow> holder \<Rightarrow> nat \<Rightarrow> bool" where
  "in_flight st R h n \<longleftrightarrow>
     owing st R h \<and> conserved (g_telemetry st) (Suc (length R + length (g_queued st) + n))"

lemma sound_telemetry:
  "sound (st\<lparr>g_telemetry := t\<rparr>) R n \<longleftrightarrow>
     accounts st R \<and> conserved t (length R + length (g_queued st) + n)"
  by (simp add: sound_def)

lemma sound_token_windows [simp]: "sound (st\<lparr>g_token_windows := w\<rparr>) R n = sound st R n"
  using accounts_cong [of "st\<lparr>g_token_windows := w\<rparr>" st R] by (simp add: sound_def)

lemma in_flight_drop:
  "in_flight st R (holder, m) n \<Longrightarrow> sound (release_principal st holder m) R (Suc n)"
  by (simp add: in_flight_def sound_def owing_release)

lemma in_flight_settle:
  assumes "in_flight st R (holder, m) n"
    and "\<And>k. conserved (g_telemetry st) (Suc k) \<Longrightarrow> conserved t k"
  shows "sound ((release_principal st holder m)\<lparr>g_telemetry := t\<rparr>) R n"
  using assms by (auto simp: in_flight_def sound_telemetry owing_release)

lemma in_flight_reserve:
  assumes "in_flight st R (queued_holder q) n" "fresh st (rq_request_id (qr_request q))"
  shows "\<exists>r st'. reserve_route st q route now = (Inr r, st') \<and> sound st' (r # R) n \<and>
    rs_request r = qr_request q \<and> rs_route r = route \<and> rs_principal r = qr_principal q"
  using assms reserve_route_puts [of st R q route now] by (auto simp: in_flight_def sound_def)

lemma in_flight_enqueue:
  assumes "in_flight st R (queued_holder q) n" "fresh st (rq_request_id (qr_request q))"
    "length (g_queued st) < MAX_QUEUED_REQUESTS"
  shows "sound (enqueue st q) R n"
  using assms enqueue_puts [of st R q] by (auto simp: in_flight_def sound_def)

lemma take_reservation:
  assumes "sound st (R1 @ r # R2) n"
  shows "\<exists>st1. release_reservation st r = (Inr (), st1) \<and>
    in_flight st1 (R1 @ R2) (rs_principal r, rs_reserved_tokens r) n \<and> fresh st1 (reservation_id r)"
  using release_reservation_takes [of st R1 r R2] assms
  by (auto simp: sound_def in_flight_def reservation_holder_def)

lemma take_queued:
  assumes "sound st R n" "map_of (g_queued st) rid = Some q"
  shows "\<exists>st1. remove_queued_request st rid = (Inr q, st1) \<and> in_flight st1 R (queued_holder q) n \<and>
    fresh st1 rid \<and> rq_request_id (qr_request q) = rid"
  using remove_queued_takes [of st R rid q] assms by (auto simp: sound_def in_flight_def)

text \<open>What each section leaves behind.\<close>

fun admitted_to :: "gateway_error + admission \<Rightarrow> gateway_state \<Rightarrow> reservation list \<Rightarrow> nat \<Rightarrow> nat \<Rightarrow> bool" where
  "admitted_to (Inl e) st R failed n = sound st R failed"
| "admitted_to (Inr (Admitted r)) st R failed n = sound st (r # R) n"
| "admitted_to (Inr (Queued t)) st R failed n = sound st R n"

lemma admit_route_sound:
  assumes f: "in_flight st R (holder, reserved_for holder r) n" and new: "fresh st (rq_request_id r)"
    and run: "admit_route st r holder now routes = (res, st')"
  shows "admitted_to res st' R (Suc n) n"
proof -
  define q where "q = \<lparr>qr_request = r, qr_principal = holder, qr_received_at = now, qr_enqueued_at = now,
    qr_queued_milliseconds = 0, qr_reserved_tokens = reserved_for holder r, qr_was_admitted = False\<rparr>"
  have h: "queued_holder q = (holder, reserved_for holder r)" "rq_request_id (qr_request q) = rq_request_id r"
    by (simp_all add: queued_holder_def q_def)
  note run' = run [unfolded admit_route_def Let_def, folded q_def]
  show ?thesis
  proof (cases "select_route st r routes now")
    case (Inl e)
    with run' in_flight_drop [OF f] show ?thesis by auto
  next
    case (Inr sel)
    show ?thesis
    proof (cases sel)
      case (Selected route)
      from in_flight_reserve [of st R q n route now] f new h obtain x st1
        where "reserve_route st q route now = (Inr x, st1)" "sound st1 (x # R) n" by auto
      with run' Inr Selected show ?thesis by auto
    next
      case Busy
      with run' Inr in_flight_drop [OF f] in_flight_enqueue [of st R q n] f new h show ?thesis
        by (auto split: if_splits)
    qed
  qed
qed

lemma admit_section_sound:
  assumes s: "sound st R (Suc n)" and d: "0 < token_demand r"
    and run: "admit_section st r holder now routes recent = (res, st')"
  shows "admitted_to res st' R (Suc n) n"
proof (cases "require_new_request st (rq_request_id r)")
  case (Inl e)
  with run s show ?thesis by (auto simp: admit_section_def)
next
  case (Inr u)
  then have new: "fresh st (rq_request_id r)" by (auto simp: require_new_request_def fresh_def split: if_splits)
  show ?thesis
  proof (cases holder)
    case None
    have "in_flight st R (None, reserved_for None r) n"
      using s no_principal_owes by (simp add: sound_def in_flight_def)
    from admit_route_sound [OF this new] run Inr None show ?thesis by (simp add: admit_section_def)
  next
    case (Some p)
    obtain lr st1 where l: "load_recent_usage st (pr_key_id p) recent (now - ROLLING_WINDOW_MILLISECONDS) now = (lr, st1)"
      by force
    note keeps = load_recent_usage_keeps [OF l]
    have s1: "sound st1 R (Suc n)" "fresh st1 (rq_request_id r)" using s new keeps by (simp_all add: sound_def)
    obtain ar st2 where a: "admit_principal st1 p r now = (ar, st2)" by force
    note frame = admit_principal_frame [OF a]
    show ?thesis
    proof (cases lr)
      case (Inl e)
      with run Inr Some l s1 show ?thesis by (auto simp: admit_section_def)
    next
      case lr: (Inr v)
      show ?thesis
      proof (cases ar)
        case (Inl e)
        have "accounts st2 R = accounts st1 R"
          by (rule accounts_cong) (simp_all add: frame admit_principal_error [OF a [unfolded Inl]])
        with s1(1) have "sound st2 R (Suc n)" by (simp add: sound_def frame)
        with run Inr Some l lr a Inl show ?thesis by (auto simp: admit_section_def)
      next
        case ar: (Inr w)
        have "owing st2 R (Some p, reserved_for (Some p) r)"
          using admit_principal_owes [OF _ a [unfolded ar] d] s1 by (simp add: sound_def)
        then have "in_flight st2 R (Some p, reserved_for (Some p) r) n"
          using s1 by (simp add: in_flight_def sound_def frame)
        moreover have "fresh st2 (rq_request_id r)" using s1(2) by (simp add: fresh_def frame)
        ultimately show ?thesis
          using admit_route_sound run Inr Some l lr a ar by (auto simp: admit_section_def)
      qed
    qed
  qed
qed

fun polled_to :: "gateway_error + queue_status \<Rightarrow> gateway_state \<Rightarrow> reservation list \<Rightarrow> nat \<Rightarrow> bool" where
  "polled_to (Inr (StatusAdmitted r)) st R n = sound st (r # R) n"
| "polled_to (Inr Waiting) st R n = sound st R n"
| "polled_to (Inl e) st R n = sound st R n"

lemma queue_settle:
  assumes "in_flight st R (queued_holder q) n"
    and "\<And>k. conserved (g_telemetry st) (Suc k) \<Longrightarrow> conserved t k"
  shows "sound ((release_principal st (qr_principal q) (qr_reserved_tokens q))\<lparr>g_telemetry := t\<rparr>) R n"
  using in_flight_settle [of st R "qr_principal q" "qr_reserved_tokens q" n t] assms
  by (simp add: queued_holder_def)

lemma poll_section_sound:
  assumes s: "sound st R n" and run: "poll_section st ticket r now routes = (res, st')"
  shows "polled_to res st' R n"
proof (cases "map_of (g_queued st) ticket")
  case None
  with run s show ?thesis by (auto simp: poll_section_def)
next
  case (Some q)
  from take_queued [OF s Some] obtain st1 where t: "remove_queued_request st ticket = (Inr q, st1)"
    "in_flight st1 R (queued_holder q) n" "fresh st1 ticket" "rq_request_id (qr_request q) = ticket" by blast
  have "polled_to res st' R n" if "expire_queued st ticket now = (res, st')"
    using that t(1) queue_settle [OF t(2) conserved_settled(2)]
    by (auto simp: expire_queued_def Let_def)
  moreover have "polled_to res st' R n"
    if sel: "select_route st r routes now = Inr (Selected route)"
      and rest: "(case reserve_route st1 q route now of
          (Inl e, st2) \<Rightarrow> (Inl e, st2) | (Inr x, st2) \<Rightarrow> (Inr (StatusAdmitted x), st2)) = (res, st')" for route
    using in_flight_reserve [OF t(2), of route now] t(3,4) rest by auto
  ultimately show ?thesis
    using run Some t(1) s
    by (auto simp: poll_section_def split: if_splits sum.splits route_selection.splits)
qed

lemma queue_end_sound:
  assumes s: "sound st R n"
  shows "cancel_queue_section st ticket now = (res, st') \<Longrightarrow> sound st' R n"
    and "fail_queue_section st ticket now = (res, st') \<Longrightarrow> sound st' R n"
proof -
  have "sound st' R n" if "cancel_queue_section st ticket now = (res, st') \<or> fail_queue_section st ticket now = (res, st')"
  proof (cases "map_of (g_queued st) ticket")
    case None
    with s that show ?thesis
      by (auto simp: cancel_queue_section_def fail_queue_section_def remove_queued_request_def)
  next
    case (Some q)
    from take_queued [OF s Some] obtain st1 where t: "remove_queued_request st ticket = (Inr q, st1)"
      "in_flight st1 R (queued_holder q) n" by blast
    from that t(1) queue_settle [OF t(2) conserved_settled(2)] queue_settle [OF t(2) conserved_settled(4)]
    show ?thesis by (auto simp: cancel_queue_section_def fail_queue_section_def Let_def)
  qed
  then show "cancel_queue_section st ticket now = (res, st') \<Longrightarrow> sound st' R n"
    and "fail_queue_section st ticket now = (res, st') \<Longrightarrow> sound st' R n" by blast+
qed

lemma held_settle:
  assumes "in_flight st R (rs_principal r, rs_reserved_tokens r) n"
    and "\<And>k. conserved (g_telemetry st) (Suc k) \<Longrightarrow> conserved t k"
  shows "sound ((release_principal st (rs_principal r) (rs_reserved_tokens r))\<lparr>g_telemetry := t\<rparr>) R n"
  by (rule in_flight_settle [OF assms])

lemma end_failed_sound:
  "in_flight st R (rs_principal r, rs_reserved_tokens r) n \<Longrightarrow> sound (end_failed st r timing) R n"
  by (simp add: end_failed_def Let_def held_settle conserved_settled(3))

lemma mark_failure_in_flight [simp]: "in_flight (mark_route_failure st g now) R h n = in_flight st R h n"
  by (simp add: in_flight_def)

lemma cancel_section_sound:
  assumes s: "sound st (R1 @ r # R2) n" and run: "cancel_section st r timing = (res, st')"
  shows "res = Inr () \<and> sound st' (R1 @ R2) n"
proof -
  from take_reservation [OF s] obtain st1 where "release_reservation st r = (Inr (), st1)"
    "in_flight st1 (R1 @ R2) (rs_principal r, rs_reserved_tokens r) n" by blast
  with run held_settle [OF this(2) conserved_settled(4)] show ?thesis
    by (auto simp: cancel_section_def Let_def)
qed

lemma fail_section_sound:
  assumes s: "sound st (R1 @ r # R2) n" and run: "fail_section st r now_result timing = (res, st')"
  shows "sound st' (R1 @ R2) n"
proof -
  from take_reservation [OF s] obtain st1 where t: "release_reservation st r = (Inr (), st1)"
    "in_flight st1 (R1 @ R2) (rs_principal r, rs_reserved_tokens r) n" by blast
  let ?st2 = "release_principal st1 (rs_principal r) (rs_reserved_tokens r)"
  have "sound (?st2\<lparr>g_telemetry := record_failed (g_telemetry st1) (rs_route r) timing\<rparr>) (R1 @ R2) n"
    by (rule held_settle [OF t(2) conserved_settled(3)])
  then show ?thesis
    using run t(1) by (auto simp: fail_section_def Let_def sound_telemetry split: sum.splits)
qed

lemma retry_section_sound:
  assumes s: "sound st (R1 @ r # R2) n" and run: "retry_section st r now_result routes_result = (res, st')"
  shows "admitted_to res st' (R1 @ R2) n n"
proof -
  from take_reservation [OF s] obtain st1 where t: "release_reservation st r = (Inr (), st1)"
    "in_flight st1 (R1 @ R2) (rs_principal r, rs_reserved_tokens r) n" "fresh st1 (reservation_id r)" by blast
  let ?R = "R1 @ R2" and ?timing = "from_observations (rs_queued_milliseconds r) None None None"
  show ?thesis
  proof (cases now_result)
    case (Inl e)
    with run t end_failed_sound [OF t(2)] show ?thesis by (auto simp: retry_section_def Let_def)
  next
    case now: (Inr now)
    define st2 where "st2 = mark_route_failure st1 (rt_placement_group_id (rs_route r)) now"
    define q where "q = \<lparr>qr_request = rs_request r, qr_principal = rs_principal r,
      qr_received_at = rs_received_at r, qr_enqueued_at = now,
      qr_queued_milliseconds = rs_queued_milliseconds r,
      qr_reserved_tokens = rs_reserved_tokens r, qr_was_admitted = True\<rparr>"
    have f: "in_flight st2 ?R (rs_principal r, rs_reserved_tokens r) n" using t(2) by (simp add: st2_def)
    have q: "queued_holder q = (rs_principal r, rs_reserved_tokens r)" "fresh st2 (rq_request_id (qr_request q))"
      using t(3) by (simp_all add: queued_holder_def q_def st2_def reservation_id_def)
    note run' = run [unfolded retry_section_def Let_def t(1) now, simplified, folded st2_def q_def]
    show ?thesis
    proof (cases routes_result)
      case (Inl e)
      with run' end_failed_sound [OF f] show ?thesis by auto
    next
      case routes: (Inr routes)
      show ?thesis
      proof (cases "select_route st2 (rs_request r) routes now")
        case (Inl e)
        with run' routes end_failed_sound [OF f] show ?thesis by auto
      next
        case sel: (Inr sel)
        show ?thesis
        proof (cases sel)
          case (Selected route)
          from in_flight_reserve [of st2 ?R q n route now] f q obtain x st3
            where "reserve_route st2 q route now = (Inr x, st3)" "sound st3 (x # ?R) n" by auto
          with run' routes sel Selected show ?thesis by (auto simp: sound_def sound_telemetry)
        next
          case Busy
          with run' routes sel end_failed_sound [OF f] in_flight_enqueue [of st2 ?R q n] f q show ?thesis
            by (auto simp: sound_def sound_telemetry split: if_splits)
        qed
      qed
    qed
  qed
qed

lemma complete_section_sound:
  assumes s: "sound st (R1 @ r # R2) n"
    and run: "complete_section st r completed_at input output cached exact_tokens timing = (res, st')"
  shows "sound st' (R1 @ R2) n"
proof -
  from take_reservation [OF s] obtain st1 where t: "release_reservation st r = (Inr (), st1)"
    "in_flight st1 (R1 @ R2) (rs_principal r, rs_reserved_tokens r) n" by blast
  let ?R = "R1 @ R2"
  define st2 where "st2 = mark_completed st1 r completed_at"
  define st3 where "st3 = charge_completed st2 r completed_at (total_tokens input output)"
  have f: "in_flight st2 ?R (rs_principal r, rs_reserved_tokens r) n"
    using t(2) by (auto simp: st2_def mark_completed_def in_flight_def Let_def
        intro: record_prefix_affinity_owing split: sum.splits option.splits)
  have "sound (release_principal st2 (rs_principal r) (rs_reserved_tokens r)) ?R (Suc n)"
    by (rule in_flight_drop [OF f])
  then have "sound st3 ?R (Suc n)"
    by (cases "rs_principal r")
      (auto simp: st3_def charge_completed_def Let_def release_principal_def [of _ None] split: sum.splits)
  then have "sound (st3\<lparr>g_telemetry := record_completed (g_telemetry st3) (rs_route r) k timing input output cached exact_tokens\<rparr>) ?R n"
    "sound (st3\<lparr>g_telemetry := record_failed (g_telemetry st3) (rs_route r) timing\<rparr>) ?R n" for k
    by (simp_all add: sound_def sound_telemetry conserved_settled)
  moreover have "st' = st3\<lparr>g_telemetry :=
      (case (completed_at, completed_usage r completed_at (total_tokens input output)) of
         (Inr now, Inr _) \<Rightarrow>
           record_completed (g_telemetry st3) (rs_route r) now timing input output cached exact_tokens
       | _ \<Rightarrow> record_failed (g_telemetry st3) (rs_route r) timing)\<rparr>"
    using run t(1) unfolding st3_def st2_def by (simp add: complete_section_def Let_def)
  ultimately show ?thesis by (simp split: sum.splits)
qed

section \<open>Interleavings\<close>

text \<open>
  One step is one locked section of some operation. What the operation read before its section is
  arbitrary, so stale routes, clocks, usage records and requests are included. A reservation is consumed
  by the operation that receives it; a ticket may be used any number of times.
\<close>

type_synonym gateway_config = "gateway_state \<times> reservation list \<times> nat"

inductive gateway_step :: "gateway_config \<Rightarrow> gateway_config \<Rightarrow> bool" where
  Receive: "gateway_step (st, R, n) (st\<lparr>g_telemetry := record_received (g_telemetry st)\<rparr>, R, Suc n)"
| Reject: "gateway_step (st, R, Suc n) (st\<lparr>g_telemetry := record_unrouted_failure (g_telemetry st)\<rparr>, R, n)"
| Admit: "admit_section st r holder now routes recent = (Inr (Admitted x), st') \<Longrightarrow> 0 < token_demand r \<Longrightarrow>
    gateway_step (st, R, Suc n) (st', x # R, n)"
| AdmitQueued: "admit_section st r holder now routes recent = (Inr (Queued t), st') \<Longrightarrow> 0 < token_demand r \<Longrightarrow>
    gateway_step (st, R, Suc n) (st', R, n)"
| AdmitFailed: "admit_section st r holder now routes recent = (Inl e, st') \<Longrightarrow> 0 < token_demand r \<Longrightarrow>
    gateway_step (st, R, Suc n) (st', R, Suc n)"
| PollAdmitted: "poll_section st t r now routes = (Inr (StatusAdmitted x), st') \<Longrightarrow>
    gateway_step (st, R, n) (st', x # R, n)"
| PollWaiting: "poll_section st t r now routes = (Inr Waiting, st') \<Longrightarrow> gateway_step (st, R, n) (st', R, n)"
| PollFailed: "poll_section st t r now routes = (Inl e, st') \<Longrightarrow> gateway_step (st, R, n) (st', R, n)"
| CancelQueue: "cancel_queue_section st t now = (res, st') \<Longrightarrow> gateway_step (st, R, n) (st', R, n)"
| FailQueue: "fail_queue_section st t now = (res, st') \<Longrightarrow> gateway_step (st, R, n) (st', R, n)"
| Complete: "complete_section st r completed_at input output cached exact timing = (res, st') \<Longrightarrow>
    gateway_step (st, R1 @ r # R2, n) (st', R1 @ R2, n)"
| Cancel: "cancel_section st r timing = (res, st') \<Longrightarrow> gateway_step (st, R1 @ r # R2, n) (st', R1 @ R2, n)"
| RetryAdmitted: "retry_section st r now_result routes_result = (Inr (Admitted x), st') \<Longrightarrow>
    gateway_step (st, R1 @ r # R2, n) (st', x # R1 @ R2, n)"
| RetryQueued: "retry_section st r now_result routes_result = (Inr (Queued t), st') \<Longrightarrow>
    gateway_step (st, R1 @ r # R2, n) (st', R1 @ R2, n)"
| RetryFailed: "retry_section st r now_result routes_result = (Inl e, st') \<Longrightarrow>
    gateway_step (st, R1 @ r # R2, n) (st', R1 @ R2, n)"
| Fail: "fail_section st r now_result timing = (res, st') \<Longrightarrow>
    gateway_step (st, R1 @ r # R2, n) (st', R1 @ R2, n)"
| Observe: "telemetry_section st now = (s, st') \<Longrightarrow> gateway_step (st, R, n) (st', R, n)"
| Published: "gateway_step (st, R, n) (st\<lparr>g_telemetry := publisher_did_succeed (g_telemetry st) now\<rparr>, R, n)"
| NotPublished: "gateway_step (st, R, n) (st\<lparr>g_telemetry := publisher_did_fail (g_telemetry st) now\<rparr>, R, n)"

inductive gateway_reachable :: "gateway_config \<Rightarrow> bool" where
  Start: "gateway_reachable (gateway_state_default, [], 0)"
| Step: "gateway_reachable c \<Longrightarrow> gateway_step c c' \<Longrightarrow> gateway_reachable c'"

fun config_sound :: "gateway_config \<Rightarrow> bool" where
  "config_sound (st, R, n) = sound st R n"

lemma sound_default: "sound gateway_state_default [] 0"
  unfolding sound_def
  by (simp add: accounts_default)
    (simp add: gateway_state_default_def conserved_def settled_def telemetry_state_default_def
      telemetry_counters_default_def)

lemma telemetry_section_sound: "sound st R n \<Longrightarrow> telemetry_section st now = (s, st') \<Longrightarrow> sound st' R n"
  by (auto simp: telemetry_section_def snapshot_def Let_def sound_telemetry sound_def)

lemma gateway_step_sound: "gateway_step c c' \<Longrightarrow> config_sound c \<Longrightarrow> config_sound c'"
proof (induction rule: gateway_step.induct)
  case (Receive st R n)
  then show ?case by (simp add: sound_def conserved_received)
next
  case (Reject st R n)
  then show ?case by (simp add: sound_def conserved_settled(1))
next
  case (Published st R n now)
  then show ?case by (simp add: sound_def)
next
  case (NotPublished st R n now)
  then show ?case by (simp add: sound_def)
qed (auto dest: admit_section_sound poll_section_sound
    queue_end_sound complete_section_sound cancel_section_sound retry_section_sound fail_section_sound
    telemetry_section_sound)

lemma gateway_reachable_sound: "gateway_reachable c \<Longrightarrow> config_sound c"
  by (induction rule: gateway_reachable.induct) (auto simp: sound_default gateway_step_sound)

lemma reachable_sound: "gateway_reachable (st, R, n) \<Longrightarrow> sound st R n"
  by (auto dest: gateway_reachable_sound)

lemma active_count: "active_exact st R \<Longrightarrow> length (g_active_requests st) = length R"
proof -
  assume a: "active_exact st R"
  let ?t = "map (\<lambda>r. (reservation_id r, reservation_group r)) R"
  have "map_of (g_active_requests st) = map_of ?t" using a by (auto simp: active_exact_def)
  then have "fst ` set (g_active_requests st) = fst ` set ?t" by (metis dom_map_of_conv_image_fst)
  then have "card (set (map fst (g_active_requests st))) = card (set (map reservation_id R))"
    by (simp add: image_image)
  moreover have "table_ok (g_active_requests st)" "distinct (map reservation_id R)"
    using a by (simp_all add: active_exact_def)
  ultimately show ?thesis by (simp only: distinct_card length_map)
qed

text \<open>When no reservation is held and nothing waits, every live table is empty.\<close>

lemma idle_empty:
  assumes "accounts st []" "g_queued st = []"
  shows "g_active_requests st = [] \<and> g_route_active st = [] \<and> g_principal_active st = [] \<and>
    g_principal_reserved_tokens st = [] \<and> g_queue_order st = []"
proof -
  have "outstanding f st [] = 0" for f using assms(2) by (simp add: outstanding_def)
  with assms have "get_or 0 (g_principal_active st) k = 0" "get_or 0 (g_principal_reserved_tokens st) k = 0"
    "get_or 0 (g_route_active st) g = 0" for k g
    by (simp_all add: accounts_def keys_exact_def routes_exact_def)
  with assms have "g_principal_active st = []" "g_principal_reserved_tokens st = []" "g_route_active st = []"
    by (auto simp: accounts_def keys_exact_def routes_exact_def intro!: counter_ok_empty)
  moreover have "g_active_requests st = []" using active_count [of st "[]"] assms by (simp add: accounts_def)
  moreover have "g_queue_order st = []" using assms by (simp add: accounts_def queue_exact_def)
  ultimately show ?thesis by simp
qed

section \<open>Example values\<close>

definition example_request :: gateway_request where
  "example_request =
     \<lparr>rq_request_id = ''r1'', rq_model = ''m'', rq_context_tokens = 10, rq_maximum_output_tokens = 5,
      rq_prefix_key = None, rq_maximum_queue_milliseconds = 1000\<rparr>"

definition example_principal :: gateway_principal where
  "example_principal =
     \<lparr>pr_key_id = ''k'', pr_limits = \<lparr>requests_per_minute = Some 2, tokens_per_minute = Some 100,
        concurrency = Some 1, context_tokens = Some 50\<rparr>\<rparr>"

definition example_received :: gateway_state where
  "example_received = gateway_state_default\<lparr>g_telemetry := record_received (g_telemetry gateway_state_default)\<rparr>"

definition example_reservation :: reservation where
  "example_reservation =
     \<lparr>rs_request = example_request, rs_route = example_route, rs_principal = Some example_principal,
      rs_received_at = 100000, rs_queued_milliseconds = 0, rs_reserved_tokens = 15\<rparr>"

lemmas example_manager_defs = example_request_def example_principal_def example_received_def
  example_reservation_def example_route_def gateway_state_default_def

lemma example_admitted:
  "\<exists>st. admit_section example_received example_request (Some example_principal) 100000 [example_route] []
     = (Inr (Admitted example_reservation), st)"
  by (simp add: admit_section_def admit_route_def require_new_request_def load_recent_usage_def
      admit_principal_def Let_def select_route_def sort_by_def exceeds_def reaches_def used_tokens_def
      reserve_route_def out_of_cooldown_def route_active_def queue_time_def reserved_for_def
      token_demand_def checked_add64_def u64_max_def saturating_add64_def example_manager_defs)

section \<open>Property\<close>

text \<open>
  C1: In every interleaving of the manager's sections, with arbitrary clocks, routes and usage records,
  the accounts are exact: the active requests are the reservations that callers hold, each placement
  group's counter is the number of its reservations, each key's concurrency and reserved tokens are those
  of its held and waiting requests, the queue lists every waiting request once and at most 1024 of them,
  the prefix table has at most 4096 rows, and every received request is settled exactly once or still
  held, waiting or being admitted. When nothing is held and nothing waits, no counter is left.
\<close>

theorem gateway_accounting:
  assumes "gateway_reachable (st, R, n)"
  shows "accounts st R \<and> counts st = (length R, length (g_queued st)) \<and>
    conserved (g_telemetry st) (length R + length (g_queued st) + n) \<and>
    (R = [] \<and> g_queued st = [] \<longrightarrow>
       g_active_requests st = [] \<and> g_route_active st = [] \<and> g_principal_active st = [] \<and>
       g_principal_reserved_tokens st = [] \<and> g_queue_order st = [])"
proof -
  have "sound st R n" by (rule reachable_sound [OF assms])
  then have "accounts st R" "conserved (g_telemetry st) (length R + length (g_queued st) + n)"
    by (simp_all add: sound_def)
  then show ?thesis using active_count idle_empty by (auto simp: counts_def accounts_def)
qed

theorem gateway_accounting_witness:
  "\<exists>st. gateway_reachable (st, [example_reservation], 0) \<and> accounts st [example_reservation] \<and>
     fst (counts st) = 1"
proof -
  obtain st where adm: "admit_section example_received example_request (Some example_principal) 100000
      [example_route] [] = (Inr (Admitted example_reservation), st)"
    using example_admitted by blast
  have "gateway_reachable (example_received, [], Suc 0)"
    unfolding example_received_def by (rule gateway_reachable.Step [OF gateway_reachable.Start gateway_step.Receive])
  moreover have "gateway_step (example_received, [], Suc 0) (st, [example_reservation], 0)"
    by (rule gateway_step.Admit [OF adm]) (simp add: token_demand_def example_request_def)
  ultimately have r: "gateway_reachable (st, [example_reservation], 0)" by (rule gateway_reachable.Step)
  from r gateway_accounting [OF r] show ?thesis by auto
qed

end
