(* ===== verification/GatewayAdmission.thy ===== *)
theory GatewayAdmission
  imports GatewayAccounting Complex_Main
begin

text \<open>
  What an admission of the Gateway manager guarantees: the selected route is the first of the best
  admissible ones, the limits of the key hold for everything it has outstanding and the capacity of the
  route for its group, waiting requests of a model are served in order, and no local engine is reached
  without an accepted protection snapshot.
\<close>

section \<open>Route selection\<close>

text \<open>The order of preference as a rank: prefix first, then used share, temperature and node identity.\<close>

definition rank :: "gateway_state \<Rightarrow> gateway_request \<Rightarrow> nat \<Rightarrow> gateway_route \<Rightarrow> bool \<times> rat \<times> nat \<times> node_id" where
  "rank st r now x =
     (\<not> has_prefix st r now x, of_nat (route_active st x) / of_nat (rt_max_active_requests x),
      temperature_key x, rt_endpoint_node_id x)"

definition usable :: "gateway_request \<Rightarrow> gateway_route \<Rightarrow> bool" where
  "usable r x \<longleftrightarrow> rt_healthy x \<and> \<not> rt_memory_pressure x \<and> token_demand r \<le> rt_max_context_tokens x"

definition admissible :: "gateway_state \<Rightarrow> gateway_request \<Rightarrow> nat \<Rightarrow> gateway_route \<Rightarrow> bool" where
  "admissible st r now x \<longleftrightarrow>
     usable r x \<and> out_of_cooldown st now x \<and> route_active st x < rt_max_active_requests x"

lemma cross_multiply:
  assumes "0 < (m :: nat)" "0 < (n :: nat)"
  shows "(of_nat a / of_nat m :: rat) < of_nat b / of_nat n \<longleftrightarrow> a * n < b * m"
    "(of_nat a / of_nat m :: rat) = of_nat b / of_nat n \<longleftrightarrow> a * n = b * m"
proof -
  have "(of_nat a / of_nat m :: rat) < of_nat b / of_nat n \<longleftrightarrow> (of_nat (a * n) :: rat) < of_nat (b * m)"
    using assms by (simp add: field_simps)
  then show "(of_nat a / of_nat m :: rat) < of_nat b / of_nat n \<longleftrightarrow> a * n < b * m" by (simp only: of_nat_less_iff)
  have "(of_nat a / of_nat m :: rat) = of_nat b / of_nat n \<longleftrightarrow> (of_nat (a * n) :: rat) = of_nat (b * m)"
    using assms by (simp add: field_simps)
  then show "(of_nat a / of_nat m :: rat) = of_nat b / of_nat n \<longleftrightarrow> a * n = b * m" by (simp only: of_nat_eq_iff)
qed

lemma route_less_rank:
  assumes "0 < rt_max_active_requests x" "0 < rt_max_active_requests y"
  shows "route_less st r now x y \<longleftrightarrow> rank st r now x < rank st r now y"
  using cross_multiply [OF assms, of "route_active st x" "route_active st y"]
  by (auto simp: route_less_def rank_def Let_def less_prod_def')

lemma sort_by_key:
  assumes "\<And>x y. x \<in> set xs \<Longrightarrow> y \<in> set xs \<Longrightarrow> lt x y \<longleftrightarrow> f x < f y"
  shows "sort_by lt xs = sort_key f xs"
proof -
  have ins: "insert_by lt x ys = insort_key f x ys" if "x \<in> set xs" "set ys \<subseteq> set xs" for x ys
    using that assms by (induction ys) auto
  have "set ys \<subseteq> set xs \<Longrightarrow> foldr (insert_by lt) ys [] = sort_key f ys" for ys
    by (induction ys) (auto simp: ins)
  then show ?thesis by (simp add: sort_by_def)
qed

lemma hd_insort: "ys \<noteq> [] \<Longrightarrow> hd (insort_key f x ys) = (if f x \<le> f (hd ys) then x else hd ys)"
  by (cases ys) auto

text \<open>The head of a stable sort is the first of the least elements.\<close>

lemma hd_sort_key:
  fixes f :: "'a \<Rightarrow> 'b :: linorder"
  shows "xs \<noteq> [] \<Longrightarrow> \<exists>pre post. xs = pre @ hd (sort_key f xs) # post \<and>
    (\<forall>y\<in>set pre. f (hd (sort_key f xs)) < f y) \<and> (\<forall>y\<in>set post. f (hd (sort_key f xs)) \<le> f y)"
proof (induction xs)
  case (Cons x xs)
  show ?case
  proof (cases "xs = []")
    case True
    then show ?thesis by (intro exI [of _ "[]"]) simp
  next
    case False
    with Cons.IH obtain pre post where ih: "xs = pre @ hd (sort_key f xs) # post"
      "\<forall>y\<in>set pre. f (hd (sort_key f xs)) < f y" "\<forall>y\<in>set post. f (hd (sort_key f xs)) \<le> f y" by blast
    let ?h = "hd (sort_key f xs)"
    have least: "f ?h \<le> f y" if "y \<in> set xs" for y
    proof -
      from that ih(1) have "y \<in> set pre \<or> y = ?h \<or> y \<in> set post" by (metis Un_iff set_ConsD set_append)
      with ih(2,3) show ?thesis by (auto intro: less_imp_le)
    qed
    have ne: "sort_key f xs \<noteq> []" using False by (metis length_0_conv length_sort)
    show ?thesis
    proof (cases "f x \<le> f ?h")
      case True
      then have "hd (sort_key f (x # xs)) = x" using hd_insort [OF ne, of f x] by simp
      with True least show ?thesis by (intro exI [of _ "[]"] exI [of _ xs]) (auto intro: order_trans)
    next
      case F: False
      then have h: "hd (sort_key f (x # xs)) = ?h" using hd_insort [OF ne, of f x] by simp
      show ?thesis unfolding h
        by (rule exI [of _ "x # pre"], rule exI [of _ post]) (use ih F in auto)
    qed
  qed
qed simp

lemma filter_split:
  "filter P xs = us @ v # vs \<Longrightarrow>
   \<exists>us' vs'. xs = us' @ v # vs' \<and> filter P us' = us \<and> filter P vs' = vs \<and> P v"
proof (induction xs arbitrary: us)
  case (Cons x xs)
  show ?case
  proof (cases "P x")
    case False
    with Cons obtain us' vs' where "xs = us' @ v # vs'" "filter P us' = us" "filter P vs' = vs" "P v" by auto
    with False show ?thesis by (intro exI [of _ "x # us'"] exI [of _ vs']) simp
  next
    case True
    show ?thesis
    proof (cases us)
      case Nil
      with Cons.prems True show ?thesis by (intro exI [of _ "[]"] exI [of _ xs]) auto
    next
      case (Cons u us1)
      with Cons.prems True have "u = x" "filter P xs = us1 @ v # vs" by auto
      from Cons.IH [OF this(2)] obtain us' vs'
        where "xs = us' @ v # vs'" "filter P us' = us1" "filter P vs' = vs" "P v" by blast
      with \<open>u = x\<close> Cons True show ?thesis by (intro exI [of _ "x # us'"] exI [of _ vs']) simp
    qed
  qed
qed simp

lemma select_route_filters:
  "select_route st r routes now =
     (if \<not> list_ex (\<lambda>x. rt_healthy x \<and> \<not> rt_memory_pressure x) routes then Inl NoRoute
      else if \<not> list_ex (usable r) routes then Inl ContextTooLarge
      else if \<not> list_ex (\<lambda>x. usable r x \<and> out_of_cooldown st now x) routes then Inl NoRoute
      else if \<not> list_ex (admissible st r now) routes then Inr Busy
      else Inr (Selected (hd (sort_by (route_less st r now) (filter (admissible st r now) routes)))))"
proof -
  have 1: "filter (\<lambda>x. token_demand r \<le> rt_max_context_tokens x)
      (filter (\<lambda>x. rt_healthy x \<and> \<not> rt_memory_pressure x) routes) = filter (usable r) routes"
    by (auto simp: usable_def intro: filter_cong)
  have 2: "filter (out_of_cooldown st now) (filter (usable r) routes) =
      filter (\<lambda>x. usable r x \<and> out_of_cooldown st now x) routes"
    by (auto intro: filter_cong)
  have 3: "filter (\<lambda>x. route_active st x < rt_max_active_requests x)
      (filter (\<lambda>x. usable r x \<and> out_of_cooldown st now x) routes) = filter (admissible st r now) routes"
    by (auto simp: admissible_def intro: filter_cong)
  show ?thesis
    unfolding select_route_def Let_def 1 2 3 by (simp add: filter_empty_conv list_ex_iff)
qed

lemma selected_in:
  assumes "select_route st r routes now = Inr (Selected x)"
  shows "x \<in> set routes \<and> admissible st r now x"
proof -
  let ?a = "filter (admissible st r now) routes"
  have x: "x = hd (sort_by (route_less st r now) ?a)" and ne: "?a \<noteq> []"
    using assms by (auto simp: select_route_filters list_ex_iff filter_empty_conv split: if_splits)
  have set_ins: "set (insert_by lt y ys) = insert y (set ys)" for lt and y :: gateway_route and ys
    by (induction ys) auto
  have "set (sort_by lt ys) = set ys" for lt and ys :: "gateway_route list"
    unfolding sort_by_def by (induction ys) (auto simp: set_ins)
  with ne have "hd (sort_by (route_less st r now) ?a) \<in> set ?a" by (metis hd_in_set set_empty)
  with x show ?thesis by simp
qed

section \<open>Limits of a key\<close>

lemma admit_route_keeps_policy:
  assumes "admit_route st r holder now routes = (Inr a, st')"
  shows "g_principal_active st' = g_principal_active st"
    "g_principal_reserved_tokens st' = g_principal_reserved_tokens st"
    "g_request_windows st' = g_request_windows st" "g_token_windows st' = g_token_windows st"
  using assms
  by (auto simp: admit_route_def reserve_route_def enqueue_def Let_def
      split: sum.splits route_selection.splits if_splits prod.splits)

lemma admit_principal_limits:
  assumes "admit_principal st p r now = (Inr u, st')"
  shows "\<not> exceeds (rq_context_tokens r) (context_tokens (pr_limits p))"
    "\<exists>old. get_or [] (g_request_windows st') (pr_key_id p) = old @ [now] \<and>
       \<not> reaches (length old) (requests_per_minute (pr_limits p))"
    "\<not> exceeds (get_or 0 (g_principal_active st') (pr_key_id p)) (concurrency (pr_limits p))"
    "\<not> exceeds (used_tokens (get_or [] (g_token_windows st') (pr_key_id p)) +
        get_or 0 (g_principal_reserved_tokens st') (pr_key_id p)) (tokens_per_minute (pr_limits p))"
proof -
  have run: "admit_principal st p r now = (Inr u, st')" by (rule assms)
  show "\<not> exceeds (rq_context_tokens r) (context_tokens (pr_limits p))"
    using run by (auto simp: admit_principal_def Let_def split: if_splits)
  show "\<exists>old. get_or [] (g_request_windows st') (pr_key_id p) = old @ [now] \<and>
       \<not> reaches (length old) (requests_per_minute (pr_limits p))"
    using run by (auto simp: admit_principal_def Let_def split: if_splits option.splits)
  show "\<not> exceeds (get_or 0 (g_principal_active st') (pr_key_id p)) (concurrency (pr_limits p))"
    using run by (auto simp: admit_principal_def Let_def exceeds_def reaches_def split: if_splits option.splits)
  show "\<not> exceeds (used_tokens (get_or [] (g_token_windows st') (pr_key_id p)) +
        get_or 0 (g_principal_reserved_tokens st') (pr_key_id p)) (tokens_per_minute (pr_limits p))"
    using run by (auto simp: admit_principal_def Let_def exceeds_def checked_add64_def
        split: if_splits option.splits)
qed

lemma admit_section_limits:
  assumes "admit_section st r (Some p) now routes recent = (Inr a, st')"
  shows "\<not> exceeds (rq_context_tokens r) (context_tokens (pr_limits p))"
    "\<exists>old. get_or [] (g_request_windows st') (pr_key_id p) = old @ [now] \<and>
       \<not> reaches (length old) (requests_per_minute (pr_limits p))"
    "\<not> exceeds (get_or 0 (g_principal_active st') (pr_key_id p)) (concurrency (pr_limits p))"
    "\<not> exceeds (used_tokens (get_or [] (g_token_windows st') (pr_key_id p)) +
        get_or 0 (g_principal_reserved_tokens st') (pr_key_id p)) (tokens_per_minute (pr_limits p))"
proof -
  from assms obtain st1 st2 u where adm: "admit_principal st1 p r now = (Inr u, st2)"
    and route: "admit_route st2 r (Some p) now routes = (Inr a, st')"
    by (auto simp: admit_section_def split: sum.splits prod.splits)
  note lim = admit_principal_limits [OF adm] and keeps = admit_route_keeps_policy [OF route]
  show "\<not> exceeds (rq_context_tokens r) (context_tokens (pr_limits p))" by (rule lim(1))
  show "\<exists>old. get_or [] (g_request_windows st') (pr_key_id p) = old @ [now] \<and>
       \<not> reaches (length old) (requests_per_minute (pr_limits p))" using lim(2) by (simp only: keeps)
  show "\<not> exceeds (get_or 0 (g_principal_active st') (pr_key_id p)) (concurrency (pr_limits p))"
    using lim(3) unfolding keeps .
  show "\<not> exceeds (used_tokens (get_or [] (g_token_windows st') (pr_key_id p)) +
        get_or 0 (g_principal_reserved_tokens st') (pr_key_id p)) (tokens_per_minute (pr_limits p))"
    using lim(4) unfolding keeps .
qed

text \<open>The reservations that callers hold after an admission.\<close>

fun held_after :: "admission \<Rightarrow> reservation list \<Rightarrow> reservation list" where
  "held_after (Admitted x) R = x # R"
| "held_after (Queued t) R = R"

lemma admit_section_accounts:
  assumes "gateway_reachable (st, R, Suc n)" "0 < token_demand r"
    "admit_section st r holder now routes recent = (Inr a, st')"
  shows "accounts st' (held_after a R)"
  using admit_section_sound [OF reachable_sound [OF assms(1)] assms(2,3)]
  by (cases a) (auto simp: sound_def)

text \<open>An admitted request was counted for a group that had room.\<close>

lemma admit_section_room:
  assumes "admit_section st r holder now routes recent = (Inr (Admitted x), st')"
  shows "get_or 0 (g_route_active st') (reservation_group x) \<le> rt_max_active_requests (rs_route x)"
proof -
  from assms obtain st1 where "admit_route st1 r holder now routes = (Inr (Admitted x), st')"
    by (auto simp: admit_section_def split: sum.splits option.splits prod.splits)
  then show ?thesis
    by (auto simp: admit_route_def reserve_route_def enqueue_def Let_def reservation_group_def admissible_def
        route_active_def dest!: selected_in split: sum.splits route_selection.splits if_splits prod.splits)
qed

section \<open>The queue\<close>

lemma must_wait_head:
  assumes "\<not> must_wait st ticket model" "g_queue_order st = pre @ ticket # post"
    "distinct (g_queue_order st)" "rid \<in> set pre"
  shows "\<not> same_model_queued st model rid"
proof
  assume same: "same_model_queued st model rid"
  have ne: "rid \<noteq> ticket" using assms(2-4) by auto
  then have "list_ex (\<lambda>x. x \<noteq> ticket \<and> same_model_queued st model x) (g_queue_order st)"
    using assms(2,4) same by (auto simp: list_ex_iff)
  with assms(1) have "find (same_model_queued st model) (pre @ ticket # post) = Some ticket"
    unfolding must_wait_def assms(2) by blast
  moreover have "find (same_model_queued st model) (pre @ ticket # post) \<in> Some ` set pre"
    using same assms(4) by (induction pre) auto
  ultimately show False using assms(2,3) by auto
qed

lemma poll_section_admits:
  assumes "poll_section st ticket r now routes = (Inr (StatusAdmitted x), st')"
  obtains q st1 route where "map_of (g_queued st) ticket = Some q"
    "\<not> must_wait st ticket (rq_model r)" "select_route st r routes now = Inr (Selected route)"
    "remove_queued_request st ticket = (Inr q, st1)" "reserve_route st1 q route now = (Inr x, st')"
  using assms
  by (auto simp: poll_section_def expire_queued_def remove_queued_request_def Let_def
      split: option.splits if_splits sum.splits route_selection.splits prod.splits)

lemma reserve_route_result:
  assumes "reserve_route st q route now = (Inr x, st')"
  shows "rs_route x = route \<and> rs_request x = qr_request q \<and> g_queue_order st' = g_queue_order st"
  using assms by (auto simp: reserve_route_def Let_def split: if_splits)

section \<open>Protection of the selected route\<close>

text \<open>
  \<open>linux_protected\<close> and \<open>macos_protected\<close> say what an accepted snapshot gives for a route and for the marks
  that the manager had recorded before: the snapshot is for the route's group, its distinct expected
  placements have one on the endpoint node, each of them has exactly one lease, all leases are current, and
  none goes behind the recorded ones. On Linux the nodes of the placements have one authority each and
  every lease is armed, not tripped and of the session of its authority; on macOS the installation,
  executable, label and launch generation are those recorded. \<open>guarded\<close> is the choice of the manager: the
  route is relayed to a child, which applies its own protection, or it is so protected at the time read
  during the call.
\<close>

definition linux_protected :: "protection_state \<Rightarrow> gateway_route \<Rightarrow> protection_snapshot \<Rightarrow> nat \<Rightarrow> bool" where
  "linux_protected marks x s now \<longleftrightarrow>
     sn_placement_group_id s = rt_placement_group_id x \<and>
     distinct (sn_expected_placements s) \<and> (\<exists>p. (p, rt_endpoint_node_id x) \<in> set (sn_expected_placements s)) \<and>
     distinct (map au_node_id (sn_authorities s)) \<and>
     au_node_id ` set (sn_authorities s) = snd ` set (sn_expected_placements s) \<and>
     distinct (map lease_key (sn_leases s)) \<and> lease_key ` set (sn_leases s) = set (sn_expected_placements s) \<and>
     (\<forall>l\<in>set (sn_leases s). lease_protects x s now l \<and>
        (\<forall>p. sessions_cover marks \<and> linux_latest marks (lease_key l) = Some p \<longrightarrow> supersedes p l))"

definition macos_protected :: "macos_state \<Rightarrow> gateway_route \<Rightarrow> macos_snapshot \<Rightarrow> nat \<Rightarrow> bool" where
  "macos_protected marks x s now \<longleftrightarrow>
     ms_placement_group_id s = rt_placement_group_id x \<and>
     distinct (ms_expected_placements s) \<and> (\<exists>p. (p, rt_endpoint_node_id x) \<in> set (ms_expected_placements s)) \<and>
     distinct (map macos_lease_key (ms_leases s)) \<and>
     macos_lease_key ` set (ms_leases s) = set (ms_expected_placements s) \<and>
     (\<forall>l\<in>set (ms_leases s). ml_observed_at l \<le> now \<and> now < ml_expires_at l \<and>
        (\<forall>p. macos_latest marks (macos_lease_key l) = Some p \<longrightarrow> macos_follows p l))"

definition guarded :: "providers \<Rightarrow> gateway_manager \<Rightarrow> gateway_route \<Rightarrow> bool" where
  "guarded pv gm x \<longleftrightarrow>
     relayed (gm_mode gm) x \<or>
     (\<exists>now. pv_route_now pv x = Inr now \<and>
        (case pv_safety pv of
           Linux f \<Rightarrow> \<exists>s. f x = Inr (Some s) \<and> linux_protected (gm_protection gm) x s now
         | Macos f \<Rightarrow> \<exists>s. f x = Inr (Some s) \<and> macos_protected (gm_macos gm) x s now))"

lemma accepts_protects:
  assumes "accepts st x s now = (True, st')"
  shows "linux_protected st x s now"
proof -
  from assms obtain ls where v: "valid_snapshot x s now = Some ls" by (rule accepts_True)
  note spec = valid_snapshot_spec [OF v]
  have "lease_protects x s now l" if "l \<in> set (sn_leases s)" for l
  proof -
    from that spec(5,9) obtain au where au: "authority_of (sn_authorities s) (pl_node_id l) = Some au"
      "lease_matches s au now l" by auto
    with authority_of_in [OF au(1)] spec(1) show ?thesis by (auto simp: lease_matches_def lease_protects_def)
  qed
  moreover have "supersedes p l"
    if "l \<in> set (sn_leases s)" "sessions_cover st" "linux_latest st (lease_key l) = Some p" for l p
    using accepted_supersedes [OF that(2) assms that(1)] that(3) by (simp add: linux_latest_def lease_key_def)
  moreover have "distinct (sn_expected_placements s)"
    using v by (auto simp: valid_snapshot_def Let_def card_distinct split: if_splits)
  ultimately show ?thesis using spec by (auto simp: linux_protected_def)
qed

lemma macos_accepts_protects:
  assumes "macos_accepts st x s now = (True, st')"
  shows "macos_protected st x s now"
proof -
  note spec = macos_accepts_True [OF assms]
  have "macos_follows p l" if "l \<in> set (ms_leases s)" "macos_latest st (macos_lease_key l) = Some p" for l p
    using macos.newer [of st "(x, s, now)" st' l p] assms that by (simp add: macos_accept_def macos_leases_def)
  moreover have "ms_placement_group_id s = rt_placement_group_id x \<and> distinct (ms_expected_placements s) \<and>
      (\<exists>p. (p, rt_endpoint_node_id x) \<in> set (ms_expected_placements s))"
    using assms by (auto simp: macos_accepts_def Let_def list_ex_iff card_distinct split: if_splits)
  ultimately show ?thesis using spec(1-3) by (auto simp: macos_protected_def)
qed

text \<open>Marks that have moved on protect no less: what follows the later lease follows the earlier one.\<close>

lemma linux_protected_earlier:
  assumes acc: "accepts st y s' now' = (ok, st1)" and prot: "linux_protected st1 x s now"
  shows "linux_protected st x s now"
proof -
  have run: "linux_accept st (y, s', now') = (ok, st1)" using acc by (simp add: linux_accept_def)
  have "supersedes p l"
    if l: "l \<in> set (sn_leases s)" and inv: "sessions_cover st" and p: "linux_latest st (lease_key l) = Some p" for l p
    using linux.earlier_mark [OF inv run p] linux.inv_step [OF inv run] prot l by (simp add: linux_protected_def)
  with prot show ?thesis by (simp add: linux_protected_def)
qed

lemma macos_protected_earlier:
  assumes acc: "macos_accepts st y s' now' = (ok, st1)" and prot: "macos_protected st1 x s now"
  shows "macos_protected st x s now"
proof -
  have run: "macos_accept st (y, s', now') = (ok, st1)" using acc by (simp add: macos_accept_def)
  have "macos_follows p l" if "l \<in> set (ms_leases s)" and p: "macos_latest st (macos_lease_key l) = Some p" for l p
    using macos.earlier_mark [OF TrueI run p] prot that(1) by (simp add: macos_protected_def)
  with prot show ?thesis by (simp add: macos_protected_def)
qed

lemma judge_guards: "judge pv gm x = (Inr True, gm') \<Longrightarrow> guarded pv gm x"
  by (auto simp: judge_def guarded_def Let_def dest: accepts_protects macos_accepts_protects
      split: safety_provider.splits sum.splits option.splits prod.splits)

lemma judge_mode: "judge pv gm y = (res, gm') \<Longrightarrow> gm_mode gm' = gm_mode gm \<and> gm_state gm' = gm_state gm"
  by (auto simp: judge_def Let_def split: safety_provider.splits sum.splits option.splits prod.splits)

lemma guarded_earlier:
  assumes "judge pv gm y = (res, gm1)" and "guarded pv gm1 x"
  shows "guarded pv gm x"
proof (cases "relayed (gm_mode gm) x \<or> gm1 = gm")
  case True
  with assms(2) show ?thesis by (auto simp: guarded_def)
next
  case False
  then show ?thesis
    using assms judge_mode [OF assms(1)]
    by (auto simp: judge_def guarded_def Let_def dest: linux_protected_earlier macos_protected_earlier
        split: safety_provider.splits sum.splits option.splits prod.splits)
qed

lemma check_routes_guards:
  assumes "check_routes pv model seen gm routes = (Inr kept, gm')"
  shows "gm_mode gm' = gm_mode gm \<and> gm_state gm' = gm_state gm \<and>
    (\<forall>x\<in>set kept. x \<in> set routes \<and> rt_model x = model \<and> child_route_ok (gm_mode gm) x \<and> guarded pv gm x)"
  using assms
proof (induction routes arbitrary: seen gm kept gm')
  case (Cons x rest)
  have ok: "rt_model x = model" "child_route_ok (gm_mode gm) x"
    using Cons.prems by (auto split: if_splits)
  obtain keep gm1 rest_kept where k: "gm_mode gm1 = gm_mode gm" "gm_state gm1 = gm_state gm"
    "keep \<longrightarrow> guarded pv gm x" "\<forall>y. guarded pv gm1 y \<longrightarrow> guarded pv gm y"
    "check_routes pv model (rt_placement_group_id x # seen) gm1 rest = (Inr rest_kept, gm')"
    "kept = (if keep then x # rest_kept else rest_kept)"
  proof (cases "relayed (gm_mode gm) x")
    case True
    with Cons.prems ok obtain rk
      where "check_routes pv model (rt_placement_group_id x # seen) gm rest = (Inr rk, gm')" "kept = x # rk"
      by (auto split: if_splits sum.splits prod.splits)
    with True show ?thesis by (intro that [of gm True rk]) (auto simp: guarded_def)
  next
    case False
    with Cons.prems ok obtain b gm2 where j: "judge pv gm x = (Inr b, gm2)"
      by (auto split: if_splits sum.splits prod.splits)
    have "b \<Longrightarrow> guarded pv gm x" using judge_guards j by auto
    moreover from False Cons.prems ok j obtain rk
      where "check_routes pv model (rt_placement_group_id x # seen) gm2 rest = (Inr rk, gm')"
        "kept = (if b then x # rk else rk)"
      by (auto split: if_splits sum.splits prod.splits)
    ultimately show ?thesis using judge_mode [OF j] guarded_earlier [OF j] by (intro that [of gm2 b rk]) auto
  qed
  from Cons.IH [OF k(5)] k ok show ?case by auto
qed simp

lemma current_routes_guards:
  assumes "current_routes pv gm model = (Inr routes, gm')"
  shows "gm_state gm' = gm_state gm"
    "x \<in> set routes \<Longrightarrow> rt_model x = model \<and> child_route_ok (gm_mode gm) x \<and> guarded pv gm x"
  using assms by (auto simp: current_routes_def dest: check_routes_guards split: sum.splits)

lemma admit_route_admits:
  assumes "admit_route st r holder now routes = (Inr (Admitted x), st')"
  shows "select_route st r routes now = Inr (Selected (rs_route x)) \<and> rs_request x = r"
  using assms
  by (auto simp: admit_route_def Let_def dest: reserve_route_result
      split: sum.splits route_selection.splits if_splits prod.splits)

lemma admit_section_admits:
  assumes "admit_section st r holder now routes recent = (Inr (Admitted x), st')"
  shows "rs_route x \<in> set routes \<and> rs_request x = r \<and> usable r (rs_route x)"
proof -
  from assms obtain st1 where "admit_route st1 r holder now routes = (Inr (Admitted x), st')"
    by (auto simp: admit_section_def split: sum.splits option.splits prod.splits)
  from admit_route_admits [OF this] selected_in show ?thesis by (auto simp: admissible_def)
qed

lemma retry_section_admits:
  assumes "retry_section st y now_result (Inr routes) = (Inr (Admitted x), st')"
  shows "rs_route x \<in> set routes \<and> rs_request x = rs_request y \<and> usable (rs_request y) (rs_route x)"
  using assms
  by (auto simp: retry_section_def Let_def admissible_def dest!: reserve_route_result selected_in
      split: sum.splits route_selection.splits if_splits prod.splits)

lemma poll_section_admits_usable:
  assumes "poll_section st ticket r now routes = (Inr (StatusAdmitted x), st')"
  shows "rs_route x \<in> set routes \<and> usable r (rs_route x)"
  using assms
  by (elim poll_section_admits) (auto dest!: reserve_route_result selected_in simp: admissible_def)

text \<open>The section inside each operation that hands out a reservation.\<close>

lemma admit_parts:
  assumes "admit pv gm r holder = (Inr a, gm')"
  obtains now routes gm1 recent st where "current_routes pv gm (rq_model r) = (Inr routes, gm1)"
    "admit_section (gm_state gm1) r holder now routes recent = (Inr a, st)"
proof -
  from assms obtain now where n: "pv_now pv = Inr now" by (cases "pv_now pv") (auto simp: admit_def)
  obtain res gm1 where c: "current_routes pv gm (rq_model r) = (res, gm1)" by force
  with assms n obtain routes where r: "res = Inr routes" by (cases res) (auto simp: admit_def)
  from assms n c r obtain recent st
    where "admit_section (gm_state gm1) r holder now routes recent = (Inr a, st)"
    by (auto simp: admit_def Let_def split: sum.splits prod.splits)
  with c r show thesis by (intro that) auto
qed

lemma poll_parts:
  assumes "poll_queue pv gm t = (Inr a, gm')"
    "map_option qr_request (map_of (g_queued (gm_state gm)) t) = Some r"
  obtains now routes gm1 st where "current_routes pv gm (rq_model r) = (Inr routes, gm1)"
    "poll_section (gm_state gm1) t r now routes = (Inr a, st)"
proof -
  from assms(1) obtain now where n: "pv_now pv = Inr now" by (cases "pv_now pv") (auto simp: poll_queue_def)
  from assms(2) obtain q where q: "map_of (g_queued (gm_state gm)) t = Some q" "qr_request q = r" by auto
  obtain res gm1 where c: "current_routes pv gm (rq_model r) = (res, gm1)" by force
  with assms(1) n q obtain routes where r: "res = Inr routes" by (cases res) (auto simp: poll_queue_def)
  obtain out st where p: "poll_section (gm_state gm1) t r now routes = (out, st)" by force
  with assms(1) n q c r have "out = Inr a" by (simp add: poll_queue_def)
  with c r p show thesis by (intro that) auto
qed

lemma retry_parts:
  assumes "retry_before_output pv gm y = (Inr a, gm')"
  obtains routes gm1 st where "current_routes pv gm (rq_model (rs_request y)) = (Inr routes, gm1)"
    "retry_section (gm_state gm1) y (pv_now pv) (Inr routes) = (Inr a, st)"
proof -
  obtain res gm1 where c: "current_routes pv gm (rq_model (rs_request y)) = (res, gm1)" by force
  obtain out st where p: "retry_section (gm_state gm1) y (pv_now pv) res = (out, st)" by force
  with assms c have out: "out = Inr a" by (simp add: retry_before_output_def)
  with p obtain routes where "res = Inr routes"
    by (cases res) (auto simp: retry_section_def Let_def split: sum.splits prod.splits)
  with c p out show thesis by (intro that) auto
qed

lemma filter_other: "x \<notin> set xs \<Longrightarrow> filter (\<lambda>y. y \<noteq> x) xs = xs"
  by (induction xs) auto

section \<open>A clock failure while a ticket is dropped\<close>

text \<open>
  \<open>cancel_queue\<close> and \<open>fail_queue\<close> consume the caller's ticket. When the clock fails they return before
  touching the queue, so the entry stays without an owner, and a later request of the model never passes it.
\<close>

lemma dropped_ticket_stays:
  "pv_now pv = Inl e \<Longrightarrow> fail_queue pv gm t = (Inl e, gm) \<and> cancel_queue pv gm t = (Inl e, gm)"
  by (simp add: fail_queue_def cancel_queue_def)

lemma orphan_blocks_model:
  assumes "distinct (g_queue_order st)" "g_queue_order st = pre @ orphan # mid @ t # post"
    "same_model_queued st (rq_model r) orphan"
  shows "poll_section st t r now routes \<noteq> (Inr (StatusAdmitted x), st')"
proof
  assume "poll_section st t r now routes = (Inr (StatusAdmitted x), st')"
  then obtain q st1 route where "\<not> must_wait st t (rq_model r)" by (rule poll_section_admits)
  from must_wait_head [OF this, of "pre @ orphan # mid" post orphan] assms show False by simp
qed

section \<open>Example values\<close>

definition example_other_route :: gateway_route where
  "example_other_route = example_route\<lparr>rt_placement_group_id := ''h''\<rparr>"

definition example_second :: gateway_request where
  "example_second = example_request\<lparr>rq_request_id := ''r2''\<rparr>"

lemma example_waiting:
  "\<exists>st q R. gateway_reachable (st, R, 0) \<and> g_queue_order st = [''r2''] \<and>
     map_of (g_queued st) ''r2'' = Some q \<and>
     (\<exists>x st'. poll_section st ''r2'' (qr_request q) 200 [example_route, example_other_route]
        = (Inr (StatusAdmitted x), st'))"
proof -
  note sections = admit_section_def admit_route_def require_new_request_def Let_def select_route_def
    sort_by_def route_less_def reserve_route_def out_of_cooldown_def route_active_def queue_time_def
    reserved_for_def token_demand_def enqueue_def example_manager_defs example_other_route_def
    example_second_def MAX_QUEUED_REQUESTS_def saturating_add64_def u64_max_def get_or_def release_principal_def
  have s1: "gateway_reachable (example_received, [], Suc 0)"
    unfolding example_received_def by (rule gateway_reachable.Step [OF gateway_reachable.Start gateway_step.Receive])
  obtain x st1 where a1: "admit_section example_received example_request None 100 [example_route] []
      = (Inr (Admitted x), st1)" "g_route_active st1 = [(''g'', 1)]" "g_active_requests st1 = [(''r1'', ''g'')]"
      "g_queued st1 = []" "g_queue_order st1 = []" "g_unavailable_until st1 = []" "g_prefix_affinity st1 = []"
    by (simp add: sections)
  have s2: "gateway_reachable (st1, [x], 0)"
    by (rule gateway_reachable.Step [OF s1 gateway_step.Admit [OF a1(1)]]) (simp add: sections)
  let ?st2 = "st1\<lparr>g_telemetry := record_received (g_telemetry st1)\<rparr>"
  have s3: "gateway_reachable (?st2, [x], Suc 0)" by (rule gateway_reachable.Step [OF s2 gateway_step.Receive])
  obtain st3 q where a3: "admit_section ?st2 example_second None 150 [example_route] [] = (Inr (Queued ''r2''), st3)"
      "g_route_active st3 = [(''g'', 1)]" "g_active_requests st3 = [(''r1'', ''g'')]"
      "g_queued st3 = [(''r2'', q)]" "g_queue_order st3 = [''r2'']" "g_unavailable_until st3 = []"
      "qr_request q = example_second" "qr_enqueued_at q = 150" "qr_queued_milliseconds q = 0"
    using a1(2-) by (simp add: sections)
  have s4: "gateway_reachable (st3, [x], 0)"
    by (rule gateway_reachable.Step [OF s3 gateway_step.AdmitQueued [OF a3(1)]]) (simp add: sections)
  have "\<exists>x st'. poll_section st3 ''r2'' (qr_request q) 200 [example_route, example_other_route]
      = (Inr (StatusAdmitted x), st')"
    using a3(2-) by (simp add: poll_section_def must_wait_def same_model_queued_def remove_queued_request_def sections)
  with s4 a3 show ?thesis by (intro exI [of _ st3] exI [of _ q] exI [of _ "[x]"]) simp
qed

definition example_local_route :: gateway_route where
  "example_local_route = example_route\<lparr>rt_target :=
     LocalEngine \<lparr>ep_scheme = Https, ep_host = ''127.0.0.1'', ep_port = 18000\<rparr>\<rparr>"

definition example_providers :: providers where
  "example_providers =
     \<lparr>pv_authenticate = (\<lambda>_ _. Inr example_principal), pv_authorize = (\<lambda>_. Inr ''n''),
      pv_routes = (\<lambda>_. Inr [example_local_route]), pv_safety = Linux (\<lambda>_. Inr (Some (example_snapshot 5 100))),
      pv_now = Inr 200, pv_route_now = (\<lambda>_. Inr 200), pv_recent = (\<lambda>_ _. Inr []), pv_record = (\<lambda>_. Inr ())\<rparr>"

definition example_manager :: gateway_manager where
  "example_manager =
     \<lparr>gm_mode = Main ''n'', gm_state = gateway_state_default,
      gm_protection = protection_state_default, gm_macos = Map.empty\<rparr>"

lemma example_snapshot_accepted:
  "\<exists>st. accepts protection_state_default example_local_route (example_snapshot 5 100) 200 = (True, st)"
  by (simp add: accepts_def valid_snapshot_def example_defs example_local_route_def
      protection_state_default_def authority_of_def lease_matches_def lease_key_def
      session_regressed_def lease_regressed_def Let_def)

lemma example_protected_admission:
  "\<exists>x gm'. admit example_providers example_manager example_request None = (Inr (Admitted x), gm') \<and>
     rs_route x = example_local_route"
proof -
  obtain st where a: "accepts protection_state_default example_local_route (example_snapshot 5 100) 200 = (True, st)"
    using example_snapshot_accepted by blast
  have "current_routes example_providers example_manager ''m'' =
      (Inr [example_local_route], example_manager\<lparr>gm_protection := st\<rparr>)"
    by (simp add: current_routes_def judge_def example_providers_def example_manager_def child_route_ok_def
        relayed_def a) (simp add: example_local_route_def example_route_def)
  then show ?thesis
    by (simp add: admit_def example_providers_def example_manager_def admit_section_def admit_route_def
        require_new_request_def Let_def select_route_def sort_by_def reserve_route_def out_of_cooldown_def
        route_active_def token_demand_def example_manager_defs example_local_route_def)
qed

section \<open>Properties\<close>

text \<open>
  C26: Route selection is the choice of the first route of least rank among the admissible ones, where
  the rank orders by local prefix, exact share of used capacity, temperature and node identity. Without
  one the answer says why: no healthy route, no route with enough context, all in cooldown, or all full.
\<close>

theorem select_route_best:
  assumes "\<forall>x\<in>set routes. 0 < rt_max_active_requests x"
  shows "case select_route st r routes now of
      Inl e \<Rightarrow> e = (if list_ex (\<lambda>x. rt_healthy x \<and> \<not> rt_memory_pressure x) routes \<and> \<not> list_ex (usable r) routes
                    then ContextTooLarge else NoRoute) \<and>
               \<not> list_ex (\<lambda>x. usable r x \<and> out_of_cooldown st now x) routes
    | Inr Busy \<Rightarrow> list_ex (\<lambda>x. usable r x \<and> out_of_cooldown st now x) routes \<and>
                  \<not> list_ex (admissible st r now) routes
    | Inr (Selected x) \<Rightarrow>
        \<exists>pre post. routes = pre @ x # post \<and> admissible st r now x \<and>
          (\<forall>y\<in>set pre. admissible st r now y \<longrightarrow> rank st r now x < rank st r now y) \<and>
          (\<forall>y\<in>set post. admissible st r now y \<longrightarrow> rank st r now x \<le> rank st r now y)"
proof (cases "list_ex (admissible st r now) routes")
  case False
  then show ?thesis
    unfolding select_route_filters by (auto simp: list_ex_iff usable_def)
next
  case True
  let ?a = "filter (admissible st r now) routes"
  have ne: "?a \<noteq> []" using True by (simp add: filter_empty_conv list_ex_iff)
  have "sort_by (route_less st r now) ?a = sort_key (rank st r now) ?a"
    using assms by (intro sort_by_key route_less_rank) auto
  then have sel: "select_route st r routes now = Inr (Selected (hd (sort_key (rank st r now) ?a)))"
    using True unfolding select_route_filters by (auto simp: list_ex_iff admissible_def usable_def)
  define x where "x = hd (sort_key (rank st r now) ?a)"
  from hd_sort_key [OF ne, of "rank st r now"] obtain pre post where first: "?a = pre @ x # post"
    "\<forall>y\<in>set pre. rank st r now x < rank st r now y" "\<forall>y\<in>set post. rank st r now x \<le> rank st r now y"
    unfolding x_def by blast
  from filter_split [OF first(1)] obtain pre' post' where "routes = pre' @ x # post'"
    "filter (admissible st r now) pre' = pre" "filter (admissible st r now) post' = post" "admissible st r now x"
    by blast
  with first(2,3) have "\<exists>pre post. routes = pre @ x # post \<and> admissible st r now x \<and>
      (\<forall>y\<in>set pre. admissible st r now y \<longrightarrow> rank st r now x < rank st r now y) \<and>
      (\<forall>y\<in>set post. admissible st r now y \<longrightarrow> rank st r now x \<le> rank st r now y)"
    by (intro exI [of _ pre'] exI [of _ post']) auto
  then show ?thesis by (simp add: sel x_def [symmetric])
qed

theorem select_route_best_witness:
  "select_route gateway_state_default example_request [example_route\<lparr>rt_healthy := False\<rparr>, example_route] 0
     = Inr (Selected example_route) \<and> admissible gateway_state_default example_request 0 example_route"
proof -
  let ?routes = "[example_route\<lparr>rt_healthy := False\<rparr>, example_route]"
  have sel: "select_route gateway_state_default example_request ?routes 0 = Inr (Selected example_route)"
    by (simp add: select_route_def Let_def sort_by_def example_manager_defs token_demand_def
        out_of_cooldown_def route_active_def)
  have "\<forall>x\<in>set ?routes. 0 < rt_max_active_requests x" by (simp add: example_route_def)
  from select_route_best [OF this, where st = gateway_state_default and r = example_request and now = 0] sel show ?thesis by auto
qed

text \<open>
  C25: After every admission of a key in a reachable state, what the key has outstanding is within its
  limits: its held and waiting requests within the concurrency limit, its charged window plus everything
  it has reserved within the token limit, its request window within the request limit, and the request's
  context within the context limit. When the request is admitted at once, the reservations held for its
  placement group, the new one included, are within the capacity of the selected route.
\<close>

theorem admission_within_limits:
  assumes "gateway_reachable (st, R, Suc n)" "0 < token_demand r"
    "admit_section st r (Some p) now routes recent = (Inr a, st')"
  shows "\<not> exceeds (outstanding (key_weight (pr_key_id p)) st' (held_after a R)) (concurrency (pr_limits p)) \<and>
    \<not> exceeds (used_tokens (get_or [] (g_token_windows st') (pr_key_id p)) +
        outstanding (key_tokens (pr_key_id p)) st' (held_after a R)) (tokens_per_minute (pr_limits p)) \<and>
    \<not> exceeds (length (get_or [] (g_request_windows st') (pr_key_id p))) (requests_per_minute (pr_limits p)) \<and>
    \<not> exceeds (rq_context_tokens r) (context_tokens (pr_limits p)) \<and>
    (case a of Queued t \<Rightarrow> True
     | Admitted x \<Rightarrow> length (filter (\<lambda>y. reservation_group y = reservation_group x) (x # R))
         \<le> rt_max_active_requests (rs_route x))"
proof -
  note lim = admit_section_limits [OF assms(3)]
  have acc: "keys_exact st' (held_after a R)" "routes_exact st' (held_after a R)"
    using admit_section_accounts [OF assms] by (simp_all add: accounts_def)
  have "case a of Queued t \<Rightarrow> True
     | Admitted x \<Rightarrow> length (filter (\<lambda>y. reservation_group y = reservation_group x) (x # R))
         \<le> rt_max_active_requests (rs_route x)"
  proof (cases a)
    case (Admitted x)
    with acc(2) have "length (filter (\<lambda>y. reservation_group y = reservation_group x) (x # R))
        = get_or 0 (g_route_active st') (reservation_group x)" unfolding routes_exact_def by simp
    with Admitted admit_section_room [of st r "Some p" now routes recent x st'] assms(3) show ?thesis by simp
  qed simp
  with lim acc(1) show ?thesis by (auto simp: keys_exact_def exceeds_def reaches_def split: option.splits)
qed

theorem admission_within_limits_witness:
  "\<exists>st. admit_section example_received example_request (Some example_principal) 100000 [example_route] []
       = (Inr (Admitted example_reservation), st) \<and>
     outstanding (key_weight ''k'') st [example_reservation] \<le> 1 \<and>
     used_tokens (get_or [] (g_token_windows st) ''k'') + outstanding (key_tokens ''k'') st [example_reservation] \<le> 100 \<and>
     length (filter (\<lambda>y. reservation_group y = reservation_group example_reservation) [example_reservation])
       \<le> rt_max_active_requests (rs_route example_reservation)"
proof -
  obtain st where adm: "admit_section example_received example_request (Some example_principal) 100000
      [example_route] [] = (Inr (Admitted example_reservation), st)"
    using example_admitted by blast
  have "gateway_reachable (example_received, [], Suc 0)"
    unfolding example_received_def by (rule gateway_reachable.Step [OF gateway_reachable.Start gateway_step.Receive])
  from admission_within_limits [OF this _ adm] adm show ?thesis
    by (simp add: token_demand_def example_request_def example_principal_def exceeds_def)
qed

text \<open>
  C24: Waiting requests of one model are admitted in the order of the queue. A poll of a reachable state
  that admits a ticket finds no waiting request of the same model before it, and takes exactly that
  request out of the queue.
\<close>

theorem queue_is_fifo:
  assumes "gateway_reachable (st, R, n)" "map_of (g_queued st) ticket = Some q"
    "poll_section st ticket (qr_request q) now routes = (Inr (StatusAdmitted x), st')"
  shows "\<exists>pre post. g_queue_order st = pre @ ticket # post \<and> g_queue_order st' = pre @ post \<and>
    rs_request x = qr_request q \<and>
    (\<forall>rid\<in>set pre. \<not> same_model_queued st (rq_model (qr_request q)) rid)"
proof -
  have acc: "queue_exact st R" using reachable_sound [OF assms(1)] by (simp add: sound_def accounts_def)
  have "ticket \<in> fst ` set (g_queued st)" using map_of_SomeD [OF assms(2)] by (metis fst_conv image_eqI)
  then have "ticket \<in> set (g_queue_order st)" using acc by (simp add: queue_exact_def)
  then obtain pre post where order: "g_queue_order st = pre @ ticket # post" by (metis split_list)
  have dist: "distinct (g_queue_order st)" using acc by (simp add: queue_exact_def)
  from assms(3) obtain q' st1 route where p: "map_of (g_queued st) ticket = Some q'"
    "\<not> must_wait st ticket (rq_model (qr_request q))" "remove_queued_request st ticket = (Inr q', st1)"
    "reserve_route st1 q' route now = (Inr x, st')" by (rule poll_section_admits)
  have "g_queue_order st1 = filter (\<lambda>y. y \<noteq> ticket) (pre @ ticket # post)"
    using p(1,3) order by (auto simp: remove_queued_request_def)
  also have "\<dots> = pre @ post" using dist order by (simp add: filter_other)
  finally show ?thesis
    using reserve_route_result [OF p(4)] p(1) assms(2) must_wait_head [OF p(2) order dist] order by auto
qed

theorem queue_is_fifo_witness:
  "\<exists>st q x st'. g_queue_order st = [''r2''] \<and> map_of (g_queued st) ''r2'' = Some q \<and>
     poll_section st ''r2'' (qr_request q) 200 [example_route, example_other_route] = (Inr (StatusAdmitted x), st') \<and>
     g_queue_order st' = []"
proof -
  obtain st q R where w: "gateway_reachable (st, R, 0)" "g_queue_order st = [''r2'']"
    "map_of (g_queued st) ''r2'' = Some q"
    "\<exists>x st'. poll_section st ''r2'' (qr_request q) 200 [example_route, example_other_route]
       = (Inr (StatusAdmitted x), st')"
    using example_waiting by blast
  then obtain x st' where p: "poll_section st ''r2'' (qr_request q) 200 [example_route, example_other_route]
    = (Inr (StatusAdmitted x), st')" by blast
  from queue_is_fifo [OF w(1,3) p] w(2) have "g_queue_order st' = []" by (auto simp: Cons_eq_append_conv)
  with w p show ?thesis by blast
qed

text \<open>
  C5: No admission without protection. Whenever an admission, a poll or a retry hands out a reservation,
  its route serves the request's model, is healthy with enough context, is the child's own endpoint when the
  manager is a child, and is either relayed to a child or covered during that call by a snapshot of this
  host's placement safety. That snapshot is for the route's group and has the endpoint node among its
  expected placements; each of these has exactly one lease, which is current, is not behind the lease that
  the manager had recorded for the placement before the call and, on Linux, is armed, not tripped and of
  the session of the one authority of its node, while on macOS it has the recorded installation,
  executable, launchd label and launch generation.
\<close>

theorem no_admission_without_protection:
  assumes "admit pv gm r holder = (Inr (Admitted x), gm') \<or>
      poll_queue pv gm t = (Inr (StatusAdmitted x), gm') \<and>
        map_option qr_request (map_of (g_queued (gm_state gm)) t) = Some r \<or>
      retry_before_output pv gm y = (Inr (Admitted x), gm') \<and> rs_request y = r"
  shows "rt_model (rs_route x) = rq_model r \<and> usable r (rs_route x) \<and>
    child_route_ok (gm_mode gm) (rs_route x) \<and> guarded pv gm (rs_route x)"
  using assms
proof (elim disjE conjE)
  assume "admit pv gm r holder = (Inr (Admitted x), gm')"
  then obtain now routes gm1 recent st where c: "current_routes pv gm (rq_model r) = (Inr routes, gm1)"
    and run: "admit_section (gm_state gm1) r holder now routes recent = (Inr (Admitted x), st)"
    by (rule admit_parts)
  from admit_section_admits [OF run] current_routes_guards(2) [OF c, of "rs_route x"] show ?thesis by simp
next
  assume "poll_queue pv gm t = (Inr (StatusAdmitted x), gm')"
    "map_option qr_request (map_of (g_queued (gm_state gm)) t) = Some r"
  then obtain now routes gm1 st where c: "current_routes pv gm (rq_model r) = (Inr routes, gm1)"
    and run: "poll_section (gm_state gm1) t r now routes = (Inr (StatusAdmitted x), st)"
    by (rule poll_parts)
  from poll_section_admits_usable [OF run] current_routes_guards(2) [OF c, of "rs_route x"] show ?thesis by simp
next
  assume retry: "retry_before_output pv gm y = (Inr (Admitted x), gm')" and y: "rs_request y = r"
  from retry obtain routes gm1 st where c: "current_routes pv gm (rq_model (rs_request y)) = (Inr routes, gm1)"
    and run: "retry_section (gm_state gm1) y (pv_now pv) (Inr routes) = (Inr (Admitted x), st)"
    by (rule retry_parts)
  from retry_section_admits [OF run] current_routes_guards(2) [OF c, of "rs_route x"] y show ?thesis by simp
qed

theorem no_admission_without_protection_witness:
  "\<exists>x gm'. admit example_providers example_manager example_request None = (Inr (Admitted x), gm') \<and>
     rs_route x = example_local_route \<and> guarded example_providers example_manager (rs_route x) \<and>
     \<not> relayed (gm_mode example_manager) (rs_route x)"
proof -
  obtain x gm' where a: "admit example_providers example_manager example_request None = (Inr (Admitted x), gm')"
    "rs_route x = example_local_route" using example_protected_admission by blast
  have "\<not> relayed (gm_mode example_manager) example_local_route"
    by (simp add: relayed_def example_manager_def example_local_route_def)
  with no_admission_without_protection [OF disjI1 [OF a(1)]] a show ?thesis by auto
qed

end
