(* ===== verification/GatewayExecution.thy ===== *)
theory GatewayExecution
  imports GatewayAdmission
begin

text \<open>
  Forwarding of one request (\<open>core/gateway/src/li_gateway_execution.rs\<close>): the bounded queue wait, the
  attempts with their retries, the response boundary that counts committed output, and the exact
  completion. \<open>execution_env\<close> holds what the injected mechanisms answer at each call of the manager, and
  what other requests do to the manager before it. Shown here: forwarding returns, and leaves no
  reservation and no queue entry behind; and the client sees the output of one attempt only.
\<close>

section \<open>Requests, failures and heads\<close>

definition MAX_REQUEST_BODY_BYTES :: nat where "MAX_REQUEST_BODY_BYTES = 32 * 1024 * 1024"
definition MAX_RESPONSE_BODY_BYTES :: nat where "MAX_RESPONSE_BODY_BYTES = 64 * 1024 * 1024"
definition MAX_RESPONSE_HEADERS :: nat where "MAX_RESPONSE_HEADERS = 64"
definition MAX_RESPONSE_HEADER_BYTES :: nat where "MAX_RESPONSE_HEADER_BYTES = 64 * 1024"
definition MAX_RESPONSE_HEADER_NAME_BYTES :: nat where "MAX_RESPONSE_HEADER_NAME_BYTES = 128"
definition MAX_RESPONSE_HEADER_VALUE_BYTES :: nat where "MAX_RESPONSE_HEADER_VALUE_BYTES = 8 * 1024"
definition MAX_QUEUE_WAIT_CYCLES :: nat where "MAX_QUEUE_WAIT_CYCLES = 4096"
definition MAX_EXECUTION_ATTEMPTS :: nat where "MAX_EXECUTION_ATTEMPTS = 64"

record chat_request =
  ch_request :: gateway_request
  ch_body :: "byte list"

definition chat_request_new :: "gateway_request \<Rightarrow> byte list \<Rightarrow> gateway_error + chat_request" where
  "chat_request_new r body =
     (if body = [] \<or> length body > MAX_REQUEST_BODY_BYTES
      then Inl (InvalidContract ''chat-completions request body is empty or exceeds 32 MiB'')
      else Inr \<lparr>ch_request = r, ch_body = body\<rparr>)"

datatype failure_kind = RetryableBackend | TerminalBackend | Client

record execution_failure =
  ef_kind :: failure_kind
  ef_reason :: string

definition terminal_backend :: "string \<Rightarrow> execution_failure" where
  "terminal_backend reason = \<lparr>ef_kind = TerminalBackend, ef_reason = reason\<rparr>"

text \<open>Header names and values as their bytes.\<close>

record response_header =
  hd_name :: "byte list"
  hd_value :: "byte list"

definition is_ascii_uppercase :: "byte \<Rightarrow> bool" where
  "is_ascii_uppercase b \<longleftrightarrow> 65 \<le> b \<and> b \<le> 90"

definition to_ascii_lowercase :: "byte list \<Rightarrow> byte list" where
  "to_ascii_lowercase = map (\<lambda>b. if is_ascii_uppercase b then b + 32 else b)"

definition is_header_name_byte :: "byte \<Rightarrow> bool" where
  "is_header_name_byte b \<longleftrightarrow>
     48 \<le> b \<and> b \<le> 57 \<or> 65 \<le> b \<and> b \<le> 90 \<or> 97 \<le> b \<and> b \<le> 122 \<or>
     b \<in> set (ascii ''!#$%&'' @ [39] @ ascii ''*+-.^_`|~'')"

definition is_header_value_byte :: "byte \<Rightarrow> bool" where
  "is_header_value_byte b \<longleftrightarrow> b = 9 \<or> 32 \<le> b \<and> b \<le> 126"

definition is_forbidden_response_header :: "byte list \<Rightarrow> bool" where
  "is_forbidden_response_header name \<longleftrightarrow>
     name \<in> set (map ascii [''authorization'', ''connection'', ''content-length'', ''date'',
       ''keep-alive'', ''proxy-authenticate'', ''proxy-authorization'', ''server'', ''te'',
       ''trailer'', ''transfer-encoding'', ''upgrade'']) \<or>
     take (length (ascii ''access-control-'')) name = ascii ''access-control-''"

definition response_header_new :: "byte list \<Rightarrow> byte list \<Rightarrow> gateway_error + response_header" where
  "response_header_new name0 value =
     (let name = to_ascii_lowercase name0 in
      if name = [] \<or> length name > MAX_RESPONSE_HEADER_NAME_BYTES \<or> \<not> list_all is_header_name_byte name \<or>
         is_forbidden_response_header name \<or> length value > MAX_RESPONSE_HEADER_VALUE_BYTES \<or>
         \<not> list_all is_header_value_byte value
      then Inl (InvalidContract ''chat-completions response header is unsafe or exceeds its bound'')
      else Inr \<lparr>hd_name = name, hd_value = value\<rparr>)"

record response_head =
  rh_status_code :: nat
  rh_headers :: "response_header list"

fun header_bytes :: "nat \<Rightarrow> response_header list \<Rightarrow> nat option" where
  "header_bytes acc [] = Some acc"
| "header_bytes acc (h # hs) =
     Option.bind (Option.bind (Option.bind (checked_add64 acc (length (hd_name h)))
       (\<lambda>n. checked_add64 n (length (hd_value h)))) (\<lambda>n. checked_add64 n 4))
       (\<lambda>n. header_bytes n hs)"

definition response_head_new :: "nat \<Rightarrow> response_header list \<Rightarrow> gateway_error + response_head" where
  "response_head_new status headers =
     (if \<not> (100 \<le> status \<and> status \<le> 599) \<or> length headers > MAX_RESPONSE_HEADERS \<or>
         (case header_bytes 0 headers of None \<Rightarrow> True | Some total_bytes \<Rightarrow> total_bytes > MAX_RESPONSE_HEADER_BYTES) \<or>
         \<not> distinct (map hd_name headers)
      then Inl (InvalidContract ''chat-completions response head is invalid or exceeds its bound'')
      else Inr \<lparr>rh_status_code = status, rh_headers = headers\<rparr>)"

section \<open>The response boundary\<close>

text \<open>
  The caller's writer is what it answers to each write; the writes that it accepted are the client's
  output. An attempt is the series of writes that the provider makes, each with the writer's answer and
  the clock's, and the provider's outcome.
\<close>

datatype committed = CommittedHead nat | CommittedBody nat

datatype emission =
    EmitHead response_head "execution_failure + unit"
  | EmitBody "byte list" "execution_failure + unit" "nat option"

record bounded_writer =
  bw_status_code :: "nat option"
  bw_body_bytes :: nat
  bw_first_body_at :: "nat option"
  bw_output :: "committed list"

definition writer_new :: "committed list \<Rightarrow> bounded_writer" where
  "writer_new out = \<lparr>bw_status_code = None, bw_body_bytes = 0, bw_first_body_at = None, bw_output = out\<rparr>"

definition has_started :: "bounded_writer \<Rightarrow> bool" where
  "has_started w \<longleftrightarrow> bw_status_code w \<noteq> None"

definition write_head ::
  "bounded_writer \<Rightarrow> response_head \<Rightarrow> execution_failure + unit \<Rightarrow> (execution_failure + unit) \<times> bounded_writer" where
  "write_head w head answer =
     (if bw_status_code w \<noteq> None
      then (Inl (terminal_backend ''provider emitted more than one response head''), w)
      else case answer of
             Inl e \<Rightarrow> (Inl e, w)
           | Inr _ \<Rightarrow> (Inr (), w\<lparr>bw_status_code := Some (rh_status_code head),
                                bw_output := bw_output w @ [CommittedHead (rh_status_code head)]\<rparr>))"

definition write_body ::
  "bounded_writer \<Rightarrow> byte list \<Rightarrow> execution_failure + unit \<Rightarrow> nat option \<Rightarrow>
   (execution_failure + unit) \<times> bounded_writer" where
  "write_body w body answer observed =
     (if bw_status_code w = None
      then (Inl (terminal_backend ''provider emitted a response body before its head''), w)
      else case checked_add64 (bw_body_bytes w) (length body) of
             None \<Rightarrow> (Inl (terminal_backend ''response body size overflowed''), w)
           | Some body_bytes \<Rightarrow>
               if body_bytes > MAX_RESPONSE_BODY_BYTES
               then (Inl (terminal_backend ''response body exceeds 64 MiB''), w)
               else case answer of
                      Inl e \<Rightarrow> (Inl e, w)
                    | Inr _ \<Rightarrow>
                        (Inr (), w\<lparr>bw_body_bytes := body_bytes,
                          bw_first_body_at := (if body \<noteq> [] \<and> bw_first_body_at w = None then observed
                                               else bw_first_body_at w),
                          bw_output := bw_output w @ [CommittedBody (length body)]\<rparr>))"

fun emit :: "bounded_writer \<Rightarrow> emission \<Rightarrow> bounded_writer" where
  "emit w (EmitHead head answer) = snd (write_head w head answer)"
| "emit w (EmitBody body answer observed) = snd (write_body w body answer observed)"

section \<open>Forwarding\<close>

record attempt =
  at_emissions :: "emission list"
  at_outcome :: "execution_failure + exact_usage"

record execution_env =
  ex_providers :: "nat \<Rightarrow> providers"
  ex_others :: "nat \<Rightarrow> gateway_manager \<Rightarrow> gateway_manager"
  ex_forward :: "nat \<Rightarrow> gateway_route \<Rightarrow> chat_request \<Rightarrow> attempt"
  ex_connected :: "nat \<Rightarrow> execution_failure + bool"
  ex_wait :: "nat \<Rightarrow> queue_ticket \<Rightarrow> gateway_error + unit"

record execution_receipt =
  er_placement_group_id :: placement_group_id
  er_status_code :: nat
  er_attempt_count :: nat
  er_queued_milliseconds :: nat
  er_response_body_bytes :: nat
  er_usage :: exact_usage

definition telemetry_observed_at :: "providers \<Rightarrow> nat option" where
  "telemetry_observed_at pv = (case pv_now pv of Inl _ \<Rightarrow> None | Inr now \<Rightarrow> Some now)"

definition client_is_connected :: "execution_failure + bool \<Rightarrow> bool" where
  "client_is_connected answer = (case answer of Inl _ \<Rightarrow> False | Inr alive \<Rightarrow> alive)"

definition execution_error :: "execution_failure \<Rightarrow> bool \<Rightarrow> gateway_error" where
  "execution_error failure output_started =
     Provider (if output_started then ''execution_after_output'' else ''execution_before_output'')
       (ef_reason failure)"

text \<open>
  \<open>k\<close> numbers the calls of the manager; before call \<open>k\<close> the other requests have run \<open>ex_others env k\<close>.
\<close>

definition cancel_queue_after_error ::
  "execution_env \<Rightarrow> nat \<Rightarrow> gateway_manager \<Rightarrow> queue_ticket \<Rightarrow> gateway_error \<Rightarrow> gateway_error \<times> gateway_manager" where
  "cancel_queue_after_error env k gm ticket error =
     (case fail_queue (ex_providers env k) (ex_others env k gm) ticket of
        (Inr _, gm1) \<Rightarrow> (error, gm1)
      | (Inl RequestNotFound, gm1) \<Rightarrow> (error, gm1)
      | (Inl cleanup_error, gm1) \<Rightarrow> (cleanup_error, gm1))"

fun wait_cycles ::
  "execution_env \<Rightarrow> nat \<Rightarrow> nat \<Rightarrow> gateway_manager \<Rightarrow> queue_ticket \<Rightarrow>
   (gateway_error + reservation) \<times> gateway_manager \<times> nat" where
  "wait_cycles env 0 k gm ticket =
     (let (e, gm1) = cancel_queue_after_error env k gm ticket
            (Provider ''queue_wait'' ''wait cycle bound exceeded'')
      in (Inl e, gm1, Suc k))"
| "wait_cycles env (Suc cycles) k gm ticket =
     (let fail = (\<lambda>gm1 error. let (e, gm2) = cancel_queue_after_error env (Suc k) gm1 ticket error
                             in (Inl e, gm2, Suc (Suc k)))
      in case poll_queue (ex_providers env k) (ex_others env k gm) ticket of
           (Inr (StatusAdmitted r), gm1) \<Rightarrow> (Inr r, gm1, Suc k)
         | (Inr Waiting, gm1) \<Rightarrow>
             if \<not> client_is_connected (ex_connected env k)
             then fail gm1 (Provider ''queue_wait'' ''client disconnected while queued'')
             else (case ex_wait env k ticket of
                     Inl e \<Rightarrow> fail gm1 e
                   | Inr _ \<Rightarrow> wait_cycles env cycles (Suc k) gm1 ticket)
         | (Inl e, gm1) \<Rightarrow> fail gm1 e)"

definition wait_for_reservation ::
  "execution_env \<Rightarrow> nat \<Rightarrow> gateway_manager \<Rightarrow> queue_ticket \<Rightarrow>
   (gateway_error + reservation) \<times> gateway_manager \<times> nat" where
  "wait_for_reservation env = wait_cycles env MAX_QUEUE_WAIT_CYCLES"

definition reservation_of ::
  "execution_env \<Rightarrow> nat \<Rightarrow> gateway_manager \<Rightarrow> admission \<Rightarrow>
   (gateway_error + reservation) \<times> gateway_manager \<times> nat" where
  "reservation_of env k gm admission =
     (case admission of
        Admitted r \<Rightarrow> (Inr r, gm, k)
      | Queued ticket \<Rightarrow> wait_for_reservation env k gm ticket)"

text \<open>
  What one attempt ends in: a call of the manager that ends the request, with the answer when that call
  succeeds, or a retry.
\<close>

datatype ending =
    EndFailed gateway_error
  | EndCancelled gateway_error
  | EndCompleted exact_usage nat
  | EndRetry

definition attempt_ending ::
  "chat_request \<Rightarrow> nat \<Rightarrow> bounded_writer \<Rightarrow> execution_failure + exact_usage \<Rightarrow> ending" where
  "attempt_ending request attempt_count w outcome =
     (case outcome of
        Inr usage \<Rightarrow>
          (case bw_status_code w of
             None \<Rightarrow> EndFailed (Provider ''execution'' ''provider completed without a response head'')
           | Some status \<Rightarrow>
               (case validate_for usage (ch_request request) of
                  Inl e \<Rightarrow> EndFailed e
                | Inr _ \<Rightarrow> EndCompleted usage status))
      | Inl failure \<Rightarrow>
          if ef_kind failure = Client then EndCancelled (execution_error failure (has_started w))
          else if has_started w then EndFailed (execution_error failure True)
          else if ef_kind failure \<noteq> RetryableBackend then EndFailed (execution_error failure False)
          else if attempt_count \<ge> MAX_EXECUTION_ATTEMPTS
          then EndFailed (Provider ''execution_before_output''
                 (if ef_reason failure = [] then ''retry limit reached'' else ef_reason failure))
          else EndRetry)"

definition attempt_timing :: "execution_env \<Rightarrow> nat \<Rightarrow> reservation \<Rightarrow> bounded_writer \<Rightarrow> telemetry_timing" where
  "attempt_timing env k r w =
     from_observations (rs_queued_milliseconds r) (telemetry_observed_at (ex_providers env k))
       (bw_first_body_at w) (telemetry_observed_at (ex_providers env (Suc k)))"

definition run_attempt ::
  "execution_env \<Rightarrow> nat \<Rightarrow> reservation \<Rightarrow> chat_request \<Rightarrow> committed list \<Rightarrow>
   bounded_writer \<times> (execution_failure + exact_usage)" where
  "run_attempt env k r request out =
     (let a = ex_forward env k (rs_route r) request
      in (foldl emit (writer_new out) (at_emissions a), at_outcome a))"

function forward ::
  "execution_env \<Rightarrow> nat \<Rightarrow> gateway_manager \<Rightarrow> admission \<Rightarrow> chat_request \<Rightarrow> nat \<Rightarrow> committed list \<Rightarrow>
   (gateway_error + execution_receipt) \<times> gateway_manager \<times> committed list" where
  "forward env k gm admission request attempts out =
     (case reservation_of env k gm admission of
        (Inl e, gm1, k1) \<Rightarrow> (Inl e, gm1, out)
      | (Inr r, gm1, k1) \<Rightarrow>
          let attempt_count = min (Suc attempts) 65535;
              (w, outcome) = run_attempt env k1 r request out;
              timing = attempt_timing env k1 r w;
              pv = ex_providers env (Suc (Suc k1));
              gm2 = ex_others env (Suc (Suc k1)) gm1
          in case attempt_ending request attempt_count w outcome of
               EndFailed e \<Rightarrow>
                 let (result, gm3) = fail_reservation pv gm2 r timing
                 in (bind_result result (\<lambda>_. Inl e), gm3, bw_output w)
             | EndCancelled e \<Rightarrow>
                 let (result, gm3) = cancel_with_timing gm2 r timing
                 in (bind_result result (\<lambda>_. Inl e), gm3, bw_output w)
             | EndCompleted usage status \<Rightarrow>
                 let (result, gm3) = complete_execution pv gm2 r usage timing
                 in (bind_result result (\<lambda>_. Inr
                       \<lparr>er_placement_group_id = rt_placement_group_id (rs_route r), er_status_code = status,
                        er_attempt_count = attempt_count, er_queued_milliseconds = rs_queued_milliseconds r,
                        er_response_body_bytes = bw_body_bytes w, er_usage = usage\<rparr>), gm3, bw_output w)
             | EndRetry \<Rightarrow>
                 (case retry_before_output pv gm2 r of
                    (Inl e, gm3) \<Rightarrow> (Inl e, gm3, bw_output w)
                  | (Inr admission1, gm3) \<Rightarrow>
                      forward env (Suc (Suc (Suc k1))) gm3 admission1 request attempt_count (bw_output w)))"
  by pat_completeness auto
termination
  by (relation "measure (\<lambda>(env, k, gm, admission, request, attempts, out). MAX_EXECUTION_ATTEMPTS - attempts)")
    (auto simp: attempt_ending_def MAX_EXECUTION_ATTEMPTS_def split: sum.splits option.splits if_splits)

declare forward.simps [simp del]

definition forward_public ::
  "execution_env \<Rightarrow> gateway_manager \<Rightarrow> string \<Rightarrow> chat_request \<Rightarrow>
   (gateway_error + execution_receipt) \<times> gateway_manager \<times> committed list" where
  "forward_public env gm bearer request =
     (case admit_public (ex_providers env 0) (ex_others env 0 gm) bearer (ch_request request) of
        (Inl e, gm1) \<Rightarrow> (Inl e, gm1, [])
      | (Inr admission, gm1) \<Rightarrow> forward env 1 gm1 admission request 0 [])"

definition forward_relay ::
  "execution_env \<Rightarrow> gateway_manager \<Rightarrow> string \<Rightarrow> chat_request \<Rightarrow>
   (gateway_error + execution_receipt) \<times> gateway_manager \<times> committed list" where
  "forward_relay env gm credential request =
     (case admit_relay (ex_providers env 0) (ex_others env 0 gm) credential (ch_request request) of
        (Inl e, gm1) \<Rightarrow> (Inl e, gm1, [])
      | (Inr admission, gm1) \<Rightarrow> forward env 1 gm1 admission request 0 [])"

section \<open>What the manager's operations leave of one request\<close>

text \<open>
  \<open>holding\<close>: the accounts are exact and the reservation is one of those held. \<open>pending\<close>: the accounts
  are exact and the identity has no reservation. \<open>released\<close>: neither a reservation nor a queue entry.
\<close>

definition holding :: "gateway_manager \<Rightarrow> reservation \<Rightarrow> bool" where
  "holding gm r \<longleftrightarrow> (\<exists>R n. sound (gm_state gm) R n \<and> r \<in> set R)"

definition pending :: "gateway_manager \<Rightarrow> sha256_digest \<Rightarrow> bool" where
  "pending gm rid \<longleftrightarrow> (\<exists>R n. sound (gm_state gm) R n \<and> rid \<notin> reservation_id ` set R)"

definition released :: "gateway_manager \<Rightarrow> sha256_digest \<Rightarrow> bool" where
  "released gm rid \<longleftrightarrow> (\<exists>R n. sound (gm_state gm) R n) \<and> fresh (gm_state gm) rid"

lemma holdingI: "sound (gm_state gm) R n \<Longrightarrow> r \<in> set R \<Longrightarrow> holding gm r"
  by (auto simp: holding_def)

lemma pendingI: "sound (gm_state gm) R n \<Longrightarrow> rid \<notin> reservation_id ` set R \<Longrightarrow> pending gm rid"
  by (auto simp: pending_def)

text \<open>What the other requests may do: anything that keeps the accounts and this identity's reservation.\<close>

definition leaves_alone :: "sha256_digest \<Rightarrow> (gateway_manager \<Rightarrow> gateway_manager) \<Rightarrow> bool" where
  "leaves_alone rid f \<longleftrightarrow>
     (\<forall>gm R n. sound (gm_state gm) R n \<longrightarrow>
        (\<exists>R' n'. sound (gm_state (f gm)) R' n' \<and>
           filter (\<lambda>r. reservation_id r = rid) R' = filter (\<lambda>r. reservation_id r = rid) R))"

lemma left_alone_holding: "leaves_alone (reservation_id r) f \<Longrightarrow> holding gm r \<Longrightarrow> holding (f gm) r"
proof -
  assume f: "leaves_alone (reservation_id r) f" and "holding gm r"
  then obtain R n where R: "sound (gm_state gm) R n" "r \<in> set R" by (auto simp: holding_def)
  with f obtain R' n' where R': "sound (gm_state (f gm)) R' n'"
    "filter (\<lambda>x. reservation_id x = reservation_id r) R' = filter (\<lambda>x. reservation_id x = reservation_id r) R"
    unfolding leaves_alone_def by blast
  have "r \<in> set (filter (\<lambda>x. reservation_id x = reservation_id r) R')" unfolding R'(2) using R(2) by simp
  with R'(1) show ?thesis by (auto simp: holding_def)
qed

lemma left_alone_pending: "leaves_alone rid f \<Longrightarrow> pending gm rid \<Longrightarrow> pending (f gm) rid"
proof -
  assume f: "leaves_alone rid f" and "pending gm rid"
  then obtain R n where R: "sound (gm_state gm) R n" "rid \<notin> reservation_id ` set R" by (auto simp: pending_def)
  with f obtain R' n' where R': "sound (gm_state (f gm)) R' n'"
    "filter (\<lambda>x. reservation_id x = rid) R' = filter (\<lambda>x. reservation_id x = rid) R"
    unfolding leaves_alone_def by blast
  have "filter (\<lambda>x. reservation_id x = rid) R = []" using R(2) by (auto simp: filter_empty_conv)
  with R' show ?thesis by (fastforce simp: pending_def filter_empty_conv)
qed

lemma sound_fresh:
  "sound st R n \<Longrightarrow> rid \<notin> reservation_id ` set R \<Longrightarrow> map_of (g_queued st) rid = None \<Longrightarrow> fresh st rid"
  by (simp add: sound_def accounts_def active_exact_def fresh_def map_of_reservations_None)

lemma held_not_queued: "sound st R n \<Longrightarrow> r \<in> set R \<Longrightarrow> map_of (g_queued st) (reservation_id r) = None"
  by (auto simp: sound_def accounts_def queue_exact_def map_of_eq_None_iff)

lemma held_split:
  assumes "sound st R n" "r \<in> set R"
  obtains R1 R2 where "R = R1 @ r # R2" "reservation_id r \<notin> reservation_id ` set (R1 @ R2)"
proof -
  from assms(2) obtain R1 R2 where R: "R = R1 @ r # R2" by (auto dest: split_list)
  with assms(1) have "reservation_id r \<notin> reservation_id ` set (R1 @ R2)"
    by (auto simp: sound_def accounts_def active_exact_def)
  with R show thesis by (rule that)
qed

lemma release_reservation_queued: "release_reservation st r = (res, st') \<Longrightarrow> g_queued st' = g_queued st"
  by (auto simp: release_reservation_def Let_def split: option.splits if_splits)

lemma section_queued:
  "cancel_section st r timing = (res, st') \<Longrightarrow> g_queued st' = g_queued st"
  "fail_section st r now timing = (res2, st') \<Longrightarrow> g_queued st' = g_queued st"
  "complete_section st r done_at input output cached exact timing = (res3, st') \<Longrightarrow> g_queued st' = g_queued st"
  by (auto simp: cancel_section_def fail_section_def complete_section_def mark_completed_def charge_completed_def
      Let_def dest!: release_reservation_queued split: prod.splits sum.splits option.splits)

lemma ended_released:
  assumes "holding gm r" "g_queued st' = g_queued (gm_state gm)"
    "\<And>R1 R2 n. sound (gm_state gm) (R1 @ r # R2) n \<Longrightarrow> sound st' (R1 @ R2) n"
  shows "released (gm\<lparr>gm_state := st'\<rparr>) (reservation_id r)"
proof -
  from assms(1) obtain R n where R: "sound (gm_state gm) R n" "r \<in> set R" by (auto simp: holding_def)
  then obtain R1 R2 where s: "R = R1 @ r # R2" "reservation_id r \<notin> reservation_id ` set (R1 @ R2)"
    by (rule held_split)
  have "sound st' (R1 @ R2) n" using assms(3) R(1) s(1) by simp
  moreover from sound_fresh [OF this s(2)] held_not_queued [OF R] assms(2)
  have "fresh st' (reservation_id r)" by simp
  ultimately show ?thesis by (auto simp: released_def)
qed

lemma fail_reservation_releases:
  assumes "holding gm r" "fail_reservation pv gm r timing = (res, gm')"
  shows "released gm' (reservation_id r)"
proof -
  obtain res1 st where f: "fail_section (gm_state gm) r (pv_now pv) timing = (res1, st)" by force
  with assms(2) have "gm' = gm\<lparr>gm_state := st\<rparr>" by (simp add: fail_reservation_def)
  then show ?thesis
    using ended_released [OF assms(1) section_queued(2) [OF f]] fail_section_sound [OF _ f] by blast
qed

lemma cancel_with_timing_releases:
  assumes "holding gm r" "cancel_with_timing gm r timing = (res, gm')"
  shows "released gm' (reservation_id r)"
proof -
  obtain res1 st where f: "cancel_section (gm_state gm) r timing = (res1, st)" by force
  with assms(2) have "gm' = gm\<lparr>gm_state := st\<rparr>" by (simp add: cancel_with_timing_def)
  then show ?thesis
    using ended_released [OF assms(1) section_queued(1) [OF f]] cancel_section_sound [OF _ f] by blast
qed

lemma complete_execution_releases:
  assumes "holding gm r" "complete_execution pv gm r u timing = (res, gm')"
  shows "released gm' (reservation_id r)"
proof -
  obtain res1 st where f: "complete_section (gm_state gm) r (pv_now pv) (eu_input_tokens u) (eu_output_tokens u)
      (eu_cached_tokens u) True timing = (res1, st)" by force
  with assms(2) have "gm' = gm\<lparr>gm_state := st\<rparr>"
    by (auto simp: complete_execution_def complete_request_def split: sum.splits)
  then show ?thesis
    using ended_released [OF assms(1) section_queued(3) [OF f]] complete_section_sound [OF _ f] by blast
qed

lemma check_routes_state: "check_routes pv model seen gm routes = (res, gm') \<Longrightarrow> gm_state gm' = gm_state gm"
proof (induction routes arbitrary: model seen gm res gm')
  case (Cons x rest)
  show ?case
  proof (cases "rt_model x \<noteq> model \<or> rt_placement_group_id x \<in> set seen \<or> \<not> child_route_ok (gm_mode gm) x")
    case True
    with Cons.prems show ?thesis by (auto split: if_splits)
  next
    case False
    obtain res1 gm1 where j: "judge pv gm x = (res1, gm1)" by force
    with Cons.prems False judge_mode [OF j] show ?thesis
      by (auto simp: Let_def dest!: Cons.IH split: if_splits sum.splits prod.splits)
  qed
qed simp

lemma current_routes_state: "current_routes pv gm model = (res, gm') \<Longrightarrow> gm_state gm' = gm_state gm"
  by (auto simp: current_routes_def dest: check_routes_state split: sum.splits)

lemma retry_releases:
  assumes h: "holding gm r" and run: "retry_before_output pv gm r = (res, gm')"
  shows "(\<forall>e. res = Inl e \<longrightarrow> released gm' (reservation_id r)) \<and>
    (\<forall>x. res = Inr (Admitted x) \<longrightarrow> holding gm' x \<and> reservation_id x = reservation_id r) \<and>
    (\<forall>t. res = Inr (Queued t) \<longrightarrow> t = reservation_id r \<and> pending gm' t)"
proof -
  obtain routes gm1 where c: "current_routes pv gm (rq_model (rs_request r)) = (routes, gm1)" by force
  obtain res1 st where p: "retry_section (gm_state gm1) r (pv_now pv) routes = (res1, st)" by force
  have st: "gm_state gm1 = gm_state gm" by (rule current_routes_state [OF c])
  have res: "res1 = res" "gm_state gm' = st" using run c p by (auto simp: retry_before_output_def)
  from h obtain R n where R: "sound (gm_state gm) R n" "r \<in> set R" by (auto simp: holding_def)
  then obtain R1 R2 where s: "R = R1 @ r # R2" "reservation_id r \<notin> reservation_id ` set (R1 @ R2)"
    by (rule held_split)
  have after: "admitted_to res st (R1 @ R2) n n"
    using retry_section_sound [of "gm_state gm" R1 r R2 n] R(1) s(1) p st res(1) by simp
  have queued: "g_queued st = g_queued (gm_state gm)" if "res = Inl e" for e
    using p that unfolding st res(1)
    by (auto simp: retry_section_def Let_def end_failed_def reserve_route_def dest!: release_reservation_queued
        split: sum.splits prod.splits route_selection.splits if_splits)
  have same: "reservation_id x = reservation_id r" if "res = Inr (Admitted x)" for x
    using p that unfolding res(1)
    by (auto simp: retry_section_def Let_def reservation_id_def dest!: reserve_route_result
        split: sum.splits prod.splits route_selection.splits if_splits)
  have ticket: "t = reservation_id r" if "res = Inr (Queued t)" for t
    using p that unfolding res(1)
    by (auto simp: retry_section_def Let_def reservation_id_def
        split: sum.splits prod.splits route_selection.splits if_splits)
  show ?thesis
    using after same ticket sound_fresh [of st "R1 @ R2" n, OF _ s(2)] queued held_not_queued [OF R] s(2) res(2)
    by (fastforce simp: released_def holding_def pending_def)
qed

lemma poll_pending:
  assumes p: "pending gm t" and run: "poll_queue pv gm t = (res, gm')"
  shows "(\<forall>x. res = Inr (StatusAdmitted x) \<longrightarrow> holding gm' x \<and> reservation_id x = t) \<and>
    ((\<forall>x. res \<noteq> Inr (StatusAdmitted x)) \<longrightarrow> pending gm' t)"
proof -
  from p obtain R n where R: "sound (gm_state gm) R n" "t \<notin> reservation_id ` set R" by (auto simp: pending_def)
  show ?thesis
  proof (cases "\<exists>now q routes gm1. pv_now pv = Inr now \<and> map_of (g_queued (gm_state gm)) t = Some q \<and>
      current_routes pv gm (rq_model (qr_request q)) = (Inr routes, gm1)")
    case False
    then have "gm_state gm' = gm_state gm \<and> (\<exists>e. res = Inl e)"
      using run by (auto simp: poll_queue_def dest: current_routes_state split: sum.splits option.splits prod.splits)
    then show ?thesis using R by (auto simp: pending_def)
  next
    case True
    then obtain now q routes gm1 where c: "pv_now pv = Inr now" "map_of (g_queued (gm_state gm)) t = Some q"
      "current_routes pv gm (rq_model (qr_request q)) = (Inr routes, gm1)" by blast
    obtain res1 st where s: "poll_section (gm_state gm1) t (qr_request q) now routes = (res1, st)" by force
    have res: "res1 = res" "gm_state gm' = st" using run c s by (auto simp: poll_queue_def)
    have "polled_to res st R n"
      using poll_section_sound [OF _ s] R(1) current_routes_state [OF c(3)] res(1) by simp
    moreover have "reservation_id x = t" if "res = Inr (StatusAdmitted x)" for x
    proof -
      from s that res(1) obtain q1 st1 route where q1: "map_of (g_queued (gm_state gm1)) t = Some q1"
        "reserve_route st1 q1 route now = (Inr x, st)" by (auto elim!: poll_section_admits)
      have "rq_request_id (qr_request q1) = t"
        using take_queued [OF R(1)] q1(1) current_routes_state [OF c(3)] by fastforce
      with reserve_route_result [OF q1(2)] show ?thesis by (simp add: reservation_id_def)
    qed
    moreover have "res = Inl e \<or> res = Inr Waiting \<or> (\<exists>x. res = Inr (StatusAdmitted x))" if "\<nexists>e. res = Inl e" for e
      using that by (cases res) (auto intro: queue_status.exhaust)
    ultimately show ?thesis
      using R(2) res(2) by (cases "\<exists>e. res = Inl e") (auto intro: holdingI pendingI)
  qed
qed

lemma fail_queue_releases:
  assumes p: "pending gm t" and now: "pv_now pv = Inr now" and run: "fail_queue pv gm t = (res, gm')"
  shows "released gm' t"
proof -
  from p obtain R n where R: "sound (gm_state gm) R n" "t \<notin> reservation_id ` set R" by (auto simp: pending_def)
  obtain res1 st where f: "fail_queue_section (gm_state gm) t now = (res1, st)" by force
  have st: "gm_state gm' = st" using run now f by (auto simp: fail_queue_def)
  have s: "sound st R n" by (rule queue_end_sound(2) [OF R(1) f])
  have "map_of (g_queued st) t = None"
    using f by (auto simp: fail_queue_section_def remove_queued_request_def Let_def map_of_delete_if split: option.splits)
  with sound_fresh [OF s R(2)] s st show ?thesis by (auto simp: released_def)
qed

section \<open>Forwarding leaves nothing behind\<close>

lemma cancel_queue_after_error_releases:
  assumes "pending gm t" "leaves_alone t (ex_others env k)" "pv_now (ex_providers env k) = Inr now"
    "cancel_queue_after_error env k gm t error = (e, gm')"
  shows "released gm' t"
proof -
  obtain res gm1 where f: "fail_queue (ex_providers env k) (ex_others env k gm) t = (res, gm1)" by force
  with assms(4) have "gm' = gm1"
    by (auto simp: cancel_queue_after_error_def split: sum.splits gateway_error.splits)
  with fail_queue_releases [OF left_alone_pending [OF assms(2,1)] assms(3) f] show ?thesis by simp
qed

lemma wait_cycles_outcome:
  assumes "pending gm t" "\<And>k. leaves_alone t (ex_others env k)" "\<And>k. \<exists>now. pv_now (ex_providers env k) = Inr now"
    "wait_cycles env cycles k gm t = (res, gm', k')"
  shows "case res of Inl e \<Rightarrow> released gm' t | Inr r \<Rightarrow> holding gm' r \<and> reservation_id r = t"
  using assms(1,4)
proof (induction cycles arbitrary: k gm)
  case 0
  obtain e gm1 where f: "cancel_queue_after_error env k gm t (Provider ''queue_wait'' ''wait cycle bound exceeded'')
      = (e, gm1)" by force
  moreover from assms(3) [of k] obtain now where "pv_now (ex_providers env k) = Inr now" by blast
  ultimately show ?case
    using 0 cancel_queue_after_error_releases [OF 0(1) assms(2)] by auto
next
  case (Suc cycles)
  obtain polled gm1 where p: "poll_queue (ex_providers env k) (ex_others env k gm) t = (polled, gm1)" by force
  note after = poll_pending [OF left_alone_pending [OF assms(2) Suc.prems(1)] p]
  from assms(3) [of "Suc k"] obtain now where now: "pv_now (ex_providers env (Suc k)) = Inr now" by blast
  have failed: "released gm2 t" if "pending gm1 t" "cancel_queue_after_error env (Suc k) gm1 t error = (e, gm2)" for error e gm2
    using cancel_queue_after_error_releases [OF that(1) assms(2) now that(2)] .
  show ?case
  proof (cases "\<exists>x. polled = Inr (StatusAdmitted x)")
    case True
    with after p Suc.prems(2) show ?thesis by auto
  next
    case False
    with after have pend: "pending gm1 t" by blast
    show ?thesis
    proof (cases "polled = Inr Waiting \<and> client_is_connected (ex_connected env k) \<and> ex_wait env k t = Inr ()")
      case True
      with p Suc.prems(2) have "wait_cycles env cycles (Suc k) gm1 t = (res, gm', k')" by simp
      with Suc.IH [OF pend] show ?thesis by blast
    next
      case other: False
      with False p Suc.prems(2) obtain error e
        where "cancel_queue_after_error env (Suc k) gm1 t error = (e, gm')" "res = Inl e"
        by (auto simp: Let_def split: sum.splits queue_status.splits if_splits prod.splits)
      with failed [OF pend] show ?thesis by auto
    qed
  qed
qed

definition owns :: "gateway_manager \<Rightarrow> sha256_digest \<Rightarrow> admission \<Rightarrow> bool" where
  "owns gm rid admission =
     (case admission of Admitted r \<Rightarrow> holding gm r \<and> reservation_id r = rid | Queued t \<Rightarrow> t = rid \<and> pending gm rid)"

lemma reservation_of_outcome:
  assumes "owns gm rid admission" "\<And>k. leaves_alone rid (ex_others env k)"
    "\<And>k. \<exists>now. pv_now (ex_providers env k) = Inr now" "reservation_of env k gm admission = (res, gm', k')"
  shows "case res of Inl e \<Rightarrow> released gm' rid | Inr r \<Rightarrow> holding gm' r \<and> reservation_id r = rid"
proof (cases admission)
  case (Admitted r)
  with assms show ?thesis by (auto simp: owns_def reservation_of_def)
next
  case (Queued t)
  with assms have "wait_cycles env MAX_QUEUE_WAIT_CYCLES k gm rid = (res, gm', k')" "pending gm rid"
    by (auto simp: owns_def reservation_of_def wait_for_reservation_def)
  from wait_cycles_outcome [OF this(2) assms(2,3) this(1)] show ?thesis .
qed

text \<open>One round of the loop: the wait fails, the attempt ends the request, or it is retried.\<close>

lemma attempt_retry: "attempt_ending request c w outcome = EndRetry \<Longrightarrow> c < MAX_EXECUTION_ATTEMPTS \<and> \<not> has_started w"
  by (auto simp: attempt_ending_def split: sum.splits option.splits if_splits)

lemma forward_round:
  assumes "forward env k gm admission request attempts out = (res, gm', out')"
  obtains (no_reservation) e k1 where "reservation_of env k gm admission = (Inl e, gm', k1)" "res = Inl e" "out' = out"
  | (failed) r gm1 k1 w outcome res1 timing where "reservation_of env k gm admission = (Inr r, gm1, k1)"
      "run_attempt env k1 r request out = (w, outcome)"
      "fail_reservation (ex_providers env (Suc (Suc k1))) (ex_others env (Suc (Suc k1)) gm1) r timing = (res1, gm')"
      "\<exists>e. res = Inl e" "out' = bw_output w"
  | (cancelled) r gm1 k1 w outcome res1 timing where "reservation_of env k gm admission = (Inr r, gm1, k1)"
      "run_attempt env k1 r request out = (w, outcome)"
      "cancel_with_timing (ex_others env (Suc (Suc k1)) gm1) r timing = (res1, gm')"
      "\<exists>e. res = Inl e" "out' = bw_output w"
  | (completed) r gm1 k1 w outcome usage status res1 timing where "reservation_of env k gm admission = (Inr r, gm1, k1)"
      "run_attempt env k1 r request out = (w, outcome)"
      "attempt_ending request (min (Suc attempts) 65535) w outcome = EndCompleted usage status"
      "complete_execution (ex_providers env (Suc (Suc k1))) (ex_others env (Suc (Suc k1)) gm1) r usage timing = (res1, gm')"
      "res = bind_result res1 (\<lambda>_. Inr
         \<lparr>er_placement_group_id = rt_placement_group_id (rs_route r), er_status_code = status,
          er_attempt_count = min (Suc attempts) 65535, er_queued_milliseconds = rs_queued_milliseconds r,
          er_response_body_bytes = bw_body_bytes w, er_usage = usage\<rparr>)" "out' = bw_output w"
  | (not_retried) r gm1 k1 w outcome e where "reservation_of env k gm admission = (Inr r, gm1, k1)"
      "run_attempt env k1 r request out = (w, outcome)"
      "retry_before_output (ex_providers env (Suc (Suc k1))) (ex_others env (Suc (Suc k1)) gm1) r = (Inl e, gm')"
      "res = Inl e" "out' = bw_output w"
  | (retried) r gm1 k1 w outcome admission1 gm3 where "reservation_of env k gm admission = (Inr r, gm1, k1)"
      "run_attempt env k1 r request out = (w, outcome)" "\<not> has_started w" "Suc attempts < MAX_EXECUTION_ATTEMPTS"
      "retry_before_output (ex_providers env (Suc (Suc k1))) (ex_others env (Suc (Suc k1)) gm1) r = (Inr admission1, gm3)"
      "forward env (Suc (Suc (Suc k1))) gm3 admission1 request (Suc attempts) (bw_output w) = (res, gm', out')"
proof -
  obtain first gm1 k1 where f: "reservation_of env k gm admission = (first, gm1, k1)" by (metis prod_cases3)
  note run = assms [unfolded forward.simps [of env k] f]
  show thesis
  proof (cases first)
    case (Inl e)
    with run no_reservation f show thesis by auto
  next
    case (Inr r)
    obtain w outcome where a: "run_attempt env k1 r request out = (w, outcome)" by force
    define c where "c = min (Suc attempts) 65535"
    define pv where "pv = ex_providers env (Suc (Suc k1))"
    define gm2 where "gm2 = ex_others env (Suc (Suc k1)) gm1"
    define timing where "timing = attempt_timing env k1 r w"
    note run' = run [unfolded Inr sum.case prod.case Let_def a, folded c_def pv_def gm2_def timing_def]
    note start = f [unfolded Inr] a
    show thesis
    proof (cases "attempt_ending request c w outcome")
      case (EndFailed e)
      obtain res1 gm3 where m: "fail_reservation pv gm2 r timing = (res1, gm3)" by force
      with run' EndFailed have "gm3 = gm'" "res = bind_result res1 (\<lambda>_. Inl e)" "out' = bw_output w" by auto
      with failed [OF start] m show thesis by (cases res1) (auto simp: pv_def gm2_def)
    next
      case (EndCancelled e)
      obtain res1 gm3 where m: "cancel_with_timing gm2 r timing = (res1, gm3)" by force
      with run' EndCancelled have "gm3 = gm'" "res = bind_result res1 (\<lambda>_. Inl e)" "out' = bw_output w" by auto
      with cancelled [OF start] m show thesis by (cases res1) (auto simp: gm2_def)
    next
      case (EndCompleted usage status)
      obtain res1 gm3 where m: "complete_execution pv gm2 r usage timing = (res1, gm3)" by force
      with run' EndCompleted completed [OF start, of usage status timing res1] show thesis
        by (simp add: c_def pv_def gm2_def)
    next
      case EndRetry
      obtain res1 gm3 where m: "retry_before_output pv gm2 r = (res1, gm3)" by force
      from attempt_retry [OF EndRetry] have "c = Suc attempts" "Suc attempts < MAX_EXECUTION_ATTEMPTS" "\<not> has_started w"
        by (auto simp: c_def MAX_EXECUTION_ATTEMPTS_def min_def split: if_splits)
      with run' EndRetry m not_retried [OF start] retried [OF start] show thesis
        by (cases res1) (auto simp: pv_def gm2_def)
    qed
  qed
qed

lemma forward_releases:
  assumes "\<And>k. leaves_alone rid (ex_others env k)" "\<And>k. \<exists>now. pv_now (ex_providers env k) = Inr now"
    "owns gm rid admission" "forward env k gm admission request attempts out = (res, gm', out')"
  shows "released gm' rid"
  using assms(3,4)
proof (induction "MAX_EXECUTION_ATTEMPTS - attempts" arbitrary: k gm admission attempts out rule: less_induct)
  case less
  note reserved = reservation_of_outcome [OF less.prems(1) assms(1,2)]
  have held: "holding (ex_others env j gm1) r \<and> reservation_id r = rid"
    if "reservation_of env k gm admission = (Inr r, gm1, k1)" for r gm1 k1 j
    using reserved [OF that] left_alone_holding [of r "ex_others env j" gm1] assms(1) by auto
  from less.prems(2) show ?case
  proof (cases rule: forward_round)
    case (no_reservation e k1)
    with reserved [OF no_reservation(1)] show ?thesis by simp
  next
    case (failed r gm1 k1 w outcome res1 timing)
    with held [OF failed(1)] fail_reservation_releases show ?thesis by blast
  next
    case (cancelled r gm1 k1 w outcome res1 timing)
    with held [OF cancelled(1)] cancel_with_timing_releases show ?thesis by blast
  next
    case (completed r gm1 k1 w outcome usage status res1 timing)
    with held [OF completed(1)] complete_execution_releases show ?thesis by blast
  next
    case (not_retried r gm1 k1 w outcome e)
    with held [OF not_retried(1)] retry_releases [OF _ not_retried(3)] show ?thesis by blast
  next
    case (retried r gm1 k1 w outcome admission1 gm3)
    have "owns gm3 rid admission1"
      using held [OF retried(1)] retry_releases [OF _ retried(5)] by (cases admission1) (auto simp: owns_def)
    with less.hyps [OF _ _ retried(6)] retried(4) show ?thesis by auto
  qed
qed

lemma admit_section_failed:
  assumes "admit_section st r holder now routes recent = (Inl e, st')"
  shows "g_queued st' = g_queued st"
  using assms
  by (auto simp: admit_section_def admit_route_def Let_def reserve_route_def
      dest!: load_recent_usage_keeps(4) admit_principal_frame(3)
      split: sum.splits option.splits prod.splits route_selection.splits if_splits)

lemma admit_section_queued:
  assumes "admit_section st r holder now routes recent = (Inr (Queued t), st')"
  shows "t = rq_request_id r"
  using assms
  by (auto simp: admit_section_def admit_route_def Let_def
      split: sum.splits option.splits prod.splits route_selection.splits if_splits)

lemma admit_outcome:
  assumes s: "sound (gm_state gm) R (Suc n)" and new: "fresh (gm_state gm) (rq_request_id r)"
    and d: "0 < token_demand r" and run: "admit pv gm r holder = (res, gm')"
  shows "(\<forall>e. res = Inl e \<longrightarrow> sound (gm_state gm') R (Suc n) \<and> fresh (gm_state gm') (rq_request_id r)) \<and>
    (\<forall>a. res = Inr a \<longrightarrow> owns gm' (rq_request_id r) a)"
proof -
  have id: "rq_request_id r \<notin> reservation_id ` set R"
    using s new by (simp add: sound_def accounts_def active_exact_def fresh_def map_of_reservations_None)
  show ?thesis
  proof (cases "\<exists>now routes gm1 recent st. current_routes pv gm (rq_model r) = (Inr routes, gm1) \<and>
      admit_section (gm_state gm1) r holder now routes recent = (res, st) \<and> gm' = gm1\<lparr>gm_state := st\<rparr>")
    case False
    obtain routes gm1 where c: "current_routes pv gm (rq_model r) = (routes, gm1)" by force
    from False run c have "gm_state gm' = gm_state gm \<and> (\<exists>e. res = Inl e)"
      by (auto simp: admit_def Let_def dest: current_routes_state split: sum.splits prod.splits)
    with s new show ?thesis by auto
  next
    case True
    then obtain now routes gm1 recent st where c: "current_routes pv gm (rq_model r) = (Inr routes, gm1)"
      "admit_section (gm_state gm1) r holder now routes recent = (res, st)" "gm' = gm1\<lparr>gm_state := st\<rparr>" by blast
    have st: "gm_state gm1 = gm_state gm" by (rule current_routes_state [OF c(1)])
    have after: "admitted_to res st R (Suc n) n" using admit_section_sound [OF _ d c(2)] s st by simp
    show ?thesis
    proof (cases res)
      case (Inl e)
      have "map_of (g_queued st) (rq_request_id r) = None"
        using admit_section_failed [OF c(2) [unfolded Inl]] new st by (simp add: fresh_def)
      with after Inl c(3) sound_fresh [OF _ id] show ?thesis by auto
    next
      case (Inr a)
      show ?thesis
      proof (cases a)
        case (Admitted x)
        with admit_section_admits c(2) Inr have "reservation_id x = rq_request_id r" by (auto simp: reservation_id_def)
        with after Inr Admitted c(3) show ?thesis by (auto simp: owns_def intro: holdingI)
      next
        case (Queued t)
        with admit_section_queued c(2) Inr have "t = rq_request_id r" by auto
        with after Inr Queued c(3) id show ?thesis by (auto simp: owns_def intro: pendingI)
      qed
    qed
  qed
qed

lemma received_sound:
  "sound (gm_state gm) R n \<Longrightarrow> sound (gm_state (received gm)) R (Suc n)"
  "fresh (gm_state (received gm)) rid = fresh (gm_state gm) rid"
  by (simp_all add: received_def Let_def sound_def conserved_received fresh_def)

lemma initial_failure:
  assumes "\<And>e. fst result = Inl e \<Longrightarrow> sound (gm_state (snd result)) R (Suc n) \<and> fresh (gm_state (snd result)) rid"
    "\<And>a. fst result = Inr a \<Longrightarrow> owns (snd result) rid a" "record_initial_failure result = (res, gm')"
  shows "case res of Inl e \<Rightarrow> released gm' rid | Inr a \<Rightarrow> owns gm' rid a"
proof -
  obtain first gm where r: "result = (first, gm)" by force
  show ?thesis
  proof (cases first)
    case (Inl e)
    with assms(1) [of e] r have "sound (gm_state gm) R (Suc n)" "fresh (gm_state gm) rid" by auto
    moreover have "gm_state gm' = (gm_state gm)\<lparr>g_telemetry := record_unrouted_failure (g_telemetry (gm_state gm))\<rparr>"
      "res = Inl e" using assms(3) r Inl by (auto simp: record_initial_failure_def Let_def)
    moreover from calculation have "sound (gm_state gm') R n" by (simp add: sound_def conserved_settled(1))
    ultimately show ?thesis by (auto simp: released_def fresh_def)
  next
    case (Inr a)
    with assms(2) [of a] assms(3) r show ?thesis by (auto simp: record_initial_failure_def)
  qed
qed

lemma entry_outcome:
  assumes s: "sound (gm_state gm) R n" and new: "fresh (gm_state gm) (rq_request_id r)" and d: "0 < token_demand r"
    and run: "admit_public pv gm credential r = (res, gm') \<or> admit_relay pv gm credential r = (res, gm')"
  shows "case res of Inl e \<Rightarrow> released gm' (rq_request_id r) | Inr a \<Rightarrow> owns gm' (rq_request_id r) a"
proof -
  let ?gm = "received gm"
  have base: "sound (gm_state ?gm) R (Suc n)" "fresh (gm_state ?gm) (rq_request_id r)"
    using received_sound s new by auto
  have rejected: "case res of Inl e \<Rightarrow> released gm' (rq_request_id r) | Inr a \<Rightarrow> owns gm' (rq_request_id r) a"
    if "record_initial_failure (Inl e, ?gm) = (res, gm')" for e
    using base by (intro initial_failure [OF _ _ that]) auto
  have admitted: "case res of Inl e \<Rightarrow> released gm' (rq_request_id r) | Inr a \<Rightarrow> owns gm' (rq_request_id r) a"
    if "record_initial_failure (admit pv ?gm r holder) = (res, gm')" for holder
  proof -
    obtain first gm1 where a: "admit pv ?gm r holder = (first, gm1)" by force
    from admit_outcome [OF base d a] show ?thesis by (intro initial_failure [OF _ _ that]) (auto simp: a)
  qed
  from run show ?thesis
    using rejected admitted
    by (auto simp: admit_public_def admit_relay_def Let_def split: gateway_mode.splits sum.splits option.splits if_splits)
qed

section \<open>The client's output\<close>

text \<open>The committed writes of one attempt: nothing, or one head and then the body.\<close>

definition attempt_output :: "nat option \<Rightarrow> nat list \<Rightarrow> committed list" where
  "attempt_output status bodies =
     (case status of None \<Rightarrow> [] | Some s \<Rightarrow> CommittedHead s # map CommittedBody bodies)"

definition writer_ok :: "committed list \<Rightarrow> bounded_writer \<Rightarrow> bool" where
  "writer_ok out w \<longleftrightarrow>
     (\<exists>bodies. bw_output w = out @ attempt_output (bw_status_code w) bodies \<and>
        (bw_status_code w = None \<longrightarrow> bodies = []) \<and>
        sum_list bodies = bw_body_bytes w \<and> bw_body_bytes w \<le> MAX_RESPONSE_BODY_BYTES)"

lemma write_head_ok: "writer_ok out w \<Longrightarrow> writer_ok out (snd (write_head w head answer))"
  by (auto simp: writer_ok_def write_head_def attempt_output_def split: sum.splits option.splits)

lemma write_body_ok:
  assumes "writer_ok out w"
  shows "writer_ok out (snd (write_body w body answer observed))"
proof -
  from assms obtain bodies where b: "bw_output w = out @ attempt_output (bw_status_code w) bodies"
    "bw_status_code w = None \<longrightarrow> bodies = []" "sum_list bodies = bw_body_bytes w"
    "bw_body_bytes w \<le> MAX_RESPONSE_BODY_BYTES" by (auto simp: writer_ok_def)
  show ?thesis
  proof (cases "snd (write_body w body answer observed) = w")
    case False
    then obtain s where s: "bw_status_code w = Some s" "bw_body_bytes w + length body \<le> MAX_RESPONSE_BODY_BYTES"
      "bw_output (snd (write_body w body answer observed)) = bw_output w @ [CommittedBody (length body)]"
      "bw_body_bytes (snd (write_body w body answer observed)) = bw_body_bytes w + length body"
      "bw_status_code (snd (write_body w body answer observed)) = Some s"
      by (auto simp: write_body_def split: if_splits option.splits sum.splits)
    then show ?thesis
      using b unfolding writer_ok_def by (intro exI [of _ "bodies @ [length body]"]) (simp add: attempt_output_def)
  qed (simp add: assms)
qed

lemma run_attempt_ok: "run_attempt env k r request out = (w, outcome) \<Longrightarrow> writer_ok out w"
proof -
  assume r: "run_attempt env k r request out = (w, outcome)"
  have "writer_ok out (foldl emit w0 es)" if "writer_ok out w0" for w0 es
    using that
  proof (induction es arbitrary: w0)
    case (Cons e es)
    then show ?case by (cases e) (auto intro: write_head_ok write_body_ok)
  qed simp
  moreover have "writer_ok out (writer_new out)" by (simp add: writer_ok_def writer_new_def attempt_output_def)
  ultimately show ?thesis using r by (auto simp: run_attempt_def Let_def)
qed

definition client_output :: "gateway_request \<Rightarrow> gateway_error + execution_receipt \<Rightarrow> committed list \<Rightarrow> bool" where
  "client_output request res out \<longleftrightarrow>
     (\<exists>status bodies. out = attempt_output status bodies \<and> sum_list bodies \<le> MAX_RESPONSE_BODY_BYTES \<and>
        (\<forall>receipt. res = Inr receipt \<longrightarrow>
           status = Some (er_status_code receipt) \<and> sum_list bodies = er_response_body_bytes receipt \<and>
           validate_for (er_usage receipt) request = Inr () \<and>
           1 \<le> er_attempt_count receipt \<and> er_attempt_count receipt \<le> MAX_EXECUTION_ATTEMPTS))"

lemma not_started_output: "writer_ok out w \<Longrightarrow> \<not> has_started w \<Longrightarrow> bw_output w = out"
  by (auto simp: writer_ok_def has_started_def attempt_output_def)

lemma ended_output:
  assumes "writer_ok [] w" "res = Inl e"
  shows "client_output request res (bw_output w)"
proof -
  from assms(1) obtain bodies where "bw_output w = attempt_output (bw_status_code w) bodies"
    "sum_list bodies \<le> MAX_RESPONSE_BODY_BYTES" by (auto simp: writer_ok_def)
  then show ?thesis
    unfolding client_output_def assms(2) by (intro exI [of _ "bw_status_code w"] exI [of _ bodies]) simp
qed

lemma completed_output:
  assumes "writer_ok [] w" "attempt_ending request c w outcome = EndCompleted usage status"
    "1 \<le> c" "c \<le> MAX_EXECUTION_ATTEMPTS" "er_status_code receipt = status" "er_attempt_count receipt = c"
    "er_response_body_bytes receipt = bw_body_bytes w" "er_usage receipt = usage"
  shows "client_output (ch_request request) (Inr receipt) (bw_output w)"
proof -
  have "bw_status_code w = Some status" "validate_for usage (ch_request request) = Inr ()"
    using assms(2) by (auto simp: attempt_ending_def split: sum.splits option.splits if_splits)
  with assms show ?thesis by (auto simp: writer_ok_def client_output_def)
qed

lemma forward_output:
  assumes "forward env k gm admission request attempts [] = (res, gm', out')" "attempts < MAX_EXECUTION_ATTEMPTS"
  shows "client_output (ch_request request) res out'"
  using assms
proof (induction "MAX_EXECUTION_ATTEMPTS - attempts" arbitrary: k gm admission attempts rule: less_induct)
  case less
  from less.prems(1) show ?case
  proof (cases rule: forward_round)
    case (no_reservation e k1)
    then show ?thesis by (auto simp: client_output_def attempt_output_def intro!: exI [of _ None] exI [of _ "[]"])
  next
    case (failed r gm1 k1 w outcome res1 timing)
    with ended_output run_attempt_ok show ?thesis by blast
  next
    case (cancelled r gm1 k1 w outcome res1 timing)
    with ended_output run_attempt_ok show ?thesis by blast
  next
    case (completed r gm1 k1 w outcome usage status res1 timing)
    note ok = run_attempt_ok [OF completed(2)]
    show ?thesis
    proof (cases res1)
      case (Inl e)
      with completed ended_output [OF ok] show ?thesis by simp
    next
      case (Inr u)
      with completed less.prems(2) show ?thesis
        by (auto simp: MAX_EXECUTION_ATTEMPTS_def intro!: completed_output [OF ok completed(3)])
    qed
  next
    case (not_retried r gm1 k1 w outcome e)
    with ended_output run_attempt_ok show ?thesis by blast
  next
    case (retried r gm1 k1 w outcome admission1 gm3)
    have "bw_output w = []" using not_started_output run_attempt_ok retried(2,3) by blast
    with less.hyps [of "Suc attempts" "Suc (Suc (Suc k1))" gm3 admission1] retried(4,6) show ?thesis by auto
  qed
qed

lemma forward_entry:
  assumes "forward_public env gm credential request = (res, gm', out) \<or>
    forward_relay env gm credential request = (res, gm', out)"
  obtains first gm1 where
    "admit_public (ex_providers env 0) (ex_others env 0 gm) credential (ch_request request) = (first, gm1) \<or>
     admit_relay (ex_providers env 0) (ex_others env 0 gm) credential (ch_request request) = (first, gm1)"
    "(case first of Inl e \<Rightarrow> (Inl e, gm1, []) | Inr a \<Rightarrow> forward env 1 gm1 a request 0 []) = (res, gm', out)"
proof -
  obtain p gm1 where p: "admit_public (ex_providers env 0) (ex_others env 0 gm) credential (ch_request request) = (p, gm1)"
    by force
  obtain q gm2 where q: "admit_relay (ex_providers env 0) (ex_others env 0 gm) credential (ch_request request) = (q, gm2)"
    by force
  from assms show thesis
  proof
    assume "forward_public env gm credential request = (res, gm', out)"
    with p that [of p gm1] show thesis by (cases p) (simp_all add: forward_public_def)
  next
    assume "forward_relay env gm credential request = (res, gm', out)"
    with q that [of q gm2] show thesis by (cases q) (simp_all add: forward_relay_def)
  qed
qed

section \<open>Example values\<close>

text \<open>Admissions of other requests keep the accounts and leave this one alone.\<close>

lemma leaves_alone_id: "leaves_alone rid (\<lambda>gm. gm)"
  by (auto simp: leaves_alone_def)

lemma admitted_to_sound:
  "admitted_to res st R failed n \<Longrightarrow> \<forall>x. res \<noteq> Inr (Admitted x) \<Longrightarrow> \<exists>m. sound st R m"
  by (cases "(res, st, R, failed, n)" rule: admitted_to.cases) auto

lemma admit_leaves_alone:
  assumes "rid \<noteq> rq_request_id r" "0 < token_demand r"
  shows "leaves_alone rid (\<lambda>gm. snd (admit pv (received gm) r holder))"
  unfolding leaves_alone_def
proof (intro allI impI)
  fix gm :: gateway_manager and R n
  assume s: "sound (gm_state gm) R n"
  obtain res gm' where run: "admit pv (received gm) r holder = (res, gm')" by force
  have s1: "sound (gm_state (received gm)) R (Suc n)" by (rule received_sound(1) [OF s])
  obtain routes gm1 where c: "current_routes pv (received gm) (rq_model r) = (routes, gm1)" by force
  note st = current_routes_state [OF c]
  let ?same = "\<lambda>R'. filter (\<lambda>x. reservation_id x = rid) R' = filter (\<lambda>x. reservation_id x = rid) R"
  have "\<exists>R' n'. sound (gm_state gm') R' n' \<and> ?same R'"
  proof (cases "gm_state gm' = gm_state (received gm)")
    case True
    with s1 show ?thesis by metis
  next
    case False
    with run c st obtain now ok recent st' where a: "routes = Inr ok"
      "admit_section (gm_state gm1) r holder now ok recent = (res, st')" "gm_state gm' = st'"
      by (auto simp: admit_def Let_def split: sum.splits prod.splits)
    have after: "admitted_to res st' R (Suc n) n" using admit_section_sound [OF _ assms(2) a(2)] s1 st by simp
    show ?thesis
    proof (cases "\<exists>x. res = Inr (Admitted x)")
      case True
      then obtain x where x: "res = Inr (Admitted x)" by blast
      have "reservation_id x \<noteq> rid" using admit_section_admits a(2) x assms(1) by (auto simp: reservation_id_def)
      with after x a(3) show ?thesis by (intro exI [of _ "x # R"] exI [of _ n]) simp
    next
      case False
      with after have "\<exists>m. sound st' R m" by (intro admitted_to_sound) auto
      with a(3) show ?thesis by auto
    qed
  qed
  with run show "\<exists>R' n'. sound (gm_state (snd (admit pv (received gm) r holder))) R' n' \<and> ?same R'" by simp
qed

definition example_usage :: exact_usage where
  "example_usage = \<lparr>eu_input_tokens = 10, eu_output_tokens = 4, eu_cached_tokens = 0\<rparr>"

definition example_attempt :: attempt where
  "example_attempt =
     \<lparr>at_emissions = [EmitHead \<lparr>rh_status_code = 200, rh_headers = []\<rparr> (Inr ()),
                      EmitBody [123, 125] (Inr ()) (Some 200)],
      at_outcome = Inr example_usage\<rparr>"

definition example_env :: execution_env where
  "example_env =
     \<lparr>ex_providers = (\<lambda>_. example_providers),
      ex_others = (\<lambda>k gm. if k = 3 then snd (admit example_providers (received gm) example_second None) else gm),
      ex_forward = (\<lambda>_ _ _. example_attempt), ex_connected = (\<lambda>_. Inr True), ex_wait = (\<lambda>_ _. Inr ())\<rparr>"

definition example_chat :: chat_request where
  "example_chat = \<lparr>ch_request = example_request, ch_body = [123, 125]\<rparr>"

lemma example_env_alone: "leaves_alone ''r1'' (ex_others example_env k)"
proof (cases "k = 3")
  case True
  have "leaves_alone ''r1'' (\<lambda>gm. snd (admit example_providers (received gm) example_second None))"
    by (rule admit_leaves_alone) (simp_all add: example_second_def example_request_def token_demand_def)
  with True show ?thesis by (simp add: example_env_def)
next
  case False
  then show ?thesis using leaves_alone_id by (simp add: example_env_def)
qed

lemma complete_execution_succeeds:
  assumes "holding gm r"
    "completed_usage r (pv_now pv) (total_tokens (eu_input_tokens u) (eu_output_tokens u)) = Inr (Some v)"
    "pv_record pv v = Inr ()"
  shows "fst (complete_execution pv gm r u timing) = Inr (Some v)"
proof -
  from assms(1) obtain R n where R: "sound (gm_state gm) R n" "r \<in> set R" by (auto simp: holding_def)
  then obtain R1 R2 where "R = R1 @ r # R2" by (rule held_split)
  with R(1) take_reservation obtain st1 where "release_reservation (gm_state gm) r = (Inr (), st1)" by blast
  with assms(2,3) show ?thesis
    by (simp add: complete_execution_def complete_request_def complete_section_def Let_def)
qed

lemma example_public_admission:
  "\<exists>x gm'. admit_public example_providers example_manager ''token'' example_request = (Inr (Admitted x), gm') \<and>
     rs_request x = example_request \<and> rs_principal x = Some example_principal \<and> rs_received_at x = 200"
proof -
  obtain st where a: "accepts protection_state_default example_local_route (example_snapshot 5 100) 200 = (True, st)"
    using example_snapshot_accepted by blast
  have "current_routes example_providers (received example_manager) ''m'' =
      (Inr [example_local_route], (received example_manager)\<lparr>gm_protection := st\<rparr>)"
    by (simp add: current_routes_def judge_def example_providers_def example_manager_def child_route_ok_def
        relayed_def a received_def Let_def) (simp add: example_local_route_def example_route_def)
  then show ?thesis
    by (simp add: admit_public_def admit_def example_providers_def example_manager_def received_def
        record_initial_failure_def admit_section_def admit_route_def
        require_new_request_def Let_def select_route_def sort_by_def reserve_route_def out_of_cooldown_def
        route_active_def token_demand_def load_recent_usage_def admit_principal_def exceeds_def reaches_def
        used_tokens_def checked_add64_def u64_max_def example_manager_defs example_local_route_def)
qed

lemma example_env_providers: "ex_providers example_env k = example_providers"
  by (simp add: example_env_def)

lemma example_run: "run_attempt example_env k r request [] =
    (\<lparr>bw_status_code = Some 200, bw_body_bytes = 2, bw_first_body_at = Some 200,
      bw_output = [CommittedHead 200, CommittedBody 2]\<rparr>, Inr example_usage)"
  by (simp add: run_attempt_def example_env_def example_attempt_def writer_new_def write_head_def write_body_def
      checked_add64_def u64_max_def MAX_RESPONSE_BODY_BYTES_def Let_def)

lemma example_forwarded:
  "\<exists>receipt gm'. forward_public example_env example_manager ''token'' example_chat =
     (Inr receipt, gm', [CommittedHead 200, CommittedBody 2])"
proof -
  obtain x gm1 where x: "admit_public example_providers example_manager ''token'' example_request = (Inr (Admitted x), gm1)"
    "rs_request x = example_request" "rs_principal x = Some example_principal" "rs_received_at x = 200"
    using example_public_admission by blast
  have "sound (gm_state example_manager) [] 0" "fresh (gm_state example_manager) (rq_request_id example_request)"
    using sound_default by (simp_all add: example_manager_def fresh_def gateway_state_default_def)
  from entry_outcome [OF this _ disjI1 [OF x(1)]] have "holding gm1 x" "reservation_id x = ''r1''"
    by (auto simp: owns_def token_demand_def example_request_def)
  then have held: "holding (ex_others example_env (Suc (Suc 1)) gm1) x"
    using left_alone_holding example_env_alone by simp
  define w where "w = \<lparr>bw_status_code = Some 200, bw_body_bytes = 2, bw_first_body_at = Some 200,
    bw_output = [CommittedHead 200, CommittedBody 2]\<rparr>"
  obtain v where "completed_usage x (pv_now example_providers)
      (total_tokens (eu_input_tokens example_usage) (eu_output_tokens example_usage)) = Inr (Some v)"
    using x(3,4)
    by (simp add: completed_usage_def example_providers_def total_tokens_def example_usage_def checked_add64_def
        u64_max_def usage_new_def)
  moreover have "pv_record example_providers v = Inr ()" by (simp add: example_providers_def)
  ultimately obtain gm3 where finished: "complete_execution example_providers (ex_others example_env (Suc (Suc 1)) gm1) x
      example_usage (attempt_timing example_env 1 x w) = (Inr (Some v), gm3)"
    using complete_execution_succeeds [OF held] by (metis prod.collapse)
  have "attempt_ending example_chat (Suc 0) w (Inr example_usage) = EndCompleted example_usage 200"
    by (simp add: attempt_ending_def w_def validate_for_def example_usage_def example_chat_def example_request_def)
  then have "\<exists>receipt. forward example_env 1 gm1 (Admitted x) example_chat 0 [] = (Inr receipt, gm3, bw_output w)"
    using finished unfolding forward.simps [of example_env 1] reservation_of_def
    by (simp add: example_run [folded w_def] Let_def example_env_providers)
  then show ?thesis
    using x(1) by (auto simp: forward_public_def w_def example_chat_def example_env_def)
qed

section \<open>Properties\<close>

text \<open>
  C4: Forwarding one request returns and leaves nothing behind. Whatever the backends, the client, the
  queue waiter and the other requests do, as long as the clock answers and the others keep the accounts
  and leave this request's reservation alone: at the end, on every path, the accounts are exact and the
  request has neither a reservation nor a queue entry.
\<close>

theorem forward_leaves_nothing_behind:
  assumes "gateway_reachable (gm_state (ex_others env 0 gm), R, n)"
    "fresh (gm_state (ex_others env 0 gm)) (rq_request_id (ch_request request))"
    "0 < token_demand (ch_request request)"
    "\<forall>k. leaves_alone (rq_request_id (ch_request request)) (ex_others env k)"
    "\<forall>k. \<exists>now. pv_now (ex_providers env k) = Inr now"
    "forward_public env gm credential request = (res, gm', out) \<or>
     forward_relay env gm credential request = (res, gm', out)"
  shows "(\<exists>R' n'. sound (gm_state gm') R' n') \<and>
    map_of (g_active_requests (gm_state gm')) (rq_request_id (ch_request request)) = None \<and>
    map_of (g_queued (gm_state gm')) (rq_request_id (ch_request request)) = None"
proof -
  let ?rid = "rq_request_id (ch_request request)"
  from assms(6) obtain first gm1 where
    e: "admit_public (ex_providers env 0) (ex_others env 0 gm) credential (ch_request request) = (first, gm1) \<or>
      admit_relay (ex_providers env 0) (ex_others env 0 gm) credential (ch_request request) = (first, gm1)"
      "(case first of Inl e \<Rightarrow> (Inl e, gm1, []) | Inr a \<Rightarrow> forward env 1 gm1 a request 0 []) = (res, gm', out)"
    by (rule forward_entry)
  have entry: "case first of Inl e \<Rightarrow> released gm1 ?rid | Inr a \<Rightarrow> owns gm1 ?rid a"
    by (rule entry_outcome [OF reachable_sound [OF assms(1)] assms(2,3) e(1)])
  have "released gm' ?rid"
  proof (cases first)
    case (Inl x)
    with entry e(2) show ?thesis by simp
  next
    case (Inr a)
    with entry e(2) have "owns gm1 ?rid a" "forward env 1 gm1 a request 0 [] = (res, gm', out)" by auto
    from forward_releases [OF _ _ this] assms(4,5) show ?thesis by blast
  qed
  then show ?thesis by (simp add: released_def fresh_def)
qed

theorem forward_leaves_nothing_behind_witness:
  "\<exists>res gm' out. forward_public example_env example_manager ''token'' example_chat = (res, gm', out) \<and>
     map_of (g_active_requests (gm_state gm')) ''r1'' = None \<and> map_of (g_queued (gm_state gm')) ''r1'' = None"
proof -
  obtain res gm' out where f: "forward_public example_env example_manager ''token'' example_chat = (res, gm', out)"
    by (metis prod_cases3)
  have id: "rq_request_id (ch_request example_chat) = ''r1''" by (simp add: example_chat_def example_request_def)
  have start: "gateway_reachable (gm_state (ex_others example_env 0 example_manager), [], 0)"
    "fresh (gm_state (ex_others example_env 0 example_manager)) (rq_request_id (ch_request example_chat))"
    using gateway_reachable.Start
    by (simp_all add: example_env_def example_manager_def fresh_def gateway_state_default_def)
  have "0 < token_demand (ch_request example_chat)"
    by (simp add: example_chat_def example_request_def token_demand_def)
  moreover have "\<forall>k. leaves_alone (rq_request_id (ch_request example_chat)) (ex_others example_env k)"
    using example_env_alone id by simp
  moreover have "\<forall>k. \<exists>now. pv_now (ex_providers example_env k) = Inr now"
    by (simp add: example_env_def example_providers_def)
  ultimately show ?thesis
    using forward_leaves_nothing_behind [OF start _ _ _ disjI1 [OF f]] f id by auto
qed

text \<open>
  C23: The client sees the output of at most one attempt: nothing, or one response head followed by body
  fragments of at most 64 MiB in total. A receipt carries exactly that head's status and that body size,
  at most 64 attempts were made, and the charged usage fits the admitted request.
\<close>

theorem client_sees_one_attempt:
  assumes "forward_public env gm credential request = (res, gm', out) \<or>
    forward_relay env gm credential request = (res, gm', out)"
  shows "\<exists>status bodies. out = attempt_output status bodies \<and> sum_list bodies \<le> MAX_RESPONSE_BODY_BYTES \<and>
    (\<forall>receipt. res = Inr receipt \<longrightarrow>
       status = Some (er_status_code receipt) \<and> sum_list bodies = er_response_body_bytes receipt \<and>
       eu_input_tokens (er_usage receipt) = rq_context_tokens (ch_request request) \<and>
       eu_output_tokens (er_usage receipt) \<le> rq_maximum_output_tokens (ch_request request) \<and>
       1 \<le> er_attempt_count receipt \<and> er_attempt_count receipt \<le> 64)"
proof -
  from assms obtain first gm1 where
    "(case first of Inl e \<Rightarrow> (Inl e, gm1, []) | Inr a \<Rightarrow> forward env 1 gm1 a request 0 []) = (res, gm', out)"
    by (rule forward_entry)
  then have "client_output (ch_request request) res out"
    using forward_output [of env 1 gm1 _ request 0]
    by (cases first) (auto simp: MAX_EXECUTION_ATTEMPTS_def client_output_def attempt_output_def
        intro!: exI [of _ None] exI [of _ "[]"])
  then show ?thesis
    by (fastforce simp: client_output_def validate_for_def MAX_EXECUTION_ATTEMPTS_def split: if_splits)
qed

theorem client_sees_one_attempt_witness:
  "\<exists>receipt gm'. forward_public example_env example_manager ''token'' example_chat =
     (Inr receipt, gm', [CommittedHead 200, CommittedBody 2]) \<and>
     er_status_code receipt = 200 \<and> er_response_body_bytes receipt = 2"
proof -
  obtain receipt gm' where f: "forward_public example_env example_manager ''token'' example_chat =
      (Inr receipt, gm', [CommittedHead 200, CommittedBody 2])" using example_forwarded by blast
  from client_sees_one_attempt [OF disjI1 [OF f]] obtain status bodies where
    b: "[CommittedHead 200, CommittedBody 2] = attempt_output status bodies"
      "status = Some (er_status_code receipt)" "sum_list bodies = er_response_body_bytes receipt" by blast
  from b(1,2) have "er_status_code receipt = 200" "bodies = [2]" by (auto simp: attempt_output_def)
  with b(3) f show ?thesis by auto
qed

end
