(* ===== verification/WatchdogGateway.thy ===== *)
theory WatchdogGateway
  imports GatewayProtection GatewayTelemetry PrefixFormat WatchdogRecord
begin

text \<open>
  The Watchdog's reader of the Gateway telemetry file
  (\<open>core/watchdog/src/li_watchdog_gateway_telemetry.rs\<close>): the file checks, the parser of the
  telemetry-v2 text, freshness, sequence and restart judgement. Reading the file is a parameter. Shown
  here: the parser inverts the Gateway's \<open>payload\<close>, and in every interleaving of publications, restarts
  and samples the reader returns the record last written or refuses it as a regression.
\<close>

section \<open>Records and files\<close>

definition WATCHDOG_GATEWAY_TELEMETRY_MAX_BYTES :: nat where
  "WATCHDOG_GATEWAY_TELEMETRY_MAX_BYTES = 4096"
definition WATCHDOG_GATEWAY_TELEMETRY_MAX_AGE_MILLISECONDS :: nat where
  "WATCHDOG_GATEWAY_TELEMETRY_MAX_AGE_MILLISECONDS = 5000"
definition WATCHDOG_GATEWAY_TELEMETRY_FUTURE_TOLERANCE_MILLISECONDS :: nat where
  "WATCHDOG_GATEWAY_TELEMETRY_FUTURE_TOLERANCE_MILLISECONDS = 1000"
definition WATCHDOG_GATEWAY_TELEMETRY_FIELDS :: nat where "WATCHDOG_GATEWAY_TELEMETRY_FIELDS = 19"
definition WATCHDOG_SAMPLE_GATEWAY_AVAILABLE :: byte where "WATCHDOG_SAMPLE_GATEWAY_AVAILABLE = 8"

datatype 'a capability = Available 'a | Unsupported

record gateway_telemetry =
  wg_active_requests :: u32
  wg_connected_clients :: u32
  wg_queued_requests :: u32
  wg_counters :: "u64 list"

definition apply_telemetry :: "gateway_telemetry \<Rightarrow> sample_telemetry \<Rightarrow> sample_telemetry" where
  "apply_telemetry t s =
     (let c = wg_counters t in
      s\<lparr>active_requests := wg_active_requests t, connected_clients := wg_connected_clients t,
        queued_requests := wg_queued_requests t, requests_received := c ! 0,
        requests_admitted := c ! 1, requests_completed := c ! 2, requests_failed := c ! 3,
        requests_cancelled := c ! 4, requests_retried := c ! 5, input_tokens := c ! 6,
        output_tokens := c ! 7, cached_tokens := c ! 8, queue_milliseconds := c ! 9,
        ttft_milliseconds := c ! 10, decode_milliseconds := c ! 11,
        exact_token_requests := c ! 12, prefix_cache_hits := c ! 13,
        usage_records_dropped := c ! 14, usage_write_errors := c ! 15,
        flags := flags s OR WATCHDOG_SAMPLE_GATEWAY_AVAILABLE\<rparr>)"

definition telemetry_follows :: "gateway_telemetry \<Rightarrow> gateway_telemetry \<Rightarrow> bool" where
  "telemetry_follows t previous \<longleftrightarrow>
     list_all (\<lambda>(c, p). p \<le> c) (zip (wg_counters t) (wg_counters previous))"

record gateway_file =
  gf_bytes :: "byte list"
  gf_owner_user_id :: u32
  gf_mode :: u32
  gf_link_count :: nat
  gf_is_regular_file :: bool
  gf_is_stable :: bool
  gf_device_id :: nat
  gf_inode :: nat
  gf_modified :: nat

definition gateway_telemetry_error :: "string \<Rightarrow> watchdog_error" where
  "gateway_telemetry_error reason = watchdog_error.InvalidContract reason"

definition validate_gateway_file :: "gateway_file \<Rightarrow> u32 \<Rightarrow> watchdog_error + unit" where
  "validate_gateway_file f owner =
     ensure (\<not> (gf_bytes f = [] \<or> length (gf_bytes f) > WATCHDOG_GATEWAY_TELEMETRY_MAX_BYTES \<or>
                gf_owner_user_id f \<noteq> owner \<or> gf_mode f AND 63 \<noteq> 0 \<or> gf_link_count f \<noteq> 1 \<or>
                \<not> gf_is_regular_file f \<or> \<not> gf_is_stable f \<or> gf_device_id f = 0 \<or>
                gf_inode f = 0 \<or> gf_modified f = 0))
       (gateway_telemetry_error ''gateway telemetry file identity is unsafe'')"

section \<open>Parsing\<close>

text \<open>
  \<open>str::lines\<close> on bytes: a line ends at a line feed, which goes together with one carriage return
  before it; an empty rest is not a line. \<open>split_once\<close> splits at the first separator.
\<close>

definition strip_return :: "byte list \<Rightarrow> byte list" where
  "strip_return l = (if l \<noteq> [] \<and> last l = 13 then butlast l else l)"

definition lines_of :: "byte list \<Rightarrow> byte list list" where
  "lines_of source =
     (let parts = split_on 10 source
      in map strip_return (butlast parts) @ (if last parts = [] then [] else [last parts]))"

definition split_once :: "'a \<Rightarrow> 'a list \<Rightarrow> ('a list \<times> 'a list) option" where
  "split_once s xs =
     (if s \<in> set xs then Some (takeWhile (\<lambda>x. x \<noteq> s) xs, tl (dropWhile (\<lambda>x. x \<noteq> s) xs)) else None)"

type_synonym field_table = "(byte list \<times> byte list) list"

definition parse_line ::
  "byte list \<Rightarrow> bool \<times> field_table \<Rightarrow> watchdog_error + bool \<times> field_table" where
  "parse_line line acc =
     (case acc of (version, table) \<Rightarrow>
      (case split_once 61 line of
         None \<Rightarrow> Inl (gateway_telemetry_error ''gateway telemetry field is malformed'')
       | Some (name, value) \<Rightarrow>
           if value = [] \<or> 61 \<in> set value
           then Inl (gateway_telemetry_error ''gateway telemetry field is malformed'')
           else if name = ascii ''version''
           then if version \<or> value \<noteq> ascii ''2''
                then Inl (gateway_telemetry_error ''gateway telemetry version is invalid'')
                else Inr (True, table)
           else if map_of table name \<noteq> None
           then Inl (gateway_telemetry_error ''gateway telemetry field is duplicated'')
           else Inr (version, AList.update name value table)))"

fun parse_lines ::
  "byte list list \<Rightarrow> bool \<times> field_table \<Rightarrow> watchdog_error + bool \<times> field_table" where
  "parse_lines [] acc = Inr acc"
| "parse_lines (line # rest) acc = bind_result (parse_line line acc) (parse_lines rest)"

definition numeric_field :: "field_table \<Rightarrow> string \<Rightarrow> watchdog_error + nat" where
  "numeric_field table name =
     bind_result (of_option (gateway_telemetry_error ''gateway telemetry field is missing'')
       (map_of table (ascii name))) (\<lambda>value.
     bind_result (ensure (list_all is_ascii_digit value)
       (gateway_telemetry_error ''gateway telemetry value is invalid'')) (\<lambda>_.
     bind_result (ensure (value \<noteq> [] \<and> digits_value value \<le> u64_max)
       (gateway_telemetry_error ''gateway telemetry value is out of range'')) (\<lambda>_.
     Inr (digits_value value))))"

definition u32_value :: "field_table \<Rightarrow> string \<Rightarrow> watchdog_error + u32" where
  "u32_value table name =
     bind_result (numeric_field table name) (\<lambda>n.
     bind_result (ensure (n \<le> u32_max)
       (gateway_telemetry_error ''gateway telemetry value is out of range'')) (\<lambda>_.
     Inr (of_nat n)))"

definition counter_names :: "string list" where
  "counter_names =
     [''requests_received'', ''requests_admitted'', ''requests_completed'', ''requests_failed'',
      ''requests_cancelled'', ''requests_retried'', ''input_tokens'', ''output_tokens'',
      ''cached_tokens'', ''queue_milliseconds'', ''ttft_milliseconds'', ''decode_milliseconds'',
      ''exact_token_requests'', ''prefix_cache_hits'', ''usage_records_dropped'',
      ''usage_write_errors'']"

definition parse_gateway_telemetry :: "byte list \<Rightarrow> watchdog_error + gateway_telemetry" where
  "parse_gateway_telemetry source =
     bind_result (ensure (utf8_valid source)
       (gateway_telemetry_error ''gateway telemetry text is invalid'')) (\<lambda>_.
     bind_result (ensure (0 \<notin> set source)
       (gateway_telemetry_error ''gateway telemetry framing is invalid'')) (\<lambda>_.
     bind_result (parse_lines (lines_of source) (False, [])) (\<lambda>(version, table).
     bind_result (ensure (version \<and> length table = WATCHDOG_GATEWAY_TELEMETRY_FIELDS)
       (gateway_telemetry_error ''gateway telemetry record is incomplete'')) (\<lambda>_.
     bind_result (try_map (numeric_field table) counter_names) (\<lambda>counters.
     bind_result (u32_value table ''active_requests'') (\<lambda>active.
     bind_result (u32_value table ''connected_clients'') (\<lambda>connected.
     bind_result (u32_value table ''queued_requests'') (\<lambda>queued.
     Inr \<lparr>wg_active_requests = active, wg_connected_clients = connected,
          wg_queued_requests = queued, wg_counters = map of_nat counters\<rparr>))))))))"

section \<open>Sampling\<close>

record reader_state =
  rd_identity :: "nat \<times> nat"
  rd_modified :: nat
  rd_telemetry :: gateway_telemetry

definition file_identity :: "gateway_file \<Rightarrow> nat \<times> nat" where
  "file_identity f = (gf_device_id f, gf_inode f)"

definition file_is_fresh :: "gateway_file \<Rightarrow> nat \<Rightarrow> bool" where
  "file_is_fresh f now \<longleftrightarrow>
     \<not> (gf_modified f > saturating_add64 now WATCHDOG_GATEWAY_TELEMETRY_FUTURE_TOLERANCE_MILLISECONDS \<or>
        now - gf_modified f > WATCHDOG_GATEWAY_TELEMETRY_MAX_AGE_MILLISECONDS)"

definition sequence_regressed :: "reader_state option \<Rightarrow> gateway_file \<Rightarrow> gateway_telemetry \<Rightarrow> bool" where
  "sequence_regressed st f t =
     (case st of
        None \<Rightarrow> False
      | Some previous \<Rightarrow>
          file_identity f = rd_identity previous \<and>
          (gf_modified f < rd_modified previous \<or>
           gf_modified f = rd_modified previous \<and> t \<noteq> rd_telemetry previous \<or>
           \<not> telemetry_follows t (rd_telemetry previous)))"

definition sample_gateway ::
  "u32 \<Rightarrow> watchdog_error + gateway_file capability \<Rightarrow> nat \<Rightarrow> reader_state option \<Rightarrow>
   (watchdog_error + gateway_telemetry capability) \<times> reader_state option" where
  "sample_gateway owner read now st =
     (if now = 0 then (Inl (gateway_telemetry_error ''gateway telemetry clock is invalid''), st)
      else case read of
        Inl e \<Rightarrow> (Inl e, st)
      | Inr Unsupported \<Rightarrow> (Inr Unsupported, st)
      | Inr (Available f) \<Rightarrow>
          (case validate_gateway_file f owner of
             Inl e \<Rightarrow> (Inl e, st)
           | Inr _ \<Rightarrow>
               if \<not> file_is_fresh f now then (Inr Unsupported, st)
               else case parse_gateway_telemetry (gf_bytes f) of
                      Inl e \<Rightarrow> (Inl e, st)
                    | Inr t \<Rightarrow>
                        if sequence_regressed st f t
                        then (Inl (gateway_telemetry_error ''gateway telemetry sequence regressed''), st)
                        else (Inr (Available t),
                              Some \<lparr>rd_identity = file_identity f, rd_modified = gf_modified f,
                                    rd_telemetry = t\<rparr>)))"

section \<open>Names\<close>

text \<open>The field names consist of lower-case letters and underscores.\<close>

definition plain_name :: "string \<Rightarrow> bool" where
  "plain_name s \<longleftrightarrow> list_all (\<lambda>b. 95 \<le> b \<and> b \<le> 122) (ascii s)"

definition field_entry :: "string \<times> nat \<Rightarrow> byte list \<times> byte list" where
  "field_entry f = (ascii (fst f), decimal (snd f))"

lemma map_of_ascii: "map_of (map field_entry t) (ascii name) = map_option decimal (map_of t name)"
  by (induction t) (auto simp: field_entry_def)

section \<open>Reading the published text\<close>

lemma update_absent: "map_of t k = None \<Longrightarrow> AList.update k v t = t @ [(k, v)]"
  by (induction t) (auto split: if_splits)

lemma split_lines:
  "\<forall>l\<in>set ls. 10 \<notin> set l \<Longrightarrow> split_on 10 (concat (map (\<lambda>l. l @ [10]) ls)) = ls @ [[]]"
  by (induction ls) (auto simp: split_on_append)

lemma strip_return_other: "13 \<notin> set l \<Longrightarrow> strip_return l = l"
  by (metis last_in_set strip_return_def)

lemma lines_of_lines:
  "\<forall>l\<in>set ls. 10 \<notin> set l \<and> 13 \<notin> set l \<Longrightarrow> lines_of (concat (map (\<lambda>l. l @ [10]) ls)) = ls"
  by (auto simp: lines_of_def split_lines strip_return_other intro!: map_idI)

definition field_text :: "string \<times> nat \<Rightarrow> byte list" where
  "field_text f = ascii (fst f) @ 61 # decimal (snd f)"

lemma payload_lines:
  "payload r = concat (map (\<lambda>l. l @ [10]) (map field_text ((''version'', 2) # payload_fields r)))"
  by (simp add: payload_def field_line_def field_text_def case_prod_unfold comp_def)

lemma decimal_plain: "b \<in> set (decimal n) \<Longrightarrow> 48 \<le> b \<and> b \<le> 57"
  using decimal_digits [of n] by (auto simp: list_all_iff is_ascii_digit_def)

lemma name_plain: "plain_name s \<Longrightarrow> b \<in> set (ascii s) \<Longrightarrow> 95 \<le> b \<and> b \<le> 122"
  by (auto simp: plain_name_def list_all_iff)

lemma field_text_bytes:
  assumes "plain_name (fst f)" "b \<in> set (field_text f)"
  shows "48 \<le> b \<and> b \<le> 122"
proof -
  have "48 \<le> b \<and> b \<le> 57 \<or> 95 \<le> b \<and> b \<le> 122 \<or> b = 61"
    using assms by (auto simp: field_text_def dest: decimal_plain name_plain)
  then show ?thesis by (auto simp: word_le_nat_alt)
qed

lemma split_once_append: "s \<notin> set p \<Longrightarrow> split_once s (p @ s # xs) = Some (p, xs)"
  by (induction p) (auto simp: split_once_def split: if_splits)

lemma split_field:
  assumes "plain_name (fst f)"
  shows "split_once 61 (field_text f) = Some (ascii (fst f), decimal (snd f))"
proof -
  have "61 \<notin> set (ascii (fst f))" using name_plain [OF assms, of 61] by auto
  then show ?thesis by (simp add: field_text_def split_once_append)
qed

lemma parse_fields:
  assumes "\<forall>f\<in>set fs. plain_name (fst f) \<and> fst f \<noteq> ''version''" "distinct (map fst (fs0 @ fs))"
  shows "parse_lines (map field_text fs) (v, map field_entry fs0) = Inr (v, map field_entry (fs0 @ fs))"
  using assms
proof (induction fs arbitrary: fs0)
  case (Cons f fs)
  let ?t = "map field_entry fs0"
  have "map_of fs0 (fst f) = None" using Cons.prems(2) by (auto simp: map_of_eq_None_iff)
  then have absent: "map_of ?t (ascii (fst f)) = None" by (simp add: map_of_ascii)
  have "61 \<notin> set (decimal (snd f))" using decimal_plain [of 61 "snd f"] by auto
  then have "parse_line (field_text f) (v, ?t) = Inr (v, map field_entry (fs0 @ [f]))"
    using Cons.prems(1) absent decimal_digits [of "snd f"]
    by (simp add: parse_line_def split_field update_absent field_entry_def)
  then show ?case using Cons.IH [of "fs0 @ [f]"] Cons.prems by simp
qed simp

text \<open>The ranges of the record's fields: \<open>u32\<close> gauges and sixteen \<open>u64\<close> counters.\<close>

definition v2_ok :: "v2_record \<Rightarrow> bool" where
  "v2_ok r \<longleftrightarrow>
     v2_active_requests r \<le> u32_max \<and> v2_connected_clients r \<le> u32_max \<and>
     v2_queued_requests r \<le> u32_max \<and> length (v2_counters r) = 16 \<and>
     list_all (\<lambda>c. c \<le> u64_max) (v2_counters r)"

definition view :: "v2_record \<Rightarrow> gateway_telemetry" where
  "view r =
     \<lparr>wg_active_requests = of_nat (v2_active_requests r),
      wg_connected_clients = of_nat (v2_connected_clients r),
      wg_queued_requests = of_nat (v2_queued_requests r), wg_counters = map of_nat (v2_counters r)\<rparr>"

lemma payload_names:
  "\<forall>f\<in>set ((''version'', 2) # payload_fields r). plain_name (fst f)"
  "\<forall>f\<in>set (payload_fields r). fst f \<noteq> ''version''" "distinct (map fst (payload_fields r))"
  by (simp_all add: payload_fields_def Let_def plain_name_def ascii_def)

lemma utf8_ascii: "\<forall>b\<in>set bs. b \<le> 127 \<Longrightarrow> utf8_valid bs"
  by (induction bs) auto

lemma payload_bytes: "b \<in> set (payload r) \<Longrightarrow> b = 10 \<or> 48 \<le> b \<and> b \<le> 122"
proof -
  assume "b \<in> set (payload r)"
  then obtain f where f: "f \<in> set ((''version'', 2) # payload_fields r)" "b \<in> set (field_text f) \<or> b = 10"
    unfolding payload_lines by (auto split: if_splits)
  then have "plain_name (fst f)" using payload_names(1) by blast
  with f(2) field_text_bytes show ?thesis by blast
qed

lemma payload_text: "utf8_valid (payload r)" "0 \<notin> set (payload r)"
proof -
  have "b \<le> 127" if "b \<in> set (payload r)" for b
    using payload_bytes [OF that] by (auto simp: word_le_nat_alt)
  then show "utf8_valid (payload r)" by (simp add: utf8_ascii)
  show "0 \<notin> set (payload r)" using payload_bytes [of 0 r] by auto
qed

lemma parse_payload_lines:
  "parse_lines (lines_of (payload r)) (False, []) = Inr (True, map field_entry (payload_fields r))"
proof -
  let ?fs = "(''version'', 2) # payload_fields r"
  have "10 \<notin> set l \<and> 13 \<notin> set l" if "l \<in> set (map field_text ?fs)" for l
  proof -
    obtain f where f: "f \<in> set ?fs" "l = field_text f" using \<open>l \<in> set (map field_text ?fs)\<close> by auto
    then have "plain_name (fst f)" using payload_names(1) by blast
    from field_text_bytes [OF this, of 10] field_text_bytes [OF this, of 13] f(2) show ?thesis by auto
  qed
  then have lines: "lines_of (payload r) = field_text (''version'', 2) # map field_text (payload_fields r)"
    unfolding payload_lines by (subst lines_of_lines) auto
  have two: "decimal 2 = ascii ''2''" by (simp add: decimal.simps ascii_def)
  have "plain_name ''version''" using payload_names(1) [of r] by simp
  from split_field [of "(''version'', 2)"] this
  have "parse_line (field_text (''version'', 2)) (False, []) = Inr (True, [])"
    by (simp add: parse_line_def two) (simp add: ascii_def)
  then show ?thesis
    using parse_fields [of "payload_fields r" "[]" True] payload_names [of r] by (simp add: lines)
qed

lemma numeric_field_payload:
  "map_of fs name = Some n \<Longrightarrow> n \<le> u64_max \<Longrightarrow> numeric_field (map field_entry fs) name = Inr n"
  using decimal_digits [of n] by (simp add: numeric_field_def map_of_ascii digits_value_decimal)

lemma u32_value_payload:
  "map_of fs name = Some n \<Longrightarrow> n \<le> u32_max \<Longrightarrow> u32_value (map field_entry fs) name = Inr (of_nat n)"
  using numeric_field_payload [of fs name n]
  by (simp add: u32_value_def u32_max_def u64_max_def)

lemma payload_gauges:
  "map_of (payload_fields r) ''active_requests'' = Some (v2_active_requests r)"
  "map_of (payload_fields r) ''connected_clients'' = Some (v2_connected_clients r)"
  "map_of (payload_fields r) ''queued_requests'' = Some (v2_queued_requests r)"
  "length (payload_fields r) = 19"
  by (simp_all add: payload_fields_def Let_def)

lemma payload_counters:
  "map (map_of (payload_fields r)) counter_names = map (\<lambda>i. Some (v2_counters r ! i)) [0..<16]"
  by (simp add: counter_names_def payload_fields_def Let_def upt_rec) (simp add: numeral_eq_Suc)

lemma parse_payload:
  assumes "v2_ok r"
  shows "parse_gateway_telemetry (payload r) = Inr (view r)"
proof -
  let ?t = "map field_entry (payload_fields r)" and ?c = "v2_counters r"
  have len: "length ?c = 16" and range: "\<And>i. i < 16 \<Longrightarrow> ?c ! i \<le> u64_max"
    using assms by (auto simp: v2_ok_def list_all_length)
  have "try_map (numeric_field ?t) counter_names = Inr (map (\<lambda>name. the (map_of (payload_fields r) name)) counter_names)"
  proof (rule try_map_total)
    fix name assume "name \<in> set counter_names"
    then have "map_of (payload_fields r) name \<in> set (map (\<lambda>i. Some (?c ! i)) [0..<16])"
      unfolding payload_counters [symmetric] by simp
    then obtain i where "i < 16" "map_of (payload_fields r) name = Some (?c ! i)" by auto
    then show "numeric_field ?t name = Inr (the (map_of (payload_fields r) name))"
      using numeric_field_payload range by simp
  qed
  moreover have "map (\<lambda>name. the (map_of (payload_fields r) name)) counter_names = ?c"
  proof -
    have "map the (map (map_of (payload_fields r)) counter_names) = map (\<lambda>i. ?c ! i) [0..<16]"
      unfolding payload_counters by simp
    then show ?thesis using map_nth [of ?c] len by (simp add: comp_def)
  qed
  ultimately have "try_map (numeric_field ?t) counter_names = Inr ?c" by simp
  then show ?thesis
    using assms
    by (simp add: parse_gateway_telemetry_def payload_text parse_payload_lines payload_gauges
        u32_value_payload v2_ok_def view_def WATCHDOG_GATEWAY_TELEMETRY_FIELDS_def)
qed

lemma length_fields:
  "\<forall>f\<in>set fs. length (fst f) \<le> 21 \<and> snd f \<le> u64_max \<Longrightarrow>
   length (concat (map (\<lambda>l. l @ [10]) (map field_text fs))) \<le> 43 * length fs"
proof (induction fs)
  case (Cons f fs)
  then have "length (ascii (fst f)) \<le> 21" "length (decimal (snd f)) \<le> 20"
    using length_decimal_u64 [of "snd f"] by (simp_all add: ascii_def)
  with Cons show ?case by (simp add: field_text_def)
qed simp

lemma payload_fields_ok:
  assumes "v2_ok r" "f \<in> set (payload_fields r)"
  shows "length (fst f) \<le> 21 \<and> snd f \<le> u64_max"
proof -
  have "v2_counters r ! i \<le> u64_max" if "i < 16" for i
    using assms(1) that by (simp add: v2_ok_def list_all_length)
  moreover have "v2_active_requests r \<le> u64_max" "v2_connected_clients r \<le> u64_max" "v2_queued_requests r \<le> u64_max"
    using assms(1) by (simp_all add: v2_ok_def u32_max_def u64_max_def)
  ultimately show ?thesis using assms(2) by (auto simp: payload_fields_def Let_def)
qed

lemma payload_fits:
  assumes "v2_ok r"
  shows "length (payload r) \<le> 860 \<and> payload r \<noteq> []"
proof -
  have "length (payload r) \<le> 43 * length ((''version'', 2) # payload_fields r)"
    unfolding payload_lines
    using payload_fields_ok [OF assms] by (intro length_fields) (auto simp: u64_max_def)
  then show ?thesis by (simp add: payload_gauges payload_def field_line_def)
qed

section \<open>Publications, restarts and samples\<close>

text \<open>
  The Gateway's publisher, the file in place and the Watchdog's reader. \<open>ln_written\<close> is the record that the
  last replacement of the file put there. \<open>ln_file_current\<close> says that the running Gateway process has
  confirmed that publication, \<open>ln_reader_current\<close> that the reader's last accepted sample was of a
  publication which the running process had confirmed.
\<close>

record telemetry_link =
  ln_publisher :: "publisher_state option"
  ln_file :: "gateway_file option"
  ln_written :: "v2_record option"
  ln_reader :: "reader_state option"
  ln_file_current :: bool
  ln_reader_current :: bool

definition link_start :: telemetry_link where
  "link_start = \<lparr>ln_publisher = None, ln_file = None, ln_written = None, ln_reader = None,
     ln_file_current = False, ln_reader_current = False\<rparr>"

definition read_file :: "telemetry_link \<Rightarrow> watchdog_error + gateway_file capability" where
  "read_file l = Inr (case ln_file l of None \<Rightarrow> Unsupported | Some f \<Rightarrow> Available f)"

definition snapshot_in_range :: "telemetry_snapshot \<Rightarrow> runtime_counters \<Rightarrow> bool" where
  "snapshot_in_range s runtime \<longleftrightarrow>
     (let c = ts_counters s in
      list_all (\<lambda>n. n \<le> u64_max)
        [tc_requests_received c, tc_requests_admitted c, tc_requests_completed c,
         tc_requests_failed c, tc_requests_cancelled c, tc_requests_retried c,
         tc_input_tokens c, tc_output_tokens c, tc_cached_tokens c, tc_queue_milliseconds c,
         tc_ttft_milliseconds c, tc_decode_milliseconds c, tc_exact_token_requests c,
         tc_prefix_cache_hits c, rc_usage_records_dropped runtime, rc_usage_write_errors runtime] \<and>
      rc_connected_clients runtime \<le> u32_max)"

text \<open>
  A publication succeeds, fails before the file is replaced, or fails after it (the directory cannot be
  synchronised): the new file is then in place although the publisher keeps its old state. Nothing is assumed of
  the identity or the modification time of the new file. Either process may restart at any time.
\<close>

inductive link_step :: "u32 \<Rightarrow> telemetry_link \<Rightarrow> telemetry_link \<Rightarrow> bool" for owner where
  Publish: "publish_atomically (ln_publisher l) s (Inr runtime) identity replace = (Inr (gf_bytes f), publisher) \<Longrightarrow>
    snapshot_in_range s runtime \<Longrightarrow>
    link_step owner l (l\<lparr>ln_publisher := publisher, ln_file := Some f, ln_written := map_option pu_record publisher,
      ln_file_current := True\<rparr>)"
| Unconfirmed: "publish_atomically (ln_publisher l) s (Inr runtime) identity (\<lambda>_ _. Inr ()) = (Inr (gf_bytes f), Some p) \<Longrightarrow>
    publish_atomically (ln_publisher l) s (Inr runtime) identity replace = (Inl e, publisher) \<Longrightarrow>
    snapshot_in_range s runtime \<Longrightarrow>
    link_step owner l (l\<lparr>ln_publisher := publisher, ln_file := Some f, ln_written := Some (pu_record p),
      ln_file_current := False\<rparr>)"
| Failed: "publish_atomically (ln_publisher l) s runtime identity replace = (Inl e, publisher) \<Longrightarrow>
    link_step owner l (l\<lparr>ln_publisher := publisher\<rparr>)"
| GatewayRestart: "link_step owner l (l\<lparr>ln_publisher := None, ln_file_current := False, ln_reader_current := False\<rparr>)"
| Sample: "sample_gateway owner (read_file l) now (ln_reader l) = (res, reader) \<Longrightarrow>
    link_step owner l (l\<lparr>ln_reader := reader, ln_reader_current :=
      (case res of Inr (Available t) \<Rightarrow> ln_file_current l | _ \<Rightarrow> ln_reader_current l)\<rparr>)"
| WatchdogRestart: "link_step owner l (l\<lparr>ln_reader := None\<rparr>)"

inductive link_reachable :: "u32 \<Rightarrow> telemetry_link \<Rightarrow> bool" for owner where
  Start: "link_reachable owner link_start"
| Step: "link_reachable owner l \<Longrightarrow> link_step owner l l' \<Longrightarrow> link_reachable owner l'"

lemma from_snapshot_ok:
  "snapshot_in_range s runtime \<Longrightarrow> from_snapshot s runtime = Inr r \<Longrightarrow> v2_ok r"
  by (auto simp: from_snapshot_def Let_def result_simps v2_ok_def snapshot_in_range_def)

lemma publish_parts:
  assumes "publish_atomically st s (Inr runtime) identity replace = (Inr bytes, st')" "snapshot_in_range s runtime"
  shows "\<exists>r. v2_ok r \<and> bytes = payload r \<and> st' = Some \<lparr>pu_observed_at = ts_observed_at s, pu_record = r\<rparr> \<and>
    (\<forall>p. st = Some p \<longrightarrow> v2_follows r (pu_record p))"
  using assms from_snapshot_ok
  by (auto simp: publish_atomically_def split: sum.splits if_splits option.splits)

lemma follows_refl: "v2_follows r r"
  by (simp add: v2_follows_def counters_follow_def list_all_length)

lemma follows_trans:
  assumes "v2_ok r0" "v2_ok r1" "v2_ok r2" "v2_follows r1 r0" "v2_follows r2 r1"
  shows "v2_follows r2 r0"
  using assms by (fastforce simp: v2_follows_def counters_follow_def list_all_length v2_ok_def)

lemma of_nat_u64_mono: "a \<le> b \<Longrightarrow> b \<le> u64_max \<Longrightarrow> (of_nat a :: u64) \<le> of_nat b"
  by (simp add: word_le_nat_alt unat_of_nat u64_max_def)

lemma view_follows:
  assumes "v2_ok r0" "v2_ok r" "v2_follows r r0"
  shows "telemetry_follows (view r) (view r0)"
proof -
  have "(of_nat (v2_counters r0 ! i) :: u64) \<le> of_nat (v2_counters r ! i)" if "i < 16" for i
    using assms that
    by (intro of_nat_u64_mono) (auto simp: v2_follows_def counters_follow_def list_all_length v2_ok_def)
  then show ?thesis using assms by (simp add: telemetry_follows_def view_def list_all_length v2_ok_def)
qed

lemma publish_failed: "publish_atomically st s runtime identity replace = (Inl e, st') \<Longrightarrow> st' = st"
  by (auto simp: publish_atomically_def split: sum.splits if_splits option.splits)

text \<open>
  What a current reader remembers is not ahead of the publisher's record, which is not ahead of the file's.
\<close>

definition reader_ok :: "reader_state option \<Rightarrow> bool \<Rightarrow> publisher_state option \<Rightarrow> v2_record \<Rightarrow> bool" where
  "reader_ok reader current publisher r \<longleftrightarrow>
     (\<forall>q. reader = Some q \<longrightarrow>
        (\<exists>r0. v2_ok r0 \<and> rd_telemetry q = view r0 \<and>
           (current \<longrightarrow> v2_follows r r0 \<and> (\<exists>p. publisher = Some p \<and> v2_follows (pu_record p) r0))))"

definition link_ok :: "telemetry_link \<Rightarrow> bool" where
  "link_ok l \<longleftrightarrow>
     (\<forall>p. ln_publisher l = Some p \<longrightarrow> v2_ok (pu_record p)) \<and>
     (case ln_file l of
        None \<Rightarrow> ln_reader l = None
      | Some f \<Rightarrow> \<exists>r. ln_written l = Some r \<and> v2_ok r \<and> gf_bytes f = payload r \<and>
          (ln_file_current l \<longrightarrow> map_option pu_record (ln_publisher l) = Some r) \<and>
          reader_ok (ln_reader l) (ln_reader_current l) (ln_publisher l) r)"

lemma reader_ok_forgets: "reader_ok reader current publisher r \<Longrightarrow> reader_ok reader False publisher' r"
  by (auto simp: reader_ok_def)

lemma reader_ok_published:
  assumes "link_ok l" "v2_ok r" "\<And>p. ln_publisher l = Some p \<Longrightarrow> v2_follows r (pu_record p)"
    "publisher = ln_publisher l \<or> map_option pu_record publisher = Some r"
  shows "reader_ok (ln_reader l) (ln_reader_current l) publisher r"
  unfolding reader_ok_def
proof (intro allI impI)
  fix q assume q: "ln_reader l = Some q"
  with assms(1) obtain f r1 where "ln_file l = Some f" and r1: "reader_ok (Some q) (ln_reader_current l) (ln_publisher l) r1"
    by (cases "ln_file l") (auto simp: link_ok_def)
  then obtain r0 where r0: "v2_ok r0" "rd_telemetry q = view r0"
    "ln_reader_current l \<longrightarrow> (\<exists>p. ln_publisher l = Some p \<and> v2_follows (pu_record p) r0)"
    by (auto simp: reader_ok_def)
  have "v2_follows r r0 \<and> (\<exists>p. publisher = Some p \<and> v2_follows (pu_record p) r0)" if "ln_reader_current l"
  proof -
    from that r0(3) obtain p where p: "ln_publisher l = Some p" "v2_follows (pu_record p) r0" by blast
    with assms(1) have "v2_ok (pu_record p)" by (simp add: link_ok_def)
    then have "v2_follows r r0" using follows_trans [OF r0(1) _ assms(2) p(2)] assms(3) [OF p(1)] by blast
    with p assms(4) show ?thesis by auto
  qed
  with r0 show "\<exists>r0. v2_ok r0 \<and> rd_telemetry q = view r0 \<and>
      (ln_reader_current l \<longrightarrow> v2_follows r r0 \<and> (\<exists>p. publisher = Some p \<and> v2_follows (pu_record p) r0))"
    by blast
qed

lemma reader_accepts:
  assumes "reader_ok (Some q) True publisher r" "v2_ok r"
    "rd_modified q < gf_modified f \<or> rd_modified q = gf_modified f \<and> view r = rd_telemetry q"
  shows "\<not> sequence_regressed (Some q) f (view r)"
proof -
  from assms(1) obtain r0 where "v2_ok r0" "rd_telemetry q = view r0" "v2_follows r r0" by (auto simp: reader_ok_def)
  with view_follows assms(2) have "telemetry_follows (view r) (rd_telemetry q)" by simp
  with assms(3) show ?thesis by (auto simp: sequence_regressed_def)
qed

lemma sample_outcome:
  assumes "ln_file l = Some f" "v2_ok r" "gf_bytes f = payload r"
    "validate_gateway_file f owner = Inr ()" "file_is_fresh f now" "now \<noteq> 0"
  shows "sample_gateway owner (read_file l) now reader =
    (if sequence_regressed reader f (view r)
     then (Inl (gateway_telemetry_error ''gateway telemetry sequence regressed''), reader)
     else (Inr (Available (view r)),
           Some \<lparr>rd_identity = file_identity f, rd_modified = gf_modified f, rd_telemetry = view r\<rparr>))"
  using assms by (simp add: sample_gateway_def read_file_def parse_payload)

lemma sample_parts:
  assumes "sample_gateway owner (read_file l) now reader = (Inr (Available t), reader')"
  shows "\<exists>f. ln_file l = Some f \<and> parse_gateway_telemetry (gf_bytes f) = Inr t \<and>
    reader' = Some \<lparr>rd_identity = file_identity f, rd_modified = gf_modified f, rd_telemetry = t\<rparr>"
  using assms
  by (auto simp: sample_gateway_def read_file_def split: if_splits sum.splits option.splits)

lemma sample_refused:
  "sample_gateway owner read now reader = (res, reader') \<Longrightarrow> (\<And>t. res \<noteq> Inr (Available t)) \<Longrightarrow> reader' = reader"
  by (auto simp: sample_gateway_def split: if_splits sum.splits capability.splits)

lemma link_step_ok: "link_step owner l l' \<Longrightarrow> link_ok l \<Longrightarrow> link_ok l'"
proof (induction rule: link_step.induct)
  case (Publish l s runtime identity replace f publisher)
  from publish_parts [OF Publish(1,2)] obtain r where r: "v2_ok r" "gf_bytes f = payload r"
    "map_option pu_record publisher = Some r" "\<And>p. ln_publisher l = Some p \<Longrightarrow> v2_follows r (pu_record p)"
    by auto
  have "reader_ok (ln_reader l) (ln_reader_current l) publisher r"
    by (rule reader_ok_published [OF Publish(3) r(1)]) (simp_all add: r(3,4))
  with r show ?case by (auto simp: link_ok_def)
next
  case (Unconfirmed l s runtime identity f p replace e publisher)
  from publish_parts [OF Unconfirmed(1,3)] obtain r where r: "v2_ok r" "gf_bytes f = payload r"
    "pu_record p = r" "\<And>p. ln_publisher l = Some p \<Longrightarrow> v2_follows r (pu_record p)"
    by auto
  have same: "publisher = ln_publisher l" by (rule publish_failed [OF Unconfirmed(2)])
  have "reader_ok (ln_reader l) (ln_reader_current l) publisher r"
    by (rule reader_ok_published [OF Unconfirmed(4) r(1)]) (simp_all add: same r(4))
  with r same Unconfirmed(4) show ?case by (auto simp: link_ok_def)
next
  case (Failed l s runtime identity replace e publisher)
  with publish_failed [OF Failed(1)] show ?case by simp
next
  case (GatewayRestart l)
  then show ?case by (auto simp: link_ok_def intro: reader_ok_forgets split: option.splits)
next
  case (Sample l now res reader)
  show ?case
  proof (cases "\<exists>t. res = Inr (Available t)")
    case False
    then have "reader = ln_reader l" using sample_refused [OF Sample(1)] by blast
    with Sample(2) False show ?thesis by (auto split: sum.splits capability.splits)
  next
    case True
    then obtain t where t: "res = Inr (Available t)" by blast
    from sample_parts [OF Sample(1) [unfolded t]] obtain f where f: "ln_file l = Some f"
      "parse_gateway_telemetry (gf_bytes f) = Inr t"
      "reader = Some \<lparr>rd_identity = file_identity f, rd_modified = gf_modified f, rd_telemetry = t\<rparr>" by blast
    with Sample(2) obtain r where r: "ln_written l = Some r" "v2_ok r" "gf_bytes f = payload r"
      "ln_file_current l \<longrightarrow> map_option pu_record (ln_publisher l) = Some r"
      by (auto simp: link_ok_def)
    then have "t = view r" using f(2) parse_payload by auto
    then have "reader_ok reader (ln_file_current l) (ln_publisher l) r"
      using f(3) r follows_refl by (auto simp: reader_ok_def)
    with f(1) r t Sample(2) show ?thesis by (auto simp: link_ok_def)
  qed
next
  case (WatchdogRestart l)
  then show ?case by (auto simp: link_ok_def reader_ok_def split: option.splits)
qed

lemma link_reachable_ok: "link_reachable owner l \<Longrightarrow> link_ok l"
proof (induction rule: link_reachable.induct)
  case Start
  then show ?case by (simp add: link_start_def link_ok_def)
qed (rule link_step_ok)

text \<open>What a sample shows after the record is applied.\<close>

lemma applied_counters:
  assumes "v2_ok r"
  shows "let s = apply_telemetry (view r) smp in
    [requests_received s, requests_admitted s, requests_completed s, requests_failed s,
     requests_cancelled s, requests_retried s, input_tokens s, output_tokens s, cached_tokens s,
     queue_milliseconds s, ttft_milliseconds s, decode_milliseconds s, exact_token_requests s,
     prefix_cache_hits s, usage_records_dropped s, usage_write_errors s] = map of_nat (v2_counters r)"
proof -
  let ?c = "map of_nat (v2_counters r) :: u64 list"
  have "length ?c = 16" using assms by (simp add: v2_ok_def)
  then have "?c = map (\<lambda>i. ?c ! i) [0..<16]" using map_nth [of ?c] by simp
  also have "\<dots> = [?c ! 0, ?c ! 1, ?c ! 2, ?c ! 3, ?c ! 4, ?c ! 5, ?c ! 6, ?c ! 7, ?c ! 8, ?c ! 9,
      ?c ! 10, ?c ! 11, ?c ! 12, ?c ! 13, ?c ! 14, ?c ! 15]"
    by (simp add: upt_rec) (simp add: numeral_eq_Suc)
  finally show ?thesis by (simp add: apply_telemetry_def view_def Let_def)
qed

lemma applied_gauges:
  assumes "v2_ok r"
  shows "unat (active_requests (apply_telemetry (view r) smp)) = v2_active_requests r"
    "unat (connected_clients (apply_telemetry (view r) smp)) = v2_connected_clients r"
    "unat (queued_requests (apply_telemetry (view r) smp)) = v2_queued_requests r"
    "bit (flags (apply_telemetry (view r) smp)) 3"
  using assms
  by (simp_all add: apply_telemetry_def view_def Let_def v2_ok_def u32_max_def unat_of_nat
      WATCHDOG_SAMPLE_GATEWAY_AVAILABLE_def bit_simps)

section \<open>Example values\<close>

definition example_telemetry :: telemetry_snapshot where
  "example_telemetry =
     \<lparr>ts_observed_at = 900, ts_counters = telemetry_counters_default\<lparr>tc_requests_received := 7\<rparr>,
      ts_models = [], ts_placement_groups = []\<rparr>"

definition example_runtime :: runtime_counters where
  "example_runtime = \<lparr>rc_connected_clients = 3, rc_usage_records_dropped = 0, rc_usage_write_errors = 0\<rparr>"

definition example_record :: v2_record where
  "example_record = \<lparr>v2_active_requests = 0, v2_connected_clients = 3, v2_queued_requests = 0,
     v2_counters = [7, 0, 0, 0, 0, 0, 0, 0, 0, 0, 0, 0, 0, 0, 0, 0]\<rparr>"

definition example_file :: gateway_file where
  "example_file = \<lparr>gf_bytes = payload example_record, gf_owner_user_id = 0, gf_mode = 384, gf_link_count = 1,
     gf_is_regular_file = True, gf_is_stable = True, gf_device_id = 1, gf_inode = 42, gf_modified = 1000\<rparr>"

definition example_publisher :: publisher_state where
  "example_publisher = \<lparr>pu_observed_at = 900, pu_record = example_record\<rparr>"

definition example_link :: telemetry_link where
  "example_link = \<lparr>ln_publisher = Some example_publisher, ln_file = Some example_file,
     ln_written = Some example_record, ln_reader = None, ln_file_current = True, ln_reader_current = False\<rparr>"

lemma example_record_ok: "v2_ok example_record"
  by (simp add: v2_ok_def example_record_def u32_max_def u64_max_def list_all_iff)

lemma example_link_reachable: "link_reachable 0 example_link"
proof -
  have "from_snapshot example_telemetry example_runtime = Inr example_record"
    by (simp add: from_snapshot_def example_telemetry_def example_runtime_def example_record_def
        telemetry_counters_default_def Let_def u32_max_def)
  then have "publish_atomically None example_telemetry (Inr example_runtime) (Inr ''t'') (\<lambda>_ _. Inr ()) =
      (Inr (gf_bytes example_file), Some example_publisher)"
    using payload_fits [OF example_record_ok]
    by (simp add: publish_atomically_def TELEMETRY_V2_MAX_BYTES_def example_file_def example_publisher_def
        example_telemetry_def)
  moreover have "snapshot_in_range example_telemetry example_runtime"
    by (simp add: snapshot_in_range_def example_telemetry_def example_runtime_def
        telemetry_counters_default_def u64_max_def u32_max_def)
  ultimately have "link_step 0 link_start
      (link_start\<lparr>ln_publisher := Some example_publisher, ln_file := Some example_file,
        ln_written := map_option pu_record (Some example_publisher), ln_file_current := True\<rparr>)"
    by (intro link_step.Publish) (simp_all add: link_start_def)
  from link_reachable.Step [OF link_reachable.Start this] show ?thesis
    by (simp add: link_start_def example_link_def example_publisher_def)
qed

section \<open>Property\<close>

text \<open>
  C6: In every interleaving of publications (successful ones, ones that fail before the file is
  replaced and ones that fail after it), samples and restarts of either process, with any identities and
  modification times of the files, a fresh and safe telemetry file holds exactly the record that the last
  replacement put there, which is the publisher's own record when the running Gateway has confirmed it. A
  sample of it returns exactly that record, and applying it puts all nineteen values into the sample and
  sets the availability flag, unless the reader sees a regression, in which case the sample fails and the
  reader is unchanged. There is no regression when the file has another identity than the one the
  reader remembers, or when the reader's last sample was of a publication that the running Gateway had confirmed
  and the file is later than it, or of the same time and content.
\<close>

theorem published_telemetry_is_read:
  assumes "link_reachable owner l" "ln_file l = Some f" "validate_gateway_file f owner = Inr ()"
    "file_is_fresh f now" "now \<noteq> 0"
  shows "\<exists>r. ln_written l = Some r \<and> v2_ok r \<and> gf_bytes f = payload r \<and>
    (ln_file_current l \<longrightarrow> map_option pu_record (ln_publisher l) = Some r) \<and>
    sample_gateway owner (read_file l) now (ln_reader l) =
      (if sequence_regressed (ln_reader l) f (view r)
       then (Inl (gateway_telemetry_error ''gateway telemetry sequence regressed''), ln_reader l)
       else (Inr (Available (view r)),
             Some \<lparr>rd_identity = file_identity f, rd_modified = gf_modified f, rd_telemetry = view r\<rparr>)) \<and>
    (sequence_regressed (ln_reader l) f (view r) \<longrightarrow>
       (\<exists>q. ln_reader l = Some q \<and> file_identity f = rd_identity q \<and>
          (ln_reader_current l \<longrightarrow>
             gf_modified f < rd_modified q \<or> gf_modified f = rd_modified q \<and> view r \<noteq> rd_telemetry q))) \<and>
    (\<forall>smp. let s = apply_telemetry (view r) smp in
       [requests_received s, requests_admitted s, requests_completed s, requests_failed s,
        requests_cancelled s, requests_retried s, input_tokens s, output_tokens s, cached_tokens s,
        queue_milliseconds s, ttft_milliseconds s, decode_milliseconds s, exact_token_requests s,
        prefix_cache_hits s, usage_records_dropped s, usage_write_errors s] = map of_nat (v2_counters r) \<and>
       unat (active_requests s) = v2_active_requests r \<and> unat (connected_clients s) = v2_connected_clients r \<and>
       unat (queued_requests s) = v2_queued_requests r \<and> bit (flags s) 3)"
proof -
  from link_reachable_ok [OF assms(1)] assms(2) obtain r where r: "ln_written l = Some r" "v2_ok r" "gf_bytes f = payload r"
    "ln_file_current l \<longrightarrow> map_option pu_record (ln_publisher l) = Some r"
    "reader_ok (ln_reader l) (ln_reader_current l) (ln_publisher l) r"
    by (auto simp: link_ok_def)
  have "\<exists>q. ln_reader l = Some q \<and> file_identity f = rd_identity q \<and> (ln_reader_current l \<longrightarrow>
      gf_modified f < rd_modified q \<or> gf_modified f = rd_modified q \<and> view r \<noteq> rd_telemetry q)"
    if reg: "sequence_regressed (ln_reader l) f (view r)"
  proof -
    from reg obtain q where q: "ln_reader l = Some q" "file_identity f = rd_identity q"
      by (auto simp: sequence_regressed_def split: option.splits)
    with reader_accepts [of q "ln_publisher l" r f] r(2,5) reg show ?thesis by (intro exI [of _ q]) force
  qed
  with r sample_outcome [OF assms(2) r(2,3) assms(3-5)] applied_counters [OF r(2)] applied_gauges [OF r(2)]
  show ?thesis by (intro exI [of _ r]) (simp add: Let_def)
qed

theorem published_telemetry_is_read_witness:
  "link_reachable 0 example_link \<and>
   fst (sample_gateway 0 (read_file example_link) 2000 (ln_reader example_link))
     = Inr (Available (view example_record))"
proof -
  have v: "validate_gateway_file example_file 0 = Inr ()"
    using payload_fits [OF example_record_ok]
    by (simp add: validate_gateway_file_def example_file_def WATCHDOG_GATEWAY_TELEMETRY_MAX_BYTES_def)
  have "file_is_fresh example_file 2000"
    by (simp add: file_is_fresh_def example_file_def saturating_add64_def u64_max_def
        WATCHDOG_GATEWAY_TELEMETRY_FUTURE_TOLERANCE_MILLISECONDS_def
        WATCHDOG_GATEWAY_TELEMETRY_MAX_AGE_MILLISECONDS_def)
  from published_telemetry_is_read [OF example_link_reachable _ v this] example_link_reachable
  show ?thesis by (auto simp: example_link_def sequence_regressed_def)
qed

end
