(* ===== verification/Database.thy ===== *)
theory Database
  imports CoreText ByteCodec "HOL-Library.List_Lexorder" "HOL-Library.Char_ord"
begin

text \<open>
  The database (\<open>core/database/src\<close>): typed records with optimistic revisions, and a table of replay
  identities, behind one serialized writer. The two tables are association lists; each SQL statement
  of \<open>li_database_storage.rs\<close> is a function on them that fails when the engine does, or when a
  constraint of its schema is violated. A transaction that does not commit is rolled back. SHA-256,
  the JSON encoding, the clock and the failures of the engine are parameters.
\<close>

section \<open>Contract\<close>

datatype collection =
    Authentication | AuditCheckpoints | AuditEvents | AuditReplays | AuditState | Benchmarks
  | BenchmarkHandoffs | CommandAuditSessions | Configuration | Controllers
  | CoreUpdateServiceSnapshots | CoreUpdates | GatewayExposure | GatewayUsage
  | HardwareObservations | ModelLifecycles | RuntimeInstallations | Nodes | Operations | Outbox
  | Pairings | PairingReplays | PeerCredentials | Placements | Services

fun storage_name :: "collection \<Rightarrow> string" where
  "storage_name Authentication = ''authentication''"
| "storage_name AuditCheckpoints = ''audit_checkpoints''"
| "storage_name AuditEvents = ''audit_events''"
| "storage_name AuditReplays = ''audit_replays''"
| "storage_name AuditState = ''audit_state''"
| "storage_name Benchmarks = ''benchmarks''"
| "storage_name BenchmarkHandoffs = ''benchmark_handoffs''"
| "storage_name CommandAuditSessions = ''command_audit_sessions''"
| "storage_name Configuration = ''configuration''"
| "storage_name Controllers = ''controllers''"
| "storage_name CoreUpdateServiceSnapshots = ''core_update_service_snapshots''"
| "storage_name CoreUpdates = ''core_updates''"
| "storage_name GatewayExposure = ''gateway_exposure''"
| "storage_name GatewayUsage = ''gateway_usage''"
| "storage_name HardwareObservations = ''hardware_observations''"
| "storage_name ModelLifecycles = ''model_lifecycles''"
| "storage_name RuntimeInstallations = ''runtime_installations''"
| "storage_name Nodes = ''nodes''"
| "storage_name Operations = ''operations''"
| "storage_name Outbox = ''outbox''"
| "storage_name Pairings = ''pairings''"
| "storage_name PairingReplays = ''pairing_replays''"
| "storage_name PeerCredentials = ''peer_credentials''"
| "storage_name Placements = ''placements''"
| "storage_name Services = ''services''"

datatype db_revision = AnyRevision | Missing | Exact nat

datatype db_mutation = Created | Updated | Deleted

record db_commit =
  cm_key :: string
  cm_collection :: collection
  cm_identifier :: string
  cm_mutation :: db_mutation
  cm_revision :: nat
  cm_committed_at :: int

datatype disposition = Applied | Replayed

record db_event =
  ev_collection :: collection
  ev_identifier :: string
  ev_mutation :: db_mutation
  ev_revision :: nat
  ev_committed_at :: int

definition from_commit :: "db_commit \<Rightarrow> db_event" where
  "from_commit c = \<lparr>ev_collection = cm_collection c, ev_identifier = cm_identifier c,
     ev_mutation = cm_mutation c, ev_revision = cm_revision c, ev_committed_at = cm_committed_at c\<rparr>"

datatype db_error =
    NotFound collection string
  | Conflict collection string db_revision "nat option"
  | IdempotencyConflict string
  | InvalidInput string string
  | Corrupt string
  | Unavailable string
  | Closed

section \<open>Tables and the engine\<close>

text \<open>A row of \<open>li_database_records\<close> and one of \<open>li_database_idempotency\<close>, without their keys.\<close>

record db_row =
  row_version :: int
  row_revision :: int
  row_payload :: "byte list"
  row_created :: int
  row_updated :: int

record idempotency_row =
  ir_sha256 :: string
  ir_json :: "byte list"
  ir_committed_at :: int

type_synonym record_key = "collection \<times> string"
type_synonym record_table = "(record_key \<times> db_row) list"
type_synonym replay_table = "(string \<times> idempotency_row) list"

record database =
  db_records :: record_table
  db_replays :: replay_table
  db_events :: "db_event list"
  db_closed :: bool

datatype sqlite_code = DatabaseBusy | DatabaseLocked | DatabaseCorrupt | NotADatabase | OtherFailure

definition database_error :: "sqlite_code \<Rightarrow> db_error" where
  "database_error code =
     (case code of
        DatabaseBusy \<Rightarrow> Unavailable ''write lock did not become available before the busy timeout''
      | DatabaseLocked \<Rightarrow> Unavailable ''write lock did not become available before the busy timeout''
      | DatabaseCorrupt \<Rightarrow> Corrupt ''SQLite rejected the database structure''
      | NotADatabase \<Rightarrow> Corrupt ''SQLite rejected the database structure''
      | OtherFailure \<Rightarrow> Unavailable ''SQLite operation failed'')"

text \<open>
  The calls of the engine. \<open>io_fault\<close> says which of them fail during one operation; the clock is read
  at most once.
\<close>

datatype sql_call =
    OpenReader | SelectRecord record_key | SelectAll | SelectReplay | BeginTransaction
  | SelectState record_key | InsertRecord record_key | UpdateRecord record_key
  | DeleteRecord record_key | InsertReplay | CommitTransaction

record db_io =
  io_clock :: "db_error + int"
  io_fault :: "sql_call \<Rightarrow> sqlite_code option"

definition sql :: "db_io \<Rightarrow> sql_call \<Rightarrow> db_error + unit" where
  "sql io call = (case io_fault io call of None \<Rightarrow> Inr () | Some code \<Rightarrow> Inl (database_error code))"

text \<open>The primary keys and \<open>CHECK\<close> constraints of the two tables.\<close>

definition row_ok :: "db_row \<Rightarrow> bool" where
  "row_ok row \<longleftrightarrow> 0 < row_version row \<and> 0 < row_revision row \<and> 0 \<le> row_created row \<and> 0 \<le> row_updated row"

definition sql_insert_record :: "db_io \<Rightarrow> record_key \<Rightarrow> db_row \<Rightarrow> record_table \<Rightarrow> db_error + record_table" where
  "sql_insert_record io k row t =
     bind_result (sql io (InsertRecord k)) (\<lambda>_.
     if map_of t k \<noteq> None \<or> \<not> row_ok row then Inl (database_error OtherFailure) else Inr (t @ [(k, row)]))"

definition sql_update_record ::
  "db_io \<Rightarrow> record_key \<Rightarrow> int \<Rightarrow> byte list \<Rightarrow> int \<Rightarrow> int \<Rightarrow> record_table \<Rightarrow> db_error + nat \<times> record_table" where
  "sql_update_record io k revision payload updated prior t =
     bind_result (sql io (UpdateRecord k)) (\<lambda>_.
     case map_of t k of
       Some row \<Rightarrow>
         if row_revision row \<noteq> prior then Inr (0, t)
         else let row' = row\<lparr>row_revision := revision, row_payload := payload, row_updated := updated\<rparr> in
              if row_ok row' then Inr (1, AList.update k row' t) else Inl (database_error OtherFailure)
     | None \<Rightarrow> Inr (0, t))"

definition sql_delete_record :: "db_io \<Rightarrow> record_key \<Rightarrow> int \<Rightarrow> record_table \<Rightarrow> db_error + nat \<times> record_table" where
  "sql_delete_record io k revision t =
     bind_result (sql io (DeleteRecord k)) (\<lambda>_.
     case map_of t k of
       Some row \<Rightarrow> if row_revision row = revision then Inr (1, AList.delete k t) else Inr (0, t)
     | None \<Rightarrow> Inr (0, t))"

definition sql_insert_replay :: "db_io \<Rightarrow> string \<Rightarrow> idempotency_row \<Rightarrow> replay_table \<Rightarrow> db_error + replay_table" where
  "sql_insert_replay io key row t =
     bind_result (sql io InsertReplay) (\<lambda>_.
     if map_of t key \<noteq> None \<or> ir_committed_at row < 0 then Inl (database_error OtherFailure)
     else Inr (t @ [(key, row)]))"

section \<open>Prepared commands\<close>

datatype prepared_command =
    Save (pc_collection: collection) (pc_version: nat) (pc_identifier: string) (pc_payload: "byte list")
      (pc_key: string) (pc_expected: db_revision)
  | Delete (pc_collection: collection) (pc_version: nat) (pc_identifier: string)
      (pc_key: string) (pc_expected: db_revision)

abbreviation target :: "prepared_command \<Rightarrow> record_key" where
  "target c \<equiv> (pc_collection c, pc_identifier c)"

record codec =
  sha256 :: "byte list \<Rightarrow> byte list"
  commit_to_json :: "db_commit \<Rightarrow> byte list option"
  commit_from_json :: "byte list \<Rightarrow> db_commit option"
  commits_to_json :: "db_commit list \<Rightarrow> byte list option"
  commits_from_json :: "byte list \<Rightarrow> db_commit list option"

definition update_digest_field :: "byte list \<Rightarrow> byte list" where
  "update_digest_field value = rev (to_le 8 (of_nat (length value) :: u64)) @ value"

definition revision_bytes :: "db_revision \<Rightarrow> string" where
  "revision_bytes r =
     (case r of AnyRevision \<Rightarrow> ''any'' | Missing \<Rightarrow> ''missing'' | Exact n \<Rightarrow> ''exact:'' @ decimal_text n)"

definition digest_fields :: "prepared_command \<Rightarrow> byte list list" where
  "digest_fields c =
     [ascii (case c of Save _ _ _ _ _ _ \<Rightarrow> ''save'' | Delete _ _ _ _ _ \<Rightarrow> ''delete''),
      ascii (storage_name (pc_collection c)), rev (to_le 4 (of_nat (pc_version c) :: u32)),
      ascii (pc_identifier c), ascii (revision_bytes (pc_expected c))]
     @ (case c of Save _ _ _ payload _ _ \<Rightarrow> [payload] | Delete _ _ _ _ _ \<Rightarrow> [])"

definition digest_input :: "prepared_command \<Rightarrow> byte list" where
  "digest_input c = concat (map update_digest_field (digest_fields c))"

definition command_digest :: "codec \<Rightarrow> prepared_command \<Rightarrow> string" where
  "command_digest cd c = hexadecimal (sha256 cd (digest_input c))"

definition transaction_digest :: "codec \<Rightarrow> prepared_command list \<Rightarrow> string" where
  "transaction_digest cd cs =
     hexadecimal (sha256 cd (concat (map update_digest_field
       ([ascii ''transaction'', rev (to_le 8 (of_nat (length cs) :: u64))]
        @ map (\<lambda>c. ascii (command_digest cd c)) cs))))"

definition validate_identifier :: "string \<Rightarrow> db_error + unit" where
  "validate_identifier s =
     (if s = [] \<or> length s > 255
      then Inl (InvalidInput ''identifier'' ''identifier must contain between 1 and 255 bytes'')
      else if \<not> is_trimmed s \<or> list_ex is_control (chars s)
      then Inl (InvalidInput ''identifier'' ''identifier must be canonical and contain no control characters'')
      else Inr ())"

definition validate_idempotency_key :: "string \<Rightarrow> db_error + unit" where
  "validate_idempotency_key s =
     (if s = [] \<or> length s > 255
      then Inl (InvalidInput ''idempotency key'' ''key must contain between 1 and 255 bytes'')
      else if \<not> is_trimmed s \<or> list_ex is_control (chars s)
      then Inl (InvalidInput ''idempotency key'' ''key must be canonical and contain no control characters'')
      else Inr ())"

text \<open>The \<open>DatabaseRecord\<close> trait: the collection and version of a record type and its JSON form.\<close>

record 'a record_type =
  rt_collection :: collection
  rt_version :: nat
  rt_identifier :: "'a \<Rightarrow> string"
  rt_to_json :: "'a \<Rightarrow> byte list option"
  rt_from_json :: "byte list \<Rightarrow> 'a option"

definition prepare_save :: "'a record_type \<Rightarrow> string \<Rightarrow> 'a \<Rightarrow> db_revision \<Rightarrow> db_error + prepared_command" where
  "prepare_save rt key v expected =
     bind_result (ensure (rt_version rt \<noteq> 0)
       (InvalidInput ''record version'' ''version must be greater than zero'')) (\<lambda>_.
     bind_result (validate_identifier (rt_identifier rt v)) (\<lambda>_.
     bind_result (validate_idempotency_key key) (\<lambda>_.
     bind_result (of_option (InvalidInput ''record'' ''record could not be encoded'') (rt_to_json rt v)) (\<lambda>payload.
     bind_result (ensure (length payload \<le> 1024 * 1024)
       (InvalidInput ''record'' ''encoded record exceeds the size limit'')) (\<lambda>_.
     Inr (Save (rt_collection rt) (rt_version rt) (rt_identifier rt v) payload key expected))))))"

definition prepare_delete :: "'a record_type \<Rightarrow> string \<Rightarrow> string \<Rightarrow> db_revision \<Rightarrow> db_error + prepared_command" where
  "prepare_delete rt key identifier expected =
     bind_result (ensure (rt_version rt \<noteq> 0)
       (InvalidInput ''record version'' ''version must be greater than zero'')) (\<lambda>_.
     bind_result (validate_identifier identifier) (\<lambda>_.
     bind_result (validate_idempotency_key key) (\<lambda>_.
     Inr (Delete (rt_collection rt) (rt_version rt) identifier key expected))))"

section \<open>Mutations\<close>

definition revision_to_sql :: "nat \<Rightarrow> db_error + int" where
  "revision_to_sql revision =
     (if revision = 0 then Inl (InvalidInput ''revision'' ''revision must be greater than zero'')
      else if revision > 2 ^ 63 - 1
      then Inl (InvalidInput ''revision'' ''revision exceeds the SQLite integer range'')
      else Inr (int revision))"

definition revision_from_sql :: "int \<Rightarrow> db_error + nat" where
  "revision_from_sql revision =
     (if revision \<le> 0 then Inl (Corrupt ''stored record revision is invalid'') else Inr (nat revision))"

definition valid_timestamp :: "int \<Rightarrow> db_error + int" where
  "valid_timestamp t = (if t < 0 then Inl (Corrupt ''stored record timestamp is invalid'') else Inr t)"

definition record_state :: "db_io \<Rightarrow> record_key \<Rightarrow> record_table \<Rightarrow> db_error + (nat \<times> int \<times> int \<times> nat) option" where
  "record_state io k t =
     bind_result (sql io (SelectState k)) (\<lambda>_.
     case map_of t k of
       None \<Rightarrow> Inr None
     | Some row \<Rightarrow>
         bind_result (revision_from_sql (row_revision row)) (\<lambda>revision.
         bind_result (valid_timestamp (row_created row)) (\<lambda>created.
         bind_result (valid_timestamp (row_updated row)) (\<lambda>updated.
         if row_version row < 0 \<or> row_version row > int u32_max
         then Inl (Corrupt ''stored record version is invalid'')
         else Inr (Some (revision, created, updated, nat (row_version row)))))))"

definition revision_matches :: "db_revision \<Rightarrow> nat option \<Rightarrow> bool" where
  "revision_matches expected observed =
     (case expected of AnyRevision \<Rightarrow> True | Missing \<Rightarrow> observed = None | Exact r \<Rightarrow> observed = Some r)"

definition require_revision :: "record_key \<Rightarrow> db_revision \<Rightarrow> nat option \<Rightarrow> db_error + unit" where
  "require_revision k expected observed =
     ensure (revision_matches expected observed) (Conflict (fst k) (snd k) expected observed)"

text \<open>The answer when a guarded statement changed no row.\<close>

definition unchanged_conflict :: "db_io \<Rightarrow> record_key \<Rightarrow> nat \<Rightarrow> record_table \<Rightarrow> db_error" where
  "unchanged_conflict io k revision t =
     (case record_state io k t of
        Inl e \<Rightarrow> e
      | Inr state \<Rightarrow> Conflict (fst k) (snd k) (Exact revision) (map_option fst state))"

definition save_record ::
  "db_io \<Rightarrow> record_key \<Rightarrow> nat \<Rightarrow> byte list \<Rightarrow> string \<Rightarrow> db_revision \<Rightarrow> int \<Rightarrow> record_table
   \<Rightarrow> db_error + db_commit \<times> record_table" where
  "save_record io k version payload key expected observed_at t =
     bind_result (record_state io k t) (\<lambda>existing.
     bind_result (require_revision k expected (map_option fst existing)) (\<lambda>_.
     case existing of
       Some (revision, created, updated, existing_version) \<Rightarrow>
         if existing_version \<noteq> version
         then Inl (Corrupt ''stored record version does not match its typed contract'')
         else
           bind_result (of_option (Corrupt ''record revision overflowed'') (checked_add64 revision 1)) (\<lambda>next.
           bind_result (revision_to_sql next) (\<lambda>sql_next.
           bind_result (revision_to_sql (next - 1)) (\<lambda>sql_prior.
           bind_result (sql_update_record io k sql_next payload (max observed_at updated) sql_prior t) (\<lambda>(changed, t').
           if changed \<noteq> 1 then Inl (unchanged_conflict io k (next - 1) t')
           else Inr (\<lparr>cm_key = key, cm_collection = fst k, cm_identifier = snd k, cm_mutation = Updated,
                      cm_revision = next, cm_committed_at = max observed_at updated\<rparr>, t')))))
     | None \<Rightarrow>
         bind_result (revision_to_sql 1) (\<lambda>sql_revision.
         bind_result (sql_insert_record io k \<lparr>row_version = int version, row_revision = sql_revision,
             row_payload = payload, row_created = observed_at, row_updated = observed_at\<rparr> t) (\<lambda>t'.
         Inr (\<lparr>cm_key = key, cm_collection = fst k, cm_identifier = snd k, cm_mutation = Created,
               cm_revision = 1, cm_committed_at = observed_at\<rparr>, t')))))"

definition delete_record ::
  "db_io \<Rightarrow> record_key \<Rightarrow> nat \<Rightarrow> string \<Rightarrow> db_revision \<Rightarrow> int \<Rightarrow> record_table
   \<Rightarrow> db_error + db_commit \<times> record_table" where
  "delete_record io k version key expected observed_at t =
     bind_result (record_state io k t) (\<lambda>existing.
     case existing of
       None \<Rightarrow> Inl (NotFound (fst k) (snd k))
     | Some (revision, created, updated, existing_version) \<Rightarrow>
         if existing_version \<noteq> version
         then Inl (Corrupt ''stored record version does not match its typed contract'')
         else
           bind_result (require_revision k expected (Some revision)) (\<lambda>_.
           bind_result (revision_to_sql revision) (\<lambda>sql_revision.
           bind_result (sql_delete_record io k sql_revision t) (\<lambda>(changed, t').
           if changed \<noteq> 1 then Inl (unchanged_conflict io k revision t')
           else
             bind_result (of_option (Corrupt ''record revision overflowed'') (checked_add64 revision 1)) (\<lambda>next.
             Inr (\<lparr>cm_key = key, cm_collection = fst k, cm_identifier = snd k, cm_mutation = Deleted,
                   cm_revision = next, cm_committed_at = max observed_at updated\<rparr>, t'))))))"

definition apply_command :: "db_io \<Rightarrow> prepared_command \<Rightarrow> int \<Rightarrow> record_table \<Rightarrow> db_error + db_commit \<times> record_table" where
  "apply_command io c observed_at t =
     (case c of
        Save col version identifier payload key expected \<Rightarrow>
          save_record io (col, identifier) version payload key expected observed_at t
      | Delete col version identifier key expected \<Rightarrow>
          delete_record io (col, identifier) version key expected observed_at t)"

fun apply_commands ::
  "db_io \<Rightarrow> prepared_command list \<Rightarrow> int \<Rightarrow> record_table \<Rightarrow> db_error + db_commit list \<times> record_table" where
  "apply_commands io [] observed_at t = Inr ([], t)"
| "apply_commands io (c # cs) observed_at t =
     bind_result (apply_command io c observed_at t) (\<lambda>(commit, t').
     bind_result (apply_commands io cs observed_at t') (\<lambda>(commits, t'').
     Inr (commit # commits, t'')))"

section \<open>Execution\<close>

definition idempotent_value :: "db_io \<Rightarrow> string \<Rightarrow> database \<Rightarrow> db_error + (string \<times> byte list) option" where
  "idempotent_value io key db =
     bind_result (sql io SelectReplay) (\<lambda>_.
     Inr (map_option (\<lambda>row. (ir_sha256 row, ir_json row)) (map_of (db_replays db) key)))"

definition commit_clock :: "db_io \<Rightarrow> db_error + int" where
  "commit_clock io =
     bind_result (io_clock io) (\<lambda>now.
     bind_result (ensure (\<not> now < 0) (Unavailable ''commit clock returned a negative timestamp'')) (\<lambda>_. Inr now))"

definition store_idempotent_commit ::
  "codec \<Rightarrow> db_io \<Rightarrow> string \<Rightarrow> string \<Rightarrow> db_commit \<Rightarrow> replay_table \<Rightarrow> db_error + replay_table" where
  "store_idempotent_commit cd io key digest commit t =
     bind_result (of_option (Unavailable ''commit result could not be encoded'') (commit_to_json cd commit)) (\<lambda>json.
     sql_insert_replay io key \<lparr>ir_sha256 = digest, ir_json = json, ir_committed_at = cm_committed_at commit\<rparr> t)"

definition store_idempotent_transaction ::
  "codec \<Rightarrow> db_io \<Rightarrow> string \<Rightarrow> string \<Rightarrow> db_commit list \<Rightarrow> replay_table \<Rightarrow> db_error + replay_table" where
  "store_idempotent_transaction cd io key digest commits t =
     bind_result (of_option (Unavailable ''transaction result could not be encoded'') (commits_to_json cd commits)) (\<lambda>json.
     if commits = [] then Inl (Corrupt ''transaction result is empty'')
     else sql_insert_replay io key \<lparr>ir_sha256 = digest, ir_json = json,
            ir_committed_at = Max (set (map cm_committed_at commits))\<rparr> t)"

definition execute_command :: "codec \<Rightarrow> db_io \<Rightarrow> prepared_command \<Rightarrow> database \<Rightarrow> (db_error + db_commit \<times> bool) \<times> database" where
  "execute_command cd io c db =
     (let digest = command_digest cd c in
      case bind_result (idempotent_value io (pc_key c) db) (\<lambda>found.
             case found of
               Some (stored_digest, value) \<Rightarrow>
                 if stored_digest = digest
                 then bind_result (of_option (Corrupt ''stored idempotency result is invalid'') (commit_from_json cd value))
                        (\<lambda>commit. Inr ((commit, False), db))
                 else Inl (IdempotencyConflict (pc_key c))
             | None \<Rightarrow>
                 bind_result (commit_clock io) (\<lambda>observed_at.
                 bind_result (sql io BeginTransaction) (\<lambda>_.
                 bind_result (apply_command io c observed_at (db_records db)) (\<lambda>(commit, records).
                 bind_result (store_idempotent_commit cd io (pc_key c) digest commit (db_replays db)) (\<lambda>replays.
                 bind_result (sql io CommitTransaction) (\<lambda>_.
                 Inr ((commit, True), db\<lparr>db_records := records, db_replays := replays\<rparr>)))))))
      of Inl e \<Rightarrow> (Inl e, db) | Inr (r, db') \<Rightarrow> (Inr r, db'))"

definition execute_transaction ::
  "codec \<Rightarrow> db_io \<Rightarrow> string \<Rightarrow> prepared_command list \<Rightarrow> database \<Rightarrow> (db_error + db_commit list \<times> bool) \<times> database" where
  "execute_transaction cd io key cs db =
     (if cs = [] then (Inl (InvalidInput ''transaction'' ''transaction must contain at least one mutation''), db)
      else if list_ex (\<lambda>c. pc_key c \<noteq> key) cs
      then (Inl (Corrupt ''transaction mutation has a different replay identity''), db)
      else
      let digest = transaction_digest cd cs in
      case bind_result (idempotent_value io key db) (\<lambda>found.
             case found of
               Some (stored_digest, value) \<Rightarrow>
                 if stored_digest = digest
                 then bind_result (of_option (Corrupt ''stored transaction result is invalid'') (commits_from_json cd value))
                        (\<lambda>commits. Inr ((commits, False), db))
                 else Inl (IdempotencyConflict key)
             | None \<Rightarrow>
                 bind_result (commit_clock io) (\<lambda>observed_at.
                 bind_result (sql io BeginTransaction) (\<lambda>_.
                 bind_result (apply_commands io cs observed_at (db_records db)) (\<lambda>(commits, records).
                 bind_result (store_idempotent_transaction cd io key digest commits (db_replays db)) (\<lambda>replays.
                 bind_result (sql io CommitTransaction) (\<lambda>_.
                 Inr ((commits, True), db\<lparr>db_records := records, db_replays := replays\<rparr>)))))))
      of Inl e \<Rightarrow> (Inl e, db) | Inr (r, db') \<Rightarrow> (Inr r, db'))"

text \<open>The writer thread executes one message and announces its new commits.\<close>

definition disposition_of :: "bool \<Rightarrow> disposition" where
  "disposition_of is_new = (if is_new then Applied else Replayed)"

definition run_command :: "codec \<Rightarrow> db_io \<Rightarrow> prepared_command \<Rightarrow> database \<Rightarrow> (db_error + db_commit \<times> disposition) \<times> database" where
  "run_command cd io c db =
     (case execute_command cd io c db of
        (Inl e, db') \<Rightarrow> (Inl e, db')
      | (Inr (commit, is_new), db') \<Rightarrow>
          (Inr (commit, disposition_of is_new),
           if is_new then db'\<lparr>db_events := db_events db' @ [from_commit commit]\<rparr> else db'))"

definition run_transaction ::
  "codec \<Rightarrow> db_io \<Rightarrow> string \<Rightarrow> prepared_command list \<Rightarrow> database \<Rightarrow> (db_error + db_commit list \<times> disposition) \<times> database" where
  "run_transaction cd io key cs db =
     (case execute_transaction cd io key cs db of
        (Inl e, db') \<Rightarrow> (Inl e, db')
      | (Inr (commits, is_new), db') \<Rightarrow>
          (Inr (commits, disposition_of is_new),
           if is_new then db'\<lparr>db_events := db_events db' @ map from_commit commits\<rparr> else db'))"

definition database_write ::
  "codec \<Rightarrow> db_io \<Rightarrow> db_error + prepared_command \<Rightarrow> database \<Rightarrow> (db_error + db_commit \<times> disposition) \<times> database" where
  "database_write cd io prepared db =
     (if db_closed db then (Inl Closed, db)
      else case prepared of Inl e \<Rightarrow> (Inl e, db) | Inr c \<Rightarrow> run_command cd io c db)"

definition database_write_transaction ::
  "codec \<Rightarrow> db_io \<Rightarrow> string \<times> prepared_command list \<Rightarrow> database \<Rightarrow> (db_error + db_commit list \<times> disposition) \<times> database" where
  "database_write_transaction cd io tx db =
     (if db_closed db then (Inl Closed, db)
      else if snd tx = [] then (Inl (InvalidInput ''transaction'' ''transaction must contain at least one mutation''), db)
      else run_transaction cd io (fst tx) (snd tx) db)"

section \<open>Transactions under construction\<close>

definition transaction_new :: "string \<Rightarrow> db_error + string \<times> prepared_command list" where
  "transaction_new key = bind_result (validate_idempotency_key key) (\<lambda>_. Inr (key, []))"

definition add_command ::
  "prepared_command \<Rightarrow> string \<times> prepared_command list \<Rightarrow> db_error + string \<times> prepared_command list" where
  "add_command c tx =
     (if length (snd tx) \<ge> 256
      then Inl (InvalidInput ''transaction'' ''transaction exceeds the mutation limit'')
      else if list_ex (\<lambda>current. target current = target c) (snd tx)
      then Inl (InvalidInput ''transaction'' ''transaction contains duplicate record targets'')
      else Inr (fst tx, snd tx @ [c]))"

definition transaction_save ::
  "'a record_type \<Rightarrow> 'a \<Rightarrow> db_revision \<Rightarrow> string \<times> prepared_command list \<Rightarrow> db_error + string \<times> prepared_command list" where
  "transaction_save rt v expected tx =
     bind_result (prepare_save rt (fst tx) v expected) (\<lambda>c. add_command c tx)"

definition transaction_delete ::
  "'a record_type \<Rightarrow> string \<Rightarrow> db_revision \<Rightarrow> string \<times> prepared_command list \<Rightarrow> db_error + string \<times> prepared_command list" where
  "transaction_delete rt identifier expected tx =
     bind_result (prepare_delete rt (fst tx) identifier expected) (\<lambda>c. add_command c tx)"

section \<open>Reads\<close>

record 'a stored_record =
  st_value :: 'a
  st_revision :: nat
  st_created_at :: int
  st_updated_at :: int

definition decode_record :: "'a record_type \<Rightarrow> string \<Rightarrow> db_row \<Rightarrow> db_error + 'a stored_record" where
  "decode_record rt identifier row =
     bind_result (ensure (row_version row = int (rt_version rt))
       (Corrupt ''stored record version does not match its typed contract'')) (\<lambda>_.
     bind_result (of_option (Corrupt ''stored record payload is invalid'') (rt_from_json rt (row_payload row))) (\<lambda>v.
     bind_result (ensure (rt_identifier rt v = identifier)
       (Corrupt ''stored record identity does not match its payload'')) (\<lambda>_.
     bind_result (revision_from_sql (row_revision row)) (\<lambda>revision.
     bind_result (valid_timestamp (row_created row)) (\<lambda>created.
     bind_result (valid_timestamp (row_updated row)) (\<lambda>updated.
     Inr \<lparr>st_value = v, st_revision = revision, st_created_at = created, st_updated_at = updated\<rparr>))))))"

definition read_one_record :: "'a record_type \<Rightarrow> db_io \<Rightarrow> string \<Rightarrow> database \<Rightarrow> db_error + 'a stored_record" where
  "read_one_record rt io identifier db =
     (if db_closed db then Inl Closed else
      bind_result (sql io OpenReader) (\<lambda>_.
      bind_result (validate_identifier identifier) (\<lambda>_.
      bind_result (sql io (SelectRecord (rt_collection rt, identifier))) (\<lambda>_.
      bind_result (of_option (NotFound (rt_collection rt) identifier)
        (map_of (db_records db) (rt_collection rt, identifier))) (decode_record rt identifier)))))"

definition read_all_records :: "'a record_type \<Rightarrow> db_io \<Rightarrow> database \<Rightarrow> db_error + 'a stored_record list" where
  "read_all_records rt io db =
     (if db_closed db then Inl Closed else
      bind_result (sql io OpenReader) (\<lambda>_.
      bind_result (sql io SelectAll) (\<lambda>_.
      try_map (\<lambda>(k, row). decode_record rt (snd k) row)
        (sort_key (\<lambda>(k, row). snd k) (filter (\<lambda>(k, row). fst k = rt_collection rt) (db_records db))))))"

section \<open>The effect of a command\<close>

text \<open>
  What one command does to the row of its target: a save creates revision 1 or replaces the payload and
  counts the revision, a delete removes the row. Times never go back.
\<close>

fun applied :: "prepared_command \<Rightarrow> int \<Rightarrow> db_row option \<Rightarrow> db_row option" where
  "applied (Save col version identifier payload key expected) now None =
     Some \<lparr>row_version = int version, row_revision = 1, row_payload = payload, row_created = now, row_updated = now\<rparr>"
| "applied (Save col version identifier payload key expected) now (Some row) =
     Some (row\<lparr>row_revision := row_revision row + 1, row_payload := payload, row_updated := max now (row_updated row)\<rparr>)"
| "applied (Delete col version identifier key expected) now old = None"

definition commit_of :: "prepared_command \<Rightarrow> int \<Rightarrow> db_row option \<Rightarrow> db_commit" where
  "commit_of c now old =
     \<lparr>cm_key = pc_key c, cm_collection = pc_collection c, cm_identifier = pc_identifier c,
      cm_mutation = (case c of Delete _ _ _ _ _ \<Rightarrow> Deleted | _ \<Rightarrow> if old = None then Created else Updated),
      cm_revision = (case old of None \<Rightarrow> 1 | Some row \<Rightarrow> Suc (nat (row_revision row))),
      cm_committed_at = (case old of None \<Rightarrow> now | Some row \<Rightarrow> max now (row_updated row))\<rparr>"

definition apply_effect :: "int \<Rightarrow> prepared_command \<Rightarrow> (record_key \<rightharpoonup> db_row) \<Rightarrow> (record_key \<rightharpoonup> db_row)" where
  "apply_effect now c m = m(target c := applied c now (m (target c)))"

definition revision_of :: "db_row option \<Rightarrow> nat option" where
  "revision_of = map_option (\<lambda>row. nat (row_revision row))"

lemma map_of_snoc: "map_of t k = None \<Longrightarrow> map_of (t @ [(k, v)]) = (map_of t)(k \<mapsto> v)"
  by (auto simp: map_add_def fun_eq_iff split: option.splits)

lemma table_ok_snoc: "map_of t k = None \<Longrightarrow> table_ok t \<Longrightarrow> table_ok (t @ [(k, v)])"
  by (simp add: map_of_eq_None_iff)

lemma sql_Inr [result_simps]: "sql io call = Inr u \<longleftrightarrow> io_fault io call = None"
  by (simp add: sql_def split: option.splits)

lemma record_state_Inr:
  assumes "record_state io k t = Inr existing"
  shows "revision_of (map_of t k) = map_option fst existing"
    and "existing = None \<longleftrightarrow> map_of t k = None"
    and "existing = Some (revision, created, updated, version) \<Longrightarrow>
      \<exists>row. map_of t k = Some row \<and> row_revision row = int revision \<and> 0 < revision
        \<and> row_created row = created \<and> row_updated row = updated \<and> row_version row = int version
        \<and> 0 \<le> created \<and> 0 \<le> updated \<and> version \<le> u32_max"
  using assms
  by (auto simp: record_state_def revision_of_def result_simps revision_from_sql_def valid_timestamp_def
      split: option.splits if_splits)

lemma save_record_effect:
  assumes "save_record io (col, i) version payload key expected now t = Inr (commit, t')"
  defines "c \<equiv> Save col version i payload key expected"
  shows "map_of t' = apply_effect now c (map_of t)"
    and "revision_matches expected (revision_of (map_of t (col, i)))"
    and "commit = commit_of c now (map_of t (col, i))"
    and "table_ok t \<Longrightarrow> table_ok t'"
proof -
  from assms(1) obtain existing where st: "record_state io (col, i) t = Inr existing"
    and rev: "revision_matches expected (map_option fst existing)"
    by (auto simp: save_record_def result_simps require_revision_def)
  note state = record_state_Inr [OF st]
  show "revision_matches expected (revision_of (map_of t (col, i)))" using rev state(1) by simp
  have main: "map_of t' = apply_effect now c (map_of t) \<and> commit = commit_of c now (map_of t (col, i))
    \<and> (table_ok t \<longrightarrow> table_ok t')"
  proof (cases existing)
    case None
    then have absent: "map_of t (col, i) = None" using state(2) by simp
    with assms(1) st None have "t' = t @ [((col, i), the (applied c now None))]" "commit = commit_of c now None"
      by (auto simp: save_record_def result_simps require_revision_def revision_to_sql_def sql_insert_record_def
          commit_of_def c_def split: if_splits)
    with map_of_snoc [OF absent] table_ok_snoc [OF absent] show ?thesis
      by (simp add: apply_effect_def c_def absent del: map_of_append map_append)
  next
    case (Some e)
    obtain revision created updated ver where e: "e = (revision, created, updated, ver)" by (cases e)
    obtain row where row: "map_of t (col, i) = Some row" "row_revision row = int revision" "0 < revision"
      "row_updated row = updated" using state(3) [of revision created updated ver] Some e by auto
    with assms(1) st Some e show ?thesis
      by (auto simp: save_record_def result_simps require_revision_def revision_to_sql_def sql_update_record_def
          apply_effect_def commit_of_def c_def fun_eq_iff map_of_update_if Let_def
          split: if_splits option.splits)
  qed
  then show "map_of t' = apply_effect now c (map_of t)" "commit = commit_of c now (map_of t (col, i))"
    "table_ok t \<Longrightarrow> table_ok t'" by simp_all
qed

lemma delete_record_effect:
  assumes "delete_record io (col, i) version key expected now t = Inr (commit, t')"
  defines "c \<equiv> Delete col version i key expected"
  shows "map_of t' = apply_effect now c (map_of t)"
    and "revision_matches expected (revision_of (map_of t (col, i)))"
    and "commit = commit_of c now (map_of t (col, i))"
    and "table_ok t \<Longrightarrow> table_ok t'"
proof -
  from assms(1) obtain revision created updated ver where
    st: "record_state io (col, i) t = Inr (Some (revision, created, updated, ver))"
    by (auto simp: delete_record_def result_simps split: option.splits)
  note state = record_state_Inr [OF st]
  obtain row where row: "map_of t (col, i) = Some row" "row_revision row = int revision" "0 < revision"
    "row_updated row = updated" using state(3) [of revision created updated ver] by auto
  with assms(1) st have "map_of t' = apply_effect now c (map_of t)
      \<and> revision_matches expected (revision_of (map_of t (col, i)))
      \<and> commit = commit_of c now (map_of t (col, i)) \<and> (table_ok t \<longrightarrow> table_ok t')"
    by (auto simp: delete_record_def result_simps require_revision_def revision_to_sql_def sql_delete_record_def
        apply_effect_def commit_of_def c_def fun_eq_iff map_of_delete_if revision_of_def
        split: if_splits option.splits)
  then show "map_of t' = apply_effect now c (map_of t)"
    "revision_matches expected (revision_of (map_of t (col, i)))"
    "commit = commit_of c now (map_of t (col, i))" "table_ok t \<Longrightarrow> table_ok t'" by simp_all
qed

lemma apply_command_effect:
  assumes "apply_command io c now t = Inr (commit, t')"
  shows "map_of t' = apply_effect now c (map_of t)"
    and "revision_matches (pc_expected c) (revision_of (map_of t (target c)))"
    and "commit = commit_of c now (map_of t (target c))"
    and "table_ok t \<Longrightarrow> table_ok t'"
  using assms by (cases c; auto simp: apply_command_def dest: save_record_effect delete_record_effect)+

text \<open>A sequence of commands takes effect in order; each guard is judged on what the earlier ones left.\<close>

fun commits_of :: "int \<Rightarrow> prepared_command list \<Rightarrow> (record_key \<rightharpoonup> db_row) \<Rightarrow> db_commit list" where
  "commits_of now [] m = []"
| "commits_of now (c # cs) m = commit_of c now (m (target c)) # commits_of now cs (apply_effect now c m)"

fun guards_hold :: "int \<Rightarrow> prepared_command list \<Rightarrow> (record_key \<rightharpoonup> db_row) \<Rightarrow> bool" where
  "guards_hold now [] m = True"
| "guards_hold now (c # cs) m \<longleftrightarrow>
     revision_matches (pc_expected c) (revision_of (m (target c))) \<and> guards_hold now cs (apply_effect now c m)"

lemma apply_commands_effect:
  assumes "apply_commands io cs now t = Inr (commits, t')"
  shows "map_of t' = fold (apply_effect now) cs (map_of t) \<and> commits = commits_of now cs (map_of t)
    \<and> guards_hold now cs (map_of t) \<and> (table_ok t \<longrightarrow> table_ok t')"
  using assms
proof (induction cs arbitrary: t commits)
  case (Cons c cs)
  then obtain commit t1 rest where step: "apply_command io c now t = Inr (commit, t1)"
    and run: "apply_commands io cs now t1 = Inr (rest, t')" and commits: "commits = commit # rest"
    by (auto simp: result_simps)
  from apply_command_effect [OF step] Cons.IH [OF run] commits show ?case by auto
qed auto

lemma commit_clock_Inr [result_simps]: "commit_clock io = Inr now \<longleftrightarrow> io_clock io = Inr now \<and> 0 \<le> now"
  by (auto simp: commit_clock_def result_simps)

text \<open>An execution either leaves the database as it was, or is new and takes effect as a whole.\<close>

lemma execute_command_cases:
  assumes "execute_command cd io c db = (r, db')"
  obtains (same) "db' = db" "\<And>commit. r \<noteq> Inr (commit, True)"
  | (new) now json where "r = Inr (commit_of c now (map_of (db_records db) (target c)), True)"
      "io_clock io = Inr now" "0 \<le> now" "map_of (db_replays db) (pc_key c) = None"
      "revision_matches (pc_expected c) (revision_of (map_of (db_records db) (target c)))"
      "map_of (db_records db') = apply_effect now c (map_of (db_records db))"
      "commit_to_json cd (commit_of c now (map_of (db_records db) (target c))) = Some json"
      "map_of (db_replays db') = (map_of (db_replays db))(pc_key c \<mapsto>
         \<lparr>ir_sha256 = command_digest cd c, ir_json = json,
          ir_committed_at = cm_committed_at (commit_of c now (map_of (db_records db) (target c)))\<rparr>)"
      "db_events db' = db_events db" "db_closed db' = db_closed db"
      "table_ok (db_records db) \<Longrightarrow> table_ok (db_records db')"
proof (cases "\<exists>commit. r = Inr (commit, True)")
  case False
  with assms have "db' = db"
    by (auto simp: execute_command_def Let_def bind_result_def of_option_def split: sum.splits option.splits if_splits prod.splits)
  with False that(1) show ?thesis by blast
next
  case True
  then obtain commit where r: "r = Inr (commit, True)" by blast
  with assms obtain now records replays where parts: "map_of (db_replays db) (pc_key c) = None"
    "io_clock io = Inr now" "0 \<le> now" "apply_command io c now (db_records db) = Inr (commit, records)"
    "store_idempotent_commit cd io (pc_key c) (command_digest cd c) commit (db_replays db) = Inr replays"
    "db' = db\<lparr>db_records := records, db_replays := replays\<rparr>"
    by (auto simp: execute_command_def Let_def idempotent_value_def result_simps
        split: sum.splits option.splits if_splits prod.splits)
  note effect = apply_command_effect [OF parts(4)]
  from parts(5) obtain json where json: "commit_to_json cd commit = Some json"
    "replays = db_replays db @ [(pc_key c, \<lparr>ir_sha256 = command_digest cd c, ir_json = json,
       ir_committed_at = cm_committed_at commit\<rparr>)]"
    by (auto simp: store_idempotent_commit_def sql_insert_replay_def result_simps split: if_splits)
  show ?thesis
    by (rule that(2) [of now json])
      (use r parts effect json map_of_snoc [OF parts(1)] in \<open>simp_all del: map_of_append\<close>)
qed

lemma execute_transaction_cases:
  assumes "execute_transaction cd io key cs db = (r, db')"
  obtains (same) "db' = db" "\<And>commits. r \<noteq> Inr (commits, True)"
  | (new) now json where "r = Inr (commits_of now cs (map_of (db_records db)), True)"
      "io_clock io = Inr now" "0 \<le> now" "map_of (db_replays db) key = None"
      "cs \<noteq> []" "guards_hold now cs (map_of (db_records db))"
      "map_of (db_records db') = fold (apply_effect now) cs (map_of (db_records db))"
      "commits_to_json cd (commits_of now cs (map_of (db_records db))) = Some json"
      "map_of (db_replays db') = (map_of (db_replays db))(key \<mapsto>
         \<lparr>ir_sha256 = transaction_digest cd cs, ir_json = json,
          ir_committed_at = Max (set (map cm_committed_at (commits_of now cs (map_of (db_records db)))))\<rparr>)"
      "db_events db' = db_events db" "db_closed db' = db_closed db"
      "table_ok (db_records db) \<Longrightarrow> table_ok (db_records db')"
proof (cases "\<exists>commits. r = Inr (commits, True)")
  case False
  with assms have "db' = db"
    by (auto simp: execute_transaction_def Let_def bind_result_def of_option_def split: sum.splits option.splits if_splits prod.splits)
  with False that(1) show ?thesis by blast
next
  case True
  then obtain commits where r: "r = Inr (commits, True)" by blast
  with assms obtain now records replays where parts: "map_of (db_replays db) key = None"
    "io_clock io = Inr now" "0 \<le> now" "apply_commands io cs now (db_records db) = Inr (commits, records)"
    "store_idempotent_transaction cd io key (transaction_digest cd cs) commits (db_replays db) = Inr replays"
    "db' = db\<lparr>db_records := records, db_replays := replays\<rparr>" "cs \<noteq> []"
    by (auto simp: execute_transaction_def Let_def idempotent_value_def result_simps
        split: sum.splits option.splits if_splits prod.splits)
  note effect = apply_commands_effect [OF parts(4)]
  from parts(5) obtain json where json: "commits_to_json cd commits = Some json"
    "replays = db_replays db @ [(key, \<lparr>ir_sha256 = transaction_digest cd cs, ir_json = json,
       ir_committed_at = Max (set (map cm_committed_at commits))\<rparr>)]"
    by (auto simp: store_idempotent_transaction_def sql_insert_replay_def result_simps split: if_splits)
  show ?thesis
    by (rule that(2) [of now json])
      (use r parts effect json map_of_snoc [OF parts(1)] in \<open>simp_all del: map_of_append\<close>)
qed

section \<open>Runs\<close>

inductive db_step :: "codec \<Rightarrow> database \<Rightarrow> database \<Rightarrow> bool" for cd where
  command: "db_step cd db (snd (run_command cd io c db))"
| transaction: "db_step cd db (snd (run_transaction cd io key cs db))"
| close: "db_step cd db (db\<lparr>db_closed := True\<rparr>)"

abbreviation db_reaches :: "codec \<Rightarrow> database \<Rightarrow> database \<Rightarrow> bool" where
  "db_reaches cd \<equiv> (db_step cd)\<^sup>*\<^sup>*"

lemma run_command_replays:
  "map_of (db_replays db) k = Some row \<Longrightarrow> map_of (db_replays (snd (run_command cd io c db))) k = Some row"
proof -
  assume stored: "map_of (db_replays db) k = Some row"
  obtain r db' where run: "execute_command cd io c db = (r, db')" by (metis surj_pair)
  then have "map_of (db_replays db') k = Some row" using stored by (cases rule: execute_command_cases) auto
  then show ?thesis using run by (auto simp: run_command_def split: sum.splits)
qed

lemma run_transaction_replays:
  "map_of (db_replays db) k = Some row \<Longrightarrow> map_of (db_replays (snd (run_transaction cd io key cs db))) k = Some row"
proof -
  assume stored: "map_of (db_replays db) k = Some row"
  obtain r db' where run: "execute_transaction cd io key cs db = (r, db')" by (metis surj_pair)
  then have "map_of (db_replays db') k = Some row" using stored by (cases rule: execute_transaction_cases) auto
  then show ?thesis using run by (auto simp: run_transaction_def split: sum.splits)
qed

lemma replays_persist:
  assumes "db_reaches cd db db'" and "map_of (db_replays db) k = Some row"
  shows "map_of (db_replays db') k = Some row"
  using assms
proof (induction rule: rtranclp_induct)
  case (step y z)
  from step.hyps(2) step.IH [OF step.prems] show ?case
    by cases (auto simp: run_command_replays run_transaction_replays)
qed

text \<open>With a stored replay identity an execution repeats the answer or refuses; nothing changes.\<close>

lemma run_command_stored:
  assumes "map_of (db_replays db) (pc_key c) = Some row" and "io_fault io SelectReplay = None"
  shows "ir_sha256 row = command_digest cd c \<Longrightarrow> commit_from_json cd (ir_json row) = Some commit \<Longrightarrow>
      run_command cd io c db = (Inr (commit, Replayed), db)"
    and "ir_sha256 row \<noteq> command_digest cd c \<Longrightarrow>
      run_command cd io c db = (Inl (IdempotencyConflict (pc_key c)), db)"
  using assms
  by (simp_all add: run_command_def execute_command_def idempotent_value_def sql_def disposition_of_def)

lemma hexadecimal_inject [simp]: "hexadecimal a = hexadecimal b \<longleftrightarrow> a = b"
  by (metis decode_pairs_hexadecimal option.inject)

text \<open>The effect of a run on the records.\<close>

lemma run_command_effect:
  assumes "run_command cd io c db = (r, db')"
  obtains (same) "db' = db" "\<And>commit. r \<noteq> Inr (commit, Applied)"
  | (new) now where "0 \<le> now" "r = Inr (commit_of c now (map_of (db_records db) (target c)), Applied)"
      "revision_matches (pc_expected c) (revision_of (map_of (db_records db) (target c)))"
      "map_of (db_records db') = apply_effect now c (map_of (db_records db))" "db_closed db' = db_closed db"
proof -
  obtain e db1 where ex: "execute_command cd io c db = (e, db1)" by (metis surj_pair)
  then show ?thesis
  proof (cases rule: execute_command_cases)
    case same
    then show ?thesis
      using assms ex by (intro that(1)) (auto simp: run_command_def disposition_of_def split: sum.splits prod.splits if_splits)
  next
    case (new now json)
    then show ?thesis
      using assms ex by (intro that(2) [of now]) (auto simp: run_command_def disposition_of_def)
  qed
qed

lemma run_transaction_effect:
  assumes "run_transaction cd io key cs db = (r, db')"
  obtains (same) "db' = db" "\<And>commits. r \<noteq> Inr (commits, Applied)"
  | (new) now where "0 \<le> now" "r = Inr (commits_of now cs (map_of (db_records db)), Applied)"
      "guards_hold now cs (map_of (db_records db))"
      "map_of (db_records db') = fold (apply_effect now) cs (map_of (db_records db))" "db_closed db' = db_closed db"
proof -
  obtain e db1 where ex: "execute_transaction cd io key cs db = (e, db1)" by (metis surj_pair)
  then show ?thesis
  proof (cases rule: execute_transaction_cases)
    case same
    then show ?thesis
      using assms ex by (intro that(1)) (auto simp: run_transaction_def disposition_of_def split: sum.splits prod.splits if_splits)
  next
    case (new now json)
    then show ?thesis
      using assms ex by (intro that(2) [of now]) (auto simp: run_transaction_def disposition_of_def)
  qed
qed

section \<open>Success\<close>

text \<open>Without a failure of the engine a fresh replay identity is executed.\<close>

lemma validate_visible:
  assumes "list_all visible s" and "s \<noteq> []" and "length s \<le> 255"
  shows "validate_identifier s = Inr ()" and "validate_idempotency_key s = Inr ()"
  using assms visible_plain [OF assms(1)] by (simp_all add: validate_identifier_def validate_idempotency_key_def)

lemma save_creates:
  assumes "io_fault io = (\<lambda>_. None)" and "map_of t (col, i) = None" and "0 < version" and "0 \<le> now"
  shows "apply_command io (Save col version i payload key Missing) now t
    = Inr (commit_of (Save col version i payload key Missing) now None,
           t @ [((col, i), the (applied (Save col version i payload key Missing) now None))])"
  using assms
  by (simp add: apply_command_def save_record_def record_state_def sql_def require_revision_def revision_matches_def
      revision_to_sql_def sql_insert_record_def row_ok_def commit_of_def)

lemma save_replaces:
  assumes "io_fault io = (\<lambda>_. None)" and "map_of t (col, i) = Some row" and "row_ok row" and "row_version row = int version"
    and "version \<le> u32_max" and "row_revision row = int n" and "n < 2 ^ 63 - 1" and "0 \<le> now"
  shows "apply_command io (Save col version i payload key (Exact n)) now t
    = Inr (commit_of (Save col version i payload key (Exact n)) now (Some row),
           AList.update (col, i) (the (applied (Save col version i payload key (Exact n)) now (Some row))) t)"
  using assms
  by (simp add: apply_command_def save_record_def record_state_def sql_def require_revision_def revision_matches_def
      revision_to_sql_def revision_from_sql_def valid_timestamp_def sql_update_record_def row_ok_def commit_of_def
      checked_add64_def u64_max_def Let_def le_max_iff_disj add.commute)

lemma run_command_succeeds:
  assumes "io_fault io = (\<lambda>_. None)" and "io_clock io = Inr now" and "0 \<le> now" and "map_of (db_replays db) (pc_key c) = None"
    and "apply_command io c now (db_records db) = Inr (commit, t')" and "commit_to_json cd commit = Some json"
    and "0 \<le> cm_committed_at commit"
  shows "\<exists>db'. run_command cd io c db = (Inr (commit, Applied), db') \<and> db_records db' = t' \<and> db_closed db' = db_closed db
    \<and> map_of (db_replays db') = (map_of (db_replays db))(pc_key c \<mapsto>
        \<lparr>ir_sha256 = command_digest cd c, ir_json = json, ir_committed_at = cm_committed_at commit\<rparr>)"
  using assms map_of_snoc [OF assms(4)]
  by (simp add: run_command_def execute_command_def idempotent_value_def sql_def commit_clock_def
      store_idempotent_commit_def sql_insert_replay_def disposition_of_def del: map_of_append)

lemma run_transaction_succeeds:
  assumes "io_fault io = (\<lambda>_. None)" and "io_clock io = Inr now" and "0 \<le> now" and "map_of (db_replays db) key = None"
    and "cs \<noteq> []" and "list_all (\<lambda>c. pc_key c = key) cs"
    and "apply_commands io cs now (db_records db) = Inr (commits, t')" and "commits_to_json cd commits = Some json"
    and "commits \<noteq> []" and "\<forall>c\<in>set commits. 0 \<le> cm_committed_at c"
  shows "\<exists>db'. run_transaction cd io key cs db = (Inr (commits, Applied), db') \<and> db_records db' = t' \<and> db_closed db' = db_closed db"
proof -
  have "0 \<le> Max (set (map cm_committed_at commits))" using assms(9,10) by (cases commits) (auto simp: Max_ge_iff)
  moreover have "\<exists>c. c \<in> set commits" using assms(9) by (cases commits) auto
  moreover have "\<not> list_ex (\<lambda>c. pc_key c \<noteq> key) cs" using assms(6) by (simp add: list_ex_iff list_all_iff)
  ultimately show ?thesis using assms
    by (simp add: run_transaction_def execute_transaction_def idempotent_value_def sql_def commit_clock_def Let_def
        store_idempotent_transaction_def sql_insert_replay_def disposition_of_def not_less)
qed

section \<open>Rows under optimistic revisions\<close>

text \<open>
  The interface a client of the database relies on when it reads a row, works on it without a lock,
  and replaces the revision it read: a row is never removed, a change counts its revision and keeps
  what belongs to its identity, and a frozen row never changes.
\<close>

locale revisioned_rows =
  fixes key_step :: "'k \<Rightarrow> 'r option \<Rightarrow> 'r option \<Rightarrow> bool" and revision :: "'r \<Rightarrow> int"
    and frozen :: "'k \<Rightarrow> 'r \<Rightarrow> bool" and lineage :: "'k \<Rightarrow> 'r \<Rightarrow> 'r \<Rightarrow> bool"
  assumes step_present: "key_step k (Some r) new \<Longrightarrow>
      \<exists>r'. new = Some r' \<and> (r' = r \<or> \<not> frozen k r \<and> revision r < revision r' \<and> lineage k r r')"
    and lineage_trans: "lineage k a b \<Longrightarrow> lineage k b c \<Longrightarrow> lineage k a c"
begin

lemma row_stays:
  assumes "(\<lambda>m m'. \<forall>k. key_step k (m k) (m' k))\<^sup>*\<^sup>* m m'" and "m k = Some r"
  shows "\<exists>r'. m' k = Some r' \<and> (r' = r \<or> \<not> frozen k r \<and> revision r < revision r' \<and> lineage k r r')"
  using assms
proof (induction rule: rtranclp_induct)
  case (step y z)
  then obtain r1 where r1: "y k = Some r1" "r1 = r \<or> \<not> frozen k r \<and> revision r < revision r1 \<and> lineage k r r1" by blast
  have "key_step k (Some r1) (z k)" using step.hyps(2) r1(1) by metis
  then obtain r2 where "z k = Some r2" "r2 = r1 \<or> \<not> frozen k r1 \<and> revision r1 < revision r2 \<and> lineage k r1 r2"
    using step_present by blast
  with r1(2) show ?case using lineage_trans by (metis order_less_trans)
qed simp

lemma frozen_stays:
  assumes "(\<lambda>m m'. \<forall>k. key_step k (m k) (m' k))\<^sup>*\<^sup>* m m'" and "m k = Some r" and "frozen k r"
  shows "m' k = Some r"
  using row_stays [OF assms(1,2)] assms(3) by blast

lemma same_revision_same_row:
  assumes "(\<lambda>m m'. \<forall>k. key_step k (m k) (m' k))\<^sup>*\<^sup>* m m'" and "m k = Some r" and "m' k = Some r'"
    and "revision r' = revision r"
  shows "r' = r"
  using row_stays [OF assms(1,2)] assms(3,4) by auto

end

section \<open>The digest binds every input\<close>

lemma to_le_inject: "LENGTH('a) \<le> 8 * n \<Longrightarrow> to_le n (v :: 'a::len word) = to_le n w \<longleftrightarrow> v = w"
  by (metis from_to_le)

lemma of_nat_inject_u64: "a < 2 ^ 64 \<Longrightarrow> b < 2 ^ 64 \<Longrightarrow> (of_nat a :: u64) = of_nat b \<longleftrightarrow> a = b"
proof
  assume bounds: "a < 2 ^ 64" "b < 2 ^ 64" and "(of_nat a :: u64) = of_nat b"
  then have "unat (of_nat a :: u64) = unat (of_nat b :: u64)" by simp
  then show "a = b" using bounds by (simp add: unat_of_nat)
qed simp

lemma of_nat_inject_u32: "a \<le> u32_max \<Longrightarrow> b \<le> u32_max \<Longrightarrow> (of_nat a :: u32) = of_nat b \<longleftrightarrow> a = b"
proof
  assume bounds: "a \<le> u32_max" "b \<le> u32_max" and "(of_nat a :: u32) = of_nat b"
  then have "unat (of_nat a :: u32) = unat (of_nat b :: u32)" by simp
  then show "a = b" using bounds by (simp add: unat_of_nat u32_max_def)
qed simp

lemma update_digest_field_nonempty [simp]: "update_digest_field f \<noteq> []" "[] \<noteq> update_digest_field f"
proof -
  have "length (update_digest_field f) = 8 + length f" by (simp add: update_digest_field_def)
  then show "update_digest_field f \<noteq> []" "[] \<noteq> update_digest_field f" by auto
qed

lemma delimited_inject:
  assumes "\<forall>f\<in>set fs. length f < 2 ^ 64" and "\<forall>g\<in>set gs. length g < 2 ^ 64"
  shows "concat (map update_digest_field fs) = concat (map update_digest_field gs) \<longleftrightarrow> fs = gs"
  using assms
proof (induction fs arbitrary: gs)
  case Nil
  then show ?case by (cases gs) simp_all
next
  case (Cons f fs)
  show ?case
  proof (cases gs)
    case Nil
    then show ?thesis by simp
  next
    case gs: (Cons g gs')
    have eq: "f @ concat (map update_digest_field fs) = g @ concat (map update_digest_field gs') \<and> length f = length g
        \<longleftrightarrow> f = g \<and> fs = gs'"
      using Cons gs by (auto simp: append_eq_append_conv)
    have "length f < 2 ^ 64" "length g < 2 ^ 64" using Cons.prems gs by auto
    then have "(rev (to_le 8 (of_nat (length f) :: u64)) = rev (to_le 8 (of_nat (length g) :: u64))) \<longleftrightarrow> length f = length g"
      by (simp add: to_le_inject of_nat_inject_u64)
    then have "update_digest_field f @ concat (map update_digest_field fs)
        = update_digest_field g @ concat (map update_digest_field gs') \<longleftrightarrow> f = g \<and> fs = gs'"
      using eq unfolding update_digest_field_def [of f] update_digest_field_def [of g]
      by (auto simp: append_eq_append_conv)
    then show ?thesis using gs by simp
  qed
qed

definition collections :: "collection list" where
  "collections =
     [Authentication, AuditCheckpoints, AuditEvents, AuditReplays, AuditState, Benchmarks,
      BenchmarkHandoffs, CommandAuditSessions, Configuration, Controllers,
      CoreUpdateServiceSnapshots, CoreUpdates, GatewayExposure, GatewayUsage,
      HardwareObservations, ModelLifecycles, RuntimeInstallations, Nodes, Operations, Outbox,
      Pairings, PairingReplays, PeerCredentials, Placements, Services]"

lemma storage_name_inject [simp]: "storage_name a = storage_name b \<longleftrightarrow> a = b"
proof -
  have "distinct (map storage_name collections)" by (simp add: collections_def)
  moreover have "a \<in> set collections" for a by (cases a) (simp_all add: collections_def)
  ultimately show ?thesis by (metis distinct_map inj_onD)
qed

lemma revision_bytes_inject [simp]: "revision_bytes a = revision_bytes b \<longleftrightarrow> a = b"
  by (cases a; cases b) (auto simp: revision_bytes_def)

text \<open>What \<open>prepare_command\<close> ensures of a command, for versions and revisions of their Rust types.\<close>

definition command_bounded :: "prepared_command \<Rightarrow> bool" where
  "command_bounded c \<longleftrightarrow> pc_version c \<le> u32_max \<and> length (pc_identifier c) \<le> 255
     \<and> (case c of Save _ _ _ payload _ _ \<Rightarrow> length payload \<le> 1024 * 1024 | _ \<Rightarrow> True)
     \<and> (case pc_expected c of Exact n \<Rightarrow> n \<le> u64_max | _ \<Rightarrow> True)"

lemma prepare_save_bounded:
  assumes "prepare_save rt key v expected = Inr c" and "rt_version rt \<le> u32_max"
    and "\<And>n. expected = Exact n \<Longrightarrow> n \<le> u64_max"
  shows "command_bounded c"
  using assms
  by (auto simp: prepare_save_def result_simps command_bounded_def validate_identifier_def
      split: db_revision.splits if_splits)

lemma digest_fields_bounded: "command_bounded c \<Longrightarrow> \<forall>f\<in>set (digest_fields c). length f < 2 ^ 64"
proof -
  assume b: "command_bounded c"
  have rb: "length (revision_bytes r) \<le> 30" if "\<And>n. r = Exact n \<Longrightarrow> n \<le> u64_max" for r
  proof (cases r)
    case (Exact n)
    then show ?thesis using length_decimal_u64 [of n] that by (simp add: revision_bytes_def decimal_text_def)
  qed (simp_all add: revision_bytes_def)
  have "length (revision_bytes (pc_expected c)) \<le> 30"
    by (rule rb) (use b in \<open>simp add: command_bounded_def\<close>)
  moreover have "length (storage_name (pc_collection c)) \<le> 30" by (cases "pc_collection c") simp_all
  ultimately show ?thesis using b by (cases c) (auto simp: digest_fields_def command_bounded_def)
qed

lemma digest_input_inject:
  assumes "command_bounded c" and "command_bounded c'" and "pc_key c = pc_key c'"
  shows "digest_input c = digest_input c' \<longleftrightarrow> c = c'"
proof -
  have v: "(of_nat (pc_version c) :: u32) = of_nat (pc_version c') \<longleftrightarrow> pc_version c = pc_version c'"
    using assms(1,2) by (intro of_nat_inject_u32) (simp_all add: command_bounded_def)
  have "digest_input c = digest_input c' \<longleftrightarrow> digest_fields c = digest_fields c'"
    unfolding digest_input_def
    by (rule delimited_inject [OF digest_fields_bounded [OF assms(1)] digest_fields_bounded [OF assms(2)]])
  also have "\<dots> \<longleftrightarrow> c = c'"
    using assms(3) v by (cases c; cases c') (auto simp: digest_fields_def to_le_inject)
  finally show ?thesis .
qed

section \<open>Properties\<close>

text \<open>
  C13: A command is applied at most once. When it is applied, its revision guard held, exactly its
  record changes (revision counted, times monotone), its commit and event say so; in every later
  database the same command repeats the first answer and changes nothing, and another command under
  the same replay identity is refused, unless SHA-256 maps two different inputs to one digest. The
  hypothesis on the codec is the JSON round trip of a commit.
\<close>

theorem command_applied_once:
  assumes json: "\<And>commit bs. commit_to_json cd commit = Some bs \<Longrightarrow> commit_from_json cd bs = Some commit"
    and run: "run_command cd io c db = (Inr (commit, Applied), db1)"
    and later: "db_reaches cd db1 db2" and reads: "io_fault io2 SelectReplay = None"
  shows "revision_matches (pc_expected c) (revision_of (map_of (db_records db) (target c)))
    \<and> (\<exists>now \<ge> 0. io_clock io = Inr now
        \<and> map_of (db_records db1) = apply_effect now c (map_of (db_records db))
        \<and> commit = commit_of c now (map_of (db_records db) (target c)))
    \<and> db_events db1 = db_events db @ [from_commit commit]
    \<and> run_command cd io2 c db2 = (Inr (commit, Replayed), db2)
    \<and> (\<forall>c'. pc_key c' = pc_key c \<longrightarrow> c' \<noteq> c \<longrightarrow> command_bounded c \<longrightarrow> command_bounded c' \<longrightarrow>
        run_command cd io2 c' db2 = (Inl (IdempotencyConflict (pc_key c)), db2)
        \<or> digest_input c' \<noteq> digest_input c \<and> sha256 cd (digest_input c') = sha256 cd (digest_input c))"
proof -
  obtain db' where ex: "execute_command cd io c db = (Inr (commit, True), db')"
    and db1: "db1 = db'\<lparr>db_events := db_events db' @ [from_commit commit]\<rparr>"
    using run by (auto simp: run_command_def disposition_of_def split: prod.splits sum.splits if_splits)
  from ex have first: "revision_matches (pc_expected c) (revision_of (map_of (db_records db) (target c)))"
    "\<exists>now \<ge> 0. io_clock io = Inr now \<and> map_of (db_records db1) = apply_effect now c (map_of (db_records db))
      \<and> commit = commit_of c now (map_of (db_records db) (target c))"
    "db_events db1 = db_events db @ [from_commit commit]"
    by (cases rule: execute_command_cases; force simp: db1)+
  from ex obtain row where row: "map_of (db_replays db1) (pc_key c) = Some row"
    "ir_sha256 row = command_digest cd c" "commit_to_json cd commit = Some (ir_json row)"
    by (cases rule: execute_command_cases) (auto simp: db1)
  note stored = replays_persist [OF later row(1)]
  have again: "run_command cd io2 c db2 = (Inr (commit, Replayed), db2)"
    by (rule run_command_stored(1) [OF stored reads row(2) json [OF row(3)]])
  have "run_command cd io2 c' db2 = (Inl (IdempotencyConflict (pc_key c)), db2)
      \<or> digest_input c' \<noteq> digest_input c \<and> sha256 cd (digest_input c') = sha256 cd (digest_input c)"
    if c': "pc_key c' = pc_key c" "c' \<noteq> c" "command_bounded c" "command_bounded c'" for c'
  proof -
    have "digest_input c' \<noteq> digest_input c" using digest_input_inject c' by metis
    then show ?thesis using run_command_stored(2) [of db2 c' row io2 cd] stored reads row(2) c'(1)
      by (auto simp: command_digest_def)
  qed
  with first again show ?thesis by blast
qed

text \<open>
  C12: A transaction takes effect as a whole or not at all. Either it is new: every guard held on what
  the earlier mutations left, all mutations took effect in order at one time, and one event per
  mutation is announced; or it is refused or replayed and the database is unchanged.
\<close>

theorem transaction_all_or_nothing:
  "case run_transaction cd io key cs db of
     (Inr (commits, Applied), db') \<Rightarrow>
       \<exists>now. io_clock io = Inr now \<and> guards_hold now cs (map_of (db_records db))
         \<and> map_of (db_records db') = fold (apply_effect now) cs (map_of (db_records db))
         \<and> commits = commits_of now cs (map_of (db_records db))
         \<and> db_events db' = db_events db @ map from_commit commits
         \<and> map_of (db_replays db) key = None \<and> map_of (db_replays db') key \<noteq> None
   | (_, db') \<Rightarrow> db' = db"
proof -
  obtain r db' where ex: "execute_transaction cd io key cs db = (r, db')" by (metis surj_pair)
  then show ?thesis
  proof (cases rule: execute_transaction_cases)
    case same
    then show ?thesis
      by (auto simp: run_transaction_def ex disposition_of_def split: sum.splits prod.splits disposition.splits)
  next
    case new
    then show ?thesis by (auto simp: run_transaction_def ex disposition_of_def)
  qed
qed

section \<open>An example\<close>

text \<open>Commits encoded as their revision and time, which is enough for the examples.\<close>

definition example_commit :: db_commit where
  "example_commit = \<lparr>cm_key = ''k'', cm_collection = Nodes, cm_identifier = ''n'', cm_mutation = Created,
     cm_revision = 1, cm_committed_at = 5\<rparr>"

definition example_codec :: codec where
  "example_codec = \<lparr>sha256 = (\<lambda>bs. bs),
     commit_to_json = (\<lambda>c. if c = example_commit then Some [1] else None),
     commit_from_json = (\<lambda>bs. if bs = [1] then Some example_commit else None),
     commits_to_json = (\<lambda>cs. None), commits_from_json = (\<lambda>bs. None)\<rparr>"

definition example_io :: db_io where
  "example_io = \<lparr>io_clock = Inr 5, io_fault = (\<lambda>_. None)\<rparr>"

definition empty_database :: database where
  "empty_database = \<lparr>db_records = [], db_replays = [], db_events = [], db_closed = False\<rparr>"

lemma example_command_applied:
  "\<exists>db1. run_command example_codec example_io (Save Nodes 1 ''n'' [7] ''k'' Missing) empty_database
     = (Inr (example_commit, Applied), db1)"
  by (simp add: run_command_def execute_command_def idempotent_value_def sql_def example_io_def empty_database_def
      commit_clock_def apply_command_def save_record_def record_state_def require_revision_def revision_matches_def
      revision_to_sql_def sql_insert_record_def row_ok_def store_idempotent_commit_def sql_insert_replay_def
      example_codec_def example_commit_def disposition_of_def)

theorem command_applied_once_witness:
  "\<exists>db1. run_command example_codec example_io (Save Nodes 1 ''n'' [7] ''k'' Missing) empty_database
       = (Inr (example_commit, Applied), db1)
     \<and> run_command example_codec example_io (Save Nodes 1 ''n'' [7] ''k'' Missing) db1
       = (Inr (example_commit, Replayed), db1)"
proof -
  obtain db1 where run: "run_command example_codec example_io (Save Nodes 1 ''n'' [7] ''k'' Missing) empty_database
     = (Inr (example_commit, Applied), db1)" using example_command_applied by blast
  have json: "commit_to_json example_codec commit = Some bs \<Longrightarrow> commit_from_json example_codec bs = Some commit"
    for commit bs by (auto simp: example_codec_def split: if_splits)
  have "run_command example_codec example_io (Save Nodes 1 ''n'' [7] ''k'' Missing) db1 = (Inr (example_commit, Replayed), db1)"
    using command_applied_once [OF json run rtranclp.rtrancl_refl, of example_io] by (simp add: example_io_def)
  with run show ?thesis by blast
qed

end
