(* ===== verification/Authentication.thy ===== *)
theory Authentication
  imports Database GatewayContract
begin

text \<open>
  Inference API keys (\<open>core/authentication/src\<close>) over their database store
  (\<open>core/node/src/li_authentication_database.rs\<close>): creation, policy updates, rotation, revocation and the
  authentication of bearer tokens. The manager holds no lock: an operation reads a record and later
  replaces exactly the revision it read. Entropy, the clock, SHA-256 and the JSON form of a record are
  parameters.
\<close>

section \<open>API keys\<close>

datatype auth_store_error = StoreConflict | StoreCorrupt | StoreUnavailable

datatype auth_error =
    InterfaceError string string
  | InvalidPolicy string
  | KeyNotFound
  | Unauthorized
  | EntropyUnavailable
  | AuthStore auth_store_error

datatype model_scope = AllModels | SelectedModels "logical_model_name list"

definition scope_selected :: "logical_model_name list \<Rightarrow> auth_error + model_scope" where
  "scope_selected models =
     (if models = [] \<or> length models > 128 \<or> \<not> distinct models
      then Inl (InvalidPolicy ''selected model scopes must be non-empty, unique, and bounded'')
      else Inr (SelectedModels models))"

definition permits :: "model_scope \<Rightarrow> logical_model_name \<Rightarrow> bool" where
  "permits scope model = (case scope of AllModels \<Rightarrow> True | SelectedModels models \<Rightarrow> model \<in> set models)"

record api_key_policy =
  ap_model_scope :: model_scope
  ap_expires_at :: "unix_milliseconds option"
  ap_limits :: api_key_limits
  ap_tenant :: "string option"
  ap_application :: "string option"

record api_key =
  ak_key_id :: api_key_id
  ak_name :: string
  ak_policy :: api_key_policy
  ak_created_at :: unix_milliseconds
  ak_revoked_at :: "unix_milliseconds option"
  ak_rotated_from :: "api_key_id option"

definition api_key_new ::
  "api_key_id \<Rightarrow> string \<Rightarrow> api_key_policy \<Rightarrow> unix_milliseconds \<Rightarrow> unix_milliseconds option \<Rightarrow> api_key_id option
   \<Rightarrow> auth_error + api_key" where
  "api_key_new key_id name policy created_at revoked_at rotated_from =
     (if (\<exists>e \<in> set_option (ap_expires_at policy). e \<le> created_at)
      then Inl (InvalidPolicy ''expiration must follow API-key creation'')
      else if (\<exists>r \<in> set_option revoked_at. r < created_at)
      then Inl (InvalidPolicy ''revocation cannot precede API-key creation'')
      else Inr \<lparr>ak_key_id = key_id, ak_name = name, ak_policy = policy, ak_created_at = created_at,
             ak_revoked_at = revoked_at, ak_rotated_from = rotated_from\<rparr>)"

record auth_principal =
  ap_key_id :: api_key_id
  ap_policy :: api_key_policy

record issued_api_key =
  ik_api_key :: api_key
  ik_secret :: "byte list option"

definition take_token :: "issued_api_key \<Rightarrow> string option \<times> issued_api_key" where
  "take_token issued =
     (case ik_secret issued of
        None \<Rightarrow> (None, issued)
      | Some secret \<Rightarrow> (Some (''li_'' @ ak_key_id (ik_api_key issued) @ ''_'' @ hexadecimal secret),
                       issued\<lparr>ik_secret := None\<rparr>))"

datatype auth_event =
    ApiKeyCreated api_key_id
  | ApiKeyRevoked api_key_id
  | ApiKeyRotated api_key_id api_key_id
  | ApiKeyPolicyUpdated api_key_id

record auth_record =
  ar_api_key :: api_key
  ar_salt :: "byte list"
  ar_verifier :: "byte list"

record versioned_record =
  vr_record :: auth_record
  vr_revision :: nat

abbreviation record_id :: "auth_record \<Rightarrow> api_key_id" where
  "record_id r \<equiv> ak_key_id (ar_api_key r)"

abbreviation is_revoked :: "auth_record \<Rightarrow> bool" where
  "is_revoked r \<equiv> ak_revoked_at (ar_api_key r) \<noteq> None"

section \<open>Persistent form\<close>

record auth_db_record =
  ad_schema_name :: string
  ad_schema_version :: nat
  ad_key_id :: string
  ad_name :: string
  ad_selected_models :: "string list option"
  ad_expires_at :: "nat option"
  ad_requests_per_minute :: "nat option"
  ad_tokens_per_minute :: "nat option"
  ad_concurrency :: "nat option"
  ad_context_tokens :: "nat option"
  ad_tenant :: "string option"
  ad_application :: "string option"
  ad_created_at :: nat
  ad_revoked_at :: "nat option"
  ad_rotated_from :: "string option"
  ad_salt :: "byte list"
  ad_verifier :: "byte list"

definition authentication_database_record :: "auth_record \<Rightarrow> auth_db_record" where
  "authentication_database_record r =
     (let k = ar_api_key r; p = ak_policy k; l = ap_limits p in
      \<lparr>ad_schema_name = ''li_authentication_record'', ad_schema_version = 1, ad_key_id = ak_key_id k,
       ad_name = ak_name k,
       ad_selected_models = (case ap_model_scope p of AllModels \<Rightarrow> None | SelectedModels models \<Rightarrow> Some models),
       ad_expires_at = ap_expires_at p, ad_requests_per_minute = requests_per_minute l,
       ad_tokens_per_minute = tokens_per_minute l, ad_concurrency = concurrency l,
       ad_context_tokens = context_tokens l, ad_tenant = ap_tenant p, ad_application = ap_application p,
       ad_created_at = ak_created_at k, ad_revoked_at = ak_revoked_at k, ad_rotated_from = ak_rotated_from k,
       ad_salt = ar_salt r, ad_verifier = ar_verifier r\<rparr>)"

text \<open>A text is parsed into a name by its validation; a failure is reported as corruption.\<close>

definition parse_or_corrupt :: "(string \<Rightarrow> bool) \<Rightarrow> string \<Rightarrow> auth_store_error + string" where
  "parse_or_corrupt valid s = (if valid s then Inr s else Inl StoreCorrupt)"

definition parse_option :: "(string \<Rightarrow> bool) \<Rightarrow> string option \<Rightarrow> auth_store_error + string option" where
  "parse_option valid s =
     (case s of None \<Rightarrow> Inr None | Some v \<Rightarrow> bind_result (parse_or_corrupt valid v) (\<lambda>x. Inr (Some x)))"

abbreviation is_api_key_id :: "string \<Rightarrow> bool" where
  "is_api_key_id s \<equiv> is_lower_hex s 32"

abbreviation is_display_name :: "string \<Rightarrow> bool" where
  "is_display_name s \<equiv> is_bounded_text s 128 True"

definition authentication_record :: "auth_db_record \<Rightarrow> auth_store_error + auth_record" where
  "authentication_record d =
     (if ad_schema_name d \<noteq> ''li_authentication_record'' \<or> ad_schema_version d \<noteq> 1 then Inl StoreCorrupt else
      bind_result (case ad_selected_models d of
          None \<Rightarrow> Inr AllModels
        | Some models \<Rightarrow>
            bind_result (try_map (parse_or_corrupt is_technical_name) models) (\<lambda>ms.
            map_err (\<lambda>_. StoreCorrupt) (scope_selected ms))) (\<lambda>scope.
      bind_result (ensure (ad_requests_per_minute d \<noteq> Some 0 \<and> ad_tokens_per_minute d \<noteq> Some 0
          \<and> ad_concurrency d \<noteq> Some 0 \<and> ad_context_tokens d \<noteq> Some 0) StoreCorrupt) (\<lambda>_.
      bind_result (parse_option is_technical_name (ad_tenant d)) (\<lambda>tenant.
      bind_result (parse_option is_technical_name (ad_application d)) (\<lambda>application.
      bind_result (parse_or_corrupt is_api_key_id (ad_key_id d)) (\<lambda>key_id.
      bind_result (parse_or_corrupt is_display_name (ad_name d)) (\<lambda>name.
      bind_result (parse_option is_api_key_id (ad_rotated_from d)) (\<lambda>rotated_from.
      bind_result (map_err (\<lambda>_. StoreCorrupt) (api_key_new key_id name
          \<lparr>ap_model_scope = scope, ap_expires_at = ad_expires_at d,
           ap_limits = \<lparr>requests_per_minute = ad_requests_per_minute d, tokens_per_minute = ad_tokens_per_minute d,
             concurrency = ad_concurrency d, context_tokens = ad_context_tokens d\<rparr>,
           ap_tenant = tenant, ap_application = application\<rparr>
          (ad_created_at d) (ad_revoked_at d) rotated_from)) (\<lambda>k.
      Inr \<lparr>ar_api_key = k, ar_salt = ad_salt d, ar_verifier = ad_verifier d\<rparr>)))))))))"

definition authentication_store_error :: "db_error \<Rightarrow> auth_store_error" where
  "authentication_store_error e =
     (case e of
        Conflict _ _ _ _ \<Rightarrow> StoreConflict | IdempotencyConflict _ \<Rightarrow> StoreConflict
      | Corrupt _ \<Rightarrow> StoreCorrupt
      | NotFound _ _ \<Rightarrow> StoreUnavailable | InvalidInput _ _ \<Rightarrow> StoreUnavailable
      | Unavailable _ \<Rightarrow> StoreUnavailable | Closed \<Rightarrow> StoreUnavailable)"

section \<open>The store\<close>

record auth_env =
  ae_codec :: codec
  ae_to_json :: "auth_db_record \<Rightarrow> byte list option"
  ae_from_json :: "byte list \<Rightarrow> auth_db_record option"

definition auth_type :: "auth_env \<Rightarrow> auth_db_record record_type" where
  "auth_type env = \<lparr>rt_collection = Authentication, rt_version = 1, rt_identifier = ad_key_id,
     rt_to_json = ae_to_json env, rt_from_json = ae_from_json env\<rparr>"

definition versioned_authentication_record :: "auth_db_record stored_record \<Rightarrow> auth_store_error + versioned_record" where
  "versioned_authentication_record st =
     bind_result (authentication_record (st_value st)) (\<lambda>r. Inr \<lparr>vr_record = r, vr_revision = st_revision st\<rparr>)"

definition store_read :: "auth_env \<Rightarrow> db_io \<Rightarrow> api_key_id \<Rightarrow> database \<Rightarrow> auth_store_error + versioned_record option" where
  "store_read env io key_id db =
     (case read_one_record (auth_type env) io key_id db of
        Inr st \<Rightarrow> bind_result (versioned_authentication_record st) (\<lambda>v. Inr (Some v))
      | Inl (NotFound _ _) \<Rightarrow> Inr None
      | Inl e \<Rightarrow> Inl (authentication_store_error e))"

definition store_all :: "auth_env \<Rightarrow> db_io \<Rightarrow> database \<Rightarrow> auth_store_error + versioned_record list" where
  "store_all env io db =
     bind_result (map_err authentication_store_error (read_all_records (auth_type env) io db))
       (try_map versioned_authentication_record)"

text \<open>\<open>require_applied\<close> turns a replay into a conflict.\<close>

definition store_write ::
  "auth_env \<Rightarrow> db_io \<Rightarrow> string \<Rightarrow> auth_record \<Rightarrow> db_revision \<Rightarrow> database
   \<Rightarrow> (auth_store_error + versioned_record) \<times> database" where
  "store_write env io key r expected db =
     (case database_write (ae_codec env) io
        (prepare_save (auth_type env) key (authentication_database_record r) expected) db of
        (Inl e, db') \<Rightarrow> (Inl (authentication_store_error e), db')
      | (Inr (commit, Replayed), db') \<Rightarrow> (Inl StoreConflict, db')
      | (Inr (commit, Applied), db') \<Rightarrow> (Inr \<lparr>vr_record = r, vr_revision = cm_revision commit\<rparr>, db'))"

definition store_create ::
  "auth_env \<Rightarrow> db_io \<Rightarrow> auth_record \<Rightarrow> database \<Rightarrow> (auth_store_error + versioned_record) \<times> database" where
  "store_create env io r db = store_write env io (''authentication:create:'' @ record_id r) r Missing db"

definition store_replace ::
  "auth_env \<Rightarrow> db_io \<Rightarrow> auth_record \<Rightarrow> nat \<Rightarrow> database \<Rightarrow> (auth_store_error + versioned_record) \<times> database" where
  "store_replace env io r expected db =
     store_write env io (''authentication:replace:'' @ record_id r @ '':'' @ decimal_text expected) r (Exact expected) db"

definition rotation_transaction ::
  "auth_env \<Rightarrow> auth_record \<Rightarrow> nat \<Rightarrow> auth_record \<Rightarrow> db_error + string \<times> prepared_command list" where
  "rotation_transaction env revoked expected replacement =
     bind_result (transaction_new (''authentication:rotate:'' @ record_id revoked @ '':'' @ record_id replacement)) (\<lambda>tx.
     bind_result (transaction_save (auth_type env) (authentication_database_record revoked) (Exact expected) tx) (\<lambda>tx.
     transaction_save (auth_type env) (authentication_database_record replacement) Missing tx))"

definition store_rotate ::
  "auth_env \<Rightarrow> db_io \<Rightarrow> auth_record \<Rightarrow> nat \<Rightarrow> auth_record \<Rightarrow> database
   \<Rightarrow> (auth_store_error + versioned_record \<times> versioned_record) \<times> database" where
  "store_rotate env io revoked expected replacement db =
     (case rotation_transaction env revoked expected replacement of
        Inl e \<Rightarrow> (Inl (authentication_store_error e), db)
      | Inr tx \<Rightarrow>
          (case database_write_transaction (ae_codec env) io tx db of
             (Inl e, db') \<Rightarrow> (Inl (authentication_store_error e), db')
           | (Inr (commits, Replayed), db') \<Rightarrow> (Inl StoreConflict, db')
           | (Inr (commits, Applied), db') \<Rightarrow>
               (if length commits \<noteq> 2 \<or> cm_identifier (commits ! 0) \<noteq> record_id revoked
                   \<or> cm_identifier (commits ! 1) \<noteq> record_id replacement
                then Inl StoreCorrupt
                else Inr (\<lparr>vr_record = revoked, vr_revision = cm_revision (commits ! 0)\<rparr>,
                          \<lparr>vr_record = replacement, vr_revision = cm_revision (commits ! 1)\<rparr>), db')))"

section \<open>The manager\<close>

text \<open>
  The providers of one operation: the clock, the bytes of each of the three fills of the random source
  (as functions of the index, so that a fill always covers its destination), and the engine during
  each store call.
\<close>

record auth_inputs =
  in_now :: "auth_error + unix_milliseconds"
  in_fill :: "nat \<Rightarrow> auth_error + (nat \<Rightarrow> byte)"
  in_io :: "nat \<Rightarrow> db_io"

definition api_key_verifier :: "auth_env \<Rightarrow> byte list \<Rightarrow> byte list \<Rightarrow> byte list" where
  "api_key_verifier env salt secret = sha256 (ae_codec env) (ascii ''letsinfer-api-key-v1'' @ [0] @ salt @ secret)"

record key_material =
  km_key_id :: api_key_id
  km_secret :: "byte list"
  km_salt :: "byte list"

definition fill_bytes :: "auth_inputs \<Rightarrow> nat \<Rightarrow> nat \<Rightarrow> auth_error + byte list" where
  "fill_bytes inp call len = bind_result (in_fill inp call) (\<lambda>f. Inr (map f [0..<len]))"

definition generate_material :: "auth_inputs \<Rightarrow> auth_error + key_material" where
  "generate_material inp =
     bind_result (fill_bytes inp 0 16) (\<lambda>identifier.
     bind_result (fill_bytes inp 1 32) (\<lambda>secret.
     bind_result (fill_bytes inp 2 16) (\<lambda>salt.
     bind_result (ensure (is_api_key_id (hexadecimal identifier))
       (InterfaceError ''API key identity'' ''identity must be exactly 32 lowercase hexadecimal characters'')) (\<lambda>_.
     Inr \<lparr>km_key_id = hexadecimal identifier, km_secret = secret, km_salt = salt\<rparr>))))"

definition require_read_record :: "versioned_record \<Rightarrow> api_key_id \<Rightarrow> auth_error + unit" where
  "require_read_record stored expected =
     ensure (\<not> (vr_revision stored = 0 \<or> record_id (vr_record stored) \<noteq> expected)) (AuthStore StoreCorrupt)"

definition require_committed_record :: "versioned_record \<Rightarrow> auth_record \<Rightarrow> nat \<Rightarrow> auth_error + unit" where
  "require_committed_record stored expected prior =
     ensure (\<not> (vr_record stored \<noteq> expected \<or> vr_revision stored \<le> prior)) (AuthStore StoreCorrupt)"

definition revoked_record_with_name ::
  "auth_record \<Rightarrow> string option \<Rightarrow> unix_milliseconds \<Rightarrow> auth_error + auth_record" where
  "revoked_record_with_name r archived revoked_at =
     (let k = ar_api_key r in
      bind_result (api_key_new (ak_key_id k) (case archived of None \<Rightarrow> ak_name k | Some n \<Rightarrow> n) (ak_policy k)
        (ak_created_at k) (Some revoked_at) (ak_rotated_from k)) (\<lambda>k'.
      Inr (r\<lparr>ar_api_key := k'\<rparr>)))"

definition revoked_record :: "auth_record \<Rightarrow> unix_milliseconds \<Rightarrow> auth_error + auth_record" where
  "revoked_record r revoked_at = revoked_record_with_name r None revoked_at"

definition policy_record :: "auth_record \<Rightarrow> api_key_policy \<Rightarrow> auth_error + auth_record" where
  "policy_record r policy =
     (let k = ar_api_key r in
      bind_result (api_key_new (ak_key_id k) (ak_name k) policy (ak_created_at k) (ak_revoked_at k) (ak_rotated_from k))
        (\<lambda>k'. Inr (r\<lparr>ar_api_key := k'\<rparr>)))"

text \<open>The loop that moves a cut back to a character boundary.\<close>

fun boundary_before :: "string \<Rightarrow> nat \<Rightarrow> nat" where
  "boundary_before s 0 = 0"
| "boundary_before s (Suc n) = (if is_char_boundary s (Suc n) then Suc n else boundary_before s n)"

definition archived_rotation_name :: "api_key \<Rightarrow> auth_error + string" where
  "archived_rotation_name k =
     (let suffix = ''-revoked-'' @ ak_key_id k;
          prefix_end = boundary_before (ak_name k) (min (length (ak_name k)) (128 - length suffix));
          name = take prefix_end (ak_name k) @ suffix in
      bind_result (ensure (is_display_name name)
        (InterfaceError ''display name'' ''name must be canonical, non-empty, and at most 128 bytes'')) (\<lambda>_.
      Inr name))"

text \<open>\<open>store.read(key_id)?.ok_or(NotFound)?\<close> with the check of the answer.\<close>

definition read_existing :: "auth_env \<Rightarrow> db_io \<Rightarrow> api_key_id \<Rightarrow> auth_error \<Rightarrow> database \<Rightarrow> auth_error + versioned_record" where
  "read_existing env io key_id missing db =
     bind_result (map_err AuthStore (store_read env io key_id db)) (\<lambda>found.
     bind_result (of_option missing found) (\<lambda>stored.
     bind_result (require_read_record stored key_id) (\<lambda>_. Inr stored)))"

definition create ::
  "auth_env \<Rightarrow> auth_inputs \<Rightarrow> string \<Rightarrow> api_key_policy \<Rightarrow> database
   \<Rightarrow> (auth_error + issued_api_key \<times> auth_event option) \<times> database" where
  "create env inp name policy db =
     (case bind_result (in_now inp) (\<lambda>now.
           bind_result (generate_material inp) (\<lambda>m.
           bind_result (api_key_new (km_key_id m) name policy now None None) (\<lambda>k.
           Inr (k, m)))) of
        Inl e \<Rightarrow> (Inl e, db)
      | Inr (k, m) \<Rightarrow>
          let r = \<lparr>ar_api_key = k, ar_salt = km_salt m, ar_verifier = api_key_verifier env (km_salt m) (km_secret m)\<rparr> in
          (case store_create env (in_io inp 0) r db of
             (Inl e, db') \<Rightarrow> (Inl (AuthStore e), db')
           | (Inr stored, db') \<Rightarrow>
               (bind_result (require_committed_record stored r 0) (\<lambda>_.
                Inr (\<lparr>ik_api_key = k, ik_secret = Some (km_secret m)\<rparr>, Some (ApiKeyCreated (km_key_id m)))), db')))"

definition get_api_key :: "auth_env \<Rightarrow> auth_inputs \<Rightarrow> api_key_id \<Rightarrow> database \<Rightarrow> auth_error + api_key" where
  "get_api_key env inp key_id db =
     bind_result (read_existing env (in_io inp 0) key_id KeyNotFound db) (\<lambda>stored. Inr (ar_api_key (vr_record stored)))"

definition api_keys :: "auth_env \<Rightarrow> auth_inputs \<Rightarrow> database \<Rightarrow> auth_error + api_key list" where
  "api_keys env inp db =
     bind_result (map_err AuthStore (store_all env (in_io inp 0) db)) (\<lambda>stored.
     let keys = map (\<lambda>v. ar_api_key (vr_record v)) stored in
     bind_result (ensure (distinct (map ak_key_id keys) \<and> distinct (map ak_name keys)
         \<and> \<not> list_ex (\<lambda>v. vr_revision v = 0) stored) (AuthStore StoreCorrupt)) (\<lambda>_.
     Inr (sort_key ak_key_id keys)))"

text \<open>
  A replacement of the record that was read. On a conflict the record is read again; an equal
  outcome of another writer counts as done.
\<close>

definition replace_read ::
  "auth_env \<Rightarrow> auth_inputs \<Rightarrow> api_key_id \<Rightarrow> versioned_record \<Rightarrow> auth_record \<Rightarrow> auth_event \<Rightarrow> (auth_record \<Rightarrow> bool) \<Rightarrow> database
   \<Rightarrow> (auth_error + api_key \<times> auth_event option) \<times> database" where
  "replace_read env inp key_id current updated event same db =
     (case store_replace env (in_io inp 1) updated (vr_revision current) db of
        (Inr stored, db') \<Rightarrow>
          (bind_result (require_committed_record stored updated (vr_revision current)) (\<lambda>_.
           Inr (ar_api_key (vr_record stored), Some event)), db')
      | (Inl StoreConflict, db') \<Rightarrow>
          (bind_result (read_existing env (in_io inp 2) key_id KeyNotFound db') (\<lambda>observed.
           if same (vr_record observed) then Inr (ar_api_key (vr_record observed), None)
           else Inl (AuthStore StoreConflict)), db')
      | (Inl e, db') \<Rightarrow> (Inl (AuthStore e), db'))"

text \<open>Each operation after its first read, which may be of an older database.\<close>

definition update_policy_from ::
  "auth_env \<Rightarrow> auth_inputs \<Rightarrow> api_key_id \<Rightarrow> versioned_record \<Rightarrow> api_key_policy \<Rightarrow> database
   \<Rightarrow> (auth_error + api_key \<times> auth_event option) \<times> database" where
  "update_policy_from env inp key_id current policy db =
     (let r = vr_record current in
      if is_revoked r then (Inl KeyNotFound, db)
      else if ak_policy (ar_api_key r) = policy then (Inr (ar_api_key r, None), db)
      else case policy_record r policy of
             Inl e \<Rightarrow> (Inl e, db)
           | Inr updated \<Rightarrow>
               replace_read env inp key_id current updated (ApiKeyPolicyUpdated key_id)
                 (\<lambda>observed. \<not> is_revoked observed
                    \<and> ak_policy (ar_api_key observed) = ak_policy (ar_api_key updated)) db)"

definition update_policy ::
  "auth_env \<Rightarrow> auth_inputs \<Rightarrow> api_key_id \<Rightarrow> api_key_policy \<Rightarrow> database
   \<Rightarrow> (auth_error + api_key \<times> auth_event option) \<times> database" where
  "update_policy env inp key_id policy db =
     (case read_existing env (in_io inp 0) key_id KeyNotFound db of
        Inl e \<Rightarrow> (Inl e, db)
      | Inr current \<Rightarrow> update_policy_from env inp key_id current policy db)"

definition revoke_from ::
  "auth_env \<Rightarrow> auth_inputs \<Rightarrow> api_key_id \<Rightarrow> unix_milliseconds \<Rightarrow> versioned_record \<Rightarrow> database
   \<Rightarrow> (auth_error + api_key \<times> auth_event option) \<times> database" where
  "revoke_from env inp key_id now current db =
     (let r = vr_record current in
      if is_revoked r then (Inr (ar_api_key r, None), db)
      else case revoked_record r now of
             Inl e \<Rightarrow> (Inl e, db)
           | Inr revoked \<Rightarrow>
               replace_read env inp key_id current revoked (ApiKeyRevoked key_id) is_revoked db)"

definition revoke ::
  "auth_env \<Rightarrow> auth_inputs \<Rightarrow> api_key_id \<Rightarrow> database \<Rightarrow> (auth_error + api_key \<times> auth_event option) \<times> database" where
  "revoke env inp key_id db =
     (case bind_result (in_now inp) (\<lambda>now.
           bind_result (read_existing env (in_io inp 0) key_id KeyNotFound db) (\<lambda>current. Inr (now, current))) of
        Inl e \<Rightarrow> (Inl e, db)
      | Inr (now, current) \<Rightarrow> revoke_from env inp key_id now current db)"

definition rotate_record ::
  "auth_env \<Rightarrow> auth_inputs \<Rightarrow> versioned_record \<Rightarrow> string \<Rightarrow> string option \<Rightarrow> database
   \<Rightarrow> (auth_error + issued_api_key \<times> auth_event option) \<times> database" where
  "rotate_record env inp current replacement_name archived_name db =
     (let r = vr_record current; key_id = record_id r in
      case bind_result (in_now inp) (\<lambda>now.
           bind_result (generate_material inp) (\<lambda>m.
           bind_result (api_key_new (km_key_id m) replacement_name (ak_policy (ar_api_key r)) now None (Some key_id)) (\<lambda>k.
           bind_result (revoked_record_with_name r archived_name now) (\<lambda>revoked.
           Inr (k, m, revoked))))) of
        Inl e \<Rightarrow> (Inl e, db)
      | Inr (k, m, revoked) \<Rightarrow>
          let replacement = \<lparr>ar_api_key = k, ar_salt = km_salt m,
                ar_verifier = api_key_verifier env (km_salt m) (km_secret m)\<rparr> in
          (case store_rotate env (in_io inp 1) revoked (vr_revision current) replacement db of
             (Inl e, db') \<Rightarrow> (Inl (AuthStore e), db')
           | (Inr (stored_revoked, stored_replacement), db') \<Rightarrow>
               (bind_result (require_committed_record stored_revoked revoked (vr_revision current)) (\<lambda>_.
                bind_result (require_committed_record stored_replacement replacement 0) (\<lambda>_.
                Inr (\<lparr>ik_api_key = k, ik_secret = Some (km_secret m)\<rparr>,
                     Some (ApiKeyRotated key_id (km_key_id m))))), db')))"

definition rotate_from ::
  "auth_env \<Rightarrow> auth_inputs \<Rightarrow> versioned_record \<Rightarrow> string \<Rightarrow> database
   \<Rightarrow> (auth_error + issued_api_key \<times> auth_event option) \<times> database" where
  "rotate_from env inp current replacement_name db =
     (if is_revoked (vr_record current) then (Inl KeyNotFound, db)
      else rotate_record env inp current replacement_name None db)"

definition rotate_api_key ::
  "auth_env \<Rightarrow> auth_inputs \<Rightarrow> api_key_id \<Rightarrow> string \<Rightarrow> database
   \<Rightarrow> (auth_error + issued_api_key \<times> auth_event option) \<times> database" where
  "rotate_api_key env inp key_id replacement_name db =
     (case read_existing env (in_io inp 0) key_id KeyNotFound db of
        Inl e \<Rightarrow> (Inl e, db)
      | Inr current \<Rightarrow> rotate_from env inp current replacement_name db)"

definition rotate_preserving_name_from ::
  "auth_env \<Rightarrow> auth_inputs \<Rightarrow> versioned_record \<Rightarrow> database
   \<Rightarrow> (auth_error + issued_api_key \<times> auth_event option) \<times> database" where
  "rotate_preserving_name_from env inp current db =
     (if is_revoked (vr_record current) then (Inl KeyNotFound, db)
      else case archived_rotation_name (ar_api_key (vr_record current)) of
             Inl e \<Rightarrow> (Inl e, db)
           | Inr archived \<Rightarrow> rotate_record env inp current (ak_name (ar_api_key (vr_record current))) (Some archived) db)"

definition rotate_preserving_name ::
  "auth_env \<Rightarrow> auth_inputs \<Rightarrow> api_key_id \<Rightarrow> database
   \<Rightarrow> (auth_error + issued_api_key \<times> auth_event option) \<times> database" where
  "rotate_preserving_name env inp key_id db =
     (case read_existing env (in_io inp 0) key_id KeyNotFound db of
        Inl e \<Rightarrow> (Inl e, db)
      | Inr current \<Rightarrow> rotate_preserving_name_from env inp current db)"

section \<open>Authentication of a bearer token\<close>

definition parse_token :: "string \<Rightarrow> (api_key_id \<times> byte list) option" where
  "parse_token token =
     (if take 3 token \<noteq> ''li_'' then None else
      let value = drop 3 token;
          identifier = takeWhile (\<lambda>c. c \<noteq> CHR ''_'') value;
          secret = drop (Suc (length identifier)) value in
      if CHR ''_'' \<notin> set value \<or> CHR ''_'' \<in> set secret \<or> \<not> is_api_key_id identifier then None
      else map_option (\<lambda>bytes. (identifier, bytes)) (decode_hexadecimal 32 secret))"

definition expired_at :: "unix_milliseconds \<Rightarrow> api_key \<Rightarrow> bool" where
  "expired_at now k = (case ap_expires_at (ak_policy k) of None \<Rightarrow> False | Some expiry \<Rightarrow> expiry \<le> now)"

definition authenticate_identity :: "auth_env \<Rightarrow> auth_inputs \<Rightarrow> string \<Rightarrow> database \<Rightarrow> auth_error + auth_principal" where
  "authenticate_identity env inp token db =
     bind_result (of_option Unauthorized (parse_token token)) (\<lambda>(key_id, secret).
     bind_result (read_existing env (in_io inp 0) key_id Unauthorized db) (\<lambda>stored.
     let r = vr_record stored; k = ar_api_key r in
     bind_result (in_now inp) (\<lambda>now.
     bind_result (ensure (\<not> (is_revoked r \<or> expired_at now k)) Unauthorized) (\<lambda>_.
     bind_result (ensure (ar_verifier r = api_key_verifier env (ar_salt r) secret) Unauthorized) (\<lambda>_.
     Inr \<lparr>ap_key_id = ak_key_id k, ap_policy = ak_policy k\<rparr>)))))"

definition authenticate ::
  "auth_env \<Rightarrow> auth_inputs \<Rightarrow> string \<Rightarrow> logical_model_name \<Rightarrow> database \<Rightarrow> auth_error + auth_principal" where
  "authenticate env inp token model db =
     bind_result (authenticate_identity env inp token db) (\<lambda>principal.
     bind_result (ensure (permits (ap_model_scope (ap_policy principal)) model) Unauthorized) (\<lambda>_.
     Inr principal))"

section \<open>Well-formed records\<close>

text \<open>What the Rust types of a policy and of a record ensure.\<close>

definition option_ok :: "('a \<Rightarrow> bool) \<Rightarrow> 'a option \<Rightarrow> bool" where
  "option_ok P x \<longleftrightarrow> (\<forall>v. x = Some v \<longrightarrow> P v)"

definition scope_ok :: "model_scope \<Rightarrow> bool" where
  "scope_ok scope \<longleftrightarrow>
     (case scope of AllModels \<Rightarrow> True
      | SelectedModels ms \<Rightarrow> ms \<noteq> [] \<and> length ms \<le> 128 \<and> distinct ms \<and> list_all is_technical_name ms)"

definition policy_ok :: "api_key_policy \<Rightarrow> bool" where
  "policy_ok p \<longleftrightarrow> scope_ok (ap_model_scope p)
     \<and> option_ok (\<lambda>n. n \<noteq> 0) (requests_per_minute (ap_limits p)) \<and> option_ok (\<lambda>n. n \<noteq> 0) (tokens_per_minute (ap_limits p))
     \<and> option_ok (\<lambda>n. n \<noteq> 0) (concurrency (ap_limits p)) \<and> option_ok (\<lambda>n. n \<noteq> 0) (context_tokens (ap_limits p))
     \<and> option_ok is_technical_name (ap_tenant p) \<and> option_ok is_technical_name (ap_application p)"

definition api_key_ok :: "api_key \<Rightarrow> bool" where
  "api_key_ok k \<longleftrightarrow> is_api_key_id (ak_key_id k) \<and> is_display_name (ak_name k) \<and> policy_ok (ak_policy k)
     \<and> option_ok is_api_key_id (ak_rotated_from k)
     \<and> option_ok (\<lambda>e. ak_created_at k < e) (ap_expires_at (ak_policy k))
     \<and> option_ok (\<lambda>t. ak_created_at k \<le> t) (ak_revoked_at k)"

abbreviation auth_record_ok :: "auth_record \<Rightarrow> bool" where
  "auth_record_ok r \<equiv> api_key_ok (ar_api_key r)"

text \<open>What a key keeps for its whole life.\<close>

definition same_key :: "auth_record \<Rightarrow> auth_record \<Rightarrow> bool" where
  "same_key r r' \<longleftrightarrow> record_id r' = record_id r \<and> ar_salt r' = ar_salt r \<and> ar_verifier r' = ar_verifier r
     \<and> ak_created_at (ar_api_key r') = ak_created_at (ar_api_key r)
     \<and> ak_rotated_from (ar_api_key r') = ak_rotated_from (ar_api_key r)"

lemma option_ok_simps [simp]: "option_ok P None" "option_ok P (Some v) \<longleftrightarrow> P v"
  by (simp_all add: option_ok_def)

lemma api_key_new_Inr:
  "api_key_new i n p c rv rf = Inr k \<longleftrightarrow>
     option_ok (\<lambda>e. c < e) (ap_expires_at p) \<and> option_ok (\<lambda>t. c \<le> t) rv
     \<and> k = \<lparr>ak_key_id = i, ak_name = n, ak_policy = p, ak_created_at = c, ak_revoked_at = rv, ak_rotated_from = rf\<rparr>"
  by (cases "ap_expires_at p"; cases rv) (auto simp: api_key_new_def)

lemma parse_option_Inr [simp]: "parse_option valid s = Inr t \<longleftrightarrow> t = s \<and> option_ok valid s"
  by (cases s) (auto simp: parse_option_def parse_or_corrupt_def)

lemma parse_or_corrupt_Inr [simp]: "parse_or_corrupt valid s = Inr t \<longleftrightarrow> t = s \<and> valid s"
  by (auto simp: parse_or_corrupt_def)

lemma parse_models_Inr: "try_map (parse_or_corrupt valid) ms = Inr xs \<longleftrightarrow> xs = ms \<and> list_all valid ms"
  by (induction ms arbitrary: xs) (auto simp: result_simps)

lemma scope_selected_Inr:
  "scope_selected ms = Inr scope \<longleftrightarrow> scope = SelectedModels ms \<and> ms \<noteq> [] \<and> length ms \<le> 128 \<and> distinct ms"
  by (auto simp: scope_selected_def)

lemma database_record_round_trip:
  assumes "auth_record_ok r"
  shows "authentication_record (authentication_database_record r) = Inr r"
proof -
  have scope: "(case (case scope of AllModels \<Rightarrow> None | SelectedModels models \<Rightarrow> Some models) of
      None \<Rightarrow> Inr AllModels
    | Some models \<Rightarrow> bind_result (try_map (parse_or_corrupt is_technical_name) models) (\<lambda>ms.
        map_err (\<lambda>_. StoreCorrupt) (scope_selected ms))) = Inr scope" if "scope_ok scope" for scope
    using that parse_models_Inr [of is_technical_name]
    by (auto simp: scope_ok_def result_simps scope_selected_Inr split: model_scope.splits)
  have parse: "parse_option valid t = Inr t" if "option_ok valid t" for valid t using that by simp
  have parse1: "parse_or_corrupt valid t = Inr t" if "valid t" for valid t using that by simp
  have key: "api_key_new (ak_key_id k) (ak_name k) (ak_policy k) (ak_created_at k) (ak_revoked_at k) (ak_rotated_from k)
      = Inr k" if "api_key_ok k" for k
    using that by (simp add: api_key_ok_def api_key_new_Inr)
  have eta: "\<lparr>ap_model_scope = ap_model_scope p, ap_expires_at = ap_expires_at p,
      ap_limits = \<lparr>requests_per_minute = requests_per_minute (ap_limits p), tokens_per_minute = tokens_per_minute (ap_limits p),
        concurrency = concurrency (ap_limits p), context_tokens = context_tokens (ap_limits p)\<rparr>,
      ap_tenant = ap_tenant p, ap_application = ap_application p\<rparr> = p" for p :: api_key_policy by simp
  have limits: "x \<noteq> Some 0" if "option_ok (\<lambda>n. n \<noteq> 0) x" for x :: "nat option" using that by (cases x) auto
  show ?thesis
    using assms key [OF assms]
    unfolding authentication_record_def authentication_database_record_def Let_def api_key_ok_def policy_ok_def
    by (simp add: scope parse parse1 eta limits)
qed

lemma authentication_record_ok:
  assumes "authentication_record d = Inr r"
  shows "auth_record_ok r" and "record_id r = ad_key_id d"
proof -
  from assms show "record_id r = ad_key_id d"
    by (auto simp: authentication_record_def result_simps api_key_new_Inr split: if_splits)
  from assms show "auth_record_ok r"
    by (auto simp: authentication_record_def result_simps api_key_new_Inr api_key_ok_def policy_ok_def scope_ok_def
        parse_models_Inr scope_selected_Inr option_ok_def split: if_splits option.splits)
qed

lemma derived_record_ok:
  assumes "auth_record_ok r"
  shows "policy_record r p = Inr r' \<Longrightarrow> policy_ok p \<Longrightarrow> auth_record_ok r' \<and> same_key r r'"
    and "revoked_record_with_name r n t = Inr r' \<Longrightarrow> option_ok is_display_name n \<Longrightarrow> auth_record_ok r' \<and> same_key r r'"
  using assms
  by (auto simp: policy_record_def revoked_record_with_name_def Let_def result_simps api_key_new_Inr api_key_ok_def
      same_key_def split: option.splits)

section \<open>Rows of keys\<close>

definition auth_rows :: "database \<Rightarrow> api_key_id \<Rightarrow> db_row option" where
  "auth_rows db k = map_of (db_records db) (Authentication, k)"

text \<open>What a row reads as.\<close>

definition stored_row :: "auth_env \<Rightarrow> api_key_id \<Rightarrow> db_row \<Rightarrow> versioned_record option" where
  "stored_row env k row =
     (case bind_result (map_err authentication_store_error (decode_record (auth_type env) k row)) versioned_authentication_record of
        Inl _ \<Rightarrow> None | Inr v \<Rightarrow> Some v)"

lemma stored_row_Some:
  "stored_row env k row = Some v \<longleftrightarrow>
     (\<exists>d r. ae_from_json env (row_payload row) = Some d \<and> authentication_record d = Inr r \<and> ad_key_id d = k
       \<and> row_version row = 1 \<and> 0 < row_revision row \<and> 0 \<le> row_created row \<and> 0 \<le> row_updated row
       \<and> v = \<lparr>vr_record = r, vr_revision = nat (row_revision row)\<rparr>)"
  by (auto simp: stored_row_def decode_record_def versioned_authentication_record_def auth_type_def result_simps
      revision_from_sql_def valid_timestamp_def split: sum.splits if_splits)

lemma stored_rowD:
  assumes "stored_row env k row = Some v"
  shows "record_id (vr_record v) = k" and "auth_record_ok (vr_record v)" and "row_revision row = int (vr_revision v)"
    and "0 < vr_revision v" and "row_version row = 1" and "0 \<le> row_created row" and "0 \<le> row_updated row"
  using assms authentication_record_ok by (auto simp: stored_row_Some)

lemma stored_rowI:
  assumes "ae_from_json env (row_payload row) = Some (authentication_database_record r)" and "auth_record_ok r"
    and "row_version row = 1" and "row_revision row = int n" and "0 < n" and "0 \<le> row_created row" and "0 \<le> row_updated row"
  shows "stored_row env (record_id r) row = Some \<lparr>vr_record = r, vr_revision = n\<rparr>"
  using assms database_record_round_trip [OF assms(2)]
  by (auto simp: stored_row_Some authentication_database_record_def Let_def)

lemma api_key_id_valid: "is_api_key_id k \<Longrightarrow> validate_identifier k = Inr ()"
  by (rule validate_visible(1) [OF lower_hex_visible]) (auto simp: is_lower_hex_def)

lemma store_read_row:
  assumes "db_closed db = False" and "is_api_key_id k" and "io_fault io OpenReader = None"
    and "io_fault io (SelectRecord (Authentication, k)) = None"
  shows "auth_rows db k = None \<Longrightarrow> store_read env io k db = Inr None"
    and "auth_rows db k = Some row \<Longrightarrow> stored_row env k row = Some v \<Longrightarrow> store_read env io k db = Inr (Some v)"
proof -
  have "validate_identifier k = Inr ()" by (rule api_key_id_valid [OF assms(2)])
  then have one: "read_one_record (auth_type env) io k db
      = bind_result (of_option (NotFound Authentication k) (auth_rows db k)) (decode_record (auth_type env) k)"
    using assms by (simp add: read_one_record_def auth_type_def auth_rows_def sql_def)
  show "auth_rows db k = None \<Longrightarrow> store_read env io k db = Inr None" by (simp add: store_read_def one)
  assume row: "auth_rows db k = Some row" "stored_row env k row = Some v"
  then obtain st where "decode_record (auth_type env) k row = Inr st" "versioned_authentication_record st = Inr v"
    by (auto simp: stored_row_def result_simps split: sum.splits)
  with row show "store_read env io k db = Inr (Some v)" by (simp add: store_read_def one)
qed

lemma store_read_Some:
  assumes "store_read env io k db = Inr (Some v)"
  shows "\<exists>row. auth_rows db k = Some row \<and> stored_row env k row = Some v"
proof -
  from assms obtain st where st: "read_one_record (auth_type env) io k db = Inr st" "versioned_authentication_record st = Inr v"
    by (auto simp: store_read_def result_simps split: sum.splits db_error.splits)
  then obtain row where "map_of (db_records db) (Authentication, k) = Some row"
    "decode_record (auth_type env) k row = Inr st"
    by (auto simp: read_one_record_def result_simps auth_type_def split: if_splits)
  with st show ?thesis by (auto simp: auth_rows_def stored_row_def)
qed

lemma read_existing_Inr:
  assumes "read_existing env io k missing db = Inr v"
  shows "\<exists>row. auth_rows db k = Some row \<and> stored_row env k row = Some v"
  using assms store_read_Some by (auto simp: read_existing_def result_simps)

end
