(* ===== verification/AuthenticationRuns.thy ===== *)
theory AuthenticationRuns
  imports Authentication
begin

text \<open>
  Interleavings of the operations on API keys. A state is the database and the records that running
  operations have read from it so far; a step is one store call of an operation, or a write of another
  part of the program to its own collections. The rows of the keys are shown to obey
  \<open>revisioned_rows\<close>, with the revoked rows as the frozen ones.
\<close>

section \<open>Steps of one row\<close>

definition revoked_row :: "auth_env \<Rightarrow> api_key_id \<Rightarrow> db_row \<Rightarrow> bool" where
  "revoked_row env k row \<longleftrightarrow> (\<exists>v. stored_row env k row = Some v \<and> is_revoked (vr_record v))"

definition same_row_key :: "auth_env \<Rightarrow> api_key_id \<Rightarrow> db_row \<Rightarrow> db_row \<Rightarrow> bool" where
  "same_row_key env k row row' \<longleftrightarrow>
     (\<exists>v v'. stored_row env k row = Some v \<and> stored_row env k row' = Some v' \<and> same_key (vr_record v) (vr_record v'))"

text \<open>A row stays, appears with revision 1, or is replaced by the next revision of a key that is not revoked.\<close>

definition key_step :: "auth_env \<Rightarrow> api_key_id \<Rightarrow> db_row option \<Rightarrow> db_row option \<Rightarrow> bool" where
  "key_step env k old new \<longleftrightarrow> new = old
     \<or> (\<exists>row r. old = None \<and> new = Some row \<and> stored_row env k row = Some \<lparr>vr_record = r, vr_revision = 1\<rparr>)
     \<or> (\<exists>row row'. old = Some row \<and> new = Some row' \<and> \<not> revoked_row env k row
          \<and> row_revision row' = row_revision row + 1 \<and> same_row_key env k row row')"

abbreviation rows_step :: "auth_env \<Rightarrow> (api_key_id \<Rightarrow> db_row option) \<Rightarrow> (api_key_id \<Rightarrow> db_row option) \<Rightarrow> bool" where
  "rows_step env m m' \<equiv> \<forall>k. key_step env k (m k) (m' k)"

lemma same_key_trans: "same_key a b \<Longrightarrow> same_key b c \<Longrightarrow> same_key a c"
  by (simp add: same_key_def)

interpretation key_rows: revisioned_rows "key_step env" row_revision "revoked_row env" "same_row_key env" for env
proof unfold_locales
  fix k r new
  assume "key_step env k (Some r) new"
  then show "\<exists>r'. new = Some r' \<and> (r' = r \<or> \<not> revoked_row env k r \<and> row_revision r < row_revision r' \<and> same_row_key env k r r')"
    by (auto simp: key_step_def)
next
  fix k a b c
  assume "same_row_key env k a b" "same_row_key env k b c"
  then show "same_row_key env k a c" using same_key_trans by (fastforce simp: same_row_key_def)
qed

lemma key_step_refl [simp]: "key_step env k x x"
  by (simp add: key_step_def)

lemma key_step_created: "stored_row env k row = Some \<lparr>vr_record = r, vr_revision = 1\<rparr> \<Longrightarrow> key_step env k None (Some row)"
  by (auto simp: key_step_def)

section \<open>Store calls\<close>

text \<open>The JSON form of a record reads back.\<close>

definition json_reads_back :: "auth_env \<Rightarrow> bool" where
  "json_reads_back env \<longleftrightarrow> (\<forall>d bs. ae_to_json env d = Some bs \<longrightarrow> ae_from_json env bs = Some d)"

lemma prepare_auth_save:
  assumes "prepare_save (auth_type env) key (authentication_database_record r) expected = Inr c"
  shows "\<exists>payload. ae_to_json env (authentication_database_record r) = Some payload
    \<and> c = Save Authentication 1 (record_id r) payload key expected"
  using assms by (auto simp: prepare_save_def result_simps auth_type_def authentication_database_record_def Let_def)

lemma store_write_cases:
  assumes "store_write env io key r expected db = (res, db')"
  obtains (same) "auth_rows db' = auth_rows db" "\<And>v. res \<noteq> Inr v"
  | (new) now payload c where "0 \<le> now" "ae_to_json env (authentication_database_record r) = Some payload"
      "c = Save Authentication 1 (record_id r) payload key expected"
      "revision_matches expected (revision_of (auth_rows db (record_id r)))"
      "auth_rows db' = (auth_rows db)(record_id r := applied c now (auth_rows db (record_id r)))"
      "res = Inr \<lparr>vr_record = r, vr_revision = cm_revision (commit_of c now (auth_rows db (record_id r)))\<rparr>"
proof (cases "\<exists>c res1. \<not> db_closed db \<and> prepare_save (auth_type env) key (authentication_database_record r) expected = Inr c
    \<and> run_command (ae_codec env) io c db = (res1, db')")
  case False
  then have "db' = db" "\<And>v. res \<noteq> Inr v"
    using assms by (auto simp: store_write_def database_write_def split: if_splits sum.splits prod.splits disposition.splits)
  then show ?thesis by (intro that(1)) simp_all
next
  case True
  then obtain c res1 where prep: "\<not> db_closed db" "prepare_save (auth_type env) key (authentication_database_record r) expected = Inr c"
    and run: "run_command (ae_codec env) io c db = (res1, db')" by blast
  obtain payload where c: "ae_to_json env (authentication_database_record r) = Some payload"
    "c = Save Authentication 1 (record_id r) payload key expected" using prepare_auth_save [OF prep(2)] by blast
  from run show ?thesis
  proof (cases rule: run_command_effect)
    case same
    then show ?thesis using assms prep run
      by (intro that(1)) (auto simp: store_write_def database_write_def split: if_splits sum.splits prod.splits disposition.splits)
  next
    case (new now)
    then show ?thesis using assms prep run c
      by (intro that(2) [of now payload c])
        (auto simp: store_write_def database_write_def auth_rows_def apply_effect_def fun_eq_iff split: prod.splits)
  qed
qed

text \<open>A saved row reads as the record that was saved.\<close>

lemma created_row:
  assumes "json_reads_back env" and "ae_to_json env (authentication_database_record r) = Some payload"
    and "auth_record_ok r" and "0 \<le> now"
  shows "\<exists>row. applied (Save Authentication 1 (record_id r) payload key expected) now None = Some row
    \<and> stored_row env (record_id r) row = Some \<lparr>vr_record = r, vr_revision = 1\<rparr>"
  using assms by (auto simp: json_reads_back_def intro!: stored_rowI)

lemma replaced_row:
  assumes "json_reads_back env" and "ae_to_json env (authentication_database_record r) = Some payload"
    and "auth_record_ok r" and "0 \<le> now" and "stored_row env k row = Some v" and "record_id r = k"
  shows "\<exists>row'. applied (Save Authentication 1 k payload key expected) now (Some row) = Some row'
    \<and> row_revision row' = row_revision row + 1
    \<and> stored_row env k row' = Some \<lparr>vr_record = r, vr_revision = Suc (vr_revision v)\<rparr>"
  using assms stored_rowD [OF assms(5)] by (auto simp: json_reads_back_def intro!: stored_rowI)

lemma replaced_step:
  assumes "stored_row env k row = Some v" and "\<not> is_revoked (vr_record v)" and "row_revision row' = row_revision row + 1"
    and "stored_row env k row' = Some v'" and "same_key (vr_record v) (vr_record v')"
  shows "key_step env k (Some row) (Some row')"
  using assms by (auto simp: key_step_def revoked_row_def same_row_key_def)

text \<open>A record that an operation has read: the row has moved on, or is still the row it was read from.\<close>

definition snapshot_ok :: "auth_env \<Rightarrow> (api_key_id \<Rightarrow> db_row option) \<Rightarrow> versioned_record \<Rightarrow> bool" where
  "snapshot_ok env m v \<longleftrightarrow>
     (\<exists>row0 row. stored_row env (record_id (vr_record v)) row0 = Some v \<and> m (record_id (vr_record v)) = Some row
       \<and> row_revision row0 \<le> row_revision row \<and> (row_revision row = row_revision row0 \<longrightarrow> row = row0))"

lemma snapshot_read: "m k = Some row \<Longrightarrow> stored_row env k row = Some v \<Longrightarrow> snapshot_ok env m v"
  using stored_rowD(1) by (fastforce simp: snapshot_ok_def)

lemma snapshot_step:
  assumes "snapshot_ok env m v" and "rows_step env m m'"
  shows "snapshot_ok env m' v"
proof -
  let ?k = "record_id (vr_record v)"
  obtain row0 row where row: "stored_row env ?k row0 = Some v" "m ?k = Some row"
    "row_revision row0 \<le> row_revision row" "row_revision row = row_revision row0 \<longrightarrow> row = row0"
    using assms(1) by (auto simp: snapshot_ok_def)
  obtain row' where "m' ?k = Some row'" "row' = row \<or> row_revision row < row_revision row'"
    using key_rows.row_stays [of env m m' ?k row] assms(2) row(2) by blast
  with row show ?thesis by (auto simp: snapshot_ok_def)
qed

lemma snapshot_current:
  assumes "snapshot_ok env m v" and "revision_matches (Exact (vr_revision v)) (revision_of (m (record_id (vr_record v))))"
  shows "\<exists>row. m (record_id (vr_record v)) = Some row \<and> stored_row env (record_id (vr_record v)) row = Some v"
proof -
  obtain row0 row where row: "stored_row env (record_id (vr_record v)) row0 = Some v" "m (record_id (vr_record v)) = Some row"
    "row_revision row0 \<le> row_revision row" "row_revision row = row_revision row0 \<longrightarrow> row = row0"
    using assms(1) by (auto simp: snapshot_ok_def)
  then have "row_revision row = row_revision row0"
    using assms(2) stored_rowD(3,4) [OF row(1)] by (auto simp: revision_matches_def revision_of_def)
  with row show ?thesis by simp
qed

lemma store_create_step:
  assumes "json_reads_back env" and "auth_record_ok r" and "store_create env io r db = (res, db')"
  shows "rows_step env (auth_rows db) (auth_rows db')"
    and "res = Inr w \<Longrightarrow> w = \<lparr>vr_record = r, vr_revision = 1\<rparr> \<and> auth_rows db (record_id r) = None
      \<and> (\<exists>row. auth_rows db' = (auth_rows db)(record_id r \<mapsto> row) \<and> stored_row env (record_id r) row = Some w)"
proof -
  have "rows_step env (auth_rows db) (auth_rows db') \<and> (res = Inr w \<longrightarrow>
      w = \<lparr>vr_record = r, vr_revision = 1\<rparr> \<and> auth_rows db (record_id r) = None
      \<and> (\<exists>row. auth_rows db' = (auth_rows db)(record_id r \<mapsto> row) \<and> stored_row env (record_id r) row = Some w))"
    using assms(3) unfolding store_create_def
  proof (cases rule: store_write_cases)
    case same
    then show ?thesis by simp
  next
    case (new now payload c)
    then have none: "auth_rows db (record_id r) = None" by (auto simp: revision_matches_def revision_of_def)
    obtain row where "applied c now None = Some row" "stored_row env (record_id r) row = Some \<lparr>vr_record = r, vr_revision = 1\<rparr>"
      using created_row [OF assms(1) new(2) assms(2) new(1)] new(3) by blast
    then show ?thesis using new none by (auto simp: key_step_def commit_of_def)
  qed
  then show "rows_step env (auth_rows db) (auth_rows db')"
    "res = Inr w \<Longrightarrow> w = \<lparr>vr_record = r, vr_revision = 1\<rparr> \<and> auth_rows db (record_id r) = None
      \<and> (\<exists>row. auth_rows db' = (auth_rows db)(record_id r \<mapsto> row) \<and> stored_row env (record_id r) row = Some w)" by blast+
qed

lemma store_replace_step:
  assumes "json_reads_back env" and snap: "snapshot_ok env (auth_rows db) v" and "\<not> is_revoked (vr_record v)"
    and ok: "auth_record_ok (vr_record v) \<Longrightarrow> auth_record_ok r \<and> same_key (vr_record v) r" and id: "record_id r = record_id (vr_record v)"
    and "store_replace env io r (vr_revision v) db = (res, db')"
  shows "rows_step env (auth_rows db) (auth_rows db')"
    and "res = Inr w \<Longrightarrow> w = \<lparr>vr_record = r, vr_revision = Suc (vr_revision v)\<rparr>
      \<and> (\<exists>row. auth_rows db' (record_id r) = Some row \<and> stored_row env (record_id r) row = Some w)"
proof -
  have "rows_step env (auth_rows db) (auth_rows db') \<and> (res = Inr w \<longrightarrow> w = \<lparr>vr_record = r, vr_revision = Suc (vr_revision v)\<rparr>
      \<and> (\<exists>row. auth_rows db' (record_id r) = Some row \<and> stored_row env (record_id r) row = Some w))"
    using assms(6) unfolding store_replace_def
  proof (cases rule: store_write_cases)
    case same
    then show ?thesis by simp
  next
    case (new now payload c)
    obtain row where row: "auth_rows db (record_id r) = Some row" "stored_row env (record_id r) row = Some v"
      using snapshot_current [OF snap] new(4) id by auto
    have r: "auth_record_ok r" "same_key (vr_record v) r" using ok stored_rowD(2) [OF row(2)] by blast+
    obtain row' where row': "applied c now (Some row) = Some row'" "row_revision row' = row_revision row + 1"
      "stored_row env (record_id r) row' = Some \<lparr>vr_record = r, vr_revision = Suc (vr_revision v)\<rparr>"
      using replaced_row [OF assms(1) new(2) r(1) new(1) row(2) refl] new(3) by blast
    have "key_step env (record_id r) (Some row) (Some row')"
      by (rule replaced_step [OF row(2) assms(3) row'(2,3)]) (simp add: r)
    moreover have "cm_revision (commit_of c now (Some row)) = Suc (vr_revision v)"
      using stored_rowD(3) [OF row(2)] by (simp add: commit_of_def)
    ultimately show ?thesis using new row row' by (auto simp: key_step_def)
  qed
  then show "rows_step env (auth_rows db) (auth_rows db')"
    "res = Inr w \<Longrightarrow> w = \<lparr>vr_record = r, vr_revision = Suc (vr_revision v)\<rparr>
      \<and> (\<exists>row. auth_rows db' (record_id r) = Some row \<and> stored_row env (record_id r) row = Some w)" by blast+
qed

lemma rotation_transaction_Inr:
  assumes "rotation_transaction env r n r' = Inr tx"
  shows "\<exists>payload payload'. ae_to_json env (authentication_database_record r) = Some payload
    \<and> ae_to_json env (authentication_database_record r') = Some payload' \<and> record_id r \<noteq> record_id r'
    \<and> snd tx = [Save Authentication 1 (record_id r) payload (fst tx) (Exact n),
                Save Authentication 1 (record_id r') payload' (fst tx) Missing]"
proof -
  from assms obtain key c c' where parts: "prepare_save (auth_type env) key (authentication_database_record r) (Exact n) = Inr c"
    "prepare_save (auth_type env) key (authentication_database_record r') Missing = Inr c'"
    "target c \<noteq> target c'" "tx = (key, [c, c'])"
    by (auto simp: rotation_transaction_def transaction_new_def transaction_save_def add_command_def result_simps split: if_splits)
  from prepare_auth_save [OF parts(1)] prepare_auth_save [OF parts(2)] parts(3,4) show ?thesis by auto
qed

lemma store_rotate_step:
  assumes "json_reads_back env" and snap: "snapshot_ok env (auth_rows db) v" and "\<not> is_revoked (vr_record v)"
    and ok: "auth_record_ok (vr_record v) \<Longrightarrow> auth_record_ok r \<and> same_key (vr_record v) r" and id: "record_id r = record_id (vr_record v)"
    and ok': "auth_record_ok (vr_record v) \<Longrightarrow> auth_record_ok r'"
    and "store_rotate env io r (vr_revision v) r' db = (res, db')"
  shows "auth_rows db' = auth_rows db \<and> (\<forall>w. res \<noteq> Inr w)
    \<or> (\<exists>row row' row1. auth_rows db (record_id r) = Some row \<and> stored_row env (record_id r) row = Some v
        \<and> auth_rows db (record_id r') = None \<and> record_id r' \<noteq> record_id r
        \<and> auth_rows db' = (auth_rows db)(record_id r \<mapsto> row1, record_id r' \<mapsto> row')
        \<and> row_revision row1 = row_revision row + 1
        \<and> stored_row env (record_id r) row1 = Some \<lparr>vr_record = r, vr_revision = Suc (vr_revision v)\<rparr>
        \<and> stored_row env (record_id r') row' = Some \<lparr>vr_record = r', vr_revision = 1\<rparr>
        \<and> res = Inr (\<lparr>vr_record = r, vr_revision = Suc (vr_revision v)\<rparr>, \<lparr>vr_record = r', vr_revision = 1\<rparr>))"
proof (cases "\<exists>tx res1. \<not> db_closed db \<and> rotation_transaction env r (vr_revision v) r' = Inr tx
    \<and> run_transaction (ae_codec env) io (fst tx) (snd tx) db = (res1, db')")
  case False
  then have "db' = db \<and> (\<forall>w. res \<noteq> Inr w)"
    using assms(7) rotation_transaction_Inr
    by (fastforce simp: store_rotate_def database_write_transaction_def split: if_splits sum.splits prod.splits disposition.splits)
  then show ?thesis by simp
next
  case True
  then obtain tx res1 where tx: "\<not> db_closed db" "rotation_transaction env r (vr_revision v) r' = Inr tx"
    and run: "run_transaction (ae_codec env) io (fst tx) (snd tx) db = (res1, db')" by blast
  obtain payload payload' where cs: "ae_to_json env (authentication_database_record r) = Some payload"
    "ae_to_json env (authentication_database_record r') = Some payload'" "record_id r \<noteq> record_id r'"
    "snd tx = [Save Authentication 1 (record_id r) payload (fst tx) (Exact (vr_revision v)),
               Save Authentication 1 (record_id r') payload' (fst tx) Missing]" using rotation_transaction_Inr [OF tx(2)] by blast
  from run show ?thesis
  proof (cases rule: run_transaction_effect)
    case same
    then show ?thesis using assms(7) tx run cs(4)
      by (auto simp: store_rotate_def database_write_transaction_def split: if_splits sum.splits prod.splits disposition.splits)
  next
    case (new now)
    have guard: "revision_matches (Exact (vr_revision v)) (revision_of (auth_rows db (record_id (vr_record v))))"
      and none: "auth_rows db (record_id r') = None"
      using new(3) cs(3) by (auto simp: cs(4) auth_rows_def apply_effect_def revision_matches_def revision_of_def id)
    obtain row where row: "auth_rows db (record_id r) = Some row" "stored_row env (record_id r) row = Some v"
      using snapshot_current [OF snap guard] id by auto
    have r: "auth_record_ok r" "auth_record_ok r'" using ok ok' stored_rowD(2) [OF row(2)] by blast+
    obtain row1 where row1: "applied (hd (snd tx)) now (Some row) = Some row1" "row_revision row1 = row_revision row + 1"
      "stored_row env (record_id r) row1 = Some \<lparr>vr_record = r, vr_revision = Suc (vr_revision v)\<rparr>"
      using replaced_row [OF assms(1) cs(1) r(1) new(1) row(2) refl] cs(4) by fastforce
    obtain row' where row': "applied (snd tx ! 1) now None = Some row'"
      "stored_row env (record_id r') row' = Some \<lparr>vr_record = r', vr_revision = 1\<rparr>"
      using created_row [OF assms(1) cs(2) r(2) new(1)] cs(4) by fastforce
    have rows: "auth_rows db' = (auth_rows db)(record_id r \<mapsto> row1, record_id r' \<mapsto> row')"
      using new(4) row(1) none row1(1) row'(1) cs(3)
      by (auto simp: cs(4) auth_rows_def apply_effect_def fun_eq_iff)
    have "nat (row_revision row) = vr_revision v" using stored_rowD(3) [OF row(2)] by simp
    then have "res = Inr (\<lparr>vr_record = r, vr_revision = Suc (vr_revision v)\<rparr>, \<lparr>vr_record = r', vr_revision = 1\<rparr>)"
      using assms(7) tx run new(2) row(1) none cs(3)
      by (auto simp: store_rotate_def database_write_transaction_def cs(4) commit_of_def apply_effect_def auth_rows_def)
    with row none cs(3) rows row1 row' show ?thesis by metis
  qed
qed

section \<open>Operations\<close>

lemma generate_material_Inr:
  assumes "generate_material inp = Inr m"
  shows "is_api_key_id (km_key_id m)" and "length (km_secret m) = 32"
  using assms by (auto simp: generate_material_def fill_bytes_def result_simps)

lemma new_key_ok:
  assumes "generate_material inp = Inr m" and "api_key_new (km_key_id m) name policy now None rotated_from = Inr k"
    and "is_display_name name" and "policy_ok policy" and "option_ok is_api_key_id rotated_from"
  shows "api_key_ok k" and "ak_key_id k = km_key_id m" and "ak_policy k = policy" and "ak_revoked_at k = None"
  using assms generate_material_Inr [OF assms(1)] by (auto simp: api_key_new_Inr api_key_ok_def)

lemma create_step:
  assumes "json_reads_back env" and "is_display_name name" and "policy_ok policy"
    and "create env inp name policy db = (res, db')"
  shows "rows_step env (auth_rows db) (auth_rows db')"
    and "res = Inr (issued, event) \<Longrightarrow> \<exists>secret row r. ik_secret issued = Some secret \<and> length secret = 32
      \<and> ar_api_key r = ik_api_key issued \<and> ar_verifier r = api_key_verifier env (ar_salt r) secret
      \<and> ak_name (ik_api_key issued) = name \<and> auth_rows db (record_id r) = None
      \<and> auth_rows db' = (auth_rows db)(record_id r \<mapsto> row) \<and> stored_row env (record_id r) row = Some \<lparr>vr_record = r, vr_revision = 1\<rparr>"
proof -
  have "rows_step env (auth_rows db) (auth_rows db') \<and> (res = Inr (issued, event) \<longrightarrow>
      (\<exists>secret row r. ik_secret issued = Some secret \<and> length secret = 32
      \<and> ar_api_key r = ik_api_key issued \<and> ar_verifier r = api_key_verifier env (ar_salt r) secret
      \<and> ak_name (ik_api_key issued) = name \<and> auth_rows db (record_id r) = None
      \<and> auth_rows db' = (auth_rows db)(record_id r \<mapsto> row) \<and> stored_row env (record_id r) row = Some \<lparr>vr_record = r, vr_revision = 1\<rparr>))"
  proof (cases "\<exists>now m k. in_now inp = Inr now \<and> generate_material inp = Inr m \<and> api_key_new (km_key_id m) name policy now None None = Inr k")
    case False
    then show ?thesis using assms(4)
      by (cases "in_now inp"; cases "generate_material inp") (auto simp: create_def bind_result_def split: sum.splits)
  next
    case True
    then obtain now m k where mk: "in_now inp = Inr now" "generate_material inp = Inr m"
      "api_key_new (km_key_id m) name policy now None None = Inr k" by blast
    define r where "r = \<lparr>ar_api_key = k, ar_salt = km_salt m, ar_verifier = api_key_verifier env (km_salt m) (km_secret m)\<rparr>"
    have ok: "auth_record_ok r" using new_key_ok(1) [OF mk(2,3) assms(2,3)] by (simp add: r_def)
    obtain res1 db1 where st: "store_create env (in_io inp 0) r db = (res1, db1)" by (metis surj_pair)
    have db1: "db' = db1" and res: "res = Inr (issued, event) \<Longrightarrow> \<exists>w. res1 = Inr w"
      "res = Inr (issued, event) \<Longrightarrow> issued = \<lparr>ik_api_key = k, ik_secret = Some (km_secret m)\<rparr>"
      using assms(4) mk st by (auto simp: create_def r_def [symmetric] Let_def result_simps split: sum.splits)
    note step = store_create_step [OF assms(1) ok st]
    have "ak_name k = name" using mk(3) by (simp add: api_key_new_Inr)
    note name = this
    show ?thesis
    proof (intro conjI impI)
      show "rows_step env (auth_rows db) (auth_rows db')" using step(1) db1 by simp
      assume "res = Inr (issued, event)"
      with res obtain w where w: "res1 = Inr w" "issued = \<lparr>ik_api_key = k, ik_secret = Some (km_secret m)\<rparr>" by blast
      from step(2) [OF w(1)] obtain row where "auth_rows db (record_id r) = None" "auth_rows db' = (auth_rows db)(record_id r \<mapsto> row)"
        "stored_row env (record_id r) row = Some \<lparr>vr_record = r, vr_revision = 1\<rparr>" using db1 by auto
      then show "\<exists>secret row r. ik_secret issued = Some secret \<and> length secret = 32
        \<and> ar_api_key r = ik_api_key issued \<and> ar_verifier r = api_key_verifier env (ar_salt r) secret
        \<and> ak_name (ik_api_key issued) = name \<and> auth_rows db (record_id r) = None
        \<and> auth_rows db' = (auth_rows db)(record_id r \<mapsto> row) \<and> stored_row env (record_id r) row = Some \<lparr>vr_record = r, vr_revision = 1\<rparr>"
        using w(2) name generate_material_Inr(2) [OF mk(2)]
        by (intro exI [of _ "km_secret m"] exI [of _ row] exI [of _ r]) (simp add: r_def)
    qed
  qed
  then show "rows_step env (auth_rows db) (auth_rows db')"
    "res = Inr (issued, event) \<Longrightarrow> \<exists>secret row r. ik_secret issued = Some secret \<and> length secret = 32
      \<and> ar_api_key r = ik_api_key issued \<and> ar_verifier r = api_key_verifier env (ar_salt r) secret
      \<and> ak_name (ik_api_key issued) = name \<and> auth_rows db (record_id r) = None
      \<and> auth_rows db' = (auth_rows db)(record_id r \<mapsto> row) \<and> stored_row env (record_id r) row = Some \<lparr>vr_record = r, vr_revision = 1\<rparr>"
    by blast+
qed

lemma replace_read_step:
  assumes "json_reads_back env" and "snapshot_ok env (auth_rows db) v" and "\<not> is_revoked (vr_record v)"
    and "auth_record_ok (vr_record v) \<Longrightarrow> auth_record_ok r \<and> same_key (vr_record v) r" and "record_id r = record_id (vr_record v)"
    and "replace_read env inp (record_id r) v r event same db = (res, db')"
  shows "rows_step env (auth_rows db) (auth_rows db')"
    and "res = Inr (k, e) \<Longrightarrow> \<exists>row w. auth_rows db' (record_id r) = Some row
      \<and> stored_row env (record_id r) row = Some w \<and> (vr_record w = r \<or> same (vr_record w))"
proof -
  obtain res1 db1 where st: "store_replace env (in_io inp 1) r (vr_revision v) db = (res1, db1)" by (metis surj_pair)
  note step = store_replace_step [OF assms(1-5) st]
  have "db' = db1" using assms(6) st by (auto simp: replace_read_def split: sum.splits auth_store_error.splits)
  then show "rows_step env (auth_rows db) (auth_rows db')" using step(1) by simp
  assume "res = Inr (k, e)"
  with assms(6) st consider (mine) w where "res1 = Inr w"
    | (other) w where "read_existing env (in_io inp 2) (record_id r) KeyNotFound db1 = Inr w" "same (vr_record w)"
    by (auto simp: replace_read_def result_simps split: sum.splits auth_store_error.splits if_splits)
  then show "\<exists>row w. auth_rows db' (record_id r) = Some row
      \<and> stored_row env (record_id r) row = Some w \<and> (vr_record w = r \<or> same (vr_record w))"
  proof cases
    case mine
    with step(2) \<open>db' = db1\<close> show ?thesis by fastforce
  next
    case other
    with read_existing_Inr \<open>db' = db1\<close> show ?thesis by blast
  qed
qed

lemma update_policy_step:
  assumes "json_reads_back env" and "snapshot_ok env (auth_rows db) v" and "policy_ok policy"
  shows "rows_step env (auth_rows db) (auth_rows (snd (update_policy_from env inp (record_id (vr_record v)) v policy db)))"
proof (cases "is_revoked (vr_record v) \<or> ak_policy (ar_api_key (vr_record v)) = policy \<or> (\<exists>e. policy_record (vr_record v) policy = Inl e)")
  case True
  then show ?thesis by (auto simp: update_policy_from_def Let_def key_step_def)
next
  case False
  then obtain r where r: "policy_record (vr_record v) policy = Inr r" by (cases "policy_record (vr_record v) policy") auto
  then have id: "record_id r = record_id (vr_record v)" by (auto simp: policy_record_def Let_def result_simps api_key_new_Inr)
  have ok: "auth_record_ok (vr_record v) \<Longrightarrow> auth_record_ok r \<and> same_key (vr_record v) r"
    using derived_record_ok(1) [OF _ r assms(3)] by blast
  obtain res db' where run: "update_policy_from env inp (record_id (vr_record v)) v policy db = (res, db')" by (metis surj_pair)
  then have "replace_read env inp (record_id r) v r (ApiKeyPolicyUpdated (record_id (vr_record v)))
      (\<lambda>observed. \<not> is_revoked observed \<and> ak_policy (ar_api_key observed) = ak_policy (ar_api_key r)) db = (res, db')"
    using False r id by (simp add: update_policy_from_def Let_def)
  from replace_read_step(1) [OF assms(1,2) _ ok id this] False run show ?thesis by simp
qed

lemma revoke_step:
  assumes "json_reads_back env" and "snapshot_ok env (auth_rows db) v"
    and "revoke_from env inp (record_id (vr_record v)) now v db = (res, db')"
  shows "rows_step env (auth_rows db) (auth_rows db')"
    and "res = Inr (k, e) \<Longrightarrow> \<not> is_revoked (vr_record v) \<Longrightarrow> \<exists>row. auth_rows db' (record_id (vr_record v)) = Some row
      \<and> revoked_row env (record_id (vr_record v)) row"
proof -
  have "rows_step env (auth_rows db) (auth_rows db') \<and> (res = Inr (k, e) \<and> \<not> is_revoked (vr_record v) \<longrightarrow>
    (\<exists>row. auth_rows db' (record_id (vr_record v)) = Some row \<and> revoked_row env (record_id (vr_record v)) row))"
  proof (cases "is_revoked (vr_record v) \<or> (\<exists>e. revoked_record (vr_record v) now = Inl e)")
    case True
    then have "db' = db" "is_revoked (vr_record v) \<or> (\<exists>e. res = Inl e)"
      using assms(3) by (auto simp: revoke_from_def Let_def split: if_splits)
    then show ?thesis by auto
  next
    case False
    then obtain r where r: "revoked_record (vr_record v) now = Inr r" by (cases "revoked_record (vr_record v) now") auto
    then have id: "record_id r = record_id (vr_record v)" and rev: "is_revoked r"
      by (auto simp: revoked_record_def revoked_record_with_name_def Let_def result_simps api_key_new_Inr)
    have ok: "auth_record_ok (vr_record v) \<Longrightarrow> auth_record_ok r \<and> same_key (vr_record v) r"
      using derived_record_ok(2) [of "vr_record v" None now r] r by (simp add: revoked_record_def)
    have "replace_read env inp (record_id r) v r (ApiKeyRevoked (record_id (vr_record v))) is_revoked db = (res, db')"
      using assms(3) False r id by (simp add: revoke_from_def Let_def)
    note step = replace_read_step [OF assms(1,2) _ ok id this]
    have "\<not> is_revoked (vr_record v)" using False by blast
    from step(1) [OF this] step(2) [OF this, of k e] show ?thesis
      using id rev by (auto simp: revoked_row_def)
  qed
  then show "rows_step env (auth_rows db) (auth_rows db')"
    "res = Inr (k, e) \<Longrightarrow> \<not> is_revoked (vr_record v) \<Longrightarrow> \<exists>row. auth_rows db' (record_id (vr_record v)) = Some row
      \<and> revoked_row env (record_id (vr_record v)) row" by blast+
qed

text \<open>What a rotation does: the row it read becomes revoked, and a row for a new key with the same policy appears.\<close>

definition rotated :: "auth_env \<Rightarrow> database \<Rightarrow> database \<Rightarrow> versioned_record \<Rightarrow> auth_record \<Rightarrow> byte list \<Rightarrow> bool" where
  "rotated env db db' v r secret \<longleftrightarrow>
     (\<exists>row row1 row'. auth_rows db (record_id (vr_record v)) = Some row \<and> stored_row env (record_id (vr_record v)) row = Some v
        \<and> auth_rows db (record_id r) = None \<and> record_id r \<noteq> record_id (vr_record v)
        \<and> auth_rows db' = (auth_rows db)(record_id (vr_record v) \<mapsto> row1, record_id r \<mapsto> row')
        \<and> key_step env (record_id (vr_record v)) (Some row) (Some row1) \<and> revoked_row env (record_id (vr_record v)) row1
        \<and> stored_row env (record_id r) row' = Some \<lparr>vr_record = r, vr_revision = 1\<rparr>
        \<and> ar_verifier r = api_key_verifier env (ar_salt r) secret \<and> length secret = 32
        \<and> ak_policy (ar_api_key r) = ak_policy (ar_api_key (vr_record v)) \<and> \<not> is_revoked r)"

lemma rotate_record_step:
  assumes "json_reads_back env" and "snapshot_ok env (auth_rows db) v" and "\<not> is_revoked (vr_record v)"
    and "is_display_name name" and "option_ok is_display_name archived"
    and "rotate_record env inp v name archived db = (res, db')"
  shows "auth_rows db' = auth_rows db \<and> (\<forall>x. res \<noteq> Inr x)
    \<or> (\<exists>r secret. rotated env db db' v r secret \<and> res = Inr (\<lparr>ik_api_key = ar_api_key r, ik_secret = Some secret\<rparr>,
         Some (ApiKeyRotated (record_id (vr_record v)) (record_id r))))"
proof (cases "\<exists>now m k old. in_now inp = Inr now \<and> generate_material inp = Inr m
    \<and> api_key_new (km_key_id m) name (ak_policy (ar_api_key (vr_record v))) now None (Some (record_id (vr_record v))) = Inr k
    \<and> revoked_record_with_name (vr_record v) archived now = Inr old")
  case False
  then have "db' = db \<and> (\<forall>x. res \<noteq> Inr x)" using assms(6)
    by (auto simp: rotate_record_def Let_def bind_result_def split: sum.splits)
  then show ?thesis by simp
next
  case True
  then obtain now m k old where mk: "in_now inp = Inr now" "generate_material inp = Inr m"
    "api_key_new (km_key_id m) name (ak_policy (ar_api_key (vr_record v))) now None (Some (record_id (vr_record v))) = Inr k"
    "revoked_record_with_name (vr_record v) archived now = Inr old" by blast
  define r where "r = \<lparr>ar_api_key = k, ar_salt = km_salt m, ar_verifier = api_key_verifier env (km_salt m) (km_secret m)\<rparr>"
  have id: "record_id old = record_id (vr_record v)" and rev: "is_revoked old"
    using mk(4) by (auto simp: revoked_record_with_name_def Let_def result_simps api_key_new_Inr)
  have ok: "auth_record_ok (vr_record v) \<Longrightarrow> auth_record_ok old \<and> same_key (vr_record v) old"
    using derived_record_ok(2) [OF _ mk(4) assms(5)] by blast
  have ok': "auth_record_ok (vr_record v) \<Longrightarrow> auth_record_ok r"
    using new_key_ok(1) [OF mk(2,3) assms(4)] by (auto simp: r_def api_key_ok_def)
  obtain res1 db1 where st: "store_rotate env (in_io inp 1) old (vr_revision v) r db = (res1, db1)" by (metis surj_pair)
  have run: "db' = db1" "(\<forall>w. res1 \<noteq> Inr w) \<Longrightarrow> (\<forall>x. res \<noteq> Inr x)"
    "res1 = Inr (\<lparr>vr_record = old, vr_revision = Suc (vr_revision v)\<rparr>, \<lparr>vr_record = r, vr_revision = 1\<rparr>) \<Longrightarrow>
     res = Inr (\<lparr>ik_api_key = k, ik_secret = Some (km_secret m)\<rparr>, Some (ApiKeyRotated (record_id (vr_record v)) (km_key_id m)))"
    using assms(6) mk st by (auto simp: rotate_record_def r_def [symmetric] require_committed_record_def split: sum.splits)
  from store_rotate_step [OF assms(1-3) ok id ok' st] consider (same) "auth_rows db1 = auth_rows db" "\<forall>w. res1 \<noteq> Inr w"
    | (new) row row' row1 where "auth_rows db (record_id old) = Some row" "stored_row env (record_id old) row = Some v"
        "auth_rows db (record_id r) = None" "record_id r \<noteq> record_id old"
        "auth_rows db1 = (auth_rows db)(record_id old \<mapsto> row1, record_id r \<mapsto> row')"
        "row_revision row1 = row_revision row + 1"
        "stored_row env (record_id old) row1 = Some \<lparr>vr_record = old, vr_revision = Suc (vr_revision v)\<rparr>"
        "stored_row env (record_id r) row' = Some \<lparr>vr_record = r, vr_revision = 1\<rparr>"
        "res1 = Inr (\<lparr>vr_record = old, vr_revision = Suc (vr_revision v)\<rparr>, \<lparr>vr_record = r, vr_revision = 1\<rparr>)"
    by metis
  then show ?thesis
  proof cases
    case same
    then show ?thesis using run by simp
  next
    case new
    have key: "key_step env (record_id old) (Some row) (Some row1)"
      by (rule replaced_step [OF new(2) assms(3) new(6,7)]) (use ok stored_rowD(2) [OF new(2)] in simp)
    have revoked: "revoked_row env (record_id old) row1" using new(7) rev by (simp add: revoked_row_def)
    have k: "ak_key_id k = km_key_id m" "ak_policy k = ak_policy (ar_api_key (vr_record v))" "ak_revoked_at k = None"
      using mk(3) by (simp_all add: api_key_new_Inr)
    have "rotated env db db' v r (km_secret m)"
      unfolding rotated_def
      by (intro exI [of _ row] exI [of _ row1] exI [of _ row'])
        (use new key revoked id k run(1) generate_material_Inr(2) [OF mk(2)] in \<open>simp add: r_def\<close>)
    with run(3) [OF new(9)] k(1) show ?thesis by (intro disjI2 exI [of _ r] exI [of _ "km_secret m"]) (simp add: r_def)
  qed
qed

lemma rotated_rows: "rotated env db db' v r secret \<Longrightarrow> rows_step env (auth_rows db) (auth_rows db')"
  by (auto simp: rotated_def key_step_created)

lemma rotate_record_rows:
  assumes "json_reads_back env" and "snapshot_ok env (auth_rows db) v" and "\<not> is_revoked (vr_record v)"
    and "is_display_name name" and "option_ok is_display_name archived"
  shows "rows_step env (auth_rows db) (auth_rows (snd (rotate_record env inp v name archived db)))"
proof -
  obtain res db' where run: "rotate_record env inp v name archived db = (res, db')" by (metis surj_pair)
  from rotate_record_step [OF assms run] show ?thesis using rotated_rows run by auto
qed

lemma archived_rotation_name_Inr: "archived_rotation_name k = Inr n \<Longrightarrow> is_display_name n"
  by (auto simp: archived_rotation_name_def Let_def result_simps)

section \<open>Interleavings\<close>

record auth_system =
  as_db :: database
  as_reads :: "versioned_record list"

inductive auth_step :: "auth_env \<Rightarrow> auth_system \<Rightarrow> auth_system \<Rightarrow> bool" for env where
  read: "store_read env io k (as_db y) = Inr (Some v) \<Longrightarrow> auth_step env y (y\<lparr>as_reads := v # as_reads y\<rparr>)"
| create_key: "\<lbrakk>is_display_name name; policy_ok policy\<rbrakk>
    \<Longrightarrow> auth_step env y (y\<lparr>as_db := snd (create env inp name policy (as_db y))\<rparr>)"
| update_key: "\<lbrakk>v \<in> set (as_reads y); policy_ok policy\<rbrakk>
    \<Longrightarrow> auth_step env y (y\<lparr>as_db := snd (update_policy_from env inp (record_id (vr_record v)) v policy (as_db y))\<rparr>)"
| revoke_key: "v \<in> set (as_reads y)
    \<Longrightarrow> auth_step env y (y\<lparr>as_db := snd (revoke_from env inp (record_id (vr_record v)) now v (as_db y))\<rparr>)"
| rotate_key: "\<lbrakk>v \<in> set (as_reads y); is_display_name name\<rbrakk>
    \<Longrightarrow> auth_step env y (y\<lparr>as_db := snd (rotate_from env inp v name (as_db y))\<rparr>)"
| rotate_named_key: "v \<in> set (as_reads y)
    \<Longrightarrow> auth_step env y (y\<lparr>as_db := snd (rotate_preserving_name_from env inp v (as_db y))\<rparr>)"
| other_command: "pc_collection c \<noteq> Authentication
    \<Longrightarrow> auth_step env y (y\<lparr>as_db := snd (run_command (ae_codec env) io c (as_db y))\<rparr>)"
| other_transaction: "list_all (\<lambda>c. pc_collection c \<noteq> Authentication) cs
    \<Longrightarrow> auth_step env y (y\<lparr>as_db := snd (run_transaction (ae_codec env) io key cs (as_db y))\<rparr>)"
| close_database: "auth_step env y (y\<lparr>as_db := (as_db y)\<lparr>db_closed := True\<rparr>\<rparr>)"

abbreviation auth_reaches :: "auth_env \<Rightarrow> auth_system \<Rightarrow> auth_system \<Rightarrow> bool" where
  "auth_reaches env \<equiv> (auth_step env)\<^sup>*\<^sup>*"

abbreviation auth_start :: "database \<Rightarrow> auth_system" where
  "auth_start db \<equiv> \<lparr>as_db = db, as_reads = []\<rparr>"

definition auth_ok :: "auth_env \<Rightarrow> auth_system \<Rightarrow> bool" where
  "auth_ok env y \<longleftrightarrow> (\<forall>v \<in> set (as_reads y). snapshot_ok env (auth_rows (as_db y)) v)"

lemma other_command_rows:
  assumes "pc_collection c \<noteq> Authentication"
  shows "auth_rows (snd (run_command cd io c db)) = auth_rows db"
proof -
  obtain r db' where run: "run_command cd io c db = (r, db')" by (metis surj_pair)
  then have "auth_rows db' = auth_rows db"
    by (cases rule: run_command_effect) (use assms in \<open>auto simp: auth_rows_def apply_effect_def fun_eq_iff\<close>)
  with run show ?thesis by simp
qed

lemma other_effects:
  "list_all (\<lambda>c. pc_collection c \<noteq> Authentication) cs \<Longrightarrow> fold (apply_effect now) cs m (Authentication, k) = m (Authentication, k)"
  by (induction cs arbitrary: m) (auto simp: apply_effect_def)

lemma other_transaction_rows:
  assumes "list_all (\<lambda>c. pc_collection c \<noteq> Authentication) cs"
  shows "auth_rows (snd (run_transaction cd io key cs db)) = auth_rows db"
proof -
  obtain r db' where run: "run_transaction cd io key cs db = (r, db')" by (metis surj_pair)
  then have "auth_rows db' = auth_rows db"
    by (cases rule: run_transaction_effect) (use other_effects [OF assms] in \<open>auto simp: auth_rows_def fun_eq_iff\<close>)
  with run show ?thesis by simp
qed

lemma auth_step_rows:
  assumes "auth_step env y y'" and "json_reads_back env" and "auth_ok env y"
  shows "rows_step env (auth_rows (as_db y)) (auth_rows (as_db y'))"
  using assms(1)
proof cases
  case (create_key name policy inp)
  then show ?thesis using create_step(1) [OF assms(2)] by (metis auth_system.select_convs(1) auth_system.surjective auth_system.update_convs(1) surj_pair snd_conv)
next
  case (update_key v policy inp)
  then show ?thesis using update_policy_step [OF assms(2)] assms(3) by (simp add: auth_ok_def)
next
  case (revoke_key v inp now)
  then show ?thesis using revoke_step(1) [OF assms(2)] assms(3) by (simp add: auth_ok_def prod_eq_iff)
next
  case (rotate_key v name inp)
  then show ?thesis using rotate_record_rows [OF assms(2), of "as_db y" v name None inp] assms(3)
    by (auto simp: auth_ok_def rotate_from_def)
next
  case (rotate_named_key v inp)
  then have snap: "snapshot_ok env (auth_rows (as_db y)) v" using assms(3) by (simp add: auth_ok_def)
  then have "is_display_name (ak_name (ar_api_key (vr_record v)))"
    by (auto simp: snapshot_ok_def api_key_ok_def dest!: stored_rowD(2))
  then show ?thesis
    using rotate_named_key rotate_record_rows [OF assms(2) snap, of "ak_name (ar_api_key (vr_record v))" "Some _" inp]
    by (auto simp: rotate_preserving_name_from_def dest: archived_rotation_name_Inr split: sum.splits)
qed (auto simp: other_command_rows other_transaction_rows auth_rows_def)

lemma auth_step_ok:
  assumes "auth_step env y y'" and "json_reads_back env" and "auth_ok env y"
  shows "auth_ok env y'"
proof -
  have "snapshot_ok env (auth_rows (as_db y')) v" if "v \<in> set (as_reads y)" for v
    using snapshot_step auth_step_rows [OF assms] that assms(3) unfolding auth_ok_def by blast
  moreover have "\<exists>k io. store_read env io k (as_db y') = Inr (Some v)" if "v \<in> set (as_reads y')" "v \<notin> set (as_reads y)" for v
    using assms(1) that by cases auto
  ultimately show ?thesis using store_read_Some snapshot_read by (metis auth_ok_def)
qed

lemma auth_reaches_rows:
  assumes "auth_reaches env y y'" and "json_reads_back env" and "auth_ok env y"
  shows "(rows_step env)\<^sup>*\<^sup>* (auth_rows (as_db y)) (auth_rows (as_db y')) \<and> auth_ok env y'"
  using assms
proof (induction rule: rtranclp_induct)
  case (step y1 z)
  then have ok: "auth_ok env y1" and rows: "(rows_step env)\<^sup>*\<^sup>* (auth_rows (as_db y)) (auth_rows (as_db y1))" by blast+
  from rows auth_step_rows [OF step.hyps(2) assms(2) ok] auth_step_ok [OF step.hyps(2) assms(2) ok] show ?case
    by (auto intro: rtranclp.rtrancl_into_rtrancl)
qed simp

lemma auth_start_ok [simp]: "auth_ok env (auth_start db)"
  by (simp add: auth_ok_def)

section \<open>Tokens\<close>

lemma parse_issued_token:
  assumes "is_api_key_id k" and "length secret = 32"
  shows "parse_token (''li_'' @ k @ ''_'' @ hexadecimal secret) = Some (k, secret)"
proof -
  have k: "CHR ''_'' \<notin> set k" by (rule lower_hex_no_underscore [OF assms(1)])
  have h: "CHR ''_'' \<notin> set (hexadecimal secret)" by (rule lower_hex_no_underscore [OF hexadecimal_lower_hex])
  have "takeWhile (\<lambda>c. c \<noteq> CHR ''_'') (k @ CHR ''_'' # hexadecimal secret) = k"
    using k by (subst takeWhile_append2) auto
  then show ?thesis
    using h assms decode_hexadecimal_round_trip [OF assms(2)] by (simp add: parse_token_def Let_def)
qed

lemma authenticate_identity_Inr:
  assumes "authenticate_identity env inp token db = Inr p"
  shows "\<exists>k secret row v now. parse_token token = Some (k, secret) \<and> auth_rows db k = Some row \<and> stored_row env k row = Some v
    \<and> in_now inp = Inr now \<and> \<not> is_revoked (vr_record v) \<and> \<not> expired_at now (ar_api_key (vr_record v))
    \<and> ar_verifier (vr_record v) = api_key_verifier env (ar_salt (vr_record v)) secret
    \<and> p = \<lparr>ap_key_id = k, ap_policy = ak_policy (ar_api_key (vr_record v))\<rparr>"
proof -
  from assms obtain k secret v now where parts: "parse_token token = Some (k, secret)"
    "read_existing env (in_io inp 0) k Unauthorized db = Inr v" "in_now inp = Inr now"
    "\<not> is_revoked (vr_record v)" "\<not> expired_at now (ar_api_key (vr_record v))"
    "ar_verifier (vr_record v) = api_key_verifier env (ar_salt (vr_record v)) secret"
    "p = \<lparr>ap_key_id = record_id (vr_record v), ap_policy = ak_policy (ar_api_key (vr_record v))\<rparr>"
    by (auto simp: authenticate_identity_def Let_def result_simps split: prod.splits)
  obtain row where "auth_rows db k = Some row" "stored_row env k row = Some v"
    using read_existing_Inr [OF parts(2)] by blast
  with parts stored_rowD(1) show ?thesis by blast
qed

lemma read_existing_row:
  assumes "\<not> db_closed db" and "io_fault io = (\<lambda>_. None)" and "auth_rows db k = Some row" and "stored_row env k row = Some v"
  shows "read_existing env io k missing db = Inr v"
proof -
  have "is_api_key_id k" using stored_rowD(1,2) [OF assms(4)] by (simp add: api_key_ok_def)
  then have "store_read env io k db = Inr (Some v)" using store_read_row(2) [of db k io row env v] assms by simp
  then show ?thesis using stored_rowD(1,4) [OF assms(4)] by (simp add: read_existing_def require_read_record_def)
qed

text \<open>A token of the secret a key was made with is judged by the record that is stored now.\<close>

lemma authenticate_stored:
  assumes "\<not> db_closed db" and "io_fault (in_io inp 0) = (\<lambda>_. None)" and "in_now inp = Inr now"
    and "auth_rows db k = Some row" and "stored_row env k row = Some v"
    and "ar_verifier (vr_record v) = api_key_verifier env (ar_salt (vr_record v)) secret" and "length secret = 32"
  shows "authenticate_identity env inp (''li_'' @ k @ ''_'' @ hexadecimal secret) db =
    (if is_revoked (vr_record v) \<or> expired_at now (ar_api_key (vr_record v)) then Inl Unauthorized
     else Inr \<lparr>ap_key_id = k, ap_policy = ak_policy (ar_api_key (vr_record v))\<rparr>)"
proof -
  have "is_api_key_id k" using stored_rowD(1,2) [OF assms(5)] by (simp add: api_key_ok_def)
  from parse_issued_token [OF this assms(7)] read_existing_row [OF assms(1,2,4,5)] show ?thesis
    using assms(3,6) stored_rowD(1) [OF assms(5)] by (auto simp: authenticate_identity_def Let_def ensure_def)
qed

text \<open>Once its row is revoked, no token of a key authenticates.\<close>

lemma revoked_row_refused:
  assumes "auth_rows db k = Some row" and "revoked_row env k row" and "parse_token token = Some (k, secret)"
  shows "authenticate_identity env inp token db \<noteq> Inr p"
  using assms authenticate_identity_Inr [of env inp token db p] by (auto simp: revoked_row_def)

text \<open>A key that is revoked after one operation of a reachable state stays as it is.\<close>

lemma revoked_stays:
  assumes "json_reads_back env" and "auth_ok env y" and "rows_step env (auth_rows (as_db y)) (auth_rows db1)"
    and "auth_rows db1 k = Some row" and "revoked_row env k row" and "auth_reaches env (y\<lparr>as_db := db1\<rparr>) y2"
  shows "auth_rows (as_db y2) k = Some row"
proof -
  have "auth_ok env (y\<lparr>as_db := db1\<rparr>)" using assms(2) snapshot_step [OF _ assms(3)] by (auto simp: auth_ok_def)
  then have "(rows_step env)\<^sup>*\<^sup>* (auth_rows db1) (auth_rows (as_db y2))"
    using auth_reaches_rows [OF assms(6,1)] by simp
  from key_rows.frozen_stays [OF this assms(4,5)] show ?thesis .
qed

lemma rotate_parts:
  assumes "rotate_api_key env inp k name db = (res, db1) \<or> rotate_preserving_name env inp k db = (res, db1)" and "is_display_name name"
  obtains (refused) e where "db1 = db" "res = Inl e"
  | (run) v row n archived where "auth_rows db k = Some row" "stored_row env k row = Some v" "\<not> is_revoked (vr_record v)"
      "is_display_name n" "option_ok is_display_name archived" "rotate_record env inp v n archived db = (res, db1)"
proof (cases "read_existing env (in_io inp 0) k KeyNotFound db")
  case (Inl e)
  then show ?thesis using assms(1) by (intro that(1) [of e]) (auto simp: rotate_api_key_def rotate_preserving_name_def)
next
  case (Inr v)
  obtain row where row: "auth_rows db k = Some row" "stored_row env k row = Some v" using read_existing_Inr [OF Inr] by blast
  have n: "is_display_name (ak_name (ar_api_key (vr_record v)))" using stored_rowD(2) [OF row(2)] by (simp add: api_key_ok_def)
  from assms(1) Inr consider (rev) e where "db1 = db" "res = Inl e"
    | (plain) "\<not> is_revoked (vr_record v)" "rotate_record env inp v name None db = (res, db1)"
    | (named) archived where "\<not> is_revoked (vr_record v)" "is_display_name archived"
        "rotate_record env inp v (ak_name (ar_api_key (vr_record v))) (Some archived) db = (res, db1)"
    by (auto simp: rotate_api_key_def rotate_preserving_name_def rotate_from_def rotate_preserving_name_from_def
        dest: archived_rotation_name_Inr split: if_splits sum.splits)
  then show ?thesis
  proof cases
    case rev
    then show ?thesis by (rule that(1))
  next
    case plain
    then show ?thesis using row assms(2) by (intro that(2) [of row v name None]) simp_all
  next
    case named
    then show ?thesis using row n by (intro that(2) [of row v _ "Some archived"]) simp_all
  qed
qed

lemma rotate_effect:
  assumes "json_reads_back env" and "is_display_name name"
    and "rotate_api_key env inp k name db = (res, db1) \<or> rotate_preserving_name env inp k db = (res, db1)"
  obtains (same) "auth_rows db1 = auth_rows db" "\<And>x. res \<noteq> Inr x"
  | (new) v r secret where "record_id (vr_record v) = k" "rotated env db db1 v r secret"
      "res = Inr (\<lparr>ik_api_key = ar_api_key r, ik_secret = Some secret\<rparr>, Some (ApiKeyRotated k (record_id r)))"
  using assms(3,2)
proof (cases rule: rotate_parts)
  case (refused e)
  then show ?thesis by (intro that(1)) simp_all
next
  case (run v row n archived)
  have id: "record_id (vr_record v) = k" by (rule stored_rowD(1) [OF run(2)])
  have "snapshot_ok env (auth_rows db) v" using snapshot_read [of "auth_rows db" k] run(1,2) by blast
  from rotate_record_step [OF assms(1) this run(3,4,5,6)] show ?thesis using id that by blast
qed

section \<open>Listing\<close>

text \<open>A successful read of the collection contains every row.\<close>

lemma store_all_contains:
  assumes "store_all env io db = Inr vs" and "auth_rows db k = Some row" and "stored_row env k row = Some v"
  shows "v \<in> set vs"
proof -
  obtain sts where sts: "read_all_records (auth_type env) io db = Inr sts" "try_map versioned_authentication_record sts = Inr vs"
    using assms(1) by (auto simp: store_all_def result_simps)
  have col: "rt_collection (auth_type env) = Authentication" by (simp add: auth_type_def)
  from sts(1) have run: "try_map (\<lambda>(k, row). decode_record (auth_type env) (snd k) row)
      (sort_key (\<lambda>(k, row). snd k) (filter (\<lambda>(k, row). fst k = Authentication) (db_records db))) = Inr sts"
    by (auto simp: read_all_records_def result_simps col split: if_splits)
  have "((Authentication, k), row) \<in> set (db_records db)" using assms(2) by (auto simp: auth_rows_def dest: map_of_SomeD)
  then obtain st where st: "st \<in> set sts" "decode_record (auth_type env) k row = Inr st"
    using try_map_all [OF run, of "((Authentication, k), row)"] by auto
  with assms(3) have "versioned_authentication_record st = Inr v"
    by (auto simp: stored_row_def split: sum.splits)
  with try_map_all [OF sts(2) st(1)] show ?thesis by auto
qed

section \<open>Success\<close>

text \<open>Without a failure of a provider a new key is created.\<close>

lemma store_write_succeeds:
  assumes "io_fault io = (\<lambda>_. None)" and "io_clock io = Inr now" and "0 \<le> now" and "\<not> db_closed db"
    and "map_of (db_replays db) key = None" and "validate_idempotency_key key = Inr ()" and "is_api_key_id (record_id r)"
    and "ae_to_json env (authentication_database_record r) = Some payload" and "length payload \<le> 1024 * 1024"
    and "apply_command io (Save Authentication 1 (record_id r) payload key expected) now (db_records db) = Inr (commit, t')"
    and "commit_to_json (ae_codec env) commit = Some json" and "0 \<le> cm_committed_at commit"
  shows "\<exists>db' row. store_write env io key r expected db = (Inr \<lparr>vr_record = r, vr_revision = cm_revision commit\<rparr>, db')
    \<and> db_records db' = t' \<and> \<not> db_closed db' \<and> map_of (db_replays db') = (map_of (db_replays db))(key \<mapsto> row)"
proof -
  let ?c = "Save Authentication 1 (record_id r) payload key expected"
  have "prepare_save (auth_type env) key (authentication_database_record r) expected = Inr ?c"
    using assms(6,8,9) api_key_id_valid [OF assms(7)]
    by (simp add: prepare_save_def auth_type_def authentication_database_record_def Let_def)
  moreover obtain db' where "run_command (ae_codec env) io ?c db = (Inr (commit, Applied), db')" "db_records db' = t'"
    "db_closed db' = db_closed db" "\<exists>row. map_of (db_replays db') = (map_of (db_replays db))(key \<mapsto> row)"
    using run_command_succeeds [OF assms(1,2,3) _ assms(10,11,12)] assms(5) by auto
  ultimately show ?thesis using assms(4) by (auto simp: store_write_def database_write_def)
qed

lemma create_succeeds:
  assumes "in_now inp = Inr made" and "generate_material inp = Inr m" and "api_key_new (km_key_id m) name policy made None None = Inr k"
    and r: "r = \<lparr>ar_api_key = k, ar_salt = km_salt m, ar_verifier = api_key_verifier env (km_salt m) (km_secret m)\<rparr>"
    and io: "io_fault (in_io inp 0) = (\<lambda>_. None)" "io_clock (in_io inp 0) = Inr now" "0 \<le> now" and "\<not> db_closed db"
    and "map_of (db_replays db) (''authentication:create:'' @ km_key_id m) = None" and none: "auth_rows db (km_key_id m) = None"
    and json: "ae_to_json env (authentication_database_record r) = Some payload" "length payload \<le> 1024 * 1024"
    and commit: "\<And>c. commit_to_json (ae_codec env) c \<noteq> None"
  shows "\<exists>db' row. create env inp name policy db
      = (Inr (\<lparr>ik_api_key = k, ik_secret = Some (km_secret m)\<rparr>, Some (ApiKeyCreated (km_key_id m))), db')
    \<and> \<not> db_closed db' \<and> map_of (db_replays db') = (map_of (db_replays db))(''authentication:create:'' @ km_key_id m \<mapsto> row)
    \<and> db_records db' = db_records db @ [((Authentication, km_key_id m),
        \<lparr>row_version = 1, row_revision = 1, row_payload = payload, row_created = now, row_updated = now\<rparr>)]"
proof -
  let ?key = "''authentication:create:'' @ km_key_id m"
  let ?c = "Save Authentication 1 (km_key_id m) payload ?key Missing"
  have id: "is_api_key_id (km_key_id m)" "record_id r = km_key_id m"
    using generate_material_Inr [OF assms(2)] assms(3) r by (auto simp: api_key_new_Inr)
  have key: "validate_idempotency_key ?key = Inr ()"
    by (rule validate_visible(2)) (use lower_hex_visible [OF id(1)] id(1) in \<open>auto simp: visible_def is_lower_hex_def\<close>)
  have app: "apply_command (in_io inp 0) ?c now (db_records db) = Inr (commit_of ?c now None,
      db_records db @ [((Authentication, km_key_id m), the (applied ?c now None))])"
    by (rule save_creates) (use io none in \<open>simp_all add: auth_rows_def\<close>)
  obtain json where "commit_to_json (ae_codec env) (commit_of ?c now None) = Some json" using commit by blast
  from store_write_succeeds [OF io assms(8,9) key, of r env payload, unfolded id(2), OF id(1) json app this]
  obtain db' row where w: "store_create env (in_io inp 0) r db = (Inr \<lparr>vr_record = r, vr_revision = 1\<rparr>, db')" "\<not> db_closed db'"
      "map_of (db_replays db') = (map_of (db_replays db))(?key \<mapsto> row)"
      "db_records db' = db_records db @ [((Authentication, km_key_id m), the (applied ?c now None))]"
    using io(3) by (auto simp: store_create_def id(2) commit_of_def)
  then show ?thesis using assms(1-3) r
    by (auto simp: create_def Let_def require_committed_record_def)
qed

lemma replace_key_valid:
  assumes "is_api_key_id k" and "n < 2 ^ 63"
  shows "validate_idempotency_key (''authentication:replace:'' @ k @ '':'' @ decimal_text n) = Inr ()"
proof (rule validate_visible(2))
  show "list_all visible (''authentication:replace:'' @ k @ '':'' @ decimal_text n)"
    using lower_hex_visible [OF assms(1)] decimal_text_visible [of n] by (simp add: visible_def)
  have "length (decimal_text n) \<le> 20" using length_decimal_u64 [of n] assms(2) by (simp add: decimal_text_def u64_max_def)
  then show "length (''authentication:replace:'' @ k @ '':'' @ decimal_text n) \<le> 255" using assms(1) by (simp add: is_lower_hex_def)
qed simp

lemma revoke_succeeds:
  assumes row: "auth_rows db k = Some row" "stored_row env k row = Some v" and "\<not> is_revoked (vr_record v)"
    and "in_now inp = Inr made" and "revoked_record (vr_record v) made = Inr r" and "io_fault (in_io inp 0) = (\<lambda>_. None)"
    and io: "io_fault (in_io inp 1) = (\<lambda>_. None)" "io_clock (in_io inp 1) = Inr now" "0 \<le> now" and open_db: "\<not> db_closed db"
    and "map_of (db_replays db) (''authentication:replace:'' @ k @ '':'' @ decimal_text (vr_revision v)) = None"
    and n: "vr_revision v < 2 ^ 63 - 1"
    and json: "ae_to_json env (authentication_database_record r) = Some payload" "length payload \<le> 1024 * 1024"
    and commit: "\<And>c. commit_to_json (ae_codec env) c \<noteq> None"
  shows "\<exists>db'. revoke env inp k db = (Inr (ar_api_key r, Some (ApiKeyRevoked k)), db') \<and> \<not> db_closed db'"
proof -
  let ?key = "''authentication:replace:'' @ k @ '':'' @ decimal_text (vr_revision v)"
  let ?c = "Save Authentication 1 k payload ?key (Exact (vr_revision v))"
  have id: "is_api_key_id k" using stored_rowD(1,2) [OF row(2)] by (simp add: api_key_ok_def)
  have r: "record_id r = k" using derived_record_ok(2) [OF stored_rowD(2) [OF row(2)], of None made r] assms(5) stored_rowD(1) [OF row(2)]
    by (simp add: revoked_record_def same_key_def)
  have key: "validate_idempotency_key ?key = Inr ()" using n by (intro replace_key_valid [OF id]) simp
  have app: "apply_command (in_io inp 1) ?c now (db_records db) = Inr (commit_of ?c now (Some row),
      AList.update (Authentication, k) (the (applied ?c now (Some row))) (db_records db))"
    by (rule save_replaces) (use io row(1) n stored_rowD(3-7) [OF row(2)] in \<open>simp_all add: auth_rows_def row_ok_def u32_max_def\<close>)
  obtain json where js: "commit_to_json (ae_codec env) (commit_of ?c now (Some row)) = Some json" using commit by blast
  have rev: "cm_revision (commit_of ?c now (Some row)) = Suc (vr_revision v)" using stored_rowD(3) [OF row(2)] by (simp add: commit_of_def)
  from store_write_succeeds [OF io open_db assms(11) key, of r env payload, unfolded r, OF id json app js] rev io(3)
  obtain db' where "store_replace env (in_io inp 1) r (vr_revision v) db = (Inr \<lparr>vr_record = r, vr_revision = Suc (vr_revision v)\<rparr>, db')"
    "\<not> db_closed db'" by (auto simp: store_replace_def r commit_of_def le_max_iff_disj)
  moreover have "read_existing env (in_io inp 0) k KeyNotFound db = Inr v" by (rule read_existing_row [OF open_db assms(6) row])
  ultimately show ?thesis using assms(3,4,5)
    by (simp add: revoke_def revoke_from_def replace_read_def Let_def require_committed_record_def)
qed

lemma rotation_transaction_succeeds:
  assumes "is_api_key_id (record_id r)" and "is_api_key_id (record_id r')" and "record_id r' \<noteq> record_id r"
    and "ae_to_json env (authentication_database_record r) = Some payload" "length payload \<le> 1024 * 1024"
    and "ae_to_json env (authentication_database_record r') = Some payload'" "length payload' \<le> 1024 * 1024"
    and key: "key = ''authentication:rotate:'' @ record_id r @ '':'' @ record_id r'"
  shows "rotation_transaction env r n r' = Inr (key, [Save Authentication 1 (record_id r) payload key (Exact n),
    Save Authentication 1 (record_id r') payload' key Missing])"
proof -
  have "validate_idempotency_key key = Inr ()" unfolding key
    by (rule validate_visible(2)) (use lower_hex_visible [OF assms(1)] lower_hex_visible [OF assms(2)] assms(1,2)
        in \<open>auto simp: visible_def is_lower_hex_def\<close>)
  then show ?thesis using assms(3-7) api_key_id_valid [OF assms(1)] api_key_id_valid [OF assms(2)]
    unfolding rotation_transaction_def key [symmetric]
    by (simp add: transaction_new_def transaction_save_def prepare_save_def add_command_def auth_type_def
        authentication_database_record_def Let_def)
qed

lemma store_rotate_succeeds:
  assumes row: "auth_rows db (record_id r) = Some row" "stored_row env (record_id r) row = Some v"
    and none: "auth_rows db (record_id r') = None" and id': "is_api_key_id (record_id r')"
    and io: "io_fault io = (\<lambda>_. None)" "io_clock io = Inr now" "0 \<le> now" and open_db: "\<not> db_closed db"
    and fresh: "map_of (db_replays db) (''authentication:rotate:'' @ record_id r @ '':'' @ record_id r') = None"
    and n: "vr_revision v < 2 ^ 63 - 1"
    and json: "ae_to_json env (authentication_database_record r) = Some payload" "length payload \<le> 1024 * 1024"
      "ae_to_json env (authentication_database_record r') = Some payload'" "length payload' \<le> 1024 * 1024"
    and commits: "\<And>cs. commits_to_json (ae_codec env) cs \<noteq> None"
  shows "\<exists>db'. store_rotate env io r (vr_revision v) r' db
    = (Inr (\<lparr>vr_record = r, vr_revision = Suc (vr_revision v)\<rparr>, \<lparr>vr_record = r', vr_revision = 1\<rparr>), db') \<and> \<not> db_closed db'"
proof -
  let ?key = "''authentication:rotate:'' @ record_id r @ '':'' @ record_id r'"
  let ?c = "Save Authentication 1 (record_id r) payload ?key (Exact (vr_revision v))"
  let ?d = "Save Authentication 1 (record_id r') payload' ?key Missing"
  let ?t = "AList.update (Authentication, record_id r) (the (applied ?c now (Some row))) (db_records db)"
  have ids: "is_api_key_id (record_id r)" "record_id r' \<noteq> record_id r"
    using stored_rowD(1,2) [OF row(2)] row(1) none by (auto simp: api_key_ok_def)
  note tx = rotation_transaction_succeeds [OF ids(1) id' ids(2) json refl]
  have c: "apply_command io ?c now (db_records db) = Inr (commit_of ?c now (Some row), ?t)"
    by (rule save_replaces) (use io row(1) n stored_rowD(3-7) [OF row(2)] in \<open>simp_all add: auth_rows_def row_ok_def u32_max_def\<close>)
  have d: "apply_command io ?d now ?t = Inr (commit_of ?d now None, ?t @ [((Authentication, record_id r'), the (applied ?d now None))])"
    by (rule save_creates) (use io none ids(2) in \<open>simp_all add: auth_rows_def update_conv'\<close>)
  obtain js where js: "commits_to_json (ae_codec env) [commit_of ?c now (Some row), commit_of ?d now None] = Some js"
    using commits by blast
  have "\<exists>db'. run_transaction (ae_codec env) io ?key [?c, ?d] db = (Inr ([commit_of ?c now (Some row), commit_of ?d now None], Applied), db')
      \<and> \<not> db_closed db'"
    using run_transaction_succeeds [OF io fresh, of "[?c, ?d]" "[commit_of ?c now (Some row), commit_of ?d now None]" _ "ae_codec env" js]
      c d js io(3) open_db by (auto simp: commit_of_def le_max_iff_disj)
  then obtain db' where run: "run_transaction (ae_codec env) io ?key [?c, ?d] db = (Inr ([commit_of ?c now (Some row), commit_of ?d now None], Applied), db')"
    "\<not> db_closed db'" by blast
  have "database_write_transaction (ae_codec env) io (?key, [?c, ?d]) db = (Inr ([commit_of ?c now (Some row), commit_of ?d now None], Applied), db')"
    using run(1) open_db by (simp only: database_write_transaction_def) simp
  with tx run(2) show ?thesis using stored_rowD(3) [OF row(2)]
    unfolding store_rotate_def by (simp add: commit_of_def)
qed

lemma rotate_succeeds:
  assumes row: "auth_rows db k = Some row" "stored_row env k row = Some v" and live: "\<not> is_revoked (vr_record v)"
    and made: "in_now inp = Inr made" "generate_material inp = Inr m"
      "api_key_new (km_key_id m) name (ak_policy (ar_api_key (vr_record v))) made None (Some k) = Inr key"
    and r: "revoked_record_with_name (vr_record v) None made = Inr r"
    and r': "r' = \<lparr>ar_api_key = key, ar_salt = km_salt m, ar_verifier = api_key_verifier env (km_salt m) (km_secret m)\<rparr>"
    and none: "auth_rows db (km_key_id m) = None" and read: "io_fault (in_io inp 0) = (\<lambda>_. None)"
    and io: "io_fault (in_io inp 1) = (\<lambda>_. None)" "io_clock (in_io inp 1) = Inr now" "0 \<le> now" and open_db: "\<not> db_closed db"
    and fresh: "map_of (db_replays db) (''authentication:rotate:'' @ k @ '':'' @ km_key_id m) = None"
    and n: "vr_revision v < 2 ^ 63 - 1"
    and json: "ae_to_json env (authentication_database_record r) = Some payload" "length payload \<le> 1024 * 1024"
      "ae_to_json env (authentication_database_record r') = Some payload'" "length payload' \<le> 1024 * 1024"
    and commits: "\<And>cs. commits_to_json (ae_codec env) cs \<noteq> None"
  shows "\<exists>db'. rotate_api_key env inp k name db
    = (Inr (\<lparr>ik_api_key = key, ik_secret = Some (km_secret m)\<rparr>, Some (ApiKeyRotated k (km_key_id m))), db') \<and> \<not> db_closed db'"
proof -
  have id: "record_id (vr_record v) = k" by (rule stored_rowD(1) [OF row(2)])
  have rid: "record_id r = k" using derived_record_ok(2) [OF stored_rowD(2) [OF row(2)] r] id by (simp add: same_key_def)
  have rid': "record_id r' = km_key_id m" using made(3) r' by (auto simp: api_key_new_Inr)
  from store_rotate_succeeds [of db r row env v r', unfolded rid rid', OF row none generate_material_Inr(1) [OF made(2)] io open_db fresh n json commits]
  obtain db' where "store_rotate env (in_io inp 1) r (vr_revision v) r' db
    = (Inr (\<lparr>vr_record = r, vr_revision = Suc (vr_revision v)\<rparr>, \<lparr>vr_record = r', vr_revision = 1\<rparr>), db')" "\<not> db_closed db'" by blast
  moreover have "read_existing env (in_io inp 0) k KeyNotFound db = Inr v" by (rule read_existing_row [OF open_db read row])
  ultimately show ?thesis using live made r r' id
    by (simp add: rotate_api_key_def rotate_from_def rotate_record_def Let_def require_committed_record_def)
qed

section \<open>Examples\<close>

definition example_policy :: api_key_policy where
  "example_policy = \<lparr>ap_model_scope = AllModels, ap_expires_at = None,
     ap_limits = \<lparr>requests_per_minute = None, tokens_per_minute = None, concurrency = None, context_tokens = None\<rparr>,
     ap_tenant = None, ap_application = None\<rparr>"

definition example_id :: "byte \<Rightarrow> api_key_id" where
  "example_id b = hexadecimal (replicate 16 b)"

definition example_record :: "byte \<Rightarrow> unix_milliseconds option \<Rightarrow> api_key_id option \<Rightarrow> auth_record" where
  "example_record b revoked rotated_from =
     \<lparr>ar_api_key = \<lparr>ak_key_id = example_id b, ak_name = ''n'', ak_policy = example_policy, ak_created_at = 5,
        ak_revoked_at = revoked, ak_rotated_from = rotated_from\<rparr>,
      ar_salt = replicate 16 b, ar_verifier = ascii ''letsinfer-api-key-v1'' @ [0] @ replicate 16 b @ replicate 32 b\<rparr>"

definition example_env :: auth_env where
  "example_env =
     \<lparr>ae_codec = \<lparr>sha256 = (\<lambda>bs. bs), commit_to_json = (\<lambda>_. Some []), commit_from_json = (\<lambda>_. None),
        commits_to_json = (\<lambda>_. Some []), commits_from_json = (\<lambda>_. None)\<rparr>,
      ae_to_json = (\<lambda>d. if d = authentication_database_record (example_record 1 None None) then Some [1]
        else if d = authentication_database_record (example_record 2 None None) then Some [2]
        else if d = authentication_database_record (example_record 1 (Some 5) None) then Some [3]
        else if d = authentication_database_record (example_record 2 None (Some (example_id 1))) then Some [4] else None),
      ae_from_json = (\<lambda>bs. if bs = [1] then Some (authentication_database_record (example_record 1 None None))
        else if bs = [2] then Some (authentication_database_record (example_record 2 None None))
        else if bs = [3] then Some (authentication_database_record (example_record 1 (Some 5) None))
        else if bs = [4] then Some (authentication_database_record (example_record 2 None (Some (example_id 1)))) else None)\<rparr>"

definition example_inputs :: "byte \<Rightarrow> auth_inputs" where
  "example_inputs b = \<lparr>in_now = Inr 5, in_fill = (\<lambda>_. Inr (\<lambda>_. b)), in_io = (\<lambda>_. example_io)\<rparr>"

lemma example_env_reads_back: "json_reads_back example_env"
  by (auto simp: json_reads_back_def example_env_def split: if_splits)

lemma example_values [simp]:
  "is_api_key_id (example_id b)" "is_bounded_text ''n'' 128 True" "policy_ok example_policy"
  using hexadecimal_lower_hex [of "replicate 16 b"]
  by (simp_all add: example_id_def policy_ok_def example_policy_def is_bounded_text_def is_trimmed_def chars_ascii
      is_whitespace_def is_control_def scope_ok_def)

lemma example_id_inject [simp]: "example_id a = example_id b \<longleftrightarrow> a = b"
proof
  assume "example_id a = example_id b"
  then have "decode_hexadecimal 16 (hexadecimal (replicate 16 a)) = decode_hexadecimal 16 (hexadecimal (replicate 16 b))"
    by (simp add: example_id_def)
  then show "a = b" by (simp add: decode_hexadecimal_round_trip)
qed simp

lemma example_material [simp]:
  "generate_material (example_inputs b) = Inr \<lparr>km_key_id = example_id b, km_secret = replicate 32 b, km_salt = replicate 16 b\<rparr>"
  using example_values(1) [of b]
  by (simp add: generate_material_def fill_bytes_def example_inputs_def map_replicate_const example_id_def)

lemma example_key:
  "api_key_new (example_id b) ''n'' example_policy 5 None rf = Inr (ar_api_key (example_record b None rf))"
  "revoked_record_with_name (example_record b None rf) None 5 = Inr (example_record b (Some 5) rf)"
  by (simp_all add: api_key_new_def example_policy_def example_record_def revoked_record_with_name_def Let_def)

lemma example_record_parts [simp]:
  "\<lparr>ar_api_key = ar_api_key (example_record b rv rf), ar_salt = replicate 16 b,
     ar_verifier = api_key_verifier example_env (replicate 16 b) (replicate 32 b)\<rparr> = example_record b rv rf"
  "ak_revoked_at (ar_api_key (example_record b rv rf)) = rv" "ak_policy (ar_api_key (example_record b rv rf)) = example_policy"
  "record_id (example_record b rv rf) = example_id b"
  by (simp_all add: example_record_def api_key_verifier_def example_env_def)

lemma example_records_differ [simp]:
  "authentication_database_record (example_record a rv rf) = authentication_database_record (example_record b rv' rf')
     \<longleftrightarrow> a = b \<and> rv = rv' \<and> rf = rf'"
  by (auto simp: authentication_database_record_def example_record_def Let_def)

lemma example_json [simp]:
  "ae_to_json example_env (authentication_database_record (example_record 1 None None)) = Some [1]"
  "ae_to_json example_env (authentication_database_record (example_record 2 None None)) = Some [2]"
  "ae_to_json example_env (authentication_database_record (example_record 1 (Some 5) None)) = Some [3]"
  "ae_to_json example_env (authentication_database_record (example_record 2 None (Some (example_id 1)))) = Some [4]"
  "commit_to_json (ae_codec example_env) c = Some []" "commits_to_json (ae_codec example_env) cs = Some []"
  by (simp_all add: example_env_def)

lemma example_io_values [simp]:
  "in_now (example_inputs b) = Inr 5" "io_fault (in_io (example_inputs b) n) = (\<lambda>_. None)"
  "io_clock (in_io (example_inputs b) n) = Inr 5"
  by (simp_all add: example_inputs_def example_io_def)

definition example_issued :: "byte \<Rightarrow> api_key_id option \<Rightarrow> issued_api_key" where
  "example_issued b rf = \<lparr>ik_api_key = ar_api_key (example_record b None rf), ik_secret = Some (replicate 32 b)\<rparr>"

lemma example_issued_id: "ak_key_id (ik_api_key (example_issued b rf)) = example_id b"
  by (simp add: example_issued_def)

definition example_database :: database where
  "example_database = snd (create example_env (example_inputs 1) ''n'' example_policy empty_database)"

abbreviation example_row :: db_row where
  "example_row \<equiv> \<lparr>row_version = 1, row_revision = 1, row_payload = [1], row_created = 5, row_updated = 5\<rparr>"

lemma example_create:
  assumes "b = 1 \<or> b = 2" and "\<not> db_closed db" and "auth_rows db (example_id b) = None"
    and "map_of (db_replays db) (''authentication:create:'' @ example_id b) = None"
  shows "\<exists>db' row. create example_env (example_inputs b) ''n'' example_policy db
      = (Inr (example_issued b None, Some (ApiKeyCreated (example_id b))), db')
    \<and> \<not> db_closed db' \<and> map_of (db_replays db') = (map_of (db_replays db))(''authentication:create:'' @ example_id b \<mapsto> row)
    \<and> db_records db' = db_records db @ [((Authentication, example_id b),
        \<lparr>row_version = 1, row_revision = 1, row_payload = [b], row_created = 5, row_updated = 5\<rparr>)]"
  using create_succeeds [of "example_inputs b" 5 _ "''n''" example_policy "ar_api_key (example_record b None None)"
      "example_record b None None" example_env 5 db "[b]", OF _ example_material] assms example_key(1) [of b None]
  by (auto simp: example_issued_def)

lemma example_created:
  "create example_env (example_inputs 1) ''n'' example_policy empty_database
     = (Inr (example_issued 1 None, Some (ApiKeyCreated (example_id 1))), example_database)"
  "\<not> db_closed example_database" "dom (map_of (db_replays example_database)) = {''authentication:create:'' @ example_id 1}"
  "auth_rows example_database = [example_id 1 \<mapsto> example_row]"
  "stored_row example_env (example_id 1) example_row = Some \<lparr>vr_record = example_record 1 None None, vr_revision = 1\<rparr>"
proof -
  obtain db row where db: "create example_env (example_inputs 1) ''n'' example_policy empty_database
      = (Inr (example_issued 1 None, Some (ApiKeyCreated (example_id 1))), db)"
    "\<not> db_closed db" "map_of (db_replays db) = [''authentication:create:'' @ example_id 1 \<mapsto> row]"
    "db_records db = [((Authentication, example_id 1), example_row)]"
    using example_create [of 1 empty_database] by (auto simp: empty_database_def auth_rows_def)
  then have eq: "example_database = db" by (simp add: example_database_def)
  show "create example_env (example_inputs 1) ''n'' example_policy empty_database
     = (Inr (example_issued 1 None, Some (ApiKeyCreated (example_id 1))), example_database)" using db(1) eq by simp
  show "\<not> db_closed example_database" using db(2) eq by simp
  show "dom (map_of (db_replays example_database)) = {''authentication:create:'' @ example_id 1}" using db(3) eq by simp
  show "auth_rows example_database = [example_id 1 \<mapsto> example_row]" using db(4) eq by (auto simp: auth_rows_def fun_eq_iff)
  show "stored_row example_env (example_id 1) example_row = Some \<lparr>vr_record = example_record 1 None None, vr_revision = 1\<rparr>"
    using stored_rowI [of example_env example_row "example_record 1 None None" 1] example_values
    by (simp add: example_env_def api_key_ok_def example_record_def example_policy_def)
qed

lemma example_replays: "map_of (db_replays example_database) key = None \<longleftrightarrow> key \<noteq> ''authentication:create:'' @ example_id 1"
  using example_created(3) by (metis domIff singleton_iff)

lemma example_revoked:
  "\<exists>db. revoke example_env (example_inputs 1) (example_id 1) example_database
     = (Inr (ar_api_key (example_record 1 (Some 5) None), Some (ApiKeyRevoked (example_id 1))), db)"
  using revoke_succeeds [OF _ example_created(5), of example_database "example_inputs 1" 5 "example_record 1 (Some 5) None" 5 "[3]"]
    example_created(2,4) example_key(2) [of 1 None]
  by (auto simp: example_replays revoked_record_def)

lemma example_rotated:
  "\<exists>db. rotate_api_key example_env (example_inputs 2) (example_id 1) ''n'' example_database
     = (Inr (example_issued 2 (Some (example_id 1)), Some (ApiKeyRotated (example_id 1) (example_id 2))), db) \<and> \<not> db_closed db"
  using rotate_succeeds [OF _ example_created(5), of example_database "example_inputs 2" 5 _ "''n''"
      "ar_api_key (example_record 2 None (Some (example_id 1)))" "example_record 1 (Some 5) None"
      "example_record 2 None (Some (example_id 1))" 5 "[3]" "[4]", OF _ _ _ example_material]
    example_created(2,4) example_key(2) [of 1 None] example_key(1) [of 2 "Some (example_id 1)"]
  by (auto simp: example_replays example_issued_def)


section \<open>Properties\<close>

text \<open>
  C8: A revocation that reports success is final. In whatever order other operations and other parts of
  the program interleave, from then on the stored record of the key never changes again, and no bearer
  token that names the key is authenticated. The hypothesis on the JSON form is that it reads back.
\<close>

theorem revocation_is_final:
  assumes "json_reads_back env" and "auth_reaches env (auth_start db0) y"
    and "revoke env inp k (as_db y) = (Inr (key, event), db1)" and "auth_reaches env (y\<lparr>as_db := db1\<rparr>) y2"
  shows "auth_rows (as_db y2) k = auth_rows db1 k
    \<and> (\<forall>token secret inp2 p. parse_token token = Some (k, secret) \<longrightarrow> authenticate_identity env inp2 token (as_db y2) \<noteq> Inr p)"
proof -
  have ok: "auth_ok env y" using auth_reaches_rows [OF assms(2,1)] by simp
  obtain now v where run: "read_existing env (in_io inp 0) k KeyNotFound (as_db y) = Inr v"
    "revoke_from env inp k now v (as_db y) = (Inr (key, event), db1)"
    using assms(3) by (auto simp: revoke_def result_simps split: sum.splits prod.splits)
  obtain row0 where row0: "auth_rows (as_db y) k = Some row0" "stored_row env k row0 = Some v"
    using read_existing_Inr [OF run(1)] by blast
  have id: "record_id (vr_record v) = k" by (rule stored_rowD(1) [OF row0(2)])
  have snap: "snapshot_ok env (auth_rows (as_db y)) v" using snapshot_read [of "auth_rows (as_db y)" k] row0 by blast
  note step = revoke_step [OF assms(1) snap run(2) [folded id]]
  have "\<exists>row. auth_rows db1 k = Some row \<and> revoked_row env k row"
  proof (cases "is_revoked (vr_record v)")
    case True
    then have "db1 = as_db y" using run(2) by (auto simp: revoke_from_def Let_def)
    with True row0 show ?thesis by (auto simp: revoked_row_def)
  next
    case False
    with step(2) show ?thesis using id by blast
  qed
  then obtain row where row: "auth_rows db1 k = Some row" "revoked_row env k row" by blast
  have last: "auth_rows (as_db y2) k = Some row" by (rule revoked_stays [OF assms(1) ok step(1) row assms(4)])
  with row revoked_row_refused [OF last row(2)] show ?thesis by auto
qed

theorem revocation_is_final_witness:
  "\<exists>db1. revoke example_env (example_inputs 1) (example_id 1) example_database
        = (Inr (ar_api_key (example_record 1 (Some 5) None), Some (ApiKeyRevoked (example_id 1))), db1)
     \<and> authenticate_identity example_env (example_inputs 2) (''li_'' @ example_id 1 @ ''_'' @ hexadecimal (replicate 32 1)) db1
        \<noteq> Inr \<lparr>ap_key_id = example_id 1, ap_policy = example_policy\<rparr>"
proof -
  obtain db1 where db1: "revoke example_env (example_inputs 1) (example_id 1) example_database
      = (Inr (ar_api_key (example_record 1 (Some 5) None), Some (ApiKeyRevoked (example_id 1))), db1)" using example_revoked by blast
  have "parse_token (''li_'' @ example_id 1 @ ''_'' @ hexadecimal (replicate 32 1)) = Some (example_id 1, replicate 32 1)"
    by (rule parse_issued_token) simp_all
  with revocation_is_final [OF example_env_reads_back rtranclp.rtrancl_refl, of "example_inputs 1" "example_id 1" example_database,
      unfolded auth_system.simps, OF db1 rtranclp.rtrancl_refl] db1
  show ?thesis unfolding auth_system.simps by blast
qed

text \<open>
  C15: The token issued for a new key is accepted for exactly as long as the key lives. In every state
  that any interleaving reaches after the creation, the key can be read, and its token is
  authenticated with the policy stored now, unless the key is revoked or past its expiry by then.
\<close>

theorem issued_key_authenticates:
  assumes "json_reads_back env" and "auth_reaches env (auth_start db0) y" and "is_display_name name" and "policy_ok policy"
    and "create env inp name policy (as_db y) = (Inr (issued, event), db1)" and "auth_reaches env (y\<lparr>as_db := db1\<rparr>) y2"
    and "\<not> db_closed (as_db y2)" and "io_fault (in_io inp2 0) = (\<lambda>_. None)" and "in_now inp2 = Inr now"
  shows "\<exists>token key. fst (take_token issued) = Some token
    \<and> get_api_key env inp2 (ak_key_id (ik_api_key issued)) (as_db y2) = Inr key
    \<and> authenticate_identity env inp2 token (as_db y2) =
        (if ak_revoked_at key \<noteq> None \<or> expired_at now key then Inl Unauthorized
         else Inr \<lparr>ap_key_id = ak_key_id (ik_api_key issued), ap_policy = ak_policy key\<rparr>)"
proof -
  have ok: "auth_ok env y" using auth_reaches_rows [OF assms(2,1)] by simp
  note step = create_step [OF assms(1,3,4,5)]
  obtain secret row r where r: "ik_secret issued = Some secret" "length secret = 32" "ar_api_key r = ik_api_key issued"
    "ar_verifier r = api_key_verifier env (ar_salt r) secret" "auth_rows db1 (record_id r) = Some row"
    "stored_row env (record_id r) row = Some \<lparr>vr_record = r, vr_revision = 1\<rparr>"
    using step(2) [OF refl] by (metis fun_upd_same)
  have "auth_ok env (y\<lparr>as_db := db1\<rparr>)" using ok snapshot_step [OF _ step(1)] by (auto simp: auth_ok_def)
  then have "(rows_step env)\<^sup>*\<^sup>* (auth_rows db1) (auth_rows (as_db y2))"
    using auth_reaches_rows [OF assms(6,1)] by simp
  from key_rows.row_stays [OF this r(5)] r(6) obtain row' v where row': "auth_rows (as_db y2) (record_id r) = Some row'"
    "stored_row env (record_id r) row' = Some v" "v = \<lparr>vr_record = r, vr_revision = 1\<rparr> \<or> same_key r (vr_record v)"
    by (fastforce simp: same_row_key_def)
  have "ar_verifier (vr_record v) = api_key_verifier env (ar_salt (vr_record v)) secret"
    using row'(3) r(4) by (auto simp: same_key_def)
  from authenticate_stored [OF assms(7,8,9) row'(1,2) this r(2)] read_existing_row [OF assms(7,8) row'(1,2)]
  show ?thesis using r(1,3) by (auto simp: take_token_def get_api_key_def)
qed

theorem issued_key_authenticates_witness:
  "\<exists>token key. fst (take_token (example_issued 1 None)) = Some token
     \<and> get_api_key example_env (example_inputs 2) (example_id 1) example_database = Inr key
     \<and> authenticate_identity example_env (example_inputs 2) token example_database =
        (if ak_revoked_at key \<noteq> None \<or> expired_at 5 key then Inl Unauthorized
         else Inr \<lparr>ap_key_id = example_id 1, ap_policy = ak_policy key\<rparr>)"
  using issued_key_authenticates [OF example_env_reads_back rtranclp.rtrancl_refl example_values(2,3), of "example_inputs 1" empty_database,
      unfolded auth_system.simps, OF example_created(1) rtranclp.rtrancl_refl, unfolded auth_system.simps example_issued_id,
      OF example_created(2) example_io_values(2,1)] .

lemma rotation_issues:
  assumes "rotated env db db1 v r s" and "record_id (vr_record v) = k" and "get_api_key env inp0 k db = Inr old"
    and io: "\<not> db_closed db1" "io_fault (in_io inp2 0) = (\<lambda>_. None)" "in_now inp2 = Inr now"
  shows "ak_policy (ar_api_key r) = ak_policy old
    \<and> authenticate_identity env inp2 (''li_'' @ record_id r @ ''_'' @ hexadecimal s) db1 =
      (if expired_at now old then Inl Unauthorized else Inr \<lparr>ap_key_id = record_id r, ap_policy = ak_policy old\<rparr>)"
proof -
  from assms(1) obtain row row' where rows: "auth_rows db k = Some row" "stored_row env k row = Some v"
    "auth_rows db1 (record_id r) = Some row'" "stored_row env (record_id r) row' = Some \<lparr>vr_record = r, vr_revision = 1\<rparr>"
    "ar_verifier r = api_key_verifier env (ar_salt r) s" "length s = 32"
    "ak_policy (ar_api_key r) = ak_policy (ar_api_key (vr_record v))" "\<not> is_revoked r"
    unfolding rotated_def assms(2) by auto
  have "old = ar_api_key (vr_record v)"
    using assms(3) rows(1,2) read_existing_Inr by (fastforce simp: get_api_key_def result_simps)
  then show ?thesis using authenticate_stored [OF io rows(3,4), of s] rows(5-8) by (simp add: expired_at_def)
qed

text \<open>
  C14: A rotation replaces a key in one step. When it fails, no key has changed. When it succeeds, the
  issued key is new, has the policy of the old one and its token is accepted until it expires, and from
  then on no token of the old key is authenticated in any interleaving.
\<close>

theorem rotation_replaces_key:
  assumes "json_reads_back env" and "auth_reaches env (auth_start db0) y" and "is_display_name name"
    and "rotate_api_key env inp k name (as_db y) = (res, db1) \<or> rotate_preserving_name env inp k (as_db y) = (res, db1)"
  shows "case res of
      Inl e \<Rightarrow> auth_rows db1 = auth_rows (as_db y)
    | Inr (issued, event) \<Rightarrow>
        auth_rows (as_db y) (ak_key_id (ik_api_key issued)) = None
        \<and> (\<forall>y2 token secret inp2 p. auth_reaches env (y\<lparr>as_db := db1\<rparr>) y2 \<longrightarrow> parse_token token = Some (k, secret) \<longrightarrow>
             authenticate_identity env inp2 token (as_db y2) \<noteq> Inr p)
        \<and> (\<forall>old inp0 inp2 now. get_api_key env inp0 k (as_db y) = Inr old \<longrightarrow>
             \<not> db_closed db1 \<longrightarrow> io_fault (in_io inp2 0) = (\<lambda>_. None) \<longrightarrow> in_now inp2 = Inr now \<longrightarrow>
             ak_policy (ik_api_key issued) = ak_policy old
             \<and> (\<exists>fresh. fst (take_token issued) = Some fresh \<and> authenticate_identity env inp2 fresh db1 =
                 (if expired_at now old then Inl Unauthorized
                  else Inr \<lparr>ap_key_id = ak_key_id (ik_api_key issued), ap_policy = ak_policy old\<rparr>)))"
  using assms(1,3,4)
proof (cases rule: rotate_effect)
  case same
  then show ?thesis by (cases res) auto
next
  case (new v r s)
  have ok: "auth_ok env y" using auth_reaches_rows [OF assms(2,1)] by simp
  from new(2) obtain row1 where rows: "auth_rows (as_db y) (record_id r) = None" "auth_rows db1 k = Some row1" "revoked_row env k row1"
    unfolding rotated_def new(1) by auto
  have "authenticate_identity env inp2 token (as_db y2) \<noteq> Inr p"
    if "auth_reaches env (y\<lparr>as_db := db1\<rparr>) y2" "parse_token token = Some (k, secret)" for y2 token secret inp2 p
    by (rule revoked_row_refused [OF revoked_stays [OF assms(1) ok rotated_rows [OF new(2)] rows(2,3) that(1)] rows(3) that(2)])
  then show ?thesis using rows(1) new(3) rotation_issues [OF new(2,1)] by (auto simp: take_token_def)
qed

theorem rotation_replaces_key_witness:
  "\<exists>db1 fresh. rotate_api_key example_env (example_inputs 2) (example_id 1) ''n'' example_database
       = (Inr (example_issued 2 (Some (example_id 1)), Some (ApiKeyRotated (example_id 1) (example_id 2))), db1)
     \<and> fst (take_token (example_issued 2 (Some (example_id 1)))) = Some fresh
     \<and> authenticate_identity example_env (example_inputs 1) fresh db1
       = Inr \<lparr>ap_key_id = example_id 2, ap_policy = example_policy\<rparr>"
proof -
  obtain db1 where db1: "rotate_api_key example_env (example_inputs 2) (example_id 1) ''n'' example_database
      = (Inr (example_issued 2 (Some (example_id 1)), Some (ApiKeyRotated (example_id 1) (example_id 2))), db1)" "\<not> db_closed db1"
    using example_rotated by blast
  have "get_api_key example_env (example_inputs 1) (example_id 1) example_database = Inr (ar_api_key (example_record 1 None None))"
    using read_existing_row [OF example_created(2) _ _ example_created(5)] example_created(4) by (simp add: get_api_key_def)
  moreover have "\<not> expired_at 5 (ar_api_key (example_record 1 None None))"
    by (simp add: expired_at_def example_record_def example_policy_def)
  moreover note rotation_replaces_key [OF example_env_reads_back rtranclp.rtrancl_refl example_values(2), of "example_inputs 2" "example_id 1"
      example_database, unfolded auth_system.simps, OF disjI1 [OF db1(1)], unfolded sum.case prod.case example_issued_id,
      THEN conjunct2, THEN conjunct2, rule_format, OF _ db1(2) example_io_values(2) [of 1] example_io_values(1) [of 1]]
  ultimately have "\<exists>fresh. fst (take_token (example_issued 2 (Some (example_id 1)))) = Some fresh
      \<and> authenticate_identity example_env (example_inputs 1) fresh db1 = Inr \<lparr>ap_key_id = example_id 2, ap_policy = example_policy\<rparr>"
    by fastforce
  with db1(1) show ?thesis by blast
qed

lemma auth_rows_listed:
  assumes "api_keys env inp db = Inr keys" and "auth_rows db k1 = Some row1" and "stored_row env k1 row1 = Some v1"
    and "auth_rows db k2 = Some row2" and "stored_row env k2 row2 = Some v2" and "k1 \<noteq> k2"
  shows "ak_name (ar_api_key (vr_record v1)) \<noteq> ak_name (ar_api_key (vr_record v2))"
proof -
  from assms(1) obtain vs where vs: "store_all env (in_io inp 0) db = Inr vs"
    "distinct (map ak_name (map (\<lambda>v. ar_api_key (vr_record v)) vs))" by (auto simp: api_keys_def Let_def result_simps)
  have "v1 \<in> set vs" "v2 \<in> set vs" using store_all_contains [OF vs(1)] assms(2-5) by blast+
  moreover have "v1 \<noteq> v2" using stored_rowD(1) [OF assms(3)] stored_rowD(1) [OF assms(5)] assms(6) by auto
  ultimately show ?thesis using vs(2) by (auto simp: distinct_map inj_on_def)
qed

text \<open>
  C39: Creating a key does not check that its name is free. After two successful creations with the same
  name the listing of the keys fails on that database, whatever the engine answers, although the store
  contract says that a record is created only when its identity and name are absent.
\<close>

theorem duplicate_names_break_listing:
  assumes "json_reads_back env" and "is_display_name name" and "policy_ok p1" and "policy_ok p2"
    and "create env inp1 name p1 db = (Inr (issued1, event1), db1)"
    and "create env inp2 name p2 db1 = (Inr (issued2, event2), db2)"
  shows "api_keys env inp db2 \<noteq> Inr keys"
proof
  assume list: "api_keys env inp db2 = Inr keys"
  obtain row1 r1 where r1: "auth_rows db1 = (auth_rows db)(record_id r1 \<mapsto> row1)"
      "stored_row env (record_id r1) row1 = Some \<lparr>vr_record = r1, vr_revision = 1\<rparr>" "ak_name (ar_api_key r1) = name"
    using create_step(2) [OF assms(1,2,3,5) refl] by metis
  obtain row2 r2 where r2: "auth_rows db2 = (auth_rows db1)(record_id r2 \<mapsto> row2)" "auth_rows db1 (record_id r2) = None"
      "stored_row env (record_id r2) row2 = Some \<lparr>vr_record = r2, vr_revision = 1\<rparr>" "ak_name (ar_api_key r2) = name"
    using create_step(2) [OF assms(1,2,4,6) refl] by metis
  have "record_id r1 \<noteq> record_id r2" using r1(1) r2(2) by auto
  then show False using auth_rows_listed [OF list, of "record_id r1" row1 _ "record_id r2" row2] r1 r2 by fastforce
qed

theorem duplicate_names_break_listing_witness:
  "\<exists>db2. create example_env (example_inputs 1) ''n'' example_policy empty_database
       = (Inr (example_issued 1 None, Some (ApiKeyCreated (example_id 1))), example_database)
     \<and> create example_env (example_inputs 2) ''n'' example_policy example_database
       = (Inr (example_issued 2 None, Some (ApiKeyCreated (example_id 2))), db2)
     \<and> api_keys example_env (example_inputs 1) db2 \<noteq> Inr []"
proof -
  obtain db2 where "create example_env (example_inputs 2) ''n'' example_policy example_database
       = (Inr (example_issued 2 None, Some (ApiKeyCreated (example_id 2))), db2)"
    using example_create [of 2 example_database] example_created(2,4) by (auto simp: example_replays)
  with duplicate_names_break_listing [OF example_env_reads_back example_values(2,3,3) example_created(1)] example_created(1)
  show ?thesis by blast
qed

end
