(* ===== verification/GatewayAuthentication.thy ===== *)
theory GatewayAuthentication
  imports AuthenticationRuns GatewayAdmission
begin

text \<open>
  The adapter between the API keys and the Gateway (\<open>core/gateway/src/li_gateway_authentication.rs\<close>), and
  what public admission ensures when the Gateway authenticates through it.
\<close>

section \<open>The adapter\<close>

definition gateway_authenticate ::
  "auth_env \<Rightarrow> auth_inputs \<Rightarrow> database \<Rightarrow> string \<Rightarrow> logical_model_name \<Rightarrow> gateway_error + gateway_principal" where
  "gateway_authenticate env inp db bearer model =
     (case authenticate env inp bearer model db of
        Inr p \<Rightarrow> Inr \<lparr>pr_key_id = ap_key_id p, pr_limits = ap_limits (ap_policy p)\<rparr>
      | Inl Unauthorized \<Rightarrow> Inl AuthenticationDenied
      | Inl KeyNotFound \<Rightarrow> Inl AuthenticationDenied
      | Inl _ \<Rightarrow> Inl (Provider ''authentication'' ''API-key authority is unavailable''))"

lemma gateway_authenticate_Inr:
  "gateway_authenticate env inp db bearer model = Inr p \<longleftrightarrow>
     (\<exists>q. authenticate_identity env inp bearer db = Inr q \<and> permits (ap_model_scope (ap_policy q)) model
        \<and> p = \<lparr>pr_key_id = ap_key_id q, pr_limits = ap_limits (ap_policy q)\<rparr>)"
  by (auto simp: gateway_authenticate_def authenticate_def result_simps split: sum.splits auth_error.splits)

text \<open>A public request is admitted by the principal that the provider answers, on a main node.\<close>

lemma admit_public_Inr:
  assumes "admit_public pv gm bearer r = (Inr a, gm')"
  shows "\<exists>p. pv_authenticate pv bearer (rq_model r) = Inr p \<and> admit pv (received gm) r (Some p) = (Inr a, gm')"
  using assms
  by (auto simp: admit_public_def Let_def record_initial_failure_def split: gateway_mode.splits sum.splits prod.splits)

section \<open>An admitted request\<close>

abbreviation example_token :: string where
  "example_token \<equiv> ''li_'' @ example_id 1 @ ''_'' @ hexadecimal (replicate 32 1)"

definition example_key_providers :: providers where
  "example_key_providers = example_providers\<lparr>pv_authenticate := gateway_authenticate example_env (example_inputs 2) example_database\<rparr>"

lemma example_token_accepted:
  "gateway_authenticate example_env (example_inputs 2) example_database example_token model
     = Inr \<lparr>pr_key_id = example_id 1, pr_limits = ap_limits example_policy\<rparr>"
proof -
  have "authenticate_identity example_env (example_inputs 2) example_token example_database
      = Inr \<lparr>ap_key_id = example_id 1, ap_policy = example_policy\<rparr>"
    using authenticate_stored [OF example_created(2), of "example_inputs 2" 5 "example_id 1", OF _ _ _ example_created(5), of "replicate 32 1"]
      example_created(4) by (simp add: example_record_def example_env_def api_key_verifier_def expired_at_def example_policy_def)
  then show ?thesis
    by (auto simp: gateway_authenticate_Inr example_policy_def permits_def)
qed

lemma example_key_admission:
  "\<exists>x gm'. admit_public example_key_providers example_manager example_token example_request = (Inr (Admitted x), gm')"
proof -
  obtain st where a: "accepts protection_state_default example_local_route (example_snapshot 5 100) 200 = (True, st)"
    using example_snapshot_accepted by blast
  have "current_routes example_key_providers (received example_manager) ''m'' =
      (Inr [example_local_route], (received example_manager)\<lparr>gm_protection := st\<rparr>)"
    by (simp add: current_routes_def judge_def example_key_providers_def example_providers_def example_manager_def child_route_ok_def
        relayed_def received_def Let_def a) (simp add: example_local_route_def example_route_def)
  then have "\<exists>x gm'. admit example_key_providers (received example_manager) example_request
      (Some \<lparr>pr_key_id = example_id 1, pr_limits = ap_limits example_policy\<rparr>) = (Inr (Admitted x), gm')"
    by (simp add: admit_def example_key_providers_def example_providers_def example_manager_def received_def example_policy_def
        example_local_route_def admit_section_def admit_route_def require_new_request_def load_recent_usage_def
        admit_principal_def Let_def select_route_def sort_by_def exceeds_def reaches_def used_tokens_def
        reserve_route_def out_of_cooldown_def route_active_def queue_time_def reserved_for_def
        token_demand_def checked_add64_def u64_max_def saturating_add64_def example_manager_defs)
  then obtain x gm' where adm: "admit example_key_providers (received example_manager) example_request
      (Some \<lparr>pr_key_id = example_id 1, pr_limits = ap_limits example_policy\<rparr>) = (Inr (Admitted x), gm')" by blast
  have "gm_mode (received example_manager) = Main ''n''" by (simp add: received_def example_manager_def Let_def)
  moreover have "pv_authenticate example_key_providers = gateway_authenticate example_env (example_inputs 2) example_database"
    by (simp add: example_key_providers_def)
  ultimately show ?thesis using adm
    by (simp add: admit_public_def Let_def record_initial_failure_def example_token_accepted [simplified])
qed

section \<open>Properties\<close>

text \<open>
  C9: Public admission needs a live key. When the Gateway authenticates through the stored API keys and
  admits a public request, the bearer token names a stored key that is neither revoked nor past its
  expiry and whose verifier matches the secret, its policy permits the requested model, and the request
  is charged to this key under the limits that are stored for it.
\<close>

theorem public_admission_needs_live_key:
  assumes "pv_authenticate pv = gateway_authenticate env inp db" and "admit_public pv gm bearer r = (Inr a, gm')"
  shows "\<exists>k secret row v now. parse_token bearer = Some (k, secret) \<and> auth_rows db k = Some row \<and> stored_row env k row = Some v
    \<and> in_now inp = Inr now \<and> \<not> is_revoked (vr_record v) \<and> \<not> expired_at now (ar_api_key (vr_record v))
    \<and> ar_verifier (vr_record v) = api_key_verifier env (ar_salt (vr_record v)) secret
    \<and> permits (ap_model_scope (ak_policy (ar_api_key (vr_record v)))) (rq_model r)
    \<and> admit pv (received gm) r (Some \<lparr>pr_key_id = k, pr_limits = ap_limits (ak_policy (ar_api_key (vr_record v)))\<rparr>) = (Inr a, gm')"
proof -
  obtain p where p: "gateway_authenticate env inp db bearer (rq_model r) = Inr p" "admit pv (received gm) r (Some p) = (Inr a, gm')"
    using admit_public_Inr [OF assms(2)] assms(1) by auto
  then obtain q where q: "authenticate_identity env inp bearer db = Inr q" "permits (ap_model_scope (ap_policy q)) (rq_model r)"
    "p = \<lparr>pr_key_id = ap_key_id q, pr_limits = ap_limits (ap_policy q)\<rparr>" by (auto simp: gateway_authenticate_Inr)
  from authenticate_identity_Inr [OF q(1)] q(2,3) p(2) show ?thesis by fastforce
qed

theorem public_admission_needs_live_key_witness:
  "\<exists>x gm' k secret. admit_public example_key_providers example_manager example_token example_request = (Inr (Admitted x), gm')
     \<and> parse_token example_token = Some (k, secret)
     \<and> admit example_key_providers (received example_manager) example_request (Some \<lparr>pr_key_id = k, pr_limits = ap_limits example_policy\<rparr>)
       = (Inr (Admitted x), gm')"
proof -
  obtain x gm' where adm: "admit_public example_key_providers example_manager example_token example_request = (Inr (Admitted x), gm')"
    using example_key_admission by blast
  have pv: "pv_authenticate example_key_providers = gateway_authenticate example_env (example_inputs 2) example_database"
    by (simp add: example_key_providers_def)
  from public_admission_needs_live_key [OF pv adm] obtain k secret row v where key: "parse_token example_token = Some (k, secret)"
    "auth_rows example_database k = Some row" "stored_row example_env k row = Some v"
    "admit example_key_providers (received example_manager) example_request
       (Some \<lparr>pr_key_id = k, pr_limits = ap_limits (ak_policy (ar_api_key (vr_record v)))\<rparr>) = (Inr (Admitted x), gm')" by blast
  have "k = example_id 1" "row = example_row" using key(2) example_created(4) by (auto split: if_splits)
  with key example_created(5) have "ak_policy (ar_api_key (vr_record v)) = example_policy" by auto
  with key adm show ?thesis by auto
qed

end
