(* ===== verification/AuditLedger.thy ===== *)
theory AuditLedger
  imports CoreText "HOL-Library.Sublist"
begin

text \<open>
  The audit chain (\<open>core/audit/src/li_audit_contract.rs\<close>, \<open>li_audit_cryptography.rs\<close>, the ledger of
  \<open>li_audit_store.rs\<close> and the verification of \<open>li_audit_manager.rs\<close>): events that are bound to each other
  by hashes, with signed checkpoints. SHA-256, the JSON form of a map of fields and the signatures are
  parameters. Identities are their canonical text.
\<close>

section \<open>Identities\<close>

definition ascii_alphanumeric :: "char \<Rightarrow> bool" where
  "ascii_alphanumeric c \<longleftrightarrow>
     (48 \<le> (of_char c :: nat) \<and> of_char c \<le> (57 :: nat)) \<or> (65 \<le> (of_char c :: nat) \<and> of_char c \<le> (90 :: nat))
     \<or> (97 \<le> (of_char c :: nat) \<and> of_char c \<le> (122 :: nat))"

definition is_safe_identifier :: "string \<Rightarrow> nat \<Rightarrow> bool" where
  "is_safe_identifier value maximum_bytes \<longleftrightarrow> value \<noteq> [] \<and> length value \<le> maximum_bytes
     \<and> list_all (\<lambda>b. ascii_alphanumeric b \<or> b \<in> {CHR ''.'', CHR ''_'', CHR ''-''}) value"

definition is_safe_principal :: "string \<Rightarrow> nat \<Rightarrow> bool" where
  "is_safe_principal value maximum_bytes \<longleftrightarrow> value \<noteq> [] \<and> length value \<le> maximum_bytes
     \<and> list_all (\<lambda>b. ascii_alphanumeric b \<or> b \<in> {CHR ''.'', CHR ''_'', CHR ''-'', CHR ''@''}) value"

definition is_safe_target :: "string \<Rightarrow> nat \<Rightarrow> bool" where
  "is_safe_target value maximum_bytes \<longleftrightarrow> value \<noteq> [] \<and> length value \<le> maximum_bytes
     \<and> list_all (\<lambda>b. ascii_alphanumeric b \<or> b \<in> {CHR ''.'', CHR ''_'', CHR ''-'', CHR ''@'', CHR '':'', CHR ''/''}) value"

definition ascii_lowercase :: "char \<Rightarrow> char" where
  "ascii_lowercase c = (if 65 \<le> (of_char c :: nat) \<and> of_char c \<le> (90 :: nat) then char_of ((of_char c :: nat) + 32) else c)"

definition contains_secret_marker :: "string \<Rightarrow> bool" where
  "contains_secret_marker value \<longleftrightarrow>
     (let lowercase = map ascii_lowercase value in
      prefix ''bearer'' lowercase \<or> prefix ''sk-'' lowercase \<or> sublist ''private_key'' lowercase
      \<or> sublist ''private-key'' lowercase \<or> sublist ''-----begin'' lowercase)"

definition is_audit_event_id :: "string \<Rightarrow> bool" where
  "is_audit_event_id value \<longleftrightarrow> is_lower_hex value 32"

definition is_audit_replay_id :: "string \<Rightarrow> bool" where
  "is_audit_replay_id value \<longleftrightarrow> is_safe_identifier value 128 \<and> \<not> contains_secret_marker value"

definition is_audit_actor_id :: "string \<Rightarrow> bool" where
  "is_audit_actor_id value \<longleftrightarrow> is_safe_principal value 128 \<and> \<not> contains_secret_marker value"

definition is_audit_target :: "string \<Rightarrow> bool" where
  "is_audit_target value \<longleftrightarrow> is_safe_target value 255 \<and> \<not> contains_secret_marker value"

text \<open>A timestamp is positive and fits a signed 64-bit integer.\<close>

definition is_audit_timestamp :: "nat \<Rightarrow> bool" where
  "is_audit_timestamp value \<longleftrightarrow> value \<noteq> 0 \<and> value \<le> 2 ^ 63 - 1"

abbreviation is_sha256_digest :: "string \<Rightarrow> bool" where
  "is_sha256_digest value \<equiv> is_lower_hex value 64"

section \<open>Errors\<close>

datatype audit_integrity_error =
    SequenceError nat | EventIdentityError nat | NodeError nat | PreviousHashError nat | EventHashError nat
  | CheckpointMissing nat | CheckpointUnexpected nat | CheckpointHash nat | CheckpointTime nat | CheckpointSignature nat

datatype audit_store_error = AuditConflict | AuditReplayConflict | AuditUnavailable | AuditCorrupt

datatype audit_error =
    AuditInvalid string string
  | AuditNotFound
  | AuditIdempotencyConflict
  | AuditContention
  | ExportLimitExceeded
  | AuditProvider string string
  | AuditStore audit_store_error
  | AuditIntegrity audit_integrity_error

section \<open>Requests, events and checkpoints\<close>

datatype audit_actor_type = LocalUser | ControllerActor | NodeCandidate | NodeActor | SystemActor

fun actor_type_str :: "audit_actor_type \<Rightarrow> string" where
  "actor_type_str LocalUser = ''local-user''"
| "actor_type_str ControllerActor = ''controller''"
| "actor_type_str NodeCandidate = ''node-candidate''"
| "actor_type_str NodeActor = ''node''"
| "actor_type_str SystemActor = ''system''"

datatype audit_origin_interface = CliOrigin | ControllerOrigin | PairingOrigin | GatewayOrigin | NodeOrigin | SystemOrigin

fun origin_interface_str :: "audit_origin_interface \<Rightarrow> string" where
  "origin_interface_str CliOrigin = ''cli''"
| "origin_interface_str ControllerOrigin = ''controller''"
| "origin_interface_str PairingOrigin = ''pairing''"
| "origin_interface_str GatewayOrigin = ''gateway''"
| "origin_interface_str NodeOrigin = ''node''"
| "origin_interface_str SystemOrigin = ''system''"

datatype audit_outcome = OutcomeSuccess | OutcomeDenied | OutcomeFailed

fun outcome_str :: "audit_outcome \<Rightarrow> string" where
  "outcome_str OutcomeSuccess = ''success''"
| "outcome_str OutcomeDenied = ''denied''"
| "outcome_str OutcomeFailed = ''failed''"

record audit_actor =
  ac_kind :: audit_actor_type
  ac_identifier :: string

record audit_origin =
  ao_node_id :: string
  ao_interface :: audit_origin_interface

record audit_request =
  aq_replay_id :: string
  aq_correlation_id :: string
  aq_actor :: audit_actor
  aq_origin :: audit_origin
  aq_action :: string
  aq_target :: string
  aq_before :: "string option"
  aq_after :: "string option"
  aq_outcome :: audit_outcome
  aq_reason :: "string option"

definition audit_request_new :: "audit_request \<Rightarrow> audit_error + audit_request" where
  "audit_request_new r =
     (if aq_outcome r = OutcomeSuccess \<and> aq_reason r \<noteq> None
      then Inl (AuditInvalid ''audit reason'' ''successful actions cannot carry a failure reason'')
      else if aq_outcome r \<noteq> OutcomeSuccess \<and> aq_reason r = None
      then Inl (AuditInvalid ''audit reason'' ''denied and failed actions require a reason code'')
      else Inr r)"

record audit_event =
  ev_sequence :: nat
  ev_event_id :: string
  ev_correlation_id :: string
  ev_timestamp :: nat
  ev_node_id :: string
  ev_actor :: audit_actor
  ev_origin :: audit_origin
  ev_action :: string
  ev_target :: string
  ev_before :: "string option"
  ev_after :: "string option"
  ev_outcome :: audit_outcome
  ev_reason :: "string option"
  ev_previous_hash :: string
  ev_event_hash :: string

definition event_from_persisted :: "audit_event \<Rightarrow> audit_error + audit_event" where
  "event_from_persisted e =
     (if ev_sequence e = 0 \<or> ev_sequence e > 2 ^ 63 - 1
      then Inl (AuditInvalid ''audit sequence'' ''sequence must fit the positive signed 64-bit range'')
      else if ev_outcome e = OutcomeSuccess \<and> ev_reason e \<noteq> None \<or> ev_outcome e \<noteq> OutcomeSuccess \<and> ev_reason e = None
      then Inl (AuditInvalid ''audit event'' ''outcome and reason are inconsistent'')
      else Inr e)"

record audit_checkpoint =
  cp_sequence :: nat
  cp_event_hash :: string
  cp_signature :: "byte list"
  cp_created_at :: nat

definition checkpoint_from_persisted :: "audit_checkpoint \<Rightarrow> audit_error + audit_checkpoint" where
  "checkpoint_from_persisted c =
     (if cp_sequence c = 0 \<or> cp_sequence c > 2 ^ 63 - 1
      then Inl (AuditInvalid ''checkpoint sequence'' ''sequence must fit the positive signed 64-bit range'')
      else if cp_signature c = [] \<or> length (cp_signature c) > 4096
      then Inl (AuditInvalid ''checkpoint signature'' ''signature must contain between 1 and 4096 bytes'')
      else Inr c)"

definition checkpoint_policy_new :: "nat \<Rightarrow> audit_error + nat" where
  "checkpoint_policy_new interval =
     (if interval = 0 \<or> interval > 10000
      then Inl (AuditInvalid ''checkpoint interval'' ''interval must be between 1 and 10000 events'')
      else Inr interval)"

definition requires_checkpoint :: "nat \<Rightarrow> nat \<Rightarrow> bool" where
  "requires_checkpoint interval sequence \<longleftrightarrow> sequence \<noteq> 0 \<and> sequence mod interval = 0"

record ledger_entry =
  le_event :: audit_event
  le_checkpoint :: "audit_checkpoint option"

definition ledger_entry_new :: "audit_event \<Rightarrow> audit_checkpoint option \<Rightarrow> audit_store_error + ledger_entry" where
  "ledger_entry_new e c =
     (if (case c of None \<Rightarrow> False | Some v \<Rightarrow> cp_sequence v \<noteq> ev_sequence e \<or> cp_event_hash v \<noteq> ev_event_hash e)
      then Inl AuditCorrupt
      else Inr \<lparr>le_event = e, le_checkpoint = c\<rparr>)"

record audit_ledger =
  al_entries :: "ledger_entry list"
  al_revision :: nat

definition ledger_from_persisted :: "ledger_entry list \<Rightarrow> nat \<Rightarrow> audit_store_error + audit_ledger" where
  "ledger_from_persisted entries revision =
     (if length entries \<noteq> revision then Inl AuditCorrupt else Inr \<lparr>al_entries = entries, al_revision = revision\<rparr>)"

definition ledger_head :: "audit_ledger \<Rightarrow> audit_event option" where
  "ledger_head l = (if al_entries l = [] then None else Some (le_event (last (al_entries l))))"

section \<open>Hashes\<close>

datatype json_value = JString string | JNumber nat | JNull

record audit_manager =
  am_node_id :: string
  am_interval :: nat
  am_sha256 :: "byte list \<Rightarrow> byte list"
  am_json :: "(string \<times> json_value) list \<Rightarrow> byte list option"
  am_sign :: "byte list \<Rightarrow> audit_error + byte list"
  am_verify :: "byte list \<Rightarrow> byte list \<Rightarrow> audit_error + bool"

definition AUDIT_GENESIS_HASH :: string where
  "AUDIT_GENESIS_HASH = replicate 64 CHR ''0''"

definition digest_value :: "string option \<Rightarrow> json_value" where
  "digest_value v = (case v of None \<Rightarrow> JNull | Some d \<Rightarrow> JString d)"

definition canonical_map_bytes :: "audit_manager \<Rightarrow> (string \<times> json_value) list \<Rightarrow> audit_error + byte list" where
  "canonical_map_bytes am values =
     bind_result (of_option (AuditProvider ''serialization'' ''canonical encoding failed'') (am_json am values)) (\<lambda>encoded.
     Inr (encoded @ [10]))"

text \<open>The entries of the sorted map, in its order.\<close>

definition event_fields :: "audit_event \<Rightarrow> (string \<times> json_value) list" where
  "event_fields e =
     [(''action'', JString (ev_action e)), (''actor_id'', JString (ac_identifier (ev_actor e))),
      (''actor_type'', JString (actor_type_str (ac_kind (ev_actor e)))), (''after_sha256'', digest_value (ev_after e)),
      (''before_sha256'', digest_value (ev_before e)), (''correlation_id'', JString (ev_correlation_id e)),
      (''event_id'', JString (ev_event_id e)), (''node_id'', JString (ev_node_id e)),
      (''origin_interface'', JString (origin_interface_str (ao_interface (ev_origin e)))),
      (''origin_node_id'', JString (ao_node_id (ev_origin e))), (''outcome'', JString (outcome_str (ev_outcome e))),
      (''previous_hash'', JString (ev_previous_hash e)), (''reason'', digest_value (ev_reason e)),
      (''target'', JString (ev_target e)), (''timestamp_unix_ns'', JNumber (ev_timestamp e))]"

definition canonical_event_bytes :: "audit_manager \<Rightarrow> audit_event \<Rightarrow> audit_error + byte list" where
  "canonical_event_bytes am e = canonical_map_bytes am (event_fields e)"

definition request_fields :: "string \<Rightarrow> audit_request \<Rightarrow> (string \<times> json_value) list" where
  "request_fields node_id r =
     [(''action'', JString (aq_action r)), (''actor_id'', JString (ac_identifier (aq_actor r))),
      (''actor_type'', JString (actor_type_str (ac_kind (aq_actor r)))), (''after_sha256'', digest_value (aq_after r)),
      (''before_sha256'', digest_value (aq_before r)), (''correlation_id'', JString (aq_correlation_id r)),
      (''node_id'', JString node_id), (''origin_interface'', JString (origin_interface_str (ao_interface (aq_origin r)))),
      (''origin_node_id'', JString (ao_node_id (aq_origin r))), (''outcome'', JString (outcome_str (aq_outcome r))),
      (''reason'', digest_value (aq_reason r)), (''target'', JString (aq_target r))]"

definition sha256_text :: "audit_manager \<Rightarrow> string \<Rightarrow> byte list \<Rightarrow> audit_error + string" where
  "sha256_text am reason bytes =
     bind_result (ensure (is_sha256_digest (hexadecimal (am_sha256 am bytes))) (AuditInvalid ''audit hash'' reason)) (\<lambda>_.
     Inr (hexadecimal (am_sha256 am bytes)))"

definition request_sha256 :: "audit_manager \<Rightarrow> string \<Rightarrow> audit_request \<Rightarrow> audit_error + string" where
  "request_sha256 am node_id r =
     bind_result (canonical_map_bytes am (request_fields node_id r)) (sha256_text am ''digest could not be encoded'')"

text \<open>What an event carries of its request.\<close>

definition event_request :: "audit_event \<Rightarrow> audit_request" where
  "event_request e =
     \<lparr>aq_replay_id = [], aq_correlation_id = ev_correlation_id e, aq_actor = ev_actor e, aq_origin = ev_origin e,
      aq_action = ev_action e, aq_target = ev_target e, aq_before = ev_before e, aq_after = ev_after e,
      aq_outcome = ev_outcome e, aq_reason = ev_reason e\<rparr>"

definition event_request_sha256 :: "audit_manager \<Rightarrow> audit_event \<Rightarrow> audit_error + string" where
  "event_request_sha256 am e = request_sha256 am (ev_node_id e) (event_request e)"

text \<open>
  A digest has 64 lowercase hexadecimal characters, so that the loop of \<open>decode_sha256\<close> is
  \<open>decode_hexadecimal\<close>.
\<close>

definition decode_sha256 :: "string \<Rightarrow> audit_error + byte list" where
  "decode_sha256 value =
     of_option (AuditInvalid ''audit hash'' ''digest contains invalid hexadecimal text'') (decode_hexadecimal 32 value)"

definition event_sha256 :: "audit_manager \<Rightarrow> audit_event \<Rightarrow> audit_error + string" where
  "event_sha256 am e =
     bind_result (decode_sha256 (ev_previous_hash e)) (\<lambda>previous.
     bind_result (canonical_event_bytes am e) (\<lambda>canonical.
     sha256_text am ''event hash could not be encoded'' (previous @ canonical)))"

definition unsigned_event :: "nat \<Rightarrow> string \<Rightarrow> nat \<Rightarrow> string \<Rightarrow> audit_request \<Rightarrow> string \<Rightarrow> string \<Rightarrow> audit_event" where
  "unsigned_event sequence event_id timestamp node_id r previous_hash event_hash =
     \<lparr>ev_sequence = sequence, ev_event_id = event_id, ev_correlation_id = aq_correlation_id r, ev_timestamp = timestamp,
      ev_node_id = node_id, ev_actor = aq_actor r, ev_origin = aq_origin r, ev_action = aq_action r, ev_target = aq_target r,
      ev_before = aq_before r, ev_after = aq_after r, ev_outcome = aq_outcome r, ev_reason = aq_reason r,
      ev_previous_hash = previous_hash, ev_event_hash = event_hash\<rparr>"

definition chained_event ::
  "audit_manager \<Rightarrow> nat \<Rightarrow> string \<Rightarrow> nat \<Rightarrow> string \<Rightarrow> audit_request \<Rightarrow> string \<Rightarrow> audit_error + audit_event" where
  "chained_event am sequence event_id timestamp node_id r previous_hash =
     bind_result (event_from_persisted (unsigned_event sequence event_id timestamp node_id r previous_hash AUDIT_GENESIS_HASH)) (\<lambda>e.
     bind_result (event_sha256 am e) (\<lambda>event_hash.
     event_from_persisted (unsigned_event sequence event_id timestamp node_id r previous_hash event_hash)))"

section \<open>Verification\<close>

record audit_verification =
  vf_events :: nat
  vf_checkpoints :: nat
  vf_head :: string

definition verify_checkpoint :: "audit_manager \<Rightarrow> audit_event \<Rightarrow> audit_checkpoint \<Rightarrow> audit_error + unit" where
  "verify_checkpoint am e c =
     (let sequence = ev_sequence e in
      if cp_sequence c \<noteq> sequence \<or> cp_event_hash c \<noteq> ev_event_hash e then Inl (AuditIntegrity (CheckpointHash sequence))
      else if cp_created_at c < ev_timestamp e then Inl (AuditIntegrity (CheckpointTime sequence))
      else bind_result (am_verify am (ascii (cp_event_hash c)) (cp_signature c)) (\<lambda>valid.
           ensure valid (AuditIntegrity (CheckpointSignature sequence))))"

text \<open>The body of the loop: the judgement of one entry, and the loop with its three variables.\<close>

definition verify_entry ::
  "audit_manager \<Rightarrow> nat \<Rightarrow> string \<Rightarrow> string list \<Rightarrow> ledger_entry \<Rightarrow> audit_error + unit" where
  "verify_entry am index previous_hash event_ids entry =
     (let e = le_event entry in
      bind_result (of_option (AuditIntegrity (SequenceError u64_max)) (checked_add64 index 1)) (\<lambda>sequence.
      bind_result (ensure (ev_sequence e = sequence) (AuditIntegrity (SequenceError (ev_sequence e)))) (\<lambda>_.
      bind_result (ensure (ev_event_id e \<notin> set event_ids) (AuditIntegrity (EventIdentityError sequence))) (\<lambda>_.
      bind_result (ensure (ev_node_id e = am_node_id am) (AuditIntegrity (NodeError sequence))) (\<lambda>_.
      bind_result (ensure (ev_previous_hash e = previous_hash) (AuditIntegrity (PreviousHashError sequence))) (\<lambda>_.
      bind_result (event_sha256 am e) (\<lambda>hash.
      bind_result (ensure (hash = ev_event_hash e) (AuditIntegrity (EventHashError sequence))) (\<lambda>_.
      case (requires_checkpoint (am_interval am) sequence, le_checkpoint entry) of
        (True, None) \<Rightarrow> Inl (AuditIntegrity (CheckpointMissing sequence))
      | (False, Some _) \<Rightarrow> Inl (AuditIntegrity (CheckpointUnexpected sequence))
      | (True, Some checkpoint) \<Rightarrow> verify_checkpoint am e checkpoint
      | (False, None) \<Rightarrow> Inr ()))))))))"

fun verify_entries ::
  "audit_manager \<Rightarrow> nat \<Rightarrow> string \<Rightarrow> string list \<Rightarrow> nat \<Rightarrow> ledger_entry list \<Rightarrow> audit_error + nat \<times> string" where
  "verify_entries am index previous_hash event_ids checkpoints [] = Inr (checkpoints, previous_hash)"
| "verify_entries am index previous_hash event_ids checkpoints (entry # rest) =
     bind_result (verify_entry am index previous_hash event_ids entry) (\<lambda>_.
     verify_entries am (index + 1) (ev_event_hash (le_event entry)) (ev_event_id (le_event entry) # event_ids)
       (if le_checkpoint entry = None then checkpoints else checkpoints + 1) rest)"

definition verify_ledger :: "audit_manager \<Rightarrow> audit_ledger \<Rightarrow> audit_error + audit_verification" where
  "verify_ledger am l =
     bind_result (verify_entries am 0 AUDIT_GENESIS_HASH [] 0 (al_entries l)) (\<lambda>(checkpoints, head).
     Inr \<lparr>vf_events = length (al_entries l), vf_checkpoints = checkpoints, vf_head = head\<rparr>)"

section \<open>The shape of a verified chain\<close>

lemma verify_entries_append:
  "verify_entries am n prev ids c (xs @ ys) =
     bind_result (verify_entries am n prev ids c xs) (\<lambda>(c', prev').
       verify_entries am (n + length xs) prev' (rev (map (ev_event_id \<circ> le_event) xs) @ ids) c' ys)"
  by (induction xs arbitrary: n prev ids c) (auto simp: bind_result_assoc)

text \<open>A ledger that ends in an entry verifies when the rest does and the entry follows its head.\<close>

definition chain_ids :: "ledger_entry list \<Rightarrow> string list" where
  "chain_ids entries = map (ev_event_id \<circ> le_event) entries"

abbreviation verified :: "audit_manager \<Rightarrow> ledger_entry list \<Rightarrow> string \<Rightarrow> bool" where
  "verified am entries head \<equiv> \<exists>c. verify_entries am 0 AUDIT_GENESIS_HASH [] 0 entries = Inr (c, head)"

lemma verified_snoc:
  "verified am (entries @ [x]) head \<longleftrightarrow>
     (\<exists>prev. verified am entries prev \<and> verify_entry am (length entries) prev (rev (chain_ids entries)) x = Inr ()
        \<and> head = ev_event_hash (le_event x))"
  by (auto simp: verify_entries_append chain_ids_def result_simps)

lemma verify_ledger_Inr: "verify_ledger am l = Inr v \<Longrightarrow> verified am (al_entries l) (vf_head v)"
  by (auto simp: verify_ledger_def result_simps)

lemma verify_entry_Inr:
  assumes "verify_entry am n prev ids x = Inr u"
  shows "ev_sequence (le_event x) = Suc n" and "ev_previous_hash (le_event x) = prev" and "ev_node_id (le_event x) = am_node_id am"
    and "event_sha256 am (le_event x) = Inr (ev_event_hash (le_event x))" and "ev_event_id (le_event x) \<notin> set ids"
  using assms by (auto simp: verify_entry_def Let_def result_simps)

section \<open>What a hash determines\<close>

text \<open>The JSON form of a map determines the map.\<close>

definition json_faithful :: "audit_manager \<Rightarrow> bool" where
  "json_faithful am \<longleftrightarrow> (\<forall>a b bs. am_json am a = Some bs \<longrightarrow> am_json am b = Some bs \<longrightarrow> a = b)"

text \<open>The bytes that are hashed for an event.\<close>

definition event_input :: "audit_manager \<Rightarrow> audit_event \<Rightarrow> audit_error + byte list" where
  "event_input am e =
     bind_result (decode_sha256 (ev_previous_hash e)) (\<lambda>previous.
     bind_result (canonical_event_bytes am e) (\<lambda>canonical. Inr (previous @ canonical)))"

definition hash_clash :: "audit_manager \<Rightarrow> audit_event \<Rightarrow> audit_event \<Rightarrow> bool" where
  "hash_clash am a b \<longleftrightarrow> (\<exists>x y. event_input am a = Inr x \<and> event_input am b = Inr y \<and> x \<noteq> y \<and> am_sha256 am x = am_sha256 am y)"

lemma hexadecimal_injective: "hexadecimal a = hexadecimal b \<longleftrightarrow> a = b"
  by (metis decode_pairs_hexadecimal option.inject)

lemma event_sha256_Inr:
  assumes "event_sha256 am e = Inr h"
  shows "\<exists>x. event_input am e = Inr x \<and> h = hexadecimal (am_sha256 am x)"
  using assms by (auto simp: event_sha256_def event_input_def sha256_text_def result_simps)

lemma label_inject [simp]:
  "actor_type_str a = actor_type_str b \<longleftrightarrow> a = b" "origin_interface_str i = origin_interface_str j \<longleftrightarrow> i = j"
  "outcome_str x = outcome_str y \<longleftrightarrow> x = y" "digest_value v = digest_value w \<longleftrightarrow> v = w"
proof -
  show "actor_type_str a = actor_type_str b \<longleftrightarrow> a = b" by (cases a; cases b; simp)
  show "origin_interface_str i = origin_interface_str j \<longleftrightarrow> i = j" by (cases i; cases j; simp)
  show "outcome_str x = outcome_str y \<longleftrightarrow> x = y" by (cases x; cases y; simp)
  show "digest_value v = digest_value w \<longleftrightarrow> v = w" by (cases v; cases w; simp add: digest_value_def)
qed

lemma decode_sha256_length: "decode_sha256 v = Inr bs \<Longrightarrow> length bs = 32"
proof -
  assume "decode_sha256 v = Inr bs"
  then have "decode_pairs v = Some bs" "length v = 64"
    by (auto simp: decode_sha256_def decode_hexadecimal_def result_simps split: if_splits)
  then show ?thesis using length_decode_pairs [of v bs] by simp
qed

lemma event_fields_inject:
  assumes "event_fields a = event_fields b"
  shows "a\<lparr>ev_sequence := n, ev_event_hash := h\<rparr> = b\<lparr>ev_sequence := n, ev_event_hash := h\<rparr>"
proof -
  have "ev_actor a = ev_actor b" "ev_origin a = ev_origin b"
    using assms by (simp_all add: event_fields_def)
  with assms show ?thesis by (cases a; cases b) (simp add: event_fields_def)
qed

text \<open>Equal inputs come from events that differ at most in their position and stored hash.\<close>

lemma event_input_inject:
  assumes "json_faithful am" and "event_input am a = Inr x" and "event_input am b = Inr x"
  shows "a\<lparr>ev_sequence := n, ev_event_hash := h\<rparr> = b\<lparr>ev_sequence := n, ev_event_hash := h\<rparr>"
proof -
  from assms(2) obtain p q where a: "decode_sha256 (ev_previous_hash a) = Inr p" "canonical_event_bytes am a = Inr q" "x = p @ q"
    by (auto simp: event_input_def result_simps)
  from assms(3) obtain p' q' where b: "decode_sha256 (ev_previous_hash b) = Inr p'" "canonical_event_bytes am b = Inr q'" "x = p' @ q'"
    by (auto simp: event_input_def result_simps)
  have "q = q'" using a b decode_sha256_length [OF a(1)] decode_sha256_length [OF b(1)] by simp
  then obtain bs where "am_json am (event_fields a) = Some bs" "am_json am (event_fields b) = Some bs"
    using a(2) b(2) by (auto simp: canonical_event_bytes_def canonical_map_bytes_def result_simps)
  with assms(1) have "event_fields a = event_fields b" unfolding json_faithful_def by blast
  then show ?thesis by (rule event_fields_inject)
qed

lemma event_update_id: "ev_sequence e = n \<Longrightarrow> ev_event_hash e = h \<Longrightarrow> e\<lparr>ev_sequence := n, ev_event_hash := h\<rparr> = e"
  by (cases e) simp

text \<open>Two verified entries with one hash are the same event, unless two different inputs have one hash.\<close>

lemma verified_entry_inject:
  assumes "json_faithful am" and "verify_entry am n p ids x = Inr ()" and "verify_entry am n' p' ids' y = Inr ()"
    and "ev_event_hash (le_event x) = ev_event_hash (le_event y)" and "\<not> hash_clash am (le_event x) (le_event y)"
  shows "p = p'" and "n = n' \<Longrightarrow> le_event x = le_event y"
proof -
  note vx = verify_entry_Inr [OF assms(2)] and vy = verify_entry_Inr [OF assms(3)]
  obtain i j where i: "event_input am (le_event x) = Inr i" "ev_event_hash (le_event x) = hexadecimal (am_sha256 am i)"
    and j: "event_input am (le_event y) = Inr j" "ev_event_hash (le_event y) = hexadecimal (am_sha256 am j)"
    using event_sha256_Inr [OF vx(4)] event_sha256_Inr [OF vy(4)] by auto
  then have "i = j" using assms(4,5) by (auto simp: hash_clash_def hexadecimal_injective)
  note same = event_input_inject [OF assms(1) i(1) j(1) [folded \<open>i = j\<close>]]
  have "ev_previous_hash (le_event x) = ev_previous_hash (le_event y)"
    using arg_cong [OF same [where n = 0 and h = "[]"], of ev_previous_hash] by simp
  with vx(2) vy(2) show "p = p'" by simp
  show "le_event x = le_event y" if "n = n'"
  proof -
    have "le_event x = (le_event x)\<lparr>ev_sequence := Suc n, ev_event_hash := ev_event_hash (le_event x)\<rparr>"
      by (rule event_update_id [OF vx(1) refl, symmetric])
    also have "\<dots> = (le_event y)\<lparr>ev_sequence := Suc n, ev_event_hash := ev_event_hash (le_event x)\<rparr>" by (rule same)
    also have "\<dots> = le_event y" by (rule event_update_id) (use vy(1) that assms(4) in auto)
    finally show ?thesis .
  qed
qed

lemma verified_unique:
  assumes "json_faithful am" and "verified am xs h" and "verified am ys h"
    and "\<And>x y. x \<in> set xs \<Longrightarrow> y \<in> set ys \<Longrightarrow> \<not> hash_clash am (le_event x) (le_event y)"
    and "\<And>x. x \<in> set xs \<union> set ys \<Longrightarrow> ev_event_hash (le_event x) \<noteq> AUDIT_GENESIS_HASH"
  shows "map le_event xs = map le_event ys"
  using assms(2-)
proof (induction xs arbitrary: ys h rule: rev_induct)
  case Nil
  then have h: "h = AUDIT_GENESIS_HASH" by simp
  show ?case
  proof (cases ys rule: rev_exhaust)
    case (snoc zs y)
    with Nil.prems(2) h have "ev_event_hash (le_event y) = AUDIT_GENESIS_HASH" by (auto simp: verified_snoc)
    with Nil.prems(4) [of y] snoc show ?thesis by simp
  qed simp
next
  case (snoc x xs)
  then obtain p where x: "verified am xs p" "verify_entry am (length xs) p (rev (chain_ids xs)) x = Inr ()" "h = ev_event_hash (le_event x)"
    by (auto simp: verified_snoc)
  show ?case
  proof (cases ys rule: rev_exhaust)
    case Nil
    with snoc.prems(2) snoc.prems(4) [of x] x(3) show ?thesis by simp
  next
    case (snoc zs y)
    with \<open>verified am ys h\<close> obtain q where y: "verified am zs q" "verify_entry am (length zs) q (rev (chain_ids zs)) y = Inr ()"
      "h = ev_event_hash (le_event y)" by (auto simp: verified_snoc)
    have "\<not> hash_clash am (le_event x) (le_event y)" using snoc.prems(3) snoc by simp
    note same = verified_entry_inject [OF assms(1) x(2) y(2) _ this]
    have "p = q" using same(1) x(3) y(3) by simp
    with x(1) y(1) have eq: "map le_event xs = map le_event zs" using snoc.prems(3,4) snoc by (intro snoc.IH) auto
    then have "length xs = length zs" by (rule map_eq_imp_length_eq)
    with eq same(2) x(3) y(3) snoc show ?thesis by simp
  qed
qed

section \<open>Property\<close>

text \<open>
  C16: The chain is tamper-evident. Two ledgers that verify and report the same head have exactly the same
  events, so that whoever keeps the head of a ledger, as in a signed checkpoint, notices every later
  change, removal, insertion or reordering. The only exceptions are explicit: an event of one ledger and
  an event of the other whose different hash inputs have the same SHA-256, or an event whose hash is the
  all-zero hash that stands before the first event. The hypothesis on the JSON form is that it determines
  its map.
\<close>

theorem audit_chain_tamper_evident:
  assumes "json_faithful am" and "verify_ledger am l1 = Inr v1" and "verify_ledger am l2 = Inr v2" and "vf_head v1 = vf_head v2"
  shows "map le_event (al_entries l1) = map le_event (al_entries l2)
    \<or> (\<exists>x\<in>set (al_entries l1). \<exists>y\<in>set (al_entries l2). hash_clash am (le_event x) (le_event y))
    \<or> (\<exists>x\<in>set (al_entries l1) \<union> set (al_entries l2). ev_event_hash (le_event x) = AUDIT_GENESIS_HASH)"
  using verified_unique [OF assms(1) verify_ledger_Inr [OF assms(2)], of "al_entries l2"] verify_ledger_Inr [OF assms(3)] assms(4)
  by metis

text \<open>
  An example: two ledgers that differ only in the signature of the checkpoint. The provider encodes the
  fields of the one event and has one digest.
\<close>

definition sample_event :: audit_event where
  "sample_event =
     \<lparr>ev_sequence = 1, ev_event_id = ''e1'', ev_correlation_id = ''c1'', ev_timestamp = 5, ev_node_id = ''n'',
      ev_actor = \<lparr>ac_kind = SystemActor, ac_identifier = ''node''\<rparr>,
      ev_origin = \<lparr>ao_node_id = ''n'', ao_interface = SystemOrigin\<rparr>, ev_action = ''start'', ev_target = ''node'',
      ev_before = None, ev_after = None, ev_outcome = OutcomeSuccess, ev_reason = None,
      ev_previous_hash = AUDIT_GENESIS_HASH, ev_event_hash = hexadecimal (replicate 32 17)\<rparr>"

definition sample_manager :: audit_manager where
  "sample_manager =
     \<lparr>am_node_id = ''n'', am_interval = 1, am_sha256 = (\<lambda>_. replicate 32 17),
      am_json = (\<lambda>m. if m = event_fields sample_event then Some [1] else None),
      am_sign = (\<lambda>_. Inr [1]), am_verify = (\<lambda>_ _. Inr True)\<rparr>"

definition sample_ledger :: "byte \<Rightarrow> audit_ledger" where
  "sample_ledger signature =
     \<lparr>al_entries = [\<lparr>le_event = sample_event, le_checkpoint = Some
        \<lparr>cp_sequence = 1, cp_event_hash = ev_event_hash sample_event, cp_signature = [signature], cp_created_at = 5\<rparr>\<rparr>],
      al_revision = 1\<rparr>"

lemma sample_faithful: "json_faithful sample_manager"
  by (simp add: json_faithful_def sample_manager_def)

lemma sample_verified:
  "verify_ledger sample_manager (sample_ledger b) = Inr \<lparr>vf_events = 1, vf_checkpoints = 1, vf_head = ev_event_hash sample_event\<rparr>"
proof -
  have "event_sha256 sample_manager sample_event = Inr (ev_event_hash sample_event)"
  proof -
    have "decode_sha256 (ev_previous_hash sample_event) = Inr (replicate 32 0)" by code_simp
    moreover have "is_sha256_digest (hexadecimal (replicate 32 17))" by code_simp
    ultimately show ?thesis
      by (simp add: event_sha256_def canonical_event_bytes_def canonical_map_bytes_def sha256_text_def sample_manager_def
          sample_event_def result_simps)
  qed
  then show ?thesis
    by (simp add: verify_ledger_def sample_ledger_def verify_entry_def verify_checkpoint_def requires_checkpoint_def
        checked_add64_def u64_max_def sample_event_def sample_manager_def result_simps Let_def)
qed

theorem audit_chain_tamper_evident_witness:
  "json_faithful sample_manager \<and> sample_ledger 1 \<noteq> sample_ledger 2
    \<and> map le_event (al_entries (sample_ledger 1)) = map le_event (al_entries (sample_ledger 2))"
proof -
  have "\<not> hash_clash sample_manager sample_event sample_event" by (auto simp: hash_clash_def)
  moreover have "ev_event_hash sample_event \<noteq> AUDIT_GENESIS_HASH" by code_simp
  ultimately show ?thesis
    using audit_chain_tamper_evident [OF sample_faithful sample_verified [of 1] sample_verified [of 2]]
    by (simp add: sample_faithful sample_ledger_def)
qed

end
