(* ===== verification/AuditStore.thy ===== *)
theory AuditStore
  imports AuditLedger Database
begin

text \<open>
  The audit ledger in the database (\<open>core/node/src/li_audit_database.rs\<close>) and the operations of the
  audit manager on it (\<open>core/audit/src/li_audit_manager.rs\<close>). An operation is a sequence of database
  accesses. Before each access other threads and processes may change the database, which
  \<open>aw_others\<close> says; the answers of the clock, of the random source and of the engine are parameters too.
\<close>

section \<open>Operations as sequences of accesses\<close>

type_synonym ('e, 'a) run = "nat \<times> database \<Rightarrow> ('e + 'a) \<times> (nat \<times> database)"

record audit_world =
  aw_io :: "nat \<Rightarrow> db_io"
  aw_others :: "nat \<Rightarrow> database \<Rightarrow> database"
  aw_event_id :: "audit_error + string"
  aw_now :: "nat \<Rightarrow> audit_error + nat"

definition run_bind :: "('e, 'a) run \<Rightarrow> ('a \<Rightarrow> ('e, 'b) run) \<Rightarrow> ('e, 'b) run" where
  "run_bind m f s = (case m s of (Inl e, s') \<Rightarrow> (Inl e, s') | (Inr x, s') \<Rightarrow> f x s')"

definition run_handle :: "('e, 'a) run \<Rightarrow> ('a \<Rightarrow> ('f, 'b) run) \<Rightarrow> ('e \<Rightarrow> ('f, 'b) run) \<Rightarrow> ('f, 'b) run" where
  "run_handle m f g s = (case m s of (Inl e, s') \<Rightarrow> g e s' | (Inr x, s') \<Rightarrow> f x s')"

definition run_lift :: "'e + 'a \<Rightarrow> ('e, 'a) run" where
  "run_lift r s = (r, s)"

definition run_err :: "('e \<Rightarrow> 'f) \<Rightarrow> ('e, 'a) run \<Rightarrow> ('f, 'a) run" where
  "run_err f m s = (case m s of (r, s') \<Rightarrow> (map_err f r, s'))"

definition access :: "audit_world \<Rightarrow> (db_io \<Rightarrow> database \<Rightarrow> ('e + 'a) \<times> database) \<Rightarrow> ('e, 'a) run" where
  "access w f s = (case f (aw_io w (fst s)) (aw_others w (fst s) (snd s)) of (r, db') \<Rightarrow> (r, (Suc (fst s), db')))"

definition access_read :: "audit_world \<Rightarrow> (db_io \<Rightarrow> database \<Rightarrow> 'e + 'a) \<Rightarrow> ('e, 'a) run" where
  "access_read w f = access w (\<lambda>io db. (f io db, db))"

section \<open>Persistent records\<close>

record state_record =
  sr_record_id :: string
  sr_revision :: nat
  sr_head :: string

record event_record =
  er_event_id :: string
  er_sequence :: nat
  er_correlation_id :: string
  er_timestamp :: nat
  er_node_id :: string
  er_actor_type :: string
  er_actor_id :: string
  er_origin_node_id :: string
  er_origin_interface :: string
  er_action :: string
  er_target :: string
  er_before :: "string option"
  er_after :: "string option"
  er_outcome :: string
  er_reason :: "string option"
  er_previous_hash :: string
  er_event_hash :: string

record checkpoint_record =
  cr_record_id :: string
  cr_sequence :: nat
  cr_event_hash :: string
  cr_signature :: "byte list"
  cr_created_at :: nat

record replay_record =
  rr_replay_id :: string
  rr_request_sha256 :: string
  rr_event_id :: string
  rr_sequence :: nat

record audit_env =
  av_manager :: audit_manager
  av_codec :: codec
  av_state_to_json :: "state_record \<Rightarrow> byte list option"
  av_state_from_json :: "byte list \<Rightarrow> state_record option"
  av_event_to_json :: "event_record \<Rightarrow> byte list option"
  av_event_from_json :: "byte list \<Rightarrow> event_record option"
  av_checkpoint_to_json :: "checkpoint_record \<Rightarrow> byte list option"
  av_checkpoint_from_json :: "byte list \<Rightarrow> checkpoint_record option"
  av_replay_to_json :: "replay_record \<Rightarrow> byte list option"
  av_replay_from_json :: "byte list \<Rightarrow> replay_record option"

definition state_type :: "audit_env \<Rightarrow> state_record record_type" where
  "state_type env = \<lparr>rt_collection = AuditState, rt_version = 1, rt_identifier = sr_record_id,
     rt_to_json = av_state_to_json env, rt_from_json = av_state_from_json env\<rparr>"

definition event_type :: "audit_env \<Rightarrow> event_record record_type" where
  "event_type env = \<lparr>rt_collection = AuditEvents, rt_version = 1, rt_identifier = er_event_id,
     rt_to_json = av_event_to_json env, rt_from_json = av_event_from_json env\<rparr>"

definition checkpoint_type :: "audit_env \<Rightarrow> checkpoint_record record_type" where
  "checkpoint_type env = \<lparr>rt_collection = AuditCheckpoints, rt_version = 1, rt_identifier = cr_record_id,
     rt_to_json = av_checkpoint_to_json env, rt_from_json = av_checkpoint_from_json env\<rparr>"

definition replay_type :: "audit_env \<Rightarrow> replay_record record_type" where
  "replay_type env = \<lparr>rt_collection = AuditReplays, rt_version = 1, rt_identifier = rr_replay_id,
     rt_to_json = av_replay_to_json env, rt_from_json = av_replay_from_json env\<rparr>"

definition sequence_record_id :: "nat \<Rightarrow> string" where
  "sequence_record_id n = replicate (20 - length (decimal_text n)) CHR ''0'' @ decimal_text n"

definition to_event_record :: "audit_event \<Rightarrow> event_record" where
  "to_event_record e =
     \<lparr>er_event_id = ev_event_id e, er_sequence = ev_sequence e, er_correlation_id = ev_correlation_id e,
      er_timestamp = ev_timestamp e, er_node_id = ev_node_id e, er_actor_type = actor_type_str (ac_kind (ev_actor e)),
      er_actor_id = ac_identifier (ev_actor e), er_origin_node_id = ao_node_id (ev_origin e),
      er_origin_interface = origin_interface_str (ao_interface (ev_origin e)), er_action = ev_action e,
      er_target = ev_target e, er_before = ev_before e, er_after = ev_after e, er_outcome = outcome_str (ev_outcome e),
      er_reason = ev_reason e, er_previous_hash = ev_previous_hash e, er_event_hash = ev_event_hash e\<rparr>"

definition parse_corrupt :: "('a \<Rightarrow> bool) \<Rightarrow> 'a \<Rightarrow> audit_store_error + 'a" where
  "parse_corrupt valid v = (if valid v then Inr v else Inl AuditCorrupt)"

definition parse_corrupt_option :: "('a \<Rightarrow> bool) \<Rightarrow> 'a option \<Rightarrow> audit_store_error + 'a option" where
  "parse_corrupt_option valid v =
     (case v of None \<Rightarrow> Inr None | Some x \<Rightarrow> bind_result (parse_corrupt valid x) (\<lambda>y. Inr (Some y)))"

definition actor_type :: "string \<Rightarrow> audit_store_error + audit_actor_type" where
  "actor_type v =
     (if v = ''local-user'' then Inr LocalUser else if v = ''controller'' then Inr ControllerActor
      else if v = ''node-candidate'' then Inr NodeCandidate else if v = ''node'' then Inr NodeActor
      else if v = ''system'' then Inr SystemActor else Inl AuditCorrupt)"

definition origin_interface :: "string \<Rightarrow> audit_store_error + audit_origin_interface" where
  "origin_interface v =
     (if v = ''cli'' then Inr CliOrigin else if v = ''controller'' then Inr ControllerOrigin
      else if v = ''pairing'' then Inr PairingOrigin else if v = ''gateway'' then Inr GatewayOrigin
      else if v = ''node'' then Inr NodeOrigin else if v = ''system'' then Inr SystemOrigin else Inl AuditCorrupt)"

definition outcome :: "string \<Rightarrow> audit_store_error + audit_outcome" where
  "outcome v =
     (if v = ''success'' then Inr OutcomeSuccess else if v = ''denied'' then Inr OutcomeDenied
      else if v = ''failed'' then Inr OutcomeFailed else Inl AuditCorrupt)"

definition event_from_record :: "event_record \<Rightarrow> audit_store_error + audit_event" where
  "event_from_record r =
     bind_result (parse_corrupt is_audit_event_id (er_event_id r)) (\<lambda>event_id.
     bind_result (parse_corrupt is_audit_event_id (er_correlation_id r)) (\<lambda>correlation_id.
     bind_result (parse_corrupt is_audit_timestamp (er_timestamp r)) (\<lambda>timestamp.
     bind_result (parse_corrupt (\<lambda>v. is_lower_hex v 32) (er_node_id r)) (\<lambda>node_id.
     bind_result (actor_type (er_actor_type r)) (\<lambda>kind.
     bind_result (parse_corrupt is_audit_actor_id (er_actor_id r)) (\<lambda>actor_id.
     bind_result (parse_corrupt (\<lambda>v. is_lower_hex v 32) (er_origin_node_id r)) (\<lambda>origin_node_id.
     bind_result (origin_interface (er_origin_interface r)) (\<lambda>interface.
     bind_result (parse_corrupt is_technical_name (er_action r)) (\<lambda>action.
     bind_result (parse_corrupt is_audit_target (er_target r)) (\<lambda>target.
     bind_result (parse_corrupt_option (\<lambda>v. is_sha256_digest v) (er_before r)) (\<lambda>before.
     bind_result (parse_corrupt_option (\<lambda>v. is_sha256_digest v) (er_after r)) (\<lambda>after.
     bind_result (outcome (er_outcome r)) (\<lambda>result.
     bind_result (parse_corrupt_option is_technical_name (er_reason r)) (\<lambda>reason.
     bind_result (parse_corrupt (\<lambda>v. is_sha256_digest v) (er_previous_hash r)) (\<lambda>previous_hash.
     bind_result (parse_corrupt (\<lambda>v. is_sha256_digest v) (er_event_hash r)) (\<lambda>event_hash.
     map_err (\<lambda>_. AuditCorrupt) (event_from_persisted
       \<lparr>ev_sequence = er_sequence r, ev_event_id = event_id, ev_correlation_id = correlation_id, ev_timestamp = timestamp,
        ev_node_id = node_id, ev_actor = \<lparr>ac_kind = kind, ac_identifier = actor_id\<rparr>,
        ev_origin = \<lparr>ao_node_id = origin_node_id, ao_interface = interface\<rparr>, ev_action = action, ev_target = target,
        ev_before = before, ev_after = after, ev_outcome = result, ev_reason = reason,
        ev_previous_hash = previous_hash, ev_event_hash = event_hash\<rparr>)))))))))))))))))"

definition to_checkpoint_record :: "audit_checkpoint \<Rightarrow> checkpoint_record" where
  "to_checkpoint_record c =
     \<lparr>cr_record_id = sequence_record_id (cp_sequence c), cr_sequence = cp_sequence c, cr_event_hash = cp_event_hash c,
      cr_signature = cp_signature c, cr_created_at = cp_created_at c\<rparr>"

definition checkpoint_from_record :: "checkpoint_record \<Rightarrow> audit_store_error + audit_checkpoint" where
  "checkpoint_from_record r =
     bind_result (parse_corrupt (\<lambda>v. is_sha256_digest v) (cr_event_hash r)) (\<lambda>event_hash.
     bind_result (parse_corrupt is_audit_timestamp (cr_created_at r)) (\<lambda>created_at.
     map_err (\<lambda>_. AuditCorrupt) (checkpoint_from_persisted
       \<lparr>cp_sequence = cr_sequence r, cp_event_hash = event_hash, cp_signature = cr_signature r, cp_created_at = created_at\<rparr>)))"

definition database_store_error :: "db_error \<Rightarrow> audit_store_error" where
  "database_store_error e =
     (case e of
        Conflict _ _ _ _ \<Rightarrow> AuditConflict | IdempotencyConflict _ \<Rightarrow> AuditReplayConflict
      | Corrupt _ \<Rightarrow> AuditCorrupt | InvalidInput _ _ \<Rightarrow> AuditCorrupt
      | NotFound _ _ \<Rightarrow> AuditUnavailable | Unavailable _ \<Rightarrow> AuditUnavailable | Closed \<Rightarrow> AuditUnavailable)"

section \<open>The ledger\<close>

fun collect_checkpoints ::
  "(nat \<times> audit_checkpoint) list \<Rightarrow> checkpoint_record stored_record list \<Rightarrow> audit_store_error + (nat \<times> audit_checkpoint) list" where
  "collect_checkpoints t [] = Inr t"
| "collect_checkpoints t (c # cs) =
     (let v = st_value c in
      if st_revision c \<noteq> 1 \<or> cr_record_id v \<noteq> sequence_record_id (cr_sequence v) then Inl AuditCorrupt
      else bind_result (checkpoint_from_record v) (\<lambda>checkpoint.
           if map_of t (cr_sequence v) \<noteq> None then Inl AuditCorrupt
           else collect_checkpoints (AList.update (cr_sequence v) checkpoint t) cs))"

definition stored_event :: "event_record stored_record \<Rightarrow> audit_store_error + audit_event" where
  "stored_event s = (if st_revision s \<noteq> 1 then Inl AuditCorrupt else event_from_record (st_value s))"

fun attach_checkpoints ::
  "nat \<Rightarrow> (nat \<times> audit_checkpoint) list \<Rightarrow> audit_event list \<Rightarrow> audit_store_error + ledger_entry list \<times> (nat \<times> audit_checkpoint) list" where
  "attach_checkpoints index t [] = Inr ([], t)"
| "attach_checkpoints index t (e # es) =
     bind_result (of_option AuditCorrupt (checked_add64 index 1)) (\<lambda>expected_sequence.
     if ev_sequence e \<noteq> expected_sequence then Inl AuditCorrupt
     else bind_result (ledger_entry_new e (map_of t (ev_sequence e))) (\<lambda>entry.
          bind_result (attach_checkpoints (index + 1) (AList.delete (ev_sequence e) t) es) (\<lambda>(entries, rest).
          Inr (entry # entries, rest))))"

fun check_replays ::
  "(string \<times> audit_event) list \<Rightarrow> string list \<Rightarrow> string list \<Rightarrow> replay_record stored_record list \<Rightarrow> audit_store_error + unit" where
  "check_replays events replay_ids replayed_events [] = Inr ()"
| "check_replays events replay_ids replayed_events (s # ss) =
     (let r = st_value s in
      bind_result (of_option AuditCorrupt (map_of events (rr_event_id r))) (\<lambda>e.
      if st_revision s \<noteq> 1 \<or> rr_replay_id r \<in> set replay_ids \<or> rr_event_id r \<in> set replayed_events
         \<or> \<not> is_sha256_digest (rr_request_sha256 r) \<or> ev_sequence e \<noteq> rr_sequence r
      then Inl AuditCorrupt
      else check_replays events (rr_replay_id r # replay_ids) (rr_event_id r # replayed_events) ss))"

text \<open>Later entries of the hash map of events replace earlier ones with the same identity.\<close>

definition validate_replays :: "replay_record stored_record list \<Rightarrow> ledger_entry list \<Rightarrow> audit_store_error + unit" where
  "validate_replays replays entries =
     (if length replays \<noteq> length entries then Inl AuditCorrupt
      else check_replays (rev (map (\<lambda>x. (ev_event_id (le_event x), le_event x)) entries)) [] [] replays)"

definition assemble_ledger ::
  "state_record stored_record list \<Rightarrow> event_record stored_record list \<Rightarrow> checkpoint_record stored_record list
   \<Rightarrow> replay_record stored_record list \<Rightarrow> audit_store_error + audit_ledger" where
  "assemble_ledger states events checkpoints replays =
     (if states = [] \<and> events = [] \<and> checkpoints = [] \<and> replays = [] then ledger_from_persisted [] 0
      else case states of
        [state] \<Rightarrow>
          (if sr_record_id (st_value state) \<noteq> ''chain'' \<or> sr_revision (st_value state) \<noteq> st_revision state
              \<or> sr_revision (st_value state) \<noteq> length events
           then Inl AuditCorrupt
           else bind_result (collect_checkpoints [] checkpoints) (\<lambda>by_sequence.
                bind_result (try_map stored_event events) (\<lambda>ordered.
                bind_result (attach_checkpoints 0 by_sequence (sort_key ev_sequence ordered)) (\<lambda>(entries, rest).
                if rest \<noteq> [] \<or> entries = [] \<or> ev_event_hash (le_event (last entries)) \<noteq> sr_head (st_value state)
                then Inl AuditCorrupt
                else bind_result (validate_replays replays entries) (\<lambda>_.
                     ledger_from_persisted entries (sr_revision (st_value state)))))))
      | _ \<Rightarrow> Inl AuditCorrupt)"

text \<open>The four collections are read one after the other.\<close>

definition database_records :: "audit_world \<Rightarrow> 'a record_type \<Rightarrow> (audit_store_error, 'a stored_record list) run" where
  "database_records w rt = access_read w (\<lambda>io db. map_err database_store_error (read_all_records rt io db))"

definition store_ledger :: "audit_env \<Rightarrow> audit_world \<Rightarrow> (audit_store_error, audit_ledger) run" where
  "store_ledger env w =
     run_bind (database_records w (state_type env)) (\<lambda>states.
     run_bind (database_records w (event_type env)) (\<lambda>events.
     run_bind (database_records w (checkpoint_type env)) (\<lambda>checkpoints.
     run_bind (database_records w (replay_type env)) (\<lambda>replays.
     run_lift (assemble_ledger states events checkpoints replays)))))"

definition store_entry :: "audit_env \<Rightarrow> audit_world \<Rightarrow> string \<Rightarrow> (audit_store_error, (ledger_entry \<times> nat) option) run" where
  "store_entry env w event_id =
     run_bind (store_ledger env w) (\<lambda>l. run_lift (Inr
       (map_option (\<lambda>x. (x, al_revision l)) (find (\<lambda>x. ev_event_id (le_event x) = event_id) (al_entries l)))))"

record replay_receipt =
  rp_request_sha256 :: string
  rp_entry :: ledger_entry
  rp_revision :: nat

text \<open>A missing record is the answer \<open>None\<close>.\<close>

definition read_replay :: "audit_env \<Rightarrow> string \<Rightarrow> db_io \<Rightarrow> database \<Rightarrow> audit_store_error + replay_record stored_record option" where
  "read_replay env replay_id io db =
     (case read_one_record (replay_type env) io replay_id db of
        Inr s \<Rightarrow> Inr (Some s)
      | Inl (NotFound _ _) \<Rightarrow> Inr None
      | Inl e \<Rightarrow> Inl (database_store_error e))"

text \<open>The receipt of a record that was found, with the entry of its event.\<close>

definition replay_from_record ::
  "audit_env \<Rightarrow> audit_world \<Rightarrow> string \<Rightarrow> replay_record stored_record \<Rightarrow> (audit_store_error, replay_receipt) run" where
  "replay_from_record env w replay_id s =
     run_bind (run_lift (ensure (st_revision s = 1 \<and> rr_replay_id (st_value s) = replay_id) AuditCorrupt)) (\<lambda>_.
     run_bind (run_lift (parse_corrupt (\<lambda>v. is_sha256_digest v) (rr_request_sha256 (st_value s)))) (\<lambda>digest.
     run_bind (run_lift (parse_corrupt is_audit_event_id (rr_event_id (st_value s)))) (\<lambda>event_id.
     run_bind (store_entry env w event_id) (\<lambda>found_entry.
     run_lift (bind_result (of_option AuditCorrupt found_entry) (\<lambda>(entry, revision).
       if ev_sequence (le_event entry) \<noteq> rr_sequence (st_value s) then Inl AuditCorrupt
       else Inr \<lparr>rp_request_sha256 = digest, rp_entry = entry, rp_revision = revision\<rparr>))))))"

definition store_replay :: "audit_env \<Rightarrow> audit_world \<Rightarrow> string \<Rightarrow> (audit_store_error, replay_receipt option) run" where
  "store_replay env w replay_id =
     run_bind (access_read w (read_replay env replay_id)) (\<lambda>found.
     case found of
       None \<Rightarrow> run_lift (Inr None)
     | Some s \<Rightarrow> run_bind (replay_from_record env w replay_id s) (\<lambda>receipt. run_lift (Inr (Some receipt))))"

definition store_event :: "audit_env \<Rightarrow> audit_world \<Rightarrow> string \<Rightarrow> (audit_store_error, audit_event option) run" where
  "store_event env w event_id =
     run_bind (store_entry env w event_id) (\<lambda>found. run_lift (Inr (map_option (\<lambda>(x, _). le_event x) found)))"

section \<open>Appending to the store\<close>

datatype append_disposition = AppendApplied | AppendReplayed

record append_receipt =
  rc_request_sha256 :: string
  rc_entry :: ledger_entry
  rc_disposition :: append_disposition
  rc_revision :: nat

definition database_replay_id :: "string \<Rightarrow> audit_store_error + string" where
  "database_replay_id replay_id =
     (let value = ''audit:'' @ replay_id in if length value > 255 then Inl AuditCorrupt else Inr value)"

definition append_transaction ::
  "audit_env \<Rightarrow> nat \<Rightarrow> string \<Rightarrow> string \<Rightarrow> ledger_entry \<Rightarrow> audit_store_error + string \<times> prepared_command list" where
  "append_transaction env expected_revision replay_id digest entry =
     (let e = le_event entry;
          state_revision = (if expected_revision = 0 then Missing else Exact expected_revision) in
      bind_result (database_replay_id replay_id) (\<lambda>transaction_id.
      map_err database_store_error (
        bind_result (transaction_new transaction_id) (\<lambda>tx.
        bind_result (transaction_save (state_type env)
          \<lparr>sr_record_id = ''chain'', sr_revision = ev_sequence e, sr_head = ev_event_hash e\<rparr> state_revision tx) (\<lambda>tx.
        bind_result (transaction_save (event_type env) (to_event_record e) Missing tx) (\<lambda>tx.
        bind_result (case le_checkpoint entry of
            None \<Rightarrow> Inr tx
          | Some c \<Rightarrow> transaction_save (checkpoint_type env) (to_checkpoint_record c) Missing tx) (\<lambda>tx.
        transaction_save (replay_type env)
          \<lparr>rr_replay_id = replay_id, rr_request_sha256 = digest, rr_event_id = ev_event_id e,
           rr_sequence = ev_sequence e\<rparr> Missing tx)))))))"

definition replayed_receipt :: "string \<Rightarrow> replay_receipt \<Rightarrow> audit_store_error + append_receipt" where
  "replayed_receipt digest replay =
     (if rp_request_sha256 replay \<noteq> digest then Inl AuditReplayConflict
      else Inr \<lparr>rc_request_sha256 = digest, rc_entry = rp_entry replay, rc_disposition = AppendReplayed,
                rc_revision = rp_revision replay\<rparr>)"

definition replay_after_collision ::
  "audit_env \<Rightarrow> audit_world \<Rightarrow> string \<Rightarrow> string \<Rightarrow> (audit_store_error, append_receipt) run" where
  "replay_after_collision env w replay_id digest =
     run_bind (store_replay env w replay_id) (\<lambda>found.
     run_lift (bind_result (of_option AuditReplayConflict found) (replayed_receipt digest)))"

definition disposition_receipt :: "disposition \<Rightarrow> append_disposition" where
  "disposition_receipt d = (case d of Applied \<Rightarrow> AppendApplied | Replayed \<Rightarrow> AppendReplayed)"

definition store_append ::
  "audit_env \<Rightarrow> audit_world \<Rightarrow> nat \<Rightarrow> string \<Rightarrow> string \<Rightarrow> ledger_entry \<Rightarrow> (audit_store_error, append_receipt) run" where
  "store_append env w expected_revision replay_id digest entry =
     run_bind (store_replay env w replay_id) (\<lambda>found.
     case found of
       Some replay \<Rightarrow> run_lift (replayed_receipt digest replay)
     | None \<Rightarrow>
         if ev_sequence (le_event entry) \<noteq> saturating_add64 expected_revision 1 then run_lift (Inl AuditCorrupt)
         else run_bind (run_lift (append_transaction env expected_revision replay_id digest entry)) (\<lambda>tx.
           run_handle (access w (\<lambda>io db. database_write_transaction (av_codec env) io tx db))
             (\<lambda>(commits, d). run_lift (Inr \<lparr>rc_request_sha256 = digest, rc_entry = entry,
                rc_disposition = disposition_receipt d, rc_revision = expected_revision + 1\<rparr>))
             (\<lambda>e. case e of
                IdempotencyConflict _ \<Rightarrow> replay_after_collision env w replay_id digest
              | _ \<Rightarrow> run_lift (Inl (database_store_error e)))))"

section \<open>The manager\<close>

definition audit_checkpoint_for :: "audit_env \<Rightarrow> audit_world \<Rightarrow> nat \<Rightarrow> audit_event \<Rightarrow> audit_error + audit_checkpoint option" where
  "audit_checkpoint_for env w attempt e =
     (if \<not> requires_checkpoint (am_interval (av_manager env)) (ev_sequence e) then Inr None
      else bind_result (am_sign (av_manager env) (ascii (ev_event_hash e))) (\<lambda>signature.
           bind_result (aw_now w (Suc attempt)) (\<lambda>created_at.
           bind_result (checkpoint_from_persisted
             \<lparr>cp_sequence = ev_sequence e, cp_event_hash = ev_event_hash e, cp_signature = signature, cp_created_at = created_at\<rparr>) (\<lambda>c.
           Inr (Some c)))))"

definition next_entry ::
  "audit_env \<Rightarrow> audit_world \<Rightarrow> nat \<Rightarrow> audit_request \<Rightarrow> string \<Rightarrow> nat \<Rightarrow> audit_ledger \<Rightarrow> audit_error + ledger_entry" where
  "next_entry env w attempt r event_id timestamp l =
     bind_result (of_option (AuditInvalid ''audit sequence'' ''event count exceeds its range'')
       (checked_add64 (length (al_entries l)) 1)) (\<lambda>sequence.
     let previous_hash = (case ledger_head l of None \<Rightarrow> AUDIT_GENESIS_HASH | Some e \<Rightarrow> ev_event_hash e) in
     bind_result (chained_event (av_manager env) sequence event_id timestamp (am_node_id (av_manager env)) r previous_hash) (\<lambda>e.
     bind_result (audit_checkpoint_for env w attempt e) (\<lambda>checkpoint.
     map_err AuditStore (ledger_entry_new e checkpoint))))"

text \<open>A replay is accepted when the verified ledger contains its entry.\<close>

definition require_recorded :: "audit_env \<Rightarrow> audit_world \<Rightarrow> ledger_entry \<Rightarrow> (audit_error, unit) run" where
  "require_recorded env w entry =
     run_bind (run_err AuditStore (store_ledger env w)) (\<lambda>l.
     run_bind (run_lift (verify_ledger (av_manager env) l)) (\<lambda>_.
     run_lift (ensure (entry \<in> set (al_entries l)) (AuditStore AuditCorrupt))))"

definition require_request :: "audit_env \<Rightarrow> string \<Rightarrow> string \<Rightarrow> ledger_entry \<Rightarrow> audit_error + unit" where
  "require_request env digest stored entry =
     (if stored \<noteq> digest then Inl AuditIdempotencyConflict
      else bind_result (event_request_sha256 (av_manager env) (le_event entry)) (\<lambda>d.
           ensure (d = digest) AuditIdempotencyConflict))"

definition replay_receipt_for ::
  "audit_env \<Rightarrow> audit_world \<Rightarrow> string \<Rightarrow> replay_receipt \<Rightarrow> (audit_error, append_receipt) run" where
  "replay_receipt_for env w digest replay =
     run_bind (run_lift (require_request env digest (rp_request_sha256 replay) (rp_entry replay))) (\<lambda>_.
     run_bind (require_recorded env w (rp_entry replay)) (\<lambda>_.
     run_lift (Inr \<lparr>rc_request_sha256 = digest, rc_entry = rp_entry replay, rc_disposition = AppendReplayed,
                    rc_revision = rp_revision replay\<rparr>)))"

definition validate_append_receipt ::
  "audit_env \<Rightarrow> audit_world \<Rightarrow> string \<Rightarrow> ledger_entry \<Rightarrow> nat \<Rightarrow> append_receipt \<Rightarrow> (audit_error, append_receipt) run" where
  "validate_append_receipt env w digest intended expected_revision receipt =
     run_bind (run_lift (require_request env digest (rc_request_sha256 receipt) (rc_entry receipt))) (\<lambda>_.
     run_bind (case rc_disposition receipt of
         AppendApplied \<Rightarrow>
           run_lift (ensure (rc_entry receipt = intended \<and> rc_revision receipt = saturating_add64 expected_revision 1)
             (AuditStore AuditCorrupt))
       | AppendReplayed \<Rightarrow> require_recorded env w (rc_entry receipt)) (\<lambda>_.
     run_lift (Inr receipt)))"

text \<open>The attempts that remain count down from \<open>MAX_APPEND_ATTEMPTS\<close>.\<close>

primrec append_attempts ::
  "audit_env \<Rightarrow> audit_world \<Rightarrow> audit_request \<Rightarrow> string \<Rightarrow> string \<Rightarrow> nat \<Rightarrow> nat \<Rightarrow> (audit_error, append_receipt) run" where
  "append_attempts env w r digest event_id timestamp 0 = run_lift (Inl AuditContention)"
| "append_attempts env w r digest event_id timestamp (Suc n) =
     run_bind (run_err AuditStore (store_ledger env w)) (\<lambda>l.
     run_bind (run_lift (verify_ledger (av_manager env) l)) (\<lambda>_.
     run_bind (run_lift (next_entry env w n r event_id timestamp l)) (\<lambda>entry.
     run_handle (store_append env w (al_revision l) (aq_replay_id r) digest entry)
       (validate_append_receipt env w digest entry (al_revision l))
       (\<lambda>e. case e of
          AuditConflict \<Rightarrow> append_attempts env w r digest event_id timestamp n
        | AuditReplayConflict \<Rightarrow> run_lift (Inl AuditIdempotencyConflict)
        | _ \<Rightarrow> run_lift (Inl (AuditStore e))))))"

definition audit_append :: "audit_env \<Rightarrow> audit_world \<Rightarrow> audit_request \<Rightarrow> (audit_error, append_receipt) run" where
  "audit_append env w r =
     run_bind (run_lift (request_sha256 (av_manager env) (am_node_id (av_manager env)) r)) (\<lambda>digest.
     run_bind (run_err AuditStore (store_replay env w (aq_replay_id r))) (\<lambda>found.
     case found of
       Some replay \<Rightarrow> replay_receipt_for env w digest replay
     | None \<Rightarrow>
         run_bind (run_lift (aw_event_id w)) (\<lambda>event_id.
         run_bind (run_lift (aw_now w 0)) (\<lambda>timestamp.
         append_attempts env w r digest event_id timestamp 8))))"

definition audit_list :: "audit_env \<Rightarrow> audit_world \<Rightarrow> nat \<Rightarrow> (audit_error, audit_event list) run" where
  "audit_list env w limit =
     (if limit = 0 \<or> limit > 10000 then run_lift (Inl (AuditInvalid ''audit list limit'' ''limit must be between 1 and 10000''))
      else run_bind (run_err AuditStore (store_ledger env w)) (\<lambda>l.
           run_lift (Inr (map le_event (take limit (rev (al_entries l)))))))"

definition audit_show :: "audit_env \<Rightarrow> audit_world \<Rightarrow> string \<Rightarrow> (audit_error, audit_event) run" where
  "audit_show env w event_id =
     run_bind (run_err AuditStore (store_event env w event_id)) (\<lambda>found. run_lift (of_option AuditNotFound found))"

definition audit_verify :: "audit_env \<Rightarrow> audit_world \<Rightarrow> (audit_error, audit_verification) run" where
  "audit_verify env w =
     run_bind (run_err AuditStore (store_ledger env w)) (\<lambda>l. run_lift (verify_ledger (av_manager env) l))"

end
