(* ===== verification/AuditRows.thy ===== *)
theory AuditRows
  imports AuditStore "HOL-Library.Multiset"
begin

text \<open>
  The audit log behind the rows of the database. A log is a list of items: an entry of the ledger, the
  replay identity it was requested under and the digest of the request. The rows of the four audit
  collections represent a log (\<open>audit_rows\<close>); reading them back gives its ledger, also when the collections
  are read at different times while the log grows, and the transaction of an append adds one item.
\<close>

section \<open>The contents of a collection\<close>

definition stored :: "'a record_type \<Rightarrow> string \<Rightarrow> db_row \<Rightarrow> 'a \<Rightarrow> nat \<Rightarrow> bool" where
  "stored rt i row v n \<longleftrightarrow> (\<exists>st. decode_record rt i row = Inr st \<and> st_value st = v \<and> st_revision st = n)"

definition holds :: "'a record_type \<Rightarrow> (record_key \<rightharpoonup> db_row) \<Rightarrow> ('a \<times> nat) list \<Rightarrow> bool" where
  "holds rt m vs \<longleftrightarrow>
     (\<forall>i. m (rt_collection rt, i) = None \<longleftrightarrow> i \<notin> (rt_identifier rt \<circ> fst) ` set vs)
     \<and> distinct (map (rt_identifier rt \<circ> fst) vs)
     \<and> (\<forall>(v, n) \<in> set vs. \<exists>row. m (rt_collection rt, rt_identifier rt v) = Some row \<and> stored rt (rt_identifier rt v) row v n)"

abbreviation view :: "'a stored_record \<Rightarrow> 'a \<times> nat" where
  "view st \<equiv> (st_value st, st_revision st)"

lemma holds_row:
  assumes "holds rt m vs" and "m (rt_collection rt, i) = Some row"
  shows "\<exists>v n. (v, n) \<in> set vs \<and> rt_identifier rt v = i \<and> stored rt i row v n"
proof -
  from assms have "i \<in> (rt_identifier rt \<circ> fst) ` set vs" by (metis holds_def option.distinct(1))
  then obtain v n where v: "(v, n) \<in> set vs" "rt_identifier rt v = i" by auto
  with assms(1) have "\<exists>row. m (rt_collection rt, rt_identifier rt v) = Some row \<and> stored rt (rt_identifier rt v) row v n"
    unfolding holds_def by blast
  with v assms(2) show ?thesis by auto
qed

lemma holds_value:
  assumes "holds rt m vs" and "(v, n) \<in> set vs"
  shows "\<exists>row. m (rt_collection rt, rt_identifier rt v) = Some row \<and> stored rt (rt_identifier rt v) row v n"
  using assms unfolding holds_def by blast

lemma decode_identifier: "decode_record rt i row = Inr st \<Longrightarrow> rt_identifier rt (st_value st) = i"
  by (auto simp: decode_record_def result_simps)

text \<open>Reading a whole collection yields its contents in some order.\<close>

lemma read_all_holds:
  assumes "table_ok (db_records db)" and "holds rt (map_of (db_records db)) vs" and "read_all_records rt io db = Inr sts"
  shows "mset (map view sts) = mset vs"
proof -
  let ?rows = "sort_key (\<lambda>(k, row). snd k) (filter (\<lambda>(k, row). fst k = rt_collection rt) (db_records db))"
  have run: "try_map (\<lambda>(k, row). decode_record rt (snd k) row) ?rows = Inr sts"
    using assms(3) by (auto simp: read_all_records_def result_simps split: if_splits)
  have mem: "((rt_collection rt, i), row) \<in> set ?rows \<longleftrightarrow> map_of (db_records db) (rt_collection rt, i) = Some row" for i row
    using map_of_in_set [OF assms(1)] by auto
  have ids: "map (\<lambda>st. rt_identifier rt (st_value st)) sts = map (snd \<circ> fst) ?rows"
    using run by (rule try_map_eq_map) (auto dest: decode_identifier)
  have "distinct (map fst ?rows)" using assms(1) by (simp add: distinct_map distinct_filter inj_on_def)
  moreover have "inj_on snd (fst ` set ?rows)" by (auto simp: inj_on_def)
  ultimately have "distinct (map snd (map fst ?rows))" by (simp only: distinct_map set_map) 
  then have d1: "distinct (map (\<lambda>st. rt_identifier rt (st_value st)) sts)" using ids by simp
  then have "distinct (map view sts)" by (auto simp: distinct_map inj_on_def)
  moreover have "distinct vs" using assms(2) by (auto simp: holds_def distinct_map)
  moreover have "set (map view sts) = set vs"
  proof (rule set_eqI, clarify)
    fix v n
    show "(v, n) \<in> set (map view sts) \<longleftrightarrow> (v, n) \<in> set vs"
    proof
      assume "(v, n) \<in> set (map view sts)"
      then obtain st where st: "st \<in> set sts" "st_value st = v" "st_revision st = n" by auto
      from try_map_set [OF run st(1)] obtain i row where row: "((rt_collection rt, i), row) \<in> set ?rows" "decode_record rt i row = Inr st"
        by auto
      from holds_row [OF assms(2)] mem row(1) obtain v' n' where v': "(v', n') \<in> set vs" "stored rt i row v' n'" by blast
      then show "(v, n) \<in> set vs" using row(2) st by (auto simp: stored_def)
    next
      assume "(v, n) \<in> set vs"
      from holds_value [OF assms(2) this] obtain row st where row: "map_of (db_records db) (rt_collection rt, rt_identifier rt v) = Some row"
        "decode_record rt (rt_identifier rt v) row = Inr st" "st_value st = v" "st_revision st = n" by (auto simp: stored_def)
      with mem have "((rt_collection rt, rt_identifier rt v), row) \<in> set ?rows" by blast
      from try_map_all [OF run this] row show "(v, n) \<in> set (map view sts)" by force
    qed
  qed
  ultimately show ?thesis by (metis set_eq_iff_mset_eq_distinct)
qed

lemma read_all_succeeds:
  assumes "holds rt (map_of (db_records db)) vs" and "table_ok (db_records db)" and "\<not> db_closed db" and "io_fault io = (\<lambda>_. None)"
  shows "\<exists>sts. read_all_records rt io db = Inr sts"
proof -
  let ?rows = "sort_key (\<lambda>(k, row). snd k) (filter (\<lambda>(k, row). fst k = rt_collection rt) (db_records db))"
  have "\<exists>sts. try_map (\<lambda>(k, row). decode_record rt (snd k) row) ?rows = Inr sts"
  proof (rule try_map_exists)
    fix x
    assume "x \<in> set ?rows"
    then obtain i row where x: "x = ((rt_collection rt, i), row)" "map_of (db_records db) (rt_collection rt, i) = Some row"
      using map_of_in_set [OF assms(2)] by auto
    with holds_row [OF assms(1) x(2)] show "\<exists>st. (case x of (k, row) \<Rightarrow> decode_record rt (snd k) row) = Inr st"
      by (auto simp: stored_def)
  qed
  with assms(3,4) show ?thesis by (auto simp: read_all_records_def sql_def)
qed

text \<open>Saving a record that was missing, or the next revision of one.\<close>

lemma holds_add:
  assumes "holds rt m vs" and "m (rt_collection rt, rt_identifier rt v) = None" and "rt_from_json rt payload = Some v" and "0 \<le> now"
    and "0 < rt_version rt"
  shows "holds rt (apply_effect now (Save (rt_collection rt) (rt_version rt) (rt_identifier rt v) payload key Missing) m) (vs @ [(v, 1)])"
proof -
  let ?k = "(rt_collection rt, rt_identifier rt v)"
  let ?row = "\<lparr>row_version = int (rt_version rt), row_revision = 1, row_payload = payload, row_created = now, row_updated = now\<rparr>"
  have eff: "apply_effect now (Save (rt_collection rt) (rt_version rt) (rt_identifier rt v) payload key Missing) m = m(?k \<mapsto> ?row)"
    using assms(2) by (simp add: apply_effect_def)
  have row: "stored rt (rt_identifier rt v) ?row v 1"
    using assms(3,4) by (auto simp: stored_def decode_record_def revision_from_sql_def valid_timestamp_def)
  have new: "rt_identifier rt v \<notin> (rt_identifier rt \<circ> fst) ` set vs" using assms(1,2) by (auto simp: holds_def)
  have "\<exists>row. (m(?k \<mapsto> ?row)) (rt_collection rt, rt_identifier rt x) = Some row \<and> stored rt (rt_identifier rt x) row x n"
    if "(x, n) \<in> set (vs @ [(v, 1)])" for x n
  proof (cases "(x, n) \<in> set vs")
    case True
    then have "rt_identifier rt x \<noteq> rt_identifier rt v" using new by force
    then show ?thesis using holds_value [OF assms(1) True] by simp
  next
    case False
    then show ?thesis using that row by simp
  qed
  moreover have "distinct (map (rt_identifier rt \<circ> fst) (vs @ [(v, 1)]))" using assms(1) new by (simp add: holds_def)
  moreover have "(m(?k \<mapsto> ?row)) (rt_collection rt, i) = None \<longleftrightarrow> i \<notin> (rt_identifier rt \<circ> fst) ` set (vs @ [(v, 1)])" for i
    using assms(1) by (simp add: holds_def)
  ultimately show ?thesis unfolding eff unfolding holds_def by blast
qed

lemma holds_next:
  assumes "holds rt m [(v0, n)]" and "rt_identifier rt v = rt_identifier rt v0" and "rt_from_json rt payload = Some v" and "0 \<le> now"
  shows "holds rt (apply_effect now (Save (rt_collection rt) (rt_version rt) (rt_identifier rt v) payload key expected) m) [(v, Suc n)]"
proof -
  obtain row where row: "m (rt_collection rt, rt_identifier rt v) = Some row" "stored rt (rt_identifier rt v) row v0 n"
    using holds_value [OF assms(1), of v0 n] assms(2) by auto
  let ?row = "row\<lparr>row_revision := row_revision row + 1, row_payload := payload, row_updated := max now (row_updated row)\<rparr>"
  have eff: "apply_effect now (Save (rt_collection rt) (rt_version rt) (rt_identifier rt v) payload key expected) m
      = m((rt_collection rt, rt_identifier rt v) \<mapsto> ?row)"
    using row(1) by (simp add: apply_effect_def)
  have "stored rt (rt_identifier rt v) ?row v (Suc n)"
    using row(2) assms(3,4)
    by (auto simp: stored_def decode_record_def result_simps revision_from_sql_def valid_timestamp_def le_max_iff_disj split: if_splits)
  with assms(1,2) show ?thesis unfolding eff by (auto simp: holds_def)
qed

lemma holds_other:
  assumes "holds rt m vs" and "pc_collection c \<noteq> rt_collection rt"
  shows "holds rt (apply_effect now c m) vs"
proof -
  have "apply_effect now c m (rt_collection rt, i) = m (rt_collection rt, i)" for i using assms(2) by (simp add: apply_effect_def)
  with assms(1) show ?thesis by (simp add: holds_def)
qed

lemma holds_cong:
  assumes "holds rt m vs" and "\<And>i. m' (rt_collection rt, i) = m (rt_collection rt, i)"
  shows "holds rt m' vs"
  using assms by (simp add: holds_def)

section \<open>The log\<close>

record log_item =
  lg_entry :: ledger_entry
  lg_replay :: string
  lg_digest :: string

abbreviation lg_event :: "log_item \<Rightarrow> audit_event" where
  "lg_event x \<equiv> le_event (lg_entry x)"

definition state_values :: "log_item list \<Rightarrow> (state_record \<times> nat) list" where
  "state_values L =
     (if L = [] then []
      else [(\<lparr>sr_record_id = ''chain'', sr_revision = length L, sr_head = ev_event_hash (lg_event (last L))\<rparr>, length L)])"

definition event_values :: "log_item list \<Rightarrow> (event_record \<times> nat) list" where
  "event_values L = map (\<lambda>x. (to_event_record (lg_event x), 1)) L"

definition log_checkpoints :: "log_item list \<Rightarrow> audit_checkpoint list" where
  "log_checkpoints L = List.map_filter (\<lambda>x. le_checkpoint (lg_entry x)) L"

definition checkpoint_values :: "log_item list \<Rightarrow> (checkpoint_record \<times> nat) list" where
  "checkpoint_values L = map (\<lambda>c. (to_checkpoint_record c, 1)) (log_checkpoints L)"

definition replay_value :: "log_item \<Rightarrow> replay_record" where
  "replay_value x = \<lparr>rr_replay_id = lg_replay x, rr_request_sha256 = lg_digest x, rr_event_id = ev_event_id (lg_event x),
     rr_sequence = ev_sequence (lg_event x)\<rparr>"

definition replay_values :: "log_item list \<Rightarrow> (replay_record \<times> nat) list" where
  "replay_values L = map (\<lambda>x. (replay_value x, 1)) L"

text \<open>What the types and the checks on reading require of an item at a position.\<close>

definition item_ok :: "nat \<Rightarrow> log_item \<Rightarrow> bool" where
  "item_ok n x \<longleftrightarrow> ev_sequence (lg_event x) = n \<and> event_from_record (to_event_record (lg_event x)) = Inr (lg_event x)
     \<and> is_sha256_digest (lg_digest x)
     \<and> (\<forall>c. le_checkpoint (lg_entry x) = Some c \<longrightarrow> cp_sequence c = n \<and> cp_event_hash c = ev_event_hash (lg_event x)
          \<and> checkpoint_from_record (to_checkpoint_record c) = Inr c)"

definition log_ok :: "log_item list \<Rightarrow> bool" where
  "log_ok L \<longleftrightarrow> (\<forall>i < length L. item_ok (Suc i) (L ! i)) \<and> distinct (map (ev_event_id \<circ> lg_event) L)
     \<and> distinct (map lg_replay L) \<and> length L < 2 ^ 63"

definition audit_rows :: "audit_env \<Rightarrow> database \<Rightarrow> log_item list \<Rightarrow> bool" where
  "audit_rows env db L \<longleftrightarrow> table_ok (db_records db) \<and> log_ok L
     \<and> holds (state_type env) (map_of (db_records db)) (state_values L)
     \<and> holds (event_type env) (map_of (db_records db)) (event_values L)
     \<and> holds (checkpoint_type env) (map_of (db_records db)) (checkpoint_values L)
     \<and> holds (replay_type env) (map_of (db_records db)) (replay_values L)"

lemma log_sequence: "log_ok L \<Longrightarrow> i < length L \<Longrightarrow> ev_sequence (lg_event (L ! i)) = Suc i"
  by (simp add: log_ok_def item_ok_def)

lemma log_sequences: "log_ok L \<Longrightarrow> map (ev_sequence \<circ> lg_event) L = map Suc [0..<length L]"
  by (rule nth_equalityI) (auto simp: log_sequence)

lemma log_item_ok: "log_ok L \<Longrightarrow> x \<in> set L \<Longrightarrow> item_ok (ev_sequence (lg_event x)) x"
  by (auto simp: log_ok_def in_set_conv_nth item_ok_def)

lemma log_checkpoints_set: "c \<in> set (log_checkpoints L) \<longleftrightarrow> (\<exists>x \<in> set L. le_checkpoint (lg_entry x) = Some c)"
  by (force simp: log_checkpoints_def List.map_filter_def image_iff)

section \<open>Reading the log back\<close>

lemma collect_checkpoints_spec:
  assumes "collect_checkpoints t cs = Inr t'"
  shows "map_of t' k = Some c \<longleftrightarrow> map_of t k = Some c
    \<or> (\<exists>s \<in> set cs. cr_sequence (st_value s) = k \<and> checkpoint_from_record (st_value s) = Inr c)"
  using assms
proof (induction cs arbitrary: t)
  case (Cons s cs)
  then obtain cp where s: "checkpoint_from_record (st_value s) = Inr cp" "map_of t (cr_sequence (st_value s)) = None"
    "collect_checkpoints (AList.update (cr_sequence (st_value s)) cp t) cs = Inr t'"
    by (auto simp: Let_def result_simps split: if_splits)
  from Cons.IH [OF s(3)] s(1,2) show ?case by (auto simp: map_of_update_if)
qed simp

lemma collect_checkpoints_total:
  assumes "\<forall>s \<in> set cs. st_revision s = 1 \<and> cr_record_id (st_value s) = sequence_record_id (cr_sequence (st_value s))
      \<and> (\<exists>c. checkpoint_from_record (st_value s) = Inr c)"
    and "distinct (map (\<lambda>s. cr_sequence (st_value s)) cs)" and "\<forall>s \<in> set cs. map_of t (cr_sequence (st_value s)) = None"
  shows "\<exists>t'. collect_checkpoints t cs = Inr t'"
  using assms
proof (induction cs arbitrary: t)
  case (Cons s cs)
  then obtain c where c: "checkpoint_from_record (st_value s) = Inr c" by auto
  have "cr_sequence (st_value x) \<noteq> cr_sequence (st_value s)" if "x \<in> set cs" for x
    using Cons.prems(2) imageI [OF that, of "\<lambda>s. cr_sequence (st_value s)"] by auto
  then have "\<exists>t'. collect_checkpoints (AList.update (cr_sequence (st_value s)) c t) cs = Inr t'"
    by (intro Cons.IH) (use Cons.prems in \<open>simp_all add: map_of_update_if\<close>)
  with Cons.prems c show ?case by (auto simp: Let_def)
qed simp

lemma attach_checkpoints_spec:
  assumes "attach_checkpoints n t es = Inr (entries, rest)"
  shows "entries = map (\<lambda>e. \<lparr>le_event = e, le_checkpoint = map_of t (ev_sequence e)\<rparr>) es
    \<and> (\<forall>k. map_of rest k = (if k \<in> ev_sequence ` set es then None else map_of t k)) \<and> (\<forall>e \<in> set es. n < ev_sequence e)"
  using assms
proof (induction es arbitrary: n t entries rest)
  case (Cons e es)
  then obtain more where e: "ev_sequence e = Suc n" "entries = \<lparr>le_event = e, le_checkpoint = map_of t (ev_sequence e)\<rparr> # more"
    "attach_checkpoints (Suc n) (AList.delete (ev_sequence e) t) es = Inr (more, rest)"
    by (auto simp: result_simps ledger_entry_new_def split: if_splits)
  note rec = Cons.IH [OF e(3)]
  then have "ev_sequence x \<noteq> ev_sequence e" if "x \<in> set es" for x using e(1) that by fastforce
  with rec e show ?case by (auto simp: map_of_delete_if)
qed simp

lemma attach_checkpoints_total:
  assumes "\<forall>i < length es. ev_sequence (es ! i) = Suc (n + i)" and "n + length es < 2 ^ 63"
    and "\<forall>e \<in> set es. \<forall>c. map_of t (ev_sequence e) = Some c \<longrightarrow> cp_sequence c = ev_sequence e \<and> cp_event_hash c = ev_event_hash e"
  shows "\<exists>entries rest. attach_checkpoints n t es = Inr (entries, rest)"
  using assms
proof (induction es arbitrary: n t)
  case (Cons e es)
  have e: "ev_sequence e = Suc n" "\<forall>i < length es. ev_sequence (es ! i) = Suc (Suc n + i)"
    using Cons.prems(1) by (auto simp: All_less_Suc2)
  have "\<exists>entries rest. attach_checkpoints (Suc n) (AList.delete (ev_sequence e) t) es = Inr (entries, rest)"
    by (rule Cons.IH) (use Cons.prems e(2) in \<open>auto simp: map_of_delete_if split: if_splits\<close>)
  then show ?case using e(1) Cons.prems(2,3)
    by (auto simp: checked_add64_def u64_max_def ledger_entry_new_def split: option.splits)
qed simp

text \<open>The contents of the four collections, each read in some order.\<close>

lemma sort_log:
  assumes "log_ok L" and "mset es = mset (map lg_event L)"
  shows "sort_key ev_sequence es = map lg_event L"
proof -
  have seq: "map ev_sequence (map lg_event L) = map Suc [0..<length L]" using log_sequences [OF assms(1)] by simp
  then have "distinct (map ev_sequence (map lg_event L))" "sorted (map ev_sequence (map lg_event L))"
    by (simp_all add: distinct_map sorted_map)
  then have inj: "inj_on ev_sequence (set (map lg_event L))" by (simp only: distinct_map)
  have "mset (map ev_sequence (sort_key ev_sequence es)) = mset (map ev_sequence (map lg_event L))"
    using assms(2) by (simp del: map_map)
  then have "map ev_sequence (sort_key ev_sequence es) = map ev_sequence (map lg_event L)"
    using \<open>sorted (map ev_sequence (map lg_event L))\<close> sorted_sort_key [of ev_sequence es]
    by (metis properties_for_sort sorted_sort_id)
  moreover have "set (sort_key ev_sequence es) = set (map lg_event L)" using mset_eq_setD [OF assms(2)] by simp
  ultimately show ?thesis
    using inj_on_map_eq_map [of ev_sequence "sort_key ev_sequence es" "map lg_event L"] inj by simp
qed

lemma stored_events_back:
  assumes "log_ok L" and "mset (map view events) = mset (event_values L)"
  shows "\<exists>es. try_map stored_event events = Inr es \<and> mset es = mset (map lg_event L)"
proof -
  have mem: "\<exists>x \<in> set L. st_value s = to_event_record (lg_event x) \<and> st_revision s = 1" if "s \<in> set events" for s
  proof -
    have "view s \<in> set (event_values L)" using that by (simp add: mset_eq_setD [OF assms(2), symmetric])
    then show ?thesis by (auto simp: event_values_def)
  qed
  have reads: "event_from_record (to_event_record (lg_event x)) = Inr (lg_event x)" if "x \<in> set L" for x
    using log_item_ok [OF assms(1) that] by (simp add: item_ok_def)
  let ?f = "\<lambda>v. case event_from_record v of Inr e \<Rightarrow> e | Inl _ \<Rightarrow> undefined"
  have "try_map stored_event events = Inr (map (?f \<circ> st_value) events)"
    by (rule try_map_total) (use mem reads in \<open>fastforce simp: stored_event_def\<close>)
  moreover have "mset (map (?f \<circ> st_value) events) = image_mset (?f \<circ> fst) (mset (map view events))"
    by (simp add: image_mset.compositionality o_def)
  moreover have "image_mset (?f \<circ> fst) (mset (event_values L)) = mset (map lg_event L)"
    using reads by (auto simp: event_values_def image_mset.compositionality o_def intro: image_mset_cong)
  ultimately show ?thesis using assms(2) by metis
qed

text \<open>The table of checkpoints, read from a log that may have grown since the events were read.\<close>

lemma log_checkpoints_append: "log_checkpoints (L @ M) = log_checkpoints L @ log_checkpoints M"
  by (simp add: log_checkpoints_def List.map_filter_def)

lemma log_ok_prefix: "log_ok L' \<Longrightarrow> prefix L L' \<Longrightarrow> log_ok L"
  by (auto simp: log_ok_def prefix_def nth_append split: if_splits)

lemma to_checkpoint_record_sequence [simp]: "cr_sequence (to_checkpoint_record c) = cp_sequence c"
  by (simp add: to_checkpoint_record_def)

lemma checkpoint_table:
  assumes "log_ok L" and "mset (map view cs) = mset (checkpoint_values L)" and "collect_checkpoints [] cs = Inr t"
    and "i < length L"
  shows "map_of t (Suc i) = le_checkpoint (lg_entry (L ! i))"
proof -
  have "map_of t (Suc i) = Some c \<longleftrightarrow> le_checkpoint (lg_entry (L ! i)) = Some c" for c
  proof -
    have "(\<exists>s \<in> set cs. cr_sequence (st_value s) = Suc i \<and> checkpoint_from_record (st_value s) = Inr c)
        \<longleftrightarrow> (\<exists>v \<in> fst ` set (checkpoint_values L). cr_sequence v = Suc i \<and> checkpoint_from_record v = Inr c)"
      unfolding mset_eq_setD [OF assms(2), symmetric] by (simp add: image_image)
    also have "\<dots> \<longleftrightarrow> (\<exists>x \<in> set L. \<exists>d. le_checkpoint (lg_entry x) = Some d \<and> cp_sequence d = Suc i
        \<and> checkpoint_from_record (to_checkpoint_record d) = Inr c)"
      by (auto simp: checkpoint_values_def Bex_def log_checkpoints_set image_image)
    also have "\<dots> \<longleftrightarrow> (\<exists>x \<in> set L. le_checkpoint (lg_entry x) = Some c \<and> cp_sequence c = Suc i)"
      using log_item_ok [OF assms(1)] by (auto simp: item_ok_def)
    also have "\<dots> \<longleftrightarrow> le_checkpoint (lg_entry (L ! i)) = Some c"
      using assms(1,4) by (auto simp: log_ok_def item_ok_def in_set_conv_nth Bex_def)
    finally show ?thesis using collect_checkpoints_spec [OF assms(3), of "Suc i" c] by simp
  qed
  then show ?thesis by (metis option.exhaust)
qed

lemma checkpoint_table_range:
  assumes "log_ok L" and "mset (map view cs) = mset (checkpoint_values L)" and "collect_checkpoints [] cs = Inr t"
    and "map_of t k = Some c"
  shows "1 \<le> k \<and> k \<le> length L"
proof -
  from assms(4) collect_checkpoints_spec [OF assms(3)] obtain s where s: "s \<in> set cs" "cr_sequence (st_value s) = k" by auto
  then have "view s \<in> set (checkpoint_values L)" using mset_eq_setD [OF assms(2), symmetric] by simp
  then obtain x d where x: "x \<in> set L" "le_checkpoint (lg_entry x) = Some d" "st_value s = to_checkpoint_record d"
    by (auto simp: checkpoint_values_def log_checkpoints_set)
  then obtain i where "i < length L" "x = L ! i" by (auto simp: in_set_conv_nth)
  with x s(2) assms(1) show ?thesis by (auto simp: log_ok_def item_ok_def to_checkpoint_record_def)
qed

lemma attached_entries:
  assumes "log_ok L'" and "prefix L L'" and "mset (map view cs) = mset (checkpoint_values L')" and "collect_checkpoints [] cs = Inr t"
    and "attach_checkpoints 0 t (map lg_event L) = Inr (entries, rest)"
  shows "entries = map lg_entry L"
proof (rule nth_equalityI)
  have entries: "entries = map (\<lambda>e. \<lparr>le_event = e, le_checkpoint = map_of t (ev_sequence e)\<rparr>) (map lg_event L)"
    using attach_checkpoints_spec [OF assms(5)] by simp
  then show "length entries = length (map lg_entry L)" by simp
  fix i
  assume "i < length entries"
  then have i: "i < length L" using entries by simp
  then have "L' ! i = L ! i" "i < length L'" using assms(2) by (auto simp: prefix_def nth_append)
  then show "entries ! i = map lg_entry L ! i"
    using checkpoint_table [OF assms(1,3,4), of i] log_sequence [OF log_ok_prefix [OF assms(1,2)] i] i by (simp add: entries)
qed

abbreviation ledger_of :: "log_item list \<Rightarrow> audit_ledger" where
  "ledger_of L \<equiv> \<lparr>al_entries = map lg_entry L, al_revision = length L\<rparr>"

text \<open>
  What a reader assembles. The state was read from the log \<open>L0\<close>, the events from \<open>L1\<close>, the checkpoints from
  \<open>L2\<close>, each at least as long as the one before: a successful answer is the ledger of \<open>L0\<close>.
\<close>

lemma assembled_ledger:
  assumes "log_ok L2" and "prefix L0 L1" and "prefix L1 L2"
    and "mset (map view states) = mset (state_values L0)" and "mset (map view events) = mset (event_values L1)"
    and "mset (map view checkpoints) = mset (checkpoint_values L2)"
    and run: "assemble_ledger states events checkpoints replays = Inr l"
  shows "l = ledger_of L0"
proof (cases "L0 = []")
  case True
  then have "states = []" using assms(4) by (simp add: state_values_def)
  with run True show ?thesis by (auto simp: assemble_ledger_def ledger_from_persisted_def split: if_splits)
next
  case False
  have ok: "log_ok L1" "log_ok L0" using assms(1-3) log_ok_prefix by blast+
  have "map view states = state_values L0" using False assms(4) by (simp add: state_values_def mset_single_iff del: mset_map)
  with False obtain state where state: "states = [state]" "sr_revision (st_value state) = length L0"
    by (auto simp: state_values_def)
  from run state obtain t es entries rest where parts: "length events = length L0"
    "collect_checkpoints [] checkpoints = Inr t" "try_map stored_event events = Inr es"
    "attach_checkpoints 0 t (sort_key ev_sequence es) = Inr (entries, rest)" "rest = []"
    "l = \<lparr>al_entries = entries, al_revision = length L0\<rparr>"
    by (auto simp: assemble_ledger_def ledger_from_persisted_def result_simps split: if_splits)
  have "length events = length L1" using arg_cong [OF assms(5), of size] by (simp add: event_values_def)
  with parts(1) assms(2) have "L1 = L0" by (auto simp: prefix_def)
  then have sorted: "sort_key ev_sequence es = map lg_event L0"
    using stored_events_back [OF ok(1) assms(5)] parts(3) sort_log [OF ok(1)] by auto
  then have "entries = map lg_entry L0"
    using attached_entries [OF assms(1) prefix_order.trans [OF assms(2,3)] assms(6) parts(2)] parts(4) by simp
  then show ?thesis using parts(6) by simp
qed

section \<open>The transaction of an append\<close>

text \<open>The JSON form of each record reads back.\<close>

definition json_ok :: "audit_env \<Rightarrow> bool" where
  "json_ok env \<longleftrightarrow>
     (\<forall>v p. av_state_to_json env v = Some p \<longrightarrow> av_state_from_json env p = Some v)
     \<and> (\<forall>v p. av_event_to_json env v = Some p \<longrightarrow> av_event_from_json env p = Some v)
     \<and> (\<forall>v p. av_checkpoint_to_json env v = Some p \<longrightarrow> av_checkpoint_from_json env p = Some v)
     \<and> (\<forall>v p. av_replay_to_json env v = Some p \<longrightarrow> av_replay_from_json env p = Some v)"

lemmas audit_types = state_type_def event_type_def checkpoint_type_def replay_type_def

abbreviation state_after :: "log_item \<Rightarrow> state_record" where
  "state_after x \<equiv> \<lparr>sr_record_id = ''chain'', sr_revision = ev_sequence (lg_event x), sr_head = ev_event_hash (lg_event x)\<rparr>"

definition checkpoint_commands :: "log_item \<Rightarrow> string \<Rightarrow> byte list \<Rightarrow> prepared_command list" where
  "checkpoint_commands x key payload =
     (case le_checkpoint (lg_entry x) of None \<Rightarrow> []
      | Some c \<Rightarrow> [Save AuditCheckpoints 1 (sequence_record_id (cp_sequence c)) payload key Missing])"

lemma transaction_saved:
  assumes "transaction_save rt v expected tx = Inr tx'"
  shows "\<exists>p. rt_to_json rt v = Some p
    \<and> tx' = (fst tx, snd tx @ [Save (rt_collection rt) (rt_version rt) (rt_identifier rt v) p (fst tx) expected])"
  using assms by (auto simp: transaction_save_def prepare_save_def add_command_def result_simps split: if_splits)

lemma append_transaction_Inr:
  assumes "append_transaction env n (lg_replay x) (lg_digest x) (lg_entry x) = Inr tx"
  obtains key p1 p2 p3 p4 where "key = ''audit:'' @ lg_replay x"
    "tx = (key, [Save AuditState 1 ''chain'' p1 key (if n = 0 then Missing else Exact n),
       Save AuditEvents 1 (ev_event_id (lg_event x)) p2 key Missing] @ checkpoint_commands x key p3
       @ [Save AuditReplays 1 (lg_replay x) p4 key Missing])"
    "av_state_to_json env (state_after x) = Some p1" "av_event_to_json env (to_event_record (lg_event x)) = Some p2"
    "\<And>c. le_checkpoint (lg_entry x) = Some c \<Longrightarrow> av_checkpoint_to_json env (to_checkpoint_record c) = Some p3"
    "av_replay_to_json env (replay_value x) = Some p4"
proof -
  let ?key = "''audit:'' @ lg_replay x" and ?c = "le_checkpoint (lg_entry x)"
  from assms obtain t1 t2 t3 where t: "transaction_save (state_type env) (state_after x) (if n = 0 then Missing else Exact n) (?key, []) = Inr t1"
    "transaction_save (event_type env) (to_event_record (lg_event x)) Missing t1 = Inr t2"
    "(case ?c of None \<Rightarrow> Inr t2 | Some c \<Rightarrow> transaction_save (checkpoint_type env) (to_checkpoint_record c) Missing t2) = Inr t3"
    "transaction_save (replay_type env) (replay_value x) Missing t3 = Inr tx"
    by (auto simp: append_transaction_def Let_def database_replay_id_def transaction_new_def replay_value_def result_simps
        split: if_splits)
  from transaction_saved [OF t(1)] obtain p1 where p1: "av_state_to_json env (state_after x) = Some p1"
    "t1 = (?key, [Save AuditState 1 ''chain'' p1 ?key (if n = 0 then Missing else Exact n)])"
    by (auto simp: state_type_def)
  from transaction_saved [OF t(2)] p1(2) obtain p2 where p2: "av_event_to_json env (to_event_record (lg_event x)) = Some p2"
    "t2 = (?key, snd t1 @ [Save AuditEvents 1 (ev_event_id (lg_event x)) p2 ?key Missing])"
    by (auto simp: event_type_def to_event_record_def)
  have "\<exists>p3. t3 = (?key, snd t2 @ checkpoint_commands x ?key p3)
      \<and> (\<forall>c. ?c = Some c \<longrightarrow> av_checkpoint_to_json env (to_checkpoint_record c) = Some p3)"
  proof (cases ?c)
    case None
    with t(3) p2(2) show ?thesis by (auto simp: checkpoint_commands_def)
  next
    case (Some c)
    with t(3) transaction_saved [of "checkpoint_type env" "to_checkpoint_record c" Missing t2 t3] p2(2) show ?thesis
      by (auto simp: checkpoint_commands_def checkpoint_type_def to_checkpoint_record_def)
  qed
  then obtain p3 where p3: "t3 = (?key, snd t2 @ checkpoint_commands x ?key p3)"
    "\<And>c. ?c = Some c \<Longrightarrow> av_checkpoint_to_json env (to_checkpoint_record c) = Some p3" by blast
  from transaction_saved [OF t(4)] p3(1) obtain p4 where p4: "av_replay_to_json env (replay_value x) = Some p4"
    "tx = (?key, snd t3 @ [Save AuditReplays 1 (lg_replay x) p4 ?key Missing])"
    by (auto simp: replay_type_def replay_value_def)
  show ?thesis by (rule that [OF refl _ p1(1) p2(1) p3(2) p4(1)]) (simp add: p1(2) p2(2) p3(1) p4(2))
qed

lemma holds_others:
  "holds rt m vs \<Longrightarrow> \<forall>c \<in> set cs. pc_collection c \<noteq> rt_collection rt \<Longrightarrow> holds rt (fold (apply_effect now) cs m) vs"
  by (induction cs arbitrary: m) (auto intro: holds_other)

lemma guards_append:
  "guards_hold now (cs @ ds) m \<longleftrightarrow> guards_hold now cs m \<and> guards_hold now ds (fold (apply_effect now) cs m)"
  by (induction cs arbitrary: m) auto

lemma guard_missing [simp]: "revision_matches Missing (revision_of r) \<longleftrightarrow> r = None"
  by (simp add: revision_matches_def revision_of_def)

lemma state_guard:
  assumes "holds (state_type env) m (state_values L)"
    and "revision_matches (if n = 0 then Missing else Exact n) (revision_of (m (AuditState, ''chain'')))"
  shows "n = length L"
proof (cases "L = []")
  case True
  then have "m (AuditState, ''chain'') = None" using assms(1) by (simp add: holds_def state_values_def audit_types)
  with assms(2) True show ?thesis by (auto simp: revision_matches_def revision_of_def split: if_splits)
next
  case False
  then obtain row where row: "m (AuditState, ''chain'') = Some row"
    "stored (state_type env) ''chain'' row (fst (hd (state_values L))) (length L)"
    using assms(1) by (auto simp: holds_def state_values_def audit_types)
  then have "nat (row_revision row) = length L"
    by (auto simp: stored_def decode_record_def result_simps revision_from_sql_def split: if_splits)
  with assms(2) row(1) show ?thesis by (auto simp: revision_matches_def revision_of_def split: if_splits)
qed

text \<open>Each command fills one collection; the guards say that the log has the expected length.\<close>

lemma state_saved:
  assumes "holds (state_type env) m (state_values L)" and "ev_sequence (lg_event x) = Suc (length L)" and "0 \<le> now"
    and "av_state_from_json env p = Some (state_after x)"
  shows "holds (state_type env) (apply_effect now (Save AuditState 1 ''chain'' p key (if length L = 0 then Missing else Exact (length L))) m)
    (state_values (L @ [x]))"
proof (cases "L = []")
  case True
  then have "m (AuditState, ''chain'') = None" using assms(1) by (simp add: holds_def state_values_def state_type_def)
  with holds_add [of "state_type env" m "[]" "state_after x" p now key] assms True show ?thesis
    by (simp add: state_values_def state_type_def)
next
  case False
  then have "holds (state_type env) m [(fst (hd (state_values L)), length L)]" using assms(1) by (simp add: state_values_def)
  from holds_next [OF this, of "state_after x" p now key "Exact (length L)"] assms False show ?thesis
    by (simp add: state_values_def state_type_def)
qed

lemma holds_added:
  assumes "holds rt m vs" and "\<forall>c \<in> set cs \<union> set ds. pc_collection c \<noteq> rt_collection rt"
    and "guards_hold now (cs @ Save (rt_collection rt) (rt_version rt) (rt_identifier rt v) p key Missing # ds) m"
    and "rt_from_json rt p = Some v" and "0 \<le> now" and "0 < rt_version rt"
  shows "holds rt (fold (apply_effect now) (cs @ Save (rt_collection rt) (rt_version rt) (rt_identifier rt v) p key Missing # ds) m)
    (vs @ [(v, 1)])"
proof -
  have "holds rt (fold (apply_effect now) cs m) vs" using assms(1,2) by (simp add: holds_others)
  from holds_add [OF this _ assms(4-6), of key] assms(2,3) show ?thesis by (simp add: guards_append holds_others)
qed

lemma checkpoints_saved:
  assumes "holds (checkpoint_type env) m (checkpoint_values L)" and "\<forall>c \<in> set cs \<union> set ds. pc_collection c \<noteq> AuditCheckpoints"
    and "guards_hold now (cs @ checkpoint_commands x key p @ ds) m"
    and "\<And>c. le_checkpoint (lg_entry x) = Some c \<Longrightarrow> av_checkpoint_from_json env p = Some (to_checkpoint_record c)" and "0 \<le> now"
  shows "holds (checkpoint_type env) (fold (apply_effect now) (cs @ checkpoint_commands x key p @ ds) m) (checkpoint_values (L @ [x]))"
proof (cases "le_checkpoint (lg_entry x)")
  case None
  have "holds (checkpoint_type env) (fold (apply_effect now) (cs @ ds) m) (checkpoint_values L)"
    by (rule holds_others) (use assms(1,2) in \<open>auto simp: checkpoint_type_def\<close>)
  with None show ?thesis by (simp add: checkpoint_commands_def checkpoint_values_def log_checkpoints_def List.map_filter_def)
next
  case (Some c)
  with holds_added [OF assms(1), of cs ds now "to_checkpoint_record c" p key] assms(2-5) show ?thesis
    by (simp add: checkpoint_commands_def checkpoint_values_def log_checkpoints_def List.map_filter_def checkpoint_type_def
        to_checkpoint_record_def)
qed

lemma log_ok_snoc:
  "log_ok (L @ [x]) \<longleftrightarrow> log_ok L \<and> item_ok (Suc (length L)) x \<and> ev_event_id (lg_event x) \<notin> (ev_event_id \<circ> lg_event) ` set L
     \<and> lg_replay x \<notin> lg_replay ` set L \<and> Suc (length L) < 2 ^ 63"
  by (auto simp: log_ok_def nth_append less_Suc_eq)

lemma append_rows:
  assumes rows: "audit_rows env db L" and json: "json_ok env" and tx: "append_transaction env n (lg_replay x) (lg_digest x) (lg_entry x) = Inr tx"
    and guards: "guards_hold now (snd tx) (map_of (db_records db))" and now: "0 \<le> now"
    and after: "map_of (db_records db') = fold (apply_effect now) (snd tx) (map_of (db_records db))" and "table_ok (db_records db')"
    and ok: "item_ok (Suc n) x" and "Suc n < 2 ^ 63"
  shows "n = length L \<and> audit_rows env db' (L @ [x])"
proof -
  let ?m = "map_of (db_records db)"
  from tx obtain key p1 p2 p3 p4 where cs: "snd tx = [Save AuditState 1 ''chain'' p1 key (if n = 0 then Missing else Exact n),
       Save AuditEvents 1 (ev_event_id (lg_event x)) p2 key Missing] @ checkpoint_commands x key p3
       @ [Save AuditReplays 1 (lg_replay x) p4 key Missing]" (is "_ = [?c1, ?c2] @ ?k @ [?c4]")
    and to: "av_state_to_json env (state_after x) = Some p1" "av_event_to_json env (to_event_record (lg_event x)) = Some p2"
      "\<And>c. le_checkpoint (lg_entry x) = Some c \<Longrightarrow> av_checkpoint_to_json env (to_checkpoint_record c) = Some p3"
      "av_replay_to_json env (replay_value x) = Some p4"
    by (rule append_transaction_Inr) auto
  have p: "av_state_from_json env p1 = Some (state_after x)" "av_event_from_json env p2 = Some (to_event_record (lg_event x))"
      "\<And>c. le_checkpoint (lg_entry x) = Some c \<Longrightarrow> av_checkpoint_from_json env p3 = Some (to_checkpoint_record c)"
      "av_replay_from_json env p4 = Some (replay_value x)"
    using json to unfolding json_ok_def by blast+
  have k: "\<forall>c \<in> set ?k. pc_collection c = AuditCheckpoints" by (auto simp: checkpoint_commands_def split: option.splits)
  have h: "log_ok L" "holds (state_type env) ?m (state_values L)" "holds (event_type env) ?m (event_values L)"
      "holds (checkpoint_type env) ?m (checkpoint_values L)" "holds (replay_type env) ?m (replay_values L)"
    using rows by (simp_all add: audit_rows_def)
  have n: "n = length L" by (rule state_guard [OF h(2)]) (use guards cs in simp)
  have "holds (state_type env) (apply_effect now ?c1 ?m) (state_values (L @ [x]))"
    unfolding n by (rule state_saved [OF h(2) _ now p(1)]) (use ok n in \<open>simp add: item_ok_def\<close>)
  then have s: "holds (state_type env) (map_of (db_records db')) (state_values (L @ [x]))"
    unfolding after cs using holds_others [of "state_type env" _ _ "?c2 # ?k @ [?c4]" now] k by (simp add: state_type_def)
  have e: "holds (event_type env) (map_of (db_records db')) (event_values (L @ [x]))"
    using holds_added [OF h(3), of "[?c1]" "?k @ [?c4]" now "to_event_record (lg_event x)" p2 key] guards k p(2) now
    unfolding after cs by (simp add: event_type_def event_values_def to_event_record_def)
  have c: "holds (checkpoint_type env) (map_of (db_records db')) (checkpoint_values (L @ [x]))"
    using checkpoints_saved [OF h(4), of "[?c1, ?c2]" "[?c4]" now x key p3] guards p(3) now unfolding after cs by simp
  have r: "holds (replay_type env) (map_of (db_records db')) (replay_values (L @ [x]))"
    using holds_added [OF h(5), of "[?c1, ?c2] @ ?k" "[]" now "replay_value x" p4 key] guards k p(4) now
    unfolding after cs by (simp add: replay_type_def replay_values_def replay_value_def)
  have "distinct (map (ev_event_id \<circ> lg_event) (L @ [x]))" "distinct (map lg_replay (L @ [x]))"
    using e r by (simp_all add: holds_def event_values_def replay_values_def event_type_def replay_type_def replay_value_def
        to_event_record_def o_def image_image)
  then have "log_ok (L @ [x])" using h(1) ok n \<open>Suc n < 2 ^ 63\<close> by (simp add: log_ok_snoc)
  with s e c r n assms(7) show ?thesis by (simp add: audit_rows_def)
qed

end
