(* ===== verification/AuditRuns.thy ===== *)
theory AuditRuns
  imports AuditRows
begin

text \<open>
  The operations of the audit manager while other threads and processes append. The state of the audit
  collections is a log (\<open>audit_state\<close>); the others extend the log between any two accesses
  (\<open>others_append\<close>). The judgement \<open>keeps\<close> says what a run does under this interference: it extends the
  log too, and what it returns is true of the log at some moment of the run. The rules for the run
  combinators carry the proofs for the store and the manager.
\<close>

section \<open>The log and its growth\<close>

text \<open>Every replay identity of the database that belongs to the audit log has its item.\<close>

definition replay_keys :: "database \<Rightarrow> log_item list \<Rightarrow> bool" where
  "replay_keys db L \<longleftrightarrow> (\<forall>i. map_of (db_replays db) (''audit:'' @ i) \<noteq> None \<longrightarrow> i \<in> lg_replay ` set L)"

text \<open>
  The database has the well-formed log \<open>L\<close>; \<open>sealed\<close> says that its chain also has to verify. The rules below
  hold for both, so that what needs a verified chain is told apart from what does not.
\<close>

definition audit_state :: "bool \<Rightarrow> audit_env \<Rightarrow> database \<Rightarrow> log_item list \<Rightarrow> bool" where
  "audit_state sealed env db L \<longleftrightarrow> audit_rows env db L \<and> replay_keys db L
     \<and> (sealed \<longrightarrow> (\<exists>h. verified (av_manager env) (map lg_entry L) h))"

definition others_append :: "bool \<Rightarrow> audit_env \<Rightarrow> audit_world \<Rightarrow> bool" where
  "others_append sealed env w \<longleftrightarrow>
     (\<forall>k db L. audit_state sealed env db L \<longrightarrow> (\<exists>L'. prefix L L' \<and> audit_state sealed env (aw_others w k db) L'))"

definition logged :: "bool \<Rightarrow> audit_env \<Rightarrow> log_item list \<Rightarrow> nat \<times> database \<Rightarrow> bool" where
  "logged sealed env L s \<longleftrightarrow> (\<exists>L'. prefix L L' \<and> audit_state sealed env (snd s) L')"

definition keeps :: "bool \<Rightarrow> audit_env \<Rightarrow> log_item list \<Rightarrow> ('e, 'a) run \<Rightarrow> (log_item list \<Rightarrow> 'a \<Rightarrow> bool) \<Rightarrow> bool" where
  "keeps sealed env L m Q \<longleftrightarrow> (\<forall>s r s'. logged sealed env L s \<longrightarrow> m s = (r, s') \<longrightarrow>
     logged sealed env L s' \<and> (\<forall>x. r = Inr x \<longrightarrow> (\<exists>L'. prefix L L' \<and> logged sealed env L' s' \<and> Q L' x)))"

lemma logged_mono: "logged sealed env L' s \<Longrightarrow> prefix L L' \<Longrightarrow> logged sealed env L s"
  unfolding logged_def by (meson prefix_order.trans)

lemma logged_ok: "logged sealed env L s \<Longrightarrow> log_ok L"
  by (auto simp: logged_def audit_state_def audit_rows_def intro: log_ok_prefix)

lemma keepsI:
  assumes "\<And>s r s'. logged sealed env L s \<Longrightarrow> m s = (r, s') \<Longrightarrow> logged sealed env L s'"
    and "\<And>s x s'. logged sealed env L s \<Longrightarrow> m s = (Inr x, s') \<Longrightarrow> \<exists>L'. prefix L L' \<and> logged sealed env L' s' \<and> Q L' x"
  shows "keeps sealed env L m Q"
  using assms unfolding keeps_def by blast

lemma keeps_logged: "keeps sealed env L m Q \<Longrightarrow> logged sealed env L s \<Longrightarrow> m s = (r, s') \<Longrightarrow> logged sealed env L s'"
  unfolding keeps_def by blast

lemma keeps_result:
  assumes "keeps sealed env L m Q" and "logged sealed env L s" and "m s = (Inr x, s')"
  obtains L' where "prefix L L'" "logged sealed env L' s'" "Q L' x"
  using assms unfolding keeps_def by blast

lemma keeps_handle:
  assumes m: "keeps sealed env L m M" and f: "\<And>x L'. prefix L L' \<Longrightarrow> M L' x \<Longrightarrow> keeps sealed env L' (f x) Q" and g: "\<And>e. keeps sealed env L (g e) Q"
  shows "keeps sealed env L (run_handle m f g) Q"
proof (rule keepsI)
  fix s r s'
  assume s: "logged sealed env L s" "run_handle m f g s = (r, s')"
  obtain q t where t: "m s = (q, t)" by (metis surj_pair)
  show "logged sealed env L s'"
  proof (cases q)
    case (Inl e)
    with s(2) t have "g e t = (r, s')" by (simp add: run_handle_def)
    with g keeps_logged [OF m s(1) t] show ?thesis by (blast dest: keeps_logged)
  next
    case (Inr y)
    with s(2) t have run: "f y t = (r, s')" by (simp add: run_handle_def)
    from keeps_result [OF m s(1) t [unfolded Inr]] obtain L' where L': "prefix L L'" "logged sealed env L' t" "M L' y" by blast
    from keeps_logged [OF f [OF L'(1,3)] L'(2) run] L'(1) show ?thesis by (rule logged_mono)
  qed
next
  fix s x s'
  assume s: "logged sealed env L s" "run_handle m f g s = (Inr x, s')"
  obtain q t where t: "m s = (q, t)" by (metis surj_pair)
  show "\<exists>L'. prefix L L' \<and> logged sealed env L' s' \<and> Q L' x"
  proof (cases q)
    case (Inl e)
    with s(2) t have "g e t = (Inr x, s')" by (simp add: run_handle_def)
    from keeps_result [OF g keeps_logged [OF m s(1) t] this] show ?thesis by blast
  next
    case (Inr y)
    with s(2) t have run: "f y t = (Inr x, s')" by (simp add: run_handle_def)
    from keeps_result [OF m s(1) t [unfolded Inr]] obtain L' where L': "prefix L L'" "logged sealed env L' t" "M L' y" by blast
    from keeps_result [OF f [OF L'(1,3)] L'(2) run] obtain M' where "prefix L' M'" "logged sealed env M' s'" "Q M' x" by blast
    with prefix_order.trans [OF L'(1)] show ?thesis by blast
  qed
qed

lemma keeps_lift: "(\<And>x. r = Inr x \<Longrightarrow> Q L x) \<Longrightarrow> keeps sealed env L (run_lift r) Q"
  by (auto simp: keeps_def run_lift_def)

lemma keeps_bind:
  assumes "keeps sealed env L m M" and "\<And>x L'. prefix L L' \<Longrightarrow> M L' x \<Longrightarrow> keeps sealed env L' (f x) Q"
  shows "keeps sealed env L (run_bind m f) Q"
proof -
  have "run_bind m f = run_handle m f (\<lambda>e. run_lift (Inl e))"
    by (rule ext) (simp add: run_bind_def run_handle_def run_lift_def split: prod.splits sum.splits)
  then show ?thesis by (simp only:) (rule keeps_handle [OF assms], auto intro: keeps_lift)
qed

lemma keeps_bind_lift: "(\<And>x. r = Inr x \<Longrightarrow> keeps sealed env L (f x) Q) \<Longrightarrow> keeps sealed env L (run_bind (run_lift r) f) Q"
  by (rule keeps_bind [where M = "\<lambda>L' x. r = Inr x \<and> L' = L"]) (auto intro: keeps_lift)

lemma keeps_err: "keeps sealed env L m Q \<Longrightarrow> keeps sealed env L (run_err f m) Q"
  by (auto simp: keeps_def run_err_def map_err_def split: prod.splits sum.splits)

lemma keeps_mono:
  assumes "keeps sealed env L m Q" and "\<And>L' x. prefix L L' \<Longrightarrow> log_ok L' \<Longrightarrow> Q L' x \<Longrightarrow> R L' x"
  shows "keeps sealed env L m R"
proof (rule keepsI)
  fix s x s'
  assume "logged sealed env L s" "m s = (Inr x, s')"
  with assms(1) obtain L' where "prefix L L'" "logged sealed env L' s'" "Q L' x" by (rule keeps_result)
  with assms(2) logged_ok show "\<exists>L'. prefix L L' \<and> logged sealed env L' s' \<and> R L' x" by blast
qed (rule keeps_logged [OF assms(1)])

text \<open>What holds of the log at an earlier moment of the run may be said of that moment.\<close>

lemma keeps_earlier:
  assumes "keeps sealed env L m (\<lambda>L' x. \<exists>M. prefix L M \<and> prefix M L' \<and> Q M x)"
  shows "keeps sealed env L m Q"
proof (rule keepsI)
  fix s x s'
  assume "logged sealed env L s" "m s = (Inr x, s')"
  with assms obtain L' where "prefix L L'" "logged sealed env L' s'" "\<exists>M. prefix L M \<and> prefix M L' \<and> Q M x" by (rule keeps_result)
  then show "\<exists>L'. prefix L L' \<and> logged sealed env L' s' \<and> Q L' x" by (blast dest: logged_mono)
qed (rule keeps_logged [OF assms])

text \<open>An access sees the log that the others left, and must leave a log that extends it.\<close>

lemma keeps_access:
  assumes "others_append sealed env w"
    and "\<And>io db r db' L'. prefix L L' \<Longrightarrow> audit_state sealed env db L' \<Longrightarrow> f io db = (r, db') \<Longrightarrow>
      \<exists>L''. prefix L' L'' \<and> audit_state sealed env db' L'' \<and> (\<forall>x. r = Inr x \<longrightarrow> Q L'' x)"
  shows "keeps sealed env L (access w f) Q"
  unfolding keeps_def
proof (intro allI impI)
  fix s r s'
  assume s: "logged sealed env L s" "access w f s = (r, s')"
  then obtain L0 where L0: "prefix L L0" "audit_state sealed env (snd s) L0" by (auto simp: logged_def)
  with assms(1) obtain L1 where L1: "prefix L0 L1" "audit_state sealed env (aw_others w (fst s) (snd s)) L1"
    unfolding others_append_def by blast
  have step: "f (aw_io w (fst s)) (aw_others w (fst s) (snd s)) = (r, snd s')"
    using s(2) by (auto simp: access_def split: prod.splits)
  have "prefix L L1" using L0(1) L1(1) by (rule prefix_order.trans)
  from assms(2) [OF this L1(2) step] this obtain L2 where "prefix L L2" "audit_state sealed env (snd s') L2" "\<forall>x. r = Inr x \<longrightarrow> Q L2 x"
    by (meson prefix_order.trans)
  then have "logged sealed env L s'" "logged sealed env L2 s'" "prefix L L2" "\<forall>x. r = Inr x \<longrightarrow> Q L2 x" by (auto simp: logged_def)
  then show "logged sealed env L s' \<and> (\<forall>x. r = Inr x \<longrightarrow> (\<exists>L'. prefix L L' \<and> logged sealed env L' s' \<and> Q L' x))" by blast
qed

lemma keeps_read:
  assumes "others_append sealed env w"
    and "\<And>io db x L'. prefix L L' \<Longrightarrow> audit_state sealed env db L' \<Longrightarrow> f io db = Inr x \<Longrightarrow> Q L' x"
  shows "keeps sealed env L (access_read w f) Q"
  unfolding access_read_def by (rule keeps_access [OF assms(1)]) (use assms(2) in auto)

section \<open>Reading\<close>

lemma records_read:
  assumes "others_append sealed env w" and "\<And>db L'. audit_state sealed env db L' \<Longrightarrow> holds rt (map_of (db_records db)) (vals L')"
  shows "keeps sealed env L (database_records w rt) (\<lambda>L' sts. mset (map view sts) = mset (vals L') \<and> log_ok L')"
  unfolding database_records_def
proof (rule keeps_read [OF assms(1)])
  fix io db x L'
  assume "audit_state sealed env db L'" "map_err database_store_error (read_all_records rt io db) = Inr x"
  then show "mset (map view x) = mset (vals L') \<and> log_ok L'"
    using read_all_holds [OF _ assms(2)] by (auto simp: audit_state_def audit_rows_def map_err_def split: sum.splits)
qed

lemma state_holds:
  assumes "audit_state sealed env db L"
  shows "holds (state_type env) (map_of (db_records db)) (state_values L)"
    and "holds (event_type env) (map_of (db_records db)) (event_values L)"
    and "holds (checkpoint_type env) (map_of (db_records db)) (checkpoint_values L)"
    and "holds (replay_type env) (map_of (db_records db)) (replay_values L)"
  using assms by (simp_all add: audit_state_def audit_rows_def)

text \<open>A ledger that is read successfully is the ledger of the log at one moment.\<close>

lemma store_ledger_keeps:
  assumes "others_append sealed env w"
  shows "keeps sealed env L (store_ledger env w) (\<lambda>L' l. l = ledger_of L' \<and> log_ok L')"
  unfolding store_ledger_def
proof (rule keeps_earlier, rule keeps_bind, rule records_read [OF assms], erule state_holds(1),
    rule keeps_bind, rule records_read [OF assms], erule state_holds(2),
    rule keeps_bind, rule records_read [OF assms], erule state_holds(3),
    rule keeps_bind, rule records_read [OF assms], erule state_holds(4), rule keeps_lift)
  fix states L0 events L1 checkpoints L2 replays L3 l
  assume "prefix L L0" "mset (map view states) = mset (state_values L0) \<and> log_ok L0"
    "prefix L0 L1" "mset (map view events) = mset (event_values L1) \<and> log_ok L1"
    "prefix L1 L2" "mset (map view checkpoints) = mset (checkpoint_values L2) \<and> log_ok L2"
    "prefix L2 L3" "assemble_ledger states events checkpoints replays = Inr l"
  then show "\<exists>M. prefix L M \<and> prefix M L3 \<and> l = ledger_of M \<and> log_ok M"
    using assembled_ledger [of L2 L0 L1 states events checkpoints replays l] by (meson prefix_order.trans)
qed

lemma same_event:
  "log_ok L \<Longrightarrow> x \<in> set L \<Longrightarrow> y \<in> set L \<Longrightarrow> ev_event_id (lg_event x) = ev_event_id (lg_event y) \<Longrightarrow> x = y"
  by (auto simp: log_ok_def distinct_map inj_on_def)

lemma same_replay: "log_ok L \<Longrightarrow> x \<in> set L \<Longrightarrow> y \<in> set L \<Longrightarrow> lg_replay x = lg_replay y \<Longrightarrow> x = y"
  by (auto simp: log_ok_def distinct_map inj_on_def)

lemma store_entry_keeps:
  assumes "others_append sealed env w"
  shows "keeps sealed env L (store_entry env w event_id) (\<lambda>L' found. log_ok L' \<and> (\<forall>entry revision. found = Some (entry, revision) \<longrightarrow>
    (\<exists>x \<in> set L'. lg_entry x = entry \<and> ev_event_id (lg_event x) = event_id)))"
  unfolding store_entry_def
proof (rule keeps_bind, rule store_ledger_keeps [OF assms], rule keeps_lift)
  fix l L' found
  assume l: "l = ledger_of L' \<and> log_ok L'"
    and found: "Inr (map_option (\<lambda>x. (x, al_revision l)) (find (\<lambda>x. ev_event_id (le_event x) = event_id) (al_entries l))) = Inr found"
  have "entry \<in> lg_entry ` set L' \<and> ev_event_id (le_event entry) = event_id" if "found = Some (entry, revision)" for entry revision
    using that found l by (auto simp: find_Some_iff)
  with l show "log_ok L' \<and> (\<forall>entry revision. found = Some (entry, revision) \<longrightarrow>
      (\<exists>x \<in> set L'. lg_entry x = entry \<and> ev_event_id (lg_event x) = event_id))" by blast
qed

lemma read_one_holds:
  assumes "holds rt (map_of (db_records db)) vs"
  shows "read_one_record rt io i db = Inr st \<Longrightarrow> view st \<in> set vs"
    and "read_one_record rt io i db = Inl (NotFound c j) \<Longrightarrow> i \<notin> (rt_identifier rt \<circ> fst) ` set vs"
proof -
  assume "read_one_record rt io i db = Inr st"
  then obtain row where row: "map_of (db_records db) (rt_collection rt, i) = Some row" "decode_record rt i row = Inr st"
    by (auto simp: read_one_record_def result_simps split: if_splits)
  from holds_row [OF assms row(1)] row(2) show "view st \<in> set vs" by (auto simp: stored_def)
next
  assume "read_one_record rt io i db = Inl (NotFound c j)"
  then have "map_of (db_records db) (rt_collection rt, i) = None"
    by (auto simp: read_one_record_def decode_record_def validate_identifier_def revision_from_sql_def valid_timestamp_def sql_def
        database_error_def bind_result_def of_option_def ensure_def split: if_splits sum.splits option.splits sqlite_code.splits)
  with assms show "i \<notin> (rt_identifier rt \<circ> fst) ` set vs" by (simp add: holds_def)
qed

definition replay_of :: "log_item list \<Rightarrow> string \<Rightarrow> replay_receipt \<Rightarrow> bool" where
  "replay_of L replay_id rp \<longleftrightarrow>
     (\<exists>x \<in> set L. lg_replay x = replay_id \<and> lg_digest x = rp_request_sha256 rp \<and> lg_entry x = rp_entry rp)"

lemma replay_from_record_keeps:
  assumes "others_append sealed env w" and "x \<in> set L" and "st_value s = replay_value x"
  shows "keeps sealed env L (replay_from_record env w replay_id s) (\<lambda>L' rp. replay_of L' replay_id rp)"
  unfolding replay_from_record_def
proof (rule keeps_bind_lift, rule keeps_bind_lift, rule keeps_bind_lift, rule keeps_bind, rule store_entry_keeps [OF assms(1)], rule keeps_lift)
  fix u digest event_id found L' rp
  assume eq: "ensure (st_revision s = 1 \<and> rr_replay_id (st_value s) = replay_id) AuditCorrupt = Inr u"
    "parse_corrupt (\<lambda>v. is_sha256_digest v) (rr_request_sha256 (st_value s)) = Inr digest"
    "parse_corrupt is_audit_event_id (rr_event_id (st_value s)) = Inr event_id" and "prefix L L'"
    and entry: "log_ok L' \<and> (\<forall>entry revision. found = Some (entry, revision) \<longrightarrow>
      (\<exists>x \<in> set L'. lg_entry x = entry \<and> ev_event_id (lg_event x) = event_id))"
    and run: "bind_result (of_option AuditCorrupt found) (\<lambda>(entry, revision).
       if ev_sequence (le_event entry) \<noteq> rr_sequence (st_value s) then Inl AuditCorrupt
       else Inr \<lparr>rp_request_sha256 = digest, rp_entry = entry, rp_revision = revision\<rparr>) = Inr rp"
  have x: "x \<in> set L'" "lg_replay x = replay_id" "lg_digest x = digest" "ev_event_id (lg_event x) = event_id"
    using assms(2,3) eq set_mono_prefix [OF \<open>prefix L L'\<close>] by (auto simp: replay_value_def parse_corrupt_def result_simps split: if_splits)
  from run obtain entry revision where found: "found = Some (entry, revision)" "rp_entry rp = entry" "rp_request_sha256 rp = digest"
    by (auto simp: result_simps split: if_splits)
  with entry obtain y where "y \<in> set L'" "lg_entry y = entry" "ev_event_id (lg_event y) = event_id" by blast
  with same_event [of L' y x] entry x found show "replay_of L' replay_id rp" by (auto simp: replay_of_def)
qed

lemma store_replay_keeps:
  assumes "others_append sealed env w"
  shows "keeps sealed env L (store_replay env w replay_id) (\<lambda>L' found.
    case found of None \<Rightarrow> replay_id \<notin> lg_replay ` set L' | Some rp \<Rightarrow> replay_of L' replay_id rp)"
  unfolding store_replay_def
proof (rule keeps_bind)
  show "keeps sealed env L (access_read w (read_replay env replay_id)) (\<lambda>L' found. case found of
      None \<Rightarrow> replay_id \<notin> lg_replay ` set L' | Some s \<Rightarrow> \<exists>x \<in> set L'. st_value s = replay_value x)"
  proof (rule keeps_read [OF assms])
    fix io db found L'
    assume "audit_state sealed env db L'" and run: "read_replay env replay_id io db = Inr found"
    note one = read_one_holds [OF state_holds(4) [OF this(1)]]
    show "case found of None \<Rightarrow> replay_id \<notin> lg_replay ` set L' | Some s \<Rightarrow> \<exists>x \<in> set L'. st_value s = replay_value x"
    proof (cases found)
      case None
      with run obtain c j where "read_one_record (replay_type env) io replay_id db = Inl (NotFound c j)"
        by (auto simp: read_replay_def split: sum.splits db_error.splits)
      from one(2) [OF this] None show ?thesis by (auto simp: replay_values_def replay_type_def replay_value_def image_image)
    next
      case (Some st)
      with run have "read_one_record (replay_type env) io replay_id db = Inr st"
        by (auto simp: read_replay_def split: sum.splits db_error.splits)
      from one(1) [OF this] Some show ?thesis by (auto simp: replay_values_def)
    qed
  qed
next
  fix found :: "replay_record stored_record option" and L1
  assume found: "case found of None \<Rightarrow> replay_id \<notin> lg_replay ` set L1 | Some s \<Rightarrow> \<exists>x \<in> set L1. st_value s = replay_value x"
  show "keeps sealed env L1 (case found of None \<Rightarrow> run_lift (Inr None)
       | Some s \<Rightarrow> run_bind (replay_from_record env w replay_id s) (\<lambda>receipt. run_lift (Inr (Some receipt))))
     (\<lambda>L' found. case found of None \<Rightarrow> replay_id \<notin> lg_replay ` set L' | Some rp \<Rightarrow> replay_of L' replay_id rp)"
  proof (cases found)
    case None
    with found show ?thesis by (auto intro: keeps_lift)
  next
    case (Some s)
    with found obtain x where "x \<in> set L1" "st_value s = replay_value x" by auto
    then show ?thesis unfolding Some option.case
      by (rule keeps_bind [OF replay_from_record_keeps [OF assms]]) (auto intro: keeps_lift)
  qed
qed

section \<open>Appending to the store\<close>

lemma execute_transaction_repeats:
  "execute_transaction cd io key cs db = (Inr (commits, False), db') \<Longrightarrow> map_of (db_replays db) key \<noteq> None"
  by (auto simp: execute_transaction_def idempotent_value_def Let_def bind_result_def of_option_def
      split: sum.splits option.splits if_splits prod.splits)

text \<open>An item that may follow a log; whether its event identity is new is left to the database.\<close>

definition fits :: "bool \<Rightarrow> audit_env \<Rightarrow> log_item list \<Rightarrow> log_item \<Rightarrow> bool" where
  "fits sealed env L x \<longleftrightarrow> item_ok (Suc (length L)) x \<and> Suc (length L) < 2 ^ 63
     \<and> (sealed \<longrightarrow> ev_event_id (lg_event x) \<notin> (ev_event_id \<circ> lg_event) ` set L \<longrightarrow>
          (\<exists>h. verified (av_manager env) (map lg_entry (L @ [x])) h))"

lemma append_transaction_key: "append_transaction env n i d e = Inr tx \<Longrightarrow> fst tx = ''audit:'' @ i"
  by (rule append_transaction_Inr [of env n "\<lparr>lg_entry = e, lg_replay = i, lg_digest = d\<rparr>"]) auto

text \<open>A transaction that is applied adds the item to the log it was made for; any other answer changes nothing.\<close>

lemma write_not_applied:
  assumes "database_write_transaction cd io tx db = (r, db')" and "\<And>commits. r \<noteq> Inr (commits, Applied)"
  shows "db' = db" and "r = Inr y \<Longrightarrow> map_of (db_replays db) (fst tx) \<noteq> None"
proof -
  obtain e db1 where ex: "execute_transaction cd io (fst tx) (snd tx) db = (e, db1)" by (metis surj_pair)
  then have "db' = db \<and> (\<forall>y. r = Inr y \<longrightarrow> map_of (db_replays db) (fst tx) \<noteq> None)"
  proof (cases rule: execute_transaction_cases)
    case same
    with ex assms show ?thesis
      by (auto simp: database_write_transaction_def run_transaction_def disposition_of_def dest: execute_transaction_repeats
          split: if_splits sum.splits)
  next
    case (new now json)
    with ex assms show ?thesis
      by (auto simp: database_write_transaction_def run_transaction_def disposition_of_def split: if_splits)
  qed
  then show "db' = db" and "r = Inr y \<Longrightarrow> map_of (db_replays db) (fst tx) \<noteq> None" by blast+
qed

lemma write_applied:
  assumes json: "json_ok env" and tx: "append_transaction env (length L) (lg_replay x) (lg_digest x) (lg_entry x) = Inr tx"
    and fits: "fits sealed env L x" and pre: "prefix L L'" and state: "audit_state sealed env db L'"
    and run: "database_write_transaction cd io tx db = (Inr (commits, Applied), db')"
  shows "L' = L \<and> audit_state sealed env db' (L @ [x])"
proof -
  obtain e db1 where ex: "execute_transaction cd io (fst tx) (snd tx) db = (e, db1)" by (metis surj_pair)
  with run have e: "e = Inr (commits, True)" and db': "db_records db' = db_records db1" "db_replays db' = db_replays db1"
    by (auto simp: database_write_transaction_def run_transaction_def disposition_of_def split: if_splits sum.splits prod.splits)
  from ex show ?thesis
  proof (cases rule: execute_transaction_cases)
    case same
    with e show ?thesis by blast
  next
    case (new now json)
    have rows: "audit_rows env db L'" using state by (simp add: audit_state_def)
    have "length L = length L' \<and> audit_rows env db' (L' @ [x])"
      by (rule append_rows [OF rows \<open>json_ok env\<close> tx new(6,3)])
        (use new db' rows fits in \<open>auto simp: audit_rows_def fits_def\<close>)
    with pre have "L' = L" and new_rows: "audit_rows env db' (L @ [x])" by (auto simp: prefix_def)
    then have "ev_event_id (lg_event x) \<notin> (ev_event_id \<circ> lg_event) ` set L" by (simp add: audit_rows_def log_ok_snoc)
    with fits have "sealed \<longrightarrow> (\<exists>h. verified (av_manager env) (map lg_entry (L @ [x])) h)" by (simp add: fits_def)
    moreover have "replay_keys db' (L @ [x])"
      using state new(9) db' append_transaction_key [OF tx] \<open>L' = L\<close> by (auto simp: audit_state_def replay_keys_def split: if_splits)
    ultimately show ?thesis using new_rows \<open>L' = L\<close> by (simp add: audit_state_def)
  qed
qed

lemma append_write:
  assumes json: "json_ok env" and tx: "append_transaction env (length L) (lg_replay x) (lg_digest x) (lg_entry x) = Inr tx"
    and fits: "fits sealed env L x" and pre: "prefix L L'" and state: "audit_state sealed env db L'"
    and run: "database_write_transaction cd io tx db = (r, db')"
  shows "\<exists>L''. prefix L' L'' \<and> audit_state sealed env db' L''
    \<and> (\<forall>y. r = Inr y \<longrightarrow> (snd y = Applied \<longrightarrow> x \<in> set L'') \<and> lg_replay x \<in> lg_replay ` set L'')"
proof (cases "\<exists>commits. r = Inr (commits, Applied)")
  case False
  note same = write_not_applied [OF run]
  from False same state have "\<forall>y. r = Inr y \<longrightarrow> lg_replay x \<in> lg_replay ` set L'"
    using append_transaction_key [OF tx] unfolding audit_state_def replay_keys_def by metis
  moreover have "db' = db" using same(1) False by blast
  ultimately show ?thesis using state False by (intro exI [of _ L']) (auto simp: prod_eq_iff)
next
  case True
  then obtain commits where r: "r = Inr (commits, Applied)" by blast
  from write_applied [OF json tx fits pre state run [unfolded r]] r show ?thesis by (intro exI [of _ "L @ [x]"]) auto
qed

definition appended :: "log_item \<Rightarrow> log_item list \<Rightarrow> append_receipt \<Rightarrow> bool" where
  "appended x L rc \<longleftrightarrow> lg_replay x \<in> lg_replay ` set L \<and> (rc_disposition rc = AppendApplied \<longrightarrow> rc_entry rc = lg_entry x \<and> x \<in> set L)"

lemma replayed_appended: "replay_of L (lg_replay x) rp \<Longrightarrow> replayed_receipt digest rp = Inr rc \<Longrightarrow> appended x L rc"
  by (auto simp: replayed_receipt_def replay_of_def appended_def intro: rev_image_eqI split: if_splits)

lemma replay_after_collision_keeps:
  assumes "others_append sealed env w"
  shows "keeps sealed env L (replay_after_collision env w (lg_replay x) digest) (appended x)"
  unfolding replay_after_collision_def
proof (rule keeps_bind, rule store_replay_keeps [OF assms], rule keeps_lift)
  fix found L' rc
  assume "case found of None \<Rightarrow> lg_replay x \<notin> lg_replay ` set L' | Some rp \<Rightarrow> replay_of L' (lg_replay x) rp"
    "bind_result (of_option AuditReplayConflict found) (replayed_receipt digest) = Inr rc"
  then show "appended x L' rc" by (auto simp: result_simps dest: replayed_appended)
qed

lemma store_append_keeps:
  assumes others: "others_append sealed env w" and json: "json_ok env" and fits: "fits sealed env L x"
  shows "keeps sealed env L (store_append env w (length L) (lg_replay x) (lg_digest x) (lg_entry x)) (appended x)"
  unfolding store_append_def
proof (rule keeps_bind, rule store_replay_keeps [OF others])
  fix found :: "replay_receipt option" and L1
  let ?step = "\<lambda>tx. run_handle (access w (\<lambda>io db. database_write_transaction (av_codec env) io tx db))
             (\<lambda>(commits, d). run_lift (Inr \<lparr>rc_request_sha256 = lg_digest x, rc_entry = lg_entry x,
                rc_disposition = disposition_receipt d, rc_revision = length L + 1\<rparr>))
             (\<lambda>e. case e of
                IdempotencyConflict _ \<Rightarrow> replay_after_collision env w (lg_replay x) (lg_digest x)
              | _ \<Rightarrow> run_lift (Inl (database_store_error e)))"
  assume L1: "prefix L L1" and found: "case found of None \<Rightarrow> lg_replay x \<notin> lg_replay ` set L1 | Some rp \<Rightarrow> replay_of L1 (lg_replay x) rp"
  have "keeps sealed env L1 (?step tx) (appended x)" if tx: "append_transaction env (length L) (lg_replay x) (lg_digest x) (lg_entry x) = Inr tx" for tx
  proof (rule keeps_handle)
    show "keeps sealed env L1 (access w (\<lambda>io db. database_write_transaction (av_codec env) io tx db))
      (\<lambda>L' y. (snd y = Applied \<longrightarrow> x \<in> set L') \<and> lg_replay x \<in> lg_replay ` set L')"
      by (rule keeps_access [OF others], rule append_write [OF json tx fits prefix_order.trans [OF L1]])
  qed (auto simp: appended_def disposition_receipt_def intro!: keeps_lift replay_after_collision_keeps [OF others]
      split: disposition.splits db_error.splits)
  then show "keeps sealed env L1 (case found of
       Some replay \<Rightarrow> run_lift (replayed_receipt (lg_digest x) replay)
     | None \<Rightarrow>
         if ev_sequence (le_event (lg_entry x)) \<noteq> saturating_add64 (length L) 1 then run_lift (Inl AuditCorrupt)
         else run_bind (run_lift (append_transaction env (length L) (lg_replay x) (lg_digest x) (lg_entry x))) ?step) (appended x)"
    using found by (auto intro!: keeps_lift keeps_bind_lift dest: replayed_appended split: option.splits)
qed

section \<open>The next entry\<close>

text \<open>What the types of the code guarantee of a request and of the answers of the providers.\<close>

definition request_ok :: "audit_request \<Rightarrow> bool" where
  "request_ok r \<longleftrightarrow> is_audit_replay_id (aq_replay_id r) \<and> is_audit_event_id (aq_correlation_id r)
     \<and> is_audit_actor_id (ac_identifier (aq_actor r)) \<and> is_lower_hex (ao_node_id (aq_origin r)) 32
     \<and> is_technical_name (aq_action r) \<and> is_audit_target (aq_target r)
     \<and> case_option True is_sha256_digest (aq_before r) \<and> case_option True is_sha256_digest (aq_after r)
     \<and> case_option True is_technical_name (aq_reason r)"

definition providers_ok :: "audit_env \<Rightarrow> audit_world \<Rightarrow> bool" where
  "providers_ok env w \<longleftrightarrow> is_lower_hex (am_node_id (av_manager env)) 32
     \<and> (\<forall>bytes signature. am_sign (av_manager env) bytes = Inr signature \<longrightarrow> am_verify (av_manager env) bytes signature = Inr True)
     \<and> (\<forall>i. aw_event_id w = Inr i \<longrightarrow> is_audit_event_id i) \<and> (\<forall>n t. aw_now w n = Inr t \<longrightarrow> is_audit_timestamp t)"

text \<open>
  The system clock did not step back between the timestamp of the event and that of a checkpoint. This is
  not promised by the clock: it is asked for only where a chain has to verify.
\<close>

definition clock_steady :: "audit_world \<Rightarrow> bool" where
  "clock_steady w \<longleftrightarrow> (\<forall>n t u. aw_now w 0 = Inr t \<longrightarrow> aw_now w (Suc n) = Inr u \<longrightarrow> t \<le> u)"

lemma label_back [simp]:
  "actor_type (actor_type_str k) = Inr k" "origin_interface (origin_interface_str i) = Inr i" "outcome (outcome_str v) = Inr v"
proof -
  show "actor_type (actor_type_str k) = Inr k" by (cases k; simp add: actor_type_def)
  show "origin_interface (origin_interface_str i) = Inr i" by (cases i; simp add: origin_interface_def)
  show "outcome (outcome_str v) = Inr v" by (cases v; simp add: outcome_def)
qed

lemma parse_corrupt_back: "valid v \<Longrightarrow> parse_corrupt valid v = Inr v"
  by (simp add: parse_corrupt_def)

lemma parse_corrupt_option_back: "case_option True valid v \<Longrightarrow> parse_corrupt_option valid v = Inr v"
  by (cases v) (simp_all add: parse_corrupt_option_def parse_corrupt_def)

lemma genesis_digest: "is_sha256_digest AUDIT_GENESIS_HASH"
  by code_simp

lemma chained_event_Inr:
  assumes "chained_event am n i t node r previous = Inr e"
  shows "event_sha256 am e = Inr (ev_event_hash e)" and "is_sha256_digest (ev_event_hash e)" and "event_from_persisted e = Inr e"
    and "e = unsigned_event n i t node r previous (ev_event_hash e)"
proof -
  from assms obtain h where h: "event_sha256 am (unsigned_event n i t node r previous AUDIT_GENESIS_HASH) = Inr h"
    "event_from_persisted (unsigned_event n i t node r previous h) = Inr e"
    by (auto simp: chained_event_def event_from_persisted_def result_simps split: if_splits)
  then have e: "e = unsigned_event n i t node r previous h" by (auto simp: event_from_persisted_def split: if_splits)
  then have "event_sha256 am e = event_sha256 am (unsigned_event n i t node r previous AUDIT_GENESIS_HASH)"
    by (simp add: event_sha256_def canonical_event_bytes_def event_fields_def unsigned_event_def)
  with h e show "event_sha256 am e = Inr (ev_event_hash e)" by (simp add: unsigned_event_def)
  then show "is_sha256_digest (ev_event_hash e)" by (auto simp: event_sha256_def sha256_text_def result_simps)
  show "event_from_persisted e = Inr e" using h(2) e by simp
  show "e = unsigned_event n i t node r previous (ev_event_hash e)" using e by (simp add: unsigned_event_def)
qed

lemma event_eta:
  "\<lparr>ev_sequence = ev_sequence e, ev_event_id = ev_event_id e, ev_correlation_id = ev_correlation_id e, ev_timestamp = ev_timestamp e,
    ev_node_id = ev_node_id e, ev_actor = \<lparr>ac_kind = ac_kind (ev_actor e), ac_identifier = ac_identifier (ev_actor e)\<rparr>,
    ev_origin = \<lparr>ao_node_id = ao_node_id (ev_origin e), ao_interface = ao_interface (ev_origin e)\<rparr>, ev_action = ev_action e,
    ev_target = ev_target e, ev_before = ev_before e, ev_after = ev_after e, ev_outcome = ev_outcome e, ev_reason = ev_reason e,
    ev_previous_hash = ev_previous_hash e, ev_event_hash = ev_event_hash e\<rparr> = e"
  by (cases e; cases "ev_actor e"; cases "ev_origin e") simp

lemma event_round_trip:
  assumes "chained_event am n i t node r previous = Inr e" and "request_ok r" and "is_audit_event_id i" and "is_audit_timestamp t"
    and "is_lower_hex node 32" and "is_sha256_digest previous"
  shows "event_from_record (to_event_record e) = Inr e"
proof -
  note e = chained_event_Inr [OF assms(1)]
  have f: "ev_event_id e = i" "ev_correlation_id e = aq_correlation_id r" "ev_timestamp e = t" "ev_node_id e = node"
    "ev_actor e = aq_actor r" "ev_origin e = aq_origin r" "ev_action e = aq_action r" "ev_target e = aq_target r"
    "ev_before e = aq_before r" "ev_after e = aq_after r" "ev_outcome e = aq_outcome r" "ev_reason e = aq_reason r"
    "ev_previous_hash e = previous"
    by (subst e(4), simp add: unsigned_event_def)+
  have "event_from_record (to_event_record e) = map_err (\<lambda>_. AuditCorrupt) (event_from_persisted e)"
    using assms(2-) e(2) unfolding event_from_record_def to_event_record_def request_ok_def
    by (simp add: parse_corrupt_back parse_corrupt_option_back event_eta flip: f)
  with e(3) show ?thesis by (simp add: map_err_def)
qed

lemma verified_head:
  assumes "verified am xs h"
  shows "h = (if xs = [] then AUDIT_GENESIS_HASH else ev_event_hash (le_event (last xs)))"
proof (cases xs rule: rev_exhaust)
  case (snoc ys y)
  with assms show ?thesis by (simp only: verified_snoc) auto
qed (use assms in simp)

lemma log_hash_digest: "log_ok L \<Longrightarrow> x \<in> set L \<Longrightarrow> is_sha256_digest (ev_event_hash (lg_event x))"
  by (drule (1) log_item_ok)
    (auto simp: item_ok_def event_from_record_def parse_corrupt_def to_event_record_def result_simps split: if_splits)

lemma checkpoint_made:
  assumes "providers_ok env w" and "audit_checkpoint_for env w n e = Inr c" and "aw_now w 0 = Inr (ev_timestamp e)"
    and "is_sha256_digest (ev_event_hash e)"
  shows "\<And>d. c = Some d \<Longrightarrow> cp_sequence d = ev_sequence e \<and> cp_event_hash d = ev_event_hash e
      \<and> checkpoint_from_record (to_checkpoint_record d) = Inr d \<and> (clock_steady w \<longrightarrow> verify_checkpoint (av_manager env) e d = Inr ())"
    and "c = None \<longleftrightarrow> \<not> requires_checkpoint (am_interval (av_manager env)) (ev_sequence e)"
proof -
  fix d
  assume "c = Some d"
  with assms(2) obtain signature t where d: "am_sign (av_manager env) (ascii (ev_event_hash e)) = Inr signature"
    "aw_now w (Suc n) = Inr t"
    "d = \<lparr>cp_sequence = ev_sequence e, cp_event_hash = ev_event_hash e, cp_signature = signature, cp_created_at = t\<rparr>"
    "checkpoint_from_persisted d = Inr d"
    by (auto simp: audit_checkpoint_for_def checkpoint_from_persisted_def result_simps split: if_splits)
  moreover have "clock_steady w \<Longrightarrow> ev_timestamp e \<le> t" using assms(3) d(2) unfolding clock_steady_def by blast
  moreover have "is_audit_timestamp t" "am_verify (av_manager env) (ascii (ev_event_hash e)) signature = Inr True"
    using assms(1) d(1,2) unfolding providers_ok_def by blast+
  ultimately show "cp_sequence d = ev_sequence e \<and> cp_event_hash d = ev_event_hash e
      \<and> checkpoint_from_record (to_checkpoint_record d) = Inr d \<and> (clock_steady w \<longrightarrow> verify_checkpoint (av_manager env) e d = Inr ())"
    using assms(4)
    by (cases "clock_steady w")
      (simp_all add: checkpoint_from_record_def to_checkpoint_record_def parse_corrupt_def verify_checkpoint_def map_err_def)
qed (use assms(2) in \<open>auto simp: audit_checkpoint_for_def result_simps split: if_splits\<close>)

lemma next_entry_fits:
  assumes prov: "providers_ok env w" "sealed \<longrightarrow> clock_steady w" and req: "request_ok r" and digest: "is_sha256_digest digest" and log: "log_ok L"
    and ver: "verify_ledger (av_manager env) (ledger_of L) = Inr v" and now: "aw_now w 0 = Inr t" and id: "aw_event_id w = Inr i"
    and run: "next_entry env w n r i t (ledger_of L) = Inr entry"
  shows "fits sealed env L \<lparr>lg_entry = entry, lg_replay = aq_replay_id r, lg_digest = digest\<rparr>"
proof -
  let ?am = "av_manager env" and ?prev = "if L = [] then AUDIT_GENESIS_HASH else ev_event_hash (lg_event (last L))"
  from run obtain e c where e: "chained_event ?am (Suc (length L)) i t (am_node_id ?am) r ?prev = Inr e"
    and c: "audit_checkpoint_for env w n e = Inr c" and entry: "entry = \<lparr>le_event = e, le_checkpoint = c\<rparr>"
    by (auto simp: next_entry_def ledger_head_def ledger_entry_new_def checked_add64_def map_err_def last_map Let_def result_simps
        split: if_splits sum.splits)
  note ev = chained_event_Inr [OF e]
  have f: "ev_sequence e = Suc (length L)" "ev_event_id e = i" "ev_timestamp e = t" "ev_node_id e = am_node_id ?am" "ev_previous_hash e = ?prev"
    by (subst ev(4), simp add: unsigned_event_def)+
  have prev: "is_sha256_digest ?prev" using log_hash_digest [OF log] genesis_digest by auto
  have ids: "is_audit_event_id i" "is_audit_timestamp t" "is_lower_hex (am_node_id ?am) 32" using prov(1) id now unfolding providers_ok_def by blast+
  note made = checkpoint_made [OF prov(1) c now [folded f(3)] ev(2)]
  have reads: "event_from_record (to_event_record e) = Inr e" by (rule event_round_trip [OF e req ids prev])
  have len: "Suc (length L) < 2 ^ 63" using ev(3) f(1) by (auto simp: event_from_persisted_def split: if_splits)
  have head: "verified ?am (map lg_entry L) ?prev"
    using verify_ledger_Inr [OF ver] verified_head [of ?am "map lg_entry L" "vf_head v"] by (simp add: last_map split: if_splits)
  have "verify_entry ?am (length L) ?prev (rev (chain_ids (map lg_entry L))) entry = Inr ()" if "sealed" "i \<notin> (ev_event_id \<circ> lg_event) ` set L"
    using that prov(2) f ev(1) made len unfolding verify_entry_def entry chain_ids_def
    by (cases c) (auto simp: checked_add64_def u64_max_def Let_def)
  with head have "\<exists>h. verified ?am (map lg_entry L @ [entry]) h" if "sealed" "i \<notin> (ev_event_id \<circ> lg_event) ` set L"
    using that by (auto simp only: verified_snoc length_map)
  with reads len digest made(1) f(1,2) show ?thesis unfolding fits_def item_ok_def entry by auto
qed

section \<open>The manager\<close>

text \<open>
  What an accepted append has achieved: the entry of its receipt is in the log and carries the request,
  the replay identity is in the log, and an applied append is the item of this replay identity.
\<close>

definition recorded :: "audit_env \<Rightarrow> audit_request \<Rightarrow> string \<Rightarrow> log_item list \<Rightarrow> append_receipt \<Rightarrow> bool" where
  "recorded env r digest L rc \<longleftrightarrow> rc_entry rc \<in> lg_entry ` set L \<and> aq_replay_id r \<in> lg_replay ` set L
     \<and> event_request_sha256 (av_manager env) (le_event (rc_entry rc)) = Inr digest
     \<and> (rc_disposition rc = AppendApplied \<longrightarrow>
          \<lparr>lg_entry = rc_entry rc, lg_replay = aq_replay_id r, lg_digest = digest\<rparr> \<in> set L)"

lemma require_recorded_keeps:
  "others_append sealed env w \<Longrightarrow> keeps sealed env L (require_recorded env w entry) (\<lambda>L' _. entry \<in> lg_entry ` set L')"
  unfolding require_recorded_def
  by (rule keeps_bind, rule keeps_err, rule store_ledger_keeps, assumption, rule keeps_bind_lift, rule keeps_lift)
    (auto simp: result_simps)

lemma require_request_Inr:
  "require_request env digest sha entry = Inr u \<Longrightarrow> event_request_sha256 (av_manager env) (le_event entry) = Inr digest"
  by (auto simp: require_request_def result_simps split: if_splits)

lemma image_mono_prefix: "prefix L L' \<Longrightarrow> y \<in> f ` set L \<Longrightarrow> y \<in> f ` set L'"
  using set_mono_prefix by blast

lemma validate_append_receipt_keeps:
  assumes "others_append sealed env w" and "appended \<lparr>lg_entry = intended, lg_replay = aq_replay_id r, lg_digest = digest\<rparr> L rc"
  shows "keeps sealed env L (validate_append_receipt env w digest intended n rc) (recorded env r digest)"
  unfolding validate_append_receipt_def
proof (rule keeps_bind_lift)
  fix u
  assume "require_request env digest (rc_request_sha256 rc) (rc_entry rc) = Inr u"
  note request = require_request_Inr [OF this]
  show "keeps sealed env L (run_bind (case rc_disposition rc of
         AppendApplied \<Rightarrow> run_lift (ensure (rc_entry rc = intended \<and> rc_revision rc = saturating_add64 n 1) (AuditStore AuditCorrupt))
       | AppendReplayed \<Rightarrow> require_recorded env w (rc_entry rc)) (\<lambda>_. run_lift (Inr rc))) (recorded env r digest)"
  proof (cases "rc_disposition rc")
    case AppendApplied
    then have "rc_entry rc \<in> lg_entry ` set L"
      using assms(2) by (auto simp: appended_def intro!: image_eqI [where x = "\<lparr>lg_entry = intended, lg_replay = aq_replay_id r, lg_digest = digest\<rparr>"])
    with AppendApplied assms(2) request show ?thesis by (auto simp: appended_def recorded_def intro!: keeps_bind_lift keeps_lift)
  next
    case AppendReplayed
    show ?thesis unfolding AppendReplayed append_disposition.case
      by (rule keeps_bind [OF require_recorded_keeps [OF assms(1)]], rule keeps_lift)
        (use assms(2) request AppendReplayed in \<open>auto simp: appended_def recorded_def dest: image_mono_prefix\<close>)
  qed
qed

lemma append_attempts_keeps:
  assumes env: "others_append sealed env w" "json_ok env" "providers_ok env w" "sealed \<longrightarrow> clock_steady w"
    and req: "request_ok r" "is_sha256_digest digest"
    and now: "aw_now w 0 = Inr t" and id: "aw_event_id w = Inr i"
  shows "keeps sealed env L (append_attempts env w r digest i t n) (recorded env r digest)"
proof (induction n arbitrary: L)
  case (Suc n)
  show ?case unfolding append_attempts.simps
  proof (rule keeps_bind, rule keeps_err, rule store_ledger_keeps [OF env(1)], rule keeps_bind_lift, rule keeps_bind_lift)
    fix l L' v entry
    assume l: "l = ledger_of L' \<and> log_ok L'" "verify_ledger (av_manager env) l = Inr v" "next_entry env w n r i t l = Inr entry"
    let ?x = "\<lparr>lg_entry = entry, lg_replay = aq_replay_id r, lg_digest = digest\<rparr>"
    have fits: "fits sealed env L' ?x" using next_entry_fits [OF env(3,4) req _ _ now id, of L' v n entry] l by blast
    show "keeps sealed env L' (run_handle (store_append env w (al_revision l) (aq_replay_id r) digest entry)
       (validate_append_receipt env w digest entry (al_revision l))
       (\<lambda>e. case e of
          AuditConflict \<Rightarrow> append_attempts env w r digest i t n
        | AuditReplayConflict \<Rightarrow> run_lift (Inl AuditIdempotencyConflict)
        | _ \<Rightarrow> run_lift (Inl (AuditStore e)))) (recorded env r digest)"
    proof (rule keeps_handle)
      show "keeps sealed env L' (store_append env w (al_revision l) (aq_replay_id r) digest entry) (appended ?x)"
        using store_append_keeps [OF env(1,2) fits] l(1) by simp
    qed (auto intro: keeps_lift Suc.IH validate_append_receipt_keeps [OF env(1)] split: audit_store_error.splits)
  qed
qed (auto intro: keeps_lift)

lemma request_digest: "request_sha256 am node r = Inr d \<Longrightarrow> is_sha256_digest d"
  by (auto simp: request_sha256_def sha256_text_def result_simps)

lemma replay_receipt_for_keeps:
  assumes "others_append sealed env w" and "replay_of L (aq_replay_id r) rp"
  shows "keeps sealed env L (replay_receipt_for env w digest rp) (\<lambda>L' rc. recorded env r digest L' rc
    \<and> rc_entry rc = rp_entry rp \<and> rc_disposition rc = AppendReplayed \<and> digest = rp_request_sha256 rp)"
  unfolding replay_receipt_for_def
proof (rule keeps_bind_lift, rule keeps_bind [OF require_recorded_keeps [OF assms(1)]], rule keeps_lift)
  fix u v L' rc
  assume req: "require_request env digest (rp_request_sha256 rp) (rp_entry rp) = Inr u" and "prefix L L'" "rp_entry rp \<in> lg_entry ` set L'"
    "Inr \<lparr>rc_request_sha256 = digest, rc_entry = rp_entry rp, rc_disposition = AppendReplayed, rc_revision = rp_revision rp\<rparr> = Inr rc"
  moreover have "aq_replay_id r \<in> lg_replay ` set L" using assms(2) by (auto simp: replay_of_def intro: rev_image_eqI)
  moreover have "digest = rp_request_sha256 rp" using req by (auto simp: require_request_def split: if_splits)
  ultimately show "recorded env r digest L' rc \<and> rc_entry rc = rp_entry rp \<and> rc_disposition rc = AppendReplayed \<and> digest = rp_request_sha256 rp"
    by (auto simp: recorded_def dest: require_request_Inr image_mono_prefix)
qed

lemma audit_append_keeps:
  assumes env: "others_append sealed env w" "json_ok env" "providers_ok env w" "sealed \<longrightarrow> clock_steady w" and req: "request_ok r"
  shows "keeps sealed env L (audit_append env w r)
    (\<lambda>L' rc. \<exists>digest. request_sha256 (av_manager env) (am_node_id (av_manager env)) r = Inr digest \<and> recorded env r digest L' rc)"
  unfolding audit_append_def
proof (rule keeps_bind_lift, rule keeps_bind, rule keeps_err, rule store_replay_keeps [OF env(1)])
  fix digest found L'
  assume digest: "request_sha256 (av_manager env) (am_node_id (av_manager env)) r = Inr digest"
    and found: "case found of None \<Rightarrow> aq_replay_id r \<notin> lg_replay ` set L' | Some rp \<Rightarrow> replay_of L' (aq_replay_id r) rp"
  show "keeps sealed env L' (case found of Some replay \<Rightarrow> replay_receipt_for env w digest replay
     | None \<Rightarrow> run_bind (run_lift (aw_event_id w)) (\<lambda>event_id. run_bind (run_lift (aw_now w 0)) (\<lambda>timestamp.
         append_attempts env w r digest event_id timestamp 8)))
    (\<lambda>L' rc. \<exists>digest. request_sha256 (av_manager env) (am_node_id (av_manager env)) r = Inr digest \<and> recorded env r digest L' rc)"
  proof (rule keeps_mono)
    show "keeps sealed env L' (case found of Some replay \<Rightarrow> replay_receipt_for env w digest replay
     | None \<Rightarrow> run_bind (run_lift (aw_event_id w)) (\<lambda>event_id. run_bind (run_lift (aw_now w 0)) (\<lambda>timestamp.
         append_attempts env w r digest event_id timestamp 8))) (recorded env r digest)"
    proof (cases found)
      case None
      then show ?thesis
        by (auto intro!: keeps_bind_lift append_attempts_keeps [OF env req request_digest [OF digest]] simp del: append_attempts.simps)
    next
      case (Some rp)
      with found show ?thesis by (auto intro: keeps_mono [OF replay_receipt_for_keeps [OF env(1)]])
    qed
  qed (use digest in blast)
qed

text \<open>
  Appends satisfy what they ask of each other: when what happens before each access is again an append,
  itself interrupted in the same way, the log is only extended.
\<close>

lemma appends_interleave:
  assumes "json_ok env"
    and "\<And>k. \<exists>w' r j. (\<forall>db. aw_others w k db = snd (snd (audit_append env w' r (j, db))))
      \<and> others_append sealed env w' \<and> providers_ok env w' \<and> (sealed \<longrightarrow> clock_steady w') \<and> request_ok r"
  shows "others_append sealed env w"
  unfolding others_append_def
proof (intro allI impI)
  fix k db L
  assume "audit_state sealed env db L"
  then have start: "logged sealed env L (j, db)" for j by (auto simp: logged_def)
  obtain w' r j where w': "aw_others w k db = snd (snd (audit_append env w' r (j, db)))" "others_append sealed env w'" "providers_ok env w'"
      "sealed \<longrightarrow> clock_steady w'" "request_ok r"
    using assms(2) by metis
  from keeps_logged [OF audit_append_keeps [OF w'(2) assms(1) w'(3-5)] start surjective_pairing] w'(1)
  show "\<exists>L'. prefix L L' \<and> audit_state sealed env (aw_others w k db) L'" by (simp add: logged_def)
qed

section \<open>A clock that steps back\<close>

lemma verified_member:
  "verify_entries am n p ids c xs = Inr y \<Longrightarrow> x \<in> set xs \<Longrightarrow> \<exists>m q seen. verify_entry am m q seen x = Inr ()"
  by (induction xs arbitrary: n p ids c) (auto simp: result_simps)

text \<open>
  The timestamp of an event is read before the attempts, that of its checkpoint later. When the clock
  steps back in between, the entry is stored, and no ledger that contains it verifies again.
\<close>

lemma clock_step_back_locks_log:
  assumes "next_entry env w n r i t l = Inr entry" and "requires_checkpoint (am_interval (av_manager env)) (Suc (length (al_entries l)))"
    and "aw_now w (Suc n) = Inr u" and "u < t" and "entry \<in> set (al_entries l')"
  shows "verify_ledger (av_manager env) l' \<noteq> Inr v"
proof
  assume "verify_ledger (av_manager env) l' = Inr v"
  then obtain m q seen where ver: "verify_entry (av_manager env) m q seen entry = Inr ()"
    using verified_member assms(5) by (fastforce simp: verify_ledger_def result_simps)
  from assms(1) obtain e c p where e: "chained_event (av_manager env) (Suc (length (al_entries l))) i t (am_node_id (av_manager env)) r p = Inr e"
    and c: "audit_checkpoint_for env w n e = Inr c" and entry: "entry = \<lparr>le_event = e, le_checkpoint = c\<rparr>"
    by (auto simp: next_entry_def ledger_entry_new_def map_err_def checked_add64_def Let_def result_simps split: if_splits sum.splits)
  have f: "ev_sequence e = Suc (length (al_entries l))" "ev_timestamp e = t"
    by (subst chained_event_Inr(4) [OF e], simp add: unsigned_event_def)+
  from c assms(2,3) f obtain d where "c = Some d" "cp_created_at d = u"
    by (auto simp: audit_checkpoint_for_def checkpoint_from_persisted_def result_simps split: if_splits)
  with ver entry f assms(4) show False
    by (auto simp: verify_entry_def verify_checkpoint_def Let_def result_simps split: if_splits bool.splits)
qed

section \<open>Runs that only read\<close>

definition quiet :: "audit_world \<Rightarrow> ('e, 'a) run \<Rightarrow> bool" where
  "quiet w m \<longleftrightarrow> (\<forall>s r s'. m s = (r, s') \<longrightarrow> fst s \<le> fst s' \<and> snd s' = fold (aw_others w) [fst s..<fst s'] (snd s))"

lemma fold_upt: "i \<le> j \<Longrightarrow> j \<le> k \<Longrightarrow> fold f [i..<k] s = fold f [j..<k] (fold f [i..<j] s)"
  using upt_add_eq_append [of i j "k - j"] by simp

lemma quiet_lift: "quiet w (run_lift r)"
  by (auto simp: quiet_def run_lift_def)

lemma quiet_err: "quiet w m \<Longrightarrow> quiet w (run_err f m)"
  by (auto simp: quiet_def run_err_def split: prod.splits)

lemma quiet_read: "quiet w (access_read w f)"
  by (auto simp: quiet_def access_read_def access_def)

lemma quiet_bind:
  assumes "quiet w m" and "\<And>x. quiet w (f x)"
  shows "quiet w (run_bind m f)"
  unfolding quiet_def
proof (intro allI impI)
  fix s r s'
  assume run: "run_bind m f s = (r, s')"
  obtain q t where t: "m s = (q, t)" by (metis surj_pair)
  with assms(1) have m: "fst s \<le> fst t" "snd t = fold (aw_others w) [fst s..<fst t] (snd s)" unfolding quiet_def by blast+
  show "fst s \<le> fst s' \<and> snd s' = fold (aw_others w) [fst s..<fst s'] (snd s)"
  proof (cases q)
    case (Inl e)
    with run t m show ?thesis by (simp add: run_bind_def)
  next
    case (Inr x)
    then have "f x t = (r, s')" using run t by (simp add: run_bind_def)
    with assms(2) [of x] have "fst t \<le> fst s'" "snd s' = fold (aw_others w) [fst t..<fst s'] (snd t)" unfolding quiet_def by blast+
    with m show ?thesis by (simp add: fold_upt [of "fst s" "fst t" "fst s'"])
  qed
qed

lemmas quiet_intros = quiet_lift quiet_err quiet_read quiet_bind

lemma quiet_reads:
  "quiet w (store_ledger env w)" "quiet w (store_replay env w i)" "quiet w (replay_receipt_for env w d rp)"
  unfolding store_ledger_def database_records_def store_replay_def replay_from_record_def store_entry_def replay_receipt_for_def
    require_recorded_def
  by (auto intro!: quiet_intros split: option.splits)

section \<open>Properties\<close>

text \<open>
  C10: Appending under interference. Others may write to the database before every access of an append, as
  long as they extend a well-formed log to another one. Then the append itself, however it ends, leaves a
  well-formed log that extends the log it found, so that no event is lost, changed or reordered. When it
  succeeds, the entry of the receipt is in the log and carries the request, the log has exactly one item
  under the replay identity, and an applied append is that item. This holds whatever the clock does
  (\<open>sealed\<close> is false). With others that keep the chain verified and a system clock that does not step back
  during the call (\<open>sealed\<close> is true), the chain that verified before verifies afterwards. The hypotheses on
  the providers are that JSON reads back, identities and timestamps are valid and signatures verify.
\<close>

theorem audit_append_extends_log:
  assumes "others_append sealed env w" and "json_ok env" and "providers_ok env w" and "sealed \<longrightarrow> clock_steady w" and "request_ok r"
    and "audit_state sealed env db L" and "audit_append env w r (k, db) = (res, (k', db'))"
  shows "\<exists>L'. prefix L L' \<and> audit_state sealed env db' L' \<and> (\<forall>rc. res = Inr rc \<longrightarrow>
    (\<exists>digest. request_sha256 (av_manager env) (am_node_id (av_manager env)) r = Inr digest \<and> recorded env r digest L' rc)
    \<and> (\<exists>!x. x \<in> set L' \<and> lg_replay x = aq_replay_id r))"
proof -
  have start: "logged sealed env L (k, db)" using assms(6) by (auto simp: logged_def)
  note keeps = audit_append_keeps [OF assms(1-5)]
  show ?thesis
  proof (cases res)
    case (Inl e)
    with keeps_logged [OF keeps start assms(7)] show ?thesis by (auto simp: logged_def)
  next
    case (Inr rc)
    from keeps_result [OF keeps start assms(7) [unfolded Inr]] obtain L1 digest where L1: "prefix L L1" "logged sealed env L1 (k', db')"
      "request_sha256 (av_manager env) (am_node_id (av_manager env)) r = Inr digest" "recorded env r digest L1 rc" by blast
    then obtain L' where L': "prefix L L1" "prefix L1 L'" "audit_state sealed env db' L'" by (auto simp: logged_def)
    with L1(4) have rec: "recorded env r digest L' rc" using set_mono_prefix [OF L'(2)] unfolding recorded_def by blast
    then obtain x where x: "x \<in> set L'" "lg_replay x = aq_replay_id r" by (auto simp: recorded_def)
    have "log_ok L'" using L'(3) by (simp add: audit_state_def audit_rows_def)
    then have "\<exists>!x. x \<in> set L' \<and> lg_replay x = aq_replay_id r" using x same_replay [of L'] by metis
    with L' L1(3) rec Inr prefix_order.trans [OF L'(1,2)] show ?thesis by blast
  qed
qed

text \<open>
  C11: Exactly once. When the log already has an item under the replay identity of a request, an append
  changes nothing itself: the database is what the others made of it. It succeeds only for the request of
  that item, and then returns its entry, marked as replayed.
\<close>

theorem audit_append_replays:
  assumes "others_append sealed env w" and "audit_state sealed env db L" and "x \<in> set L" and "lg_replay x = aq_replay_id r"
    and "audit_append env w r (k, db) = (res, (k', db'))"
  shows "db' = fold (aw_others w) [k..<k'] db \<and> (\<forall>rc. res = Inr rc \<longrightarrow> rc_entry rc = lg_entry x
    \<and> rc_disposition rc = AppendReplayed \<and> request_sha256 (av_manager env) (am_node_id (av_manager env)) r = Inr (lg_digest x))"
proof -
  let ?node = "am_node_id (av_manager env)"
  have start: "logged sealed env L (k, db)" using assms(2) by (auto simp: logged_def)
  obtain q t where t: "store_replay env w (aq_replay_id r) (k, db) = (q, t)" by (metis surj_pair)
  have reads: "k \<le> fst t" "snd t = fold (aw_others w) [k..<fst t] db" using t quiet_reads(2) unfolding quiet_def by fastforce+
  consider (digest) e where "request_sha256 (av_manager env) ?node r = Inl e" | (read) d e where "request_sha256 (av_manager env) ?node r = Inr d" "q = Inl e"
    | (found) d found where "request_sha256 (av_manager env) ?node r = Inr d" "q = Inr found"
    by (metis sum.exhaust)
  then show ?thesis
  proof cases
    case (found d found)
    from keeps_result [OF store_replay_keeps [OF assms(1)] start t [unfolded found(2)]] obtain L1 where L1: "prefix L L1" "logged sealed env L1 t"
      "case found of None \<Rightarrow> aq_replay_id r \<notin> lg_replay ` set L1 | Some rp \<Rightarrow> replay_of L1 (aq_replay_id r) rp" by blast
    have x: "x \<in> set L1" using assms(3) set_mono_prefix [OF L1(1)] by blast
    then have "aq_replay_id r \<in> lg_replay ` set L1" using assms(4) by (metis image_eqI)
    with L1(3) obtain rp where rp: "found = Some rp" "replay_of L1 (aq_replay_id r) rp" by (cases found) simp_all
    then have same: "rp_entry rp = lg_entry x" "rp_request_sha256 rp = lg_digest x"
      using same_replay [OF logged_ok [OF L1(2)] x] assms(4) by (auto simp: replay_of_def)
    have run: "replay_receipt_for env w d rp t = (res, (k', db'))"
      using assms(5) found t rp(1) by (simp add: audit_append_def run_bind_def run_lift_def run_err_def map_err_def)
    then have "fst t \<le> k'" "db' = fold (aw_others w) [fst t..<k'] (snd t)" using quiet_reads(3) unfolding quiet_def by fastforce+
    then have "db' = fold (aw_others w) [k..<k'] db" using reads by (simp add: fold_upt [of k "fst t" k'])
    moreover have "rc_entry rc = lg_entry x \<and> rc_disposition rc = AppendReplayed \<and> request_sha256 (av_manager env) ?node r = Inr (lg_digest x)"
      if "res = Inr rc" for rc
      using keeps_result [OF replay_receipt_for_keeps [OF assms(1) rp(2)] L1(2) run [unfolded that]] found(1) same by metis
    ultimately show ?thesis by blast
  qed (use assms(5) t reads in \<open>auto simp: audit_append_def run_bind_def run_lift_def run_err_def map_err_def\<close>)
qed

end
