(* ===== verification/AuditProgress.thy ===== *)
theory AuditProgress
  imports AuditRuns
begin

text \<open>
  When the audit log makes progress. Without interference and failures a ledger is read back completely
  and an append of a new request succeeds. With interference it may not: an append that reads the
  collections while another append commits takes the log for corrupt.
\<close>

section \<open>Reading back the complete log\<close>

lemma distinct_log_checkpoints: "log_ok L \<Longrightarrow> distinct (map cp_sequence (log_checkpoints L))"
proof -
  assume log: "log_ok L"
  let ?M = "filter (\<lambda>x. le_checkpoint (lg_entry x) \<noteq> None) L"
  have "distinct (map (ev_sequence \<circ> lg_event) L)" unfolding log_sequences [OF log] by (simp add: distinct_map)
  then have "distinct (map (ev_sequence \<circ> lg_event) ?M)" by (rule distinct_map_filter)
  moreover have "map cp_sequence (log_checkpoints L) = map (ev_sequence \<circ> lg_event) ?M"
    using log_item_ok [OF log] by (auto simp: log_checkpoints_def List.map_filter_def item_ok_def)
  ultimately show ?thesis by simp
qed

lemma checkpoints_collected:
  assumes "log_ok L" and "mset (map view cs) = mset (checkpoint_values L)"
  shows "\<exists>t. collect_checkpoints [] cs = Inr t"
proof (rule collect_checkpoints_total)
  have "\<exists>c \<in> set (log_checkpoints L). st_value s = to_checkpoint_record c \<and> st_revision s = 1" if "s \<in> set cs" for s
  proof -
    have "view s \<in> set (checkpoint_values L)" using that by (simp add: mset_eq_setD [OF assms(2), symmetric])
    then show ?thesis by (auto simp: checkpoint_values_def)
  qed
  then show "\<forall>s \<in> set cs. st_revision s = 1 \<and> cr_record_id (st_value s) = sequence_record_id (cr_sequence (st_value s))
      \<and> (\<exists>c. checkpoint_from_record (st_value s) = Inr c)"
    using log_item_ok [OF assms(1)] by (fastforce simp: log_checkpoints_set item_ok_def to_checkpoint_record_def)
  have "mset (map (cr_sequence \<circ> fst) (map view cs)) = mset (map (cr_sequence \<circ> fst) (checkpoint_values L))"
    using assms(2) by (simp only: mset_map)
  then have "mset (map (\<lambda>s. cr_sequence (st_value s)) cs) = mset (map cp_sequence (log_checkpoints L))"
    by (simp add: checkpoint_values_def o_def image_mset.compositionality)
  then show "distinct (map (\<lambda>s. cr_sequence (st_value s)) cs)"
    using distinct_log_checkpoints [OF assms(1)] by (metis mset_eq_imp_distinct_iff)
qed simp

lemma check_replays_total:
  assumes "\<forall>s \<in> set ss. st_revision s = 1 \<and> is_sha256_digest (rr_request_sha256 (st_value s))
      \<and> (\<exists>e. map_of events (rr_event_id (st_value s)) = Some e \<and> ev_sequence e = rr_sequence (st_value s))"
    and "distinct (map (\<lambda>s. rr_replay_id (st_value s)) ss)" and "distinct (map (\<lambda>s. rr_event_id (st_value s)) ss)"
    and "set ids \<inter> (\<lambda>s. rr_replay_id (st_value s)) ` set ss = {}" and "set evs \<inter> (\<lambda>s. rr_event_id (st_value s)) ` set ss = {}"
  shows "check_replays events ids evs ss = Inr ()"
  using assms by (induction ss arbitrary: ids evs) (auto simp: Let_def)

lemma replays_validated:
  assumes log: "log_ok L" and mset: "mset (map view replays) = mset (replay_values L)"
  shows "validate_replays replays (map lg_entry L) = Inr ()"
proof -
  let ?events = "map (\<lambda>x. (ev_event_id (lg_event x), lg_event x)) L"
  have len: "length replays = length L" using arg_cong [OF mset, of size] by (simp add: replay_values_def)
  have "distinct (map fst ?events)" using log by (simp add: log_ok_def o_def)
  then have ids: "distinct (map fst (rev ?events))" by (simp only: rev_map [symmetric] distinct_rev)
  have vals: "mset (map (f \<circ> fst) (map view replays)) = mset (map (\<lambda>x. f (replay_value x)) L)" for f :: "replay_record \<Rightarrow> string"
    unfolding mset_map [of "f \<circ> fst"] mset by (simp add: replay_values_def o_def image_mset.compositionality)
  have "check_replays (rev ?events) [] [] replays = Inr ()"
  proof (rule check_replays_total)
    have "\<exists>x \<in> set L. st_value s = replay_value x \<and> st_revision s = 1" if "s \<in> set replays" for s
    proof -
      have "view s \<in> set (replay_values L)" using that by (simp add: mset_eq_setD [OF mset, symmetric])
      then show ?thesis by (auto simp: replay_values_def)
    qed
    moreover have "map_of (rev ?events) (ev_event_id (lg_event x)) = Some (lg_event x) \<and> is_sha256_digest (lg_digest x)" if "x \<in> set L" for x
      using that map_of_is_SomeI [OF ids] log_item_ok [OF log that] by (auto simp: item_ok_def)
    ultimately show "\<forall>s \<in> set replays. st_revision s = 1 \<and> is_sha256_digest (rr_request_sha256 (st_value s))
        \<and> (\<exists>e. map_of (rev ?events) (rr_event_id (st_value s)) = Some e \<and> ev_sequence e = rr_sequence (st_value s))"
      by (fastforce simp: replay_value_def)
    show "distinct (map (\<lambda>s. rr_replay_id (st_value s)) replays)"
      using mset_eq_imp_distinct_iff [OF vals [of rr_replay_id]] log by (simp add: replay_value_def log_ok_def o_def)
    show "distinct (map (\<lambda>s. rr_event_id (st_value s)) replays)"
      using mset_eq_imp_distinct_iff [OF vals [of rr_event_id]] log by (simp add: replay_value_def log_ok_def o_def)
  qed simp_all
  with len show ?thesis by (simp add: validate_replays_def o_def)
qed

lemma assemble_complete:
  assumes log: "log_ok L" and "mset (map view states) = mset (state_values L)" and events: "mset (map view events) = mset (event_values L)"
    and cps: "mset (map view checkpoints) = mset (checkpoint_values L)" and replays: "mset (map view replays) = mset (replay_values L)"
  shows "assemble_ledger states events checkpoints replays = Inr (ledger_of L)"
proof (cases "L = []")
  case True
  with assms show ?thesis
    by (simp add: assemble_ledger_def state_values_def event_values_def checkpoint_values_def replay_values_def
        log_checkpoints_def List.map_filter_def ledger_from_persisted_def)
next
  case False
  have "map view states = state_values L" using False assms(2) by (simp add: state_values_def mset_single_iff del: mset_map)
  with False obtain state where state: "states = [state]" "sr_record_id (st_value state) = ''chain''"
    "sr_revision (st_value state) = length L" "st_revision state = length L" "sr_head (st_value state) = ev_event_hash (lg_event (last L))"
    by (auto simp: state_values_def)
  have len: "length events = length L" using arg_cong [OF events, of size] by (simp add: event_values_def)
  obtain t where t: "collect_checkpoints [] checkpoints = Inr t" using checkpoints_collected [OF log cps] by blast
  obtain es where es: "try_map stored_event events = Inr es" "sort_key ev_sequence es = map lg_event L"
    using stored_events_back [OF log events] sort_log [OF log] by blast
  have "\<exists>entries rest. attach_checkpoints 0 t (map lg_event L) = Inr (entries, rest)"
  proof (rule attach_checkpoints_total)
    show "\<forall>e \<in> set (map lg_event L). \<forall>c. map_of t (ev_sequence e) = Some c \<longrightarrow> cp_sequence c = ev_sequence e \<and> cp_event_hash c = ev_event_hash e"
      using checkpoint_table [OF log cps t] log by (auto simp: in_set_conv_nth log_ok_def item_ok_def)
  qed (use log log_sequence [OF log] in \<open>auto simp: log_ok_def\<close>)
  then obtain entries rest where a: "attach_checkpoints 0 t (map lg_event L) = Inr (entries, rest)" by blast
  have seqs: "ev_sequence ` set (map lg_event L) = set (map Suc [0..<length L])"
    unfolding log_sequences [OF log, symmetric] by (simp add: image_image)
  have "k \<in> ev_sequence ` set (map lg_event L)" if "map_of t k = Some c" for k c
    using checkpoint_table_range [OF log cps t that] unfolding seqs by (cases k) auto
  then have "map_of rest k = None" for k using attach_checkpoints_spec [OF a] by (cases "map_of t k") auto
  then have "map_of rest = Map.empty" by (rule ext)
  then have rest: "rest = []" by simp
  have "entries = map lg_entry L"
    by (rule attached_entries [OF log _ cps t a]) simp
  with False state len t es a rest replays_validated [OF log replays] show ?thesis
    by (simp add: assemble_ledger_def ledger_from_persisted_def last_map)
qed

definition fault_free :: "audit_world \<Rightarrow> bool" where
  "fault_free w \<longleftrightarrow> (\<forall>k. io_fault (aw_io w k) = (\<lambda>_. None))"

definition alone :: "audit_world \<Rightarrow> bool" where
  "alone w \<longleftrightarrow> (\<forall>k db. aw_others w k db = db)"

lemma records_complete:
  assumes "fault_free w" and "holds rt (map_of (db_records (aw_others w k db))) vs" and "table_ok (db_records (aw_others w k db))"
    and "\<not> db_closed (aw_others w k db)"
  obtains sts where "database_records w rt (k, db) = (Inr sts, (Suc k, aw_others w k db))" "mset (map view sts) = mset vs"
proof -
  obtain sts where "read_all_records rt (aw_io w k) (aw_others w k db) = Inr sts"
    using read_all_succeeds [OF assms(2,3,4)] assms(1) by (auto simp: fault_free_def)
  with read_all_holds [OF assms(3,2) this] that show ?thesis
    by (simp add: database_records_def access_read_def access_def map_err_def)
qed

lemma state_weaken: "audit_state True env db L \<Longrightarrow> audit_state sealed env db L"
  by (simp add: audit_state_def)

lemma state_table: "audit_state sealed env db L \<Longrightarrow> table_ok (db_records db)" "audit_state sealed env db L \<Longrightarrow> log_ok L"
  by (simp_all add: audit_state_def audit_rows_def)

lemma alone_appends: "alone w \<Longrightarrow> others_append sealed env w"
  by (auto simp: alone_def others_append_def)

lemma ledger_complete:
  assumes "fault_free w" and "alone w" and "audit_state sealed env db L" and "\<not> db_closed db"
  shows "store_ledger env w (k, db) = (Inr (ledger_of L), (k + 4, db))"
proof -
  note read = records_complete [OF assms(1)]
  have db: "aw_others w j db = db" for j using assms(2) by (simp add: alone_def)
  note facts = state_table [OF assms(3)] state_holds [OF assms(3)]
  obtain states where s: "database_records w (state_type env) (k, db) = (Inr states, (Suc k, db))" "mset (map view states) = mset (state_values L)"
    by (rule read [of "state_type env" k db]) (use facts assms(4) db in auto)
  obtain events where e: "database_records w (event_type env) (Suc k, db) = (Inr events, (Suc (Suc k), db))" "mset (map view events) = mset (event_values L)"
    by (rule read [of "event_type env" "Suc k" db]) (use facts assms(4) db in auto)
  obtain cps where c: "database_records w (checkpoint_type env) (Suc (Suc k), db) = (Inr cps, (Suc (Suc (Suc k)), db))"
    "mset (map view cps) = mset (checkpoint_values L)"
    by (rule read [of "checkpoint_type env" "Suc (Suc k)" db]) (use facts assms(4) db in auto)
  obtain reps where p: "database_records w (replay_type env) (Suc (Suc (Suc k)), db) = (Inr reps, (Suc (Suc (Suc (Suc k))), db))"
    "mset (map view reps) = mset (replay_values L)"
    by (rule read [of "replay_type env" "Suc (Suc (Suc k))" db]) (use facts assms(4) db in auto)
  show ?thesis
    using s(1) e(1) c(1) p(1) assemble_complete [OF facts(2) s(2) e(2) c(2) p(2)] by (simp add: store_ledger_def run_bind_def run_lift_def)
qed

section \<open>Overlapping appends\<close>

lemma torn_assembly:
  assumes "mset (map view states) = mset (state_values L)" and "mset (map view events) = mset (event_values L')" and "strict_prefix L L'"
  shows "assemble_ledger states events checkpoints replays = Inl AuditCorrupt"
proof -
  have len: "length events = length L'" using arg_cong [OF assms(2), of size] by (simp add: event_values_def)
  have less: "length L < length L'" using assms(3) by (rule prefix_length_less)
  show ?thesis
  proof (cases "L = []")
    case True
    then have "states = []" using assms(1) by (simp add: state_values_def)
    with len less show ?thesis by (auto simp: assemble_ledger_def)
  next
    case False
    have "map view states = state_values L" using False assms(1) by (simp add: state_values_def mset_single_iff del: mset_map)
    with False obtain state where "states = [state]" "sr_revision (st_value state) = length L" by (auto simp: state_values_def)
    with len less show ?thesis by (auto simp: assemble_ledger_def)
  qed
qed

text \<open>
  C40: Overlapping appends. When another append commits after an append has read the state record and before
  it reads the events, the attempt fails as corrupt although the log is intact before and after: the
  ledger is read in four transactions, and the mismatch is not treated as contention and retried.
\<close>

theorem overlapping_append_reports_corruption:
  assumes "others_append sealed env w" and "fault_free w" and "\<And>j d. \<not> db_closed (aw_others w j d)"
    and "audit_state sealed env (aw_others w k db) L" and "audit_state sealed env (aw_others w (Suc k) (aw_others w k db)) L'" and "strict_prefix L L'"
  shows "fst (append_attempts env w r digest event_id timestamp (Suc n) (k, db)) = Inl (AuditStore AuditCorrupt)"
proof -
  let ?d1 = "aw_others w k db"
  let ?d2 = "aw_others w (Suc k) ?d1"
  let ?d3 = "aw_others w (Suc (Suc k)) ?d2"
  let ?d4 = "aw_others w (Suc (Suc (Suc k))) ?d3"
  note read = records_complete [OF assms(2) _ _ assms(3)]
  obtain L3 where L3: "audit_state sealed env ?d3 L3" using assms(1,5) unfolding others_append_def by blast
  then obtain L4 where L4: "audit_state sealed env ?d4 L4" using assms(1) unfolding others_append_def by blast
  obtain states where s: "database_records w (state_type env) (k, db) = (Inr states, (Suc k, ?d1))" "mset (map view states) = mset (state_values L)"
    by (rule read [OF state_holds(1) [OF assms(4)] state_table(1) [OF assms(4)]])
  obtain events where e: "database_records w (event_type env) (Suc k, ?d1) = (Inr events, (Suc (Suc k), ?d2))"
    "mset (map view events) = mset (event_values L')"
    by (rule read [OF state_holds(2) [OF assms(5)] state_table(1) [OF assms(5)]])
  obtain cps where c: "database_records w (checkpoint_type env) (Suc (Suc k), ?d2) = (Inr cps, (Suc (Suc (Suc k)), ?d3))"
    by (rule read [OF state_holds(3) [OF L3] state_table(1) [OF L3]])
  obtain reps where p: "database_records w (replay_type env) (Suc (Suc (Suc k)), ?d3) = (Inr reps, (Suc (Suc (Suc (Suc k))), ?d4))"
    by (rule read [OF state_holds(4) [OF L4] state_table(1) [OF L4]])
  show ?thesis
    using s(1) e(1) c p torn_assembly [OF s(2) e(2) assms(6)]
    by (simp add: store_ledger_def run_bind_def run_lift_def run_err_def map_err_def)
qed

section \<open>The transaction of a new item\<close>

lemma sequence_record_id_inject: "sequence_record_id m = sequence_record_id n \<longleftrightarrow> m = n"
proof -
  have "digits_value (replicate k 48 @ bs) = digits_value bs" for k and bs :: "byte list"
    by (induction k) (simp_all add: digits_value_def)
  moreover have "ascii (replicate k CHR ''0'' @ t) = replicate k 48 @ ascii t" for k t by (simp add: ascii_def)
  ultimately have "digits_value (ascii (sequence_record_id n)) = n" for n
    by (simp add: sequence_record_id_def digits_value_decimal)
  then show ?thesis by metis
qed

lemma safe_visible: "is_safe_identifier s n \<Longrightarrow> list_all visible s"
  by (auto simp: is_safe_identifier_def list_all_iff ascii_alphanumeric_def visible_def)

lemma sequence_record_id_valid: "n \<le> u64_max \<Longrightarrow> validate_identifier (sequence_record_id n) = Inr ()"
proof (rule validate_visible(1))
  assume n: "n \<le> u64_max"
  have "length (decimal_text n) \<le> 20" using length_decimal_u64 [OF n] by (simp add: decimal_text_def)
  then show "sequence_record_id n \<noteq> []" "length (sequence_record_id n) \<le> 255" by (auto simp: sequence_record_id_def)
  show "list_all visible (sequence_record_id n)"
    using decimal_text_visible [of n] by (auto simp: sequence_record_id_def list_all_iff visible_def)
qed

text \<open>The records of an item have a JSON form within the limit of the database.\<close>

abbreviation fits_json :: "byte list option \<Rightarrow> bool" where
  "fits_json j \<equiv> \<exists>p. j = Some p \<and> length p \<le> 1024 * 1024"

definition encodable :: "audit_env \<Rightarrow> log_item \<Rightarrow> bool" where
  "encodable env x \<longleftrightarrow> fits_json (av_state_to_json env (state_after x)) \<and> fits_json (av_event_to_json env (to_event_record (lg_event x)))
     \<and> (\<forall>c. le_checkpoint (lg_entry x) = Some c \<longrightarrow> fits_json (av_checkpoint_to_json env (to_checkpoint_record c)))
     \<and> fits_json (av_replay_to_json env (replay_value x))"

lemma transaction_save_succeeds:
  assumes "rt_version rt \<noteq> 0" and "validate_identifier (rt_identifier rt v) = Inr ()" and "validate_idempotency_key (fst tx) = Inr ()"
    and "fits_json (rt_to_json rt v)" and "length (snd tx) < 256" and "(rt_collection rt, rt_identifier rt v) \<notin> set (map target (snd tx))"
  shows "\<exists>p. transaction_save rt v e tx = Inr (fst tx, snd tx @ [Save (rt_collection rt) (rt_version rt) (rt_identifier rt v) p (fst tx) e])"
proof -
  have "\<not> list_ex (\<lambda>c. target c = (rt_collection rt, rt_identifier rt v)) (snd tx)"
    using assms(6) by (auto simp: list_ex_iff image_iff)
  with assms show ?thesis by (auto simp: transaction_save_def prepare_save_def add_command_def)
qed

lemma append_transaction_succeeds:
  assumes "fits sealed env L x" and "encodable env x" and "is_audit_replay_id (lg_replay x)"
  shows "\<exists>tx. append_transaction env n (lg_replay x) (lg_digest x) (lg_entry x) = Inr tx"
proof -
  define key where "key = ''audit:'' @ lg_replay x"
  let ?rev = "if n = 0 then Missing else Exact n" and ?c = "le_checkpoint (lg_entry x)"
  have replay: "list_all visible (lg_replay x)" "lg_replay x \<noteq> []" "length (lg_replay x) \<le> 128"
    using assms(3) safe_visible [of "lg_replay x" 128] by (simp_all add: is_audit_replay_id_def is_safe_identifier_def)
  then have key: "validate_idempotency_key key = Inr ()" "database_replay_id (lg_replay x) = Inr key" "validate_identifier (lg_replay x) = Inr ()"
    by (auto intro!: validate_visible simp: visible_def key_def database_replay_id_def)
  have event: "is_lower_hex (ev_event_id (lg_event x)) 32"
    using assms(1) by (auto simp: fits_def item_ok_def event_from_record_def parse_corrupt_def to_event_record_def is_audit_event_id_def
        result_simps split: if_splits)
  have "validate_identifier (ev_event_id (lg_event x)) = Inr ()"
    by (rule validate_visible(1) [OF lower_hex_visible [OF event]]) (use event in \<open>auto simp: is_lower_hex_def\<close>)
  note ids = this key(3)
  have chain: "validate_identifier ''chain'' = Inr ()" by (rule validate_visible) (simp_all add: visible_def)
  note save = transaction_save_succeeds
  obtain p1 where t1: "transaction_save (state_type env) (state_after x) ?rev (key, []) = Inr (key, [Save AuditState 1 ''chain'' p1 key ?rev])"
    using save [of "state_type env" "state_after x" "(key, [])" ?rev] chain key(1) assms(2) by (auto simp: state_type_def encodable_def)
  let ?t1 = "(key, [Save AuditState 1 ''chain'' p1 key ?rev])"
  obtain p2 where t2: "transaction_save (event_type env) (to_event_record (lg_event x)) Missing ?t1
      = Inr (key, snd ?t1 @ [Save AuditEvents 1 (ev_event_id (lg_event x)) p2 key Missing])"
    using save [of "event_type env" "to_event_record (lg_event x)" ?t1 Missing] ids(1) key(1) assms(2)
    by (auto simp: event_type_def encodable_def to_event_record_def)
  let ?t2 = "(key, snd ?t1 @ [Save AuditEvents 1 (ev_event_id (lg_event x)) p2 key Missing])"
  have "\<exists>p3. (case ?c of None \<Rightarrow> Inr ?t2 | Some c \<Rightarrow> transaction_save (checkpoint_type env) (to_checkpoint_record c) Missing ?t2)
      = Inr (key, snd ?t2 @ checkpoint_commands x key p3)"
  proof (cases ?c)
    case (Some c)
    then have "cp_sequence c \<le> u64_max" using assms(1) by (auto simp: fits_def item_ok_def u64_max_def)
    with Some save [of "checkpoint_type env" "to_checkpoint_record c" ?t2 Missing] sequence_record_id_valid key(1) assms(2) show ?thesis
      by (auto simp: checkpoint_type_def encodable_def to_checkpoint_record_def checkpoint_commands_def)
  qed (simp add: checkpoint_commands_def)
  then obtain p3 where t3: "(case ?c of None \<Rightarrow> Inr ?t2 | Some c \<Rightarrow> transaction_save (checkpoint_type env) (to_checkpoint_record c) Missing ?t2)
      = Inr (key, snd ?t2 @ checkpoint_commands x key p3)" by blast
  let ?t3 = "(key, snd ?t2 @ checkpoint_commands x key p3)"
  have few: "length (checkpoint_commands x key p3) \<le> 1" "\<forall>c \<in> set (checkpoint_commands x key p3). pc_collection c = AuditCheckpoints"
    by (auto simp: checkpoint_commands_def split: option.splits)
  obtain tx where "transaction_save (replay_type env) (replay_value x) Missing ?t3 = Inr tx"
    using save [of "replay_type env" "replay_value x" ?t3 Missing] ids(2) key(1) assms(2) few
    by (auto simp: replay_type_def encodable_def replay_value_def)
  with t1 t2 t3 key(1,2) show ?thesis unfolding append_transaction_def Let_def replay_value_def
    by (cases ?c) (simp_all add: transaction_new_def map_err_def split del: if_split)
qed

text \<open>A save whose guard holds succeeds, and so do several on different records.\<close>

fun ready :: "prepared_command \<Rightarrow> db_row option \<Rightarrow> bool" where
  "ready (Save col version i p key Missing) old \<longleftrightarrow> old = None \<and> 0 < version"
| "ready (Save col version i p key (Exact n)) (Some row) \<longleftrightarrow>
     row_ok row \<and> row_version row = int version \<and> version \<le> u32_max \<and> row_revision row = int n \<and> n < 2 ^ 63 - 1"
| "ready c old \<longleftrightarrow> False"

lemma apply_ready:
  assumes "io_fault io = (\<lambda>_. None)" and "0 \<le> now" and "ready c (map_of t (target c))"
  shows "\<exists>commit t'. apply_command io c now t = Inr (commit, t') \<and> 0 \<le> cm_committed_at commit"
proof (cases "(c, map_of t (target c))" rule: ready.cases)
  case (1 col version i p key old)
  with assms save_creates [of io t col i version now p key] show ?thesis by (simp add: commit_of_def)
next
  case (2 col version i p key n row)
  then have c: "c = Save col version i p key (Exact n)" and row: "map_of t (col, i) = Some row" by auto
  with assms(3) have "row_ok row" "row_version row = int version" "version \<le> u32_max" "row_revision row = int n" "n < 2 ^ 63 - 1" by auto
  from save_replaces [OF assms(1) row this assms(2)] assms(2) show ?thesis by (simp add: c commit_of_def)
qed (use assms(3) in auto)

lemma apply_all_ready:
  assumes "io_fault io = (\<lambda>_. None)" and "0 \<le> now" and "\<forall>c \<in> set cs. ready c (map_of t (target c))" and "distinct (map target cs)"
  shows "\<exists>commits t'. apply_commands io cs now t = Inr (commits, t') \<and> length commits = length cs \<and> (\<forall>c \<in> set commits. 0 \<le> cm_committed_at c)"
  using assms(3,4)
proof (induction cs arbitrary: t)
  case (Cons c cs)
  obtain commit t1 where c: "apply_command io c now t = Inr (commit, t1)" "0 \<le> cm_committed_at commit"
    using apply_ready [OF assms(1,2), of c t] Cons.prems(1) by auto
  have "map_of t1 (target d) = map_of t (target d)" if "d \<in> set cs" for d
  proof -
    have "target c \<notin> target ` set cs" using Cons.prems(2) by simp
    then have "target d \<noteq> target c" using image_eqI [of "target c" target d "set cs", OF sym that] by blast
    then show ?thesis unfolding apply_command_effect(1) [OF c(1)] apply_effect_def by auto
  qed
  then obtain commits t' where "apply_commands io cs now t1 = Inr (commits, t')" "length commits = length cs" "\<forall>c \<in> set commits. 0 \<le> cm_committed_at c"
    using Cons.IH [of t1] Cons.prems by auto
  with c show ?case by auto
qed simp

lemma state_row:
  assumes "holds (state_type env) m (state_values L)" and "L \<noteq> []"
  shows "\<exists>row. m (AuditState, ''chain'') = Some row \<and> row_ok row \<and> row_version row = 1 \<and> row_revision row = int (length L)"
proof -
  obtain row where row: "m (AuditState, ''chain'') = Some row" "stored (state_type env) ''chain'' row (fst (hd (state_values L))) (length L)"
    using assms by (auto simp: holds_def state_values_def state_type_def)
  with assms(2) show ?thesis
    by (auto simp: stored_def decode_record_def revision_from_sql_def valid_timestamp_def row_ok_def state_type_def result_simps
        split: if_splits)
qed

lemma new_rows_missing:
  assumes "audit_rows env db L" and "ev_event_id (lg_event x) \<notin> (ev_event_id \<circ> lg_event) ` set L" and "lg_replay x \<notin> lg_replay ` set L"
  shows "map_of (db_records db) (AuditEvents, ev_event_id (lg_event x)) = None"
    and "map_of (db_records db) (AuditCheckpoints, sequence_record_id (Suc (length L))) = None"
    and "map_of (db_records db) (AuditReplays, lg_replay x) = None"
proof -
  have h: "log_ok L" "holds (event_type env) (map_of (db_records db)) (event_values L)"
      "holds (checkpoint_type env) (map_of (db_records db)) (checkpoint_values L)" "holds (replay_type env) (map_of (db_records db)) (replay_values L)"
    using assms(1) by (simp_all add: audit_rows_def)
  show "map_of (db_records db) (AuditEvents, ev_event_id (lg_event x)) = None"
    using h(2) assms(2) by (auto simp: holds_def event_values_def event_type_def to_event_record_def)
  show "map_of (db_records db) (AuditReplays, lg_replay x) = None"
    using h(4) assms(3) by (auto simp: holds_def replay_values_def replay_type_def replay_value_def)
  have "cp_sequence c \<noteq> Suc (length L)" if c: "c \<in> set (log_checkpoints L)" for c
  proof -
    from c obtain y where "y \<in> set L" "le_checkpoint (lg_entry y) = Some c" by (auto simp: log_checkpoints_set)
    with h(1) show ?thesis by (auto simp: in_set_conv_nth log_ok_def item_ok_def)
  qed
  then have "sequence_record_id (Suc (length L)) \<notin> (sequence_record_id \<circ> cp_sequence) ` set (log_checkpoints L)"
    using sequence_record_id_inject by fastforce
  moreover have "cr_record_id ` fst ` set (checkpoint_values L) = (sequence_record_id \<circ> cp_sequence) ` set (log_checkpoints L)"
    by (simp add: checkpoint_values_def to_checkpoint_record_def image_image)
  ultimately show "map_of (db_records db) (AuditCheckpoints, sequence_record_id (Suc (length L))) = None"
    using h(3) by (simp add: holds_def checkpoint_type_def image_comp)
qed

lemma write_succeeds:
  assumes state: "audit_state sealed env db L" and "\<not> db_closed db" and fits: "fits sealed env L x"
    and fresh: "ev_event_id (lg_event x) \<notin> (ev_event_id \<circ> lg_event) ` set L" "lg_replay x \<notin> lg_replay ` set L"
    and tx: "append_transaction env (length L) (lg_replay x) (lg_digest x) (lg_entry x) = Inr tx"
    and io: "io_fault io = (\<lambda>_. None)" "io_clock io = Inr now" "0 \<le> now" and json: "\<And>cs. commits_to_json cd cs \<noteq> None"
  shows "\<exists>commits db'. database_write_transaction cd io tx db = (Inr (commits, Applied), db')"
proof -
  have rows: "audit_rows env db L" and keys: "map_of (db_replays db) (''audit:'' @ lg_replay x) = None"
    using state fresh(2) by (auto simp: audit_state_def replay_keys_def)
  from tx obtain key p1 p2 p3 p4 where cs: "tx = (key, [Save AuditState 1 ''chain'' p1 key (if length L = 0 then Missing else Exact (length L)),
       Save AuditEvents 1 (ev_event_id (lg_event x)) p2 key Missing] @ checkpoint_commands x key p3
       @ [Save AuditReplays 1 (lg_replay x) p4 key Missing])" and key: "key = ''audit:'' @ lg_replay x"
    by (rule append_transaction_Inr) blast
  have "ready (Save AuditState 1 ''chain'' p1 key (if length L = 0 then Missing else Exact (length L))) (map_of (db_records db) (AuditState, ''chain''))"
  proof (cases "L = []")
    case True
    with rows show ?thesis by (simp add: audit_rows_def holds_def state_values_def state_type_def)
  next
    case False
    with state_row [of env "map_of (db_records db)" L] rows fits show ?thesis by (auto simp: audit_rows_def fits_def u32_max_def)
  qed
  moreover have "\<forall>c. le_checkpoint (lg_entry x) = Some c \<longrightarrow> cp_sequence c = Suc (length L)" using fits by (simp add: fits_def item_ok_def)
  ultimately have "\<forall>c \<in> set (snd tx). ready c (map_of (db_records db) (target c))"
    unfolding cs using new_rows_missing [OF rows fresh] by (auto simp: checkpoint_commands_def split: option.splits)
  moreover have "distinct (map target (snd tx))" unfolding cs by (auto simp: checkpoint_commands_def split: option.splits)
  ultimately obtain commits t' where run: "apply_commands io (snd tx) now (db_records db) = Inr (commits, t')" "length commits = length (snd tx)"
    "\<forall>c \<in> set commits. 0 \<le> cm_committed_at c" using apply_all_ready [OF io(1,3)] by blast
  moreover have "commits \<noteq> []" "snd tx \<noteq> []" using run(2) cs by auto
  moreover have "list_all (\<lambda>c. pc_key c = fst tx) (snd tx)" unfolding cs by (auto simp: checkpoint_commands_def split: option.splits)
  moreover obtain j where "commits_to_json cd commits = Some j" using json by blast
  ultimately show ?thesis
    using run_transaction_succeeds [OF io(1,2,3), of db "fst tx" "snd tx" commits t' cd j] keys assms(2) cs key
    by (auto simp: database_write_transaction_def)
qed

section \<open>An append that succeeds\<close>

lemma replay_absent:
  assumes "fault_free w" and "alone w" and "audit_state sealed env db L" and "\<not> db_closed db" and "is_audit_replay_id i" and "i \<notin> lg_replay ` set L"
  shows "store_replay env w i (k, db) = (Inr None, (Suc k, db))"
proof -
  have "map_of (db_records db) (AuditReplays, i) = None"
    using state_holds(4) [OF assms(3)] assms(6) by (auto simp: holds_def replay_values_def replay_type_def replay_value_def)
  moreover have "validate_identifier i = Inr ()"
    using assms(5) safe_visible [of i 128] by (intro validate_visible) (simp_all add: is_audit_replay_id_def is_safe_identifier_def)
  ultimately have "read_one_record (replay_type env) (aw_io w k) i db = Inl (NotFound AuditReplays i)"
    using assms(1,4) by (simp add: read_one_record_def replay_type_def fault_free_def sql_def)
  with assms(2) show ?thesis
    by (simp add: store_replay_def run_bind_def access_read_def access_def read_replay_def run_lift_def alone_def)
qed

lemma verified_ledger: "audit_state True env db L \<Longrightarrow> \<exists>v. verify_ledger (av_manager env) (ledger_of L) = Inr v"
  by (auto simp: audit_state_def verify_ledger_def)

lemma next_entry_event:
  assumes "next_entry env w n r i t l = Inr entry"
  shows "event_request_sha256 (av_manager env) (le_event entry) = request_sha256 (av_manager env) (am_node_id (av_manager env)) r"
    and "ev_event_id (le_event entry) = i"
proof -
  from assms obtain m p e where "chained_event (av_manager env) m i t (am_node_id (av_manager env)) r p = Inr e" "le_event entry = e"
    by (auto simp: next_entry_def ledger_entry_new_def map_err_def Let_def result_simps split: if_splits sum.splits)
  with chained_event_Inr(4) [OF this(1)] obtain h where "le_event entry = unsigned_event m i t (am_node_id (av_manager env)) r p h" by metis
  then show "event_request_sha256 (av_manager env) (le_event entry) = request_sha256 (av_manager env) (am_node_id (av_manager env)) r"
    and "ev_event_id (le_event entry) = i"
    by (simp_all add: event_request_sha256_def request_sha256_def request_fields_def event_request_def unsigned_event_def)
qed

lemma store_append_succeeds:
  assumes env: "fault_free w" "alone w" "\<And>k. \<exists>now. io_clock (aw_io w k) = Inr now \<and> 0 \<le> now" "json_ok env"
      "\<And>cs. commits_to_json (av_codec env) cs \<noteq> None"
    and state: "audit_state sealed env db L" "\<not> db_closed db" and fits: "fits sealed env L x" and "encodable env x" and "is_audit_replay_id (lg_replay x)"
    and fresh: "ev_event_id (lg_event x) \<notin> (ev_event_id \<circ> lg_event) ` set L" "lg_replay x \<notin> lg_replay ` set L"
  obtains s' where "store_append env w (length L) (lg_replay x) (lg_digest x) (lg_entry x) (k, db)
      = (Inr \<lparr>rc_request_sha256 = lg_digest x, rc_entry = lg_entry x, rc_disposition = AppendApplied, rc_revision = length L + 1\<rparr>, s')"
    "audit_state sealed env (snd s') (L @ [x])"
proof -
  obtain tx where tx: "append_transaction env (length L) (lg_replay x) (lg_digest x) (lg_entry x) = Inr tx"
    using append_transaction_succeeds [OF fits assms(9,10)] by blast
  obtain now where now: "io_clock (aw_io w (Suc k)) = Inr now" "0 \<le> now" using env(3) by blast
  have quiet_io: "io_fault (aw_io w (Suc k)) = (\<lambda>_. None)" using env(1) by (simp add: fault_free_def)
  from write_succeeds [OF state fits fresh tx quiet_io now env(5)] obtain commits db'
    where run: "database_write_transaction (av_codec env) (aw_io w (Suc k)) tx db = (Inr (commits, Applied), db')" by blast
  from write_applied [OF env(4) tx fits _ state(1) run] have "audit_state sealed env db' (L @ [x])" by simp
  moreover have "ev_sequence (lg_event x) = saturating_add64 (length L) 1"
    using fits by (simp add: fits_def item_ok_def saturating_add64_def u64_max_def)
  ultimately show ?thesis
    using that [of "(Suc (Suc k), db')"] replay_absent [OF env(1,2) state assms(10) fresh(2), of k] tx run env(2)
    by (simp add: store_append_def run_bind_def run_lift_def run_handle_def access_def alone_def disposition_receipt_def)
qed

text \<open>
  Providers that answer: the JSON encoder takes every map of strings and numbers, SHA-256 gives 32 bytes,
  a signature has between 1 and 4096 bytes, and the random source and the clock answer.
\<close>

definition providers_answer :: "audit_env \<Rightarrow> audit_world \<Rightarrow> bool" where
  "providers_answer env w \<longleftrightarrow> (\<forall>m. am_json (av_manager env) m \<noteq> None) \<and> (\<forall>bytes. length (am_sha256 (av_manager env) bytes) = 32)
     \<and> (\<forall>bytes. \<exists>signature. am_sign (av_manager env) bytes = Inr signature \<and> signature \<noteq> [] \<and> length signature \<le> 4096)
     \<and> (\<exists>i. aw_event_id w = Inr i) \<and> (\<forall>n. \<exists>t. aw_now w n = Inr t)"

lemma decode_pairs_total: "list_all lower_hex_char s \<Longrightarrow> even (length s) \<Longrightarrow> \<exists>bs. decode_pairs s = Some bs"
proof (induction s rule: decode_pairs.induct)
  case (1 a b r)
  have "hexadecimal_nibble c \<noteq> None" if "lower_hex_char c" for c
    using that by (auto simp: lower_hex_char_def hexadecimal_nibble_def)
  then obtain x y where "hexadecimal_nibble a = Some x" "hexadecimal_nibble b = Some y" using 1(2) by fastforce
  moreover obtain bs where "decode_pairs r = Some bs" using 1 by auto
  ultimately show ?case by simp
qed auto

lemma sha256_text_answers: "length (am_sha256 am bytes) = 32 \<Longrightarrow> \<exists>h. sha256_text am reason bytes = Inr h"
  using hexadecimal_lower_hex [of "am_sha256 am bytes"] by (simp add: sha256_text_def)

lemma request_digest_answers:
  assumes "providers_answer env w"
  shows "\<exists>digest. request_sha256 (av_manager env) node r = Inr digest"
proof -
  obtain bs where "am_json (av_manager env) (request_fields node r) = Some bs" using assms unfolding providers_answer_def by fast
  then show ?thesis using assms sha256_text_answers by (simp add: request_sha256_def canonical_map_bytes_def providers_answer_def)
qed

lemma event_sha256_answers:
  assumes "providers_answer env w" and "is_sha256_digest (ev_previous_hash e)"
  shows "\<exists>h. event_sha256 (av_manager env) e = Inr h"
proof -
  obtain bs where "decode_pairs (ev_previous_hash e) = Some bs"
    using decode_pairs_total [of "ev_previous_hash e"] assms(2) by (auto simp: is_lower_hex_def)
  moreover obtain m where "am_json (av_manager env) (event_fields e) = Some m" using assms(1) unfolding providers_answer_def by fast
  ultimately show ?thesis
    using assms sha256_text_answers
    by (simp add: event_sha256_def decode_sha256_def decode_hexadecimal_def canonical_event_bytes_def canonical_map_bytes_def
        providers_answer_def is_lower_hex_def)
qed

text \<open>A valid request always has its next entry, as long as the log has room.\<close>

lemma next_entry_answers:
  assumes "providers_answer env w" and "audit_request_new r = Inr r" and "log_ok L" and "Suc (length L) < 2 ^ 63"
  shows "\<exists>entry. next_entry env w n r i t (ledger_of L) = Inr entry"
proof -
  let ?am = "av_manager env" and ?prev = "if L = [] then AUDIT_GENESIS_HASH else ev_event_hash (lg_event (last L))"
  let ?e = "unsigned_event (Suc (length L)) i t (am_node_id ?am) r ?prev"
  have prev: "is_sha256_digest ?prev" using log_hash_digest [OF assms(3)] genesis_digest by auto
  have reason: "\<not> (aq_outcome r = OutcomeSuccess \<and> aq_reason r \<noteq> None) \<and> \<not> (aq_outcome r \<noteq> OutcomeSuccess \<and> aq_reason r = None)"
    using assms(2) by (auto simp: audit_request_new_def split: if_splits)
  have ok: "event_from_persisted (?e h) = Inr (?e h)" for h
    using assms(4) reason by (auto simp: event_from_persisted_def unsigned_event_def)
  obtain h where "event_sha256 ?am (?e AUDIT_GENESIS_HASH) = Inr h"
    using event_sha256_answers [OF assms(1), of "?e AUDIT_GENESIS_HASH"] prev by (auto simp: unsigned_event_def)
  then have chained: "chained_event ?am (Suc (length L)) i t (am_node_id ?am) r ?prev = Inr (?e h)" by (simp add: chained_event_def ok)
  obtain signature u where sign: "am_sign ?am (ascii h) = Inr signature" "signature \<noteq> []" "length signature \<le> 4096" "aw_now w (Suc n) = Inr u"
    using assms(1) unfolding providers_answer_def by metis
  have "\<exists>c. audit_checkpoint_for env w n (?e h) = Inr c \<and> (\<forall>d. c = Some d \<longrightarrow> cp_sequence d = Suc (length L) \<and> cp_event_hash d = h)"
    using sign assms(4) by (auto simp: audit_checkpoint_for_def checkpoint_from_persisted_def unsigned_event_def)
  then obtain c where c: "audit_checkpoint_for env w n (?e h) = Inr c" "ledger_entry_new (?e h) c = Inr \<lparr>le_event = ?e h, le_checkpoint = c\<rparr>"
    by (auto simp: ledger_entry_new_def unsigned_event_def split: option.splits)
  have "(case ledger_head (ledger_of L) of None \<Rightarrow> AUDIT_GENESIS_HASH | Some e \<Rightarrow> ev_event_hash e) = ?prev"
    by (simp add: ledger_head_def last_map)
  then show ?thesis
    using chained c assms(4) by (simp add: next_entry_def checked_add64_def u64_max_def Let_def map_err_def)
qed

lemma attempt_succeeds:
  assumes env: "fault_free w" "alone w" "\<And>k. \<exists>now. io_clock (aw_io w k) = Inr now \<and> 0 \<le> now" "json_ok env"
      "\<And>cs. commits_to_json (av_codec env) cs \<noteq> None" "providers_ok env w" and req: "request_ok r"
    and state: "audit_state True env db L" "\<not> db_closed db"
    and fresh: "aq_replay_id r \<notin> lg_replay ` set L" "i \<notin> (ev_event_id \<circ> lg_event) ` set L"
    and digest: "request_sha256 (av_manager env) (am_node_id (av_manager env)) r = Inr digest"
    and now: "aw_event_id w = Inr i" "aw_now w 0 = Inr t" and entry: "next_entry env w n r i t (ledger_of L) = Inr entry"
    and json: "encodable env \<lparr>lg_entry = entry, lg_replay = aq_replay_id r, lg_digest = digest\<rparr>"
  obtains rc s' where "append_attempts env w r digest i t (Suc n) (k, db) = (Inr rc, s')" "rc_entry rc = entry" "rc_disposition rc = AppendApplied"
    "audit_state (clock_steady w) env (snd s') (L @ [\<lparr>lg_entry = entry, lg_replay = aq_replay_id r, lg_digest = digest\<rparr>])"
proof -
  let ?x = "\<lparr>lg_entry = entry, lg_replay = aq_replay_id r, lg_digest = digest\<rparr>"
    and ?rc = "\<lparr>rc_request_sha256 = digest, rc_entry = entry, rc_disposition = AppendApplied, rc_revision = length L + 1\<rparr>"
  obtain v where v: "verify_ledger (av_manager env) (ledger_of L) = Inr v" using verified_ledger [OF state(1)] by blast
  note event = next_entry_event [OF entry]
  have fits: "fits (clock_steady w) env L ?x"
    by (rule next_entry_fits [OF env(6) _ req request_digest [OF digest] state_table(2) [OF state(1)] v now(2,1) entry]) simp
  obtain s' where app: "store_append env w (length L) (aq_replay_id r) digest entry (k + 4, db) = (Inr ?rc, s')"
      "audit_state (clock_steady w) env (snd s') (L @ [?x])"
    by (rule store_append_succeeds [OF env(1-5) state_weaken [OF state(1)] state(2) fits, of "k + 4"])
      (use json req fresh event(2) in \<open>auto simp: request_ok_def\<close>)
  have "Suc (length L) \<le> u64_max" using fits by (simp add: fits_def u64_max_def)
  then have "validate_append_receipt env w digest entry (length L) ?rc s' = (Inr ?rc, s')"
    using event(1) digest
    by (simp add: validate_append_receipt_def run_bind_def run_lift_def require_request_def saturating_add64_def)
  then have "append_attempts env w r digest i t (Suc n) (k, db) = (Inr ?rc, s')"
    using ledger_complete [OF env(1,2) state, of k] v entry app(1) unfolding append_attempts.simps
    by (simp add: run_bind_def run_lift_def run_err_def run_handle_def map_err_def)
  then show ?thesis by (rule that) (simp_all add: app(2))
qed

lemma append_new_request:
  assumes "fault_free w" and "alone w" and "audit_state sealed env db L" and "\<not> db_closed db" and "request_ok r" and "aq_replay_id r \<notin> lg_replay ` set L"
    and "request_sha256 (av_manager env) (am_node_id (av_manager env)) r = Inr digest" and "aw_event_id w = Inr i" and "aw_now w 0 = Inr t"
  shows "audit_append env w r (k, db) = append_attempts env w r digest i t 8 (Suc k, db)"
  using replay_absent [OF assms(1-4) _ assms(6), of k] assms(5,7-)
  by (simp add: audit_append_def run_bind_def run_lift_def run_err_def map_err_def request_ok_def)

text \<open>
  C17: An append makes progress. Without interference and engine failures, on an open database whose log
  verifies and has room, with providers that answer, an append of a valid request under a new replay
  identity and a new event identity succeeds in the first attempt, and the log grows by exactly the item
  of the request, whatever the clock does; when the clock did not step back between the timestamps of the
  event and of its checkpoint, the new log verifies too. The hypotheses are those on the providers, that
  JSON reads back, and that the records of the new entry have a JSON form within the database's limit of
  1 MiB.
\<close>

theorem audit_append_succeeds:
  assumes "fault_free w" and "alone w" and "\<And>k. \<exists>now. io_clock (aw_io w k) = Inr now \<and> 0 \<le> now" and "json_ok env"
    and "\<And>cs. commits_to_json (av_codec env) cs \<noteq> None" and "providers_ok env w" and "request_ok r"
    and "audit_state True env db L" and "\<not> db_closed db" and "aq_replay_id r \<notin> lg_replay ` set L"
    and "providers_answer env w" and "audit_request_new r = Inr r" and "Suc (length L) < 2 ^ 63"
    and "\<And>i. aw_event_id w = Inr i \<Longrightarrow> i \<notin> (ev_event_id \<circ> lg_event) ` set L"
    and "\<And>i t entry digest. next_entry env w 7 r i t (ledger_of L) = Inr entry \<Longrightarrow> aw_event_id w = Inr i \<Longrightarrow> aw_now w 0 = Inr t \<Longrightarrow>
      request_sha256 (av_manager env) (am_node_id (av_manager env)) r = Inr digest \<Longrightarrow>
      encodable env \<lparr>lg_entry = entry, lg_replay = aq_replay_id r, lg_digest = digest\<rparr>"
  shows "\<exists>rc s' x. audit_append env w r (k, db) = (Inr rc, s') \<and> rc_disposition rc = AppendApplied \<and> rc_entry rc = lg_entry x
    \<and> lg_replay x = aq_replay_id r \<and> request_sha256 (av_manager env) (am_node_id (av_manager env)) r = Inr (lg_digest x)
    \<and> event_request_sha256 (av_manager env) (lg_event x) = Inr (lg_digest x)
    \<and> audit_state (clock_steady w) env (snd s') (L @ [x])"
proof -
  obtain digest where digest: "request_sha256 (av_manager env) (am_node_id (av_manager env)) r = Inr digest"
    using request_digest_answers [OF assms(11)] by blast
  obtain i t where i: "aw_event_id w = Inr i" "aw_now w 0 = Inr t" using assms(11) unfolding providers_answer_def by metis
  obtain entry where entry: "next_entry env w 7 r i t (ledger_of L) = Inr entry"
    using next_entry_answers [OF assms(11,12) state_table(2) [OF assms(8)] assms(13)] by blast
  let ?x = "\<lparr>lg_entry = entry, lg_replay = aq_replay_id r, lg_digest = digest\<rparr>"
  have json: "encodable env ?x" by (rule assms(15) [OF entry i digest])
  have eight: "(8 :: nat) = Suc 7" by simp
  obtain rc s' where "append_attempts env w r digest i t (Suc 7) (Suc k, db) = (Inr rc, s')" "rc_entry rc = entry" "rc_disposition rc = AppendApplied"
      "audit_state (clock_steady w) env (snd s') (L @ [?x])"
    by (rule attempt_succeeds [OF assms(1-10) assms(14) [OF i(1)] digest i entry json])
  then have "audit_append env w r (k, db) = (Inr rc, s') \<and> rc_disposition rc = AppendApplied \<and> rc_entry rc = lg_entry ?x
      \<and> lg_replay ?x = aq_replay_id r \<and> request_sha256 (av_manager env) (am_node_id (av_manager env)) r = Inr (lg_digest ?x)
      \<and> event_request_sha256 (av_manager env) (lg_event ?x) = Inr (lg_digest ?x) \<and> audit_state (clock_steady w) env (snd s') (L @ [?x])"
    unfolding append_new_request [OF assms(1,2,8,9,7,10) digest i] eight
    using next_entry_event(1) [OF entry] digest by (simp del: append_attempts.simps)
  then show ?thesis by blast
qed

section \<open>An example\<close>

text \<open>One request, providers with fixed answers, and a checkpoint for every event.\<close>

definition sample_request :: audit_request where
  "sample_request =
     \<lparr>aq_replay_id = ''r1'', aq_correlation_id = replicate 32 CHR ''c'', aq_actor = \<lparr>ac_kind = SystemActor, ac_identifier = ''node''\<rparr>,
      aq_origin = \<lparr>ao_node_id = replicate 32 CHR ''a'', ao_interface = SystemOrigin\<rparr>, aq_action = ''start'', aq_target = ''node'',
      aq_before = None, aq_after = None, aq_outcome = OutcomeSuccess, aq_reason = None\<rparr>"

definition sample_hash :: string where
  "sample_hash = hexadecimal (replicate 32 17)"

definition sample_entry :: ledger_entry where
  "sample_entry =
     \<lparr>le_event = unsigned_event 1 (replicate 32 CHR ''e'') 5 (replicate 32 CHR ''a'') sample_request AUDIT_GENESIS_HASH sample_hash,
      le_checkpoint = Some \<lparr>cp_sequence = 1, cp_event_hash = sample_hash, cp_signature = [1], cp_created_at = 5\<rparr>\<rparr>"

definition sample_item :: log_item where
  "sample_item = \<lparr>lg_entry = sample_entry, lg_replay = ''r1'', lg_digest = sample_hash\<rparr>"

definition fixed_json :: "'a \<Rightarrow> 'a \<Rightarrow> byte list option" where
  "fixed_json v w = (if w = v then Some [1] else None)"

definition fixed_value :: "'a \<Rightarrow> byte list \<Rightarrow> 'a option" where
  "fixed_value v bytes = (if bytes = [1] then Some v else None)"

definition sample_env :: audit_env where
  "sample_env =
     \<lparr>av_manager = \<lparr>am_node_id = replicate 32 CHR ''a'', am_interval = 1, am_sha256 = (\<lambda>_. replicate 32 17),
        am_json = (\<lambda>_. Some [1]), am_sign = (\<lambda>_. Inr [1]), am_verify = (\<lambda>_ _. Inr True)\<rparr>,
      av_codec = example_codec\<lparr>commits_to_json := \<lambda>_. Some [1]\<rparr>,
      av_state_to_json = fixed_json (state_after sample_item), av_state_from_json = fixed_value (state_after sample_item),
      av_event_to_json = fixed_json (to_event_record (lg_event sample_item)),
      av_event_from_json = fixed_value (to_event_record (lg_event sample_item)),
      av_checkpoint_to_json = fixed_json (to_checkpoint_record (the (le_checkpoint sample_entry))),
      av_checkpoint_from_json = fixed_value (to_checkpoint_record (the (le_checkpoint sample_entry))),
      av_replay_to_json = fixed_json (replay_value sample_item), av_replay_from_json = fixed_value (replay_value sample_item)\<rparr>"

definition sample_world :: audit_world where
  "sample_world = \<lparr>aw_io = (\<lambda>_. example_io), aw_others = (\<lambda>_ db. db), aw_event_id = Inr (replicate 32 CHR ''e''), aw_now = (\<lambda>_. Inr 5)\<rparr>"

lemma sample_world_facts:
  "fault_free sample_world" "alone sample_world" "\<exists>now. io_clock (aw_io sample_world k) = Inr now \<and> 0 \<le> now"
  "commits_to_json (av_codec sample_env) cs \<noteq> None" "\<not> db_closed empty_database"
  by (simp_all add: fault_free_def alone_def sample_world_def sample_env_def example_io_def empty_database_def)

lemma sample_answers: "aw_event_id sample_world = Inr (replicate 32 CHR ''e'')" "aw_now sample_world j = Inr 5"
  by (simp_all add: sample_world_def)

lemma sample_json: "json_ok sample_env" "encodable sample_env sample_item"
  by (simp_all add: json_ok_def encodable_def sample_env_def fixed_json_def fixed_value_def sample_item_def)

lemma sample_valid:
  "request_ok sample_request" "is_sha256_digest sample_hash" "is_sha256_digest (hexadecimal (replicate 32 17))"
  by code_simp+

lemma sample_providers: "providers_ok sample_env sample_world" "clock_steady sample_world" "providers_answer sample_env sample_world"
proof -
  have "is_lower_hex (replicate 32 CHR ''a'') 32" "is_audit_event_id (replicate 32 CHR ''e'')" by code_simp+
  then show "providers_ok sample_env sample_world" by (simp add: providers_ok_def sample_env_def sample_world_def is_audit_timestamp_def)
  show "clock_steady sample_world" by (simp add: clock_steady_def sample_world_def)
  show "providers_answer sample_env sample_world" by (simp add: providers_answer_def sample_env_def sample_world_def)
qed

lemma sample_digest: "request_sha256 (av_manager sample_env) (am_node_id (av_manager sample_env)) sample_request = Inr sample_hash"
  using sample_valid(3) by (simp add: request_sha256_def canonical_map_bytes_def sha256_text_def sample_env_def sample_hash_def)

lemma sample_next: "next_entry sample_env sample_world n sample_request (replicate 32 CHR ''e'') 5 (ledger_of []) = Inr sample_entry"
proof -
  have "decode_sha256 AUDIT_GENESIS_HASH = Inr (replicate 32 0)" by code_simp
  with sample_valid(3) show ?thesis
    by (simp add: next_entry_def chained_event_def event_from_persisted_def event_sha256_def canonical_event_bytes_def canonical_map_bytes_def
        sha256_text_def audit_checkpoint_for_def requires_checkpoint_def checkpoint_from_persisted_def ledger_entry_new_def ledger_head_def
        checked_add64_def u64_max_def unsigned_event_def sample_entry_def sample_env_def sample_world_def sample_request_def sample_hash_def
        Let_def map_err_def)
qed

lemma empty_log: "audit_state sealed env empty_database L \<longleftrightarrow> L = []"
proof
  assume "audit_state sealed env empty_database L"
  from state_holds(2) [OF this] show "L = []"
    by (cases L) (auto simp: holds_def empty_database_def event_values_def)
next
  show "L = [] \<Longrightarrow> audit_state sealed env empty_database L"
    by (simp add: audit_state_def audit_rows_def replay_keys_def log_ok_def holds_def empty_database_def state_values_def event_values_def
        checkpoint_values_def replay_values_def log_checkpoints_def List.map_filter_def)
qed

text \<open>The first append, and the database it leaves.\<close>

lemma sample_item_new: "\<lparr>lg_entry = sample_entry, lg_replay = aq_replay_id sample_request, lg_digest = sample_hash\<rparr> = sample_item"
  by (simp add: sample_item_def sample_request_def)

lemmas sample_facts = sample_world_facts(1-3) sample_json(1) sample_world_facts(4) sample_providers(1) sample_valid(1)
  empty_log [THEN iffD2, OF refl] sample_world_facts(5)

lemma sample_attempt:
  obtains rc s' where "append_attempts sample_env sample_world sample_request sample_hash (replicate 32 CHR ''e'') 5 (Suc n) (k, empty_database)
      = (Inr rc, s')" "rc_entry rc = sample_entry" "rc_disposition rc = AppendApplied" "audit_state True sample_env (snd s') [sample_item]"
  by (rule attempt_succeeds [OF sample_facts _ _ sample_digest sample_answers sample_next, where k = k and n = n])
    (use that sample_providers(2) in \<open>auto simp: sample_item_new sample_json simp del: append_attempts.simps\<close>)

lemma sample_append:
  "audit_append sample_env sample_world sample_request (k, empty_database)
    = append_attempts sample_env sample_world sample_request sample_hash (replicate 32 CHR ''e'') 5 8 (Suc k, empty_database)"
  by (rule append_new_request [OF sample_world_facts(1,2) empty_log [THEN iffD2, OF refl] sample_world_facts(5) sample_valid(1) _ sample_digest])
    (simp_all add: sample_world_def)

definition sample_database :: database where
  "sample_database = snd (snd (append_attempts sample_env sample_world sample_request sample_hash (replicate 32 CHR ''e'') 5 1 (0, empty_database)))"

lemma sample_log: "audit_state True sample_env sample_database [sample_item]"
  unfolding sample_database_def using sample_attempt [of 0 0] by (metis One_nat_def snd_conv)

theorem audit_append_succeeds_witness:
  "\<exists>rc s' x. audit_append sample_env sample_world sample_request (0, empty_database) = (Inr rc, s')
    \<and> rc_disposition rc = AppendApplied \<and> lg_replay x = ''r1'' \<and> audit_state True sample_env (snd s') [x]"
proof -
  have "audit_request_new sample_request = Inr sample_request" by (simp add: audit_request_new_def sample_request_def)
  then have "\<exists>rc s' x. audit_append sample_env sample_world sample_request (0, empty_database) = (Inr rc, s') \<and> rc_disposition rc = AppendApplied
      \<and> rc_entry rc = lg_entry x \<and> lg_replay x = aq_replay_id sample_request
      \<and> request_sha256 (av_manager sample_env) (am_node_id (av_manager sample_env)) sample_request = Inr (lg_digest x)
      \<and> event_request_sha256 (av_manager sample_env) (lg_event x) = Inr (lg_digest x)
      \<and> audit_state (clock_steady sample_world) sample_env (snd s') ([] @ [x])"
    by (intro audit_append_succeeds [OF sample_facts _ sample_providers(3)])
      (auto simp: sample_answers sample_next [simplified] sample_digest sample_item_new sample_json)
  then show ?thesis using sample_providers(2) by (auto simp: sample_request_def)
qed

theorem audit_append_extends_log_witness:
  "\<exists>L'. audit_state True sample_env (snd (snd (audit_append sample_env sample_world sample_request (0, empty_database)))) L'
    \<and> (\<exists>!x. x \<in> set L' \<and> lg_replay x = ''r1'')"
proof -
  have "(8 :: nat) = Suc 7" by simp
  then obtain rc k' db' where run: "audit_append sample_env sample_world sample_request (0, empty_database) = (Inr rc, (k', db'))"
    using sample_attempt [of 7 1] sample_append [of 0] by (metis One_nat_def surj_pair)
  from audit_append_extends_log [OF alone_appends [OF sample_world_facts(2)] sample_json(1) sample_providers(1) _ sample_valid(1)
      empty_log [THEN iffD2, OF refl] run, of True] sample_providers(2)
  have "\<exists>L'. audit_state True sample_env db' L' \<and> (\<exists>!x. x \<in> set L' \<and> lg_replay x = aq_replay_id sample_request)" by blast
  then show ?thesis unfolding run by (simp add: sample_request_def)
qed

theorem audit_append_replays_witness:
  "snd (snd (audit_append sample_env sample_world sample_request (0, sample_database))) = sample_database"
proof -
  obtain res k' db' where run: "audit_append sample_env sample_world sample_request (0, sample_database) = (res, (k', db'))" by (metis surj_pair)
  have "fold (\<lambda>_ db. db) ks (d :: database) = d" for ks d by (induction ks) auto
  with audit_append_replays [OF alone_appends [OF sample_world_facts(2)] sample_log _ _ run, of sample_item] run show ?thesis
    by (simp add: sample_item_def sample_request_def sample_world_def)
qed

text \<open>Another process commits the first event between the first and the second read.\<close>

definition overlap_world :: audit_world where
  "overlap_world = sample_world\<lparr>aw_others := \<lambda>j db. (if j = 1 \<and> db = empty_database then sample_database else db)\<lparr>db_closed := False\<rparr>\<rparr>"

lemma closed_irrelevant [simp]: "audit_state sealed env (db\<lparr>db_closed := b\<rparr>) L \<longleftrightarrow> audit_state sealed env db L"
  by (simp add: audit_state_def audit_rows_def replay_keys_def)

lemma overlap_appends: "others_append True sample_env overlap_world"
  using sample_log empty_log by (auto simp: others_append_def overlap_world_def)

theorem overlapping_append_reports_corruption_witness:
  "audit_state True sample_env (aw_others overlap_world 1 (aw_others overlap_world 0 empty_database)) [sample_item]
    \<and> fst (append_attempts sample_env overlap_world sample_request sample_hash (replicate 32 CHR ''f'') 5 8 (0, empty_database))
      = Inl (AuditStore AuditCorrupt)"
proof -
  have open0: "empty_database\<lparr>db_closed := False\<rparr> = empty_database" by (simp add: empty_database_def)
  have states: "audit_state True sample_env (aw_others overlap_world 0 empty_database) []"
    "audit_state True sample_env (aw_others overlap_world (Suc 0) (aw_others overlap_world 0 empty_database)) [sample_item]"
    using sample_log empty_log by (simp_all add: overlap_world_def open0)
  have "fault_free overlap_world" "\<And>j d. \<not> db_closed (aw_others overlap_world j d)"
    using sample_world_facts(1) by (simp_all add: fault_free_def overlap_world_def)
  from overlapping_append_reports_corruption [OF overlap_appends this states, of sample_request sample_hash "replicate 32 CHR ''f''" 5 7] states(2)
  show ?thesis by (simp add: eval_nat_numeral del: append_attempts.simps)
qed

end
